(* ===== verification/Prelude.thy ===== *)
theory Prelude
  imports Main "HOL-Library.Word"
begin

text \<open>
  Shared vocabulary of the development: the machine integer types of the sources, the error
  values, the result type with the \<open>?\<close> operator of Rust (\<open>and_then\<close>), loops that stop at the
  first error (\<open>try_fold\<close>), and the collections of facts the component theories use.

  A Rust \<open>Result<T, E>\<close> is a value of \<open>error + 'a\<close>: \<open>Inl\<close> for \<open>Err\<close>, \<open>Inr\<close> for \<open>Ok\<close>. The text of an
  error message is not modelled, its kind is. A Rust panic (unwrap on an error, an operator that
  overflows, an index out of range) is the error \<open>Panic\<close>; both end the call without a result.
\<close>

named_theorems result_iff "characterisations of successful results"
named_theorems math_iff "characterisations of checked arithmetic over natural numbers"

subsection \<open>Machine integers and addresses\<close>

type_synonym u8 = "8 word"
type_synonym u16 = "16 word"
type_synonym u32 = "32 word"
type_synonym u64 = "64 word"
type_synonym u128 = "128 word"
type_synonym u256 = "256 word"

text \<open>An account address is 20 bytes; only its identity and its order matter.\<close>

type_synonym addr = "160 word"

subsection \<open>Errors\<close>

datatype math_error =
    ParseNumber
  | OverflowConversion
  | OverflowAdd
  | OverflowSub
  | OverflowMul
  | OverflowPow
  | OverflowShl
  | OverflowShr
  | DivisionByZero
  | NegativeSqrt
  | SqrtFailed
  | ZeroLog

datatype error =
    MathErr math_error
  | InvalidDenom
  | InvalidCoins
  | InvalidPayment
  | DenomNotFound
  | DataNotFound
  | DuplicateData
  | ZeroValue
  | Unauthorized
  | Bail string
  | Panic

type_synonym 'a res = "error + 'a"

subsection \<open>Results\<close>

definition and_then :: "'e + 'a \<Rightarrow> ('a \<Rightarrow> 'e + 'b) \<Rightarrow> 'e + 'b" where
  "and_then r f = (case r of Inl e \<Rightarrow> Inl e | Inr x \<Rightarrow> f x)"

definition map_err :: "('e \<Rightarrow> 'f) \<Rightarrow> 'e + 'a \<Rightarrow> 'f + 'a" where
  "map_err f r = (case r of Inl e \<Rightarrow> Inl (f e) | Inr x \<Rightarrow> Inr x)"

definition ensure :: "bool \<Rightarrow> error \<Rightarrow> unit res" where
  "ensure b e = (if b then Inr () else Inl e)"

definition ok_or :: "error \<Rightarrow> 'a option \<Rightarrow> 'a res" where
  "ok_or e v = (case v of None \<Rightarrow> Inl e | Some x \<Rightarrow> Inr x)"

definition unwrap_or :: "'a \<Rightarrow> 'e + 'a \<Rightarrow> 'a" where
  "unwrap_or d r = (case r of Inl _ \<Rightarrow> d | Inr x \<Rightarrow> x)"

definition unwrap :: "'e + 'a \<Rightarrow> 'a res" where
  "unwrap r = (case r of Inl _ \<Rightarrow> Inl Panic | Inr x \<Rightarrow> Inr x)"

definition is_ok :: "'e + 'a \<Rightarrow> bool" where
  "is_ok r = (case r of Inl _ \<Rightarrow> False | Inr _ \<Rightarrow> True)"

definition result_ok :: "'e + 'a \<Rightarrow> 'a option" where
  "result_ok r = (case r of Inl _ \<Rightarrow> None | Inr x \<Rightarrow> Some x)"

lemma and_then_simps [simp]:
  "and_then (Inr x) f = f x"
  "and_then (Inl e) f = Inl e"
  by (simp_all add: and_then_def)

lemma and_then_Inr_iff [result_iff]:
  "and_then r f = Inr y \<longleftrightarrow> (\<exists>x. r = Inr x \<and> f x = Inr y)"
  by (cases r) simp_all

lemma and_then_Inl_iff:
  "and_then r f = Inl e \<longleftrightarrow> r = Inl e \<or> (\<exists>x. r = Inr x \<and> f x = Inl e)"
  by (cases r) simp_all

lemma and_then_cong [fundef_cong]:
  "r = r' \<Longrightarrow> (\<And>x. r' = Inr x \<Longrightarrow> f x = g x) \<Longrightarrow> and_then r f = and_then r' g"
  by (cases r') simp_all

lemma and_thenE:
  assumes "and_then r f = Inr y"
  obtains x where "r = Inr x" and "f x = Inr y"
  using assms by (auto simp: and_then_Inr_iff)

lemma map_err_simps [simp]:
  "map_err f (Inr x) = Inr x"
  "map_err f (Inl e) = Inl (f e)"
  by (simp_all add: map_err_def)

lemma map_err_Inr_iff [result_iff]: "map_err f r = Inr x \<longleftrightarrow> r = Inr x"
  by (cases r) simp_all

lemma ensure_simps [simp]:
  "ensure True e = Inr ()"
  "ensure False e = Inl e"
  by (simp_all add: ensure_def)

lemma ensure_Inr_iff [result_iff]: "ensure b e = Inr u \<longleftrightarrow> b"
  by (simp add: ensure_def)

lemma ensure_Inl_iff: "ensure b e = Inl e' \<longleftrightarrow> \<not> b \<and> e' = e"
  by (auto simp: ensure_def)

lemma ok_or_simps [simp]:
  "ok_or e None = Inl e"
  "ok_or e (Some x) = Inr x"
  by (simp_all add: ok_or_def)

lemma ok_or_Inr_iff [result_iff]: "ok_or e v = Inr x \<longleftrightarrow> v = Some x"
  by (cases v) simp_all

lemma unwrap_or_simps [simp]:
  "unwrap_or d (Inr x) = x"
  "unwrap_or d (Inl e) = d"
  by (simp_all add: unwrap_or_def)

lemma unwrap_simps [simp]:
  "unwrap (Inr x) = Inr x"
  "unwrap (Inl e) = Inl Panic"
  by (simp_all add: unwrap_def)

lemma unwrap_Inr_iff [result_iff]: "unwrap r = Inr x \<longleftrightarrow> r = Inr x"
  by (cases r) simp_all

lemma is_ok_simps [simp]:
  "is_ok (Inr x)"
  "\<not> is_ok (Inl e)"
  by (simp_all add: is_ok_def)

lemma result_ok_simps [simp]:
  "result_ok (Inr x) = Some x"
  "result_ok (Inl e) = None"
  by (simp_all add: result_ok_def)

lemma result_ok_Some_iff: "result_ok r = Some x \<longleftrightarrow> r = Inr x"
  by (cases r) simp_all

subsection \<open>Loops that stop at the first error\<close>

text \<open>\<open>try_fold f s xs\<close> is \<open>for x in xs { s = f(s, x)?; }\<close>; \<open>try_map\<close> collects results in order.\<close>

fun try_fold :: "('s \<Rightarrow> 'x \<Rightarrow> 'e + 's) \<Rightarrow> 's \<Rightarrow> 'x list \<Rightarrow> 'e + 's" where
  "try_fold f s [] = Inr s"
| "try_fold f s (x # xs) = and_then (f s x) (\<lambda>s'. try_fold f s' xs)"

fun try_map :: "('x \<Rightarrow> 'e + 'y) \<Rightarrow> 'x list \<Rightarrow> 'e + 'y list" where
  "try_map f [] = Inr []"
| "try_map f (x # xs) = and_then (f x) (\<lambda>y. and_then (try_map f xs) (\<lambda>ys. Inr (y # ys)))"

lemma try_fold_append:
  "try_fold f s (xs @ ys) = and_then (try_fold f s xs) (\<lambda>s'. try_fold f s' ys)"
proof (induction xs arbitrary: s)
  case (Cons x xs)
  then show ?case by (cases "f s x") simp_all
qed simp

lemma try_fold_invariant:
  assumes "\<And>s x s'. x \<in> set xs \<Longrightarrow> I s \<Longrightarrow> f s x = Inr s' \<Longrightarrow> I s'"
    and "I s" and "try_fold f s xs = Inr s'"
  shows "I s'"
  using assms
proof (induction xs arbitrary: s)
  case (Cons x xs)
  from Cons.prems(3) obtain t where t: "f s x = Inr t" "try_fold f t xs = Inr s'"
    by (auto simp: result_iff)
  moreover have "I t" using Cons.prems(1) [of x s t] Cons.prems(2) t(1) by simp
  moreover have "\<And>y u u'. y \<in> set xs \<Longrightarrow> I u \<Longrightarrow> f u y = Inr u' \<Longrightarrow> I u'"
    using Cons.prems(1) by (meson list.set_intros(2))
  ultimately show ?case using Cons.IH by blast
qed simp

text \<open>A quantity that every step raises by \<open>d x\<close> is raised by the sum of the \<open>d x\<close>.\<close>

lemma try_fold_measure:
  fixes \<mu> :: "'s \<Rightarrow> nat"
  assumes "\<And>s x s'. x \<in> set xs \<Longrightarrow> I s \<Longrightarrow> f s x = Inr s' \<Longrightarrow> I s' \<and> \<mu> s' = \<mu> s + d x"
    and "I s" and "try_fold f s xs = Inr s'"
  shows "\<mu> s' = \<mu> s + (\<Sum>x\<leftarrow>xs. d x)"
  using assms
proof (induction xs arbitrary: s)
  case (Cons x xs)
  from Cons.prems(3) obtain t where t: "f s x = Inr t" "try_fold f t xs = Inr s'"
    by (auto simp: result_iff)
  have step: "I t \<and> \<mu> t = \<mu> s + d x" using Cons.prems(1) [of x s t] Cons.prems(2) t(1) by simp
  have "\<And>y u u'. y \<in> set xs \<Longrightarrow> I u \<Longrightarrow> f u y = Inr u' \<Longrightarrow> I u' \<and> \<mu> u' = \<mu> u + d y"
    using Cons.prems(1) by (meson list.set_intros(2))
  then have "\<mu> s' = \<mu> t + (\<Sum>x\<leftarrow>xs. d x)"
    using Cons.IH t(2) step by blast
  with step show ?case by simp
qed simp

lemma try_map_Inr_length: "try_map f xs = Inr ys \<Longrightarrow> length ys = length xs"
  by (induction xs arbitrary: ys) (auto simp: result_iff)

lemma try_map_Inr_iff:
  "try_map f xs = Inr ys \<longleftrightarrow> list_all2 (\<lambda>x y. f x = Inr y) xs ys"
proof (induction xs arbitrary: ys)
  case (Cons x xs)
  then show ?case by (cases ys) (auto simp: result_iff)
qed auto

text \<open>Two nested loops are one loop over the pairs.\<close>

lemma try_fold_nested:
  "try_fold (\<lambda>s (a, cs). try_fold (g a) s (f cs)) s xs =
   try_fold (\<lambda>s (a, c). g a s c) s (concat (map (\<lambda>(a, cs). map (Pair a) (f cs)) xs))"
proof -
  have inner: "try_fold (\<lambda>s (a, c). g a s c) s (map (Pair a) ys) = try_fold (g a) s ys" for a s ys
  proof (induction ys arbitrary: s)
    case (Cons y ys)
    then show ?case by (cases "g a s y") simp_all
  qed simp
  show ?thesis
  proof (induction xs arbitrary: s)
    case (Cons x xs)
    then show ?case by (cases x) (simp add: try_fold_append inner)
  qed simp
qed

end
