(* ===== verification/Ordered_Map.thy ===== *)
theory Ordered_Map
  imports Prelude "HOL-Library.Product_Lexorder" "HOL-Library.List_Lexorder" "HOL-Library.Char_ord"
begin

text \<open>
  The ordered key-value maps of the sources: the standard \<^verbatim>\<open>BTreeMap\<close> and the storage maps of
  \<^verbatim>\<open>grug/storage\<close>, whose iteration is in key order. A map is the list of its entries, sorted by
  strictly increasing keys (\<open>om_ok\<close>), so iteration is the list itself, forwards or reversed. Lookup is
  the library's \<open>map_of\<close>.

  The interface is stated twice as a locale: \<open>kv_store\<close> (point lookups and updates) and, extending
  it, \<open>ledger\<close> (a weighted sum over all entries). The lemmas on updating an entry are proved once
  inside the locales and used by the contracts through the interpretation \<open>om\<close>.
\<close>

type_synonym ('k, 'v) omap = "('k \<times> 'v) list"

fun om_insert :: "'k::linorder \<Rightarrow> 'v \<Rightarrow> ('k, 'v) omap \<Rightarrow> ('k, 'v) omap" where
  "om_insert k v [] = [(k, v)]"
| "om_insert k v ((a, b) # m) =
     (if a < k then (a, b) # om_insert k v m
      else if a = k then (k, v) # m
      else (k, v) # (a, b) # m)"

definition om_remove :: "'k \<Rightarrow> ('k, 'v) omap \<Rightarrow> ('k, 'v) omap" where
  "om_remove k m = filter (\<lambda>e. fst e \<noteq> k) m"

definition om_ok :: "('k::linorder, 'v) omap \<Rightarrow> bool" where
  "om_ok m \<longleftrightarrow> sorted_wrt (<) (map fst m)"

definition om_sum :: "('k \<Rightarrow> 'v \<Rightarrow> nat) \<Rightarrow> ('k, 'v) omap \<Rightarrow> nat" where
  "om_sum w m = (\<Sum>(k, v)\<leftarrow>m. w k v)"

text \<open>\<open>om_set\<close> writes or deletes, as \<open>may_modify\<close> of the storage maps does with its result.\<close>

definition om_set :: "'k::linorder \<Rightarrow> 'v option \<Rightarrow> ('k, 'v) omap \<Rightarrow> ('k, 'v) omap" where
  "om_set k v m = (case v of None \<Rightarrow> om_remove k m | Some x \<Rightarrow> om_insert k x m)"

definition weight :: "('k \<Rightarrow> 'v \<Rightarrow> nat) \<Rightarrow> 'k \<Rightarrow> 'v option \<Rightarrow> nat" where
  "weight w k v = (case v of None \<Rightarrow> 0 | Some x \<Rightarrow> w k x)"

lemma weight_simps [simp]: "weight w k None = 0" "weight w k (Some x) = w k x"
  by (simp_all add: weight_def)

subsection \<open>Interfaces\<close>

locale kv_store =
  fixes get :: "'s \<Rightarrow> 'k \<Rightarrow> 'v option"
    and put :: "'k \<Rightarrow> 'v \<Rightarrow> 's \<Rightarrow> 's"
    and del :: "'k \<Rightarrow> 's \<Rightarrow> 's"
    and ok :: "'s \<Rightarrow> bool"
  assumes get_put: "ok s \<Longrightarrow> get (put k v s) k' = (if k' = k then Some v else get s k')"
    and get_del: "ok s \<Longrightarrow> get (del k s) k' = (if k' = k then None else get s k')"
    and ok_put: "ok s \<Longrightarrow> ok (put k v s)"
    and ok_del: "ok s \<Longrightarrow> ok (del k s)"
begin

lemma get_write:
  assumes "ok s"
  shows "get (case v of None \<Rightarrow> del k s | Some x \<Rightarrow> put k x s) k' = (if k' = k then v else get s k')"
  using assms by (cases v) (simp_all add: get_put get_del)

lemma ok_write: "ok s \<Longrightarrow> ok (case v of None \<Rightarrow> del k s | Some x \<Rightarrow> put k x s)"
  by (cases v) (simp_all add: ok_put ok_del)

end

locale ledger = kv_store get put del ok
  for get :: "'s \<Rightarrow> 'k \<Rightarrow> 'v option"
    and put :: "'k \<Rightarrow> 'v \<Rightarrow> 's \<Rightarrow> 's"
    and del :: "'k \<Rightarrow> 's \<Rightarrow> 's"
    and ok :: "'s \<Rightarrow> bool" +
  fixes total :: "('k \<Rightarrow> 'v \<Rightarrow> nat) \<Rightarrow> 's \<Rightarrow> nat"
  assumes total_put: "ok s \<Longrightarrow> total w (put k v s) + weight w k (get s k) = total w s + w k v"
    and total_del: "ok s \<Longrightarrow> total w (del k s) + weight w k (get s k) = total w s"
begin

lemma total_write:
  assumes "ok s"
  shows "total w (case v of None \<Rightarrow> del k s | Some x \<Rightarrow> put k x s) + weight w k (get s k)
    = total w s + weight w k v"
  using assms by (cases v) (simp_all add: total_put total_del)

lemma weight_le_total:
  assumes "ok s"
  shows "weight w k (get s k) \<le> total w s"
  using total_del [OF assms, of w k] by simp

text \<open>Moving an amount from one entry to another keeps the total.\<close>

lemma total_move:
  assumes "ok s" and "t = (case u of None \<Rightarrow> del i s | Some x \<Rightarrow> put i x s)"
    and "t' = (case v of None \<Rightarrow> del j t | Some x \<Rightarrow> put j x t)"
    and "weight w i (get s i) = weight w i u + n"
    and "weight w j v = weight w j (get t j) + n"
  shows "total w t' = total w s"
proof -
  have "ok t" unfolding assms(2) by (rule ok_write) fact
  then have "total w t' + weight w j (get t j) = total w t + weight w j v"
    unfolding assms(3) by (rule total_write)
  moreover have "total w t + weight w i (get s i) = total w s + weight w i u"
    unfolding assms(2) by (rule total_write) fact
  ultimately show ?thesis using assms(4,5) by linarith
qed

end

subsection \<open>Ordered maps provide the interfaces\<close>

lemma om_ok_Nil [simp]: "om_ok []"
  by (simp add: om_ok_def)

lemma om_ok_Cons: "om_ok ((k, v) # m) \<longleftrightarrow> (\<forall>e \<in> set m. k < fst e) \<and> om_ok m"
  by (auto simp: om_ok_def)

lemma om_ok_distinct: "om_ok m \<Longrightarrow> distinct (map fst m)"
  by (simp add: om_ok_def strict_sorted_iff)

lemma om_ok_filter: "om_ok m \<Longrightarrow> om_ok (filter P m)"
  by (induction m) (auto simp: om_ok_Cons)

lemma map_of_notin: "(\<And>e. e \<in> set m \<Longrightarrow> fst e \<noteq> k) \<Longrightarrow> map_of m k = None"
  by (induction m) auto

lemma map_of_om_insert:
  "om_ok m \<Longrightarrow> map_of (om_insert k v m) k' = (if k' = k then Some v else map_of m k')"
proof (induction m)
  case (Cons e m)
  then show ?case by (cases e) (auto simp: om_ok_Cons)
qed simp

lemma map_of_om_remove: "map_of (om_remove k m) k' = (if k' = k then None else map_of m k')"
  by (induction m) (auto simp: om_remove_def)

lemma set_om_insert_keys: "fst ` set (om_insert k v m) = insert k (fst ` set m)"
  by (induction k v m rule: om_insert.induct) auto

lemma om_ok_insert: "om_ok m \<Longrightarrow> om_ok (om_insert k v m)"
proof (induction m)
  case Nil
  then show ?case by (simp add: om_ok_def)
next
  case (Cons e m)
  obtain a b where e: "e = (a, b)" by (cases e)
  from Cons.prems have m: "om_ok m" "\<And>x. x \<in> fst ` set m \<Longrightarrow> a < x" by (auto simp: e om_ok_Cons)
  show ?case
  proof (cases "a < k")
    case True
    have "\<forall>x \<in> fst ` set (om_insert k v m). a < x"
      using True m(2) by (auto simp: set_om_insert_keys)
    then show ?thesis using True Cons.IH [OF m(1)] by (auto simp: e om_ok_Cons)
  next
    case False
    with m show ?thesis by (force simp: e om_ok_Cons)
  qed
qed

lemma om_ok_remove: "om_ok m \<Longrightarrow> om_ok (om_remove k m)"
  by (simp add: om_remove_def om_ok_filter)

lemma om_sum_simps [simp]:
  "om_sum w [] = 0"
  "om_sum w ((k, v) # m) = w k v + om_sum w m"
  by (simp_all add: om_sum_def)

lemma om_sum_insert:
  "om_ok m \<Longrightarrow> om_sum w (om_insert k v m) + weight w k (map_of m k) = om_sum w m + w k v"
proof (induction m)
  case (Cons e m)
  obtain a b where e: "e = (a, b)" by (cases e)
  from Cons.prems have m: "om_ok m" "\<And>x. x \<in> set m \<Longrightarrow> a < fst x" by (auto simp: e om_ok_Cons)
  show ?case
  proof (cases "a < k")
    case True
    with Cons.IH [OF m(1)] show ?thesis by (auto simp: e)
  next
    case False
    have "k \<noteq> a \<Longrightarrow> map_of m k = None"
      using False m(2) by (intro map_of_notin) force
    with False show ?thesis by (auto simp: e)
  qed
qed simp

lemma om_sum_remove:
  "om_ok m \<Longrightarrow> om_sum w (om_remove k m) + weight w k (map_of m k) = om_sum w m"
proof (induction m)
  case (Cons e m)
  obtain a b where e: "e = (a, b)" by (cases e)
  from Cons.prems have m: "om_ok m" "\<And>x. x \<in> set m \<Longrightarrow> a < fst x" by (auto simp: e om_ok_Cons)
  show ?case
  proof (cases "a = k")
    case True
    have "map_of m k = None" using True m(2) by (intro map_of_notin) force
    with True Cons.IH [OF m(1)] show ?thesis by (simp add: e om_remove_def)
  next
    case False
    with Cons.IH [OF m(1)] show ?thesis by (simp add: e om_remove_def)
  qed
qed (simp add: om_remove_def)

interpretation om: ledger map_of om_insert om_remove om_ok om_sum
  by unfold_locales
    (simp_all add: map_of_om_insert map_of_om_remove om_ok_insert om_ok_remove om_sum_insert
      om_sum_remove)

lemma map_of_om_set: "om_ok m \<Longrightarrow> map_of (om_set k v m) k' = (if k' = k then v else map_of m k')"
  unfolding om_set_def by (rule om.get_write)

lemma om_ok_set: "om_ok m \<Longrightarrow> om_ok (om_set k v m)"
  unfolding om_set_def by (rule om.ok_write)

lemma om_sum_set:
  "om_ok m \<Longrightarrow> om_sum w (om_set k v m) + weight w k (map_of m k) = om_sum w m + weight w k v"
  unfolding om_set_def by (rule om.total_write)

lemma om_insert_entries:
  "om_ok m \<Longrightarrow> set (om_insert k v m) = insert (k, v) {e \<in> set m. fst e \<noteq> k}"
proof (induction m)
  case (Cons e m)
  obtain a b where e: "e = (a, b)" by (cases e)
  from Cons show ?case by (auto simp: e om_ok_Cons)
qed simp

lemma om_remove_entries: "set (om_remove k m) = {e \<in> set m. fst e \<noteq> k}"
  by (auto simp: om_remove_def)

lemma om_mem_iff: "om_ok m \<Longrightarrow> (k, v) \<in> set m \<longleftrightarrow> map_of m k = Some v"
  using om_ok_distinct by (metis map_of_eq_Some_iff)

lemma om_insert_last: "(\<And>e. e \<in> set m \<Longrightarrow> fst e < k) \<Longrightarrow> om_insert k v m = m @ [(k, v)]"
  by (induction m) (auto, force+)

lemma om_insert_subset: "set (om_insert k v m) \<subseteq> insert (k, v) (set m)"
  by (induction m) (auto split: if_splits)

end
