(* ===== verification/Denoms.thy ===== *)
theory Denoms
  imports Ordered_Map
begin

text \<open>
  Coin denominations, \<^verbatim>\<open>grug/types/src/denom.rs\<close>: a denom is a list of parts, written with \<open>/\<close>
  between them. Strings are lists of bytes; a byte beyond ASCII is not alphanumeric. The lemmas
  show that parsing and printing are inverse to each other on valid denoms, and what \<open>prepend\<close>
  and \<open>strip\<close> do to the list of parts.
\<close>

type_synonym part = string
type_synonym denom = "part list"

definition is_ascii_alphanumeric :: "char \<Rightarrow> bool" where
  "is_ascii_alphanumeric c \<longleftrightarrow>
     (let n = of_char c :: nat
      in 48 \<le> n \<and> n \<le> 57 \<or> 65 \<le> n \<and> n \<le> 90 \<or> 97 \<le> n \<and> n \<le> 122)"

definition part_try_from :: "string \<Rightarrow> part res" where
  "part_try_from s =
     (if s = [] then Inl InvalidDenom
      else if list_ex (\<lambda>c. \<not> is_ascii_alphanumeric c) s then Inl InvalidDenom
      else Inr s)"

fun denom_to_string :: "denom \<Rightarrow> string res" where
  "denom_to_string [] = Inl Panic"
| "denom_to_string (p # ps) = Inr (p @ concat (map (\<lambda>q. CHR ''/'' # q) ps))"

fun split_on :: "char \<Rightarrow> string \<Rightarrow> string list" where
  "split_on c [] = [[]]"
| "split_on c (x # xs) =
     (if x = c then [] # split_on c xs
      else (case split_on c xs of [] \<Rightarrow> [[x]] | p # ps \<Rightarrow> (x # p) # ps))"

definition denom_from_str :: "string \<Rightarrow> denom res" where
  "denom_from_str s =
     (if \<not> (1 \<le> length s \<and> length s \<le> 128) then Inl InvalidDenom
      else try_map part_try_from (split_on CHR ''/'' s))"

definition denom_from_parts :: "string list \<Rightarrow> denom res" where
  "denom_from_parts parts =
     and_then (try_map part_try_from parts) (\<lambda>denom.
     and_then (denom_to_string denom) (\<lambda>s.
       if \<not> (1 \<le> length s \<and> length s \<le> 128) then Inl InvalidDenom else Inr denom))"

definition denom_namespace :: "denom \<Rightarrow> part option" where
  "denom_namespace d = (if 1 < length d then Some (d ! 0) else None)"

definition denom_starts_with :: "denom \<Rightarrow> part list \<Rightarrow> bool" where
  "denom_starts_with d parts \<longleftrightarrow> length parts \<le> length d \<and> take (length parts) d = parts"

definition denom_prepend :: "denom \<Rightarrow> part list \<Rightarrow> denom res" where
  "denom_prepend d parts = denom_from_parts (parts @ d)"

text \<open>The slice \<open>self.0[parts.len()..]\<close> panics when the prefix is longer than the denom.\<close>

definition denom_strip :: "denom \<Rightarrow> part list \<Rightarrow> denom option res" where
  "denom_strip d parts =
     (if list_all (\<lambda>(a, b). a = b) (zip d parts)
      then (if length parts \<le> length d then Inr (Some (drop (length parts) d)) else Inl Panic)
      else Inr None)"

subsection \<open>Valid denoms\<close>

definition valid_part :: "part \<Rightarrow> bool" where
  "valid_part p \<longleftrightarrow> p \<noteq> [] \<and> list_all is_ascii_alphanumeric p"

definition denom_len :: "denom \<Rightarrow> nat" where
  "denom_len d = (\<Sum>p\<leftarrow>d. length p) + (length d - 1)"

definition valid_denom :: "denom \<Rightarrow> bool" where
  "valid_denom d \<longleftrightarrow> d \<noteq> [] \<and> list_all valid_part d \<and> denom_len d \<le> 128"

lemma part_try_from_Inr [result_iff]: "part_try_from s = Inr p \<longleftrightarrow> p = s \<and> valid_part s"
  by (auto simp: part_try_from_def valid_part_def list_ex_iff list_all_iff)

lemma try_map_part_try_from:
  "try_map part_try_from xs = Inr ps \<longleftrightarrow> ps = xs \<and> list_all valid_part xs"
  by (induction xs arbitrary: ps) (auto simp: result_iff)

lemma slash_not_in_part: "valid_part p \<Longrightarrow> CHR ''/'' \<notin> set p"
  by (auto simp: valid_part_def list_all_iff is_ascii_alphanumeric_def Let_def)

lemma split_on_not_Nil: "split_on c s \<noteq> []"
  by (induction s) (auto split: list.splits)

lemma split_on_simple: "c \<notin> set p \<Longrightarrow> split_on c p = [p]"
  by (induction p) auto

lemma split_on_append: "c \<notin> set p \<Longrightarrow> split_on c (p @ c # s) = p # split_on c s"
  by (induction p) auto

lemma split_on_denom:
  "list_all valid_part (p # ps) \<Longrightarrow>
   split_on CHR ''/'' (p @ concat (map (\<lambda>q. CHR ''/'' # q) ps)) = p # ps"
proof (induction ps arbitrary: p)
  case Nil
  then show ?case by (simp add: split_on_simple slash_not_in_part)
next
  case (Cons q ps)
  then show ?case by (simp add: split_on_append slash_not_in_part)
qed

lemma split_on_join:
  "split_on c s = p # ps \<Longrightarrow> p @ concat (map (\<lambda>q. c # q) ps) = s"
proof (induction s arbitrary: p ps)
  case (Cons x s)
  show ?case
  proof (cases "x = c")
    case True
    with Cons.prems have "p = []" "ps = split_on c s" by auto
    moreover obtain q qs where "split_on c s = q # qs"
      using split_on_not_Nil by (meson neq_Nil_conv)
    ultimately show ?thesis using Cons.IH True by simp
  next
    case False
    obtain q qs where q: "split_on c s = q # qs"
      using split_on_not_Nil by (meson neq_Nil_conv)
    with False Cons.prems have "p = x # q" "ps = qs" by auto
    with Cons.IH [OF q] show ?thesis by simp
  qed
qed simp

lemma sum_list_Suc: "(\<Sum>x\<leftarrow>xs. Suc (f x)) = (\<Sum>x\<leftarrow>xs. f x) + length xs"
  by (induction xs) simp_all

lemma length_denom_to_string:
  "denom_to_string d = Inr s \<Longrightarrow> length s = denom_len d"
  by (cases d) (auto simp: denom_len_def length_concat comp_def sum_list_Suc)

lemma denom_len_pos: "valid_denom d \<Longrightarrow> 1 \<le> denom_len d"
  by (cases d) (auto simp: valid_denom_def denom_len_def valid_part_def Suc_le_eq)

lemma denom_print_parse:
  assumes "valid_denom d"
  obtains s where "denom_to_string d = Inr s" and "denom_from_str s = Inr d"
proof -
  obtain p ps where d: "d = p # ps" using assms by (cases d) (auto simp: valid_denom_def)
  define s where "s = p @ concat (map (\<lambda>q. CHR ''/'' # q) ps)"
  have s: "denom_to_string d = Inr s" by (simp add: d s_def)
  then have "length s = denom_len d" by (rule length_denom_to_string)
  with assms denom_len_pos [OF assms] have "1 \<le> length s \<and> length s \<le> 128"
    by (simp add: valid_denom_def)
  moreover have "split_on CHR ''/'' s = d"
    using assms by (simp only: s_def d valid_denom_def split_on_denom)
  ultimately have "denom_from_str s = Inr d"
    using assms by (simp add: denom_from_str_def try_map_part_try_from valid_denom_def)
  with s show thesis by (rule that)
qed

lemma denom_from_str_Inr:
  assumes "denom_from_str s = Inr d"
  shows "valid_denom d \<and> denom_to_string d = Inr s"
proof -
  from assms have len: "length s \<le> 128" and d: "d = split_on CHR ''/'' s" "list_all valid_part d"
    by (auto simp: denom_from_str_def try_map_part_try_from split: if_splits)
  obtain p ps where ps: "d = p # ps" using d(1) split_on_not_Nil by (metis neq_Nil_conv)
  have s: "denom_to_string d = Inr s"
    using split_on_join [of "CHR ''/''" s p ps] d(1) ps by (metis denom_to_string.simps(2))
  then have "denom_len d \<le> 128" using length_denom_to_string len by metis
  with s d(2) ps show ?thesis by (simp add: valid_denom_def)
qed

lemma denom_from_parts_Inr: "denom_from_parts ps = Inr d \<longleftrightarrow> d = ps \<and> valid_denom ps"
proof (cases ps)
  case Nil
  then show ?thesis by (simp add: denom_from_parts_def valid_denom_def)
next
  case (Cons p qs)
  then obtain s where s: "denom_to_string ps = Inr s" by simp
  then have "length s = denom_len ps" by (rule length_denom_to_string)
  moreover have "valid_denom ps \<Longrightarrow> 1 \<le> denom_len ps" by (rule denom_len_pos)
  moreover have "list_all valid_part ps \<Longrightarrow> 1 \<le> denom_len ps"
    using Cons by (cases p) (auto simp: denom_len_def valid_part_def)
  ultimately show ?thesis
    using s Cons
    by (auto simp: denom_from_parts_def valid_denom_def result_iff try_map_part_try_from)
qed

lemma zip_append_eq: "list_all (\<lambda>(a, b). a = b) (zip (ps @ d) ps)"
  by (induction ps) auto

lemma denom_strip_prepend:
  assumes "denom_prepend d parts = Inr d'"
  shows "denom_strip d' parts = Inr (Some d)"
  using assms by (auto simp: denom_prepend_def denom_from_parts_Inr denom_strip_def zip_append_eq)

subsection \<open>Properties\<close>

text \<open>Denoms round trip through their text in both directions: a text that parses is the printed
  form of the denom it parses to, which is valid, and every valid denom prints to a text that parses
  back to it.\<close>

lemma denom_text_round_trip:
  "(denom_from_str s = Inr d \<longleftrightarrow> valid_denom d \<and> denom_to_string d = Inr s)
    \<and> (valid_denom d \<longleftrightarrow> (\<exists>t. denom_to_string d = Inr t \<and> denom_from_str t = Inr d))"
proof -
  have "valid_denom d \<and> denom_to_string d = Inr s \<Longrightarrow> denom_from_str s = Inr d"
    by (metis denom_print_parse sum.inject(2))
  moreover have "valid_denom d \<Longrightarrow> \<exists>t. denom_to_string d = Inr t \<and> denom_from_str t = Inr d"
    by (metis denom_print_parse)
  ultimately show ?thesis using denom_from_str_Inr by blast
qed

text \<open>Stripping a prefix that was prepended gives the denom back, and prepending succeeds exactly
  when the longer denom is valid.\<close>

lemma denom_prepend_strip:
  "(denom_prepend d parts = Inr d' \<longleftrightarrow> d' = parts @ d \<and> valid_denom (parts @ d))
    \<and> denom_strip (parts @ d) parts = Inr (Some d)"
  by (auto simp: denom_prepend_def denom_from_parts_Inr denom_strip_def zip_append_eq)

text \<open>Stripping by a longer list of parts the denom is a prefix of panics instead of returning none.\<close>

lemma denom_strip_longer_prefix_panics:
  assumes "length d < length parts" and "take (length d) parts = d"
  shows "denom_strip d parts = Inl Panic"
proof -
  have "zip d parts = zip d d"
    using assms by (metis append_take_drop_id zip_append2 zip_Nil append_Nil2 length_take min.absorb4
      drop_eq_Nil le_refl take_all zip.simps(1))
  then show ?thesis using assms(1) by (simp add: denom_strip_def zip_same_conv_map list_all_iff)
qed

end
