(* ===== verification/Uints.thy ===== *)
theory Uints
  imports Prelude
begin

text \<open>
  The integer half of \<^verbatim>\<open>grug/math/src\<close>: \<open>Int<U>\<close> for the unsigned primitive types. A value is
  an \<open>'a word\<close>; \<open>u64\<close>, \<open>u128\<close>, \<open>U256\<close> and \<open>U512\<close> are its widths 64, 128, 256 and 512, and the
  type \<open>Next\<close> of a width is the word of twice its length. A checked operation returns the
  exact result or an error; each lemma tagged \<open>math_iff\<close> says so over the natural numbers.
  The Babylonian square root is shown to terminate and to compute the floor of the root.
\<close>

subsection \<open>Checked, saturating and wrapping arithmetic (number.rs, integer.rs)\<close>

definition max_value :: "'a::len word" where
  "max_value = - 1"

definition checked_add :: "'a::len word \<Rightarrow> 'a word \<Rightarrow> 'a word res" where
  "checked_add a b =
     (if unat a + unat b < 2 ^ LENGTH('a) then Inr (a + b) else Inl (MathErr OverflowAdd))"

definition checked_sub :: "'a::len word \<Rightarrow> 'a word \<Rightarrow> 'a word res" where
  "checked_sub a b = (if b \<le> a then Inr (a - b) else Inl (MathErr OverflowSub))"

definition checked_mul :: "'a::len word \<Rightarrow> 'a word \<Rightarrow> 'a word res" where
  "checked_mul a b =
     (if unat a * unat b < 2 ^ LENGTH('a) then Inr (a * b) else Inl (MathErr OverflowMul))"

definition checked_div :: "'a::len word \<Rightarrow> 'a word \<Rightarrow> 'a word res" where
  "checked_div a b = (if b = 0 then Inl (MathErr DivisionByZero) else Inr (a div b))"

definition checked_rem :: "'a::len word \<Rightarrow> 'a word \<Rightarrow> 'a word res" where
  "checked_rem a b = (if b = 0 then Inl (MathErr DivisionByZero) else Inr (a mod b))"

definition saturating_add :: "'a::len word \<Rightarrow> 'a word \<Rightarrow> 'a word" where
  "saturating_add a b = unwrap_or max_value (checked_add a b)"

definition saturating_sub :: "'a::len word \<Rightarrow> 'a word \<Rightarrow> 'a word" where
  "saturating_sub a b = unwrap_or 0 (checked_sub a b)"

definition saturating_mul :: "'a::len word \<Rightarrow> 'a word \<Rightarrow> 'a word" where
  "saturating_mul a b = unwrap_or max_value (checked_mul a b)"

definition is_zero :: "'a::len word \<Rightarrow> bool" where
  "is_zero a \<longleftrightarrow> a = 0"

definition is_non_zero :: "'a::len word \<Rightarrow> bool" where
  "is_non_zero a \<longleftrightarrow> \<not> is_zero a"

definition is_positive :: "'a::len word \<Rightarrow> bool" where
  "is_positive a \<longleftrightarrow> 0 < a"

definition checked_pow :: "'a::len word \<Rightarrow> nat \<Rightarrow> 'a word res" where
  "checked_pow a e =
     (if unat a ^ e < 2 ^ LENGTH('a) then Inr (a ^ e) else Inl (MathErr OverflowPow))"

fun ilog2 :: "nat \<Rightarrow> nat" where
  "ilog2 n = (if n < 2 then 0 else Suc (ilog2 (n div 2)))"

declare ilog2.simps [simp del]

definition checked_ilog2 :: "'a::len word \<Rightarrow> nat res" where
  "checked_ilog2 a = (if a = 0 then Inl (MathErr ZeroLog) else Inr (ilog2 (unat a)))"

lemmas zero_defs = is_zero_def is_non_zero_def is_positive_def

lemma unat_less_pow: "unat (a :: 'a::len word) < 2 ^ LENGTH('a)"
  by simp

lemma unat_max_value: "unat (max_value :: 'a::len word) = 2 ^ LENGTH('a) - 1"
  unfolding max_value_def by (simp add: unsigned_minus_1_eq_mask mask_eq_exp_minus_1)

lemma checked_add_Inr [math_iff]:
  fixes a b c :: "'a::len word"
  shows "checked_add a b = Inr c \<longleftrightarrow> unat c = unat a + unat b"
proof -
  have "unat (a + b) = unat a + unat b" if "unat a + unat b < 2 ^ LENGTH('a)"
    using that by (simp add: unat_word_ariths)
  moreover have "unat c = unat a + unat b \<Longrightarrow> unat a + unat b < 2 ^ LENGTH('a)"
    by (metis unat_less_pow)
  ultimately show ?thesis
    by (auto simp: checked_add_def word_unat_eq_iff)
qed

lemma checked_sub_Inr [math_iff]:
  fixes a b c :: "'a::len word"
  shows "checked_sub a b = Inr c \<longleftrightarrow> unat a = unat b + unat c"
proof -
  have "unat (a - b) = unat a - unat b" if "b \<le> a" using that by (rule unat_sub)
  then show ?thesis
    by (auto simp: checked_sub_def word_le_nat_alt word_unat_eq_iff)
qed

lemma checked_mul_Inr [math_iff]:
  fixes a b c :: "'a::len word"
  shows "checked_mul a b = Inr c \<longleftrightarrow> unat c = unat a * unat b"
proof -
  have "unat (a * b) = unat a * unat b" if "unat a * unat b < 2 ^ LENGTH('a)"
    using that by (simp add: unat_word_ariths)
  moreover have "unat c = unat a * unat b \<Longrightarrow> unat a * unat b < 2 ^ LENGTH('a)"
    by (metis unat_less_pow)
  ultimately show ?thesis
    by (auto simp: checked_mul_def word_unat_eq_iff)
qed

lemma checked_div_Inr [math_iff]:
  "checked_div a b = Inr c \<longleftrightarrow> unat b \<noteq> 0 \<and> unat c = unat a div unat b"
  by (auto simp: checked_div_def unat_div word_unat_eq_iff)

lemma checked_rem_Inr [math_iff]:
  "checked_rem a b = Inr c \<longleftrightarrow> unat b \<noteq> 0 \<and> unat c = unat a mod unat b"
  by (auto simp: checked_rem_def unat_mod word_unat_eq_iff)


lemma saturating_sub_unat: "unat (saturating_sub a b) = unat a - unat b"
  by (auto simp: saturating_sub_def checked_sub_def unat_sub word_le_nat_alt)

lemma saturating_add_unat:
  "unat (saturating_add (a :: 'a::len word) b) = min (2 ^ LENGTH('a) - 1) (unat a + unat b)"
  by (auto simp: saturating_add_def checked_add_def unat_max_value unat_word_ariths)

lemma saturating_mul_unat:
  "unat (saturating_mul (a :: 'a::len word) b) = min (2 ^ LENGTH('a) - 1) (unat a * unat b)"
  by (auto simp: saturating_mul_def checked_mul_def unat_max_value unat_word_ariths)

subsection \<open>Widening and narrowing (next.rs, prev.rs)\<close>

definition into_next :: "'a::len word \<Rightarrow> 'a bit0 word" where
  "into_next a = ucast a"

definition checked_into_prev :: "'a::len bit0 word \<Rightarrow> 'a word res" where
  "checked_into_prev a =
     (if unat a < 2 ^ LENGTH('a) then Inr (ucast a) else Inl (MathErr OverflowConversion))"

definition checked_full_mul :: "'a::len word \<Rightarrow> 'a word \<Rightarrow> 'a bit0 word res" where
  "checked_full_mul a b = checked_mul (into_next a) (into_next b)"

lemma unat_into_next [simp]: "unat (into_next (a :: 'a::len word)) = unat a"
proof -
  have "unat a < 2 ^ LENGTH('a bit0)"
    using unat_less_pow [of a] by (rule less_le_trans) (rule power_increasing, simp_all)
  then show ?thesis
    by (simp add: into_next_def unsigned_ucast_eq take_bit_nat_eq_self)
qed

lemma checked_into_prev_Inr [math_iff]:
  fixes a :: "'a::len bit0 word"
  shows "checked_into_prev a = Inr b \<longleftrightarrow> unat b = unat a"
proof -
  have "unat (ucast a :: 'a word) = unat a" if "unat a < 2 ^ LENGTH('a)"
    using that by (simp add: unsigned_ucast_eq take_bit_nat_eq_self)
  moreover have "unat b = unat a \<Longrightarrow> unat a < 2 ^ LENGTH('a)"
    by (metis unat_less_pow)
  ultimately show ?thesis
    by (auto simp: checked_into_prev_def word_unat_eq_iff)
qed

lemma checked_full_mul_Inr [math_iff]:
  "checked_full_mul a b = Inr c \<longleftrightarrow> unat c = unat a * unat b"
  by (simp add: checked_full_mul_def math_iff)

lemma unat_mult_less_pow: "unat (a :: 'a::len word) * unat (b :: 'a word) < 2 ^ (2 * LENGTH('a))"
proof -
  have "unat a * unat b < 2 ^ LENGTH('a) * 2 ^ LENGTH('a)"
    by (rule mult_strict_mono) simp_all
  then show ?thesis by (simp add: power_add mult_2)
qed

lemma checked_full_mul_total:
  obtains c where "checked_full_mul a b = Inr c" and "unat c = unat a * unat b"
proof -
  have "checked_full_mul a b = Inr (into_next a * into_next b)"
    using unat_mult_less_pow [of a b] by (simp add: checked_full_mul_def checked_mul_def)
  with that show thesis by (simp add: checked_full_mul_Inr)
qed

subsection \<open>Integer square root (exponentiate.rs)\<close>

text \<open>
  The \<open>while\<close> loop of \<open>checked_sqrt\<close>: \<open>x0\<close> and \<open>x1\<close> are the loop variables; \<open>>> 1\<close> is
  \<open>drop_bit 1\<close>. The loop variable \<open>x0\<close> decreases in each round.
\<close>

definition sqrt_next :: "'a::len word \<Rightarrow> 'a word \<Rightarrow> 'a word" where
  "sqrt_next n x0 = drop_bit 1 (x0 + n div x0)"

function sqrt_loop :: "'a::len word \<Rightarrow> 'a word \<Rightarrow> 'a word \<Rightarrow> 'a word" where
  "sqrt_loop n x0 x1 = (if x1 < x0 then sqrt_loop n x1 (sqrt_next n x1) else x0)"
  by pat_completeness auto
termination
  by (relation "measure (\<lambda>(n, x0, x1). unat x0)") (auto simp: word_less_nat_alt)

declare sqrt_loop.simps [simp del]

definition checked_sqrt :: "'a::len word \<Rightarrow> 'a word res" where
  "checked_sqrt n =
     (if is_zero n then Inr 0
      else and_then (checked_ilog2 n) (\<lambda>l.
        let x0 = push_bit (l div 2 + 1) 1
        in if 0 < x0 then Inr (sqrt_loop n x0 (sqrt_next n x0)) else Inr n))"

lemma sqrt_step_lower:
  fixes n x :: nat
  assumes "0 < x"
  shows "n < ((x + n div x) div 2 + 1) ^ 2"
proof -
  define q y where "q = n div x" and "y = (x + q) div 2"
  have "n < (q + 1) * x"
    using assms div_less_iff_less_mult [of x n "q + 1"] by (simp add: q_def)
  also have "\<dots> \<le> (y + 1) ^ 2"
  proof -
    have "x + q + 1 \<le> 2 * (y + 1)" by (simp add: y_def)
    then have "(x + q + 1) ^ 2 \<le> (2 * (y + 1)) ^ 2" by (rule power_mono) simp
    moreover have "4 * ((q + 1) * x) \<le> (x + q + 1) ^ 2"
    proof -
      have "4 * (int (q + 1) * int x) \<le> (int x + int (q + 1)) ^ 2"
        using zero_le_power2 [of "int x - int (q + 1)"]
        by (simp add: power2_eq_square algebra_simps)
      then have "int (4 * ((q + 1) * x)) \<le> int ((x + q + 1) ^ 2)"
        by (simp add: algebra_simps)
      then show ?thesis by (simp only: of_nat_le_iff)
    qed
    moreover have "(2 * (y + 1)) ^ 2 = 4 * (y + 1) ^ 2"
      by (simp only: power_mult_distrib) simp
    ultimately have "4 * ((q + 1) * x) \<le> 4 * (y + 1) ^ 2" by linarith
    then show ?thesis by simp
  qed
  finally show ?thesis by (simp add: q_def y_def)
qed

lemma sqrt_step_upper:
  fixes n x :: nat
  assumes "0 < x" and "x \<le> (x + n div x) div 2"
  shows "x ^ 2 \<le> n"
proof -
  from assms(2) have "x \<le> n div x" by linarith
  then have "x * x \<le> n div x * x" by (rule mult_le_mono1)
  also have "\<dots> \<le> n" by (rule div_times_less_eq_dividend)
  finally show ?thesis by (simp add: power2_eq_square)
qed

text \<open>
  The invariant of the loop: \<open>x0\<close> is positive, at least the floor of the root, and small
  enough that the sum \<open>x0 + n / x0\<close> does not overflow.
\<close>

definition sqrt_inv :: "'a::len word \<Rightarrow> 'a word \<Rightarrow> bool" where
  "sqrt_inv n x \<longleftrightarrow> 0 < unat x \<and> unat n < (unat x + 1) ^ 2 \<and> unat x \<le> 2 ^ (LENGTH('a) - 2)"

lemma sqrt_inv_quotient:
  fixes n x :: nat
  assumes "0 < x" and "n < (x + 1) ^ 2"
  shows "n div x \<le> x + 2"
proof -
  have "n < (x + 3) * x"
    using assms by (cases x) (simp_all add: power2_eq_square algebra_simps)
  then have "n div x < x + 3"
    using assms(1) by (simp add: div_less_iff_less_mult)
  then show ?thesis by simp
qed

lemma unat_sqrt_next:
  fixes n x :: "'a::len word"
  assumes "sqrt_inv n x" and "4 \<le> LENGTH('a)"
  shows "unat (sqrt_next n x) = (unat x + unat n div unat x) div 2"
proof -
  have "unat n div unat x \<le> unat x + 2"
    using assms(1) by (intro sqrt_inv_quotient) (auto simp: sqrt_inv_def)
  then have "unat x + unat n div unat x \<le> 2 * 2 ^ (LENGTH('a) - 2) + 2"
    using assms(1) by (simp add: sqrt_inv_def)
  also have "\<dots> < 2 ^ LENGTH('a)"
  proof -
    define k where "k = LENGTH('a) - 2"
    have k: "LENGTH('a) = k + 2" "2 \<le> k" using assms(2) by (simp_all add: k_def)
    have "(4::nat) \<le> 2 ^ k" using k(2) power_increasing [of 2 k "2::nat"] by simp
    then show ?thesis by (simp add: k)
  qed
  finally have "unat (x + n div x) = unat x + unat n div unat x"
    by (simp add: unat_word_ariths unat_div)
  then show ?thesis
    unfolding sqrt_next_def unat_drop_bit_eq by (simp only: drop_bit_eq_div power_one_right)
qed

lemma sqrt_inv_step:
  fixes n x :: "'a::len word"
  assumes "sqrt_inv n x" and "4 \<le> LENGTH('a)" and "n \<noteq> 0" and "sqrt_next n x < x"
  shows "sqrt_inv n (sqrt_next n x)"
proof -
  have x: "0 < unat x" "unat n < (unat x + 1) ^ 2" "unat x \<le> 2 ^ (LENGTH('a) - 2)"
    using assms(1) by (auto simp: sqrt_inv_def)
  have y: "unat (sqrt_next n x) = (unat x + unat n div unat x) div 2"
    by (rule unat_sqrt_next) fact+
  have "0 < unat (sqrt_next n x)"
  proof (cases "unat x = 1")
    case True
    moreover have "0 < unat n" using assms(3) by (simp add: unat_gt_0)
    ultimately show ?thesis by (simp add: y div_greater_zero_iff)
  next
    case False
    with x(1) show ?thesis by (simp add: y div_greater_zero_iff)
  qed
  moreover have "unat (sqrt_next n x) \<le> 2 ^ (LENGTH('a) - 2)"
    using assms(4) x(3) by (simp add: word_less_nat_alt)
  ultimately show ?thesis
    using sqrt_step_lower [OF x(1), of "unat n"] by (simp add: sqrt_inv_def y)
qed

lemma sqrt_loop_correct:
  fixes n x0 :: "'a::len word"
  assumes "sqrt_inv n x0" and "4 \<le> LENGTH('a)" and "n \<noteq> 0"
  shows "(unat (sqrt_loop n x0 (sqrt_next n x0))) ^ 2 \<le> unat n
    \<and> unat n < (unat (sqrt_loop n x0 (sqrt_next n x0)) + 1) ^ 2"
  using assms(1)
proof (induction "unat x0" arbitrary: x0 rule: less_induct)
  case less
  show ?case
  proof (cases "sqrt_next n x0 < x0")
    case True
    have "sqrt_inv n (sqrt_next n x0)"
      by (rule sqrt_inv_step) (fact less.prems assms True)+
    moreover have "unat (sqrt_next n x0) < unat x0" using True by (simp add: word_less_nat_alt)
    ultimately show ?thesis
      using less.hyps True by (simp add: sqrt_loop.simps [of n x0])
  next
    case False
    then have "unat x0 \<le> (unat x0 + unat n div unat x0) div 2"
      using unat_sqrt_next [OF less.prems assms(2)]
      by (simp add: word_le_nat_alt linorder_not_less)
    moreover have "0 < unat x0" using less.prems by (simp add: sqrt_inv_def)
    ultimately have "unat x0 ^ 2 \<le> unat n" by (intro sqrt_step_upper)
    then show ?thesis
      using less.prems False by (simp add: sqrt_loop.simps [of n x0] sqrt_inv_def)
  qed
qed

lemma ilog2_bounds: "0 < n \<Longrightarrow> 2 ^ ilog2 n \<le> n \<and> n < 2 ^ (ilog2 n + 1)"
proof (induction n rule: ilog2.induct)
  case (1 n)
  show ?case
  proof (cases "n < 2")
    case True
    with "1.prems" have "n = 1" by simp
    then show ?thesis by (simp add: ilog2.simps [of "Suc 0"])
  next
    case False
    then have "2 ^ ilog2 (n div 2) \<le> n div 2 \<and> n div 2 < 2 ^ (ilog2 (n div 2) + 1)"
      using "1.IH" by (simp add: div_greater_zero_iff)
    with False show ?thesis by (auto simp: ilog2.simps [of n])
  qed
qed

lemma sqrt_start:
  fixes n :: "'a::len word"
  assumes "n \<noteq> 0" and "4 \<le> LENGTH('a)"
  defines "x0 \<equiv> push_bit (ilog2 (unat n) div 2 + 1) 1"
  shows "sqrt_inv n x0"
proof -
  define l where "l = ilog2 (unat n)"
  have l: "2 ^ l \<le> unat n" "unat n < 2 ^ (l + 1)"
    using ilog2_bounds [of "unat n"] assms(1) by (simp_all add: l_def unat_gt_0)
  have "(2::nat) ^ l < 2 ^ LENGTH('a)" using l(1) by (rule le_less_trans) simp
  then have "l < LENGTH('a)" by simp
  with assms(2) have small: "l div 2 + 1 \<le> LENGTH('a) - 2" by linarith
  have "unat x0 = 2 ^ (l div 2 + 1)"
  proof -
    have "(2::nat) ^ (l div 2 + 1) < 2 ^ LENGTH('a)" 
      using small assms(2) by (intro power_strict_increasing) simp_all
    then show ?thesis
      unfolding x0_def l_def [symmetric] unsigned_push_bit_eq
      by (simp add: take_bit_nat_eq_self del: power_Suc)
  qed
  moreover have "unat n < (2 ^ (l div 2 + 1) + 1) ^ 2"
  proof -
    have "(2::nat) ^ (l + 1) \<le> 2 ^ (2 * (l div 2 + 1))" by (rule power_increasing) simp_all
    also have "\<dots> = (2 ^ (l div 2 + 1)) ^ 2" by (simp only: power_mult [symmetric] mult.commute)
    also have "\<dots> \<le> (2 ^ (l div 2 + 1) + 1) ^ 2" by (rule power_mono) simp_all
    finally show ?thesis using l(2) by (rule less_le_trans [rotated])
  qed
  moreover have "(2::nat) ^ (l div 2 + 1) \<le> 2 ^ (LENGTH('a) - 2)"
    using small by (rule power_increasing) simp
  ultimately show ?thesis by (simp add: sqrt_inv_def)
qed

lemma checked_sqrt_floor:
  fixes n :: "'a::len word"
  assumes "4 \<le> LENGTH('a)"
  obtains r where "checked_sqrt n = Inr r" and "unat r ^ 2 \<le> unat n" and "unat n < (unat r + 1) ^ 2"
proof (cases "n = 0")
  case True
  with that show ?thesis by (simp add: checked_sqrt_def is_zero_def)
next
  case False
  define x0 :: "'a word" where "x0 = push_bit (ilog2 (unat n) div 2 + 1) 1"
  have inv: "sqrt_inv n x0" using sqrt_start [OF False assms] by (simp add: x0_def)
  then have "0 < x0" by (simp add: sqrt_inv_def word_less_nat_alt)
  then have "checked_sqrt n = Inr (sqrt_loop n x0 (sqrt_next n x0))"
    using False by (simp add: checked_sqrt_def is_zero_def checked_ilog2_def Let_def x0_def)
  with that show ?thesis using sqrt_loop_correct [OF inv assms False] by blast
qed

subsection \<open>Properties\<close>

text \<open>C37: The integer square root returns for every 128-bit and every 256-bit value, and the result is the
  floor of the real square root: Newton's loop terminates, its shifts and sums never overflow, and
  its first guess is large enough.\<close>

theorem checked_sqrt_is_floor:
  fixes n :: u128 and m :: u256
  shows "(\<exists>r. checked_sqrt n = Inr r \<and> unat r ^ 2 \<le> unat n \<and> unat n < (unat r + 1) ^ 2)
    \<and> (\<exists>r. checked_sqrt m = Inr r \<and> unat r ^ 2 \<le> unat m \<and> unat m < (unat r + 1) ^ 2)"
proof
  obtain r where "checked_sqrt n = Inr r" "unat r ^ 2 \<le> unat n" "unat n < (unat r + 1) ^ 2"
    by (rule checked_sqrt_floor [of n]) simp_all
  then show "\<exists>r. checked_sqrt n = Inr r \<and> unat r ^ 2 \<le> unat n \<and> unat n < (unat r + 1) ^ 2" by blast
next
  obtain r where "checked_sqrt m = Inr r" "unat r ^ 2 \<le> unat m" "unat m < (unat r + 1) ^ 2"
    by (rule checked_sqrt_floor [of m]) simp_all
  then show "\<exists>r. checked_sqrt m = Inr r \<and> unat r ^ 2 \<le> unat m \<and> unat m < (unat r + 1) ^ 2" by blast
qed

end
