(* ===== verification/Decimals.thy ===== *)
theory Decimals
  imports Uints Complex_Main
begin

text \<open>
  The fixed-point half of \<^verbatim>\<open>grug/math/src\<close>: multiplication by a ratio through the next wider
  integer type, and \<open>Dec<U, S>\<close> for unsigned \<open>U\<close>. A decimal is its raw integer, the word \<open>x\<close> that
  stands for \<open>x / 10 ^ S\<close>; the number of decimal places, a const generic of the Rust type, is an
  argument of the operations that depend on it. The \<open>math_iff\<close> lemmas give the exact rounding of
  every operation: floor, ceiling or truncation of the rational result.
\<close>

subsection \<open>Ceiling division\<close>

definition ceil_div :: "nat \<Rightarrow> nat \<Rightarrow> nat" where
  "ceil_div a b = a div b + (if b dvd a then 0 else 1)"

lemma ceil_div_lower: "a \<le> ceil_div a b * b" if "0 < b"
proof (cases "b dvd a")
  case False
  have "a = a div b * b + a mod b" by simp
  also have "\<dots> \<le> a div b * b + b" using mod_less_divisor [OF that, of a] by linarith
  finally show ?thesis using False by (simp add: ceil_div_def)
qed (simp add: ceil_div_def)

lemma ceil_div_upper: "ceil_div a b * b < a + b" if "0 < b"
proof (cases "b dvd a")
  case False
  then have "0 < a mod b" by (simp add: dvd_eq_mod_eq_0)
  moreover have "a = a div b * b + a mod b" by simp
  ultimately have "a div b * b < a" by linarith
  with False show ?thesis by (simp add: ceil_div_def)
qed (use that in \<open>simp add: ceil_div_def\<close>)

lemma ceil_div_le_iff: "0 < b \<Longrightarrow> ceil_div a b \<le> c \<longleftrightarrow> a \<le> c * b"
proof
  assume b: "0 < b" and le: "ceil_div a b \<le> c"
  have "a \<le> ceil_div a b * b" by (rule ceil_div_lower) fact
  also have "\<dots> \<le> c * b" using le by (rule mult_le_mono1)
  finally show "a \<le> c * b" .
next
  assume b: "0 < b" and le: "a \<le> c * b"
  have "ceil_div a b * b < (c + 1) * b" using ceil_div_upper [OF b, of a] le by simp
  then have "ceil_div a b < c + 1" by (simp only: mult_less_cancel2)
  then show "ceil_div a b \<le> c" by simp
qed

lemma div_le_ceil_div: "a div b \<le> ceil_div a b"
  by (simp add: ceil_div_def)

lemma ceil_div_0 [simp]: "ceil_div 0 b = 0"
  by (simp add: ceil_div_def)

lemma ceil_div_real:
  assumes "0 < b"
  shows "nat \<lceil>real a / real b\<rceil> = ceil_div a b"
proof -
  have "\<lceil>real a / real b\<rceil> = int (ceil_div a b)"
  proof (rule ceiling_unique)
    have "real (ceil_div a b * b) < real (a + b)" using ceil_div_upper [OF assms, of a] by (simp only: of_nat_less_iff)
    then show "real_of_int (int (ceil_div a b)) - 1 < real a / real b"
      using assms by (simp add: field_simps)
    have "real a \<le> real (ceil_div a b * b)" using ceil_div_lower [OF assms, of a] by (simp only: of_nat_le_iff)
    then show "real a / real b \<le> real_of_int (int (ceil_div a b))"
      using assms by (simp add: field_simps)
  qed
  then show ?thesis by simp
qed

subsection \<open>Multiplication by a ratio (multiply\_ratio.rs)\<close>

definition checked_multiply_ratio :: "'a::len word \<Rightarrow> 'a word \<Rightarrow> 'a word \<Rightarrow> 'a word res" where
  "checked_multiply_ratio self numerator denominator =
     and_then (checked_full_mul self numerator) (\<lambda>p.
     and_then (checked_div p (into_next denominator)) checked_into_prev)"

definition checked_multiply_ratio_floor :: "'a::len word \<Rightarrow> 'a word \<Rightarrow> 'a word \<Rightarrow> 'a word res" where
  "checked_multiply_ratio_floor self numerator denominator =
     and_then (checked_full_mul self numerator) (\<lambda>dividend.
     and_then (checked_div dividend (into_next denominator)) (\<lambda>res.
     and_then
       (if (is_positive self = is_positive numerator) \<noteq> is_positive (into_next denominator)
        then and_then (checked_mul res (into_next denominator)) (\<lambda>m.
          if m \<noteq> dividend then checked_sub res 1 else Inr res)
        else Inr res)
       checked_into_prev))"

definition checked_multiply_ratio_ceil :: "'a::len word \<Rightarrow> 'a word \<Rightarrow> 'a word \<Rightarrow> 'a word res" where
  "checked_multiply_ratio_ceil self numerator denominator =
     and_then (checked_full_mul self numerator) (\<lambda>dividend.
     and_then (checked_div dividend (into_next denominator)) (\<lambda>res.
     and_then
       (if (is_positive self = is_positive numerator) = is_positive (into_next denominator)
        then and_then (checked_mul res (into_next denominator)) (\<lambda>m.
          if m \<noteq> dividend then checked_add res 1 else Inr res)
        else Inr res)
       checked_into_prev))"

lemma checked_multiply_ratio_Inr [math_iff]:
  "checked_multiply_ratio a n d = Inr r \<longleftrightarrow>
     unat d \<noteq> 0 \<and> unat r = unat a * unat n div unat d"
proof -
  obtain p where p: "checked_full_mul a n = Inr p" "unat p = unat a * unat n"
    by (rule checked_full_mul_total)
  show ?thesis
  proof (cases "d = 0")
    case True
    then show ?thesis
      by (simp add: checked_multiply_ratio_def p(1) checked_div_def into_next_def)
  next
    case False
    then have "checked_div p (into_next d) = Inr (p div into_next d)"
      by (simp add: checked_div_def word_unat_eq_iff)
    with False show ?thesis
      by (simp add: checked_multiply_ratio_def p checked_into_prev_Inr unat_div
          word_unat_eq_iff)
  qed
qed

lemma is_positive_unat: "is_positive a \<longleftrightarrow> unat a \<noteq> 0"
  by (simp add: is_positive_def word_less_nat_alt)

text \<open>On unsigned numbers nothing has to be floored: the division already truncates.\<close>

lemma checked_multiply_ratio_floor_eq:
  "checked_multiply_ratio_floor a n d = checked_multiply_ratio a n d"
proof -
  obtain p where p: "checked_full_mul a n = Inr p" "unat p = unat a * unat n"
    by (rule checked_full_mul_total)
  show ?thesis
  proof (cases "d \<noteq> 0 \<and> (is_positive a = is_positive n) \<noteq> is_positive (into_next d)")
    case True
    then have "unat p = 0"
      using p(2) by (auto simp: is_positive_unat word_unat_eq_iff)
    then have "p = 0" by (simp add: unat_0_iff)
    moreover have "checked_div 0 (into_next d) = Inr 0"
      using True by (simp add: math_iff word_unat_eq_iff)
    moreover have "checked_mul 0 (into_next d) = Inr 0" by (simp add: math_iff)
    ultimately show ?thesis
      by (simp add: checked_multiply_ratio_floor_def checked_multiply_ratio_def p(1))
  next
    case False
    then show ?thesis
      by (cases "d = 0")
        (auto simp: checked_multiply_ratio_floor_def checked_multiply_ratio_def p(1) checked_div_def
          into_next_def)
  qed
qed

lemma checked_multiply_ratio_floor_Inr [math_iff]:
  "checked_multiply_ratio_floor a n d = Inr r \<longleftrightarrow>
     unat d \<noteq> 0 \<and> unat r = unat a * unat n div unat d"
  by (simp only: checked_multiply_ratio_floor_eq checked_multiply_ratio_Inr)

lemma checked_multiply_ratio_ceil_Inr [math_iff]:
  fixes a n d r :: "'a::len word"
  shows "checked_multiply_ratio_ceil a n d = Inr r \<longleftrightarrow>
     unat d \<noteq> 0 \<and> unat r = ceil_div (unat a * unat n) (unat d)"
proof -
  obtain p where p: "checked_full_mul a n = Inr p" "unat p = unat a * unat n"
    by (rule checked_full_mul_total)
  show ?thesis
  proof (cases "d = 0")
    case True
    then show ?thesis
      by (simp add: checked_multiply_ratio_ceil_def p(1) checked_div_def into_next_def)
  next
    case False
    then have d: "unat d \<noteq> 0" by (simp add: word_unat_eq_iff)
    define q where "q = p div into_next d"
    have q: "checked_div p (into_next d) = Inr q" "unat q = unat p div unat d"
      using d by (simp_all add: q_def checked_div_def word_unat_eq_iff unat_div)
    have "unat q * unat d \<le> unat p" by (simp add: q(2) div_times_less_eq_dividend)
    then have "unat q * unat d < 2 ^ LENGTH('a bit0)"
      using unat_less_pow [of p] by (rule le_less_trans)
    then have m: "checked_mul q (into_next d) = Inr (q * into_next d)"
        "unat (q * into_next d) = unat p div unat d * unat d"
      by (simp_all add: checked_mul_def unat_word_ariths q(2))
    have exact: "q * into_next d = p \<longleftrightarrow> unat d dvd unat p"
      by (simp only: word_unat_eq_iff m(2)) (metis dvd_div_mult_self dvd_triv_right)
    show ?thesis
    proof (cases "unat d dvd unat p")
      case True
      then show ?thesis
        using d exact
        by (simp add: checked_multiply_ratio_ceil_def p q m checked_into_prev_Inr ceil_div_def)
    next
      case no: False
      then have "unat p \<noteq> 0" by (metis dvd_0_right)
      then have pos: "(is_positive a = is_positive n) = is_positive (into_next d)"
        using d p(2) by (simp add: is_positive_unat)
      have "unat d \<noteq> 1" using no by (metis one_dvd)
      then have "unat p div unat d < unat p"
        using d \<open>unat p \<noteq> 0\<close> by (intro div_less_dividend) simp_all
      then have "unat q + 1 \<le> unat p" by (simp add: q(2))
      then have "unat q + 1 < 2 ^ LENGTH('a bit0)"
        using unat_less_pow [of p] by (rule le_less_trans)
      then have "checked_add q 1 = Inr (q + 1)" "unat (q + 1) = unat p div unat d + 1"
        by (simp_all add: checked_add_def unat_word_ariths q(2))
      with no show ?thesis
        using d pos exact
        by (simp add: checked_multiply_ratio_ceil_def p q m checked_into_prev_Inr ceil_div_def)
    qed
  qed
qed

subsection \<open>Fixed-point numbers (dec.rs, fixed\_point.rs, fraction.rs)\<close>

type_synonym udec = u128

definition precision :: "nat \<Rightarrow> 'a::len word" where
  "precision s = of_nat (10 ^ s)"

definition dec_one :: "nat \<Rightarrow> 'a::len word" where
  "dec_one s = precision s"

lemma unat_precision: "10 ^ s < (2::nat) ^ LENGTH('a) \<Longrightarrow> unat (precision s :: 'a::len word) = 10 ^ s"
  unfolding precision_def unat_of_nat by (rule mod_less)

definition checked_from_ratio :: "nat \<Rightarrow> 'a::len word \<Rightarrow> 'a word \<Rightarrow> 'a word res" where
  "checked_from_ratio s numerator denominator =
     checked_multiply_ratio numerator (precision s) denominator"

definition checked_from_ratio_floor :: "nat \<Rightarrow> 'a::len word \<Rightarrow> 'a word \<Rightarrow> 'a word res" where
  "checked_from_ratio_floor s numerator denominator =
     checked_multiply_ratio_floor numerator (precision s) denominator"

definition checked_from_ratio_ceil :: "nat \<Rightarrow> 'a::len word \<Rightarrow> 'a word \<Rightarrow> 'a word res" where
  "checked_from_ratio_ceil s numerator denominator =
     checked_multiply_ratio_ceil numerator (precision s) denominator"

definition checked_inv :: "nat \<Rightarrow> 'a::len word \<Rightarrow> 'a word res" where
  "checked_inv s x = checked_from_ratio s (precision s) x"

definition checked_from_atomics :: "nat \<Rightarrow> 'a::len word \<Rightarrow> nat \<Rightarrow> 'a word res" where
  "checked_from_atomics s atomics decimal_places =
     (if decimal_places < s then
        and_then (checked_pow 10 (s - decimal_places)) (checked_mul atomics)
      else if decimal_places = s then Inr atomics
      else (case checked_pow 10 (decimal_places - s) of
              Inr factor \<Rightarrow> unwrap (checked_div atomics factor)
            | Inl _ \<Rightarrow> Inr 0))"

definition convert_precision :: "nat \<Rightarrow> nat \<Rightarrow> 'a::len word \<Rightarrow> 'a word res" where
  "convert_precision s s1 x =
     (if s < s1 then and_then (checked_pow 10 (s1 - s)) (checked_mul x)
      else if s = s1 then Inr x
      else and_then (checked_pow 10 (s - s1)) (checked_div x))"

definition checked_into_dec :: "nat \<Rightarrow> 'a::len word \<Rightarrow> 'a word res" where
  "checked_into_dec s x =
     map_err (\<lambda>_. MathErr OverflowConversion) (checked_mul x (precision s))"

definition into_int :: "nat \<Rightarrow> 'a::len word \<Rightarrow> 'a word res" where
  "into_int s x = unwrap (checked_div x (precision s))"

definition into_int_floor :: "nat \<Rightarrow> 'a::len word \<Rightarrow> 'a word res" where
  "into_int_floor s x = and_then (unwrap (checked_rem x (precision s))) (\<lambda>_. into_int s x)"

definition into_int_ceil :: "nat \<Rightarrow> 'a::len word \<Rightarrow> 'a word res" where
  "into_int_ceil s x =
     and_then (unwrap (checked_rem x (precision s))) (\<lambda>rem.
     and_then (into_int s x) (\<lambda>int.
       if is_zero rem then Inr int else unwrap (checked_add int 1)))"

subsection \<open>Integer times decimal (multiply\_fraction.rs)\<close>

definition checked_mul_dec :: "nat \<Rightarrow> 'a::len word \<Rightarrow> 'a word \<Rightarrow> 'a word res" where
  "checked_mul_dec s self rhs =
     (if is_zero self \<or> is_zero rhs then Inr 0
      else checked_multiply_ratio self rhs (precision s))"

definition checked_mul_dec_floor :: "nat \<Rightarrow> 'a::len word \<Rightarrow> 'a word \<Rightarrow> 'a word res" where
  "checked_mul_dec_floor s self rhs =
     (if is_zero self \<or> is_zero rhs then Inr 0
      else checked_multiply_ratio_floor self rhs (precision s))"

definition checked_mul_dec_ceil :: "nat \<Rightarrow> 'a::len word \<Rightarrow> 'a word \<Rightarrow> 'a word res" where
  "checked_mul_dec_ceil s self rhs =
     (if is_zero self \<or> is_zero rhs then Inr 0
      else checked_multiply_ratio_ceil self rhs (precision s))"

definition checked_div_dec :: "nat \<Rightarrow> 'a::len word \<Rightarrow> 'a word \<Rightarrow> 'a word res" where
  "checked_div_dec s self rhs =
     (if is_zero rhs then Inl (MathErr DivisionByZero)
      else if is_zero self then Inr 0
      else checked_multiply_ratio self (precision s) rhs)"

definition checked_div_dec_floor :: "nat \<Rightarrow> 'a::len word \<Rightarrow> 'a word \<Rightarrow> 'a word res" where
  "checked_div_dec_floor s self rhs =
     (if is_zero rhs then Inl (MathErr DivisionByZero)
      else if is_zero self then Inr 0
      else checked_multiply_ratio_floor self (precision s) rhs)"

definition checked_div_dec_ceil :: "nat \<Rightarrow> 'a::len word \<Rightarrow> 'a word \<Rightarrow> 'a word res" where
  "checked_div_dec_ceil s self rhs =
     (if is_zero rhs then Inl (MathErr DivisionByZero)
      else if is_zero self then Inr 0
      else checked_multiply_ratio_ceil self (precision s) rhs)"

subsection \<open>Decimal arithmetic, also between precisions (number.rs)\<close>

definition scale_precision :: "nat \<Rightarrow> nat \<Rightarrow> 'a::len word \<Rightarrow> 'a word res" where
  "scale_precision s1 s2 x =
     (if s1 < s2 then and_then (checked_pow 10 (s2 - s1)) (checked_div x)
      else if s1 = s2 then Inr x
      else and_then (checked_pow 10 (s1 - s2)) (checked_mul x))"

text \<open>Unsigned operands have equal signs: addition converts, subtraction goes through \<open>Next\<close>.\<close>

definition dec_add :: "nat \<Rightarrow> nat \<Rightarrow> 'a::len word \<Rightarrow> 'a word \<Rightarrow> 'a word res" where
  "dec_add s1 s2 self other =
     (if s1 = s2 then checked_add self other
      else and_then (convert_precision s2 s1 other) (checked_add self))"

definition dec_sub :: "nat \<Rightarrow> nat \<Rightarrow> 'a::len word \<Rightarrow> 'a word \<Rightarrow> 'a word res" where
  "dec_sub s1 s2 self other =
     (if s1 = s2 then checked_sub self other
      else and_then (scale_precision s1 s2 (into_next other)) (\<lambda>other'.
           and_then (checked_sub (into_next self) other') checked_into_prev))"

definition dec_mul :: "nat \<Rightarrow> 'a::len word \<Rightarrow> 'a word \<Rightarrow> 'a word res" where
  "dec_mul s2 self other =
     map_err (\<lambda>_. MathErr OverflowMul)
       (and_then (checked_full_mul self other) (\<lambda>p.
        and_then (checked_div p (into_next (precision s2))) checked_into_prev))"

definition dec_div :: "nat \<Rightarrow> 'a::len word \<Rightarrow> 'a word \<Rightarrow> 'a word res" where
  "dec_div s2 self other = checked_multiply_ratio self (precision s2) other"

definition dec_saturating_add :: "nat \<Rightarrow> nat \<Rightarrow> 'a::len word \<Rightarrow> 'a word \<Rightarrow> 'a word" where
  "dec_saturating_add s1 s2 self other =
     (case dec_add s1 s2 self other of Inr v \<Rightarrow> v
      | Inl _ \<Rightarrow> if is_positive other then max_value else 0)"

definition dec_saturating_sub :: "nat \<Rightarrow> nat \<Rightarrow> 'a::len word \<Rightarrow> 'a word \<Rightarrow> 'a word" where
  "dec_saturating_sub s1 s2 self other =
     (case dec_sub s1 s2 self other of Inr v \<Rightarrow> v
      | Inl _ \<Rightarrow> if is_positive other then 0 else max_value)"

definition dec_saturating_mul :: "nat \<Rightarrow> 'a::len word \<Rightarrow> 'a word \<Rightarrow> 'a word" where
  "dec_saturating_mul s2 self other =
     (case dec_mul s2 self other of Inr v \<Rightarrow> v
      | Inl _ \<Rightarrow> if is_positive self = is_positive other then max_value else 0)"

lemma precision_neq_0:
  "10 ^ s < (2::nat) ^ LENGTH('a) \<Longrightarrow> unat (precision s :: 'a::len word) \<noteq> 0"
  by (simp add: unat_precision)

lemma dec_mul_eq_ratio:
  "dec_mul s2 a b = map_err (\<lambda>_. MathErr OverflowMul) (checked_multiply_ratio a b (precision s2))"
  by (simp add: dec_mul_def checked_multiply_ratio_def)

text \<open>
  Exact results at the 128-bit width, for the number of decimal places that fit in it.
\<close>

lemma dec_rounding_128 [math_iff]:
  fixes a b r :: u128
  assumes "s \<le> 38"
  shows "dec_mul s a b = Inr r \<longleftrightarrow> unat r = unat a * unat b div 10 ^ s"
    and "checked_mul_dec s a b = Inr r \<longleftrightarrow> unat r = unat a * unat b div 10 ^ s"
    and "checked_mul_dec_floor s a b = Inr r \<longleftrightarrow> unat r = unat a * unat b div 10 ^ s"
    and "checked_mul_dec_ceil s a b = Inr r \<longleftrightarrow> unat r = ceil_div (unat a * unat b) (10 ^ s)"
    and "dec_div s a b = Inr r \<longleftrightarrow> unat b \<noteq> 0 \<and> unat r = unat a * 10 ^ s div unat b"
    and "checked_div_dec s a b = Inr r \<longleftrightarrow> unat b \<noteq> 0 \<and> unat r = unat a * 10 ^ s div unat b"
    and "checked_div_dec_floor s a b = Inr r \<longleftrightarrow> unat b \<noteq> 0 \<and> unat r = unat a * 10 ^ s div unat b"
    and "checked_div_dec_ceil s a b = Inr r \<longleftrightarrow>
      unat b \<noteq> 0 \<and> unat r = ceil_div (unat a * 10 ^ s) (unat b)"
    and "checked_from_ratio s a b = Inr r \<longleftrightarrow> unat b \<noteq> 0 \<and> unat r = unat a * 10 ^ s div unat b"
    and "checked_into_dec s a = Inr r \<longleftrightarrow> unat r = unat a * 10 ^ s"
proof -
  have "(10::nat) ^ s \<le> 10 ^ 38" using assms by (rule power_increasing) simp
  then have "(10::nat) ^ s < 2 ^ LENGTH(128)" by simp
  then have p: "unat (precision s :: u128) = 10 ^ s" by (rule unat_precision)
  note defs = dec_mul_eq_ratio checked_mul_dec_def checked_mul_dec_floor_def
    checked_mul_dec_ceil_def dec_div_def checked_div_dec_def checked_div_dec_floor_def
    checked_div_dec_ceil_def checked_from_ratio_def checked_into_dec_def
  note iffs = result_iff checked_multiply_ratio_Inr checked_multiply_ratio_floor_Inr
    checked_multiply_ratio_ceil_Inr checked_mul_Inr is_zero_def word_unat_eq_iff p
  show "dec_mul s a b = Inr r \<longleftrightarrow> unat r = unat a * unat b div 10 ^ s"
    "checked_mul_dec s a b = Inr r \<longleftrightarrow> unat r = unat a * unat b div 10 ^ s"
    "checked_mul_dec_floor s a b = Inr r \<longleftrightarrow> unat r = unat a * unat b div 10 ^ s"
    "checked_mul_dec_ceil s a b = Inr r \<longleftrightarrow> unat r = ceil_div (unat a * unat b) (10 ^ s)"
    "dec_div s a b = Inr r \<longleftrightarrow> unat b \<noteq> 0 \<and> unat r = unat a * 10 ^ s div unat b"
    "checked_div_dec s a b = Inr r \<longleftrightarrow> unat b \<noteq> 0 \<and> unat r = unat a * 10 ^ s div unat b"
    "checked_div_dec_floor s a b = Inr r \<longleftrightarrow> unat b \<noteq> 0 \<and> unat r = unat a * 10 ^ s div unat b"
    "checked_div_dec_ceil s a b = Inr r \<longleftrightarrow>
      unat b \<noteq> 0 \<and> unat r = ceil_div (unat a * 10 ^ s) (unat b)"
    "checked_from_ratio s a b = Inr r \<longleftrightarrow> unat b \<noteq> 0 \<and> unat r = unat a * 10 ^ s div unat b"
    "checked_into_dec s a = Inr r \<longleftrightarrow> unat r = unat a * 10 ^ s"
    by (auto simp: defs iffs)
qed

lemma into_int_128 [math_iff]:
  fixes x r :: u128
  assumes "s \<le> 38"
  shows "into_int s x = Inr r \<longleftrightarrow> unat r = unat x div 10 ^ s"
    and "into_int_floor s x = Inr r \<longleftrightarrow> unat r = unat x div 10 ^ s"
proof -
  have "(10::nat) ^ s \<le> 10 ^ 38" using assms by (rule power_increasing) simp
  then have "(10::nat) ^ s < 2 ^ LENGTH(128)" by simp
  then have p: "unat (precision s :: u128) = 10 ^ s" by (rule unat_precision)
  show i: "into_int s x = Inr r \<longleftrightarrow> unat r = unat x div 10 ^ s"
    by (simp add: into_int_def result_iff math_iff p)
  have "checked_rem x (precision s) = Inr (x mod precision s)"
    by (simp add: math_iff p unat_mod)
  then show "into_int_floor s x = Inr r \<longleftrightarrow> unat r = unat x div 10 ^ s"
    by (simp add: into_int_floor_def i)
qed

lemma into_int_ceil_128 [math_iff]:
  fixes x r :: u128
  assumes "s \<le> 38"
  shows "into_int_ceil s x = Inr r \<longleftrightarrow> unat r = ceil_div (unat x) (10 ^ s)"
proof -
  have "(10::nat) ^ s \<le> 10 ^ 38" using assms by (rule power_increasing) simp
  then have "(10::nat) ^ s < 2 ^ LENGTH(128)" by simp
  then have p: "unat (precision s :: u128) = 10 ^ s" by (rule unat_precision)
  have rem: "checked_rem x (precision s) = Inr (x mod precision s)"
    by (simp add: math_iff p unat_mod)
  have "checked_div x (precision s) = Inr (x div precision s)"
    by (simp add: math_iff p unat_div)
  then have int: "into_int s x = Inr (x div precision s)" by (simp add: into_int_def)
  have zero: "is_zero (x mod precision s) \<longleftrightarrow> 10 ^ s dvd unat x"
    by (simp add: is_zero_def word_unat_eq_iff unat_mod p dvd_eq_mod_eq_0)
  show ?thesis
    by (auto simp: into_int_ceil_def rem int zero ceil_div_def result_iff checked_add_Inr
        word_unat_eq_iff unat_div p)
qed

subsection \<open>Evaluation on concrete numbers\<close>

lemma ratio_eval:
  fixes a n d :: "'a::len word"
  shows "d \<noteq> 0 \<Longrightarrow> unat a * unat n div unat d < 2 ^ LENGTH('a) \<Longrightarrow>
      checked_multiply_ratio a n d = Inr (of_nat (unat a * unat n div unat d))"
    and "d \<noteq> 0 \<Longrightarrow> unat a * unat n div unat d < 2 ^ LENGTH('a) \<Longrightarrow>
      checked_multiply_ratio_floor a n d = Inr (of_nat (unat a * unat n div unat d))"
    and "d \<noteq> 0 \<Longrightarrow> ceil_div (unat a * unat n) (unat d) < 2 ^ LENGTH('a) \<Longrightarrow>
      checked_multiply_ratio_ceil a n d = Inr (of_nat (ceil_div (unat a * unat n) (unat d)))"
  by (auto simp: math_iff unat_of_nat unat_0_iff)

lemmas dec_eval =
  ratio_eval ceil_div_def precision_def dec_one_def checked_from_ratio_def checked_from_ratio_floor_def
  checked_from_ratio_ceil_def checked_mul_dec_def checked_mul_dec_floor_def checked_mul_dec_ceil_def
  checked_div_dec_def checked_div_dec_floor_def checked_div_dec_ceil_def checked_add_def checked_sub_def
  is_zero_def is_non_zero_def

subsection \<open>Properties\<close>

text \<open>Multiplying by a ratio is exact at every width: the floor and ceiling variants return the
  floor and the ceiling of \<open>a * n / d\<close> computed without overflow in between, and they fail exactly
  when the denominator is zero or the rounded result does not fit the type.\<close>

lemma multiply_ratio_rounds_exactly:
  fixes a n d r :: "'a::len word"
  shows "(checked_multiply_ratio_floor a n d = Inr r \<longleftrightarrow>
        d \<noteq> 0 \<and> unat r = nat \<lfloor>real (unat a) * real (unat n) / real (unat d)\<rfloor>)
    \<and> (checked_multiply_ratio_ceil a n d = Inr r \<longleftrightarrow>
        d \<noteq> 0 \<and> unat r = nat \<lceil>real (unat a) * real (unat n) / real (unat d)\<rceil>)"
proof -
  have "nat \<lfloor>real (unat a) * real (unat n) / real (unat d)\<rfloor> = unat a * unat n div unat d"
    by (metis floor_divide_of_nat_eq nat_int of_nat_mult)
  moreover have "nat \<lceil>real (unat a) * real (unat n) / real (unat d)\<rceil> = ceil_div (unat a * unat n) (unat d)"
    if "d \<noteq> 0"
    using ceil_div_real [of "unat d" "unat a * unat n"] that by (simp add: unat_gt_0)
  ultimately show ?thesis by (auto simp: math_iff unat_0_iff)
qed

end
