(* ===== verification/Int_Text.thy ===== *)
theory Int_Text
  imports Uints "HOL-Library.Char_ord"
begin

text \<open>
  \<open>FromStr\<close> and \<open>Display\<close> of \<open>Int<U>\<close> (\<^verbatim>\<open>grug/math/src/int.rs\<close>), which pass the text to the
  primitive type: decimal digits, an optional leading plus sign, an error on an empty text, on any
  other character, and on overflow. Printing then parsing gives the number back.
\<close>

definition digit_char :: "nat \<Rightarrow> char" where
  "digit_char d = char_of (48 + d)"

definition char_digit :: "char \<Rightarrow> nat option" where
  "char_digit c = (let n = of_char c :: nat in if 48 \<le> n \<and> n \<le> 57 then Some (n - 48) else None)"

fun nat_to_string :: "nat \<Rightarrow> string" where
  "nat_to_string n =
     (if n < 10 then [digit_char n] else nat_to_string (n div 10) @ [digit_char (n mod 10)])"

declare nat_to_string.simps [simp del]

fun digits_value :: "nat \<Rightarrow> string \<Rightarrow> nat option" where
  "digits_value acc [] = Some acc"
| "digits_value acc (c # cs) =
     (case char_digit c of None \<Rightarrow> None | Some d \<Rightarrow> digits_value (10 * acc + d) cs)"

definition int_to_string :: "'a::len word \<Rightarrow> string" where
  "int_to_string x = nat_to_string (unat x)"

definition int_from_str :: "string \<Rightarrow> 'a::len word res" where
  "int_from_str s =
     (let ds = (case s of [] \<Rightarrow> [] | c # cs \<Rightarrow> if c = CHR ''+'' \<and> cs \<noteq> [] then cs else s)
      in if ds = [] then Inl (MathErr ParseNumber)
         else (case digits_value 0 ds of
                 None \<Rightarrow> Inl (MathErr ParseNumber)
               | Some n \<Rightarrow> if n < 2 ^ LENGTH('a) then Inr (of_nat n)
                          else Inl (MathErr ParseNumber)))"

lemma of_char_digit: "d < 10 \<Longrightarrow> of_char (digit_char d) = 48 + d"
  by (simp add: digit_char_def)

lemma char_digit_digit [simp]: "d < 10 \<Longrightarrow> char_digit (digit_char d) = Some d"
  by (simp add: char_digit_def of_char_digit)

lemma digits_value_append:
  "digits_value acc (xs @ ys) =
     (case digits_value acc xs of None \<Rightarrow> None | Some n \<Rightarrow> digits_value n ys)"
  by (induction acc xs rule: digits_value.induct) (simp_all split: option.splits)

lemma digits_value_nat_to_string: "digits_value 0 (nat_to_string n) = Some n"
proof (induction n rule: nat_to_string.induct)
  case (1 n)
  then show ?case
    by (subst nat_to_string.simps) (simp add: digits_value_append)
qed

lemma nat_to_string_digits: "c \<in> set (nat_to_string n) \<Longrightarrow> \<exists>d < 10. c = digit_char d"
proof (induction n arbitrary: c rule: nat_to_string.induct)
  case (1 n)
  show ?case
  proof (cases "n < 10")
    case True
    with "1.prems" show ?thesis by (auto simp: nat_to_string.simps [of n])
  next
    case False
    with "1" have "c \<in> set (nat_to_string (n div 10)) \<or> c = digit_char (n mod 10)"
      by (auto simp: nat_to_string.simps [of n])
    with "1.IH" [OF False] show ?thesis by (auto intro: exI [of _ "n mod 10"])
  qed
qed

lemma nat_to_string_not_Nil [simp]: "nat_to_string n \<noteq> []"
  by (subst nat_to_string.simps) simp

lemma digit_char_neq:
  assumes "d < 10"
  shows "digit_char d \<noteq> CHR ''+''" and "digit_char d \<noteq> CHR '',''" and "digit_char d \<noteq> CHR '':''"
  using of_char_digit [OF assms] assms by (auto simp del: of_char_of)

lemma int_to_string_chars:
  "CHR '','' \<notin> set (int_to_string x)" "CHR '':'' \<notin> set (int_to_string x)"
  "CHR ''+'' \<notin> set (int_to_string x)"
  by (auto simp: int_to_string_def dest!: nat_to_string_digits simp: digit_char_neq [symmetric]
      digit_char_neq)

lemma int_print_parse: "int_from_str (int_to_string x) = Inr (x :: 'a::len word)"
proof -
  obtain c cs where s: "int_to_string x = c # cs"
    by (metis int_to_string_def nat_to_string_not_Nil neq_Nil_conv)
  then have "c \<noteq> CHR ''+''" using int_to_string_chars(3) [of x] by auto
  moreover have "digits_value 0 (int_to_string x) = Some (unat x)"
    by (simp add: int_to_string_def digits_value_nat_to_string)
  ultimately show ?thesis by (simp add: int_from_str_def s)
qed

end
