(* ===== verification/Coins.thy ===== *)
theory Coins
  imports Denoms Decimals Int_Text
begin

text \<open>
  Coins and coin pairs: \<^verbatim>\<open>grug/types/src/coin.rs\<close>, \<^verbatim>\<open>coins.rs\<close> and \<^verbatim>\<open>coin_pair.rs\<close>. A \<open>Coins\<close> is the
  ordered map from denom to amount of the source; its invariant (\<open>coins_ok\<close>) is that no amount
  is zero. The lemmas: every operation keeps the invariant; insertion and deduction change exactly
  one amount by exactly the coin's, or fail; deducting what was inserted gives the coins back;
  the textual form parses back; a coin pair stays sorted and distinct.
\<close>

record coin =
  c_denom :: denom
  c_amount :: u128

type_synonym coins = "(denom, u128) omap"

definition mk_coin :: "denom \<Rightarrow> u128 \<Rightarrow> coin" where
  "mk_coin d a = \<lparr>c_denom = d, c_amount = a\<rparr>"

lemma mk_coin_simps [simp]: "c_denom (mk_coin d a) = d" "c_amount (mk_coin d a) = a"
  by (simp_all add: mk_coin_def)

subsection \<open>Coins (coins.rs)\<close>

definition coins_ok :: "coins \<Rightarrow> bool" where
  "coins_ok cs \<longleftrightarrow> om_ok cs \<and> (\<forall>e \<in> set cs. snd e \<noteq> 0)"

definition coins_new :: coins where
  "coins_new = []"

definition coins_one :: "denom \<Rightarrow> u128 \<Rightarrow> coins res" where
  "coins_one d a = (if is_zero a then Inl ZeroValue else Inr [(d, a)])"

definition coins_is_empty :: "coins \<Rightarrow> bool" where
  "coins_is_empty cs \<longleftrightarrow> cs = []"

definition coins_is_non_empty :: "coins \<Rightarrow> bool" where
  "coins_is_non_empty cs \<longleftrightarrow> cs \<noteq> []"

definition coins_len :: "coins \<Rightarrow> nat" where
  "coins_len cs = length cs"

definition coins_has :: "coins \<Rightarrow> denom \<Rightarrow> bool" where
  "coins_has cs d \<longleftrightarrow> map_of cs d \<noteq> None"

definition amount_of :: "coins \<Rightarrow> denom \<Rightarrow> u128" where
  "amount_of cs d = (case map_of cs d of None \<Rightarrow> 0 | Some a \<Rightarrow> a)"

definition coins_iter :: "coins \<Rightarrow> coin list" where
  "coins_iter cs = map (\<lambda>(d, a). mk_coin d a) cs"

definition into_one_coin :: "coins \<Rightarrow> coin res" where
  "into_one_coin cs =
     (if coins_len cs \<noteq> 1 then Inl InvalidPayment
      else (case coins_iter cs of c # _ \<Rightarrow> Inr c | [] \<Rightarrow> Inl Panic))"

definition into_one_coin_of_denom :: "coins \<Rightarrow> denom \<Rightarrow> coin res" where
  "into_one_coin_of_denom cs d =
     and_then (into_one_coin cs) (\<lambda>c. if c_denom c \<noteq> d then Inl InvalidPayment else Inr c)"

definition into_two_coins :: "coins \<Rightarrow> (coin \<times> coin) res" where
  "into_two_coins cs =
     (if coins_len cs \<noteq> 2 then Inl InvalidPayment
      else (case coins_iter cs of c1 # c2 # _ \<Rightarrow> Inr (c1, c2) | _ \<Rightarrow> Inl Panic))"

definition coins_insert :: "coins \<Rightarrow> coin \<Rightarrow> coins res" where
  "coins_insert cs c =
     (case map_of cs (c_denom c) of
        None \<Rightarrow> if is_non_zero (c_amount c) then Inr (om_insert (c_denom c) (c_amount c) cs) else Inr cs
      | Some amount \<Rightarrow>
          and_then (checked_add amount (c_amount c)) (\<lambda>new. Inr (om_insert (c_denom c) new cs)))"

definition coins_insert_many :: "coins \<Rightarrow> coin list \<Rightarrow> coins res" where
  "coins_insert_many = try_fold coins_insert"

definition coins_deduct :: "coins \<Rightarrow> coin \<Rightarrow> coins res" where
  "coins_deduct cs c =
     (case map_of cs (c_denom c) of
        None \<Rightarrow> Inl DenomNotFound
      | Some amount \<Rightarrow>
          and_then (checked_sub amount (c_amount c)) (\<lambda>new.
            Inr (if is_zero new then om_remove (c_denom c) cs else om_insert (c_denom c) new cs)))"

definition coins_deduct_many :: "coins \<Rightarrow> coin list \<Rightarrow> coins res" where
  "coins_deduct_many = try_fold coins_deduct"

text \<open>The result holds the coins left and the remainder that could not be deducted.\<close>

definition saturating_deduct :: "coins \<Rightarrow> coin \<Rightarrow> (coins \<times> coin) res" where
  "saturating_deduct cs c =
     (case map_of cs (c_denom c) of
        None \<Rightarrow> Inr (cs, c)
      | Some amount \<Rightarrow>
          if amount \<le> c_amount c
          then and_then (unwrap (checked_sub (c_amount c) amount)) (\<lambda>remainder.
                 Inr (om_remove (c_denom c) cs, mk_coin (c_denom c) remainder))
          else and_then (checked_sub amount (c_amount c)) (\<lambda>new.
                 Inr (om_insert (c_denom c) new cs, mk_coin (c_denom c) 0)))"

definition saturating_deduct_many :: "coins \<Rightarrow> coin list \<Rightarrow> (coins \<times> coins) res" where
  "saturating_deduct_many cs =
     try_fold (\<lambda>(cs, remainders) c.
       and_then (saturating_deduct cs c) (\<lambda>(cs', r).
       and_then (coins_insert remainders r) (\<lambda>remainders'. Inr (cs', remainders'))))
     (cs, coins_new)"

definition coins_take :: "coins \<Rightarrow> denom \<Rightarrow> coins \<times> coin" where
  "coins_take cs d = (om_remove d cs, mk_coin d (amount_of cs d))"

definition try_from_iterator :: "(denom \<times> u128) list \<Rightarrow> coins res" where
  "try_from_iterator =
     try_fold (\<lambda>m (d, a).
       if is_zero a then Inr m
       else if map_of m d \<noteq> None then Inl InvalidCoins
       else Inr (om_insert d a m)) []"

text \<open>Textual form: \<open>denom:amount\<close> separated by commas, and \<open>[]\<close> for no coins.\<close>

fun split_once :: "char \<Rightarrow> string \<Rightarrow> (string \<times> string) option" where
  "split_once c [] = None"
| "split_once c (x # xs) =
     (if x = c then Some ([], xs)
      else (case split_once c xs of None \<Rightarrow> None | Some (p, q) \<Rightarrow> Some (x # p, q)))"

definition coins_from_str :: "string \<Rightarrow> coins res" where
  "coins_from_str s =
     (if s = ''[]'' then Inr coins_new
      else try_fold (\<lambda>m coin_str.
        and_then (ok_or InvalidCoins (split_once CHR '':'' coin_str)) (\<lambda>(denom_str, amount_str).
        and_then (denom_from_str denom_str) (\<lambda>d.
          if map_of m d \<noteq> None then Inl InvalidCoins
          else and_then (map_err (\<lambda>_. InvalidCoins) (int_from_str amount_str)) (\<lambda>a.
            if is_zero a then Inl InvalidCoins else Inr (om_insert d a m)))))
        [] (split_on CHR '','' s))"

fun join_with :: "string \<Rightarrow> string list \<Rightarrow> string" where
  "join_with sep [] = []"
| "join_with sep [x] = x"
| "join_with sep (x # y # ys) = x @ sep @ join_with sep (y # ys)"

definition coin_to_string :: "coin \<Rightarrow> string res" where
  "coin_to_string c =
     and_then (denom_to_string (c_denom c)) (\<lambda>d. Inr (d @ '':'' @ int_to_string (c_amount c)))"

definition coins_to_string :: "coins \<Rightarrow> string res" where
  "coins_to_string cs =
     (if coins_is_empty cs then Inr ''[]''
      else and_then (try_map coin_to_string (coins_iter cs)) (\<lambda>ss. Inr (join_with '','' ss)))"

subsection \<open>Coin pairs (coin\_pair.rs)\<close>

type_synonym coin_pair = "coin \<times> coin"

definition coin_pair_new :: "coin \<Rightarrow> coin \<Rightarrow> coin_pair res" where
  "coin_pair_new c1 c2 =
     (if c_denom c1 = c_denom c2 then Inl InvalidCoins
      else if c_denom c1 < c_denom c2 then Inr (c1, c2)
      else Inr (c2, c1))"

definition coin_pair_merge :: "coin_pair \<Rightarrow> coin_pair \<Rightarrow> coin_pair res" where
  "coin_pair_merge p q =
     (if c_denom (fst p) \<noteq> c_denom (fst q) \<or> c_denom (snd p) \<noteq> c_denom (snd q)
      then Inl InvalidCoins
      else and_then (checked_add (c_amount (fst p)) (c_amount (fst q))) (\<lambda>a.
           and_then (checked_add (c_amount (snd p)) (c_amount (snd q))) (\<lambda>b.
             Inr ((fst p)\<lparr>c_amount := a\<rparr>, (snd p)\<lparr>c_amount := b\<rparr>))))"

text \<open>The result holds what is left and the portion split off.\<close>

definition coin_pair_split :: "coin_pair \<Rightarrow> u128 \<Rightarrow> u128 \<Rightarrow> (coin_pair \<times> coin_pair) res" where
  "coin_pair_split p numerator denominator =
     and_then (checked_multiply_ratio_floor (c_amount (fst p)) numerator denominator) (\<lambda>amount1.
     and_then (checked_multiply_ratio_floor (c_amount (snd p)) numerator denominator) (\<lambda>amount2.
     and_then (checked_sub (c_amount (fst p)) amount1) (\<lambda>a.
     and_then (checked_sub (c_amount (snd p)) amount2) (\<lambda>b.
       Inr (((fst p)\<lparr>c_amount := a\<rparr>, (snd p)\<lparr>c_amount := b\<rparr>),
            (mk_coin (c_denom (fst p)) amount1, mk_coin (c_denom (snd p)) amount2))))))"

definition coin_pair_has :: "coin_pair \<Rightarrow> denom \<Rightarrow> bool" where
  "coin_pair_has p d \<longleftrightarrow> c_denom (fst p) = d \<or> c_denom (snd p) = d"

definition coin_pair_amount_of :: "coin_pair \<Rightarrow> denom \<Rightarrow> u128 res" where
  "coin_pair_amount_of p d =
     (if c_denom (fst p) = d then Inr (c_amount (fst p))
      else if c_denom (snd p) = d then Inr (c_amount (snd p))
      else Inl InvalidCoins)"

definition coin_pair_add :: "coin_pair \<Rightarrow> coin \<Rightarrow> coin_pair res" where
  "coin_pair_add p c =
     (if c_denom (fst p) = c_denom c
      then and_then (checked_add (c_amount (fst p)) (c_amount c)) (\<lambda>a. Inr ((fst p)\<lparr>c_amount := a\<rparr>, snd p))
      else if c_denom (snd p) = c_denom c
      then and_then (checked_add (c_amount (snd p)) (c_amount c)) (\<lambda>a. Inr (fst p, (snd p)\<lparr>c_amount := a\<rparr>))
      else Inl InvalidCoins)"

definition coin_pair_sub :: "coin_pair \<Rightarrow> coin \<Rightarrow> coin_pair res" where
  "coin_pair_sub p c =
     (if c_denom (fst p) = c_denom c
      then and_then (checked_sub (c_amount (fst p)) (c_amount c)) (\<lambda>a. Inr ((fst p)\<lparr>c_amount := a\<rparr>, snd p))
      else if c_denom (snd p) = c_denom c
      then and_then (checked_sub (c_amount (snd p)) (c_amount c)) (\<lambda>a. Inr (fst p, (snd p)\<lparr>c_amount := a\<rparr>))
      else Inl InvalidCoins)"

definition coin_pair_try_from :: "coins \<Rightarrow> coin_pair res" where
  "coin_pair_try_from cs =
     (if coins_len cs \<noteq> 2 then Inl InvalidCoins
      else (case coins_iter cs of c1 # c2 # _ \<Rightarrow> Inr (c1, c2) | _ \<Rightarrow> Inl Panic))"

definition coin_pair_into_coins :: "coin_pair \<Rightarrow> coins" where
  "coin_pair_into_coins p =
     (let m = (if is_non_zero (c_amount (fst p)) then om_insert (c_denom (fst p)) (c_amount (fst p)) [] else [])
      in if is_non_zero (c_amount (snd p)) then om_insert (c_denom (snd p)) (c_amount (snd p)) m else m)"

definition coins_take_pair :: "coins \<Rightarrow> denom \<times> denom \<Rightarrow> (coins \<times> coin_pair) res" where
  "coins_take_pair cs = (\<lambda>(denom1, denom2).
     (let (cs1, c1) = coins_take cs denom1;
          (cs2, c2) = coins_take cs1 denom2
      in and_then (coin_pair_new c1 c2) (\<lambda>p. Inr (cs2, p))))"

definition coin_pair_ok :: "coin_pair \<Rightarrow> bool" where
  "coin_pair_ok p \<longleftrightarrow> c_denom (fst p) < c_denom (snd p)"

subsection \<open>Invariant and functional behaviour of coins\<close>

lemma coins_okD: "coins_ok cs \<Longrightarrow> om_ok cs"
  by (simp add: coins_ok_def)

lemma coins_ok_insert_entry: "coins_ok cs \<Longrightarrow> a \<noteq> 0 \<Longrightarrow> coins_ok (om_insert d a cs)"
  by (auto simp: coins_ok_def om_ok_insert om_insert_entries)

lemma coins_ok_remove_entry: "coins_ok cs \<Longrightarrow> coins_ok (om_remove d cs)"
  by (auto simp: coins_ok_def om_ok_remove om_remove_entries)

lemma amount_of_om_insert:
  "om_ok cs \<Longrightarrow> amount_of (om_insert d a cs) d' = (if d' = d then a else amount_of cs d')"
  by (simp add: amount_of_def om.get_put)

lemma amount_of_om_remove:
  "om_ok cs \<Longrightarrow> amount_of (om_remove d cs) d' = (if d' = d then 0 else amount_of cs d')"
  by (simp add: amount_of_def om.get_del)

lemma coins_entry_neq_0: "coins_ok cs \<Longrightarrow> map_of cs d = Some a \<Longrightarrow> a \<noteq> 0"
  by (fastforce simp: coins_ok_def dest: map_of_SomeD)

lemma amount_of_0_iff: "coins_ok cs \<Longrightarrow> amount_of cs d = 0 \<longleftrightarrow> map_of cs d = None"
  by (auto simp: amount_of_def coins_entry_neq_0 split: option.splits)

text \<open>Two coins values with the same amounts are equal.\<close>

lemma om_ext: "om_ok m \<Longrightarrow> om_ok m' \<Longrightarrow> map_of m = map_of m' \<Longrightarrow> m = m'"
proof (induction m arbitrary: m')
  case Nil
  then show ?case by (cases m') (auto simp: fun_eq_iff split: if_splits)
next
  case (Cons e m)
  obtain k v where e: "e = (k, v)" by (cases e)
  from Cons.prems(3) have "map_of m' k = Some v" by (simp add: e fun_eq_iff) (metis)
  then obtain k' v' n where m': "m' = (k', v') # n" by (cases m') auto
  have m: "om_ok m" "map_of m k = None" using Cons.prems(1)
    by (auto simp: e om_ok_Cons intro!: map_of_notin)
  have n: "om_ok n" "map_of n k' = None" using Cons.prems(2)
    by (auto simp: m' om_ok_Cons intro!: map_of_notin)
  have "k' = k"
  proof (rule ccontr)
    assume neq: "k' \<noteq> k"
    with \<open>map_of m' k = Some v\<close> have "map_of n k = Some v" by (simp add: m')
    then have "k' < k" using Cons.prems(2) by (auto simp: m' om_ok_Cons dest!: map_of_SomeD)
    have "map_of m' k' = Some v'" by (simp add: m')
    then have "map_of m k' = Some v'" using Cons.prems(3) neq by (simp add: e fun_eq_iff) metis
    then have "k < k'" using Cons.prems(1) by (auto simp: e om_ok_Cons dest!: map_of_SomeD)
    with \<open>k' < k\<close> show False by simp
  qed
  moreover from this have "v' = v" using \<open>map_of m' k = Some v\<close> by (simp add: m')
  moreover have "map_of m = map_of n"
    using Cons.prems(3) m(2) n(2) \<open>k' = k\<close> by (simp add: e m' fun_eq_iff) metis
  ultimately show ?case using Cons.IH [OF m(1) n(1)] by (simp add: e m')
qed

lemma coins_ext:
  assumes "coins_ok cs" and "coins_ok cs'" and "\<And>d. amount_of cs d = amount_of cs' d"
  shows "cs = cs'"
proof (rule om_ext)
  have "map_of cs d = map_of cs' d" for d
    using assms(3) [of d] coins_entry_neq_0 [OF assms(1), of d] coins_entry_neq_0 [OF assms(2), of d]
    by (auto simp: amount_of_def split: option.splits)
  then show "map_of cs = map_of cs'" by (simp add: fun_eq_iff)
qed (use assms in \<open>simp_all add: coins_ok_def\<close>)

lemma coins_insert_Inr:
  assumes "coins_ok cs" and "coins_insert cs c = Inr cs'"
  shows "coins_ok cs'"
    and "unat (amount_of cs' d) = unat (amount_of cs d) + (if d = c_denom c then unat (c_amount c) else 0)"
proof -
  have ok: "om_ok cs" by (rule coins_okD) fact
  have "coins_ok cs' \<and> unat (amount_of cs' d) =
      unat (amount_of cs d) + (if d = c_denom c then unat (c_amount c) else 0)"
  proof (cases "map_of cs (c_denom c)")
    case None
    then show ?thesis
      using assms ok
      by (auto simp: coins_insert_def is_non_zero_def is_zero_def coins_ok_insert_entry
          amount_of_om_insert split: if_splits) (auto simp: amount_of_def)
  next
    case (Some amount)
    with assms(2) obtain new where new: "checked_add amount (c_amount c) = Inr new"
        "cs' = om_insert (c_denom c) new cs"
      by (auto simp: coins_insert_def result_iff)
    have "amount \<noteq> 0" using assms(1) Some by (rule coins_entry_neq_0)
    then have "new \<noteq> 0" using new(1) by (auto simp: math_iff word_unat_eq_iff)
    with new ok assms(1) Some show ?thesis
      by (auto simp: coins_ok_insert_entry amount_of_om_insert math_iff) (simp add: amount_of_def)
  qed
  then show "coins_ok cs'" and "unat (amount_of cs' d) =
      unat (amount_of cs d) + (if d = c_denom c then unat (c_amount c) else 0)"
    by simp_all
qed

lemma coins_deduct_Inr:
  assumes "coins_ok cs" and "coins_deduct cs c = Inr cs'"
  shows "coins_ok cs'"
    and "unat (amount_of cs d) = unat (amount_of cs' d) + (if d = c_denom c then unat (c_amount c) else 0)"
proof -
  have ok: "om_ok cs" by (rule coins_okD) fact
  from assms(2) obtain amount new where a: "map_of cs (c_denom c) = Some amount"
      "checked_sub amount (c_amount c) = Inr new"
      "cs' = (if is_zero new then om_remove (c_denom c) cs else om_insert (c_denom c) new cs)"
    by (auto simp: coins_deduct_def result_iff split: option.splits)
  then show "coins_ok cs'"
    using assms(1) by (auto simp: is_zero_def coins_ok_remove_entry coins_ok_insert_entry)
  have "amount_of cs (c_denom c) = amount" using a(1) by (simp add: amount_of_def)
  then show "unat (amount_of cs d) =
      unat (amount_of cs' d) + (if d = c_denom c then unat (c_amount c) else 0)"
    using a(2,3) ok by (auto simp: is_zero_def amount_of_om_remove amount_of_om_insert math_iff)
qed

lemma coins_deduct_Inr_iff:
  assumes "coins_ok cs"
  shows "is_ok (coins_deduct cs c) \<longleftrightarrow>
    map_of cs (c_denom c) \<noteq> None \<and> c_amount c \<le> amount_of cs (c_denom c)"
  by (auto simp: coins_deduct_def amount_of_def checked_sub_def split: option.splits)

lemma coins_deduct_insert:
  assumes "coins_ok cs" and "coins_insert cs c = Inr cs'" and "c_amount c \<noteq> 0"
  shows "coins_deduct cs' c = Inr cs"
proof -
  note ok' = coins_insert_Inr(1) [OF assms(1,2)]
  note amt = coins_insert_Inr(2) [OF assms(1,2)]
  have "unat (c_amount c) \<le> unat (amount_of cs' (c_denom c))" using amt [of "c_denom c"] by simp
  moreover have "amount_of cs' (c_denom c) \<noteq> 0"
    using amt [of "c_denom c"] assms(3) by (auto simp: word_unat_eq_iff)
  ultimately have "is_ok (coins_deduct cs' c)"
    using ok' by (simp add: coins_deduct_Inr_iff amount_of_0_iff word_le_nat_alt)
  then obtain cs'' where cs'': "coins_deduct cs' c = Inr cs''"
    by (cases "coins_deduct cs' c") simp_all
  have "cs'' = cs"
  proof (rule coins_ext)
    show "coins_ok cs''" using ok' cs'' by (rule coins_deduct_Inr(1))
    show "amount_of cs'' d = amount_of cs d" for d
      using amt [of d] coins_deduct_Inr(2) [OF ok' cs'', where d = d]
      by (simp add: word_unat_eq_iff)
  qed fact
  with cs'' show ?thesis by simp
qed

lemma coins_insert_many_Inr:
  assumes "coins_ok cs" and "coins_insert_many cs xs = Inr cs'"
  shows "coins_ok cs'"
    and "unat (amount_of cs' d) =
      unat (amount_of cs d) + (\<Sum>c\<leftarrow>xs. if c_denom c = d then unat (c_amount c) else 0)"
proof -
  show "coins_ok cs'"
    using assms try_fold_invariant [of xs coins_ok coins_insert]
    by (metis coins_insert_Inr(1) coins_insert_many_def)
  show "unat (amount_of cs' d) =
      unat (amount_of cs d) + (\<Sum>c\<leftarrow>xs. if c_denom c = d then unat (c_amount c) else 0)"
  proof (rule try_fold_measure [where I = coins_ok and f = coins_insert])
    fix cs c cs'
    assume "coins_ok cs" and "coins_insert cs c = Inr cs'"
    from coins_insert_Inr(1) [OF this] coins_insert_Inr(2) [OF this, where d = d]
    show "coins_ok cs' \<and> unat (amount_of cs' d) =
        unat (amount_of cs d) + (if c_denom c = d then unat (c_amount c) else 0)"
      by auto
  qed (use assms in \<open>simp_all add: coins_insert_many_def\<close>)
qed

lemma saturating_deduct_Inr:
  assumes "coins_ok cs"
  obtains cs' r where "saturating_deduct cs c = Inr (cs', r)" and "coins_ok cs'"
    and "c_denom r = c_denom c"
    and "unat (c_amount r) = unat (c_amount c) - unat (amount_of cs (c_denom c))"
    and "\<And>d. unat (amount_of cs' d) =
      unat (amount_of cs d) - (if d = c_denom c then unat (c_amount c) else 0)"
proof (cases "map_of cs (c_denom c)")
  case None
  then have "amount_of cs (c_denom c) = 0" by (simp add: amount_of_def)
  with None assms show ?thesis by (intro that [of cs c]) (auto simp: saturating_deduct_def)
next
  case (Some amount)
  have ok: "om_ok cs" and a: "amount_of cs (c_denom c) = amount"
    using assms Some by (auto simp: coins_ok_def amount_of_def)
  show ?thesis
  proof (cases "amount \<le> c_amount c")
    case True
    with Some have "saturating_deduct cs c =
        Inr (om_remove (c_denom c) cs, mk_coin (c_denom c) (c_amount c - amount))"
      by (simp add: saturating_deduct_def checked_sub_def)
    then show ?thesis
      by (rule that) (use True a ok assms in
        \<open>auto simp: coins_ok_remove_entry unat_sub amount_of_om_remove word_le_nat_alt\<close>)
  next
    case False
    with Some have eq: "saturating_deduct cs c =
        Inr (om_insert (c_denom c) (amount - c_amount c) cs, mk_coin (c_denom c) 0)"
      by (simp add: saturating_deduct_def checked_sub_def)
    moreover have "amount - c_amount c \<noteq> 0" using False by auto
    ultimately show ?thesis
      by (intro that [OF eq]) (use False a ok assms in
        \<open>auto simp: coins_ok_insert_entry unat_sub amount_of_om_insert word_le_nat_alt\<close>)
  qed
qed

lemma try_from_iterator_ok:
  assumes "try_from_iterator xs = Inr cs"
  shows "coins_ok cs"
  using assms unfolding try_from_iterator_def
  by (rule try_fold_invariant [where I = coins_ok, rotated 2])
    (auto simp: is_zero_def coins_ok_insert_entry coins_ok_def [of "[]"] split: if_splits)

subsection \<open>Textual round trip\<close>

lemma split_once_append: "c \<notin> set p \<Longrightarrow> split_once c (p @ c # q) = Some (p, q)"
  by (induction p) auto

lemma split_on_join_with:
  assumes "ss \<noteq> []" and "\<And>s. s \<in> set ss \<Longrightarrow> c \<notin> set s"
  shows "split_on c (join_with [c] ss) = ss"
  using assms by (induction "[c]" ss rule: join_with.induct)
    (auto simp: split_on_simple split_on_append)

lemma denom_string_chars:
  assumes "valid_denom d" and "denom_to_string d = Inr s" and "c \<in> set s"
  shows "c = CHR ''/'' \<or> is_ascii_alphanumeric c"
  using assms by (cases d) (auto simp: valid_denom_def valid_part_def list_all_iff split: if_splits)

lemma denom_string_no_sep:
  assumes "valid_denom d" and "denom_to_string d = Inr s"
  shows "CHR '':'' \<notin> set s" and "CHR '','' \<notin> set s" and "CHR ''['' \<notin> set s"
  using denom_string_chars [OF assms] by (fastforce simp: is_ascii_alphanumeric_def Let_def)+

definition denoms_valid :: "coins \<Rightarrow> bool" where
  "denoms_valid cs \<longleftrightarrow> list_all (\<lambda>e. valid_denom (fst e)) cs"

text \<open>One step of the parsing loop, on the text of one coin.\<close>

definition parse_coin :: "coins \<Rightarrow> string \<Rightarrow> coins res" where
  "parse_coin m coin_str =
     and_then (ok_or InvalidCoins (split_once CHR '':'' coin_str)) (\<lambda>(denom_str, amount_str).
     and_then (denom_from_str denom_str) (\<lambda>d.
       if map_of m d \<noteq> None then Inl InvalidCoins
       else and_then (map_err (\<lambda>_. InvalidCoins) (int_from_str amount_str)) (\<lambda>a.
         if is_zero a then Inl InvalidCoins else Inr (om_insert d a m))))"

lemma coins_from_str_parse_coin:
  "coins_from_str s =
     (if s = ''[]'' then Inr coins_new else try_fold parse_coin [] (split_on CHR '','' s))"
  by (simp add: coins_from_str_def parse_coin_def [abs_def])

lemma coin_to_string_parse:
  assumes "valid_denom d" and "a \<noteq> 0" and "map_of m d = None"
  obtains s where "coin_to_string (mk_coin d a) = Inr s" and "CHR '','' \<notin> set s" and "hd s \<noteq> CHR ''[''"
    and "parse_coin m s = Inr (om_insert d a m)"
proof -
  obtain ds where ds: "denom_to_string d = Inr ds" "denom_from_str ds = Inr d"
    using denom_print_parse [OF assms(1)] .
  define s where "s = ds @ '':'' @ int_to_string a"
  have nc: "CHR '':'' \<notin> set ds" "CHR '','' \<notin> set ds" "CHR ''['' \<notin> set ds"
    using denom_string_no_sep [OF assms(1) ds(1)] by auto
  show thesis
  proof (rule that [of s])
    show "coin_to_string (mk_coin d a) = Inr s" by (simp add: coin_to_string_def ds s_def)
    show "CHR '','' \<notin> set s" using nc by (simp add: s_def int_to_string_chars)
    show "hd s \<noteq> CHR ''[''" using nc by (cases ds) (auto simp: s_def)
    show "parse_coin m s = Inr (om_insert d a m)"
      using assms nc ds
      by (simp add: parse_coin_def s_def split_once_append int_print_parse is_zero_def)
  qed
qed

lemma coins_print_parse_loop:
  assumes "coins_ok (m @ cs)" and "denoms_valid cs"
  shows "\<exists>ss. try_map coin_to_string (coins_iter cs) = Inr ss \<and> length ss = length cs
    \<and> (\<forall>s \<in> set ss. CHR '','' \<notin> set s \<and> hd s \<noteq> CHR ''['')
    \<and> try_fold parse_coin m ss = Inr (m @ cs)"
  using assms
proof (induction cs arbitrary: m)
  case Nil
  then show ?case by (simp add: coins_iter_def)
next
  case (Cons e cs)
  obtain d a where e: "e = (d, a)" by (cases e)
  from Cons.prems have d: "valid_denom d" "a \<noteq> 0" "denoms_valid cs"
    by (auto simp: e denoms_valid_def coins_ok_def)
  have lt: "\<And>x. x \<in> set m \<Longrightarrow> fst x < d"
    using Cons.prems(1) by (force simp: e coins_ok_def om_ok_def sorted_wrt_append)
  then have "map_of m d = None" by (intro map_of_notin) force
  then obtain s where s: "coin_to_string (mk_coin d a) = Inr s" "CHR '','' \<notin> set s" "hd s \<noteq> CHR ''[''"
      "parse_coin m s = Inr (om_insert d a m)"
    using coin_to_string_parse [OF d(1,2)] by blast
  have m': "om_insert d a m = m @ [(d, a)]" using lt by (rule om_insert_last)
  have "coins_ok ((m @ [(d, a)]) @ cs)" using Cons.prems(1) by (simp add: e)
  from Cons.IH [OF this d(3)] s m' show ?case by (auto simp: e coins_iter_def)
qed

lemma coins_print_parse:
  assumes "coins_ok cs" and "denoms_valid cs"
  obtains s where "coins_to_string cs = Inr s" and "coins_from_str s = Inr cs"
proof (cases cs)
  case Nil
  then show ?thesis
    using that [of "''[]''"] by (simp add: coins_to_string_def coins_is_empty_def
        coins_from_str_def coins_new_def)
next
  case (Cons e cs')
  obtain ss where ss: "try_map coin_to_string (coins_iter cs) = Inr ss" "length ss = length cs"
      "\<forall>s \<in> set ss. CHR '','' \<notin> set s \<and> hd s \<noteq> CHR ''[''" "try_fold parse_coin [] ss = Inr cs"
    using coins_print_parse_loop [of "[]" cs] assms by auto
  define s where "s = join_with '','' ss"
  have ne: "ss \<noteq> []" using ss(2) Cons by auto
  have "split_on CHR '','' s = ss"
    unfolding s_def using ne ss(3) by (intro split_on_join_with) auto
  moreover have "s \<noteq> ''[]''"
  proof
    assume "s = ''[]''"
    then have "split_on CHR '','' s = [''[]'']" by simp
    with \<open>split_on CHR '','' s = ss\<close> ss(3) show False by auto
  qed
  moreover have "coins_to_string cs = Inr s"
    using ss(1) Cons by (simp add: coins_to_string_def coins_is_empty_def s_def)
  ultimately show ?thesis
    using ss(4) by (intro that [of s]) (simp_all add: coins_from_str_parse_coin)
qed

subsection \<open>Coin pairs\<close>

lemma coin_pair_new_Inr: "coin_pair_new c1 c2 = Inr p \<Longrightarrow> coin_pair_ok p"
  by (auto simp: coin_pair_new_def coin_pair_ok_def split: if_splits)

lemma coin_pair_split_sum:
  assumes "coin_pair_split p n d = Inr (rest, out)"
  shows "unat (c_amount (fst rest)) + unat (c_amount (fst out)) = unat (c_amount (fst p))"
    and "unat (c_amount (snd rest)) + unat (c_amount (snd out)) = unat (c_amount (snd p))"
  using assms by (auto simp: coin_pair_split_def result_iff math_iff)

subsection \<open>Properties\<close>

text \<open>Inserting a coin into valid coins gives valid coins with exactly that amount more, and deducting
  the same coin gives back the original; inserting fails exactly when the sum overflows.\<close>

lemma coins_insert_then_deduct:
  assumes "coins_ok cs" and "c_amount c \<noteq> 0"
  shows "case coins_insert cs c of
      Inl e \<Rightarrow> 2 ^ 128 \<le> unat (amount_of cs (c_denom c)) + unat (c_amount c)
    | Inr cs' \<Rightarrow> coins_ok cs' \<and> coins_deduct cs' c = Inr cs \<and>
        (\<forall>d. unat (amount_of cs' d) =
          unat (amount_of cs d) + (if d = c_denom c then unat (c_amount c) else 0))"
proof (cases "coins_insert cs c")
  case (Inl e)
  then show ?thesis
    by (auto simp: coins_insert_def amount_of_def checked_add_def split: option.splits if_splits)
next
  case (Inr cs')
  with assms coins_insert_Inr [OF assms(1) Inr] coins_deduct_insert [OF assms(1) Inr assms(2)]
  show ?thesis by simp
qed

lemma coins_insert_then_deduct_witness:
  "coins_insert [([''a''], 3)] (mk_coin [''b''] 4) = Inr [([''a''], 3), ([''b''], 4)] \<and>
   coins_deduct [([''a''], 3), ([''b''], 4)] (mk_coin [''b''] 4) = Inr [([''a''], 3)]"
proof -
  have ins: "coins_insert [([''a''], 3)] (mk_coin [''b''] 4) = Inr [([''a''], 3), ([''b''], 4)]"
    by (simp add: coins_insert_def is_non_zero_def is_zero_def mk_coin_def)
  have "coins_ok [([''a''], 3)]" "c_amount (mk_coin [''b''] 4) \<noteq> 0"
    by (simp_all add: coins_ok_def om_ok_def)
  from coins_insert_then_deduct [OF this] show ?thesis by (simp add: ins)
qed

text \<open>Coins round trip through their text: for valid coins with valid denoms the printer succeeds
  and the parser returns exactly those coins.\<close>

lemma coins_text_round_trip:
  assumes "coins_ok cs" and "denoms_valid cs"
  shows "\<exists>s. coins_to_string cs = Inr s \<and> coins_from_str s = Inr cs"
  using coins_print_parse [OF assms] by blast

lemma coins_text_round_trip_witness:
  "\<exists>s. coins_to_string [([''a''], 3), ([''a'', ''b''], 4)] = Inr s \<and>
     coins_from_str s = Inr [([''a''], 3), ([''a'', ''b''], 4)]"
  by (rule coins_text_round_trip)
    (simp_all add: coins_ok_def om_ok_def denoms_valid_def valid_denom_def valid_part_def denom_len_def
      is_ascii_alphanumeric_def)

text \<open>A saturating deduction never fails on valid coins: the amount falls by the coin's amount or to
  zero, the remainder returned is exactly what could not be deducted, and the coins stay valid.\<close>

lemma saturating_deduct_exact:
  assumes "coins_ok cs"
  shows "\<exists>cs' r. saturating_deduct cs c = Inr (cs', r) \<and> coins_ok cs' \<and> c_denom r = c_denom c \<and>
    unat (c_amount r) = unat (c_amount c) - unat (amount_of cs (c_denom c)) \<and>
    (\<forall>d. unat (amount_of cs' d) =
      unat (amount_of cs d) - (if d = c_denom c then unat (c_amount c) else 0))"
  using saturating_deduct_Inr [OF assms, of c] by metis

lemma saturating_deduct_exact_witness:
  "\<exists>cs' r. saturating_deduct [([''a''], 3)] (mk_coin [''a''] 5) = Inr (cs', r) \<and> unat (c_amount r) = 2"
proof -
  have "coins_ok [([''a''], 3)]" by (simp add: coins_ok_def om_ok_def)
  from saturating_deduct_exact [OF this, of "mk_coin [''a''] 5"] show ?thesis
    by (auto simp: amount_of_def)
qed

end
