(* ===== verification/Context.thy ===== *)
theory Context
  imports Coins
begin

text \<open>
  The call context of a contract (\<^verbatim>\<open>grug/types/src/context.rs\<close>): who is called, by whom, with which
  funds, in which block. A \<^verbatim>\<open>Timestamp\<close> counts nanoseconds. The answers a contract gets from other
  contracts through its querier are fields of the records of the contract that asks, or arguments.
  \<open>may_modify\<close> and \<open>page\<close> are the storage accesses of \<^verbatim>\<open>grug/storage\<close> the contracts share.
\<close>

record ctx =
  ctx_contract :: addr
  ctx_sender :: addr
  ctx_funds :: coins
  ctx_time :: u128
  ctx_height :: u64

text \<open>Durations and timestamps add and subtract with Rust's operators, which panic on overflow.\<close>

definition duration_add :: "u128 \<Rightarrow> u128 \<Rightarrow> u128 res" where
  "duration_add a b = unwrap (checked_add a b)"

definition duration_sub :: "u128 \<Rightarrow> u128 \<Rightarrow> u128 res" where
  "duration_sub a b = unwrap (checked_sub a b)"

definition may_modify ::
    "'k::linorder \<Rightarrow> ('v option \<Rightarrow> 'v option res) \<Rightarrow> ('k, 'v) omap \<Rightarrow> ('k, 'v) omap res" where
  "may_modify k f m = and_then (f (map_of m k)) (\<lambda>v. Inr (om_set k v m))"

definition may_update ::
    "'k::linorder \<Rightarrow> ('v option \<Rightarrow> 'v res) \<Rightarrow> ('k, 'v) omap \<Rightarrow> ('k, 'v) omap res" where
  "may_update k f m = and_then (f (map_of m k)) (\<lambda>v. Inr (om_insert k v m))"

definition om_load :: "('k, 'v) omap \<Rightarrow> 'k \<Rightarrow> 'v res" where
  "om_load m k = ok_or DataNotFound (map_of m k)"

text \<open>An ascending page of a map: exclusive lower bound, limit with the default of 30 entries.\<close>

definition default_page_limit :: u32 where
  "default_page_limit = 30"

definition page :: "'k::linorder option \<Rightarrow> u32 option \<Rightarrow> ('k, 'v) omap \<Rightarrow> ('k, 'v) omap" where
  "page start_after limit m =
     take (unat (case limit of None \<Rightarrow> default_page_limit | Some l \<Rightarrow> l))
       (case start_after of None \<Rightarrow> m | Some k \<Rightarrow> filter (\<lambda>e. k < fst e) m)"

lemma may_modify_Inr [result_iff]:
  "may_modify k f m = Inr m' \<longleftrightarrow> (\<exists>v. f (map_of m k) = Inr v \<and> m' = om_set k v m)"
  by (auto simp: may_modify_def result_iff)

lemma may_update_Inr [result_iff]:
  "may_update k f m = Inr m' \<longleftrightarrow> (\<exists>v. f (map_of m k) = Inr v \<and> m' = om_insert k v m)"
  by (auto simp: may_update_def result_iff)

lemma om_load_Inr [result_iff]: "om_load m k = Inr v \<longleftrightarrow> map_of m k = Some v"
  by (simp add: om_load_def result_iff)

lemma om_ok_take: "om_ok m \<Longrightarrow> om_ok (take n m)"
  by (simp add: om_ok_def sorted_wrt_take flip: take_map)

lemma om_ok_page: "om_ok m \<Longrightarrow> om_ok (page s l m)"
  by (auto simp: page_def om_ok_take om_ok_filter split: option.splits)

lemma set_page: "e \<in> set (page s l m) \<Longrightarrow> e \<in> set m"
  by (auto simp: page_def dest: in_set_takeD split: option.splits)

subsection \<open>Amounts kept in maps, absent meaning zero\<close>

definition om_amount :: "('k, u128) omap \<Rightarrow> 'k \<Rightarrow> nat" where
  "om_amount m k = unat (case map_of m k of None \<Rightarrow> 0 | Some v \<Rightarrow> v)"

definition nonzero :: "u128 \<Rightarrow> u128 option" where
  "nonzero v = (if is_zero v then None else Some v)"

lemma om_amount_set:
  "om_ok m \<Longrightarrow> om_amount (om_set k (nonzero v) m) k' = (if k' = k then unat v else om_amount m k')"
  by (auto simp: om_amount_def map_of_om_set nonzero_def is_zero_def)

lemma om_sum_set_amount:
  assumes "om_ok m" and "\<And>v. w k v = (if sel then unat v else 0)"
  shows "om_sum w (om_set k (nonzero v) m) + (if sel then om_amount m k else 0)
    = om_sum w m + (if sel then unat v else 0)"
proof -
  have "weight w k (map_of m k) = (if sel then om_amount m k else 0)"
    by (auto simp: om_amount_def assms(2) split: option.splits)
  moreover have "weight w k (nonzero v) = (if sel then unat v else 0)"
    by (auto simp: nonzero_def is_zero_def assms(2))
  ultimately show ?thesis using om_sum_set [OF assms(1), of w k "nonzero v"] by simp
qed

lemma sum_coins_iter:
  assumes "om_ok cs"
  shows "(\<Sum>c\<leftarrow>coins_iter cs. if c_denom c = d then unat (c_amount c) else 0) = unat (amount_of cs d)"
  using assms
proof (induction cs)
  case (Cons e cs)
  obtain k v where e: "e = (k, v)" by (cases e)
  from Cons.prems have "om_ok cs" "map_of cs k = None"
    by (auto simp: e om_ok_Cons intro!: map_of_notin)
  with Cons.IH show ?case by (auto simp: e coins_iter_def amount_of_def)
qed (simp add: coins_iter_def amount_of_def)

end
