(* ===== verification/Wormhole.thy ===== *)
theory Wormhole
  imports Context
begin

text \<open>
  Wormhole messages, \<^verbatim>\<open>pyth/types/src\<close>: the byte reader (\<^verbatim>\<open>byte_analyzer.rs\<close>), parsing and verification
  of a VAA (\<^verbatim>\<open>wormhole.rs\<close>), and the Pyth price feeds it carries (\<^verbatim>\<open>vaa.rs\<close>). The host's
  cryptographic functions and the decoders of the third-party Pyth libraries are the fields of two
  records, so that every statement holds for any of them.
\<close>

type_synonym bytes = "u8 list"

subsection \<open>Reading bytes (byte\_analyzer.rs)\<close>

record bytes_analyzer =
  ba_bytes :: bytes
  ba_index :: nat

definition next_chunk :: "nat \<Rightarrow> bytes_analyzer \<Rightarrow> (bytes \<times> bytes_analyzer) res" where
  "next_chunk s ba =
     (if ba_index ba + s \<le> length (ba_bytes ba)
      then Inr (take s (drop (ba_index ba) (ba_bytes ba)), ba\<lparr>ba_index := ba_index ba + s\<rparr>)
      else Inl (Bail ''not enough bytes left''))"

text \<open>Big endian numbers.\<close>

definition from_be_bytes :: "bytes \<Rightarrow> 'a::len word" where
  "from_be_bytes bs = foldl (\<lambda>acc b. acc * 256 + ucast b) 0 bs"

definition next_be :: "nat \<Rightarrow> bytes_analyzer \<Rightarrow> ('a::len word \<times> bytes_analyzer) res" where
  "next_be s ba = and_then (next_chunk s ba) (\<lambda>(bs, ba'). Inr (from_be_bytes bs, ba'))"

text \<open>\<open>deref\<close> is the unread rest, \<open>consume\<close> returns it.\<close>

definition analyzer_rest :: "bytes_analyzer \<Rightarrow> bytes" where
  "analyzer_rest ba = drop (ba_index ba) (ba_bytes ba)"

subsection \<open>VAAs (wormhole.rs)\<close>

record guardian_set =
  gs_addresses :: "160 word list"
  gs_expiration_time :: "u128 option"

definition quorum :: "guardian_set \<Rightarrow> nat" where
  "quorum gs = (length (gs_addresses gs) * 10 div 3 * 2) div 10 + 1"

record guardian_signature =
  sig_id_recover :: u8
  sig_signature :: bytes

record wormhole_vaa =
  wv_version :: u8
  wv_guardian_set_index :: u32
  wv_hash :: u256
  wv_timestamp :: u32
  wv_nonce :: u32
  wv_emitter_chain :: u16
  wv_sequence :: u64
  wv_consistency_level :: u8
  wv_signatures :: "(u8, guardian_signature) omap"
  wv_emitter_address :: bytes
  wv_payload :: bytes

text \<open>The host's functions: Keccak-256, and recovery of a secp256k1 public key (uncompressed, 65 bytes).\<close>

record crypto_api =
  keccak256 :: "bytes \<Rightarrow> bytes"
  secp256k1_pubkey_recover :: "u256 \<Rightarrow> bytes \<Rightarrow> u8 \<Rightarrow> bytes res"

definition signature_new :: "bytes \<Rightarrow> guardian_signature res" where
  "signature_new raw_bytes =
     and_then (next_chunk 64 \<lparr>ba_bytes = raw_bytes, ba_index = 0\<rparr>) (\<lambda>(sig, ba).
     and_then (next_be 1 ba) (\<lambda>(id_recover, ba).
       Inr \<lparr>sig_id_recover = id_recover, sig_signature = sig\<rparr>))"

text \<open>The signatures are collected into a map: a later one of the same index replaces an earlier one.\<close>

fun read_signatures ::
    "nat \<Rightarrow> bytes_analyzer \<Rightarrow> (u8, guardian_signature) omap \<Rightarrow>
     ((u8, guardian_signature) omap \<times> bytes_analyzer) res" where
  "read_signatures 0 ba sigs = Inr (sigs, ba)"
| "read_signatures (Suc n) ba sigs =
     and_then (next_be 1 ba) (\<lambda>(index, ba).
     and_then (next_chunk 65 ba) (\<lambda>(signature, ba).
     and_then (signature_new signature) (\<lambda>sig.
       read_signatures n ba (om_insert index sig sigs))))"

definition wormhole_vaa_new :: "crypto_api \<Rightarrow> bytes \<Rightarrow> wormhole_vaa res" where
  "wormhole_vaa_new api raw_bytes =
     and_then (next_be 1 \<lparr>ba_bytes = raw_bytes, ba_index = 0\<rparr>) (\<lambda>(version, ba).
     and_then (next_be 4 ba) (\<lambda>(guardian_set_index, ba).
     and_then (next_be 1 ba) (\<lambda>(len_signers :: u8, ba).
     and_then (read_signatures (unat len_signers) ba []) (\<lambda>(signatures, ba).
     (let hash = from_be_bytes (keccak256 api (keccak256 api (analyzer_rest ba))) in
     and_then (next_be 4 ba) (\<lambda>(timestamp, ba).
     and_then (next_be 4 ba) (\<lambda>(nonce, ba).
     and_then (next_be 2 ba) (\<lambda>(emitter_chain, ba).
     and_then (next_chunk 32 ba) (\<lambda>(emitter_address, ba).
     and_then (next_be 8 ba) (\<lambda>(sequence, ba).
     and_then (next_be 1 ba) (\<lambda>(consistency_level, ba).
       Inr \<lparr>wv_version = version, wv_guardian_set_index = guardian_set_index, wv_hash = hash,
            wv_timestamp = timestamp, wv_nonce = nonce, wv_emitter_chain = emitter_chain,
            wv_sequence = sequence, wv_consistency_level = consistency_level,
            wv_signatures = signatures, wv_emitter_address = emitter_address,
            wv_payload = analyzer_rest ba\<rparr>)))))))))))"

text \<open>One round of the loop over the signatures.\<close>

definition check_signature :: "crypto_api \<Rightarrow> u256 \<Rightarrow> guardian_set \<Rightarrow> u8 \<times> guardian_signature \<Rightarrow> unit res" where
  "check_signature api hash gs = (\<lambda>(index, sig).
     and_then (secp256k1_pubkey_recover api hash (sig_signature sig) (sig_id_recover sig)) (\<lambda>decompressed_point.
     and_then (ensure (decompressed_point \<noteq> []) Panic) (\<lambda>_.
     (let addr = drop 12 (keccak256 api (drop 1 decompressed_point)) in
     and_then (ok_or (Bail ''guardian not found in the guardian set'')
         (if unat index < length (gs_addresses gs) then Some (gs_addresses gs ! unat index) else None)) (\<lambda>info.
       ensure (from_be_bytes addr = info) (Bail ''recovered guardian address does not match''))))))"

definition wormhole_verify ::
    "crypto_api \<Rightarrow> u128 \<Rightarrow> (u32, guardian_set) omap \<Rightarrow> wormhole_vaa \<Rightarrow> unit res" where
  "wormhole_verify api now guardian_sets vaa =
     and_then (ensure (wv_version vaa = 1) (Bail ''invalid VAA version'')) (\<lambda>_.
     and_then (om_load guardian_sets (wv_guardian_set_index vaa)) (\<lambda>gs.
     and_then (case gs_expiration_time gs of
         Some expiry \<Rightarrow> ensure (now < expiry) (Bail ''guardian set expired'')
       | None \<Rightarrow> Inr ()) (\<lambda>_.
     and_then (ensure (quorum gs \<le> length (wv_signatures vaa)) (Bail ''not enough signatures'')) (\<lambda>_.
       try_fold (\<lambda>_ e. check_signature api (wv_hash vaa) gs e) () (wv_signatures vaa)))))"

subsection \<open>Price feeds (vaa.rs)\<close>

text \<open>A price feed of the Pyth library; prices, exponents and times are signed words.\<close>

record price_feed =
  pf_id :: u256
  pf_price :: u64
  pf_ema_price :: u64
  pf_expo :: u32
  pf_publish_time :: u64

record pyth_vaa =
  pv_wormhole_vaa :: wormhole_vaa
  pv_feeds :: "price_feed list"

text \<open>The messages of the Pyth libraries: an accumulator message is a price feed or of another kind, an
  attestation of a batch has the current and the previous price. Confidences are never read.\<close>

record price_feed_message =
  pm_feed_id :: u256
  pm_price :: u64
  pm_exponent :: u32
  pm_publish_time :: u64
  pm_ema_price :: u64

datatype pyth_message = PriceFeedMessage price_feed_message | OtherMessage

record price_attestation =
  pa_price_id :: u256
  pa_price :: u64
  pa_expo :: u32
  pa_ema_price :: u64
  pa_trading :: bool
  pa_publish_time :: u64
  pa_prev_publish_time :: u64
  pa_prev_price :: u64

text \<open>The decoders of the Pyth libraries: an accumulator update holds a VAA and updates, each a message
  with a Merkle proof; a batch holds attestations.\<close>

record pyth_lib =
  decode_update :: "bytes \<Rightarrow> (bytes \<times> (bytes \<times> bytes) list) res"
  decode_root :: "bytes \<Rightarrow> bytes res"
  check_proof :: "bytes \<Rightarrow> bytes \<Rightarrow> bytes \<Rightarrow> bool"
  decode_message :: "bytes \<Rightarrow> pyth_message res"
  decode_batch :: "bytes \<Rightarrow> price_attestation list res"

definition update_magic :: bytes where
  "update_magic = [0x50, 0x4e, 0x41, 0x55]"

definition feed_of_message :: "price_feed_message \<Rightarrow> price_feed" where
  "feed_of_message m =
     \<lparr>pf_id = pm_feed_id m, pf_price = pm_price m, pf_ema_price = pm_ema_price m, pf_expo = pm_exponent m,
      pf_publish_time = pm_publish_time m\<rparr>"

text \<open>An update is accepted when its proof leads to the signed root and it is a price feed.\<close>

definition read_update :: "pyth_lib \<Rightarrow> bytes \<Rightarrow> bytes \<times> bytes \<Rightarrow> price_feed res" where
  "read_update lib merkle_root = (\<lambda>(message, proof).
     and_then (ensure (check_proof lib merkle_root proof message) (Bail ''invalid proof'')) (\<lambda>_.
     and_then (decode_message lib message) (\<lambda>msg.
       case msg of
         PriceFeedMessage m \<Rightarrow> Inr (feed_of_message m)
       | OtherMessage \<Rightarrow> Inl (Bail ''invalid message''))))"

text \<open>When the market is not trading, the previous price stands for the current one.\<close>

definition feed_of_attestation :: "price_attestation \<Rightarrow> price_feed" where
  "feed_of_attestation a =
     (if pa_trading a
      then \<lparr>pf_id = pa_price_id a, pf_price = pa_price a, pf_ema_price = pa_ema_price a, pf_expo = pa_expo a,
            pf_publish_time = pa_publish_time a\<rparr>
      else \<lparr>pf_id = pa_price_id a, pf_price = pa_prev_price a, pf_ema_price = pa_ema_price a, pf_expo = pa_expo a,
            pf_publish_time = pa_prev_publish_time a\<rparr>)"

definition pyth_vaa_new :: "crypto_api \<Rightarrow> pyth_lib \<Rightarrow> bytes \<Rightarrow> pyth_vaa res" where
  "pyth_vaa_new api lib bs =
     and_then (ensure (4 \<le> length bs) Panic) (\<lambda>_.
     if take 4 bs = update_magic
     then
       and_then (decode_update lib bs) (\<lambda>(vaa, updates).
       and_then (wormhole_vaa_new api vaa) (\<lambda>parsed_vaa.
       and_then (decode_root lib (wv_payload parsed_vaa)) (\<lambda>root.
       and_then (try_map (read_update lib root) updates) (\<lambda>feeds.
         Inr \<lparr>pv_wormhole_vaa = parsed_vaa, pv_feeds = feeds\<rparr>))))
     else
       and_then (wormhole_vaa_new api bs) (\<lambda>vaa.
       and_then (decode_batch lib (wv_payload vaa)) (\<lambda>attestations.
         Inr \<lparr>pv_wormhole_vaa = vaa, pv_feeds = map feed_of_attestation attestations\<rparr>)))"

definition pyth_vaa_verify ::
    "crypto_api \<Rightarrow> u128 \<Rightarrow> (u32, guardian_set) omap \<Rightarrow> pyth_vaa \<Rightarrow> price_feed list res" where
  "pyth_vaa_verify api now guardian_sets vaa =
     and_then (wormhole_verify api now guardian_sets (pv_wormhole_vaa vaa)) (\<lambda>_. Inr (pv_feeds vaa))"

subsection \<open>More than two thirds of the guardians\<close>

lemma quorum_exact: "quorum gs = 2 * length (gs_addresses gs) div 3 + 1"
proof -
  define n where "n = length (gs_addresses gs)"
  define k where "k = n div 3"
  have "n = 3 * k \<or> n = 3 * k + 1 \<or> n = 3 * k + 2" unfolding k_def by linarith
  then have "n * 10 div 3 * 2 div 10 = 2 * n div 3"
  proof (elim disjE)
    assume n: "n = 3 * k + 1"
    have "n * 10 div 3 = 10 * k + 3" "2 * n div 3 = 2 * k" unfolding n by (rule div_nat_eqI; simp)+
    then show ?thesis by simp
  next
    assume n: "n = 3 * k + 2"
    have "n * 10 div 3 = 10 * k + 6" "2 * n div 3 = 2 * k + 1" unfolding n by (rule div_nat_eqI; simp)+
    then show ?thesis by simp
  qed simp
  then show ?thesis by (simp add: quorum_def n_def)
qed

lemma quorum_two_thirds: "2 * length (gs_addresses gs) < 3 * quorum gs"
  unfolding quorum_exact by presburger

lemma read_signatures_ok:
  assumes "om_ok sigs" and "read_signatures n ba sigs = Inr (sigs', ba')"
  shows "om_ok sigs'"
  using assms
  by (induction n ba sigs rule: read_signatures.induct) (auto simp: result_iff om_ok_insert split: prod.splits)

lemma and_then_pairE:
  assumes "and_then r (case_prod f) = Inr y"
  obtains a b where "r = Inr (a, b)" and "f a b = Inr y"
  using assms by (auto simp: and_then_Inr_iff)

lemma wormhole_vaa_signatures_ok:
  assumes "wormhole_vaa_new api bs = Inr vaa"
  shows "om_ok (wv_signatures vaa)"
proof -
  have "\<exists>n ba ba'. read_signatures n ba [] = Inr (wv_signatures vaa, ba')"
    using assms unfolding wormhole_vaa_new_def Let_def
    by (elim and_then_pairE) (simp only: sum.inject, hypsubst, simp only: wormhole_vaa.select_convs, blast)
  then show ?thesis using read_signatures_ok [of "[]"] by auto
qed

text \<open>A guardian of a set signed a hash when the recovered key has its address.\<close>

definition signed_by :: "crypto_api \<Rightarrow> u256 \<Rightarrow> guardian_signature \<Rightarrow> 160 word \<Rightarrow> bool" where
  "signed_by api hash sig guardian \<longleftrightarrow>
     (\<exists>point. secp256k1_pubkey_recover api hash (sig_signature sig) (sig_id_recover sig) = Inr point \<and> point \<noteq> [] \<and>
       from_be_bytes (drop 12 (keccak256 api (drop 1 point))) = guardian)"

lemma check_signature_Inr:
  "check_signature api hash gs (index, sig) = Inr u \<longleftrightarrow>
     unat index < length (gs_addresses gs) \<and> signed_by api hash sig (gs_addresses gs ! unat index)"
  by (auto simp: check_signature_def signed_by_def result_iff Let_def split: if_splits)

lemma try_fold_unit_Inr: "try_fold (\<lambda>_ e. f e) () xs = Inr u \<longleftrightarrow> (\<forall>e \<in> set xs. f e = Inr ())"
  by (induction xs) (auto simp: result_iff)

text \<open>The positions of the guardians that signed.\<close>

definition signers :: "crypto_api \<Rightarrow> u256 \<Rightarrow> guardian_set \<Rightarrow> (u8, guardian_signature) omap \<Rightarrow> nat set" where
  "signers api hash gs sigs = {i. i < length (gs_addresses gs) \<and>
     (\<exists>index sig. (index, sig) \<in> set sigs \<and> unat index = i \<and> signed_by api hash sig (gs_addresses gs ! i))}"

lemma wormhole_verify_Inr:
  assumes "wormhole_verify api now sets vaa = Inr u" and "om_ok (wv_signatures vaa)"
  shows "\<exists>gs. map_of sets (wv_guardian_set_index vaa) = Some gs \<and> wv_version vaa = 1 \<and>
    (\<forall>expiry. gs_expiration_time gs = Some expiry \<longrightarrow> now < expiry) \<and>
    2 * length (gs_addresses gs) < 3 * card (signers api (wv_hash vaa) gs (wv_signatures vaa))"
proof -
  let ?sigs = "wv_signatures vaa"
  from assms(1) obtain gs where gs: "map_of sets (wv_guardian_set_index vaa) = Some gs" "wv_version vaa = 1"
    and ex: "\<And>expiry. gs_expiration_time gs = Some expiry \<Longrightarrow> now < expiry"
    and q: "quorum gs \<le> length ?sigs"
    and f: "try_fold (\<lambda>_ e. check_signature api (wv_hash vaa) gs e) () ?sigs = Inr u"
    by (auto simp: wormhole_verify_def and_then_Inr_iff om_load_Inr ensure_Inr_iff split: option.splits)
  let ?S = "signers api (wv_hash vaa) gs ?sigs"
  have "(\<lambda>e. unat (fst e)) ` set ?sigs \<subseteq> ?S"
    using f unfolding try_fold_unit_Inr by (force simp: signers_def check_signature_Inr)
  moreover have "finite ?S" by (simp add: signers_def)
  ultimately have "card ((\<lambda>e. unat (fst e)) ` set ?sigs) \<le> card ?S" by (rule card_mono [rotated])
  moreover have "card ((\<lambda>e. unat (fst e)) ` set ?sigs) = length ?sigs"
  proof -
    have d: "distinct (map fst ?sigs)" by (rule om_ok_distinct [OF assms(2)])
    then have "inj_on fst (set ?sigs)" by (simp add: distinct_map)
    then have "inj_on (\<lambda>e. unat (fst e)) (set ?sigs)" unfolding inj_on_def by (metis word_unat_eq_iff)
    moreover have "card (set ?sigs) = length ?sigs" using d by (simp add: distinct_map distinct_card)
    ultimately show ?thesis by (simp add: card_image)
  qed
  ultimately have "2 * length (gs_addresses gs) < 3 * card ?S" using q quorum_two_thirds [of gs] by linarith
  with gs ex show ?thesis by blast
qed

end
