(* ===== verification/Hyperlane_Types.thy ===== *)
theory Hyperlane_Types
  imports Wormhole
begin

text \<open>
  The wire formats of Hyperlane, \<^verbatim>\<open>hyperlane/types/src\<close> and \<^verbatim>\<open>dango/types/src/warp/types.rs\<close>: mailbox
  messages, the metadata of the multisig security module, token messages, addresses padded to 32 bytes,
  and the strings that are hashed and signed. Hashes and 32-byte addresses are 256-bit words, written
  big endian. The lemmas: every format reads back what it wrote.
\<close>

subsection \<open>Big endian numbers\<close>

fun to_be_bytes :: "nat \<Rightarrow> 'a::len word \<Rightarrow> bytes" where
  "to_be_bytes 0 w = []"
| "to_be_bytes (Suc n) w = to_be_bytes n (drop_bit 8 w) @ [ucast w]"

definition be_nat :: "bytes \<Rightarrow> nat" where
  "be_nat bs = foldl (\<lambda>acc b. acc * 256 + unat b) 0 bs"

lemma length_to_be_bytes [simp]: "length (to_be_bytes n w) = n"
  by (induction n arbitrary: w) simp_all

lemma be_nat_simps [simp]: "be_nat [] = 0" "be_nat (bs @ [b]) = be_nat bs * 256 + unat b"
  by (simp_all add: be_nat_def)

lemma be_nat_less: "be_nat bs < 256 ^ length bs"
proof (induction bs rule: rev_induct)
  case (snoc b bs)
  have "unat b < 2 ^ LENGTH(8)" by (rule unsigned_less)
  then have "unat b < 256" by simp
  with snoc show ?case by simp
qed simp

lemma from_be_bytes_be_nat: "from_be_bytes bs = (of_nat (be_nat bs) :: 'a::len word)"
proof (induction bs rule: rev_induct)
  case (snoc b bs)
  have "(ucast b :: 'a word) = of_nat (unat b)" by (simp add: unsigned_of_nat)
  with snoc show ?case by (simp add: from_be_bytes_def)
qed (simp add: from_be_bytes_def)

lemma be_nat_to_be_bytes: "be_nat (to_be_bytes n w) = unat w mod 256 ^ n"
proof (induction n arbitrary: w)
  case (Suc n)
  have "unat (ucast w :: u8) = unat w mod 256" by (simp add: unsigned_ucast_eq take_bit_eq_mod)
  moreover have "unat (drop_bit 8 w) = unat w div 256" by (simp only: unat_drop_bit_eq) (simp add: drop_bit_eq_div)
  ultimately show ?case using Suc [of "drop_bit 8 w"] by (simp add: mod_mult2_eq mult.commute)
qed simp

lemma to_be_bytes_1 [simp]: "to_be_bytes (Suc 0) w = [ucast w]"
  by simp

declare to_be_bytes.simps [simp del]

lemma base_256_inj:
  fixes a b x y :: nat
  assumes "a < 256" "b < 256" "x * 256 + a = y * 256 + b"
  shows "x = y \<and> a = b"
proof -
  have "(x * 256 + a) div 256 = x" "(y * 256 + b) div 256 = y" using assms(1,2) by simp_all
  with assms(3) have "x = y" by metis
  with assms(3) show ?thesis by simp
qed

lemma be_nat_inj: "length as = length bs \<Longrightarrow> be_nat as = be_nat bs \<Longrightarrow> as = bs"
proof (induction as arbitrary: bs rule: rev_induct)
  case (snoc a as)
  then obtain b bs' where bs: "bs = bs' @ [b]" "length bs' = length as"
    by (metis append_butlast_last_id length_0_conv length_append_singleton nat.distinct(1) nat.inject)
  have "unat a < 2 ^ LENGTH(8)" "unat b < 2 ^ LENGTH(8)" by (rule unsigned_less)+
  then have "unat a < 256" "unat b < 256" by simp_all
  moreover have "be_nat as * 256 + unat a = be_nat bs' * 256 + unat b" using snoc.prems(2) by (simp add: bs)
  ultimately have "be_nat as = be_nat bs'" "unat a = unat b" using base_256_inj by blast+
  with snoc.IH [of bs'] show ?case by (simp add: bs word_unat_eq_iff)
qed simp

text \<open>Reading back what was written, and writing back what was read.\<close>

lemma from_to_be_bytes:
  fixes w :: "'a::len word"
  assumes "LENGTH('a) \<le> 8 * n"
  shows "from_be_bytes (to_be_bytes n w) = w"
proof -
  have "unat w < 2 ^ LENGTH('a)" by (rule unsigned_less)
  also have "(2::nat) ^ LENGTH('a) \<le> 2 ^ (8 * n)" using assms by (rule power_increasing) simp
  also have "(2::nat) ^ (8 * n) = 256 ^ n" by (simp add: power_mult)
  finally show ?thesis by (simp add: from_be_bytes_be_nat be_nat_to_be_bytes)
qed

lemma to_from_be_bytes:
  assumes "8 * length bs \<le> LENGTH('a)" "n = length bs"
  shows "to_be_bytes n (from_be_bytes bs :: 'a::len word) = bs"
proof (rule be_nat_inj)
  have "be_nat bs < 256 ^ n" using be_nat_less [of bs] assms(2) by simp
  also have "(256::nat) ^ n = 2 ^ (8 * n)" by (simp add: power_mult)
  also have "(2::nat) ^ (8 * n) \<le> 2 ^ LENGTH('a)" using assms by (intro power_increasing) simp_all
  finally have "unat (of_nat (be_nat bs) :: 'a word) = be_nat bs" by (simp add: unat_of_nat)
  then show "be_nat (to_be_bytes n (from_be_bytes bs :: 'a word)) = be_nat bs"
    using be_nat_less [of bs] assms(2) by (simp add: from_be_bytes_be_nat be_nat_to_be_bytes)
qed (use assms in simp)

subsection \<open>Messages of the mailbox (mailbox.rs)\<close>

definition mailbox_version :: u8 where
  "mailbox_version = 3"

type_synonym addr32 = u256

record hl_message =
  hm_version :: u8
  hm_nonce :: u32
  hm_origin :: u32
  hm_sender :: addr32
  hm_destination :: u32
  hm_recipient :: addr32
  hm_body :: bytes

definition hl_encode :: "hl_message \<Rightarrow> bytes" where
  "hl_encode m =
     to_be_bytes 1 (hm_version m) @ to_be_bytes 4 (hm_nonce m) @ to_be_bytes 4 (hm_origin m) @
     to_be_bytes 32 (hm_sender m) @ to_be_bytes 4 (hm_destination m) @ to_be_bytes 32 (hm_recipient m) @ hm_body m"

text \<open>The slice \<open>buf[i..j]\<close> of a buffer that is long enough.\<close>

definition slice_of :: "nat \<Rightarrow> nat \<Rightarrow> bytes \<Rightarrow> bytes" where
  "slice_of i j buf = take (j - i) (drop i buf)"

definition hl_decode :: "bytes \<Rightarrow> hl_message res" where
  "hl_decode buf =
     and_then (ensure (77 \<le> length buf) (Bail ''mailbox message should be at least 77 bytes'')) (\<lambda>_.
       Inr \<lparr>hm_version = buf ! 0, hm_nonce = from_be_bytes (slice_of 1 5 buf),
         hm_origin = from_be_bytes (slice_of 5 9 buf), hm_sender = from_be_bytes (slice_of 9 41 buf),
         hm_destination = from_be_bytes (slice_of 41 45 buf), hm_recipient = from_be_bytes (slice_of 45 77 buf),
         hm_body = drop 77 buf\<rparr>)"

subsection \<open>Metadata of the multisig module (isms/multisig.rs)\<close>

record validator_set =
  vs_threshold :: u32
  vs_validators :: "addr set"

record ism_metadata =
  im_origin_merkle_tree :: addr32
  im_merkle_root :: u256
  im_merkle_index :: u32
  im_signatures :: "bytes list"

text \<open>A \<^verbatim>\<open>BTreeSet\<close> of signatures is a sorted list without repetition.\<close>

definition btree_set :: "bytes list \<Rightarrow> bytes list" where
  "btree_set xs = sort (remdups xs)"

definition metadata_encode :: "ism_metadata \<Rightarrow> bytes" where
  "metadata_encode md =
     to_be_bytes 32 (im_origin_merkle_tree md) @ to_be_bytes 32 (im_merkle_root md) @
     to_be_bytes 4 (im_merkle_index md) @ concat (im_signatures md)"

text \<open>\<open>chunks_exact\<close> leaves out a rest that is shorter than a chunk.\<close>

function chunks_exact :: "nat \<Rightarrow> bytes \<Rightarrow> bytes list" where
  "chunks_exact n bs = (if n = 0 \<or> length bs < n then [] else take n bs # chunks_exact n (drop n bs))"
  by pat_completeness auto
termination by (relation "measure (\<lambda>(n, bs). length bs)") auto

declare chunks_exact.simps [simp del]

definition metadata_decode :: "bytes \<Rightarrow> ism_metadata res" where
  "metadata_decode buf =
     and_then (ensure (68 < length buf) (Bail ''multisig ISM metadata should be at least 68 bytes'')) (\<lambda>_.
       Inr \<lparr>im_origin_merkle_tree = from_be_bytes (slice_of 0 32 buf), im_merkle_root = from_be_bytes (slice_of 32 64 buf),
         im_merkle_index = from_be_bytes (slice_of 64 68 buf),
         im_signatures = btree_set (chunks_exact 65 (drop 68 buf))\<rparr>)"

subsection \<open>Addresses (address.rs) and token messages (warp/types.rs)\<close>

definition addr32_of_addr :: "addr \<Rightarrow> addr32" where
  "addr32_of_addr a = ucast a"

definition addr_of_addr32 :: "addr32 \<Rightarrow> addr res" where
  "addr_of_addr32 a =
     and_then (ensure (drop_bit 160 a = 0) (Bail ''invalid hyperlane address'')) (\<lambda>_. Inr (ucast a))"

record token_message =
  tm_recipient :: addr32
  tm_amount :: u128
  tm_metadata :: bytes

definition token_encode :: "token_message \<Rightarrow> bytes" where
  "token_encode m = to_be_bytes 32 (tm_recipient m) @ to_be_bytes 32 (into_next (tm_amount m)) @ tm_metadata m"

definition token_decode :: "bytes \<Rightarrow> token_message res" where
  "token_decode buf =
     and_then (ensure (64 \<le> length buf) (Bail ''token message should be at least 64 bytes'')) (\<lambda>_.
     and_then (checked_into_prev (from_be_bytes (slice_of 32 64 buf))) (\<lambda>amount.
       Inr \<lparr>tm_recipient = from_be_bytes (slice_of 0 32 buf), tm_amount = amount, tm_metadata = drop 64 buf\<rparr>))"

subsection \<open>What is hashed and signed (crypto.rs)\<close>

definition keccak_hash :: "crypto_api \<Rightarrow> bytes \<Rightarrow> u256" where
  "keccak_hash api bs = from_be_bytes (keccak256 api bs)"

text \<open>The bytes of a string: Isabelle's characters are the bytes of its UTF-8 form.\<close>

definition string_bytes :: "string \<Rightarrow> bytes" where
  "string_bytes s = map of_char s"

definition domain_hash :: "crypto_api \<Rightarrow> u32 \<Rightarrow> addr32 \<Rightarrow> string \<Rightarrow> u256" where
  "domain_hash api domain a key = keccak_hash api (to_be_bytes 4 domain @ to_be_bytes 32 a @ string_bytes key)"

definition multisig_hash :: "crypto_api \<Rightarrow> u256 \<Rightarrow> u256 \<Rightarrow> u32 \<Rightarrow> u256 \<Rightarrow> u256" where
  "multisig_hash api dhash merkle_root merkle_index message_id =
     keccak_hash api (to_be_bytes 32 dhash @ to_be_bytes 32 merkle_root @ to_be_bytes 4 merkle_index @
       to_be_bytes 32 message_id)"

definition announcement_hash :: "crypto_api \<Rightarrow> u256 \<Rightarrow> string \<Rightarrow> u256" where
  "announcement_hash api dhash storage_location =
     keccak_hash api (to_be_bytes 32 dhash @ string_bytes storage_location)"

definition eip191_hash :: "crypto_api \<Rightarrow> bytes \<Rightarrow> u256" where
  "eip191_hash api message =
     keccak_hash api ([0x19] @ string_bytes ''Ethereum Signed Message:'' @ [0x0a] @
       string_bytes (nat_to_string (length message)) @ message)"

subsection \<open>Round trips\<close>

lemma slice_of_append:
  "slice_of i j (xs @ ys @ zs) = ys" if "i = length xs" "j = length xs + length ys"
  using that by (simp add: slice_of_def)

lemma hl_decode_encode: "hl_decode (hl_encode m) = Inr m"
proof -
  let ?b0 = "to_be_bytes 1 (hm_version m)" and ?b1 = "to_be_bytes 4 (hm_nonce m)" and ?b2 = "to_be_bytes 4 (hm_origin m)"
    and ?b3 = "to_be_bytes 32 (hm_sender m)" and ?b4 = "to_be_bytes 4 (hm_destination m)"
    and ?b5 = "to_be_bytes 32 (hm_recipient m)"
  have s1: "slice_of (Suc 0) 5 (hl_encode m) = ?b1"
    unfolding hl_encode_def by (rule slice_of_append [where xs = ?b0]) simp_all
  have s2: "slice_of 5 9 (hl_encode m) = ?b2"
    using slice_of_append [of 5 "?b0 @ ?b1" 9 ?b2] by (simp add: hl_encode_def)
  have s3: "slice_of 9 41 (hl_encode m) = ?b3"
    using slice_of_append [of 9 "?b0 @ ?b1 @ ?b2" 41 ?b3] by (simp add: hl_encode_def)
  have s4: "slice_of 41 45 (hl_encode m) = ?b4"
    using slice_of_append [of 41 "?b0 @ ?b1 @ ?b2 @ ?b3" 45 ?b4] by (simp add: hl_encode_def)
  have s5: "slice_of 45 77 (hl_encode m) = ?b5"
    using slice_of_append [of 45 "?b0 @ ?b1 @ ?b2 @ ?b3 @ ?b4" 77 ?b5]
    by (simp add: hl_encode_def)
  have v: "hl_encode m ! 0 = hm_version m" by (simp add: hl_encode_def)
  have b: "drop 77 (hl_encode m) = hm_body m" by (simp add: hl_encode_def)
  have l: "77 \<le> length (hl_encode m)" by (simp add: hl_encode_def)
  show ?thesis by (simp add: hl_decode_def l v b s1 s2 s3 s4 s5 from_to_be_bytes)
qed

text \<open>Every long enough buffer is the writing of what it is read as.\<close>

lemma slice_of_split: "i \<le> j \<Longrightarrow> drop i buf = slice_of i j buf @ drop j buf"
  by (simp add: slice_of_def) (metis append_take_drop_id drop_drop le_add_diff_inverse2)

lemma length_slice_of: "j \<le> length buf \<Longrightarrow> length (slice_of i j buf) = j - i"
  by (simp add: slice_of_def)

lemma hl_encode_decode:
  assumes "hl_decode buf = Inr m"
  shows "hl_encode m = buf"
proof -
  from assms have l: "77 \<le> length buf" by (auto simp: hl_decode_def and_then_Inr_iff ensure_Inr_iff)
  have m: "m = \<lparr>hm_version = buf ! 0, hm_nonce = from_be_bytes (slice_of 1 5 buf),
         hm_origin = from_be_bytes (slice_of 5 9 buf), hm_sender = from_be_bytes (slice_of 9 41 buf),
         hm_destination = from_be_bytes (slice_of 41 45 buf), hm_recipient = from_be_bytes (slice_of 45 77 buf),
         hm_body = drop 77 buf\<rparr>"
    using assms l by (simp add: hl_decode_def)
  have v: "to_be_bytes (Suc 0) (buf ! 0) = [buf ! 0]" by simp
  have "buf = [buf ! 0] @ drop 1 buf" using l by (cases buf) simp_all
  also have "drop 1 buf = slice_of 1 5 buf @ slice_of 5 9 buf @ slice_of 9 41 buf @ slice_of 41 45 buf @
      slice_of 45 77 buf @ drop 77 buf"
    using slice_of_split [of 1 5 buf] slice_of_split [of 5 9 buf] slice_of_split [of 9 41 buf]
      slice_of_split [of 41 45 buf] slice_of_split [of 45 77 buf] by simp
  finally show ?thesis
    using l by (simp add: m hl_encode_def v to_from_be_bytes length_slice_of)
qed

lemma token_decode_encode: "token_decode (token_encode m) = Inr m"
proof -
  let ?b0 = "to_be_bytes 32 (tm_recipient m)" and ?b1 = "to_be_bytes 32 (into_next (tm_amount m))"
  have s0: "slice_of 0 32 (token_encode m) = ?b0"
    using slice_of_append [of 0 "[]" 32 ?b0] by (simp add: token_encode_def)
  have s1: "slice_of 32 64 (token_encode m) = ?b1"
    unfolding token_encode_def by (rule slice_of_append) simp_all
  have "checked_into_prev (into_next (tm_amount m)) = Inr (tm_amount m)"
    by (simp add: checked_into_prev_Inr)
  moreover have "64 \<le> length (token_encode m)" "drop 64 (token_encode m) = tm_metadata m"
    by (simp_all add: token_encode_def)
  ultimately show ?thesis by (simp add: token_decode_def s0 s1 from_to_be_bytes)
qed

lemma addr32_round_trip: "addr_of_addr32 (addr32_of_addr a) = Inr a"
proof -
  have "unat a < 2 ^ LENGTH(160)" by (rule unsigned_less)
  then have "unat (ucast a :: u256) = unat a" by (simp add: unsigned_ucast_eq take_bit_nat_eq_self)
  moreover have "unat (drop_bit 160 (ucast a :: u256)) = unat (ucast a :: u256) div 2 ^ 160"
    by (simp only: unat_drop_bit_eq) (rule drop_bit_eq_div)
  ultimately have "unat (drop_bit 160 (ucast a :: u256)) = 0"
    using \<open>unat a < 2 ^ LENGTH(160)\<close> by simp
  then have "drop_bit 160 (ucast a :: u256) = 0" by (simp add: unat_0_iff)
  moreover have "ucast (ucast a :: u256) = a"
    unfolding word_unat_eq_iff unsigned_ucast_eq [of "ucast a :: u256"] \<open>unat (ucast a :: u256) = unat a\<close>
    using \<open>unat a < 2 ^ LENGTH(160)\<close> by (rule take_bit_nat_eq_self)
  ultimately show ?thesis by (simp add: addr_of_addr32_def addr32_of_addr_def)
qed

lemma btree_set_id: "sorted xs \<Longrightarrow> distinct xs \<Longrightarrow> btree_set xs = xs"
  by (simp add: btree_set_def distinct_remdups_id sorted_sort_id)

lemma set_btree_set [simp]: "set (btree_set xs) = set xs"
  by (simp add: btree_set_def)

lemma distinct_btree_set [simp]: "distinct (btree_set xs)"
  by (simp add: btree_set_def)

lemma chunks_exact_concat:
  assumes "0 < n" "\<forall>x \<in> set xs. length x = n" "length r < n"
  shows "chunks_exact n (concat xs @ r) = xs"
  using assms by (induction xs) (simp_all add: chunks_exact.simps)

lemma chunks_exact_lengths: "x \<in> set (chunks_exact n bs) \<Longrightarrow> length x = n"
  by (induction n bs rule: chunks_exact.induct) (subst (asm) chunks_exact.simps, auto split: if_splits)

lemma metadata_decode_encode:
  assumes "sorted (im_signatures md)" "distinct (im_signatures md)" "im_signatures md \<noteq> []"
    and "\<forall>s \<in> set (im_signatures md). length s = 65" "length r < 65"
  shows "metadata_decode (metadata_encode md @ r) = Inr md"
proof -
  let ?b0 = "to_be_bytes 32 (im_origin_merkle_tree md)" and ?b1 = "to_be_bytes 32 (im_merkle_root md)"
    and ?b2 = "to_be_bytes 4 (im_merkle_index md)" and ?buf = "metadata_encode md @ r"
  have s0: "slice_of 0 32 ?buf = ?b0"
    using slice_of_append [of 0 "[]" 32 ?b0] by (simp add: metadata_encode_def)
  have s1: "slice_of 32 64 ?buf = ?b1"
    using slice_of_append [of 32 ?b0 64 ?b1] by (simp add: metadata_encode_def)
  have s2: "slice_of 64 68 ?buf = ?b2"
    using slice_of_append [of 64 "?b0 @ ?b1" 68 ?b2] by (simp add: metadata_encode_def)
  have d: "drop 68 ?buf = concat (im_signatures md) @ r" by (simp add: metadata_encode_def)
  have "chunks_exact 65 (concat (im_signatures md) @ r) = im_signatures md"
    using assms by (intro chunks_exact_concat) simp_all
  moreover have "68 < length ?buf"
    using assms(3,4) by (cases "im_signatures md") (simp_all add: metadata_encode_def)
  ultimately show ?thesis
    using assms(1,2)
    by (simp add: metadata_decode_def s0 s1 s2 d from_to_be_bytes btree_set_id del: drop_append
        length_append)
qed

end
