(* ===== verification/Incremental_Tree.thy ===== *)
theory Incremental_Tree
  imports Hyperlane_Types
begin

text \<open>
  The incremental Merkle tree of Hyperlane, \<^verbatim>\<open>hyperlane/types/src/incremental\_merkle\_tree.rs\<close>: a tree
  of depth 32 whose leaves are filled from the left, of which only one node per level is kept. The
  reference is the root of the whole tree over the list of leaves, the missing ones zero (\<open>tree_root\<close>).
\<close>

definition tree_depth :: nat where
  "tree_depth = 32"

definition max_leaves :: u128 where
  "max_leaves = push_bit tree_depth 1 - 1"

definition zero_hashes :: "u256 list" where
  "zero_hashes =
  [0,
   0xad3228b676f7d3cd4284a5443f17f1962b36e491b30a40b2405849e597ba5fb5,
   0xb4c11951957c6f8f642c4af61cd6b24640fec6dc7fc607ee8206a99e92410d30,
   0x21ddb9a356815c3fac1026b6dec5df3124afbadb485c9ba5a3e3398a04b7ba85,
   0xe58769b32a1beaf1ea27375a44095a0d1fb664ce2dd358e7fcbfb78c26a19344,
   0x0eb01ebfc9ed27500cd4dfc979272d1f0913cc9f66540d7e8005811109e1cf2d,
   0x887c22bd8750d34016ac3c66b5ff102dacdd73f6b014e710b51e8022af9a1968,
   0xffd70157e48063fc33c97a050f7f640233bf646cc98d9524c6b92bcf3ab56f83,
   0x9867cc5f7f196b93bae1e27e6320742445d290f2263827498b54fec539f756af,
   0xcefad4e508c098b9a7e1d8feb19955fb02ba9675585078710969d3440f5054e0,
   0xf9dc3e7fe016e050eff260334f18a5d4fe391d82092319f5964f2e2eb7c1c3a5,
   0xf8b13a49e282f609c317a833fb8d976d11517c571d1221a265d25af778ecf892,
   0x3490c6ceeb450aecdc82e28293031d10c7d73bf85e57bf041a97360aa2c5d99c,
   0xc1df82d9c4b87413eae2ef048f94b4d3554cea73d92b0f7af96e0271c691e2bb,
   0x5c67add7c6caf302256adedf7ab114da0acfe870d449a3a489f781d659e8becc,
   0xda7bce9f4e8618b6bd2f4132ce798cdc7a60e7e1460a7299e3c6342a579626d2,
   0x2733e50f526ec2fa19a22b31e8ed50f23cd1fdf94c9154ed3a7609a2f1ff981f,
   0xe1d3b5c807b281e4683cc6d6315cf95b9ade8641defcb32372f1c126e398ef7a,
   0x5a2dce0a8a7f68bb74560f8f71837c2c2ebbcbf7fffb42ae1896f13f7c7479a0,
   0xb46a28b6f55540f89444f63de0378e3d121be09e06cc9ded1c20e65876d36aa0,
   0xc65e9645644786b620e2dd2ad648ddfcbf4a7e5b1a3a4ecfe7f64667a3f0b7e2,
   0xf4418588ed35a2458cffeb39b93d26f18d2ab13bdce6aee58e7b99359ec2dfd9,
   0x5a9c16dc00d6ef18b7933a6f8dc65ccb55667138776f7dea101070dc8796e377,
   0x4df84f40ae0c8229d0d6069e5c8f39a7c299677a09d367fc7b05e3bc380ee652,
   0xcdc72595f74c7b1043d0e1ffbab734648c838dfb0527d971b602bc216c9619ef,
   0x0abf5ac974a1ed57f4050aa510dd9c74f508277b39d7973bb2dfccc5eeb0618d,
   0xb8cd74046ff337f0a7bf2c8e03e10f642c1886798d71806ab1e888d9e5ee87d0,
   0x838c5655cb21c6cb83313b5a631175dff4963772cce9108188b34ac87c81c41e,
   0x662ee4dd2dd7b2bc707961b1e646c4047669dcb6584f0d8d770daf5d7e7deb2e,
   0x388ab20e2573d171a88108e79d820e98f26c0b84aa8b2f4aa4968dbb818ea322,
   0x93237c50ba75ee485f4c22adf2f741400bdf8d6a9cc7df7ecae576221665d735,
   0x8448818bb4ae4562849e949e17ac16e0be16688e156b5cf15e098c627c0056a9]"

record merkle_tree =
  mt_branch :: "u256 list"
  mt_count :: u128

definition merkle_tree_default :: merkle_tree where
  "merkle_tree_default = \<lparr>mt_branch = zero_hashes, mt_count = 0\<rparr>"

definition keccak256_two :: "crypto_api \<Rightarrow> u256 \<Rightarrow> u256 \<Rightarrow> u256" where
  "keccak256_two api a b = keccak_hash api (to_be_bytes 32 a @ to_be_bytes 32 b)"

text \<open>The loop over the branch; running past its end is \<^verbatim>\<open>unreachable!\<close>.\<close>

fun insert_loop :: "crypto_api \<Rightarrow> u256 \<Rightarrow> u128 \<Rightarrow> u256 list \<Rightarrow> u256 list res" where
  "insert_loop api node n [] = Inl Panic"
| "insert_loop api node n (next # branch) =
     (if odd n then Inr (node # branch)
      else and_then (insert_loop api (keccak256_two api next node) (n div 2) branch) (\<lambda>branch. Inr (next # branch)))"

definition tree_insert :: "crypto_api \<Rightarrow> merkle_tree \<Rightarrow> u256 \<Rightarrow> merkle_tree res" where
  "tree_insert api t node =
     and_then (ensure (mt_count t < max_leaves) (Bail ''tree is full'')) (\<lambda>_.
     (let count = mt_count t + 1 in
      and_then (insert_loop api node count (mt_branch t)) (\<lambda>branch.
        Inr (t\<lparr>mt_branch := branch, mt_count := count\<rparr>))))"

definition merkle_tree_root :: "crypto_api \<Rightarrow> merkle_tree \<Rightarrow> u256" where
  "merkle_tree_root api t =
     fold (\<lambda>(i, zero) current.
       if bit (mt_count t) i then keccak256_two api (mt_branch t ! i) current
       else keccak256_two api current zero)
       (enumerate 0 zero_hashes) 0"

subsection \<open>The reference\<close>

fun tree_root :: "('h \<Rightarrow> 'h \<Rightarrow> 'h) \<Rightarrow> 'h \<Rightarrow> nat \<Rightarrow> 'h list \<Rightarrow> 'h" where
  "tree_root h z 0 xs = (case xs of [] \<Rightarrow> z | x # _ \<Rightarrow> x)"
| "tree_root h z (Suc d) xs = h (tree_root h z d (take (2 ^ d) xs)) (tree_root h z d (drop (2 ^ d) xs))"

text \<open>The block of \<open>2 ^ i\<close> leaves with number \<open>q\<close>.\<close>

definition leaf_block :: "nat \<Rightarrow> nat \<Rightarrow> 'a list \<Rightarrow> 'a list" where
  "leaf_block i q xs = take (2 ^ i) (drop (2 ^ i * q) xs)"

lemma tree_root_block:
  "tree_root h z (Suc i) (leaf_block (Suc i) q xs) =
     h (tree_root h z i (leaf_block i (2 * q) xs)) (tree_root h z i (leaf_block i (2 * q + 1) xs))"
proof -
  have "drop (2 ^ i) (leaf_block (Suc i) q xs) = leaf_block i (2 * q + 1) xs"
    by (simp add: leaf_block_def drop_take algebra_simps)
  moreover have "take (2 ^ i) (leaf_block (Suc i) q xs) = leaf_block i (2 * q) xs"
    by (simp add: leaf_block_def algebra_simps)
  ultimately show ?thesis by simp
qed

lemma leaf_block_beyond: "length xs \<le> 2 ^ i * q \<Longrightarrow> leaf_block i q xs = []"
  by (simp add: leaf_block_def)

lemma leaf_block_snoc: "2 ^ i * Suc q \<le> length xs \<Longrightarrow> leaf_block i q (xs @ [x]) = leaf_block i q xs"
  by (simp add: leaf_block_def algebra_simps)

text \<open>The branch keeps, for every set bit of the number of leaves, the root of the last full block of
  that size that is a left child.\<close>

definition branch_ok :: "('h \<Rightarrow> 'h \<Rightarrow> 'h) \<Rightarrow> 'h \<Rightarrow> 'h list \<Rightarrow> 'h list \<Rightarrow> bool" where
  "branch_ok h z branch xs \<longleftrightarrow>
     (\<forall>i < length branch. odd (length xs div 2 ^ i) \<longrightarrow>
        branch ! i = tree_root h z i (leaf_block i (length xs div 2 ^ i - 1) xs))"

text \<open>The roots of the empty trees.\<close>

definition zeros_ok :: "('h \<Rightarrow> 'h \<Rightarrow> 'h) \<Rightarrow> 'h \<Rightarrow> 'h list \<Rightarrow> bool" where
  "zeros_ok h z zs \<longleftrightarrow> (\<forall>i < length zs. zs ! i = tree_root h z i [])"

subsection \<open>The root\<close>

lemma root_fold:
  assumes "branch_ok h z branch xs" "zeros_ok h z zs" "n \<le> length zs" "length branch = length zs"
  shows "fold (\<lambda>(i, zero) current. if odd (length xs div 2 ^ i) then h (branch ! i) current else h current zero)
      (enumerate 0 (take n zs)) z = tree_root h z n (leaf_block n (length xs div 2 ^ n) xs)" (is "?fold n = _")
  using assms(3)
proof (induction n)
  case 0
  then show ?case by (simp add: leaf_block_def)
next
  case (Suc n)
  let ?q = "length xs div 2 ^ n"
  have e: "enumerate 0 (take (Suc n) zs) = enumerate 0 (take n zs) @ [(n, zs ! n)]"
    using Suc.prems by (simp add: take_Suc_conv_app_nth enumerate_append_eq)
  have q2: "length xs div 2 ^ Suc n = ?q div 2" by (simp only: power_Suc2 div_mult2_eq)
  show ?case
  proof (cases "odd ?q")
    case True
    then have q: "?q = 2 * (?q div 2) + 1" by (rule odd_two_times_div_two_succ [symmetric])
    have "branch ! n = tree_root h z n (leaf_block n (2 * (?q div 2)) xs)"
      using assms(1,4) Suc.prems True q by (simp add: branch_ok_def)
    moreover have "?fold (Suc n) = h (branch ! n) (?fold n)" using True by (simp add: e)
    moreover have "?fold n = tree_root h z n (leaf_block n (2 * (?q div 2) + 1) xs)" using Suc q by simp
    ultimately show ?thesis by (simp only: q2 tree_root_block)
  next
    case False
    then have q: "?q = 2 * (?q div 2)" by (metis even_two_times_div_two)
    have "length xs < 2 ^ n * (?q + 1)"
      by (metis add.commute dividend_less_times_div mult.commute mult_Suc Suc_eq_plus1 pos2 zero_less_power)
    then have "leaf_block n (2 * (?q div 2) + 1) xs = []" using q by (intro leaf_block_beyond) simp
    then have "zs ! n = tree_root h z n (leaf_block n (2 * (?q div 2) + 1) xs)"
      using assms(2) Suc.prems by (simp add: zeros_ok_def)
    moreover have "?fold (Suc n) = h (?fold n) (zs ! n)" using False by (simp add: e)
    moreover have "?fold n = tree_root h z n (leaf_block n (2 * (?q div 2)) xs)" using Suc q by simp
    ultimately show ?thesis by (simp only: q2 tree_root_block)
  qed
qed

subsection \<open>Insertion\<close>

lemma div_pred_eq:
  fixes m k :: nat
  assumes "0 < k" "\<not> k dvd Suc m"
  shows "Suc m div k = m div k"
  using assms by (simp add: div_Suc dvd_eq_mod_eq_0)

lemma div_pred_dvd:
  fixes m k :: nat
  assumes "0 < k" "k dvd Suc m"
  shows "m div k = Suc m div k - 1"
  using assms by (simp add: div_Suc dvd_eq_mod_eq_0)

lemma odd_unat: "odd (n :: u128) \<longleftrightarrow> odd (unat n)"
  by (simp add: even_iff_mod_2_eq_zero word_unat_eq_iff unat_mod)

lemma insert_loop_ok:
  fixes xs :: "u256 list" and x :: u256 and api :: crypto_api
  defines "h \<equiv> keccak256_two api" and "xs' \<equiv> xs @ [x]"
  assumes "\<forall>j < length branch. odd (length xs div 2 ^ (i + j)) \<longrightarrow>
      branch ! j = tree_root h 0 (i + j) (leaf_block (i + j) (length xs div 2 ^ (i + j) - 1) xs)"
    and "2 ^ i dvd length xs'" "unat n = length xs' div 2 ^ i" "length xs' < 2 ^ (i + length branch)"
    and "node = tree_root h 0 i (leaf_block i (length xs' div 2 ^ i - 1) xs')"
  shows "\<exists>branch'. insert_loop api node n branch = Inr branch' \<and> length branch' = length branch \<and>
    (\<forall>j < length branch. odd (length xs' div 2 ^ (i + j)) \<longrightarrow>
      branch' ! j = tree_root h 0 (i + j) (leaf_block (i + j) (length xs' div 2 ^ (i + j) - 1) xs'))"
  using assms(3-)
proof (induction branch arbitrary: i n node)
  case Nil
  then show ?case by (auto simp: xs'_def dest: dvd_imp_le)
next
  case (Cons nx branch)
  let ?m = "length xs'"
  have m: "?m = Suc (length xs)" by (simp add: xs'_def)
  have odd_n: "odd n \<longleftrightarrow> odd (?m div 2 ^ i)"
    using Cons.prems(3) by (simp add: odd_unat)
  have old: "leaf_block k (length xs div 2 ^ k - 1) xs' = leaf_block k (length xs div 2 ^ k - 1) xs"
    if "odd (length xs div 2 ^ k)" for k
  proof -
    have "Suc (length xs div 2 ^ k - 1) = length xs div 2 ^ k" using that by (simp add: odd_pos)
    then have "2 ^ k * Suc (length xs div 2 ^ k - 1) \<le> length xs" by (simp add: mult.commute)
    then show ?thesis unfolding xs'_def by (rule leaf_block_snoc)
  qed
  show ?case
  proof (cases "odd n")
    case True
    have "(node # branch) ! j = tree_root h 0 (i + j) (leaf_block (i + j) (?m div 2 ^ (i + j) - 1) xs')"
      if j: "j < length (nx # branch)" and o: "odd (?m div 2 ^ (i + j))" for j
    proof (cases j)
      case 0
      then show ?thesis using Cons.prems(5) by simp
    next
      case (Suc l)
      have "\<not> 2 ^ (i + j) dvd ?m"
      proof
        assume "2 ^ (i + j) dvd ?m"
        moreover have "(2::nat) ^ i * 2 dvd 2 ^ (i + j)" unfolding Suc by (simp add: power_add)
        ultimately have "2 ^ i * 2 dvd ?m" by (rule dvd_trans [rotated])
        then have "even (?m div 2 ^ i)" using Cons.prems(2) by (simp add: dvd_div_iff_mult mult.commute)
        with True odd_n show False by simp
      qed
      then have eq: "?m div 2 ^ (i + j) = length xs div 2 ^ (i + j)" unfolding m by (intro div_pred_eq) simp_all
      have "(nx # branch) ! j = tree_root h 0 (i + j) (leaf_block (i + j) (length xs div 2 ^ (i + j) - 1) xs)"
        using Cons.prems(1) j o eq by simp
      with Suc old [of "i + j"] o eq show ?thesis by simp
    qed
    with True show ?thesis by simp
  next
    case False
    then have ev: "even (?m div 2 ^ i)" using odd_n by simp
    have pos: "0 < ?m div 2 ^ i" using Cons.prems(2) m by (simp add: div_greater_zero_iff dvd_imp_le)
    have dv: "2 ^ Suc i dvd ?m" using ev Cons.prems(2) by (simp add: dvd_div_iff_mult mult.commute)
    have pred: "length xs div 2 ^ i = ?m div 2 ^ i - 1"
      using Cons.prems(2) unfolding m by (intro div_pred_dvd) simp_all
    have odd_xs: "odd (length xs div 2 ^ i)" using ev pos unfolding pred by simp
    have half: "?m div 2 ^ Suc i = ?m div 2 ^ i div 2" by (simp only: power_Suc2 div_mult2_eq)
    let ?q = "?m div 2 ^ Suc i - 1"
    have q: "2 * ?q = ?m div 2 ^ i - 2" "2 * ?q + 1 = ?m div 2 ^ i - 1"
      using ev pos unfolding half by (auto elim!: evenE)
    have "nx = tree_root h 0 i (leaf_block i (length xs div 2 ^ i - 1) xs')"
      using Cons.prems(1) odd_xs old [OF odd_xs] by (metis add_0_right length_Cons nth_Cons_0 zero_less_Suc)
    moreover have "length xs div 2 ^ i - 1 = 2 * ?q" using q(1) pred by linarith
    ultimately have nx: "nx = tree_root h 0 i (leaf_block i (2 * ?q) xs')" by metis
    have node: "node = tree_root h 0 i (leaf_block i (2 * ?q + 1) xs')" using Cons.prems(5) q(2) by simp
    have up: "keccak256_two api nx node = tree_root h 0 (Suc i) (leaf_block (Suc i) ?q xs')"
      unfolding tree_root_block nx node h_def ..
    have "unat (n div 2) = ?m div 2 ^ Suc i" by (simp only: half unat_div) (simp add: Cons.prems(3))
    moreover have "\<forall>j < length branch. odd (length xs div 2 ^ (Suc i + j)) \<longrightarrow>
      branch ! j = tree_root h 0 (Suc i + j) (leaf_block (Suc i + j) (length xs div 2 ^ (Suc i + j) - 1) xs)"
      using Cons.prems(1) by (metis Suc_less_eq add_Suc_shift length_Cons nth_Cons_Suc)
    moreover have "?m < 2 ^ (Suc i + length branch)" using Cons.prems(4) by simp
    ultimately obtain branch' where b: "insert_loop api (keccak256_two api nx node) (n div 2) branch = Inr branch'"
      "length branch' = length branch" and all: "\<forall>j < length branch. odd (?m div 2 ^ (Suc i + j)) \<longrightarrow>
      branch' ! j = tree_root h 0 (Suc i + j) (leaf_block (Suc i + j) (?m div 2 ^ (Suc i + j) - 1) xs')"
      using Cons.IH [OF _ dv _ _ up] by blast
    have "(nx # branch') ! j = tree_root h 0 (i + j) (leaf_block (i + j) (?m div 2 ^ (i + j) - 1) xs')"
      if "j < length (nx # branch)" "odd (?m div 2 ^ (i + j))" for j
      using that ev all by (cases j) simp_all
    with False b show ?thesis by simp
  qed
qed

text \<open>A tree stands for a list of leaves.\<close>

definition tree_ok :: "crypto_api \<Rightarrow> merkle_tree \<Rightarrow> u256 list \<Rightarrow> bool" where
  "tree_ok api t xs \<longleftrightarrow> length (mt_branch t) = 32 \<and> branch_ok (keccak256_two api) 0 (mt_branch t) xs \<and>
     unat (mt_count t) = length xs \<and> length xs < 2 ^ 32"

lemma length_zero_hashes: "length zero_hashes = 32"
  by (simp add: zero_hashes_def)

lemma unat_max_leaves: "unat max_leaves = 2 ^ 32 - 1"
  by (simp add: max_leaves_def tree_depth_def push_bit_eq_mult)

lemma tree_ok_default: "tree_ok api merkle_tree_default []"
  by (simp add: tree_ok_def merkle_tree_default_def length_zero_hashes branch_ok_def)

lemma tree_insert_ok:
  assumes "tree_ok api t xs" "length xs < 2 ^ 32 - 1"
  shows "\<exists>t'. tree_insert api t x = Inr t' \<and> tree_ok api t' (xs @ [x])"
proof -
  let ?h = "keccak256_two api"
  have t: "length (mt_branch t) = 32" "branch_ok ?h 0 (mt_branch t) xs" "unat (mt_count t) = length xs"
    using assms(1) by (simp_all add: tree_ok_def)
  have less: "mt_count t < max_leaves" using t(3) assms(2) by (simp add: word_less_nat_alt unat_max_leaves)
  have "unat (mt_count t + 1) = Suc (unat (mt_count t))"
    using t(3) assms(2) by (simp add: unat_word_ariths)
  then have n: "unat (mt_count t + 1) = length (xs @ [x]) div 2 ^ 0" using t(3) by simp
  have node: "x = tree_root ?h 0 0 (leaf_block 0 (length (xs @ [x]) div 2 ^ 0 - 1) (xs @ [x]))"
    by (simp add: leaf_block_def)
  have old: "\<forall>j < length (mt_branch t). odd (length xs div 2 ^ (0 + j)) \<longrightarrow>
      mt_branch t ! j = tree_root ?h 0 (0 + j) (leaf_block (0 + j) (length xs div 2 ^ (0 + j) - 1) xs)"
    using t(2) by (simp add: branch_ok_def)
  have lim: "length (xs @ [x]) < 2 ^ (0 + length (mt_branch t))" using assms(2) t(1) by simp
  obtain branch' where b: "insert_loop api x (mt_count t + 1) (mt_branch t) = Inr branch'"
    "length branch' = length (mt_branch t)" and all: "\<forall>j < length (mt_branch t). odd (length (xs @ [x]) div 2 ^ (0 + j)) \<longrightarrow>
      branch' ! j = tree_root ?h 0 (0 + j) (leaf_block (0 + j) (length (xs @ [x]) div 2 ^ (0 + j) - 1) (xs @ [x]))"
    using insert_loop_ok [OF old _ n lim node] by auto
  have "branch_ok ?h 0 branch' (xs @ [x])" using all b(2) by (simp add: branch_ok_def)
  then have "tree_ok api (t\<lparr>mt_branch := branch', mt_count := mt_count t + 1\<rparr>) (xs @ [x])"
    using b(2) t(1) n assms(2) by (simp add: tree_ok_def)
  moreover have "tree_insert api t x = Inr (t\<lparr>mt_branch := branch', mt_count := mt_count t + 1\<rparr>)"
    using less b(1) by (simp add: tree_insert_def)
  ultimately show ?thesis by blast
qed

lemma tree_insert_full: "tree_ok api t xs \<Longrightarrow> length xs = 2 ^ 32 - 1 \<Longrightarrow> tree_insert api t x = Inl (Bail ''tree is full'')"
  by (simp add: tree_insert_def tree_ok_def word_less_nat_alt unat_max_leaves)

lemma tree_inserts_ok:
  assumes "tree_ok api t xs" "length (xs @ ys) < 2 ^ 32"
  shows "\<exists>t'. try_fold (tree_insert api) t ys = Inr t' \<and> tree_ok api t' (xs @ ys)"
  using assms
proof (induction ys arbitrary: t xs)
  case (Cons y ys)
  have "length xs < 2 ^ 32 - 1" using Cons.prems(2) by simp
  from tree_insert_ok [OF Cons.prems(1) this] obtain t1 where t1: "tree_insert api t y = Inr t1" "tree_ok api t1 (xs @ [y])"
    by blast
  moreover have "length ((xs @ [y]) @ ys) < 2 ^ 32" using Cons.prems(2) by simp
  ultimately show ?case using Cons.IH [of t1 "xs @ [y]"] by simp
qed simp

lemma tree_ok_root:
  assumes "tree_ok api t xs" "zeros_ok (keccak256_two api) 0 zero_hashes"
  shows "merkle_tree_root api t = tree_root (keccak256_two api) 0 tree_depth xs"
proof -
  let ?h = "keccak256_two api"
  have t: "length (mt_branch t) = 32" "branch_ok ?h 0 (mt_branch t) xs" "unat (mt_count t) = length xs" "length xs < 2 ^ 32"
    using assms(1) by (simp_all add: tree_ok_def)
  have bit: "bit (mt_count t) i \<longleftrightarrow> odd (length xs div 2 ^ i)" for i
  proof -
    have "bit (unat (mt_count t)) i \<longleftrightarrow> bit (mt_count t) i" by (simp add: bit_unsigned_iff)
    then show ?thesis using bit_iff_odd [of "unat (mt_count t)" i] t(3) by metis
  qed
  have "merkle_tree_root api t = fold (\<lambda>(i, zero) current. if odd (length xs div 2 ^ i)
      then ?h (mt_branch t ! i) current else ?h current zero) (enumerate 0 (take 32 zero_hashes)) 0"
    by (simp add: merkle_tree_root_def bit length_zero_hashes)
  also have "\<dots> = tree_root ?h 0 32 (leaf_block 32 (length xs div 2 ^ 32) xs)"
    using t assms(2) by (intro root_fold) (simp_all add: length_zero_hashes)
  also have "leaf_block 32 (length xs div 2 ^ 32) xs = xs" using t(4) by (simp add: leaf_block_def)
  finally show ?thesis by (simp add: tree_depth_def)
qed

lemma tree_of_leaves:
  assumes "zeros_ok (keccak256_two api) 0 zero_hashes"
  shows "case try_fold (tree_insert api) merkle_tree_default xs of
      Inr t \<Rightarrow> length xs < 2 ^ 32 \<and> tree_ok api t xs \<and>
        merkle_tree_root api t = tree_root (keccak256_two api) 0 tree_depth xs
    | Inl e \<Rightarrow> 2 ^ 32 \<le> length xs \<and> e = Bail ''tree is full''"
proof (cases "length xs < 2 ^ 32")
  case True
  then show ?thesis using tree_inserts_ok [OF tree_ok_default, of xs api] tree_ok_root [OF _ assms] by auto
next
  case False
  let ?ys = "take (2 ^ 32 - 1) xs"
  obtain y zs where xs: "xs = ?ys @ y # zs"
    using False by (metis Cons_nth_drop_Suc append_take_drop_id diff_less less_le_trans not_less zero_less_numeral zero_less_power zero_less_one)
  obtain t where "try_fold (tree_insert api) merkle_tree_default ?ys = Inr t" "tree_ok api t ?ys"
    using tree_inserts_ok [OF tree_ok_default, of ?ys api] False by auto
  moreover have "length ?ys = 2 ^ 32 - 1" using False by simp
  ultimately have "try_fold (tree_insert api) merkle_tree_default (?ys @ y # zs) = Inl (Bail ''tree is full'')"
    using tree_insert_full [of api t ?ys y] by (simp add: try_fold_append)
  with xs have "try_fold (tree_insert api) merkle_tree_default xs = Inl (Bail ''tree is full'')" by metis
  with False show ?thesis by simp
qed

end
