(* ===== verification/Bank.thy ===== *)
theory Bank
  imports Context
begin

text \<open>
  The bank contract, \<^verbatim>\<open>dango/bank/src/execute.rs\<close> and \<^verbatim>\<open>query.rs\<close>: balances, supplies, namespace
  owners and orphaned transfers (transfers to an account that does not exist yet, held by the bank
  itself). Every message is a function from the state to an error or the new state with its events.
  The chain owner, the taxman and the existence of a contract are answers of the querier
  (\<open>bank_env\<close>). The lemmas: the supply of every denom is the sum of its balances, orphaned
  transfers are backed by the bank's own balance, and what each message does to every balance.
\<close>

record metadata =
  md_name :: string
  md_symbol :: string
  md_description :: "string option"
  md_decimals :: u8

record bank_state =
  b_namespace_owners :: "(part, addr) omap"
  b_metadatas :: "(denom, metadata) omap"
  b_supplies :: "(denom, u128) omap"
  b_balances :: "(addr \<times> denom, u128) omap"
  b_orphaned :: "(addr \<times> addr, coins) omap"

record bank_env =
  be_owner :: "addr res"
  be_taxman :: "addr res"
  be_exists :: "addr \<Rightarrow> bool"

record bank_init =
  bi_balances :: "(addr, coins) omap"
  bi_namespaces :: "(part, addr) omap"
  bi_metadatas :: "(denom, metadata) omap"

datatype bank_msg =
    SetNamespaceOwner part addr
  | SetMetadata denom metadata
  | Mint addr coins
  | Burn addr coins
  | ForceTransfer addr addr coins
  | RecoverTransfer addr addr

datatype bank_event =
    Sent (ev_user: addr) (ev_to: addr) (ev_coins: coins)
  | Received (ev_user: addr) (ev_from: addr) (ev_coins: coins)
  | Minted (ev_user: addr) (ev_minter: addr) (ev_coins: coins)
  | Burned (ev_user: addr) (ev_burner: addr) (ev_coins: coins)
  | TransferOrphaned (ev_from: addr) (ev_to: addr) (ev_coins: coins)

type_synonym bank_result = "(bank_state \<times> bank_event list) res"

subsection \<open>Supplies and balances\<close>

definition increase_supply :: "bank_state \<Rightarrow> denom \<Rightarrow> u128 \<Rightarrow> bank_state res" where
  "increase_supply st d amount =
     and_then (may_modify d (\<lambda>maybe_supply.
       and_then (checked_add (case maybe_supply of None \<Rightarrow> 0 | Some s \<Rightarrow> s) amount) (\<lambda>supply.
         Inr (if is_zero supply then None else Some supply))) (b_supplies st)) (\<lambda>supplies.
     Inr (st\<lparr>b_supplies := supplies\<rparr>))"

definition decrease_supply :: "bank_state \<Rightarrow> denom \<Rightarrow> u128 \<Rightarrow> bank_state res" where
  "decrease_supply st d amount =
     and_then (may_modify d (\<lambda>maybe_supply.
       and_then (checked_sub (case maybe_supply of None \<Rightarrow> 0 | Some s \<Rightarrow> s) amount) (\<lambda>supply.
         Inr (if is_zero supply then None else Some supply))) (b_supplies st)) (\<lambda>supplies.
     Inr (st\<lparr>b_supplies := supplies\<rparr>))"

definition increase_balance :: "bank_state \<Rightarrow> addr \<Rightarrow> denom \<Rightarrow> u128 \<Rightarrow> bank_state res" where
  "increase_balance st a d amount =
     and_then (may_modify (a, d) (\<lambda>maybe_balance.
       and_then (checked_add (case maybe_balance of None \<Rightarrow> 0 | Some b \<Rightarrow> b) amount) (\<lambda>balance.
         Inr (if is_zero balance then None else Some balance))) (b_balances st)) (\<lambda>balances.
     Inr (st\<lparr>b_balances := balances\<rparr>))"

definition decrease_balance :: "bank_state \<Rightarrow> addr \<Rightarrow> denom \<Rightarrow> u128 \<Rightarrow> bank_state res" where
  "decrease_balance st a d amount =
     and_then (may_modify (a, d) (\<lambda>maybe_balance.
       and_then (checked_sub (case maybe_balance of None \<Rightarrow> 0 | Some b \<Rightarrow> b) amount) (\<lambda>balance.
         Inr (if is_zero balance then None else Some balance))) (b_balances st)) (\<lambda>balances.
     Inr (st\<lparr>b_balances := balances\<rparr>))"

text \<open>The loop shared by every transfer: each coin leaves one balance and enters another.\<close>

definition move_coins :: "addr \<Rightarrow> addr \<Rightarrow> coins \<Rightarrow> bank_state \<Rightarrow> bank_state res" where
  "move_coins a b cs st =
     try_fold (\<lambda>st c.
       and_then (decrease_balance st a (c_denom c) (c_amount c)) (\<lambda>st'.
         increase_balance st' b (c_denom c) (c_amount c))) st (coins_iter cs)"

definition add_orphan :: "addr \<Rightarrow> addr \<Rightarrow> coins \<Rightarrow> bank_state \<Rightarrow> bank_state res" where
  "add_orphan sender to cs st =
     and_then (may_update (sender, to) (\<lambda>transfers.
       coins_insert_many (case transfers of None \<Rightarrow> coins_new | Some t \<Rightarrow> t) (coins_iter cs))
       (b_orphaned st)) (\<lambda>orphaned.
     Inr (st\<lparr>b_orphaned := orphaned\<rparr>))"

definition ensure_namespace_owner ::
    "bank_env \<Rightarrow> ctx \<Rightarrow> bank_state \<Rightarrow> denom \<Rightarrow> unit res" where
  "ensure_namespace_owner env cx st d =
     (case denom_namespace d of
        Some part \<Rightarrow> ensure (map_of (b_namespace_owners st) part = Some (ctx_sender cx)) Unauthorized
      | None \<Rightarrow> and_then (be_owner env) (\<lambda>owner. ensure (ctx_sender cx = owner) Unauthorized))"

subsection \<open>Messages\<close>

definition bank_instantiate :: "bank_init \<Rightarrow> bank_state res" where
  "bank_instantiate msg =
     and_then
       (try_fold (\<lambda>(balances, supplies) (address, cs).
          try_fold (\<lambda>(balances, supplies) c.
            let balances' = om_insert (address, c_denom c) (c_amount c) balances
            in (case map_of supplies (c_denom c) of
                  Some supply \<Rightarrow>
                    and_then (checked_add supply (c_amount c)) (\<lambda>supply'.
                      Inr (balances', om_insert (c_denom c) supply' supplies))
                | None \<Rightarrow> Inr (balances', om_insert (c_denom c) (c_amount c) supplies)))
            (balances, supplies) (coins_iter cs))
          ([], []) (bi_balances msg))
       (\<lambda>(balances, supplies).
         Inr \<lparr>b_namespace_owners = fold (\<lambda>(k, v). om_insert k v) (bi_namespaces msg) [],
              b_metadatas = fold (\<lambda>(k, v). om_insert k v) (bi_metadatas msg) [],
              b_supplies = supplies, b_balances = balances, b_orphaned = []\<rparr>)"

definition set_namespace_owner ::
    "bank_env \<Rightarrow> ctx \<Rightarrow> bank_state \<Rightarrow> part \<Rightarrow> addr \<Rightarrow> bank_result" where
  "set_namespace_owner env cx st namespace owner =
     and_then (be_owner env) (\<lambda>chain_owner.
     and_then (ensure (ctx_sender cx = chain_owner) Unauthorized) (\<lambda>_.
     and_then (may_update namespace (\<lambda>maybe_owner.
       case maybe_owner of Some _ \<Rightarrow> Inl (Bail ''namespace already granted'') | None \<Rightarrow> Inr owner)
       (b_namespace_owners st)) (\<lambda>owners.
     Inr (st\<lparr>b_namespace_owners := owners\<rparr>, []))))"

definition set_metadata ::
    "bank_env \<Rightarrow> ctx \<Rightarrow> bank_state \<Rightarrow> denom \<Rightarrow> metadata \<Rightarrow> bank_result" where
  "set_metadata env cx st d md =
     and_then (ensure_namespace_owner env cx st d) (\<lambda>_.
     Inr (st\<lparr>b_metadatas := om_insert d md (b_metadatas st)\<rparr>, []))"

text \<open>In the event of an orphaned mint the source passes \<open>to: recipient\<close>, the bank's own address.\<close>

definition mint_coins :: "bank_env \<Rightarrow> ctx \<Rightarrow> bank_state \<Rightarrow> addr \<Rightarrow> coins \<Rightarrow> bank_result" where
  "mint_coins env cx st to cs =
     (let recipient_exists = be_exists env to;
          recipient = (if recipient_exists then to else ctx_contract cx)
      in and_then (if recipient_exists then Inr st else add_orphan (ctx_sender cx) to cs st) (\<lambda>st1.
         and_then (try_fold (\<lambda>st c.
             and_then (ensure_namespace_owner env cx st (c_denom c)) (\<lambda>_.
             and_then (increase_supply st (c_denom c) (c_amount c)) (\<lambda>st'.
               increase_balance st' recipient (c_denom c) (c_amount c))))
           st1 (coins_iter cs)) (\<lambda>st2.
         Inr (st2, Minted recipient (ctx_sender cx) cs #
                   (if recipient_exists then [] else [TransferOrphaned (ctx_sender cx) recipient cs])))))"

definition burn_coins :: "bank_env \<Rightarrow> ctx \<Rightarrow> bank_state \<Rightarrow> addr \<Rightarrow> coins \<Rightarrow> bank_result" where
  "burn_coins env cx st from cs =
     and_then (try_fold (\<lambda>st c.
         and_then (ensure_namespace_owner env cx st (c_denom c)) (\<lambda>_.
         and_then (decrease_supply st (c_denom c) (c_amount c)) (\<lambda>st'.
           decrease_balance st' from (c_denom c) (c_amount c))))
       st (coins_iter cs)) (\<lambda>st'.
     Inr (st', [Burned from (ctx_sender cx) cs]))"

definition force_transfer ::
    "bank_env \<Rightarrow> ctx \<Rightarrow> bank_state \<Rightarrow> addr \<Rightarrow> addr \<Rightarrow> coins \<Rightarrow> bank_result" where
  "force_transfer env cx st from to cs =
     and_then (be_taxman env) (\<lambda>taxman.
     and_then (ensure (ctx_sender cx = taxman) Unauthorized) (\<lambda>_.
     and_then (move_coins from to cs st) (\<lambda>st'.
     Inr (st', [Sent from to cs, Received to from cs]))))"

definition recover_transfer :: "ctx \<Rightarrow> bank_state \<Rightarrow> addr \<Rightarrow> addr \<Rightarrow> bank_result" where
  "recover_transfer cx st sender recipient =
     and_then (ensure (ctx_sender cx = sender \<or> ctx_sender cx = recipient) Unauthorized) (\<lambda>_.
     (case map_of (b_orphaned st) (sender, recipient) of
        None \<Rightarrow> Inr (st, [])
      | Some cs \<Rightarrow>
          and_then (move_coins (ctx_contract cx) (ctx_sender cx) cs
            (st\<lparr>b_orphaned := om_remove (sender, recipient) (b_orphaned st)\<rparr>)) (\<lambda>st'.
          Inr (st', [Sent (ctx_contract cx) (ctx_sender cx) cs,
                     Received (ctx_sender cx) (ctx_contract cx) cs]))))"

fun bank_execute_msg :: "bank_env \<Rightarrow> ctx \<Rightarrow> bank_state \<Rightarrow> bank_msg \<Rightarrow> bank_result" where
  "bank_execute_msg env cx st (SetNamespaceOwner namespace owner) =
     set_namespace_owner env cx st namespace owner"
| "bank_execute_msg env cx st (SetMetadata d md) = set_metadata env cx st d md"
| "bank_execute_msg env cx st (Mint to cs) = mint_coins env cx st to cs"
| "bank_execute_msg env cx st (Burn from cs) = burn_coins env cx st from cs"
| "bank_execute_msg env cx st (ForceTransfer from to cs) = force_transfer env cx st from to cs"
| "bank_execute_msg env cx st (RecoverTransfer sender recipient) =
     recover_transfer cx st sender recipient"

definition bank_execute_entry :: "bank_env \<Rightarrow> ctx \<Rightarrow> bank_state \<Rightarrow> bank_msg \<Rightarrow> bank_result" where
  "bank_execute_entry env cx st msg =
     and_then (ensure (coins_is_empty (ctx_funds cx)) (Bail ''don't send funds to bank contract''))
       (\<lambda>_. bank_execute_msg env cx st msg)"

text \<open>\<open>bank_execute\<close> is the entry point the chain calls for every transfer message.\<close>

definition bank_transfer_one ::
    "bank_env \<Rightarrow> addr \<Rightarrow> addr \<Rightarrow> bank_state \<times> bank_event list \<Rightarrow> addr \<times> coins \<Rightarrow> bank_result" where
  "bank_transfer_one env contract from = (\<lambda>(st, events) (to, cs).
     (let recipient_exists = be_exists env to;
          recipient = (if recipient_exists then to else contract)
      in and_then (if recipient_exists then Inr st else add_orphan from to cs st) (\<lambda>st1.
         and_then (move_coins from recipient cs st1) (\<lambda>st2.
         Inr (st2, events @ (if recipient_exists then [] else [TransferOrphaned from to cs]) @
                   [Sent from recipient cs, Received recipient from cs])))))"

definition bank_execute ::
    "bank_env \<Rightarrow> addr \<Rightarrow> bank_state \<Rightarrow> addr \<Rightarrow> (addr, coins) omap \<Rightarrow> bank_result" where
  "bank_execute env contract st from transfers =
     try_fold (bank_transfer_one env contract from) (st, []) transfers"

subsection \<open>Queries (query.rs)\<close>

definition query_namespace_owner :: "bank_state \<Rightarrow> part \<Rightarrow> addr res" where
  "query_namespace_owner st namespace = om_load (b_namespace_owners st) namespace"

definition query_namespace_owners ::
    "bank_state \<Rightarrow> part option \<Rightarrow> u32 option \<Rightarrow> (part, addr) omap" where
  "query_namespace_owners st start_after limit = page start_after limit (b_namespace_owners st)"

definition query_metadata :: "bank_state \<Rightarrow> denom \<Rightarrow> metadata res" where
  "query_metadata st d = om_load (b_metadatas st) d"

definition query_metadatas ::
    "bank_state \<Rightarrow> denom option \<Rightarrow> u32 option \<Rightarrow> (denom, metadata) omap" where
  "query_metadatas st start_after limit = page start_after limit (b_metadatas st)"

definition query_orphaned_transfer :: "bank_state \<Rightarrow> addr \<Rightarrow> addr \<Rightarrow> coins" where
  "query_orphaned_transfer st sender recipient =
     (case map_of (b_orphaned st) (sender, recipient) of None \<Rightarrow> coins_new | Some cs \<Rightarrow> cs)"

definition query_orphaned_transfers ::
    "bank_state \<Rightarrow> (addr \<times> addr) option \<Rightarrow> u32 option \<Rightarrow> (addr \<times> addr, coins) omap" where
  "query_orphaned_transfers st start_after limit = page start_after limit (b_orphaned st)"

definition om_prefix :: "'a \<Rightarrow> ('a \<times> 'b, 'v) omap \<Rightarrow> ('b, 'v) omap" where
  "om_prefix a m = map (\<lambda>((_, b), v). (b, v)) (filter (\<lambda>e. fst (fst e) = a) m)"

definition query_orphaned_transfers_by_sender ::
    "bank_state \<Rightarrow> addr \<Rightarrow> addr option \<Rightarrow> u32 option \<Rightarrow> (addr, coins) omap" where
  "query_orphaned_transfers_by_sender st sender start_after limit =
     page start_after limit (om_prefix sender (b_orphaned st))"

text \<open>The recipient index lists the pairs of one recipient in the order of their senders.\<close>

definition query_orphaned_transfers_by_recipient ::
    "bank_state \<Rightarrow> addr \<Rightarrow> addr option \<Rightarrow> u32 option \<Rightarrow> (addr, coins) omap" where
  "query_orphaned_transfers_by_recipient st recipient start_after limit =
     page start_after limit
       (map (\<lambda>((sender, _), cs). (sender, cs))
         (filter (\<lambda>e. snd (fst e) = recipient) (b_orphaned st)))"

definition query_balance :: "bank_state \<Rightarrow> addr \<Rightarrow> denom \<Rightarrow> coin" where
  "query_balance st a d =
     mk_coin d (case map_of (b_balances st) (a, d) of None \<Rightarrow> 0 | Some b \<Rightarrow> b)"

definition query_balances :: "bank_state \<Rightarrow> addr \<Rightarrow> denom option \<Rightarrow> u32 option \<Rightarrow> coins res" where
  "query_balances st a start_after limit =
     try_from_iterator (page start_after limit (om_prefix a (b_balances st)))"

definition query_supply :: "bank_state \<Rightarrow> denom \<Rightarrow> coin" where
  "query_supply st d =
     mk_coin d (case map_of (b_supplies st) d of None \<Rightarrow> 0 | Some s \<Rightarrow> s)"

definition query_supplies :: "bank_state \<Rightarrow> denom option \<Rightarrow> u32 option \<Rightarrow> coins res" where
  "query_supplies st start_after limit = try_from_iterator (page start_after limit (b_supplies st))"

subsection \<open>Well-formed states\<close>

definition bank_wf :: "bank_state \<Rightarrow> bool" where
  "bank_wf st \<longleftrightarrow> om_ok (b_supplies st) \<and> om_ok (b_balances st) \<and> om_ok (b_orphaned st) \<and>
     (\<forall>e \<in> set (b_orphaned st). coins_ok (snd e))"

definition bal :: "bank_state \<Rightarrow> addr \<Rightarrow> denom \<Rightarrow> nat" where
  "bal st a d = om_amount (b_balances st) (a, d)"

definition supply_of :: "bank_state \<Rightarrow> denom \<Rightarrow> nat" where
  "supply_of st d = om_amount (b_supplies st) d"

text \<open>The sum of all balances of a denom, and of all amounts of a denom held as orphans.\<close>

definition book :: "bank_state \<Rightarrow> denom \<Rightarrow> nat" where
  "book st d = om_sum (\<lambda>k v. if snd k = d then unat v else 0) (b_balances st)"

definition held :: "bank_state \<Rightarrow> denom \<Rightarrow> nat" where
  "held st d = om_sum (\<lambda>_ cs. unat (amount_of cs d)) (b_orphaned st)"

text \<open>The two states differ in balances and supplies only.\<close>

definition frame :: "bank_state \<Rightarrow> bank_state \<Rightarrow> bool" where
  "frame st st' \<longleftrightarrow> b_namespace_owners st' = b_namespace_owners st \<and>
     b_metadatas st' = b_metadatas st \<and> b_orphaned st' = b_orphaned st"

lemma frame_refl [simp]: "frame st st"
  by (simp add: frame_def)

lemma frame_trans: "frame st st1 \<Longrightarrow> frame st1 st2 \<Longrightarrow> frame st st2"
  by (simp add: frame_def)

lemma frame_sym: "frame st st' \<Longrightarrow> frame st' st"
  by (simp add: frame_def)

text \<open>\<open>credit st st' a d n\<close>: only the balance of \<open>a\<close> in \<open>d\<close> differs, by \<open>n\<close>.\<close>

definition credit :: "bank_state \<Rightarrow> bank_state \<Rightarrow> addr \<Rightarrow> denom \<Rightarrow> nat \<Rightarrow> bool" where
  "credit st st' a d n \<longleftrightarrow>
     frame st st' \<and> b_supplies st' = b_supplies st \<and> om_ok (b_balances st') \<and>
     (\<forall>a' d'. bal st' a' d' = bal st a' d' + (if a' = a \<and> d' = d then n else 0)) \<and>
     (\<forall>d'. book st' d' = book st d' + (if d' = d then n else 0))"

lemma nonzero_fold: "(if is_zero v then None else Some v) = nonzero v"
  by (simp add: nonzero_def)

lemma book_set:
  assumes "om_ok (b_balances st)"
  shows "book (st\<lparr>b_balances := om_set (a, d) (nonzero v) (b_balances st)\<rparr>) d'
      + (if d' = d then bal st a d else 0)
    = book st d' + (if d' = d then unat v else 0)"
  using om_sum_set_amount [OF assms, of "\<lambda>k v. if snd k = d' then unat v else 0" "(a, d)" "d = d'" v]
  by (auto simp: book_def bal_def)

lemma increase_balance_credit:
  assumes "om_ok (b_balances st)" and "increase_balance st a d x = Inr st'"
  shows "credit st st' a d (unat x)"
proof -
  obtain v where v: "unat v = bal st a d + unat x"
      "st' = st\<lparr>b_balances := om_set (a, d) (nonzero v) (b_balances st)\<rparr>"
    using assms(2) by (auto simp: increase_balance_def nonzero_fold result_iff math_iff bal_def om_amount_def)
  moreover have "bal st' a' d' = bal st a' d' + (if a' = a \<and> d' = d then unat x else 0)" for a' d'
    using v by (simp add: bal_def om_amount_set [OF assms(1)])
  moreover have "book st' d' = book st d' + (if d' = d then unat x else 0)" for d'
    using book_set [OF assms(1), of a d v d'] v by (auto split: if_splits)
  ultimately show ?thesis by (simp add: credit_def om_ok_set assms(1) frame_def)
qed

lemma decrease_balance_credit:
  assumes "om_ok (b_balances st)" and "decrease_balance st a d x = Inr st'"
  shows "credit st' st a d (unat x)" and "om_ok (b_balances st')"
proof -
  obtain v where v: "bal st a d = unat v + unat x"
      "st' = st\<lparr>b_balances := om_set (a, d) (nonzero v) (b_balances st)\<rparr>"
    using assms(2) by (auto simp: decrease_balance_def nonzero_fold result_iff math_iff bal_def om_amount_def)
  moreover have "bal st a' d' = bal st' a' d' + (if a' = a \<and> d' = d then unat x else 0)" for a' d'
    using v by (simp add: bal_def om_amount_set [OF assms(1)])
  moreover have "book st d' = book st' d' + (if d' = d then unat x else 0)" for d'
    using book_set [OF assms(1), of a d v d'] v by (auto split: if_splits)
  ultimately show "credit st' st a d (unat x)" by (simp add: credit_def assms(1) frame_def)
  show "om_ok (b_balances st')" using v by (simp add: om_ok_set assms(1))
qed

lemma increase_supply_Inr:
  assumes "om_ok (b_supplies st)" and "increase_supply st d x = Inr st'"
  shows "frame st st'" and "b_balances st' = b_balances st" and "om_ok (b_supplies st')"
    and "supply_of st' d' = supply_of st d' + (if d' = d then unat x else 0)"
  using assms by (auto simp: increase_supply_def nonzero_fold result_iff math_iff supply_of_def
      om_amount_set om_ok_set frame_def) (simp_all add: om_amount_def)

lemma decrease_supply_Inr:
  assumes "om_ok (b_supplies st)" and "decrease_supply st d x = Inr st'"
  shows "frame st st'" and "b_balances st' = b_balances st" and "om_ok (b_supplies st')"
    and "supply_of st d' = supply_of st' d' + (if d' = d then unat x else 0)"
  using assms by (auto simp: decrease_supply_def nonzero_fold result_iff math_iff supply_of_def
      om_amount_set om_ok_set frame_def) (simp_all add: om_amount_def)

subsection \<open>Moving coins\<close>

text \<open>\<open>moved st st' a b f\<close>: the balances of \<open>a\<close> fall and those of \<open>b\<close> rise by \<open>f\<close>, nothing else changes.\<close>

definition moved :: "bank_state \<Rightarrow> bank_state \<Rightarrow> addr \<Rightarrow> addr \<Rightarrow> (denom \<Rightarrow> nat) \<Rightarrow> bool" where
  "moved st st' a b f \<longleftrightarrow>
     frame st st' \<and> b_supplies st' = b_supplies st \<and> om_ok (b_balances st') \<and>
     (\<forall>x d. bal st' x d + (if x = a then f d else 0) = bal st x d + (if x = b then f d else 0)) \<and>
     (\<forall>d. book st' d = book st d)"

lemma move_one:
  assumes "om_ok (b_balances st)" and "decrease_balance st a d x = Inr st1"
    and "increase_balance st1 b d x = Inr st2"
  shows "moved st st2 a b (\<lambda>d'. if d' = d then unat x else 0)"
proof -
  note dec = decrease_balance_credit [OF assms(1,2)]
  note inc = increase_balance_credit [OF dec(2) assms(3)]
  have "frame st st2" using dec(1) inc by (simp add: credit_def frame_def)
  then show ?thesis using dec(1) inc by (auto simp: moved_def credit_def)
qed

lemma moved_refl: "om_ok (b_balances st) \<Longrightarrow> moved st st a b (\<lambda>d. 0)"
  by (simp add: moved_def)

lemma moved_trans:
  assumes m: "moved st st1 a b f" and n: "moved st1 st2 a b g"
  shows "moved st st2 a b (\<lambda>d. f d + g d)"
proof -
  have "frame st st2" using m n by (simp add: moved_def frame_def)
  moreover have "bal st2 x d + (if x = a then f d + g d else 0)
      = bal st x d + (if x = b then f d + g d else 0)" for x d
  proof -
    have "bal st1 x d + (if x = a then f d else 0) = bal st x d + (if x = b then f d else 0)"
      and "bal st2 x d + (if x = a then g d else 0) = bal st1 x d + (if x = b then g d else 0)"
      using m n by (auto simp: moved_def)
    then show ?thesis by (auto split: if_splits)
  qed
  ultimately show ?thesis using m n by (auto simp: moved_def)
qed

lemma move_coins_list:
  assumes "om_ok (b_balances st)"
    and "try_fold (\<lambda>st c.
       and_then (decrease_balance st a (c_denom c) (c_amount c)) (\<lambda>st'.
         increase_balance st' b (c_denom c) (c_amount c))) st xs = Inr st'"
  shows "moved st st' a b (\<lambda>d. \<Sum>c\<leftarrow>xs. if c_denom c = d then unat (c_amount c) else 0)"
  using assms
proof (induction xs arbitrary: st)
  case Nil
  then show ?case by (simp add: moved_refl)
next
  case (Cons c xs)
  obtain st1 st2 where st: "decrease_balance st a (c_denom c) (c_amount c) = Inr st1"
      "increase_balance st1 b (c_denom c) (c_amount c) = Inr st2"
    and rest: "try_fold (\<lambda>st c.
       and_then (decrease_balance st a (c_denom c) (c_amount c)) (\<lambda>st'.
         increase_balance st' b (c_denom c) (c_amount c))) st2 xs = Inr st'"
    using Cons.prems(2) by (auto simp: result_iff)
  have m: "moved st st2 a b (\<lambda>d. if d = c_denom c then unat (c_amount c) else 0)"
    using Cons.prems(1) st by (rule move_one)
  then have "om_ok (b_balances st2)" by (simp add: moved_def)
  from moved_trans [OF m Cons.IH [OF this rest]] show ?case
    by (simp add: eq_commute [of _ "c_denom c"])
qed

lemma move_coins_moved:
  assumes "om_ok (b_balances st)" and "om_ok cs" and "move_coins a b cs st = Inr st'"
  shows "moved st st' a b (\<lambda>d. unat (amount_of cs d))"
  using move_coins_list [OF assms(1) assms(3) [unfolded move_coins_def]]
  by (simp add: sum_coins_iter [OF assms(2)])

subsection \<open>Orphaned transfers\<close>

definition orphan_amount :: "bank_state \<Rightarrow> addr \<Rightarrow> addr \<Rightarrow> denom \<Rightarrow> nat" where
  "orphan_amount st s r d = unat (amount_of (query_orphaned_transfer st s r) d)"

lemma coins_ok_new [simp]: "coins_ok coins_new" "coins_ok []"
  by (simp_all add: coins_ok_def coins_new_def)

lemma amount_of_new [simp]: "amount_of coins_new d = 0" "amount_of [] d = 0"
  by (simp_all add: amount_of_def coins_new_def)

lemma add_orphan_Inr:
  assumes "bank_wf st" and "om_ok cs" and "add_orphan s r cs st = Inr st'"
  shows "bank_wf st'" and "b_balances st' = b_balances st" and "b_supplies st' = b_supplies st"
    and "b_namespace_owners st' = b_namespace_owners st"
    and "held st' d = held st d + unat (amount_of cs d)"
    and "orphan_amount st' s' r' d =
      orphan_amount st s' r' d + (if s' = s \<and> r' = r then unat (amount_of cs d) else 0)"
proof -
  define old where "old = query_orphaned_transfer st s r"
  obtain t where t: "coins_insert_many old (coins_iter cs) = Inr t"
      "st' = st\<lparr>b_orphaned := om_insert (s, r) t (b_orphaned st)\<rparr>"
    using assms(3) by (auto simp: add_orphan_def result_iff old_def query_orphaned_transfer_def)
  have wf: "om_ok (b_orphaned st)" "\<forall>e \<in> set (b_orphaned st). coins_ok (snd e)"
    using assms(1) by (auto simp: bank_wf_def)
  have ok: "coins_ok old" using wf(2)
    by (fastforce simp: old_def query_orphaned_transfer_def split: option.splits dest: map_of_SomeD)
  have tok: "coins_ok t" by (rule coins_insert_many_Inr(1) [OF ok t(1)])
  have amt: "unat (amount_of t d) = unat (amount_of old d) + unat (amount_of cs d)" for d
    using coins_insert_many_Inr(2) [OF ok t(1), where d = d] by (simp add: sum_coins_iter assms(2))
  show "bank_wf st'" using assms(1) t tok
    by (auto simp: bank_wf_def om_ok_insert om_insert_entries)
  show "b_balances st' = b_balances st" "b_supplies st' = b_supplies st"
    "b_namespace_owners st' = b_namespace_owners st" using t by simp_all
  have old': "weight (\<lambda>_ cs. unat (amount_of cs d)) (s, r) (map_of (b_orphaned st) (s, r))
      = unat (amount_of old d)"
    by (simp add: old_def query_orphaned_transfer_def split: option.splits)
  show "held st' d = held st d + unat (amount_of cs d)"
    using om_sum_insert [OF wf(1), of "\<lambda>_ cs. unat (amount_of cs d)" "(s, r)" t] t(2) amt [of d] old'
    by (simp add: held_def)
  show "orphan_amount st' s' r' d =
      orphan_amount st s' r' d + (if s' = s \<and> r' = r then unat (amount_of cs d) else 0)"
    using t(2) amt [of d] wf(1)
    by (auto simp: orphan_amount_def query_orphaned_transfer_def map_of_om_insert old_def)
qed

lemma remove_orphan:
  assumes "bank_wf st" and "map_of (b_orphaned st) (s, r) = Some cs"
    and "st' = st\<lparr>b_orphaned := om_remove (s, r) (b_orphaned st)\<rparr>"
  shows "bank_wf st'" and "held st d = held st' d + unat (amount_of cs d)" and "coins_ok cs"
proof -
  have wf: "om_ok (b_orphaned st)" using assms(1) by (auto simp: bank_wf_def)
  show "bank_wf st'" using assms(1,3) by (auto simp: bank_wf_def om_ok_remove om_remove_entries)
  show "held st d = held st' d + unat (amount_of cs d)"
    using om_sum_remove [OF wf, of "\<lambda>_ cs. unat (amount_of cs d)" "(s, r)"] assms(2,3)
    by (simp add: held_def)
  show "coins_ok cs" using assms(1,2) by (fastforce simp: bank_wf_def dest: map_of_SomeD)
qed

subsection \<open>Minting and burning\<close>

text \<open>\<open>issued st st' r f\<close>: \<open>st'\<close> has \<open>f\<close> more of every denom in supply, all of it at \<open>r\<close>.\<close>

definition issued :: "bank_state \<Rightarrow> bank_state \<Rightarrow> addr \<Rightarrow> (denom \<Rightarrow> nat) \<Rightarrow> bool" where
  "issued st st' r f \<longleftrightarrow>
     (\<forall>x d. bal st' x d = bal st x d + (if x = r then f d else 0)) \<and>
     (\<forall>d. supply_of st' d = supply_of st d + f d) \<and> (\<forall>d. book st' d = book st d + f d) \<and>
     frame st st'"

lemma issued_refl: "issued st st r (\<lambda>d. 0)"
  by (simp add: issued_def)

lemma issued_trans:
  "issued st st1 r f \<Longrightarrow> issued st1 st2 r g \<Longrightarrow> issued st st2 r (\<lambda>d. f d + g d)"
  by (auto simp: issued_def frame_def)

lemma amounts_cong:
  "b_balances st' = b_balances st \<Longrightarrow> bal st' = bal st"
  "b_balances st' = b_balances st \<Longrightarrow> book st' = book st"
  "b_supplies st' = b_supplies st \<Longrightarrow> supply_of st' = supply_of st"
  "b_orphaned st' = b_orphaned st \<Longrightarrow> held st' = held st"
  by (simp_all add: bal_def book_def supply_of_def held_def fun_eq_iff)

lemma mint_one:
  assumes "bank_wf st" and "increase_supply st d x = Inr st1" and "increase_balance st1 r d x = Inr st2"
  shows "bank_wf st2" and "issued st st2 r (\<lambda>d'. if d' = d then unat x else 0)"
proof -
  have wf: "om_ok (b_supplies st)" "om_ok (b_balances st)" using assms(1) by (auto simp: bank_wf_def)
  note s = increase_supply_Inr [OF wf(1) assms(2)]
  have cr: "credit st1 st2 r d (unat x)"
    by (rule increase_balance_credit [OF _ assms(3)]) (simp add: s wf)
  then show "bank_wf st2"
    using assms(1) s(1,3) by (simp add: bank_wf_def credit_def frame_def)
  show "issued st st2 r (\<lambda>d'. if d' = d then unat x else 0)"
    using cr s(1,4) amounts_cong(1,2) [OF s(2)] amounts_cong(3) [of st2 st1]
    by (simp add: issued_def credit_def frame_def)
qed

lemma burn_one:
  assumes "bank_wf st" and "decrease_supply st d x = Inr st1" and "decrease_balance st1 r d x = Inr st2"
  shows "bank_wf st2" and "issued st2 st r (\<lambda>d'. if d' = d then unat x else 0)"
proof -
  have wf: "om_ok (b_supplies st)" "om_ok (b_balances st)" using assms(1) by (auto simp: bank_wf_def)
  note s = decrease_supply_Inr [OF wf(1) assms(2)]
  have ok: "om_ok (b_balances st1)" by (simp add: s wf)
  note cr = decrease_balance_credit [OF ok assms(3)]
  then show "bank_wf st2"
    using assms(1) s(1,3) by (simp add: bank_wf_def credit_def frame_def)
  show "issued st2 st r (\<lambda>d'. if d' = d then unat x else 0)"
    using cr s(1,4) amounts_cong(1,2) [OF s(2)] amounts_cong(3) [of st2 st1]
    by (simp add: issued_def credit_def frame_def)
qed

lemma ensure_namespace_owner_frame:
  "frame st st' \<Longrightarrow> ensure_namespace_owner env cx st' = ensure_namespace_owner env cx st"
  by (simp add: fun_eq_iff ensure_namespace_owner_def frame_def split: option.split)

lemma mint_list:
  assumes "bank_wf st"
    and "try_fold (\<lambda>st c.
             and_then (ensure_namespace_owner env cx st (c_denom c)) (\<lambda>_.
             and_then (increase_supply st (c_denom c) (c_amount c)) (\<lambda>st'.
               increase_balance st' r (c_denom c) (c_amount c)))) st xs = Inr st'"
  shows "bank_wf st' \<and> issued st st' r (\<lambda>d. \<Sum>c\<leftarrow>xs. if c_denom c = d then unat (c_amount c) else 0)
    \<and> (\<forall>c \<in> set xs. ensure_namespace_owner env cx st (c_denom c) = Inr ())"
  using assms
proof (induction xs arbitrary: st)
  case Nil
  then show ?case by (simp add: issued_refl)
next
  case (Cons c xs)
  then obtain st1 st2 where st: "ensure_namespace_owner env cx st (c_denom c) = Inr ()"
      "increase_supply st (c_denom c) (c_amount c) = Inr st1"
      "increase_balance st1 r (c_denom c) (c_amount c) = Inr st2"
    and rest: "try_fold (\<lambda>st c.
             and_then (ensure_namespace_owner env cx st (c_denom c)) (\<lambda>_.
             and_then (increase_supply st (c_denom c) (c_amount c)) (\<lambda>st'.
               increase_balance st' r (c_denom c) (c_amount c)))) st2 xs = Inr st'"
    by (auto simp: result_iff)
  note m = mint_one [OF Cons.prems(1) st(2,3)]
  note ih = Cons.IH [OF m(1) rest]
  have "ensure_namespace_owner env cx st2 = ensure_namespace_owner env cx st"
    using m(2) by (intro ensure_namespace_owner_frame) (auto simp: issued_def intro: frame_sym)
  then show ?case
    using issued_trans [OF m(2) conjunct1 [OF conjunct2 [OF ih]]] ih st(1)
    by (simp add: eq_commute [of _ "c_denom c"])
qed

lemma burn_list:
  assumes "bank_wf st"
    and "try_fold (\<lambda>st c.
         and_then (ensure_namespace_owner env cx st (c_denom c)) (\<lambda>_.
         and_then (decrease_supply st (c_denom c) (c_amount c)) (\<lambda>st'.
           decrease_balance st' r (c_denom c) (c_amount c)))) st xs = Inr st'"
  shows "bank_wf st' \<and> issued st' st r (\<lambda>d. \<Sum>c\<leftarrow>xs. if c_denom c = d then unat (c_amount c) else 0)
    \<and> (\<forall>c \<in> set xs. ensure_namespace_owner env cx st (c_denom c) = Inr ())"
  using assms
proof (induction xs arbitrary: st)
  case Nil
  then show ?case by (simp add: issued_refl)
next
  case (Cons c xs)
  then obtain st1 st2 where st: "ensure_namespace_owner env cx st (c_denom c) = Inr ()"
      "decrease_supply st (c_denom c) (c_amount c) = Inr st1"
      "decrease_balance st1 r (c_denom c) (c_amount c) = Inr st2"
    and rest: "try_fold (\<lambda>st c.
         and_then (ensure_namespace_owner env cx st (c_denom c)) (\<lambda>_.
         and_then (decrease_supply st (c_denom c) (c_amount c)) (\<lambda>st'.
           decrease_balance st' r (c_denom c) (c_amount c)))) st2 xs = Inr st'"
    by (auto simp: result_iff)
  note m = burn_one [OF Cons.prems(1) st(2,3)]
  note ih = Cons.IH [OF m(1) rest]
  have "ensure_namespace_owner env cx st2 = ensure_namespace_owner env cx st"
    using m(2) by (intro ensure_namespace_owner_frame) (auto simp: issued_def intro: frame_sym)
  then show ?case
    using issued_trans [OF conjunct1 [OF conjunct2 [OF ih]] m(2)] ih st(1)
    by (simp add: eq_commute [of _ "c_denom c"] add.commute)
qed

subsection \<open>What each message does\<close>

lemma mint_coins_Inr:
  assumes "bank_wf st" and "coins_ok cs" and "mint_coins env cx st to cs = Inr (st', evs)"
  defines "r \<equiv> (if be_exists env to then to else ctx_contract cx)"
  shows "bank_wf st'"
    and "bal st' x d = bal st x d + (if x = r then unat (amount_of cs d) else 0)"
    and "supply_of st' d = supply_of st d + unat (amount_of cs d)"
    and "book st' d = book st d + unat (amount_of cs d)"
    and "held st' d = held st d + (if be_exists env to then 0 else unat (amount_of cs d))"
    and "\<forall>c \<in> set (coins_iter cs). ensure_namespace_owner env cx st (c_denom c) = Inr ()"
proof -
  have ok: "om_ok cs" using assms(2) by (rule coins_okD)
  obtain st1 where st1: "(if be_exists env to then Inr st else add_orphan (ctx_sender cx) to cs st) = Inr st1"
    and loop: "try_fold (\<lambda>st c.
             and_then (ensure_namespace_owner env cx st (c_denom c)) (\<lambda>_.
             and_then (increase_supply st (c_denom c) (c_amount c)) (\<lambda>st'.
               increase_balance st' r (c_denom c) (c_amount c)))) st1 (coins_iter cs) = Inr st'"
    using assms(3) by (auto simp: mint_coins_def Let_def result_iff r_def split: if_splits)
  have wf1: "bank_wf st1" and b: "b_balances st1 = b_balances st" "b_supplies st1 = b_supplies st"
      "b_namespace_owners st1 = b_namespace_owners st"
    and h: "held st1 d = held st d + (if be_exists env to then 0 else unat (amount_of cs d))" for d
    using st1 assms(1) add_orphan_Inr [OF assms(1) ok, of "ctx_sender cx" to st1]
    by (auto split: if_splits)
  note ml = mint_list [OF wf1 loop, unfolded sum_coins_iter [OF ok]]
  show "bank_wf st'" using ml by simp
  show "bal st' x d = bal st x d + (if x = r then unat (amount_of cs d) else 0)"
    using ml amounts_cong(1) [OF b(1)] by (simp add: issued_def)
  show "supply_of st' d = supply_of st d + unat (amount_of cs d)"
    using ml amounts_cong(3) [OF b(2)] by (simp add: issued_def)
  show "book st' d = book st d + unat (amount_of cs d)"
    using ml amounts_cong(2) [OF b(1)] by (simp add: issued_def)
  show "held st' d = held st d + (if be_exists env to then 0 else unat (amount_of cs d))"
    using ml h amounts_cong(4) [of st' st1] by (simp add: issued_def frame_def)
  show "\<forall>c \<in> set (coins_iter cs). ensure_namespace_owner env cx st (c_denom c) = Inr ()"
    using ml b(3) by (simp add: ensure_namespace_owner_def cong: option.case_cong)
qed

lemma burn_coins_Inr:
  assumes "bank_wf st" and "coins_ok cs" and "burn_coins env cx st from cs = Inr (st', evs)"
  shows "bank_wf st'" and "issued st' st from (\<lambda>d. unat (amount_of cs d))"
    and "\<forall>c \<in> set (coins_iter cs). ensure_namespace_owner env cx st (c_denom c) = Inr ()"
  using assms(3) burn_list [OF assms(1), of env cx "from" "coins_iter cs" st']
  by (auto simp: burn_coins_def result_iff sum_coins_iter [OF coins_okD [OF assms(2)]])

lemma moved_le:
  assumes "moved st st' a b f"
  shows "bal st x d \<le> bal st' x d + f d" and "x \<noteq> a \<Longrightarrow> bal st x d \<le> bal st' x d"
proof -
  have "bal st' x d + (if x = a then f d else 0) = bal st x d + (if x = b then f d else 0)"
    using assms by (simp add: moved_def)
  then show "bal st x d \<le> bal st' x d + f d" and "x \<noteq> a \<Longrightarrow> bal st x d \<le> bal st' x d"
    by (auto split: if_splits)
qed

lemma bank_wf_moved:
  assumes "bank_wf st" and "moved st st' a b f"
  shows "bank_wf st'" and "supply_of st' d = supply_of st d" and "held st' d = held st d"
  using assms amounts_cong(3,4) [of st' st] by (auto simp: bank_wf_def moved_def frame_def)

lemma move_coins_Inr:
  assumes "bank_wf st" and "coins_ok cs" and "move_coins a b cs st = Inr st'"
  shows "moved st st' a b (\<lambda>d. unat (amount_of cs d))"
  using assms by (intro move_coins_moved) (auto simp: bank_wf_def coins_ok_def)

text \<open>One transfer of the chain: the sender pays, the recipient (or the bank, for it) receives.\<close>

lemma bank_transfer_one_Inr:
  assumes "bank_wf st" and "coins_ok cs"
    and "bank_transfer_one env self from (st, evs) (to, cs) = Inr (st', evs')"
  defines "r \<equiv> (if be_exists env to then to else self)"
  shows "bank_wf st'"
    and "bal st' x d + (if x = from then unat (amount_of cs d) else 0)
      = bal st x d + (if x = r then unat (amount_of cs d) else 0)"
    and "supply_of st' d = supply_of st d" and "book st' d = book st d"
    and "held st' d = held st d + (if be_exists env to then 0 else unat (amount_of cs d))"
    and "orphan_amount st' s q d = orphan_amount st s q d +
      (if \<not> be_exists env to \<and> s = from \<and> q = to then unat (amount_of cs d) else 0)"
    and "b_namespace_owners st' = b_namespace_owners st"
proof -
  have ok: "om_ok cs" using assms(2) by (rule coins_okD)
  obtain st1 where st1: "(if be_exists env to then Inr st else add_orphan from to cs st) = Inr st1"
    and mv: "move_coins from r cs st1 = Inr st'"
    using assms(3) by (auto simp: bank_transfer_one_def Let_def result_iff r_def split: if_splits)
  have wf1: "bank_wf st1" and b: "b_balances st1 = b_balances st" "b_supplies st1 = b_supplies st"
      "b_namespace_owners st1 = b_namespace_owners st"
    and h: "held st1 d = held st d + (if be_exists env to then 0 else unat (amount_of cs d))"
    and o: "orphan_amount st1 s q d = orphan_amount st s q d +
      (if \<not> be_exists env to \<and> s = from \<and> q = to then unat (amount_of cs d) else 0)"
    using st1 assms(1) add_orphan_Inr [OF assms(1) ok, of "from" to st1]
    by (auto split: if_splits)
  have m: "moved st1 st' from r (\<lambda>d. unat (amount_of cs d))"
    using wf1 assms(2) mv by (rule move_coins_Inr)
  note w = bank_wf_moved [OF wf1 m]
  show "bank_wf st'" by (rule w)
  show "bal st' x d + (if x = from then unat (amount_of cs d) else 0)
      = bal st x d + (if x = r then unat (amount_of cs d) else 0)"
    using m amounts_cong(1) [OF b(1)] by (simp add: moved_def)
  show "supply_of st' d = supply_of st d" using w amounts_cong(3) [OF b(2)] by simp
  show "book st' d = book st d" using m amounts_cong(2) [OF b(1)] by (simp add: moved_def)
  show "held st' d = held st d + (if be_exists env to then 0 else unat (amount_of cs d))"
    using w h by simp
  show "orphan_amount st' s q d = orphan_amount st s q d +
      (if \<not> be_exists env to \<and> s = from \<and> q = to then unat (amount_of cs d) else 0)"
    using o m by (simp add: orphan_amount_def query_orphaned_transfer_def moved_def frame_def)
  show "b_namespace_owners st' = b_namespace_owners st"
    using m b(3) by (simp add: moved_def frame_def)
qed

subsection \<open>The invariant of the contract over its runs\<close>

text \<open>The supply of every denom is the sum of all balances in it.\<close>

definition bank_inv :: "bank_state \<Rightarrow> bool" where
  "bank_inv st \<longleftrightarrow> bank_wf st \<and> (\<forall>d. supply_of st d = book st d)"

text \<open>What is owed to the parties of orphaned transfers is in the bank's own balance.\<close>

definition backed :: "addr \<Rightarrow> bank_state \<Rightarrow> bool" where
  "backed self st \<longleftrightarrow> (\<forall>d. held st d \<le> bal st self d)"

fun msg_coins_ok :: "bank_msg \<Rightarrow> bool" where
  "msg_coins_ok (Mint to cs) = coins_ok cs"
| "msg_coins_ok (Burn from cs) = coins_ok cs"
| "msg_coins_ok (ForceTransfer from to cs) = coins_ok cs"
| "msg_coins_ok _ = True"

text \<open>The messages that take coins away from the given account by the will of another one.\<close>

fun msg_seizes_from :: "addr \<Rightarrow> bank_msg \<Rightarrow> bool" where
  "msg_seizes_from self (Burn from cs) = (from = self)"
| "msg_seizes_from self (ForceTransfer from to cs) = (from = self)"
| "msg_seizes_from self _ = False"

text \<open>
  A step of the chain on the bank: a message of any sender, or a transfer from any account. The
  flag tells whether the step may take coins out of the bank's own account otherwise than by
  recovering an orphaned transfer.
\<close>

inductive bank_step :: "addr \<Rightarrow> bool \<Rightarrow> bank_state \<Rightarrow> bank_state \<Rightarrow> bool" for self where
  bank_message:
    "bank_execute_entry env cx st msg = Inr (st', evs) \<Longrightarrow> ctx_contract cx = self \<Longrightarrow>
     msg_coins_ok msg \<Longrightarrow> seizes = msg_seizes_from self msg \<Longrightarrow> bank_step self seizes st st'"
| bank_transfer:
    "bank_execute env self st from transfers = Inr (st', evs) \<Longrightarrow>
     \<forall>e \<in> set transfers. coins_ok (snd e) \<Longrightarrow> seizes = (from = self) \<Longrightarrow>
     bank_step self seizes st st'"

lemma bank_inv_moved: "bank_inv st \<Longrightarrow> moved st st' a b f \<Longrightarrow> bank_inv st'"
  using bank_wf_moved(1,2) [of st st' a b f] by (simp add: bank_inv_def moved_def)

lemma bank_inv_unchanged:
  "bank_inv st \<Longrightarrow> b_balances st' = b_balances st \<Longrightarrow> b_supplies st' = b_supplies st \<Longrightarrow>
   b_orphaned st' = b_orphaned st \<Longrightarrow> bank_inv st'"
  using amounts_cong [of st' st] by (simp add: bank_inv_def bank_wf_def)

lemma backed_unchanged:
  "backed self st \<Longrightarrow> b_balances st' = b_balances st \<Longrightarrow> b_orphaned st' = b_orphaned st \<Longrightarrow>
   backed self st'"
  using amounts_cong [of st' st] by (simp add: backed_def)

text \<open>Recovery: the orphaned coins leave the bank's account for the one who asks.\<close>

lemma recover_transfer_Inr:
  assumes "bank_wf st" and "recover_transfer cx st s r = Inr (st', evs)"
    and "map_of (b_orphaned st) (s, r) = Some cs"
  obtains st1 where "st1 = st\<lparr>b_orphaned := om_remove (s, r) (b_orphaned st)\<rparr>" and "bank_wf st1"
    and "moved st1 st' (ctx_contract cx) (ctx_sender cx) (\<lambda>d. unat (amount_of cs d))"
    and "\<And>d. held st d = held st' d + unat (amount_of cs d)"
proof -
  define st1 where "st1 = st\<lparr>b_orphaned := om_remove (s, r) (b_orphaned st)\<rparr>"
  note ro = remove_orphan [OF assms(1,3) st1_def]
  have "move_coins (ctx_contract cx) (ctx_sender cx) cs st1 = Inr st'"
    using assms(2,3) by (auto simp: recover_transfer_def result_iff st1_def)
  with ro(1,3) have m: "moved st1 st' (ctx_contract cx) (ctx_sender cx) (\<lambda>d. unat (amount_of cs d))"
    by (rule move_coins_Inr)
  show thesis
    using that [OF st1_def ro(1) m] ro(2) bank_wf_moved(3) [OF ro(1) m] by simp
qed

lemma bank_execute_msg_inv:
  assumes "bank_inv st" and "bank_execute_msg env cx st msg = Inr (st', evs)" and "msg_coins_ok msg"
  shows "bank_inv st'"
proof (cases msg)
  case (SetNamespaceOwner p a)
  with assms show ?thesis
    by (auto simp: set_namespace_owner_def result_iff intro: bank_inv_unchanged)
next
  case (SetMetadata d m)
  with assms show ?thesis by (auto simp: set_metadata_def result_iff intro: bank_inv_unchanged)
next
  case (Mint to cs)
  with assms show ?thesis
    using mint_coins_Inr(1,3,4) [of st cs env cx to st' evs] by (simp add: bank_inv_def)
next
  case (Burn a cs)
  with assms have "burn_coins env cx st a cs = Inr (st', evs)" "bank_wf st" "coins_ok cs"
    by (simp_all add: bank_inv_def)
  note bc = burn_coins_Inr [OF this(2,3,1)]
  have "supply_of st' d = book st' d" for d
    using bc(2) assms(1) unfolding issued_def bank_inv_def by (metis add_right_cancel)
  with bc(1) show ?thesis by (simp add: bank_inv_def)
next
  case (ForceTransfer a b cs)
  with assms have "move_coins a b cs st = Inr st'" "bank_wf st" "coins_ok cs"
    by (auto simp: force_transfer_def result_iff bank_inv_def)
  with assms(1) show ?thesis by (blast intro: move_coins_Inr bank_inv_moved)
next
  case (RecoverTransfer s r)
  show ?thesis
  proof (cases "map_of (b_orphaned st) (s, r)")
    case None
    with RecoverTransfer assms show ?thesis by (auto simp: recover_transfer_def result_iff)
  next
    case (Some cs)
    with RecoverTransfer assms obtain st1
      where st1: "st1 = st\<lparr>b_orphaned := om_remove (s, r) (b_orphaned st)\<rparr>" "bank_wf st1"
        "moved st1 st' (ctx_contract cx) (ctx_sender cx) (\<lambda>d. unat (amount_of cs d))"
      by (auto simp: bank_inv_def elim: recover_transfer_Inr)
    have "bank_inv st1"
      using assms(1) st1(1,2) amounts_cong(2,3) [of st1 st] by (simp add: bank_inv_def)
    with st1(3) show ?thesis by (blast intro: bank_inv_moved)
  qed
qed

lemma bank_transfer_one_inv:
  assumes "bank_inv st" and "coins_ok cs"
    and "bank_transfer_one env self from (st, evs) (to, cs) = Inr (st', evs')"
  shows "bank_inv st'"
  using assms(1) bank_transfer_one_Inr(1,3,4) [OF _ assms(2,3)] by (simp add: bank_inv_def)

lemma bank_execute_inv:
  assumes "bank_inv st" and "bank_execute env self st from transfers = Inr (st', evs)"
    and "\<forall>e \<in> set transfers. coins_ok (snd e)"
  shows "bank_inv st'"
proof -
  have "bank_inv (fst (st', evs))"
    using _ _ assms(2) [unfolded bank_execute_def]
  proof (rule try_fold_invariant [where I = "\<lambda>s. bank_inv (fst s)"])
    fix s e s'
    assume "e \<in> set transfers" "bank_inv (fst s)" "bank_transfer_one env self from s e = Inr s'"
    then show "bank_inv (fst s')"
      using assms(3) bank_transfer_one_inv [of "fst s" "snd e" env self "from" "snd s" "fst e" "fst s'" "snd s'"]
      by auto
  qed (use assms(1) in simp)
  then show ?thesis by simp
qed

lemma bank_step_inv: "bank_step self seizes st st' \<Longrightarrow> bank_inv st \<Longrightarrow> bank_inv st'"
  by (induction rule: bank_step.induct)
    (auto simp: bank_execute_entry_def result_iff intro: bank_execute_msg_inv bank_execute_inv)

subsection \<open>Orphaned transfers stay backed\<close>

lemma backed_step:
  assumes "backed self st" and "\<And>d. held st' d + bal st self d \<le> held st d + bal st' self d"
  shows "backed self st'"
proof -
  have "held st' d \<le> bal st' self d" for d
  proof -
    have "held st d \<le> bal st self d" using assms(1) by (simp add: backed_def)
    with assms(2) [of d] show ?thesis by linarith
  qed
  then show ?thesis by (simp add: backed_def)
qed

lemma bank_execute_msg_backed:
  assumes "bank_inv st" and "backed (ctx_contract cx) st" and "msg_coins_ok msg"
    and "bank_execute_msg env cx st msg = Inr (st', evs)"
    and "\<not> msg_seizes_from (ctx_contract cx) msg"
  shows "backed (ctx_contract cx) st'"
proof (cases msg)
  case (SetNamespaceOwner p a)
  with assms show ?thesis
    by (auto simp: set_namespace_owner_def result_iff intro: backed_unchanged)
next
  case (SetMetadata d m)
  with assms show ?thesis by (auto simp: set_metadata_def result_iff intro: backed_unchanged)
next
  case (Mint to cs)
  with assms have "bank_wf st" "coins_ok cs" "mint_coins env cx st to cs = Inr (st', evs)"
    by (simp_all add: bank_inv_def)
  note mc = mint_coins_Inr [OF this]
  from assms(2) show ?thesis by (rule backed_step) (simp add: mc(2,5))
next
  case (Burn a cs)
  with assms have "bank_wf st" "coins_ok cs" "burn_coins env cx st a cs = Inr (st', evs)"
    by (simp_all add: bank_inv_def)
  note bc = burn_coins_Inr [OF this]
  have "held st' = held st" using bc(2) by (intro amounts_cong) (simp add: issued_def frame_def)
  moreover have "a \<noteq> ctx_contract cx" using Burn assms(5) by simp
  then have "bal st (ctx_contract cx) d = bal st' (ctx_contract cx) d" for d
    using bc(2) by (simp add: issued_def)
  ultimately show ?thesis using assms(2) by (simp add: backed_def)
next
  case (ForceTransfer a b cs)
  with assms have m: "moved st st' a b (\<lambda>d. unat (amount_of cs d))" and wf: "bank_wf st"
    by (auto simp: force_transfer_def result_iff bank_inv_def intro: move_coins_Inr)
  have "a \<noteq> ctx_contract cx" using ForceTransfer assms(5) by simp
  then have "bal st (ctx_contract cx) d \<le> bal st' (ctx_contract cx) d" for d
    using moved_le(2) [OF m] by simp
  from assms(2) show ?thesis
    by (rule backed_step) (simp add: bank_wf_moved(3) [OF wf m] \<open>\<And>d. _ d \<le> _ d\<close>)
next
  case (RecoverTransfer s r)
  show ?thesis
  proof (cases "map_of (b_orphaned st) (s, r)")
    case None
    with RecoverTransfer assms show ?thesis by (auto simp: recover_transfer_def result_iff)
  next
    case (Some cs)
    with RecoverTransfer assms obtain st1
      where st1: "st1 = st\<lparr>b_orphaned := om_remove (s, r) (b_orphaned st)\<rparr>"
        "moved st1 st' (ctx_contract cx) (ctx_sender cx) (\<lambda>d. unat (amount_of cs d))"
        "\<And>d. held st d = held st' d + unat (amount_of cs d)"
      by (auto simp: bank_inv_def elim: recover_transfer_Inr)
    have "bal st1 = bal st" using st1(1) by (intro amounts_cong) simp
    then have le: "bal st (ctx_contract cx) d \<le> bal st' (ctx_contract cx) d + unat (amount_of cs d)"
      for d using moved_le(1) [OF st1(2)] by simp
    show ?thesis
      by (rule backed_step [OF assms(2)]) (use le st1(3) in \<open>simp add: add.commute add_le_cancel_left\<close>)
  qed
qed

lemma bank_execute_backed:
  assumes "bank_inv st" and "backed self st" and "from \<noteq> self"
    and "bank_execute env self st from transfers = Inr (st', evs)"
    and "\<forall>e \<in> set transfers. coins_ok (snd e)"
  shows "backed self st'"
proof -
  have "bank_inv (fst (st', evs)) \<and> backed self (fst (st', evs))"
    using _ _ assms(4) [unfolded bank_execute_def]
  proof (rule try_fold_invariant [where I = "\<lambda>s. bank_inv (fst s) \<and> backed self (fst s)"])
    fix s e s'
    assume e: "e \<in> set transfers" and inv: "bank_inv (fst s) \<and> backed self (fst s)"
      and step: "bank_transfer_one env self from s e = Inr s'"
    have "coins_ok (snd e)" "bank_wf (fst s)"
      "bank_transfer_one env self from (fst s, snd s) (fst e, snd e) = Inr (fst s', snd s')"
      using assms(5) e inv step by (auto simp: bank_inv_def)
    note tr = bank_transfer_one_Inr [OF this(2,1,3)]
    have "held (fst s') d + bal (fst s) self d \<le> held (fst s) d + bal (fst s') self d" for d
      using tr(2) [of self d] tr(5) [of d] assms(3) by (auto split: if_splits)
    then have "backed self (fst s')" using inv by (blast intro: backed_step)
    moreover have "bank_inv (fst s')" using inv tr(1,3,4) by (simp add: bank_inv_def)
    ultimately show "bank_inv (fst s') \<and> backed self (fst s')" by simp
  qed (use assms(1,2) in simp)
  then show ?thesis by simp
qed

lemma bank_step_backed:
  "bank_step self seizes st st' \<Longrightarrow> \<not> seizes \<Longrightarrow> bank_inv st \<Longrightarrow> backed self st \<Longrightarrow> backed self st'"
  by (induction rule: bank_step.induct)
    (auto simp: bank_execute_entry_def result_iff intro: bank_execute_msg_backed bank_execute_backed)

text \<open>The runs of the contract; a careful run has no step that seizes the bank's own coins.\<close>

inductive bank_run :: "addr \<Rightarrow> bool \<Rightarrow> bank_state \<Rightarrow> bank_state \<Rightarrow> bool" for self careful where
  bank_run_start: "bank_run self careful st st"
| bank_run_step:
    "bank_run self careful st st1 \<Longrightarrow> bank_step self seizes st1 st2 \<Longrightarrow>
     \<not> (careful \<and> seizes) \<Longrightarrow> bank_run self careful st st2"

lemma bank_run_inv: "bank_run self careful st st' \<Longrightarrow> bank_inv st \<Longrightarrow> bank_inv st'"
  by (induction rule: bank_run.induct) (auto intro: bank_step_inv)

lemma bank_run_backed:
  "bank_run self careful st st' \<Longrightarrow> careful \<Longrightarrow> bank_inv st \<Longrightarrow> backed self st \<Longrightarrow>
   bank_inv st' \<and> backed self st'"
  by (induction rule: bank_run.induct) (auto intro: bank_step_inv bank_step_backed)

subsection \<open>Genesis\<close>

definition genesis_ok :: "bank_init \<Rightarrow> bool" where
  "genesis_ok msg \<longleftrightarrow> om_ok (bi_balances msg) \<and> (\<forall>e \<in> set (bi_balances msg). coins_ok (snd e))"

definition genesis_step ::
    "addr \<Rightarrow> (addr \<times> denom, u128) omap \<times> (denom, u128) omap \<Rightarrow> coin \<Rightarrow>
     ((addr \<times> denom, u128) omap \<times> (denom, u128) omap) res" where
  "genesis_step address = (\<lambda>(balances, supplies) c.
     let balances' = om_insert (address, c_denom c) (c_amount c) balances
     in (case map_of supplies (c_denom c) of
           Some supply \<Rightarrow>
             and_then (checked_add supply (c_amount c)) (\<lambda>supply'.
               Inr (balances', om_insert (c_denom c) supply' supplies))
         | None \<Rightarrow> Inr (balances', om_insert (c_denom c) (c_amount c) supplies)))"

definition genesis_inv :: "(addr \<times> denom, u128) omap \<times> (denom, u128) omap \<Rightarrow> bool" where
  "genesis_inv = (\<lambda>(balances, supplies). om_ok balances \<and> om_ok supplies \<and>
     (\<forall>d. om_amount supplies d = om_sum (\<lambda>k v. if snd k = d then unat v else 0) balances))"

lemma genesis_step_inv:
  assumes "genesis_inv s" and "map_of (fst s) (a, c_denom c) = None" and "genesis_step a s c = Inr s'"
  shows "genesis_inv s'" and "fst s' = om_insert (a, c_denom c) (c_amount c) (fst s)"
proof -
  obtain balances supplies where s: "s = (balances, supplies)" by (cases s)
  from assms(1) have ok: "om_ok balances" "om_ok supplies"
    and eq: "\<And>d. om_amount supplies d = om_sum (\<lambda>k v. if snd k = d then unat v else 0) balances"
    by (auto simp: genesis_inv_def s)
  show b: "fst s' = om_insert (a, c_denom c) (c_amount c) (fst s)"
    using assms(3) by (auto simp: genesis_step_def s Let_def result_iff split: option.splits)
  have "om_sum (\<lambda>k v. if snd k = d then unat v else 0) (om_insert (a, c_denom c) (c_amount c) balances)
      = om_amount supplies d + (if c_denom c = d then unat (c_amount c) else 0)" for d
    using om_sum_insert [OF ok(1), of "\<lambda>k v. if snd k = d then unat v else 0" "(a, c_denom c)" "c_amount c"]
      assms(2) eq by (simp add: s)
  moreover have "om_ok (snd s') \<and>
      om_amount (snd s') d = om_amount supplies d + (if c_denom c = d then unat (c_amount c) else 0)" for d
    using assms(3) ok(2) by (auto simp: genesis_step_def s Let_def result_iff math_iff om_ok_insert
        om_amount_def map_of_om_insert split: option.splits)
  ultimately show "genesis_inv s'" using b ok(1)
    by (cases s') (simp add: genesis_inv_def s om_ok_insert)
qed

lemma genesis_loop:
  assumes "genesis_inv s" and "distinct (map (\<lambda>(a, c). (a, c_denom c)) xs)"
    and "\<And>a c. (a, c) \<in> set xs \<Longrightarrow> map_of (fst s) (a, c_denom c) = None"
    and "try_fold (\<lambda>s (a, c). genesis_step a s c) s xs = Inr s'"
  shows "genesis_inv s'"
  using assms
proof (induction xs arbitrary: s)
  case Nil
  then show ?case by simp
next
  case (Cons x xs)
  obtain a c where x: "x = (a, c)" by (cases x)
  from Cons.prems(4) obtain t where t: "genesis_step a s c = Inr t"
      "try_fold (\<lambda>s (a, c). genesis_step a s c) t xs = Inr s'"
    by (auto simp: x result_iff)
  note st = genesis_step_inv [OF Cons.prems(1) _ t(1)]
  have none: "map_of (fst s) (a, c_denom c) = None" using Cons.prems(3) by (simp add: x)
  have "map_of (fst t) (a', c_denom c') = None" if "(a', c') \<in> set xs" for a' c'
  proof -
    have "(a', c_denom c') \<noteq> (a, c_denom c)" using Cons.prems(2) that by (force simp: x)
    moreover have "om_ok (fst s)" using Cons.prems(1) by (auto simp: genesis_inv_def)
    ultimately show ?thesis using st(2) [OF none] Cons.prems(3) that by (auto simp: map_of_om_insert)
  qed
  with Cons.IH [OF st(1) [OF none] _ _ t(2)] Cons.prems(2) show ?case by simp
qed

lemma genesis_keys_distinct:
  assumes "om_ok m" and "\<forall>e \<in> set m. coins_ok (snd e)"
  shows "distinct (map (\<lambda>(a, c). (a, c_denom c)) (concat (map (\<lambda>(a, cs). map (Pair a) (coins_iter cs)) m)))"
  using assms
proof (induction m)
  case (Cons e m)
  obtain a cs where e: "e = (a, cs)" by (cases e)
  have "distinct (map fst cs)" using Cons.prems(2) by (simp add: e coins_ok_def om_ok_distinct)
  then have "distinct (map (\<lambda>c. (a, c_denom c)) (coins_iter cs))"
    by (simp add: coins_iter_def comp_def case_prod_unfold distinct_map inj_on_def)
  moreover have "a \<notin> fst ` set m" using Cons.prems(1) by (force simp: e om_ok_Cons)
  ultimately show ?case using Cons by (auto simp: e om_ok_Cons comp_def)
qed simp

lemma bank_instantiate_inv:
  assumes "genesis_ok msg" and "bank_instantiate msg = Inr st"
  shows "bank_inv st" and "backed self st"
proof -
  have step: "(\<lambda>(balances, supplies) (address, cs).
          try_fold (\<lambda>(balances, supplies) c.
            let balances' = om_insert (address, c_denom c) (c_amount c) balances
            in (case map_of supplies (c_denom c) of
                  Some supply \<Rightarrow>
                    and_then (checked_add supply (c_amount c)) (\<lambda>supply'.
                      Inr (balances', om_insert (c_denom c) supply' supplies))
                | None \<Rightarrow> Inr (balances', om_insert (c_denom c) (c_amount c) supplies)))
            (balances, supplies) (coins_iter cs))
      = (\<lambda>s (a, cs). try_fold (genesis_step a) s (coins_iter cs))"
    by (auto simp: fun_eq_iff genesis_step_def [abs_def])
  obtain s where s: "try_fold (\<lambda>s (a, cs). try_fold (genesis_step a) s (coins_iter cs)) ([], [])
      (bi_balances msg) = Inr s"
    and st: "b_balances st = fst s" "b_supplies st = snd s" "b_orphaned st = []"
    using assms(2) unfolding bank_instantiate_def step by (auto simp: result_iff)
  have "genesis_inv ([], [])" by (simp add: genesis_inv_def om_amount_def)
  from genesis_loop [OF this _ _ s [unfolded try_fold_nested]] have "genesis_inv s"
    using assms(1) by (simp add: genesis_ok_def genesis_keys_distinct)
  then show "bank_inv st"
    by (auto simp: bank_inv_def bank_wf_def genesis_inv_def st supply_of_def book_def)
  show "backed self st" by (simp add: backed_def held_def st)
qed

subsection \<open>Recovering never fails\<close>

lemma bal_le_book: "om_ok (b_balances st) \<Longrightarrow> bal st a d \<le> book st d"
  using om.weight_le_total [of "b_balances st" "\<lambda>k v. if snd k = d then unat v else 0" "(a, d)"]
  by (auto simp: bal_def book_def om_amount_def split: option.splits)

lemma om_amount_less: "om_amount m k < 2 ^ 128"
  unfolding om_amount_def using unsigned_less [of "case map_of m k of None \<Rightarrow> 0 :: u128 | Some v \<Rightarrow> v"]
  by simp

lemma decrease_balance_ok:
  assumes "unat x \<le> bal st a d"
  shows "\<exists>st'. decrease_balance st a d x = Inr st'"
  using assms by (auto simp: decrease_balance_def may_modify_def bal_def om_amount_def checked_sub_def
      word_le_nat_alt split: option.splits)

lemma increase_balance_ok:
  assumes "bal st a d + unat x < 2 ^ 128"
  shows "\<exists>st'. increase_balance st a d x = Inr st'"
  using assms by (auto simp: increase_balance_def may_modify_def bal_def om_amount_def checked_add_def
      max_value_def split: option.splits)

lemma move_coins_ok:
  assumes "om_ok (b_balances st)" and "\<And>d. book st d < 2 ^ 128"
    and "\<And>d. (\<Sum>c\<leftarrow>xs. if c_denom c = d then unat (c_amount c) else 0) \<le> bal st a d"
  shows "\<exists>st'. try_fold (\<lambda>st c.
       and_then (decrease_balance st a (c_denom c) (c_amount c)) (\<lambda>st'.
         increase_balance st' b (c_denom c) (c_amount c))) st xs = Inr st'"
  using assms
proof (induction xs arbitrary: st)
  case Nil
  then show ?case by simp
next
  case (Cons c xs)
  obtain st1 where st1: "decrease_balance st a (c_denom c) (c_amount c) = Inr st1"
    using Cons.prems(3) [of "c_denom c"] decrease_balance_ok [of "c_amount c" st a "c_denom c"] by auto
  note dec = decrease_balance_credit [OF Cons.prems(1) st1]
  have "bal st1 b (c_denom c) + unat (c_amount c) \<le> book st (c_denom c)"
    using bal_le_book [OF dec(2), of b "c_denom c"] dec(1) by (simp add: credit_def)
  then obtain st2 where st2: "increase_balance st1 b (c_denom c) (c_amount c) = Inr st2"
    using increase_balance_ok Cons.prems(2) by (meson le_less_trans)
  have m: "moved st st2 a b (\<lambda>d. if d = c_denom c then unat (c_amount c) else 0)"
    using Cons.prems(1) st1 st2 by (rule move_one)
  have le: "(\<Sum>c\<leftarrow>xs. if c_denom c = d then unat (c_amount c) else 0) \<le> bal st2 a d" for d
  proof -
    have "bal st a d \<le> bal st2 a d + (if c_denom c = d then unat (c_amount c) else 0)"
      using moved_le(1) [OF m, of a d] by (simp add: eq_commute [of d])
    with Cons.prems(3) [of d] show ?thesis by simp
  qed
  from m Cons.prems(2) have "om_ok (b_balances st2)" "\<And>d. book st2 d < 2 ^ 128"
    by (simp_all add: moved_def)
  from Cons.IH [OF this le] st1 st2 show ?case by simp
qed

lemma recover_transfer_ok:
  assumes "bank_inv st" and "backed (ctx_contract cx) st"
    and "ctx_sender cx = s \<or> ctx_sender cx = r"
    and "map_of (b_orphaned st) (s, r) = Some cs"
  shows "\<exists>st' evs. recover_transfer cx st s r = Inr (st', evs)"
proof -
  define st1 where "st1 = st\<lparr>b_orphaned := om_remove (s, r) (b_orphaned st)\<rparr>"
  have wf: "bank_wf st" using assms(1) by (simp add: bank_inv_def)
  note ro = remove_orphan [OF wf assms(4) st1_def]
  have eq: "bal st1 = bal st" "book st1 = book st"
    by (rule amounts_cong, simp add: st1_def)+
  have "unat (amount_of cs d) \<le> bal st1 (ctx_contract cx) d" for d
    using ro(2) [of d] assms(2) by (simp add: backed_def eq) (metis add_leD2)
  moreover have "book st1 d < 2 ^ 128" for d
    using assms(1) om_amount_less [of "b_supplies st" d] by (simp add: bank_inv_def eq supply_of_def)
  ultimately obtain st2 where "move_coins (ctx_contract cx) (ctx_sender cx) cs st1 = Inr st2"
    using move_coins_ok [of st1 "coins_iter cs" "ctx_contract cx" "ctx_sender cx"] ro(1,3)
    by (auto simp: move_coins_def sum_coins_iter coins_ok_def bank_wf_def)
  with assms(3,4) show ?thesis by (auto simp: recover_transfer_def st1_def)
qed

subsection \<open>Namespace owners\<close>

lemma frame_owners: "frame st st' \<Longrightarrow> b_namespace_owners st' = b_namespace_owners st"
  by (simp add: frame_def)

lemma bank_execute_msg_owners:
  assumes "bank_inv st" and "om_ok (b_namespace_owners st)" and "msg_coins_ok msg"
    and "bank_execute_msg env cx st msg = Inr (st', evs)"
  shows "om_ok (b_namespace_owners st') \<and>
    (\<forall>p a. map_of (b_namespace_owners st) p = Some a \<longrightarrow> map_of (b_namespace_owners st') p = Some a)"
proof (cases msg)
  case (SetNamespaceOwner p a)
  with assms show ?thesis
    by (auto simp: set_namespace_owner_def result_iff om_ok_insert map_of_om_insert split: option.splits)
next
  case (SetMetadata d m)
  with assms show ?thesis by (auto simp: set_metadata_def result_iff)
next
  case (Mint to cs)
  then obtain st1 where st1: "(if be_exists env to then Inr st else add_orphan (ctx_sender cx) to cs st) = Inr st1"
    and loop: "try_fold (\<lambda>st c.
             and_then (ensure_namespace_owner env cx st (c_denom c)) (\<lambda>_.
             and_then (increase_supply st (c_denom c) (c_amount c)) (\<lambda>st'.
               increase_balance st' (if be_exists env to then to else ctx_contract cx)
                 (c_denom c) (c_amount c)))) st1 (coins_iter cs) = Inr st'"
    using assms(4) by (auto simp: mint_coins_def Let_def result_iff split: if_splits)
  have "bank_wf st" "om_ok cs" using assms(1,3) Mint by (auto simp: bank_inv_def coins_okD)
  then have "bank_wf st1 \<and> b_namespace_owners st1 = b_namespace_owners st"
    using st1 add_orphan_Inr(1,4) [of st cs "ctx_sender cx" to st1] by (auto split: if_splits)
  with mint_list [OF _ loop] assms(2) show ?thesis by (simp add: issued_def frame_def)
next
  case (Burn a cs)
  with assms burn_coins_Inr(2) [of st cs env cx a st' evs] show ?thesis
    by (simp add: bank_inv_def issued_def frame_def)
next
  case (ForceTransfer a b cs)
  with assms have "moved st st' a b (\<lambda>d. unat (amount_of cs d))"
    by (auto simp: force_transfer_def result_iff bank_inv_def intro: move_coins_Inr)
  with assms(2) show ?thesis by (simp add: moved_def frame_def)
next
  case (RecoverTransfer s r)
  show ?thesis
  proof (cases "map_of (b_orphaned st) (s, r)")
    case None
    with RecoverTransfer assms show ?thesis by (auto simp: recover_transfer_def result_iff)
  next
    case (Some cs)
    with RecoverTransfer assms obtain st1
      where "st1 = st\<lparr>b_orphaned := om_remove (s, r) (b_orphaned st)\<rparr>"
        "moved st1 st' (ctx_contract cx) (ctx_sender cx) (\<lambda>d. unat (amount_of cs d))"
      by (auto simp: bank_inv_def elim: recover_transfer_Inr)
    with assms(2) show ?thesis by (simp add: moved_def frame_def)
  qed
qed

lemma bank_execute_owners:
  assumes "bank_inv st" and "bank_execute env self st from transfers = Inr (st', evs)"
    and "\<forall>e \<in> set transfers. coins_ok (snd e)"
  shows "b_namespace_owners st' = b_namespace_owners st"
proof -
  let ?I = "\<lambda>s. bank_inv (fst s) \<and> b_namespace_owners (fst s) = b_namespace_owners st"
  have "?I (st', evs)"
    using _ _ assms(2) [unfolded bank_execute_def]
  proof (rule try_fold_invariant [where I = ?I])
    fix s e s'
    assume e: "e \<in> set transfers" "?I s" "bank_transfer_one env self from s e = Inr s'"
    obtain to cs where e': "e = (to, cs)" by (cases e)
    from e assms(3) have ok: "coins_ok cs" and s: "bank_inv (fst s)" "b_namespace_owners (fst s) = b_namespace_owners st"
      and tr: "bank_transfer_one env self from (fst s, snd s) (to, cs) = Inr (fst s', snd s')"
      by (auto simp: e')
    have "b_namespace_owners (fst s') = b_namespace_owners (fst s)"
      using bank_transfer_one_Inr(7) [OF _ ok tr] s(1) by (simp add: bank_inv_def)
    with bank_transfer_one_inv [OF s(1) ok tr] s(2) show "?I s'" by simp
  qed (use assms(1) in simp)
  then show ?thesis by simp
qed

lemma bank_step_owners:
  "bank_step self seizes st st' \<Longrightarrow> bank_inv st \<Longrightarrow> om_ok (b_namespace_owners st) \<Longrightarrow>
   om_ok (b_namespace_owners st') \<and>
   (\<forall>p a. map_of (b_namespace_owners st) p = Some a \<longrightarrow> map_of (b_namespace_owners st') p = Some a)"
proof (induction rule: bank_step.induct)
  case (bank_message env cx st msg st' evs seizes)
  then show ?case
    by (intro bank_execute_msg_owners [of st msg env cx st' evs]) (auto simp: bank_execute_entry_def result_iff)
next
  case (bank_transfer env st "from" transfers st' evs seizes)
  then show ?case using bank_execute_owners by simp
qed

lemma bank_run_owners:
  "bank_run self careful st st' \<Longrightarrow> bank_inv st \<Longrightarrow> om_ok (b_namespace_owners st) \<Longrightarrow>
   bank_inv st' \<and> om_ok (b_namespace_owners st') \<and>
   (\<forall>p a. map_of (b_namespace_owners st) p = Some a \<longrightarrow> map_of (b_namespace_owners st') p = Some a)"
  by (induction rule: bank_run.induct) (auto dest: bank_step_owners intro: bank_step_inv)

subsection \<open>Properties of the bank\<close>

abbreviation balance_of :: "bank_state \<Rightarrow> addr \<Rightarrow> denom \<Rightarrow> nat" where
  "balance_of st a d \<equiv> unat (c_amount (query_balance st a d))"

abbreviation total_supply :: "bank_state \<Rightarrow> denom \<Rightarrow> nat" where
  "total_supply st d \<equiv> unat (c_amount (query_supply st d))"

lemma balance_of_bal: "balance_of st a d = bal st a d"
  by (simp add: query_balance_def bal_def om_amount_def)

lemma total_supply_supply_of: "total_supply st d = supply_of st d"
  by (simp add: query_supply_def supply_of_def om_amount_def)

lemmas bank_eval =
  bank_execute_def bank_transfer_one_def move_coins_def add_orphan_def increase_balance_def
  decrease_balance_def increase_supply_def decrease_supply_def ensure_namespace_owner_def
  may_modify_def may_update_def coins_iter_def Let_def checked_add_def checked_sub_def om_set_def
  om_remove_def coins_insert_many_def coins_insert_def is_zero_def is_non_zero_def coins_new_def
  mk_coin_def mint_coins_def denom_namespace_def recover_transfer_def bank_instantiate_def

text \<open>C6: After genesis and any run of messages and transfers, by anyone, in any order and number, the
  supply the bank reports for a denom is exactly the sum of all the balances in that denom.\<close>

theorem bank_supply_is_sum_of_balances:
  assumes "genesis_ok msg" and "bank_instantiate msg = Inr st0" and "bank_run self careful st0 st"
  shows "total_supply st d = (\<Sum>(k, v)\<leftarrow>b_balances st. if snd k = d then unat v else 0)"
  using bank_run_inv [OF assms(3) bank_instantiate_inv(1) [OF assms(1,2)]]
  by (simp add: total_supply_supply_of bank_inv_def book_def om_sum_def)

lemma bank_supply_is_sum_of_balances_witness:
  "\<exists>st0 st. bank_instantiate \<lparr>bi_balances = [(1, [([''a''], 100)])], bi_namespaces = [],
       bi_metadatas = []\<rparr> = Inr st0 \<and> bank_run 9 False st0 st \<and> b_orphaned st \<noteq> [] \<and>
     total_supply st [''a''] = (\<Sum>(k, v)\<leftarrow>b_balances st. if snd k = [''a''] then unat v else 0)"
proof -
  let ?ini = "\<lparr>b_namespace_owners = [], b_metadatas = [], b_supplies = [([''a''], 100)],
    b_balances = [((1, [''a'']), 100)], b_orphaned = []\<rparr>"
  let ?st = "\<lparr>b_namespace_owners = [], b_metadatas = [], b_supplies = [([''a''], 100)],
    b_balances = [((1, [''a'']), 50), ((2, [''a'']), 30), ((9, [''a'']), 20)],
    b_orphaned = [((1, 7), [([''a''], 20)])]\<rparr>"
  let ?msg = "\<lparr>bi_balances = [(1, [([''a''], 100)])], bi_namespaces = [], bi_metadatas = []\<rparr>"
  let ?env = "\<lparr>be_owner = Inr 1, be_taxman = Inr 2, be_exists = (\<lambda>a. a \<noteq> 7)\<rparr>"
  have ok: "genesis_ok ?msg" by (simp add: genesis_ok_def coins_ok_def om_ok_def)
  have init: "bank_instantiate ?msg = Inr ?ini" by code_simp
  have "bank_execute ?env 9 ?ini 1 [(2, [([''a''], 30)]), (7, [([''a''], 20)])] =
      Inr (?st, [Sent 1 2 [([''a''], 30)], Received 2 1 [([''a''], 30)],
        TransferOrphaned 1 7 [([''a''], 20)], Sent 1 9 [([''a''], 20)], Received 9 1 [([''a''], 20)]])"
    by (simp add: bank_eval)
  then have "bank_step 9 False ?ini ?st"
    by (rule bank_transfer) (simp_all add: coins_ok_def om_ok_def)
  then have run: "bank_run 9 False ?ini ?st" by (rule bank_run_step [OF bank_run_start]) simp
  with init bank_supply_is_sum_of_balances [OF ok init run, of "[''a'']"] show ?thesis
    by (intro exI [of _ ?ini] exI [of _ ?st]) simp
qed

text \<open>C36: In every state reached from genesis by a run in which nobody burns or force-transfers the
  bank's own coins, the sender or the recipient of an orphaned transfer can always recover it: the
  call succeeds, the entry is gone, and exactly its coins move from the bank to the caller.\<close>

theorem bank_orphaned_transfer_recoverable:
  assumes "genesis_ok msg" and "bank_instantiate msg = Inr st0"
    and "bank_run (ctx_contract cx) True st0 st"
    and "map_of (b_orphaned st) (s, r) = Some cs"
    and "ctx_sender cx = s \<or> ctx_sender cx = r"
  shows "\<exists>st' evs. recover_transfer cx st s r = Inr (st', evs) \<and>
    map_of (b_orphaned st') (s, r) = None \<and>
    (\<forall>x d. balance_of st' x d + (if x = ctx_contract cx then unat (amount_of cs d) else 0) =
      balance_of st x d + (if x = ctx_sender cx then unat (amount_of cs d) else 0))"
proof -
  have inv: "bank_inv st" "backed (ctx_contract cx) st"
    using bank_run_backed [OF assms(3)] bank_instantiate_inv [OF assms(1,2)] by simp_all
  then obtain st' evs where st': "recover_transfer cx st s r = Inr (st', evs)"
    using recover_transfer_ok assms(4,5) by blast
  from inv(1) have "bank_wf st" by (simp add: bank_inv_def)
  from recover_transfer_Inr [OF this st' assms(4)] obtain st1
    where st1: "st1 = st\<lparr>b_orphaned := om_remove (s, r) (b_orphaned st)\<rparr>"
      "moved st1 st' (ctx_contract cx) (ctx_sender cx) (\<lambda>d. unat (amount_of cs d))"
    by metis
  have "bal st1 = bal st" by (rule amounts_cong) (simp add: st1(1))
  with st1 have "\<forall>x d. bal st' x d + (if x = ctx_contract cx then unat (amount_of cs d) else 0) =
      bal st x d + (if x = ctx_sender cx then unat (amount_of cs d) else 0)"
    by (simp add: moved_def)
  moreover have "map_of (b_orphaned st') (s, r) = None"
    using st1 by (simp add: moved_def frame_def map_of_om_remove)
  ultimately show ?thesis using st' by (simp add: balance_of_bal)
qed

lemma bank_orphaned_transfer_recoverable_witness:
  "\<exists>st st'. map_of (b_orphaned st) (1, 7) = Some [([''a''], 20)] \<and>
     (\<exists>evs. recover_transfer \<lparr>ctx_contract = 9, ctx_sender = 7, ctx_funds = [], ctx_time = 0,
       ctx_height = 0\<rparr> st 1 7 = Inr (st', evs)) \<and> map_of (b_orphaned st') (1, 7) = None"
proof -
  let ?ini = "\<lparr>b_namespace_owners = [], b_metadatas = [], b_supplies = [([''a''], 100)],
    b_balances = [((1, [''a'']), 100)], b_orphaned = []\<rparr>"
  let ?st = "\<lparr>b_namespace_owners = [], b_metadatas = [], b_supplies = [([''a''], 100)],
    b_balances = [((1, [''a'']), 80), ((9, [''a'']), 20)],
    b_orphaned = [((1, 7), [([''a''], 20)])]\<rparr>"
  let ?msg = "\<lparr>bi_balances = [(1, [([''a''], 100)])], bi_namespaces = [], bi_metadatas = []\<rparr>"
  let ?env = "\<lparr>be_owner = Inr 1, be_taxman = Inr 2, be_exists = (\<lambda>a. a \<noteq> 7)\<rparr>"
  let ?cx = "\<lparr>ctx_contract = 9, ctx_sender = 7, ctx_funds = [], ctx_time = 0, ctx_height = 0\<rparr>"
  have ok: "genesis_ok ?msg" by (simp add: genesis_ok_def coins_ok_def om_ok_def)
  have init: "bank_instantiate ?msg = Inr ?ini" by code_simp
  have "bank_execute ?env 9 ?ini 1 [(7, [([''a''], 20)])] =
      Inr (?st, [TransferOrphaned 1 7 [([''a''], 20)], Sent 1 9 [([''a''], 20)], Received 9 1 [([''a''], 20)]])"
    by (simp add: bank_eval)
  then have "bank_step 9 False ?ini ?st"
    by (rule bank_transfer) (simp_all add: coins_ok_def om_ok_def)
  then have "bank_run (ctx_contract ?cx) True ?ini ?st"
    by (intro bank_run_step [OF bank_run_start, of _ False]) simp_all
  from bank_orphaned_transfer_recoverable [OF ok init this, of 1 7 "[([''a''], 20)]"]
  obtain st' where "(\<exists>evs. recover_transfer ?cx ?st 1 7 = Inr (st', evs)) \<and>
      map_of (b_orphaned st') (1, 7) = None"
    by auto
  then show ?thesis by (intro exI [of _ ?st] exI [of _ st']) simp
qed

definition receives :: "bank_env \<Rightarrow> addr \<Rightarrow> addr \<Rightarrow> addr" where
  "receives env self to = (if be_exists env to then to else self)"

lemma bank_execute_list:
  assumes "bank_inv st" and "try_fold (bank_transfer_one env self from) (st, evs) transfers = Inr (st', evs')"
    and "\<forall>e \<in> set transfers. coins_ok (snd e)"
  shows "bal st' x d + (if x = from then (\<Sum>(to, cs)\<leftarrow>transfers. unat (amount_of cs d)) else 0)
      = bal st x d + (\<Sum>(to, cs)\<leftarrow>transfers. if x = receives env self to then unat (amount_of cs d) else 0)
    \<and> orphan_amount st' from q d = orphan_amount st from q d +
      (\<Sum>(to, cs)\<leftarrow>transfers. if to = q \<and> \<not> be_exists env q then unat (amount_of cs d) else 0)"
  using assms
proof (induction transfers arbitrary: st evs)
  case Nil
  then show ?case by simp
next
  case (Cons e transfers)
  obtain to cs where e: "e = (to, cs)" by (cases e)
  from Cons.prems(2) obtain st1 evs1 where st1: "bank_transfer_one env self from (st, evs) (to, cs) = Inr (st1, evs1)"
    and rest: "try_fold (bank_transfer_one env self from) (st1, evs1) transfers = Inr (st', evs')"
    by (auto simp: e result_iff)
  have ok: "coins_ok cs" "\<forall>e \<in> set transfers. coins_ok (snd e)" and wf: "bank_wf st"
    using Cons.prems(1,3) by (auto simp: e bank_inv_def)
  note one = bank_transfer_one_Inr [OF wf ok(1) st1]
  note ih = Cons.IH [OF bank_transfer_one_inv [OF Cons.prems(1) ok(1) st1] rest ok(2)]
  show ?case
    using one(2) [of x d] one(6) [of "from" q d] ih by (auto simp: e receives_def split: if_splits)
qed

text \<open>A transfer message of the chain changes balances exactly as it says: the sender loses the
  sum of what it sends, every recipient that exists gains what is addressed to it, the bank gains
  what is addressed to accounts that do not exist, every other account keeps its balance, and what is
  owed to each missing recipient grows by what was addressed to it.\<close>

lemma bank_execute_transfers_exactly:
  assumes "bank_inv st" and "bank_execute env self st from transfers = Inr (st', evs)"
    and "\<forall>e \<in> set transfers. coins_ok (snd e)"
  shows "balance_of st' x d + (if x = from then (\<Sum>(to, cs)\<leftarrow>transfers. unat (amount_of cs d)) else 0)
      = balance_of st x d
        + (\<Sum>(to, cs)\<leftarrow>transfers. if x = receives env self to then unat (amount_of cs d) else 0)
    \<and> total_supply st' d = total_supply st d
    \<and> unat (amount_of (query_orphaned_transfer st' from q) d) =
      unat (amount_of (query_orphaned_transfer st from q) d)
        + (\<Sum>(to, cs)\<leftarrow>transfers. if to = q \<and> \<not> be_exists env q then unat (amount_of cs d) else 0)"
proof -
  have "supply_of st' d = supply_of st d"
  proof -
    have "bank_inv (fst (st', evs)) \<and> supply_of (fst (st', evs)) d = supply_of st d"
      using _ _ assms(2) [unfolded bank_execute_def]
    proof (rule try_fold_invariant [where I = "\<lambda>s. bank_inv (fst s) \<and> supply_of (fst s) d = supply_of st d"])
      fix s e s'
      assume e: "e \<in> set transfers" "bank_inv (fst s) \<and> supply_of (fst s) d = supply_of st d"
        "bank_transfer_one env self from s e = Inr s'"
      then have "bank_inv (fst s)" "coins_ok (snd e)"
        "bank_transfer_one env self from (fst s, snd s) (fst e, snd e) = Inr (fst s', snd s')"
        using assms(3) by auto
      then show "bank_inv (fst s') \<and> supply_of (fst s') d = supply_of st d"
        using bank_transfer_one_inv bank_transfer_one_Inr(3) e(2) by (metis bank_inv_def)
    qed (use assms(1) in simp)
    then show ?thesis by simp
  qed
  with bank_execute_list [OF assms(1) assms(2) [unfolded bank_execute_def] assms(3)]
  show ?thesis by (simp add: balance_of_bal total_supply_supply_of orphan_amount_def)
qed

lemma bank_execute_transfers_exactly_witness:
  "\<exists>st st' evs. bank_execute \<lparr>be_owner = Inr 1, be_taxman = Inr 2, be_exists = (\<lambda>a. a \<noteq> 7)\<rparr> 9 st 1
      [(2, [([''a''], 30)]), (7, [([''a''], 20)])] = Inr (st', evs) \<and>
    balance_of st' 2 [''a''] = balance_of st 2 [''a''] + 30 \<and>
    balance_of st' 9 [''a''] = balance_of st 9 [''a''] + 20"
proof -
  let ?ini = "\<lparr>b_namespace_owners = [], b_metadatas = [], b_supplies = [([''a''], 100)],
    b_balances = [((1, [''a'']), 100)], b_orphaned = []\<rparr>"
  let ?st = "\<lparr>b_namespace_owners = [], b_metadatas = [], b_supplies = [([''a''], 100)],
    b_balances = [((1, [''a'']), 50), ((2, [''a'']), 30), ((9, [''a'']), 20)],
    b_orphaned = [((1, 7), [([''a''], 20)])]\<rparr>"
  let ?env = "\<lparr>be_owner = Inr 1, be_taxman = Inr 2, be_exists = (\<lambda>a. a \<noteq> 7)\<rparr>"
  let ?ts = "[(2, [([''a''], 30)]), (7, [([''a''], 20)])]"
  have ex: "bank_execute ?env 9 ?ini 1 ?ts =
      Inr (?st, [Sent 1 2 [([''a''], 30)], Received 2 1 [([''a''], 30)],
        TransferOrphaned 1 7 [([''a''], 20)], Sent 1 9 [([''a''], 20)], Received 9 1 [([''a''], 20)]])"
    by (simp add: bank_eval)
  have inv: "bank_inv ?ini"
    by (simp add: bank_inv_def bank_wf_def supply_of_def book_def om_amount_def om_ok_def)
  have ok: "\<forall>e \<in> set ?ts. coins_ok (snd e)" by (simp add: coins_ok_def om_ok_def)
  from bank_execute_transfers_exactly [OF inv ex ok, of 2 "[''a'']" 7]
    bank_execute_transfers_exactly [OF inv ex ok, of 9 "[''a'']" 7] ex
  show ?thesis
    by (intro exI [of _ ?ini] exI [of _ ?st]) (simp add: receives_def amount_of_def)
qed

text \<open>Whoever mints, the call succeeds only if the sender owns the namespace of every denom
  minted (or is the chain owner, for top-level denoms), and then supply and the balance of one
  account rise by exactly the minted coins, everything else staying as it was.\<close>

lemma bank_mint_authorized_and_exact:
  assumes "bank_wf st" and "coins_ok cs" and "mint_coins env cx st to cs = Inr (st', evs)"
  shows "(\<forall>(d', a) \<in> set cs. case denom_namespace d' of
            Some part \<Rightarrow> map_of (b_namespace_owners st) part = Some (ctx_sender cx)
          | None \<Rightarrow> be_owner env = Inr (ctx_sender cx))
    \<and> total_supply st' d = total_supply st d + unat (amount_of cs d)
    \<and> balance_of st' x d = balance_of st x d +
        (if x = receives env (ctx_contract cx) to then unat (amount_of cs d) else 0)"
proof -
  note mc = mint_coins_Inr [OF assms]
  have "case denom_namespace d' of
            Some part \<Rightarrow> map_of (b_namespace_owners st) part = Some (ctx_sender cx)
          | None \<Rightarrow> be_owner env = Inr (ctx_sender cx)" if "(d', a) \<in> set cs" for d' a
  proof -
    have "mk_coin d' a \<in> set (coins_iter cs)" using that by (force simp: coins_iter_def)
    with mc(6) have "ensure_namespace_owner env cx st d' = Inr ()" by force
    then show ?thesis
      by (auto simp: ensure_namespace_owner_def result_iff split: option.splits)
  qed
  then show ?thesis
    using mc(2) [of x d] mc(3) [of d] by (auto simp: balance_of_bal total_supply_supply_of receives_def)
qed

lemma bank_mint_authorized_and_exact_witness:
  "\<exists>st st' evs. mint_coins \<lparr>be_owner = Inr 1, be_taxman = Inr 2, be_exists = (\<lambda>a. True)\<rparr>
      \<lparr>ctx_contract = 9, ctx_sender = 3, ctx_funds = [], ctx_time = 0, ctx_height = 0\<rparr> st 4
      [([''n'', ''a''], 5)] = Inr (st', evs) \<and>
    total_supply st' [''n'', ''a''] = total_supply st [''n'', ''a''] + 5"
proof -
  let ?ini = "\<lparr>b_namespace_owners = [(''n'', 3)], b_metadatas = [], b_supplies = [],
    b_balances = [], b_orphaned = []\<rparr>"
  let ?fin = "\<lparr>b_namespace_owners = [(''n'', 3)], b_metadatas = [], b_supplies = [([''n'', ''a''], 5)],
    b_balances = [((4, [''n'', ''a'']), 5)], b_orphaned = []\<rparr>"
  let ?cx = "\<lparr>ctx_contract = 9, ctx_sender = 3, ctx_funds = [], ctx_time = 0, ctx_height = 0\<rparr>"
  have ex: "mint_coins \<lparr>be_owner = Inr 1, be_taxman = Inr 2, be_exists = (\<lambda>a. True)\<rparr> ?cx ?ini 4
      [([''n'', ''a''], 5)] = Inr (?fin, [Minted 4 3 [([''n'', ''a''], 5)]])"
    by (simp add: bank_eval)
  have "bank_wf ?ini" "coins_ok [([''n'', ''a''], 5)]"
    by (simp_all add: bank_wf_def coins_ok_def om_ok_def)
  from bank_mint_authorized_and_exact [OF this ex, of "[''n'', ''a'']" 4] ex show ?thesis
    by (intro exI [of _ ?ini] exI [of _ ?fin]) (simp add: amount_of_def)
qed

text \<open>Once granted, a namespace keeps its owner for ever: no message or transfer of anyone, not
  even of the chain owner, changes or removes an entry of the namespace owners.\<close>

lemma bank_namespace_owner_permanent:
  assumes "bank_inv st" and "om_ok (b_namespace_owners st)" and "bank_run self careful st st'"
    and "query_namespace_owner st p = Inr a"
  shows "query_namespace_owner st' p = Inr a"
  using bank_run_owners [OF assms(3,1,2)] assms(4) by (simp add: query_namespace_owner_def result_iff)

lemma bank_namespace_owner_permanent_witness:
  "\<exists>st st'. bank_run 9 True st st' \<and> st' \<noteq> st \<and> query_namespace_owner st' ''n'' = Inr 3"
proof -
  let ?ini = "\<lparr>b_namespace_owners = [(''n'', 3)], b_metadatas = [], b_supplies = [],
    b_balances = [], b_orphaned = []\<rparr>"
  let ?fin = "\<lparr>b_namespace_owners = [(''n'', 3)], b_metadatas = [], b_supplies = [([''n'', ''a''], 5)],
    b_balances = [((4, [''n'', ''a'']), 5)], b_orphaned = []\<rparr>"
  let ?cx = "\<lparr>ctx_contract = 9, ctx_sender = 3, ctx_funds = [], ctx_time = 0, ctx_height = 0\<rparr>"
  have "bank_execute_entry \<lparr>be_owner = Inr 1, be_taxman = Inr 2, be_exists = (\<lambda>a. True)\<rparr> ?cx ?ini
      (Mint 4 [([''n'', ''a''], 5)]) = Inr (?fin, [Minted 4 3 [([''n'', ''a''], 5)]])"
    by (simp add: bank_eval bank_execute_entry_def coins_is_empty_def)
  then have "bank_step 9 False ?ini ?fin"
    by (rule bank_message) (simp_all add: coins_ok_def om_ok_def)
  then have run: "bank_run 9 True ?ini ?fin" by (intro bank_run_step [OF bank_run_start, of _ False]) simp_all
  have inv: "bank_inv ?ini" "om_ok (b_namespace_owners ?ini)"
    by (simp_all add: bank_inv_def bank_wf_def supply_of_def book_def om_amount_def om_ok_def)
  have "query_namespace_owner ?ini ''n'' = Inr 3" by (simp add: query_namespace_owner_def om_load_def)
  from bank_namespace_owner_permanent [OF inv run this] run show ?thesis
    by (intro exI [of _ ?ini] exI [of _ ?fin]) simp
qed

text \<open>The event of an orphaned mint does not name the account the coins are for: it names the bank.\<close>

lemma mint_orphan_event_names_bank:
  assumes "\<not> be_exists env to" and "mint_coins env cx st to cs = Inr (st', evs)"
  shows "TransferOrphaned (ctx_sender cx) (ctx_contract cx) cs \<in> set evs"
  using assms by (auto simp: mint_coins_def Let_def result_iff)

end
