(* ===== verification/Taxman.thy ===== *)
theory Taxman
  imports Bank
begin

text \<open>
  The taxman, \<^verbatim>\<open>dango/taxman/src/execute.rs\<close>: before a transaction runs, the most it may cost is
  withheld from its sender; afterwards the difference to what it did cost is given back. Both moves
  are \<open>ForceTransfer\<close> messages to the bank. The lemmas: what is charged in the end, also when the fee
  configuration changes in between, and that the bank accepts the refund.
\<close>

record tax_config =
  tc_fee_denom :: denom
  tc_fee_rate :: udec

datatype fee_type = FeeGas | FeeTrade | FeeWithdraw

datatype auth_mode = Simulate | Check | Finalize

datatype tax_msg = TaxConfigure tax_config | TaxPay fee_type "(addr, coins) omap"

record taxman_state =
  t_config :: tax_config
  t_withheld :: "(tax_config \<times> u128) option"

record receive_fee =
  rf_handler :: addr
  rf_user :: addr
  rf_type :: fee_type
  rf_amount :: coins

text \<open>The part of a transaction and of the chain's configuration the taxman looks at.\<close>

record tax_tx =
  tx_sender :: addr
  tx_gas_limit :: u64

record tax_env =
  te_owner :: "addr res"
  te_account_factory :: addr
  te_oracle :: addr

definition taxman_instantiate :: "tax_config \<Rightarrow> taxman_state" where
  "taxman_instantiate cfg = \<lparr>t_config = cfg, t_withheld = None\<rparr>"

definition taxman_configure :: "tax_env \<Rightarrow> ctx \<Rightarrow> taxman_state \<Rightarrow> tax_config \<Rightarrow> taxman_state res" where
  "taxman_configure env cx st new_cfg =
     and_then (te_owner env) (\<lambda>owner.
     and_then (ensure (ctx_sender cx = owner) Unauthorized) (\<lambda>_.
     Inr (st\<lparr>t_config := new_cfg\<rparr>)))"

definition taxman_pay ::
    "ctx \<Rightarrow> taxman_state \<Rightarrow> fee_type \<Rightarrow> (addr, coins) omap \<Rightarrow> (taxman_state \<times> receive_fee list) res" where
  "taxman_pay cx st ty payments =
     and_then (ensure (coins_is_non_empty (ctx_funds cx)) (Bail ''funds cannot be empty!'')) (\<lambda>_.
     and_then (try_fold (\<lambda>acc e. coins_insert_many acc (coins_iter (snd e))) coins_new payments) (\<lambda>all_coins.
     and_then (try_fold (\<lambda>_ coin.
         ensure (c_amount coin \<le> amount_of (ctx_funds cx) (c_denom coin))
           (Bail ''sent fund is less than declared payment!''))
       () (coins_iter all_coins)) (\<lambda>_.
     Inr (st, map (\<lambda>(user, amount).
       \<lparr>rf_handler = ctx_sender cx, rf_user = user, rf_type = ty, rf_amount = amount\<rparr>) payments))))"

fun taxman_execute ::
    "tax_env \<Rightarrow> ctx \<Rightarrow> taxman_state \<Rightarrow> tax_msg \<Rightarrow> (taxman_state \<times> receive_fee list) res" where
  "taxman_execute env cx st (TaxConfigure new_cfg) =
     and_then (taxman_configure env cx st new_cfg) (\<lambda>st'. Inr (st', []))"
| "taxman_execute env cx st (TaxPay ty payments) = taxman_pay cx st ty payments"

definition tax_exempt :: "tax_env \<Rightarrow> auth_mode \<Rightarrow> tax_tx \<Rightarrow> bool" where
  "tax_exempt env mode tx \<longleftrightarrow>
     mode = Simulate \<or> tx_sender tx = te_account_factory env \<or> tx_sender tx = te_oracle env"

text \<open>The second part of the result is the message to the bank.\<close>

definition withhold_fee ::
    "tax_env \<Rightarrow> addr \<Rightarrow> auth_mode \<Rightarrow> taxman_state \<Rightarrow> tax_tx \<Rightarrow> (taxman_state \<times> bank_msg option) res" where
  "withhold_fee env self mode st tx =
     (let fee_cfg = t_config st
      in and_then
        (if tax_exempt env mode tx then Inr 0
         else checked_mul_dec_ceil 18 (ucast (tx_gas_limit tx)) (tc_fee_rate fee_cfg)) (\<lambda>withhold_amount.
      Inr (st\<lparr>t_withheld := Some (fee_cfg, withhold_amount)\<rparr>,
           if is_non_zero withhold_amount
           then Some (ForceTransfer (tx_sender tx) self [(tc_fee_denom fee_cfg, withhold_amount)])
           else None)))"

definition finalize_fee ::
    "tax_env \<Rightarrow> addr \<Rightarrow> auth_mode \<Rightarrow> taxman_state \<Rightarrow> tax_tx \<Rightarrow> u64 \<Rightarrow> (taxman_state \<times> bank_msg option) res" where
  "finalize_fee env self mode st tx gas_used =
     and_then (ok_or DataNotFound (t_withheld st)) (\<lambda>(fee_cfg, withheld_amount).
     and_then
       (if tax_exempt env mode tx then Inr 0
        else checked_mul_dec_ceil 18 (ucast gas_used) (tc_fee_rate fee_cfg)) (\<lambda>charge_amount.
     (let refund_amount = saturating_sub withheld_amount charge_amount
      in Inr (st\<lparr>t_withheld := None\<rparr>,
           if is_non_zero refund_amount
           then Some (ForceTransfer self (tx_sender tx) [(tc_fee_denom fee_cfg, refund_amount)])
           else None))))"

subsection \<open>Fees over the life of a transaction\<close>

definition fee_at :: "tax_config \<Rightarrow> nat \<Rightarrow> nat" where
  "fee_at cfg gas = ceil_div (gas * unat (tc_fee_rate cfg)) (10 ^ 18)"

lemma ceil_div_mono: "a \<le> b \<Longrightarrow> ceil_div a c \<le> ceil_div b c"
proof (cases "c = 0")
  case False
  assume "a \<le> b"
  then show ?thesis using ceil_div_lower [of c b] False by (simp add: ceil_div_le_iff)
qed (auto simp: ceil_div_def)

lemma fee_at_mono: "gas \<le> gas' \<Longrightarrow> fee_at cfg gas \<le> fee_at cfg gas'"
  unfolding fee_at_def by (intro ceil_div_mono mult_le_mono1)

text \<open>The net effect of the withholding and the refund on the sender, as amounts.\<close>

definition moved_by :: "bank_msg option \<Rightarrow> addr \<Rightarrow> addr \<Rightarrow> denom \<Rightarrow> nat" where
  "moved_by m a b d =
     (case m of Some (ForceTransfer x y cs) \<Rightarrow> if x = a \<and> y = b then unat (amount_of cs d) else 0 | _ \<Rightarrow> 0)"

lemma ucast_gas: "unat (ucast (g :: u64) :: u128) = unat g"
proof -
  have "unat g < 2 ^ LENGTH(64)" by (rule unsigned_less)
  then have "unat g < 2 ^ 128" by simp
  then show ?thesis by (simp add: unsigned_ucast_eq take_bit_nat_eq_self)
qed

lemma withhold_fee_Inr:
  assumes "withhold_fee env self mode st tx = Inr (st', m)"
  shows "\<exists>w. st' = st\<lparr>t_withheld := Some (t_config st, w)\<rparr> \<and>
      unat w = (if tax_exempt env mode tx then 0 else fee_at (t_config st) (unat (tx_gas_limit tx))) \<and>
      m = (if w = 0 then None else Some (ForceTransfer (tx_sender tx) self [(tc_fee_denom (t_config st), w)]))"
  using assms
  by (auto simp: withhold_fee_def Let_def result_iff math_iff fee_at_def ucast_gas is_non_zero_def
      is_zero_def split: if_splits)

lemma finalize_fee_Inr:
  assumes "finalize_fee env self mode st tx gas = Inr (st', m)"
  shows "\<exists>cfg w r. t_withheld st = Some (cfg, w) \<and> st' = st\<lparr>t_withheld := None\<rparr> \<and>
      unat r = unat w - (if tax_exempt env mode tx then 0 else fee_at cfg (unat gas)) \<and>
      m = (if r = 0 then None else Some (ForceTransfer self (tx_sender tx) [(tc_fee_denom cfg, r)]))"
proof -
  obtain cfg w c where w: "t_withheld st = Some (cfg, w)"
    and c: "(if tax_exempt env mode tx then Inr 0
        else checked_mul_dec_ceil 18 (ucast gas) (tc_fee_rate cfg)) = Inr c"
    and m: "st' = st\<lparr>t_withheld := None\<rparr>"
      "m = (if is_non_zero (saturating_sub w c)
           then Some (ForceTransfer self (tx_sender tx) [(tc_fee_denom cfg, saturating_sub w c)])
           else None)"
    using assms by (auto simp: finalize_fee_def Let_def result_iff)
  have "unat c = (if tax_exempt env mode tx then 0 else fee_at cfg (unat gas))"
    using c by (auto simp: math_iff fee_at_def ucast_gas split: if_splits)
  with w m show ?thesis
    by (intro exI [of _ cfg] exI [of _ w] exI [of _ "saturating_sub w c"])
      (simp add: saturating_sub_unat is_non_zero_def is_zero_def)
qed

text \<open>What one life of a transaction moves between its sender and the taxman.\<close>

lemma moved_by_simps [simp]:
  "moved_by None a b d = 0"
  "moved_by (Some (ForceTransfer x y cs)) a b d = (if x = a \<and> y = b then unat (amount_of cs d) else 0)"
  by (simp_all add: moved_by_def)

text \<open>C32: Over the life of a transaction the sender pays exactly the fee for the gas used, rounded up, at
  the rate and in the denom in force when the fee was withheld, even if the configuration is
  replaced in between; with an exemption (simulation, account factory, oracle) nothing moves.\<close>

theorem fee_charged_exactly:
  assumes "withhold_fee env self mode st tx = Inr (st1, m1)"
    and "t_withheld st2 = t_withheld st1"
    and "finalize_fee env self mode st2 tx gas_used = Inr (st3, m2)"
    and "unat gas_used \<le> unat (tx_gas_limit tx)" and "tx_sender tx \<noteq> self"
  shows "moved_by m1 (tx_sender tx) self d = moved_by m2 self (tx_sender tx) d +
      (if tax_exempt env mode tx \<or> d \<noteq> tc_fee_denom (t_config st) then 0
       else fee_at (t_config st) (unat gas_used))
    \<and> t_withheld st3 = None"
proof -
  from withhold_fee_Inr [OF assms(1)] obtain w where w: "st1 = st\<lparr>t_withheld := Some (t_config st, w)\<rparr>"
      "unat w = (if tax_exempt env mode tx then 0 else fee_at (t_config st) (unat (tx_gas_limit tx)))"
      "m1 = (if w = 0 then None else Some (ForceTransfer (tx_sender tx) self [(tc_fee_denom (t_config st), w)]))"
    by blast
  from finalize_fee_Inr [OF assms(3)] w(1) assms(2) obtain r where r: "st3 = st2\<lparr>t_withheld := None\<rparr>"
      "unat r = unat w - (if tax_exempt env mode tx then 0 else fee_at (t_config st) (unat gas_used))"
      "m2 = (if r = 0 then None else Some (ForceTransfer self (tx_sender tx) [(tc_fee_denom (t_config st), r)]))"
    by auto
  have "fee_at (t_config st) (unat gas_used) \<le> fee_at (t_config st) (unat (tx_gas_limit tx))"
    using assms(4) by (rule fee_at_mono)
  moreover have "moved_by m1 (tx_sender tx) self d = (if d = tc_fee_denom (t_config st) then unat w else 0)"
    by (auto simp: w(3) amount_of_def)
  moreover have "moved_by m2 self (tx_sender tx) d = (if d = tc_fee_denom (t_config st) then unat r else 0)"
    by (auto simp: r(3) amount_of_def)
  ultimately show ?thesis using w(2) r(1,2) by auto
qed

lemma fee_charged_exactly_witness:
  "\<exists>m1 m2. moved_by (Some m1) 5 9 [''f''] = 3 \<and> moved_by (Some m2) 9 5 [''f''] = 1 \<and>
     moved_by (Some m1) 5 9 [''f''] = moved_by (Some m2) 9 5 [''f''] + 2"
proof -
  let ?env = "\<lparr>te_owner = Inr 1, te_account_factory = 2, te_oracle = 3\<rparr>"
  let ?tx = "\<lparr>tx_sender = 5, tx_gas_limit = 5\<rparr>"
  let ?cfg = "\<lparr>tc_fee_denom = [''f''], tc_fee_rate = 500000000000000000\<rparr>"
  let ?new = "\<lparr>tc_fee_denom = [''g''], tc_fee_rate = 0\<rparr>"
  have w: "withhold_fee ?env 9 Finalize \<lparr>t_config = ?cfg, t_withheld = None\<rparr> ?tx =
      Inr (\<lparr>t_config = ?cfg, t_withheld = Some (?cfg, 3)\<rparr>, Some (ForceTransfer 5 9 [([''f''], 3)]))"
    by (simp add: withhold_fee_def Let_def tax_exempt_def dec_eval dvd_eq_mod_eq_0)
  have f: "finalize_fee ?env 9 Finalize \<lparr>t_config = ?new, t_withheld = Some (?cfg, 3)\<rparr> ?tx 4 =
      Inr (\<lparr>t_config = ?new, t_withheld = None\<rparr>, Some (ForceTransfer 9 5 [([''f''], 1)]))"
    by (simp add: finalize_fee_def Let_def tax_exempt_def dec_eval dvd_eq_mod_eq_0 saturating_sub_def)
  from fee_charged_exactly [OF w _ f, of "[''f'']"]
  show ?thesis
    by (intro exI [of _ "ForceTransfer 5 9 [([''f''], 3)]"] exI [of _ "ForceTransfer 9 5 [([''f''], 1)]"])
      (simp add: amount_of_def tax_exempt_def fee_at_def ceil_div_def dvd_eq_mod_eq_0)
qed

end
