(* ===== verification/Xyk.thy ===== *)
theory Xyk
  imports Coins
begin

text \<open>
  The constant-product pool, \<^verbatim>\<open>dango/dex/src/core/xyk.rs\<close>: liquidity, swaps, and the orders that
  reflect the curve onto the order book. The two order iterators of the source are bounded by
  \<open>take(limit)\<close>; here they are recursions on the limit that return the list of the orders. The
  lemmas: a swap of an exact input never shrinks the product of the reserves, a swap of an exact
  output may, and the reflected orders never promise more than the reserve.
\<close>

record xyk_params =
  xyk_spacing :: udec
  xyk_reserve_ratio :: udec
  xyk_limit :: nat

definition initial_lp_token_multiplier :: u128 where
  "initial_lp_token_multiplier = 1000000"

definition normalized_invariant :: "coin_pair \<Rightarrow> u128 res" where
  "normalized_invariant reserve =
     and_then (checked_mul (c_amount (fst reserve)) (c_amount (snd reserve))) checked_sqrt"

definition add_initial_liquidity :: "coin_pair \<Rightarrow> u128 res" where
  "add_initial_liquidity deposit =
     and_then (normalized_invariant deposit) (\<lambda>i. checked_mul i initial_lp_token_multiplier)"

text \<open>The reserve with the deposit added, and the mint ratio.\<close>

definition add_subsequent_liquidity :: "coin_pair \<Rightarrow> coin_pair \<Rightarrow> (coin_pair \<times> udec) res" where
  "add_subsequent_liquidity reserve deposit =
     and_then (normalized_invariant reserve) (\<lambda>invariant_before.
     and_then (coin_pair_merge reserve deposit) (\<lambda>reserve'.
     and_then (normalized_invariant reserve') (\<lambda>invariant_after.
     and_then (checked_from_ratio 24 invariant_after invariant_before) (\<lambda>invariant_ratio.
     and_then (dec_sub 24 24 invariant_ratio (dec_one 24)) (\<lambda>mint_ratio.
       Inr (reserve', mint_ratio))))))"

definition xyk_swap_exact_amount_in :: "u128 \<Rightarrow> u128 \<Rightarrow> u128 \<Rightarrow> udec \<Rightarrow> u128 res" where
  "xyk_swap_exact_amount_in input_reserve output_reserve input_amount fee_rate =
     and_then (checked_add input_reserve input_amount) (\<lambda>input_reserve'.
     and_then (checked_multiply_ratio_ceil input_reserve output_reserve input_reserve') (\<lambda>output_reserve'.
     and_then (checked_sub output_reserve output_reserve') (\<lambda>output_amount_before_fee.
     and_then (unwrap (dec_sub 18 18 (dec_one 18) fee_rate)) (\<lambda>one_sub_fee_rate.
       checked_mul_dec_floor 18 output_amount_before_fee one_sub_fee_rate))))"

definition xyk_swap_exact_amount_out :: "u128 \<Rightarrow> u128 \<Rightarrow> u128 \<Rightarrow> udec \<Rightarrow> u128 res" where
  "xyk_swap_exact_amount_out input_reserve output_reserve output_amount fee_rate =
     and_then (unwrap (dec_sub 18 18 (dec_one 18) fee_rate)) (\<lambda>one_sub_fee_rate.
     and_then (checked_div_dec_ceil 18 output_amount one_sub_fee_rate) (\<lambda>output_amount_before_fee.
     and_then (ensure (output_amount_before_fee < output_reserve) (Bail ''insufficient liquidity'')) (\<lambda>_.
     and_then (checked_mul input_reserve output_reserve) (\<lambda>invariant.
     and_then (checked_sub output_reserve output_amount_before_fee) (\<lambda>output_reserve'.
     and_then (checked_multiply_ratio_floor 1 invariant output_reserve') (\<lambda>input_reserve'.
       checked_sub input_reserve' input_reserve))))))"

subsection \<open>Reflection onto the order book\<close>

text \<open>One call of the bid iterator: amount of the order, total size in base and in quote.\<close>

definition xyk_bid_step :: "u128 \<Rightarrow> u128 \<Rightarrow> udec \<Rightarrow> u128 \<Rightarrow> u128 \<Rightarrow> (u128 \<times> u128 \<times> u128) res" where
  "xyk_bid_step base_reserve quote_reserve price prev_size prev_size_quote =
     and_then (checked_div_dec 24 quote_reserve price) (\<lambda>quote_reserve_div_price.
     and_then (checked_sub quote_reserve_div_price base_reserve) (\<lambda>total_size.
     and_then (checked_sub total_size prev_size) (\<lambda>amount.
     and_then (checked_mul_dec_ceil 24 amount price) (\<lambda>amount_quote.
     and_then (checked_add prev_size_quote amount_quote) (\<lambda>size_quote.
       if quote_reserve < size_quote
       then and_then (checked_sub quote_reserve prev_size_quote) (\<lambda>amount_quote'.
            and_then (checked_div_dec_floor 24 amount_quote' price) (\<lambda>amount'.
            and_then (checked_add prev_size amount') (\<lambda>total_size'.
              Inr (amount', total_size', quote_reserve))))
       else Inr (amount, total_size, size_quote))))))"

fun xyk_bids ::
    "nat \<Rightarrow> u128 \<Rightarrow> u128 \<Rightarrow> udec \<Rightarrow> udec option \<Rightarrow> u128 \<Rightarrow> u128 \<Rightarrow> (udec \<times> u128) list" where
  "xyk_bids 0 base_reserve quote_reserve spacing maybe_price prev_size prev_size_quote = []"
| "xyk_bids (Suc limit) base_reserve quote_reserve spacing maybe_price prev_size prev_size_quote =
     (case maybe_price of
        None \<Rightarrow> []
      | Some price \<Rightarrow>
          if is_non_zero price
          then (case xyk_bid_step base_reserve quote_reserve price prev_size prev_size_quote of
                  Inl _ \<Rightarrow> []
                | Inr (amount, total_size, size_quote) \<Rightarrow>
                    if is_zero amount then []
                    else (price, amount) #
                      xyk_bids limit base_reserve quote_reserve spacing
                        (result_ok (dec_sub 24 18 price spacing)) total_size size_quote)
          else [])"

text \<open>One call of the ask iterator: amount of the order and total size in base.\<close>

definition xyk_ask_step :: "u128 \<Rightarrow> u128 \<Rightarrow> udec \<Rightarrow> u128 \<Rightarrow> (u128 \<times> u128) res" where
  "xyk_ask_step base_reserve quote_reserve price prev_size =
     and_then (checked_div_dec 24 quote_reserve price) (\<lambda>quote_reserve_div_price.
     and_then (checked_sub base_reserve quote_reserve_div_price) (\<lambda>total_size.
     and_then (checked_sub (min total_size base_reserve) prev_size) (\<lambda>amount.
       Inr (amount, min total_size base_reserve))))"

fun xyk_asks :: "nat \<Rightarrow> u128 \<Rightarrow> u128 \<Rightarrow> udec \<Rightarrow> udec option \<Rightarrow> u128 \<Rightarrow> (udec \<times> u128) list" where
  "xyk_asks 0 base_reserve quote_reserve spacing maybe_price prev_size = []"
| "xyk_asks (Suc limit) base_reserve quote_reserve spacing maybe_price prev_size =
     (case maybe_price of
        None \<Rightarrow> []
      | Some price \<Rightarrow>
          (case xyk_ask_step base_reserve quote_reserve price prev_size of
             Inl _ \<Rightarrow> []
           | Inr (amount, total_size) \<Rightarrow>
               if is_zero amount then []
               else (price, amount) #
                 xyk_asks limit base_reserve quote_reserve spacing
                   (result_ok (dec_add 24 18 price spacing)) total_size))"

definition xyk_reflect_curve ::
    "u128 \<Rightarrow> u128 \<Rightarrow> xyk_params \<Rightarrow> udec \<Rightarrow> ((udec \<times> u128) list \<times> (udec \<times> u128) list) res" where
  "xyk_reflect_curve base_reserve quote_reserve params swap_fee_rate =
     and_then (unwrap (dec_sub 18 18 (dec_one 18) (xyk_reserve_ratio params))) (\<lambda>one_sub_reserve_ratio.
     and_then (checked_mul_dec_floor 18 base_reserve one_sub_reserve_ratio) (\<lambda>base_reserve'.
     and_then (checked_mul_dec_floor 18 quote_reserve one_sub_reserve_ratio) (\<lambda>quote_reserve'.
     and_then (checked_from_ratio 24 quote_reserve' base_reserve') (\<lambda>marginal_price.
     and_then (dec_sub 18 18 (dec_one 18) swap_fee_rate) (\<lambda>one_sub_fee_rate.
     and_then (dec_add 18 18 (dec_one 18) swap_fee_rate) (\<lambda>one_plus_fee_rate.
       Inr (xyk_bids (xyk_limit params) base_reserve' quote_reserve' (xyk_spacing params)
              (result_ok (dec_mul 18 marginal_price one_sub_fee_rate)) 0 0,
            xyk_asks (xyk_limit params) base_reserve' quote_reserve' (xyk_spacing params)
              (result_ok (dec_mul 18 marginal_price one_plus_fee_rate)) 0)))))))"

subsection \<open>Swaps and the product of the reserves\<close>

lemma xyk_swap_in_Inr:
  assumes "xyk_swap_exact_amount_in A B input fee = Inr out"
  shows "unat out \<le> unat B"
    and "unat A * unat B \<le> (unat A + unat input) * (unat B - unat out)"
proof -
  obtain s x b k where raw: "checked_add A input = Inr s" "checked_multiply_ratio_ceil A B s = Inr x"
      "checked_sub B x = Inr b" "dec_sub 18 18 (dec_one 18) fee = Inr k" "checked_mul_dec_floor 18 b k = Inr out"
    using assms by (auto simp: xyk_swap_exact_amount_in_def result_iff)
  have s: "unat s = unat A + unat input" using raw(1) by (simp only: checked_add_Inr)
  have xx: "unat A + unat input \<noteq> 0 \<and> unat x = ceil_div (unat A * unat B) (unat A + unat input)"
    using raw(2) unfolding checked_multiply_ratio_ceil_Inr s .
  note pos = conjunct1 [OF xx] and x = conjunct2 [OF xx]
  have b: "unat B = unat b + unat x" using raw(3) by (simp only: checked_sub_Inr add.commute)
  have k: "unat (dec_one 18 :: u128) = unat fee + unat k" using raw(4) by (simp only: dec_sub_def checked_sub_Inr if_True simp_thms)
  have out: "unat out = unat b * unat k div 10 ^ 18" using raw(5) by (simp add: dec_rounding_128(3))
  have "unat k \<le> 10 ^ 18" using k by (simp add: dec_one_def unat_precision)
  then have "unat b * unat k div 10 ^ 18 \<le> unat b * 10 ^ 18 div 10 ^ 18"
    by (intro div_le_mono mult_le_mono2)
  then have le: "unat out \<le> unat b" by (simp add: out)
  then show "unat out \<le> unat B" using b by simp
  have "unat A * unat B \<le> ceil_div (unat A * unat B) (unat A + unat input) * (unat A + unat input)"
    using pos by (intro ceil_div_lower) simp
  also have "\<dots> \<le> (unat B - unat out) * (unat A + unat input)"
    by (intro mult_le_mono1) (use le b x in linarith)
  finally show "unat A * unat B \<le> (unat A + unat input) * (unat B - unat out)"
    by (simp add: mult.commute)
qed

lemma xyk_swap_out_Inr:
  assumes "xyk_swap_exact_amount_out A B out fee = Inr input"
  obtains gross where "unat gross < unat B"
    and "unat out * 10 ^ 18 \<le> unat gross * (10 ^ 18 - unat fee)"
    and "unat A + unat input = unat A * unat B div (unat B - unat (gross :: u128))"
proof -
  obtain k g i x y where raw: "dec_sub 18 18 (dec_one 18) fee = Inr k"
      "checked_div_dec_ceil 18 out k = Inr g" "g < B" "checked_mul A B = Inr i" "checked_sub B g = Inr x"
      "checked_multiply_ratio_floor 1 i x = Inr y" "checked_sub y A = Inr input"
    using assms by (auto simp: xyk_swap_exact_amount_out_def result_iff)
  have k: "unat (dec_one 18 :: u128) = unat fee + unat k" using raw(1) by (simp only: dec_sub_def checked_sub_Inr if_True simp_thms)
  have g: "unat k \<noteq> 0" "unat g = ceil_div (unat out * 10 ^ 18) (unat k)"
    using raw(2) by (simp_all add: dec_rounding_128(8))
  have lt: "g < B" by (rule raw)
  have i: "unat i = unat A * unat B" using raw(4) by (simp only: checked_mul_Inr)
  have x: "unat B = unat g + unat x" using raw(5) by (simp only: checked_sub_Inr)
  have y: "unat y = unat (1 :: u128) * unat i div unat x" using raw(6) by (simp only: checked_multiply_ratio_floor_Inr)
  have r: "unat y = unat A + unat input" using raw(7) by (simp only: checked_sub_Inr)
  have "unat k = 10 ^ 18 - unat fee" using k by (simp add: dec_one_def unat_precision)
  moreover have "unat out * 10 ^ 18 \<le> ceil_div (unat out * 10 ^ 18) (unat k) * unat k"
    using g(1) by (intro ceil_div_lower) simp
  moreover have "unat x = unat B - unat g" using x by simp
  ultimately show thesis
    using that [of g] lt g(2) i y r by (simp add: word_less_nat_alt)
qed

subsection \<open>Reflected orders stay within the reserve\<close>

definition bids_value :: "(udec \<times> u128) list \<Rightarrow> nat" where
  "bids_value xs = (\<Sum>(price, amount)\<leftarrow>xs. unat amount * unat price)"

definition asks_size :: "(udec \<times> u128) list \<Rightarrow> nat" where
  "asks_size xs = (\<Sum>(price, amount)\<leftarrow>xs. unat amount)"

lemma reflect_sums [simp]:
  "bids_value [] = 0" "bids_value ((p, a) # xs) = unat a * unat p + bids_value xs"
  "asks_size [] = 0" "asks_size ((p, a) # xs) = unat a + asks_size xs"
  by (simp_all add: bids_value_def asks_size_def)

lemma xyk_bid_step_Inr:
  assumes "xyk_bid_step base quote price prev prev_quote = Inr (amount, sz, size_quote)"
    and "unat prev_quote \<le> unat quote"
  shows "unat size_quote \<le> unat quote"
    and "unat prev_quote * 10 ^ 24 + unat amount * unat price \<le> unat size_quote * 10 ^ 24"
proof -
  obtain am aq sq q s :: u128 where q: "checked_div_dec 24 quote price = Inr q" "checked_sub q base = Inr s"
      "checked_sub s prev = Inr am"
    and aq: "unat aq = ceil_div (unat am * unat price) (10 ^ 24)" and sq: "unat sq = unat prev_quote + unat aq"
    and res: "(if quote < sq
       then and_then (checked_sub quote prev_quote) (\<lambda>amount_quote'.
            and_then (checked_div_dec_floor 24 amount_quote' price) (\<lambda>amount'.
            and_then (checked_add prev amount') (\<lambda>size'. Inr (amount', size', quote))))
       else Inr (am, s, sq)) = Inr (amount, sz, size_quote)"
    using assms(1) by (auto simp: xyk_bid_step_def result_iff checked_add_Inr dec_rounding_128(4))
  have "unat size_quote \<le> unat quote \<and>
      unat prev_quote * 10 ^ 24 + unat amount * unat price \<le> unat size_quote * 10 ^ 24"
  proof (cases "quote < sq")
    case True
    then obtain a :: u128 where a: "unat quote = unat prev_quote + unat a" "unat price \<noteq> 0"
        "unat amount = unat a * 10 ^ 24 div unat price" "size_quote = quote"
      using res by (auto simp: result_iff math_iff)
    then have "unat amount * unat price \<le> unat a * 10 ^ 24" by simp
    then show ?thesis using a(1,4) by simp
  next
    case False
    with res have r: "amount = am" "size_quote = sq" by auto
    have "unat am * unat price \<le> ceil_div (unat am * unat price) (10 ^ 24) * 10 ^ 24"
      by (rule ceil_div_lower) simp
    then show ?thesis using False r aq sq by (simp add: word_less_nat_alt)
  qed
  then show "unat size_quote \<le> unat quote"
    and "unat prev_quote * 10 ^ 24 + unat amount * unat price \<le> unat size_quote * 10 ^ 24" by simp_all
qed

lemma xyk_bids_value:
  "unat prev_quote \<le> unat quote \<Longrightarrow>
   unat prev_quote * 10 ^ 24 + bids_value (xyk_bids n base quote spacing price prev prev_quote)
     \<le> unat quote * 10 ^ 24"
proof (induction n base quote spacing price prev prev_quote rule: xyk_bids.induct)
  case (2 n base quote spacing price prev prev_quote)
  show ?case
  proof (cases "\<exists>p amount sz sq. price = Some p \<and> is_non_zero p \<and>
      xyk_bid_step base quote p prev prev_quote = Inr (amount, sz, sq) \<and> \<not> is_zero amount")
    case False
    then have "xyk_bids (Suc n) base quote spacing price prev prev_quote = []"
      by (auto split: option.split sum.split)
    with 2(2) show ?thesis by simp
  next
    case True
    then obtain p amount sz sq where s: "price = Some p" "is_non_zero p"
        "xyk_bid_step base quote p prev prev_quote = Inr (amount, sz, sq)" "\<not> is_zero amount" by blast
    from xyk_bid_step_Inr [OF s(3) 2(2)] 2(1) [OF s(1,2,3) refl refl s(4)] show ?thesis by (simp add: s)
  qed
qed simp

lemma xyk_asks_size:
  "unat prev \<le> unat base \<Longrightarrow>
   unat prev + asks_size (xyk_asks n base quote spacing price prev) \<le> unat base"
proof (induction n base quote spacing price prev rule: xyk_asks.induct)
  case (2 n base quote spacing price prev)
  show ?case
  proof (cases "\<exists>p amount sz. price = Some p \<and>
      xyk_ask_step base quote p prev = Inr (amount, sz) \<and> \<not> is_zero amount")
    case False
    then have "xyk_asks (Suc n) base quote spacing price prev = []"
      by (auto split: option.split sum.split)
    with 2(2) show ?thesis by simp
  next
    case True
    then obtain p amount sz where s: "price = Some p"
        "xyk_ask_step base quote p prev = Inr (amount, sz)" "\<not> is_zero amount" by blast
    then have "unat sz = unat prev + unat amount" "unat sz \<le> unat base"
      by (auto simp: xyk_ask_step_def result_iff checked_sub_Inr min_def word_le_nat_alt split: if_splits)
    with 2(1) [OF s(1,2) refl s(3)] show ?thesis by (simp add: s)
  qed
qed simp

lemma xyk_bids_length: "length (xyk_bids n base quote spacing price prev prev_quote) \<le> n"
  by (induction n base quote spacing price prev prev_quote rule: xyk_bids.induct)
    (auto split: option.split sum.split)

lemma xyk_asks_length: "length (xyk_asks n base quote spacing price prev) \<le> n"
  by (induction n base quote spacing price prev rule: xyk_asks.induct) (auto split: option.split sum.split)

subsection \<open>Properties\<close>

text \<open>C33: Swapping an exact input against a constant-product pool never shrinks the product of its reserves
  and never pays out more than the output reserve, for every fee rate and however the division rounds.\<close>

theorem xyk_swap_in_keeps_product:
  assumes "xyk_swap_exact_amount_in A B input fee = Inr out"
  shows "unat out \<le> unat B \<and> unat A * unat B \<le> (unat A + unat input) * (unat B - unat out)"
  using xyk_swap_in_Inr [OF assms] by simp

lemmas xyk_eval =
  xyk_swap_exact_amount_in_def xyk_swap_exact_amount_out_def dec_sub_def checked_mul_def

lemma xyk_swap_in_keeps_product_witness:
  "xyk_swap_exact_amount_in 1000 2000 500 3000000000000000 = Inr 664 \<and>
     unat (664 :: u128) \<le> unat (2000 :: u128) \<and> (1000 * 2000 :: nat) \<le> (1000 + 500) * (2000 - 664)"
proof -
  have "xyk_swap_exact_amount_in 1000 2000 500 3000000000000000 = Inr 664"
    by (simp add: xyk_eval dec_eval dvd_eq_mod_eq_0)
  with xyk_swap_in_keeps_product [OF this] show ?thesis by simp
qed

text \<open>Swapping for an exact output rounds the required input down: the product of the reserves, with
  the gross output of before the fee, is kept only up to one unit of input, and the pool as a whole
  can end with a smaller product than before.\<close>

lemma xyk_swap_out_rounds_against_pool:
  "(xyk_swap_exact_amount_out A B out fee = Inr input \<longrightarrow>
      (\<exists>gross. unat out * 10 ^ 18 \<le> gross * (10 ^ 18 - unat fee) \<and> gross < unat B \<and>
        (unat A + unat input) * (unat B - gross) \<le> unat A * unat B \<and>
        unat A * unat B < (unat A + unat input + 1) * (unat B - gross)))
    \<and> xyk_swap_exact_amount_out 10 10000 1500 3000000000000000 = Inr 1
    \<and> (10 + 1) * (10000 - 1500) < (10 * 10000 :: nat)"
proof (intro conjI impI)
  assume "xyk_swap_exact_amount_out A B out fee = Inr input"
  then obtain g :: u128 where g: "unat g < unat B" "unat out * 10 ^ 18 \<le> unat g * (10 ^ 18 - unat fee)"
      "unat A + unat input = unat A * unat B div (unat B - unat g)"
    by (rule xyk_swap_out_Inr)
  have "unat A * unat B < (unat A * unat B div (unat B - unat g) + 1) * (unat B - unat g)"
    using g(1) dividend_less_div_times [of "unat B - unat g" "unat A * unat B"] by (simp add: add.commute)
  with g show "\<exists>gross. unat out * 10 ^ 18 \<le> gross * (10 ^ 18 - unat fee) \<and> gross < unat B \<and>
        (unat A + unat input) * (unat B - gross) \<le> unat A * unat B \<and>
        unat A * unat B < (unat A + unat input + 1) * (unat B - gross)"
    by (intro exI [of _ "unat g"]) (simp add: div_times_less_eq_dividend)
next
  show "xyk_swap_exact_amount_out 10 10000 1500 3000000000000000 = Inr 1"
    by (simp add: xyk_eval dec_eval dvd_eq_mod_eq_0)
qed simp

lemma xyk_swap_out_rounds_against_pool_witness:
  "xyk_swap_exact_amount_out 1000 2000 500 3000000000000000 = Inr 335 \<and>
   (\<exists>gross. unat (500 :: u128) * 10 ^ 18 \<le> gross * (10 ^ 18 - unat (3000000000000000 :: u128)) \<and>
      gross < unat (2000 :: u128) \<and>
      (unat (1000 :: u128) + unat (335 :: u128)) * (unat (2000 :: u128) - gross)
        \<le> unat (1000 :: u128) * unat (2000 :: u128))"
proof
  show run: "xyk_swap_exact_amount_out 1000 2000 500 3000000000000000 = Inr 335"
    by (simp add: xyk_eval dec_eval dvd_eq_mod_eq_0)
  show "\<exists>gross. unat (500 :: u128) * 10 ^ 18 \<le> gross * (10 ^ 18 - unat (3000000000000000 :: u128)) \<and>
      gross < unat (2000 :: u128) \<and>
      (unat (1000 :: u128) + unat (335 :: u128)) * (unat (2000 :: u128) - gross)
        \<le> unat (1000 :: u128) * unat (2000 :: u128)"
    using xyk_swap_out_rounds_against_pool [of 1000 2000 500 3000000000000000 335] run by blast
qed

text \<open>The orders that reflect the curve never promise more than the pool withholds for them: the bids
  together are worth at most the quote reserve and the asks together hold at most the base
  reserve, both after the reserve requirement, for every number of orders and every spacing.\<close>

lemma xyk_reflect_curve_within_reserve:
  assumes "xyk_reflect_curve base quote params fee = Inr (bids, asks)"
  shows "bids_value bids * 10 ^ 18 \<le> unat quote * (10 ^ 18 - unat (xyk_reserve_ratio params)) * 10 ^ 24
    \<and> asks_size asks * 10 ^ 18 \<le> unat base * (10 ^ 18 - unat (xyk_reserve_ratio params))
    \<and> length bids \<le> xyk_limit params \<and> length asks \<le> xyk_limit params"
proof -
  obtain k b q mp lo hi where raw: "dec_sub 18 18 (dec_one 18) (xyk_reserve_ratio params) = Inr k"
    "checked_mul_dec_floor 18 base k = Inr b" "checked_mul_dec_floor 18 quote k = Inr q"
    "bids = xyk_bids (xyk_limit params) b q (xyk_spacing params) lo 0 0"
    "asks = xyk_asks (xyk_limit params) b q (xyk_spacing params) hi 0"
    using assms by (auto simp: xyk_reflect_curve_def result_iff)
  have "unat (dec_one 18 :: u128) = unat (xyk_reserve_ratio params) + unat k"
    using raw(1) by (simp only: dec_sub_def checked_sub_Inr if_True simp_thms)
  then have k: "unat k = 10 ^ 18 - unat (xyk_reserve_ratio params)" by (simp add: dec_one_def unat_precision)
  have b: "unat b * 10 ^ 18 \<le> unat base * unat k" and q: "unat q * 10 ^ 18 \<le> unat quote * unat k"
    using raw(2,3) by (simp_all add: dec_rounding_128(3))
  have "bids_value bids \<le> unat q * 10 ^ 24" and "asks_size asks \<le> unat b"
    using xyk_bids_value [of 0 q "xyk_limit params" b "xyk_spacing params" lo 0]
      xyk_asks_size [of 0 b "xyk_limit params" q "xyk_spacing params" hi] by (simp_all add: raw(4,5))
  then have "bids_value bids * 10 ^ 18 \<le> unat q * 10 ^ 18 * 10 ^ 24" "asks_size asks * 10 ^ 18 \<le> unat b * 10 ^ 18"
    by simp_all
  moreover have "unat q * 10 ^ 18 * 10 ^ 24 \<le> unat quote * unat k * 10 ^ 24"
    using q by (rule mult_le_mono1)
  moreover have "length bids \<le> xyk_limit params" "length asks \<le> xyk_limit params"
    using xyk_bids_length xyk_asks_length by (simp_all add: raw(4,5))
  ultimately show ?thesis using b k by (simp only: simp_thms) (meson le_trans)
qed

lemma xyk_reflect_curve_within_reserve_witness:
  "\<exists>bids asks. xyk_reflect_curve 1000 2000
      \<lparr>xyk_spacing = 500000000000000000, xyk_reserve_ratio = 0, xyk_limit = 1\<rparr> 500000000000000000 =
      Inr (bids, asks) \<and> asks_size asks * 10 ^ 18 \<le> 1000 * 10 ^ 18 \<and> asks \<noteq> []"
proof -
  let ?p = "\<lparr>xyk_spacing = 500000000000000000, xyk_reserve_ratio = 0, xyk_limit = 1\<rparr>"
  obtain bids asks where r: "xyk_reflect_curve 1000 2000 ?p 500000000000000000 = Inr (bids, asks)" "asks \<noteq> []"
    by (simp add: xyk_reflect_curve_def xyk_eval dec_eval dec_add_def dec_mul_eq_ratio xyk_ask_step_def
        xyk_bid_step_def)
  with xyk_reflect_curve_within_reserve [OF r(1)] show ?thesis by auto
qed

end
