(* ===== verification/Indexed_Map.thy ===== *)
theory Indexed_Map
  imports Context
begin

text \<open>
  The indexed maps of \<^verbatim>\<open>grug/storage/src/index\<close>: a primary map kept together with index maps that
  are derived from it. A unique index maps an index key to the primary key of the only record that
  has it; a multi index is a set of pairs of an index key and a primary key. \<open>indexed_map\<close> has one
  unique index and two multi indexes, the shape of the order book's \<^verbatim>\<open>OrderIndex\<close>.

  The interface \<^verbatim>\<open>Index\<close> of the sources (save and remove for one record) is the locale \<open>index\<close>: its
  law is that an index that agrees with the primary map agrees after the record is saved or removed.
  Both kinds of index provide it. The theorems: after any sequence of operations the indexes agree
  with the primary map, lookups through them return what a scan of the primary map returns, and a
  save is refused exactly when it would give two records the same unique index.
\<close>

subsection \<open>The interface of an index\<close>

locale index =
  fixes idx_save :: "'s \<Rightarrow> 'k::linorder \<Rightarrow> 'v \<Rightarrow> 's res"
    and idx_remove :: "'s \<Rightarrow> 'k \<Rightarrow> 'v \<Rightarrow> 's"
    and agrees :: "('k, 'v) omap \<Rightarrow> 's \<Rightarrow> bool"
  assumes save_agrees:
      "om_ok m \<Longrightarrow> agrees m s \<Longrightarrow> map_of m k = None \<Longrightarrow> idx_save s k v = Inr s' \<Longrightarrow>
        agrees (om_insert k v m) s'"
    and remove_agrees:
      "om_ok m \<Longrightarrow> agrees m s \<Longrightarrow> map_of m k = Some v \<Longrightarrow> agrees (om_remove k m) (idx_remove s k v)"
begin

definition forget :: "('k, 'v) omap \<Rightarrow> 'k \<Rightarrow> 's \<Rightarrow> 's" where
  "forget m k s = (case map_of m k of None \<Rightarrow> s | Some v \<Rightarrow> idx_remove s k v)"

lemma forget_agrees: "om_ok m \<Longrightarrow> agrees m s \<Longrightarrow> agrees (om_remove k m) (forget m k s)"
proof (cases "map_of m k")
  case None
  then have "om_remove k m = m"
    by (auto simp: om_remove_def map_of_eq_None_iff intro!: filter_True)
  moreover assume "agrees m s"
  ultimately show ?thesis by (simp add: forget_def None)
qed (simp add: forget_def remove_agrees)

lemma replace_agrees:
  assumes "om_ok m" and "agrees m s" and "idx_save (forget m k s) k v = Inr s'"
  shows "agrees (om_insert k v m) s'"
proof -
  have "om_insert k v (om_remove k m) = om_insert k v m"
    using assms(1) by (intro om_ext ext om_ok_insert om_ok_remove)
      (simp_all add: map_of_om_insert map_of_om_remove om_ok_remove)
  moreover have "agrees (om_insert k v (om_remove k m)) s'"
    using assms by (intro save_agrees [OF om_ok_remove forget_agrees]) (simp_all add: map_of_om_remove)
  ultimately show ?thesis by simp
qed

end

subsection \<open>Unique indexes\<close>

type_synonym ('i, 'k) unique_index = "('i, 'k) omap"

definition unique_save ::
    "('k \<Rightarrow> 'v \<Rightarrow> 'i::linorder) \<Rightarrow> ('i, 'k) unique_index \<Rightarrow> 'k \<Rightarrow> 'v \<Rightarrow> ('i, 'k) unique_index res" where
  "unique_save indexer s pk data =
     (let idx = indexer pk data
      in if map_of s idx \<noteq> None then Inl DuplicateData else Inr (om_insert idx pk s))"

definition unique_remove ::
    "('k \<Rightarrow> 'v \<Rightarrow> 'i::linorder) \<Rightarrow> ('i, 'k) unique_index \<Rightarrow> 'k \<Rightarrow> 'v \<Rightarrow> ('i, 'k) unique_index" where
  "unique_remove indexer s pk old_data = om_remove (indexer pk old_data) s"

definition unique_agrees ::
    "('k \<Rightarrow> 'v \<Rightarrow> 'i::linorder) \<Rightarrow> ('k, 'v) omap \<Rightarrow> ('i, 'k) unique_index \<Rightarrow> bool" where
  "unique_agrees indexer m s \<longleftrightarrow> om_ok s \<and>
     (\<forall>i k. map_of s i = Some k \<longleftrightarrow> (\<exists>v. map_of m k = Some v \<and> indexer k v = i))"

lemma unique_save_Inr [result_iff]:
  "unique_save indexer s k v = Inr s' \<longleftrightarrow>
     map_of s (indexer k v) = None \<and> s' = om_insert (indexer k v) k s"
  by (auto simp: unique_save_def Let_def)

lemma unique_saved_agrees:
  assumes "om_ok m" and "unique_agrees indexer m s" and "map_of m k = None"
    and "unique_save indexer s k v = Inr s'"
  shows "unique_agrees indexer (om_insert k v m) s'"
proof -
  from assms(4) have s': "map_of s (indexer k v) = None" "s' = om_insert (indexer k v) k s"
    by (simp_all add: result_iff)
  from assms(2) have s: "om_ok s"
    and look: "\<And>i k. map_of s i = Some k \<longleftrightarrow> (\<exists>v. map_of m k = Some v \<and> indexer k v = i)"
    by (auto simp: unique_agrees_def)
  from s'(1) have fresh: "\<And>k' v'. map_of m k' = Some v' \<Longrightarrow> indexer k' v' \<noteq> indexer k v"
    using look by (metis option.distinct(1))
  show ?thesis
    unfolding unique_agrees_def s'(2)
    using assms(1,3) s look fresh
    by (auto simp: om_ok_insert map_of_om_insert split: if_splits)
qed

lemma unique_removed_agrees:
  assumes "om_ok m" and "unique_agrees indexer m s" and "map_of m k = Some v"
  shows "unique_agrees indexer (om_remove k m) (unique_remove indexer s k v)"
proof -
  from assms(2) have s: "om_ok s"
    and look: "\<And>i k. map_of s i = Some k \<longleftrightarrow> (\<exists>v. map_of m k = Some v \<and> indexer k v = i)"
    by (auto simp: unique_agrees_def)
  have "map_of s (indexer k v) = Some k" using look assms(3) by blast
  then have only: "\<And>k' v'. map_of m k' = Some v' \<Longrightarrow> indexer k' v' = indexer k v \<Longrightarrow> k' = k"
    using look by (metis option.inject)
  show ?thesis
    unfolding unique_agrees_def unique_remove_def
    using s look only assms(3) by (auto simp: om_ok_remove map_of_om_remove split: if_splits)
qed

interpretation unique: index "unique_save indexer" "unique_remove indexer" "unique_agrees indexer"
  for indexer :: "'k::linorder \<Rightarrow> 'v \<Rightarrow> 'i::linorder"
  by unfold_locales (auto intro: unique_saved_agrees unique_removed_agrees)

subsection \<open>Multi indexes\<close>

type_synonym ('i, 'k) multi_index = "('i \<times> 'k, unit) omap"

definition multi_save ::
    "('k::linorder \<Rightarrow> 'v \<Rightarrow> 'i::linorder) \<Rightarrow> ('i, 'k) multi_index \<Rightarrow> 'k \<Rightarrow> 'v \<Rightarrow> ('i, 'k) multi_index res" where
  "multi_save indexer s pk data = Inr (om_insert (indexer pk data, pk) () s)"

definition multi_remove ::
    "('k \<Rightarrow> 'v \<Rightarrow> 'i) \<Rightarrow> ('i, 'k) multi_index \<Rightarrow> 'k \<Rightarrow> 'v \<Rightarrow> ('i, 'k) multi_index" where
  "multi_remove indexer s pk old_data = om_remove (indexer pk old_data, pk) s"

definition multi_agrees ::
    "('k::linorder \<Rightarrow> 'v \<Rightarrow> 'i::linorder) \<Rightarrow> ('k, 'v) omap \<Rightarrow> ('i, 'k) multi_index \<Rightarrow> bool" where
  "multi_agrees indexer m s \<longleftrightarrow> om_ok s \<and>
     (\<forall>i k. map_of s (i, k) = Some () \<longleftrightarrow> (\<exists>v. map_of m k = Some v \<and> indexer k v = i))"

interpretation multi: index "multi_save indexer" "multi_remove indexer" "multi_agrees indexer"
  for indexer :: "'k::linorder \<Rightarrow> 'v \<Rightarrow> 'i::linorder"
  by unfold_locales
    (auto simp: multi_save_def multi_remove_def multi_agrees_def om_ok_insert om_ok_remove
      map_of_om_insert map_of_om_remove split: if_splits)

text \<open>Iterating the records under one index value, in the order of their primary keys.\<close>

definition multi_range :: "('k, 'v) omap \<Rightarrow> ('i, 'k) multi_index \<Rightarrow> 'i \<Rightarrow> ('k, 'v) omap res" where
  "multi_range m s idx =
     try_map (\<lambda>pk. and_then (om_load m pk) (\<lambda>v. Inr (pk, v)))
       (map (snd \<circ> fst) (filter (\<lambda>e. fst (fst e) = idx) s))"

lemma multi_range_eq:
  assumes "om_ok m" and "multi_agrees indexer m s"
  shows "multi_range m s idx = Inr (filter (\<lambda>(k, v). indexer k v = idx) m)"
proof -
  let ?ks = "map (snd \<circ> fst) (filter (\<lambda>e. fst (fst e) = idx) s)"
  let ?m = "filter (\<lambda>(k, v). indexer k v = idx) m"
  from assms(2) have s: "om_ok s"
    and look: "\<And>i k. map_of s (i, k) = Some () \<longleftrightarrow> (\<exists>v. map_of m k = Some v \<and> indexer k v = i)"
    by (auto simp: multi_agrees_def)
  have "sorted_wrt (<) (map fst (filter (\<lambda>e. fst (fst e) = idx) s))"
    using om_ok_filter [OF s] by (simp add: om_ok_def)
  then have "sorted_wrt (<) ?ks"
    by (simp add: sorted_wrt_map o_def, elim sorted_wrt_mono_rel [rotated]) (auto simp: less_prod_def')
  moreover have "sorted_wrt (<) (map fst ?m)"
    using om_ok_filter [OF assms(1)] by (simp add: om_ok_def)
  moreover have "set ?ks = set (map fst ?m)"
  proof -
    have "k \<in> set ?ks \<longleftrightarrow> k \<in> set (map fst ?m)" for k
    proof -
      have "k \<in> set ?ks \<longleftrightarrow> ((idx, k), ()) \<in> set s" by force
      also have "\<dots> \<longleftrightarrow> (\<exists>v. (k, v) \<in> set m \<and> indexer k v = idx)"
        by (simp add: om_mem_iff [OF s] om_mem_iff [OF assms(1)] look)
      also have "\<dots> \<longleftrightarrow> k \<in> set (map fst ?m)" by force
      finally show ?thesis .
    qed
    then show ?thesis by blast
  qed
  ultimately have ks: "?ks = map fst ?m"
    by (intro sorted_distinct_set_unique) (simp_all add: strict_sorted_iff)
  have loads: "try_map (\<lambda>pk. and_then (om_load m pk) (\<lambda>v. Inr (pk, v))) (map fst xs) = Inr xs"
    if "set xs \<subseteq> set m" for xs
    using that om_mem_iff [OF assms(1)] by (induction xs) (auto simp: om_load_def)
  show ?thesis
    unfolding multi_range_def ks by (rule loads) auto
qed

subsection \<open>The indexed map\<close>

record ('k, 'v, 'i, 'a, 'b) indexed_map =
  im_primary :: "('k, 'v) omap"
  im_unique :: "('i, 'k) unique_index"
  im_first :: "('a, 'k) multi_index"
  im_second :: "('b, 'k) multi_index"

record ('k, 'v, 'i, 'a, 'b) index_list =
  ix_unique :: "'k \<Rightarrow> 'v \<Rightarrow> 'i"
  ix_first :: "'k \<Rightarrow> 'v \<Rightarrow> 'a"
  ix_second :: "'k \<Rightarrow> 'v \<Rightarrow> 'b"

definition indexed_new :: "('k, 'v, 'i, 'a, 'b) indexed_map" where
  "indexed_new = \<lparr>im_primary = [], im_unique = [], im_first = [], im_second = []\<rparr>"

text \<open>First the indexes of the old record are removed, then those of the new one are written, in the
  order of the index list, then the primary map.\<close>

definition indexed_replace ::
    "('k::linorder, 'v, 'i::linorder, 'a::linorder, 'b::linorder) index_list \<Rightarrow>
     ('k, 'v, 'i, 'a, 'b) indexed_map \<Rightarrow> 'k \<Rightarrow> 'v option \<Rightarrow> 'v option \<Rightarrow>
     ('k, 'v, 'i, 'a, 'b) indexed_map res" where
  "indexed_replace ix im key data old_data =
     (let im = (case old_data of
          None \<Rightarrow> im
        | Some old \<Rightarrow> im\<lparr>im_unique := unique_remove (ix_unique ix) (im_unique im) key old,
                        im_first := multi_remove (ix_first ix) (im_first im) key old,
                        im_second := multi_remove (ix_second ix) (im_second im) key old\<rparr>)
      in case data of
          None \<Rightarrow> Inr (im\<lparr>im_primary := om_remove key (im_primary im)\<rparr>)
        | Some updated \<Rightarrow>
            and_then (unique_save (ix_unique ix) (im_unique im) key updated) (\<lambda>u.
            and_then (multi_save (ix_first ix) (im_first im) key updated) (\<lambda>a.
            and_then (multi_save (ix_second ix) (im_second im) key updated) (\<lambda>b.
              Inr \<lparr>im_primary = om_insert key updated (im_primary im), im_unique = u,
                   im_first = a, im_second = b\<rparr>))))"

definition indexed_save ::
    "('k::linorder, 'v, 'i::linorder, 'a::linorder, 'b::linorder) index_list \<Rightarrow>
     ('k, 'v, 'i, 'a, 'b) indexed_map \<Rightarrow> 'k \<Rightarrow> 'v \<Rightarrow> ('k, 'v, 'i, 'a, 'b) indexed_map res" where
  "indexed_save ix im key data = indexed_replace ix im key (Some data) (map_of (im_primary im) key)"

definition indexed_remove ::
    "('k::linorder, 'v, 'i::linorder, 'a::linorder, 'b::linorder) index_list \<Rightarrow>
     ('k, 'v, 'i, 'a, 'b) indexed_map \<Rightarrow> 'k \<Rightarrow> ('k, 'v, 'i, 'a, 'b) indexed_map res" where
  "indexed_remove ix im key = indexed_replace ix im key None (map_of (im_primary im) key)"

definition indexed_modify ::
    "('k::linorder, 'v, 'i::linorder, 'a::linorder, 'b::linorder) index_list \<Rightarrow>
     ('k, 'v, 'i, 'a, 'b) indexed_map \<Rightarrow> 'k \<Rightarrow> ('v \<Rightarrow> 'v option res) \<Rightarrow>
     ('k, 'v, 'i, 'a, 'b) indexed_map res" where
  "indexed_modify ix im key action =
     and_then (om_load (im_primary im) key) (\<lambda>old_data.
     and_then (action old_data) (\<lambda>new_data. indexed_replace ix im key new_data (Some old_data)))"

text \<open>A lookup through the unique index panics if the primary record is missing.\<close>

definition unique_load :: "('k, 'v, 'i, 'a, 'b) indexed_map \<Rightarrow> 'i \<Rightarrow> ('k \<times> 'v) res" where
  "unique_load im idx =
     and_then (om_load (im_unique im) idx) (\<lambda>pk.
     and_then (unwrap (om_load (im_primary im) pk)) (\<lambda>v. Inr (pk, v)))"

definition indexed_ok ::
    "('k::linorder, 'v, 'i::linorder, 'a::linorder, 'b::linorder) index_list \<Rightarrow>
     ('k, 'v, 'i, 'a, 'b) indexed_map \<Rightarrow> bool" where
  "indexed_ok ix im \<longleftrightarrow> om_ok (im_primary im) \<and>
     unique_agrees (ix_unique ix) (im_primary im) (im_unique im) \<and>
     multi_agrees (ix_first ix) (im_primary im) (im_first im) \<and>
     multi_agrees (ix_second ix) (im_primary im) (im_second im)"

lemma indexed_new_ok: "indexed_ok ix indexed_new"
  by (simp add: indexed_ok_def indexed_new_def unique_agrees_def multi_agrees_def)

lemma indexed_replace_forget:
  assumes "old = map_of (im_primary im) k"
  shows "indexed_replace ix im k (Some v) old =
     and_then (unique_save (ix_unique ix) (unique.forget (ix_unique ix) (im_primary im) k (im_unique im)) k v) (\<lambda>u.
     and_then (multi_save (ix_first ix) (multi.forget (ix_first ix) (im_primary im) k (im_first im)) k v) (\<lambda>a.
     and_then (multi_save (ix_second ix) (multi.forget (ix_second ix) (im_primary im) k (im_second im)) k v) (\<lambda>b.
       Inr \<lparr>im_primary = om_insert k v (im_primary im), im_unique = u, im_first = a, im_second = b\<rparr>)))"
  unfolding assms by (cases "map_of (im_primary im) k")
    (simp_all add: indexed_replace_def unique.forget_def multi.forget_def)

lemma indexed_replace_keeps:
  assumes "indexed_ok ix im" and "indexed_replace ix im k data (map_of (im_primary im) k) = Inr im'"
  shows "indexed_ok ix im' \<and> im_primary im' = om_set k data (im_primary im)"
proof -
  from assms(1) have ok: "om_ok (im_primary im)"
    and u: "unique_agrees (ix_unique ix) (im_primary im) (im_unique im)"
    and a: "multi_agrees (ix_first ix) (im_primary im) (im_first im)"
    and b: "multi_agrees (ix_second ix) (im_primary im) (im_second im)"
    by (simp_all add: indexed_ok_def)
  show ?thesis
  proof (cases data)
    case None
    from assms(2) have "im' = \<lparr>im_primary = om_remove k (im_primary im),
        im_unique = unique.forget (ix_unique ix) (im_primary im) k (im_unique im),
        im_first = multi.forget (ix_first ix) (im_primary im) k (im_first im),
        im_second = multi.forget (ix_second ix) (im_primary im) k (im_second im)\<rparr>"
      unfolding None by (cases im; cases "map_of (im_primary im) k")
        (auto simp: indexed_replace_def unique.forget_def multi.forget_def)
    then show ?thesis
      using unique.forget_agrees [OF ok u] multi.forget_agrees [OF ok a] multi.forget_agrees [OF ok b] ok
      by (simp add: indexed_ok_def om_ok_remove om_set_def None)
  next
    case (Some v)
    from assms(2) [unfolded Some indexed_replace_forget [OF refl]] obtain u' a' b' where
      u': "unique_save (ix_unique ix) (unique.forget (ix_unique ix) (im_primary im) k (im_unique im)) k v = Inr u'"
      and a': "multi_save (ix_first ix) (multi.forget (ix_first ix) (im_primary im) k (im_first im)) k v = Inr a'"
      and b': "multi_save (ix_second ix) (multi.forget (ix_second ix) (im_primary im) k (im_second im)) k v = Inr b'"
      and im': "im' = \<lparr>im_primary = om_insert k v (im_primary im), im_unique = u', im_first = a', im_second = b'\<rparr>"
      by (auto elim!: and_thenE)
    show ?thesis
      unfolding im' indexed_ok_def Some
      using unique.replace_agrees [OF ok u u'] multi.replace_agrees [OF ok a a']
        multi.replace_agrees [OF ok b b'] om_ok_insert [OF ok, of k v]
      by (auto simp only: indexed_map.simps om_set_def option.case)
  qed
qed

lemma indexed_save_Inr:
  assumes "indexed_ok ix im" and "indexed_save ix im k v = Inr im'"
  shows "indexed_ok ix im' \<and> im_primary im' = om_insert k v (im_primary im)"
  using indexed_replace_keeps [OF assms(1) assms(2) [unfolded indexed_save_def]] by (simp add: om_set_def)

lemma indexed_remove_Inr:
  assumes "indexed_ok ix im"
  shows "\<exists>im'. indexed_remove ix im k = Inr im' \<and> indexed_ok ix im' \<and>
    im_primary im' = om_remove k (im_primary im)"
proof -
  obtain im' where im': "indexed_remove ix im k = Inr im'"
    by (simp add: indexed_remove_def indexed_replace_def Let_def)
  with indexed_replace_keeps [OF assms im' [unfolded indexed_remove_def]] show ?thesis
    by (simp add: om_set_def)
qed

lemma indexed_modify_Inr:
  assumes "indexed_ok ix im" and "indexed_modify ix im k f = Inr im'"
  shows "indexed_ok ix im' \<and> (\<exists>v w. map_of (im_primary im) k = Some v \<and> f v = Inr w \<and>
    im_primary im' = om_set k w (im_primary im))"
proof -
  from assms(2) obtain v w where v: "map_of (im_primary im) k = Some v" and w: "f v = Inr w"
    and r: "indexed_replace ix im k w (map_of (im_primary im) k) = Inr im'"
    by (auto simp: indexed_modify_def result_iff)
  from indexed_replace_keeps [OF assms(1) r] v w show ?thesis by simp
qed

text \<open>Whether a save goes through: nothing else may hold the new record's unique index.\<close>

definition index_free ::
    "('k, 'v, 'i, 'a, 'b) index_list \<Rightarrow> ('k, 'v) omap \<Rightarrow> 'k \<Rightarrow> 'v \<Rightarrow> bool" where
  "index_free ix m k v \<longleftrightarrow> (\<forall>(k', v') \<in> set m. k' \<noteq> k \<longrightarrow> ix_unique ix k' v' \<noteq> ix_unique ix k v)"

lemma unique_forget_None:
  assumes "om_ok m" and "unique_agrees (ix_unique ix) m s"
  shows "map_of (unique.forget (ix_unique ix) m k s) (ix_unique ix k v) = None \<longleftrightarrow> index_free ix m k v"
proof -
  let ?s = "unique.forget (ix_unique ix) m k s"
  from unique.forget_agrees [OF assms, of k] have
    look: "\<And>i k'. map_of ?s i = Some k' \<longleftrightarrow>
      (\<exists>v'. map_of (om_remove k m) k' = Some v' \<and> ix_unique ix k' v' = i)"
    by (auto simp: unique_agrees_def)
  have "map_of ?s (ix_unique ix k v) = None \<longleftrightarrow>
      \<not> (\<exists>k' v'. map_of (om_remove k m) k' = Some v' \<and> ix_unique ix k' v' = ix_unique ix k v)"
    using look [of "ix_unique ix k v"] by (metis not_Some_eq)
  also have "\<dots> \<longleftrightarrow> index_free ix m k v"
    by (auto simp: index_free_def map_of_om_remove om_mem_iff [OF assms(1)])
  finally show ?thesis .
qed

lemma indexed_save_result:
  assumes "indexed_ok ix im"
  shows "if index_free ix (im_primary im) k v
    then \<exists>im'. indexed_save ix im k v = Inr im' \<and> indexed_ok ix im' \<and>
      im_primary im' = om_insert k v (im_primary im)
    else indexed_save ix im k v = Inl DuplicateData"
proof -
  from assms have ok: "om_ok (im_primary im)"
    and u: "unique_agrees (ix_unique ix) (im_primary im) (im_unique im)"
    by (simp_all add: indexed_ok_def)
  note free = unique_forget_None [OF ok u, of k v]
  show ?thesis
  proof (cases "index_free ix (im_primary im) k v")
    case True
    then obtain im' where "indexed_save ix im k v = Inr im'"
      using free unfolding indexed_save_def indexed_replace_forget [OF refl]
      by (simp add: unique_save_def multi_save_def Let_def)
    with True indexed_save_Inr [OF assms this] show ?thesis by simp
  next
    case False
    then show ?thesis
      using free unfolding indexed_save_def indexed_replace_forget [OF refl]
      by (simp add: unique_save_def Let_def)
  qed
qed

lemma unique_load_iff:
  assumes "indexed_ok ix im"
  shows "unique_load im i = Inr (k, v) \<longleftrightarrow> (k, v) \<in> set (im_primary im) \<and> ix_unique ix k v = i"
  using assms
  by (auto simp: indexed_ok_def unique_agrees_def unique_load_def result_iff om_mem_iff)

text \<open>Any sequence of operations from the empty map.\<close>

inductive indexed_run ::
    "('k::linorder, 'v, 'i::linorder, 'a::linorder, 'b::linorder) index_list \<Rightarrow>
     ('k, 'v, 'i, 'a, 'b) indexed_map \<Rightarrow> bool"
  for ix where
  run_new: "indexed_run ix indexed_new"
| run_save: "indexed_run ix im \<Longrightarrow> indexed_save ix im k v = Inr im' \<Longrightarrow> indexed_run ix im'"
| run_remove: "indexed_run ix im \<Longrightarrow> indexed_remove ix im k = Inr im' \<Longrightarrow> indexed_run ix im'"
| run_modify: "indexed_run ix im \<Longrightarrow> indexed_modify ix im k f = Inr im' \<Longrightarrow> indexed_run ix im'"

lemma indexed_run_ok: "indexed_run ix im \<Longrightarrow> indexed_ok ix im"
proof (induction rule: indexed_run.induct)
  case (run_remove im k im')
  then show ?case using indexed_remove_Inr [of ix im k] by auto
qed (auto simp: indexed_new_ok dest: indexed_save_Inr indexed_modify_Inr)

subsection \<open>Properties\<close>

text \<open>C38: After any sequence of saves, removals and modifications the indexes are faithful: a lookup
  through the unique index returns exactly the record of the primary map that has the index key, and
  iterating a multi index returns exactly the matching records, in the order of the primary map.\<close>

theorem indexed_map_lookups_faithful:
  assumes "indexed_run ix im"
  shows "(unique_load im i = Inr (k, v) \<longleftrightarrow> (k, v) \<in> set (im_primary im) \<and> ix_unique ix k v = i)
    \<and> multi_range (im_primary im) (im_first im) a = Inr (filter (\<lambda>(k, v). ix_first ix k v = a) (im_primary im))
    \<and> multi_range (im_primary im) (im_second im) b = Inr (filter (\<lambda>(k, v). ix_second ix k v = b) (im_primary im))"
proof -
  note ok = indexed_run_ok [OF assms]
  then show ?thesis
    using unique_load_iff [OF ok] by (simp add: indexed_ok_def multi_range_eq)
qed

text \<open>A save is refused, as duplicate data, exactly when another record has the same unique index;
  otherwise the record is written and every other one stays as it is.\<close>

lemma indexed_save_refuses_duplicates:
  assumes "indexed_run ix im"
  shows "case indexed_save ix im k v of
      Inl e \<Rightarrow> e = DuplicateData \<and>
        (\<exists>k' v'. (k', v') \<in> set (im_primary im) \<and> k' \<noteq> k \<and> ix_unique ix k' v' = ix_unique ix k v)
    | Inr im' \<Rightarrow>
        (\<forall>k' v'. (k', v') \<in> set (im_primary im) \<longrightarrow> k' \<noteq> k \<longrightarrow> ix_unique ix k' v' \<noteq> ix_unique ix k v) \<and>
        (\<forall>k'. map_of (im_primary im') k' = (if k' = k then Some v else map_of (im_primary im) k'))"
proof -
  note ok = indexed_run_ok [OF assms]
  then have m: "om_ok (im_primary im)" by (simp add: indexed_ok_def)
  from indexed_save_result [OF ok, of k v] m show ?thesis
    by (auto simp: index_free_def map_of_om_insert split: if_splits sum.splits)
qed

definition sample_index :: "(nat, nat \<times> nat, nat, nat, nat) index_list" where
  "sample_index = \<lparr>ix_unique = (\<lambda>k v. fst v), ix_first = (\<lambda>k v. snd v), ix_second = (\<lambda>k v. k mod 2)\<rparr>"

definition sample_indexed :: "(nat, nat \<times> nat, nat, nat, nat) indexed_map" where
  "sample_indexed = \<lparr>im_primary = [(4, 7, 1), (6, 8, 1)], im_unique = [(7, 4), (8, 6)],
     im_first = [((1, 4), ()), ((1, 6), ())], im_second = [((0, 4), ()), ((0, 6), ())]\<rparr>"

lemmas indexed_eval = sample_index_def sample_indexed_def indexed_new_def indexed_save_def
  indexed_replace_def unique_save_def multi_save_def unique_remove_def multi_remove_def
  om_remove_def unique_load_def multi_range_def om_load_def less_prod_def'

lemma sample_indexed_run: "indexed_run sample_index sample_indexed"
proof -
  obtain im where im: "indexed_save sample_index indexed_new 6 (8, 1) = Inr im"
    "indexed_save sample_index im 4 (7, 1) = Inr sample_indexed"
    by (simp add: indexed_eval)
  show ?thesis by (rule run_save [OF run_save [OF run_new im(1)] im(2)])
qed

lemma indexed_map_lookups_faithful_witness:
  "unique_load sample_indexed 8 = Inr (6, 8, 1) \<and>
   multi_range (im_primary sample_indexed) (im_first sample_indexed) 1 = Inr [(4, 7, 1), (6, 8, 1)]"
  using indexed_map_lookups_faithful [OF sample_indexed_run, of 8 6 "(8, 1)" 1 0]
  by (simp add: sample_indexed_def sample_index_def)

lemma indexed_save_refuses_duplicates_witness:
  "indexed_save sample_index sample_indexed 5 (8, 2) = Inl DuplicateData \<and>
   (\<exists>k' v'. (k', v') \<in> set (im_primary sample_indexed) \<and> k' \<noteq> 5 \<and> fst v' = 8)"
proof -
  have "indexed_save sample_index sample_indexed 5 (8, 2) = Inl DuplicateData"
    by (simp add: indexed_eval)
  with indexed_save_refuses_duplicates [OF sample_indexed_run, of 5 "(8, 2)"] show ?thesis
    by (simp add: sample_index_def)
qed

end
