(* ===== verification/Dec_Coins.thy ===== *)
theory Dec_Coins
  imports Context
begin

text \<open>
  Coins with decimal amounts, \<^verbatim>\<open>grug/types/src/dec_coin.rs\<close>, and the builder of a batch of transfers,
  \<^verbatim>\<open>grug/types/src/transfer.rs\<close>. Contracts add up decimal refunds and fees in them and round once at
  the end. An amount is the raw 128-bit word of a decimal with \<open>s\<close> places. The lemmas give the exact
  effect of each operation; the theorem is that rounding each user's amount down never pays out more
  than the rounded total.
\<close>

record dec_coin =
  dc_denom :: denom
  dc_amount :: udec

type_synonym dec_coins = "(denom, udec) omap"

definition mk_dec_coin :: "denom \<Rightarrow> udec \<Rightarrow> dec_coin" where
  "mk_dec_coin d a = \<lparr>dc_denom = d, dc_amount = a\<rparr>"

lemma mk_dec_coin_simps [simp]: "dc_denom (mk_dec_coin d a) = d" "dc_amount (mk_dec_coin d a) = a"
  by (simp_all add: mk_dec_coin_def)

definition dec_coins_new :: dec_coins where
  "dec_coins_new = []"

definition dec_coins_insert :: "nat \<Rightarrow> dec_coins \<Rightarrow> dec_coin \<Rightarrow> dec_coins res" where
  "dec_coins_insert s cs c =
     (case map_of cs (dc_denom c) of
        None \<Rightarrow> if is_non_zero (dc_amount c) then Inr (om_insert (dc_denom c) (dc_amount c) cs) else Inr cs
      | Some amount \<Rightarrow>
          and_then (dec_add s s amount (dc_amount c)) (\<lambda>a. Inr (om_insert (dc_denom c) a cs)))"

definition dec_coins_insert_many :: "nat \<Rightarrow> dec_coins \<Rightarrow> dec_coins \<Rightarrow> dec_coins res" where
  "dec_coins_insert_many s cs = try_fold (\<lambda>cs (d, a). dec_coins_insert s cs (mk_dec_coin d a)) cs"

text \<open>Rounding every amount, and dropping what becomes zero.\<close>

definition round_coins :: "(udec \<Rightarrow> u128 res) \<Rightarrow> dec_coins \<Rightarrow> coins res" where
  "round_coins f cs =
     and_then (try_map (\<lambda>(d, a). and_then (f a) (\<lambda>i. Inr (d, i))) cs) (\<lambda>xs.
       Inr (filter (\<lambda>(d, i). is_non_zero i) xs))"

definition into_coins_floor :: "nat \<Rightarrow> dec_coins \<Rightarrow> coins res" where
  "into_coins_floor s = round_coins (into_int_floor s)"

definition into_coins_ceil :: "nat \<Rightarrow> dec_coins \<Rightarrow> coins res" where
  "into_coins_ceil s = round_coins (into_int_ceil s)"

subsection \<open>Transfer builders (transfer.rs)\<close>

type_synonym dec_transfers = "(addr, dec_coins) omap"

definition transfers_new :: dec_transfers where
  "transfers_new = []"

text \<open>\<open>get_mut\<close> creates an empty entry; what the caller does with it is \<open>f\<close>.\<close>

definition transfers_update ::
    "dec_transfers \<Rightarrow> addr \<Rightarrow> (dec_coins \<Rightarrow> dec_coins res) \<Rightarrow> dec_transfers res" where
  "transfers_update b user f =
     may_update user (\<lambda>cs. f (case cs of None \<Rightarrow> dec_coins_new | Some cs \<Rightarrow> cs)) b"

definition transfers_insert :: "nat \<Rightarrow> dec_transfers \<Rightarrow> addr \<Rightarrow> denom \<Rightarrow> udec \<Rightarrow> dec_transfers res" where
  "transfers_insert s b user d a =
     transfers_update b user (\<lambda>cs. dec_coins_insert s cs (mk_dec_coin d a))"

definition transfers_insert_many :: "nat \<Rightarrow> dec_transfers \<Rightarrow> addr \<Rightarrow> dec_coins \<Rightarrow> dec_transfers res" where
  "transfers_insert_many s b user xs = transfers_update b user (\<lambda>cs. dec_coins_insert_many s cs xs)"

definition transfers_into_batch :: "nat \<Rightarrow> dec_transfers \<Rightarrow> (addr, coins) omap res" where
  "transfers_into_batch s b =
     and_then (try_map (\<lambda>(user, cs). and_then (into_coins_floor s cs) (\<lambda>c. Inr (user, c))) b) (\<lambda>xs.
       Inr (filter (\<lambda>(user, c). coins_is_non_empty c) xs))"

subsection \<open>Effects\<close>

lemma om_amount_Nil [simp]: "om_amount [] k = 0"
  by (simp add: om_amount_def)

lemma om_amount_insert:
  "om_ok m \<Longrightarrow> om_amount (om_insert k v m) k' = (if k' = k then unat v else om_amount m k')"
  by (simp add: om_amount_def map_of_om_insert)

lemma dec_coins_insert_Inr:
  assumes "om_ok cs" and "dec_coins_insert s cs c = Inr cs'"
  shows "om_ok cs' \<and> om_amount cs' d = om_amount cs d + (if d = dc_denom c then unat (dc_amount c) else 0)"
proof (cases "map_of cs (dc_denom c)")
  case None
  then have "om_amount cs (dc_denom c) = 0" by (simp add: om_amount_def)
  with None assms show ?thesis
    by (auto simp: dec_coins_insert_def om_ok_insert om_amount_insert zero_defs split: if_splits)
next
  case (Some a)
  then have a: "om_amount cs (dc_denom c) = unat a" by (simp add: om_amount_def)
  from Some assms(2) obtain b where "checked_add a (dc_amount c) = Inr b"
    and cs': "cs' = om_insert (dc_denom c) b cs"
    by (auto simp: dec_coins_insert_def dec_add_def result_iff)
  then have "unat b = unat a + unat (dc_amount c)" by (simp only: checked_add_Inr)
  with a assms(1) show ?thesis by (auto simp: cs' om_ok_insert om_amount_insert)
qed

lemma dec_coins_insert_total:
  assumes "om_amount cs (dc_denom c) + unat (dc_amount c) < 2 ^ 128"
  shows "\<exists>cs'. dec_coins_insert s cs c = Inr cs'"
  using assms
  by (auto simp: dec_coins_insert_def dec_add_def checked_add_def om_amount_def split: option.splits)

lemma round_coins_eq:
  assumes "om_ok cs" and "\<And>a. f a = Inr (g a)" and "g 0 = 0"
  shows "\<exists>c. round_coins f cs = Inr c \<and> coins_ok c \<and> (\<forall>d. amount_of c d =
    g (case map_of cs d of None \<Rightarrow> 0 | Some a \<Rightarrow> a))"
proof -
  let ?xs = "map (\<lambda>(d, a). (d, g a)) cs"
  have "try_map (\<lambda>(d, a). and_then (f a) (\<lambda>i. Inr (d, i))) ys = Inr (map (\<lambda>(d, a). (d, g a)) ys)" for ys
    by (induction ys) (auto simp: assms(2))
  from this [of cs] have r: "round_coins f cs = Inr (filter (\<lambda>(d, i). is_non_zero i) ?xs)"
    by (simp only: round_coins_def and_then_simps)
  have ok: "om_ok ?xs" using assms(1) by (simp add: om_ok_def comp_def case_prod_beta)
  have look: "map_of ?xs d = map_option g (map_of cs d)" for d by (simp add: map_of_map)
  have filt: "map_of (filter (\<lambda>(d, i). is_non_zero i) xs) d =
      (case map_of xs d of None \<Rightarrow> None | Some i \<Rightarrow> if is_non_zero i then Some i else None)"
    if "om_ok xs" for xs :: coins and d
    using that
  proof (induction xs)
    case (Cons e xs)
    obtain k i where e: "e = (k, i)" by (cases e)
    from Cons.prems have "om_ok xs" "map_of xs k = None" by (auto simp: e om_ok_Cons intro!: map_of_notin)
    with Cons.IH show ?case by (auto simp: e)
  qed simp
  have "coins_ok (filter (\<lambda>(d, i). is_non_zero i) ?xs)"
    using om_ok_filter [OF ok] by (auto simp: coins_ok_def zero_defs)
  moreover have "amount_of (filter (\<lambda>(d, i). is_non_zero i) ?xs) d =
      g (case map_of cs d of None \<Rightarrow> 0 | Some a \<Rightarrow> a)" for d
    unfolding amount_of_def filt [OF ok] look by (cases "map_of cs d") (simp_all add: assms(3) zero_defs)
  ultimately show ?thesis using r by blast
qed

lemma into_coins_floor_total:
  assumes "om_ok cs" and "s \<le> 38"
  shows "\<exists>c. into_coins_floor s cs = Inr c \<and> coins_ok c \<and>
    (\<forall>d. unat (amount_of c d) = om_amount cs d div 10 ^ s)"
proof -
  have "\<exists>r. into_int_floor s a = Inr r" for a :: u128
  proof -
    have "unat a div 10 ^ s < 2 ^ 128"
      using le_less_trans [OF div_le_dividend unat_less_pow [of a]] by simp
    then have "unat (of_nat (unat a div 10 ^ s) :: u128) = unat a div 10 ^ s"
      unfolding unat_of_nat by (intro mod_less) simp
    then show ?thesis using into_int_128(2) [OF assms(2)] by blast
  qed
  then obtain g where g: "\<And>a :: u128. into_int_floor s a = Inr (g a)" by metis
  then have ga: "unat (g a) = unat a div 10 ^ s" for a :: u128
    using into_int_128(2) [OF assms(2)] by blast
  have "g 0 = 0" using ga [of 0] by (simp add: unat_eq_zero)
  from round_coins_eq [of cs "into_int_floor s" g, OF assms(1) g this] obtain c where
    "into_coins_floor s cs = Inr c" "coins_ok c"
    "\<And>d. amount_of c d = g (case map_of cs d of None \<Rightarrow> 0 | Some a \<Rightarrow> a)"
    unfolding into_coins_floor_def by blast
  then show ?thesis by (intro exI [of _ c]) (simp add: om_amount_def ga)
qed

lemma into_coins_ceil_total:
  assumes "om_ok cs" and "s \<le> 38"
  shows "\<exists>c. into_coins_ceil s cs = Inr c \<and> coins_ok c \<and>
    (\<forall>d. unat (amount_of c d) = ceil_div (om_amount cs d) (10 ^ s))"
proof -
  have "\<exists>r. into_int_ceil s a = Inr r" for a :: u128
  proof -
    have "ceil_div (unat a) (10 ^ s) \<le> unat a" by (simp add: ceil_div_le_iff)
    then have "ceil_div (unat a) (10 ^ s) < 2 ^ 128"
      using le_less_trans [OF _ unat_less_pow [of a]] by simp
    then have "unat (of_nat (ceil_div (unat a) (10 ^ s)) :: u128) = ceil_div (unat a) (10 ^ s)"
      unfolding unat_of_nat by (intro mod_less) simp
    then show ?thesis using into_int_ceil_128 [OF assms(2)] by blast
  qed
  then obtain g where g: "\<And>a :: u128. into_int_ceil s a = Inr (g a)" by metis
  then have ga: "unat (g a) = ceil_div (unat a) (10 ^ s)" for a :: u128
    using into_int_ceil_128 [OF assms(2)] by blast
  have "g 0 = 0" using ga [of 0] by (simp add: unat_eq_zero)
  from round_coins_eq [of cs "into_int_ceil s" g, OF assms(1) g this] obtain c where
    "into_coins_ceil s cs = Inr c" "coins_ok c"
    "\<And>d. amount_of c d = g (case map_of cs d of None \<Rightarrow> 0 | Some a \<Rightarrow> a)"
    unfolding into_coins_ceil_def by blast
  then show ?thesis by (intro exI [of _ c]) (simp add: om_amount_def ga)
qed

text \<open>What a batch holds of a denom, over all its users.\<close>

definition transfers_ok :: "dec_transfers \<Rightarrow> bool" where
  "transfers_ok b \<longleftrightarrow> om_ok b \<and> (\<forall>e \<in> set b. om_ok (snd e))"

definition transfers_total :: "dec_transfers \<Rightarrow> denom \<Rightarrow> nat" where
  "transfers_total b d = om_sum (\<lambda>user cs. om_amount cs d) b"

definition transfers_of :: "dec_transfers \<Rightarrow> addr \<Rightarrow> dec_coins" where
  "transfers_of b user = (case map_of b user of None \<Rightarrow> dec_coins_new | Some cs \<Rightarrow> cs)"

definition batch_total :: "(addr, coins) omap \<Rightarrow> denom \<Rightarrow> nat" where
  "batch_total b d = (\<Sum>(user, c)\<leftarrow>b. unat (amount_of c d))"

lemma transfers_new_ok [simp]: "transfers_ok transfers_new" "transfers_total transfers_new d = 0"
  by (simp_all add: transfers_ok_def transfers_new_def transfers_total_def)

lemma transfers_of_ok: "transfers_ok b \<Longrightarrow> om_ok (transfers_of b user)"
  by (force simp: transfers_of_def transfers_ok_def dec_coins_new_def split: option.splits dest: map_of_SomeD)

lemma transfers_update_Inr:
  assumes "transfers_ok b" and "transfers_update b user f = Inr b'"
    and "\<And>cs'. f (transfers_of b user) = Inr cs' \<Longrightarrow>
      om_ok cs' \<and> (\<forall>d. om_amount cs' d = om_amount (transfers_of b user) d + n d)"
  shows "transfers_ok b' \<and> transfers_total b' d = transfers_total b d + n d \<and>
    om_amount (transfers_of b' u) d = om_amount (transfers_of b u) d + (if u = user then n d else 0)"
proof -
  from assms(2) obtain cs' where cs': "f (transfers_of b user) = Inr cs'" and b': "b' = om_insert user cs' b"
    by (auto simp: transfers_update_def transfers_of_def result_iff)
  from assms(1) have ok: "om_ok b" "\<And>e. e \<in> set b \<Longrightarrow> om_ok (snd e)" by (auto simp: transfers_ok_def)
  have "transfers_ok b'"
    using ok assms(3) [OF cs'] by (auto simp: transfers_ok_def b' om_ok_insert om_insert_entries)
  moreover have "transfers_total b' d + om_amount (transfers_of b user) d = transfers_total b d + om_amount cs' d"
    using om_sum_insert [OF ok(1), of "\<lambda>user cs. om_amount cs d" user cs']
    by (simp add: transfers_total_def b' transfers_of_def weight_def dec_coins_new_def split: option.splits)
  ultimately show ?thesis
    using assms(3) [OF cs'] ok by (auto simp: transfers_of_def b' map_of_om_insert)
qed

lemma transfers_insert_Inr:
  assumes "transfers_ok b" and "transfers_insert s b user d0 a = Inr b'"
  shows "transfers_ok b' \<and> transfers_total b' d = transfers_total b d + (if d = d0 then unat a else 0) \<and>
    om_amount (transfers_of b' u) d =
      om_amount (transfers_of b u) d + (if u = user then if d = d0 then unat a else 0 else 0)"
  using dec_coins_insert_Inr [OF transfers_of_ok [OF assms(1)]]
  by (intro transfers_update_Inr [OF assms(1) assms(2) [unfolded transfers_insert_def]]) simp

lemma div_add_le: "a div k + b div k \<le> (a + b) div (k :: nat)"
proof (cases "k = 0")
  case False
  have "(a div k + b div k) * k \<le> a + b" by (simp add: add_mult_distrib add_mono)
  with False show ?thesis by (simp add: less_eq_div_iff_mult_less_eq)
qed simp

lemma transfers_into_batch_total:
  assumes "transfers_ok b" and "s \<le> 38"
  shows "\<exists>batch. transfers_into_batch s b = Inr batch \<and> om_ok batch \<and> (\<forall>e \<in> set batch. coins_ok (snd e)) \<and>
    (\<forall>d. batch_total batch d \<le> transfers_total b d div 10 ^ s)"
proof -
  have ex: "\<exists>xs. try_map (\<lambda>(user, cs). and_then (into_coins_floor s cs) (\<lambda>c. Inr (user, c))) ys = Inr xs \<and>
      map fst xs = map fst ys \<and> (\<forall>e \<in> set xs. coins_ok (snd e)) \<and>
      (\<forall>d. batch_total (filter (\<lambda>(user, c). coins_is_non_empty c) xs) d \<le> transfers_total ys d div 10 ^ s)"
    if "\<And>e. e \<in> set ys \<Longrightarrow> om_ok (snd e)" for ys
    using that
  proof (induction ys)
    case (Cons e ys)
    obtain u cs where e: "e = (u, cs)" by (cases e)
    from Cons.prems [of e] have "om_ok cs" by (simp add: e)
    with into_coins_floor_total [OF _ assms(2)] obtain c where c: "into_coins_floor s cs = Inr c" "coins_ok c"
      "\<And>d. unat (amount_of c d) = om_amount cs d div 10 ^ s" by blast
    have "\<And>e. e \<in> set ys \<Longrightarrow> om_ok (snd e)" using Cons.prems by simp
    from Cons.IH [OF this] obtain xs where xs: "try_map (\<lambda>(user, cs). and_then (into_coins_floor s cs) (\<lambda>c. Inr (user, c))) ys = Inr xs"
      "map fst xs = map fst ys" "\<And>e. e \<in> set xs \<Longrightarrow> coins_ok (snd e)"
      "\<And>d. batch_total (filter (\<lambda>(user, c). coins_is_non_empty c) xs) d \<le> transfers_total ys d div 10 ^ s"
      by blast
    have "batch_total (filter (\<lambda>(user, c). coins_is_non_empty c) ((u, c) # xs)) d
        \<le> transfers_total (e # ys) d div 10 ^ s" for d
      using c(3) [of d] xs(4) [of d] div_add_le [of "om_amount cs d" "10 ^ s" "transfers_total ys d"]
      by (auto simp: batch_total_def transfers_total_def e)
    moreover have "try_map (\<lambda>(user, cs). and_then (into_coins_floor s cs) (\<lambda>c. Inr (user, c))) (e # ys)
        = Inr ((u, c) # xs)"
      using c(1) xs(1) by (simp add: e)
    ultimately show ?case
      using c(2) xs(2,3) by (intro exI [of _ "(u, c) # xs"]) (simp add: e)
  qed (simp add: batch_total_def)
  have "\<And>e. e \<in> set b \<Longrightarrow> om_ok (snd e)" using assms(1) by (simp add: transfers_ok_def)
  from ex [OF this] obtain xs where xs: "try_map (\<lambda>(user, cs). and_then (into_coins_floor s cs) (\<lambda>c. Inr (user, c))) b = Inr xs"
    "map fst xs = map fst b" "\<And>e. e \<in> set xs \<Longrightarrow> coins_ok (snd e)"
    "\<And>d. batch_total (filter (\<lambda>(user, c). coins_is_non_empty c) xs) d \<le> transfers_total b d div 10 ^ s"
    by blast
  let ?batch = "filter (\<lambda>(user, c). coins_is_non_empty c) xs"
  have "om_ok xs" using assms(1) xs(2) by (simp add: transfers_ok_def om_ok_def)
  then have "om_ok ?batch" by (rule om_ok_filter)
  moreover have "\<forall>e \<in> set ?batch. coins_ok (snd e)" using xs(3) by simp
  moreover have "transfers_into_batch s b = Inr ?batch" by (simp only: transfers_into_batch_def xs(1) and_then_simps)
  ultimately show ?thesis using xs(4) by blast
qed

end
