(* ===== verification/Dex_Types.thy ===== *)
theory Dex_Types
  imports Context
begin

text \<open>
  The order types of the exchange, \<^verbatim>\<open>dango/types/src/dex\<close>: directions, time in force, orders, and
  the keys of the order map. Amounts of base and quote in an order book are \<open>Udec128_6\<close> (raw word at
  \<open>10 ^ -6\<close>), prices are \<open>Udec128_24\<close> (raw word at \<open>10 ^ -24\<close>, quote per base), rates are \<open>Udec128\<close>
  (\<open>10 ^ -18\<close>). Directions and times in force are ordered as their storage keys are.
\<close>

datatype direction = Bid | Ask

datatype time_in_force = GoodTilCanceled | ImmediateOrCancel

instantiation direction :: linorder
begin

definition less_eq_direction :: "direction \<Rightarrow> direction \<Rightarrow> bool" where
  "less_eq_direction a b \<longleftrightarrow> a = Bid \<or> b = Ask"

definition less_direction :: "direction \<Rightarrow> direction \<Rightarrow> bool" where
  "less_direction a b \<longleftrightarrow> a = Bid \<and> b = Ask"

instance
proof
  fix x y z :: direction
  show "x < y \<longleftrightarrow> x \<le> y \<and> \<not> y \<le> x"
    by (cases x; cases y) (simp_all add: less_eq_direction_def less_direction_def)
  show "x \<le> x" by (cases x) (simp_all add: less_eq_direction_def)
  show "x \<le> y \<Longrightarrow> y \<le> z \<Longrightarrow> x \<le> z" by (cases x; cases y; cases z) (simp_all add: less_eq_direction_def)
  show "x \<le> y \<Longrightarrow> y \<le> x \<Longrightarrow> x = y" by (cases x; cases y) (simp_all add: less_eq_direction_def)
  show "x \<le> y \<or> y \<le> x" by (cases x; cases y) (simp_all add: less_eq_direction_def)
qed

end

instantiation time_in_force :: linorder
begin

definition less_eq_time_in_force :: "time_in_force \<Rightarrow> time_in_force \<Rightarrow> bool" where
  "less_eq_time_in_force a b \<longleftrightarrow> a = GoodTilCanceled \<or> b = ImmediateOrCancel"

definition less_time_in_force :: "time_in_force \<Rightarrow> time_in_force \<Rightarrow> bool" where
  "less_time_in_force a b \<longleftrightarrow> a = GoodTilCanceled \<and> b = ImmediateOrCancel"

instance
proof
  fix x y z :: time_in_force
  show "x < y \<longleftrightarrow> x \<le> y \<and> \<not> y \<le> x"
    by (cases x; cases y) (simp_all add: less_eq_time_in_force_def less_time_in_force_def)
  show "x \<le> x" by (cases x) (simp_all add: less_eq_time_in_force_def)
  show "x \<le> y \<Longrightarrow> y \<le> z \<Longrightarrow> x \<le> z"
    by (cases x; cases y; cases z) (simp_all add: less_eq_time_in_force_def)
  show "x \<le> y \<Longrightarrow> y \<le> x \<Longrightarrow> x = y" by (cases x; cases y) (simp_all add: less_eq_time_in_force_def)
  show "x \<le> y \<or> y \<le> x" by (cases x; cases y) (simp_all add: less_eq_time_in_force_def)
qed

end

record order =
  o_user :: addr
  o_id :: u64
  o_direction :: direction
  o_tif :: time_in_force
  o_price :: udec
  o_amount :: u128
  o_remaining :: udec
  o_created :: "u64 option"

type_synonym priced_order = "udec \<times> order"

type_synonym pair_key = "denom \<times> denom"

text \<open>\<open>((base_denom, quote_denom), direction, price, order_id)\<close>\<close>

type_synonym order_key = "pair_key \<times> direction \<times> udec \<times> u64"

definition order_fill :: "order \<Rightarrow> udec \<Rightarrow> order res" where
  "order_fill ord amount =
     and_then (dec_sub 6 6 (o_remaining ord) amount) (\<lambda>r. Inr (ord\<lparr>o_remaining := r\<rparr>))"

definition order_clear :: "order \<Rightarrow> order \<times> udec" where
  "order_clear ord = (ord\<lparr>o_remaining := 0\<rparr>, o_remaining ord)"

definition order_notional :: "priced_order \<Rightarrow> nat" where
  "order_notional = (\<lambda>(price, ord). unat (o_remaining ord) * unat price)"

lemma dec_sub_same_Inr [math_iff]: "dec_sub s s a b = Inr r \<longleftrightarrow> unat a = unat b + unat r"
  by (auto simp: dec_sub_def math_iff)

lemma dec_add_same_Inr [math_iff]: "dec_add s s a b = Inr r \<longleftrightarrow> unat r = unat a + unat b"
  by (auto simp: dec_add_def math_iff)

end
