(* ===== verification/Liquidity_Depth.thy ===== *)
theory Liquidity_Depth
  imports Dex_Types
begin

text \<open>
  The depth chart of the exchange, \<^verbatim>\<open>dango/dex/src/liquidity_depth.rs\<close>: for every pair, bucket size,
  direction and price bucket, the base and the quote amount of the resting orders in the bucket.
  Creating an order increases the bucket it falls in, for every bucket size of its pair; cancelling
  or filling one decreases it. The map is \<^verbatim>\<open>DEPTHS\<close> of \<^verbatim>\<open>dango/dex/src/state.rs\<close>. The lemmas give the
  exact effect of both operations on the number stored under every key, absent meaning zero.
\<close>

type_synonym depth_key = "pair_key \<times> udec \<times> direction \<times> udec"

type_synonym depths = "(depth_key, udec \<times> udec) omap"

text \<open>\<open>checked_floor\<close> and \<open>checked_ceil\<close> of an unsigned decimal, \<^verbatim>\<open>grug/math/src/decimal.rs\<close>.\<close>

definition checked_floor :: "nat \<Rightarrow> 'a::len word \<Rightarrow> 'a word res" where
  "checked_floor s x =
     and_then (checked_rem x (precision s)) (\<lambda>rem. if is_zero rem then Inr x else checked_sub x rem)"

definition checked_ceil :: "nat \<Rightarrow> 'a::len word \<Rightarrow> 'a word res" where
  "checked_ceil s x =
     and_then (checked_rem x (precision s)) (\<lambda>rem.
       if is_zero rem then Inr x
       else and_then (unwrap (checked_sub (precision s) rem)) (checked_add x))"

definition get_bucket :: "udec \<Rightarrow> direction \<Rightarrow> udec \<Rightarrow> udec res" where
  "get_bucket bucket_size dir price =
     and_then (dec_div 24 price bucket_size) (\<lambda>n.
     and_then (checked_floor 24 n) (\<lambda>n.
     and_then (dec_mul 24 n bucket_size) (\<lambda>lower.
       if dir = Ask \<and> lower < price then Inr (dec_saturating_add 24 24 lower bucket_size)
       else Inr lower)))"

text \<open>\<open>modify\<close> of a storage map: the entry must exist; it is written back or deleted.\<close>

definition om_modify :: "'k::linorder \<Rightarrow> ('v \<Rightarrow> 'v option res) \<Rightarrow> ('k, 'v) omap \<Rightarrow> ('k, 'v) omap res" where
  "om_modify k f m = and_then (om_load m k) (\<lambda>v. and_then (f v) (\<lambda>v'. Inr (om_set k v' m)))"

lemma om_modify_Inr [result_iff]:
  "om_modify k f m = Inr m' \<longleftrightarrow> (\<exists>v v'. map_of m k = Some v \<and> f v = Inr v' \<and> m' = om_set k v' m)"
  by (auto simp: om_modify_def result_iff)

definition increase_liquidity_depths ::
    "depths \<Rightarrow> pair_key \<Rightarrow> direction \<Rightarrow> udec \<Rightarrow> udec \<Rightarrow> udec list \<Rightarrow> depths res" where
  "increase_liquidity_depths ds pair dir price amount_base bucket_sizes =
     and_then (dec_mul 24 amount_base price) (\<lambda>amount_quote.
       try_fold (\<lambda>ds bucket_size.
         and_then (get_bucket bucket_size dir price) (\<lambda>bucket.
           may_update (pair, bucket_size, dir, bucket) (\<lambda>maybe_depths.
             (let (depth_base, depth_quote) = (case maybe_depths of None \<Rightarrow> (0, 0) | Some d \<Rightarrow> d)
              in and_then (dec_add 6 6 depth_base amount_base) (\<lambda>depth_base.
                 and_then (dec_add 6 6 depth_quote amount_quote) (\<lambda>depth_quote.
                   Inr (depth_base, depth_quote))))) ds)) ds bucket_sizes)"

definition decrease_liquidity_depths ::
    "depths \<Rightarrow> pair_key \<Rightarrow> direction \<Rightarrow> udec \<Rightarrow> udec \<Rightarrow> udec list \<Rightarrow> depths res" where
  "decrease_liquidity_depths ds pair dir price amount_base bucket_sizes =
     and_then (dec_mul 24 amount_base price) (\<lambda>amount_quote.
       try_fold (\<lambda>ds bucket_size.
         and_then (get_bucket bucket_size dir price) (\<lambda>bucket.
           om_modify (pair, bucket_size, dir, bucket) (\<lambda>(depth_base, depth_quote).
             and_then (dec_sub 6 6 depth_base amount_base) (\<lambda>depth_base.
             and_then (dec_sub 6 6 depth_quote amount_quote) (\<lambda>depth_quote.
               Inr (if is_non_zero depth_base \<or> is_non_zero depth_quote
                    then Some (depth_base, depth_quote) else None)))) ds)) ds bucket_sizes)"

subsection \<open>Buckets\<close>

lemma checked_floor_Inr:
  fixes x r :: u128
  assumes "s \<le> 38"
  shows "checked_floor s x = Inr r \<longleftrightarrow> unat r = unat x div 10 ^ s * 10 ^ s"
proof -
  have "10 ^ s \<le> (10 :: nat) ^ 38" using assms by (intro power_increasing) simp_all
  then have p: "unat (precision s :: u128) = 10 ^ s" by (intro unat_precision) simp
  then have "precision s \<noteq> (0 :: u128)" by (metis power_not_zero unat_0 zero_neq_numeral)
  then obtain m where m: "checked_rem x (precision s) = Inr m" "unat m = unat x mod 10 ^ s"
    by (metis checked_rem_def p unat_mod)
  have d: "unat x = unat x div 10 ^ s * 10 ^ s + unat x mod 10 ^ s" by (rule div_mult_mod_eq [symmetric])
  show ?thesis
  proof (cases "m = 0")
    case True
    then have "unat x mod 10 ^ s = 0" using m(2) by simp
    with d have "unat x = unat x div 10 ^ s * 10 ^ s" by linarith
    with True m(1) show ?thesis by (auto simp: checked_floor_def is_zero_def word_unat_eq_iff)
  next
    case False
    with m d show ?thesis by (auto simp: checked_floor_def is_zero_def checked_sub_Inr)
  qed
qed

text \<open>The lower bucket is the largest multiple of the bucket size that is not above the price.\<close>

lemma get_bucket_Inr:
  assumes "get_bucket bucket_size dir price = Inr b"
  shows "bucket_size \<noteq> 0 \<and>
    (let lower = unat price div unat bucket_size * unat bucket_size
     in if dir = Ask \<and> lower < unat price then unat b = min (2 ^ 128 - 1) (lower + unat bucket_size)
        else unat b = lower)"
proof -
  from assms obtain n k l where n: "dec_div 24 price bucket_size = Inr n" and k: "checked_floor 24 n = Inr k"
    and l: "dec_mul 24 k bucket_size = Inr l"
    and b: "b = (if dir = Ask \<and> l < price then dec_saturating_add 24 24 l bucket_size else l)"
    by (auto simp: get_bucket_def result_iff split: if_splits)
  have p: "unat (precision 24 :: u128) = 10 ^ 24" by (rule unat_precision) simp
  from n have bs: "unat bucket_size \<noteq> 0" and n': "unat n = unat price * 10 ^ 24 div unat bucket_size"
    by (auto simp: dec_div_def checked_multiply_ratio_Inr p)
  have "unat k = unat price div unat bucket_size * 10 ^ 24"
  proof -
    have "unat price * 10 ^ 24 div unat bucket_size div 10 ^ 24 = unat price div unat bucket_size"
      unfolding div_mult2_eq [symmetric] by (rule div_mult_mult2) simp
    then show ?thesis using k n' by (simp add: checked_floor_Inr)
  qed
  then have l': "unat l = unat price div unat bucket_size * unat bucket_size"
    using l by (simp add: dec_rounding_128 mult.commute mult.left_commute)
  have sat: "unat (dec_saturating_add 24 24 l bucket_size) = min (2 ^ 128 - 1) (unat l + unat bucket_size)"
  proof (cases "checked_add l bucket_size")
    case (Inl e)
    then have "\<not> unat l + unat bucket_size < 2 ^ 128" by (auto simp: checked_add_def split: if_splits)
    with Inl bs show ?thesis
      by (simp add: dec_saturating_add_def dec_add_def is_positive_unat unat_max_value)
  next
    case (Inr v)
    then have "unat v = unat l + unat bucket_size" by (simp only: checked_add_Inr)
    with Inr unat_less_pow [of v] show ?thesis by (simp add: dec_saturating_add_def dec_add_def)
  qed
  show ?thesis
    using bs l' sat by (auto simp: Let_def b word_less_nat_alt)
qed

text \<open>A price bucket brackets its price: for bids it is the largest multiple of the bucket size not
  above the price, for asks the smallest multiple not below it (or the largest price there is, where
  that multiple does not fit), and it never fails for a bucket size of at least one.\<close>

lemma bucket_brackets_price:
  "(get_bucket bucket_size dir price = Inr b \<longrightarrow> bucket_size \<noteq> 0 \<and>
      (case dir of
         Bid \<Rightarrow> unat bucket_size dvd unat b \<and> unat b \<le> unat price \<and> unat price < unat b + unat bucket_size
       | Ask \<Rightarrow> unat price \<le> unat b \<and> unat b < unat price + unat bucket_size \<and>
           (unat bucket_size dvd unat b \<or> unat b = 2 ^ 128 - 1)))
    \<and> (10 ^ 24 \<le> unat bucket_size \<longrightarrow> (\<exists>b. get_bucket bucket_size dir price = Inr b))"
proof (intro conjI impI)
  assume b: "get_bucket bucket_size dir price = Inr b"
  define L where "L = unat price div unat bucket_size * unat bucket_size"
  from get_bucket_Inr [OF b] show nz: "bucket_size \<noteq> 0" ..
  from get_bucket_Inr [OF b] have val: "if dir = Ask \<and> L < unat price
      then unat b = min (2 ^ 128 - 1) (L + unat bucket_size) else unat b = L"
    unfolding Let_def L_def by (rule conjunct2)
  have L: "L \<le> unat price" "unat bucket_size dvd L" by (simp_all add: L_def)
  have pos: "0 < unat bucket_size" using nz unat_gt_0 by blast
  then have up: "unat price < L + unat bucket_size"
    using dividend_less_div_times [of "unat bucket_size" "unat price"] unfolding L_def by linarith
  have max: "unat price \<le> 2 ^ 128 - 1" using unat_less_pow [of price] by simp
  show "case dir of
         Bid \<Rightarrow> unat bucket_size dvd unat b \<and> unat b \<le> unat price \<and> unat price < unat b + unat bucket_size
       | Ask \<Rightarrow> unat price \<le> unat b \<and> unat b < unat price + unat bucket_size \<and>
           (unat bucket_size dvd unat b \<or> unat b = 2 ^ 128 - 1)"
  proof (cases "dir = Ask \<and> L < unat price")
    case True
    then have v: "unat b = min (2 ^ 128 - 1) (L + unat bucket_size)" using val by (simp only: if_True)
    then have "unat b = 2 ^ 128 - 1 \<or> unat b = L + unat bucket_size" unfolding v min_def by presburger
    moreover have "unat bucket_size dvd L + unat bucket_size" using L(2) by simp
    moreover have "unat price \<le> unat b" unfolding v by (rule min.boundedI [OF max less_imp_le [OF up]])
    moreover have "unat b < unat price + unat bucket_size"
      using True min.cobounded2 [of "2 ^ 128 - 1" "L + unat bucket_size"] unfolding v by linarith
    ultimately show ?thesis using True by auto
  next
    case False
    then have "unat b = L" using val by (simp only: if_False)
    moreover have "dir = Ask \<Longrightarrow> L = unat price" using False L(1) by simp
    ultimately show ?thesis using L up pos by (cases dir) simp_all
  qed
next
  assume bs: "10 ^ 24 \<le> unat bucket_size"
  have p: "unat (precision 24 :: u128) = 10 ^ 24" by (rule unat_precision) simp
  have "unat price * 10 ^ 24 div unat bucket_size \<le> unat price"
  proof -
    have "unat price * 10 ^ 24 div unat bucket_size \<le> unat price * 10 ^ 24 div 10 ^ 24"
      by (rule div_le_mono2 [OF _ bs]) simp
    also have "\<dots> = unat price" by (rule nonzero_mult_div_cancel_right) simp
    finally show ?thesis .
  qed
  then have "unat price * 10 ^ 24 div unat bucket_size < 2 ^ 128"
    by (rule le_less_trans) (use unat_less_pow [of price] in simp)
  moreover have "bucket_size \<noteq> 0" using bs by auto
  ultimately obtain n where n: "dec_div 24 price bucket_size = Inr n"
    using ratio_eval(1) [of bucket_size price "precision 24"] unfolding dec_div_def by (simp add: p)
  have small: "\<exists>r :: u128. unat r = k" if "k < 2 ^ 128" for k
    by (rule exI [of _ "of_nat k"]) (use that in \<open>simp add: unat_of_nat\<close>)
  obtain k where k: "checked_floor 24 n = Inr k" "unat k = unat n div 10 ^ 24 * 10 ^ 24"
    using small [of "unat n div 10 ^ 24 * 10 ^ 24"] checked_floor_Inr [of 24 n]
      unat_less_pow [of n] div_times_less_eq_dividend [of "unat n" "10 ^ 24"] by (auto simp del: div_times_less_eq_dividend)
  have "unat n = unat price * 10 ^ 24 div unat bucket_size"
    using n by (auto simp: dec_div_def checked_multiply_ratio_Inr p)
  have "unat k * unat bucket_size div 10 ^ 24 \<le> unat price"
  proof -
    have "unat k * unat bucket_size \<le> unat n * unat bucket_size" using k(2) by simp
    also have "\<dots> \<le> unat price * 10 ^ 24"
      unfolding \<open>unat n = _\<close> by simp
    finally show ?thesis by (metis div_le_mono nonzero_mult_div_cancel_right power_not_zero zero_neq_numeral)
  qed
  then have "unat k * unat bucket_size div 10 ^ 24 < 2 ^ 128" by (rule le_less_trans) (use unat_less_pow [of price] in simp)
  then obtain l where l: "dec_mul 24 k bucket_size = Inr l"
    using small by (auto simp: dec_rounding_128)
  show "\<exists>b. get_bucket bucket_size dir price = Inr b"
    by (simp add: get_bucket_def n k(1) l)
qed

lemma bucket_brackets_price_witness:
  "get_bucket 2 Ask 5 = Inr 6 \<and> unat (5 :: udec) \<le> 6 \<and> (6 :: nat) < 5 + 2 \<and> (2 :: nat) dvd 6"
proof -
  have run: "get_bucket 2 Ask 5 = Inr 6"
    by (simp add: get_bucket_def dec_div_def checked_floor_def checked_rem_def dec_mul_eq_ratio
        dec_saturating_add_def dec_add_def dec_eval)
  show ?thesis using bucket_brackets_price [of 2 Ask 5 6] run by simp
qed

subsection \<open>Effects\<close>

definition depth_base :: "depths \<Rightarrow> depth_key \<Rightarrow> nat" where
  "depth_base ds key = (case map_of ds key of None \<Rightarrow> 0 | Some d \<Rightarrow> unat (fst d))"

definition depth_quote :: "depths \<Rightarrow> depth_key \<Rightarrow> nat" where
  "depth_quote ds key = (case map_of ds key of None \<Rightarrow> 0 | Some d \<Rightarrow> unat (snd d))"

text \<open>Whether an order of a direction and a price counts towards a key.\<close>

definition in_bucket :: "udec list \<Rightarrow> pair_key \<Rightarrow> direction \<Rightarrow> udec \<Rightarrow> depth_key \<Rightarrow> bool" where
  "in_bucket bucket_sizes pair dir price key \<longleftrightarrow>
     (\<exists>b \<in> set bucket_sizes. \<exists>k. get_bucket b dir price = Inr k \<and> key = (pair, b, dir, k))"

lemma in_bucket_Cons:
  assumes "get_bucket b dir price = Inr k"
  shows "in_bucket (b # bs) pair dir price key \<longleftrightarrow> key = (pair, b, dir, k) \<or> in_bucket bs pair dir price key"
  using assms by (auto simp: in_bucket_def)

lemma in_bucket_Nil [simp]: "\<not> in_bucket [] pair dir price key"
  by (simp add: in_bucket_def)

lemma not_in_bucket: "b \<notin> set bs \<Longrightarrow> \<not> in_bucket bs pair dir price (pair', b, dir', k)"
  by (auto simp: in_bucket_def)

definition depth_shift :: "depths \<Rightarrow> depths \<Rightarrow> (depth_key \<Rightarrow> bool) \<Rightarrow> nat \<Rightarrow> nat \<Rightarrow> bool" where
  "depth_shift ds ds' hit base quote \<longleftrightarrow> (\<forall>key.
     depth_base ds' key = depth_base ds key + (if hit key then base else 0) \<and>
     depth_quote ds' key = depth_quote ds key + (if hit key then quote else 0))"

lemma increase_liquidity_depths_Inr:
  assumes "increase_liquidity_depths ds pair dir price amount bs = Inr ds'" and "om_ok ds" and "distinct bs"
  shows "om_ok ds' \<and> (\<forall>b \<in> set bs. \<exists>k. get_bucket b dir price = Inr k) \<and>
    (\<exists>q. dec_mul 24 amount price = Inr q \<and>
      depth_shift ds ds' (in_bucket bs pair dir price) (unat amount) (unat q))"
proof -
  from assms(1) obtain q where q: "dec_mul 24 amount price = Inr q"
    by (auto simp: increase_liquidity_depths_def result_iff)
  note run = assms(1) [unfolded increase_liquidity_depths_def q and_then_simps]
  have "om_ok ds' \<and> (\<forall>b \<in> set bs. \<exists>k. get_bucket b dir price = Inr k) \<and>
      depth_shift ds ds' (in_bucket bs pair dir price) (unat amount) (unat q)"
    using run assms(2,3)
  proof (induction bs arbitrary: ds)
    case Nil
    then show ?case by (simp add: depth_shift_def)
  next
    case (Cons b bs)
    from Cons.prems(1) obtain k d1 d2 t where k: "get_bucket b dir price = Inr k"
      and d: "dec_add 6 6 (fst (case map_of ds (pair, b, dir, k) of None \<Rightarrow> (0, 0) | Some d \<Rightarrow> d)) amount = Inr d1"
        "dec_add 6 6 (snd (case map_of ds (pair, b, dir, k) of None \<Rightarrow> (0, 0) | Some d \<Rightarrow> d)) q = Inr d2"
      and t: "t = om_insert (pair, b, dir, k) (d1, d2) ds"
      and rest: "try_fold (\<lambda>ds bucket_size.
         and_then (get_bucket bucket_size dir price) (\<lambda>bucket.
           may_update (pair, bucket_size, dir, bucket) (\<lambda>maybe_depths.
             (let (depth_base, depth_quote) = (case maybe_depths of None \<Rightarrow> (0, 0) | Some d \<Rightarrow> d)
              in and_then (dec_add 6 6 depth_base amount) (\<lambda>depth_base.
                 and_then (dec_add 6 6 depth_quote q) (\<lambda>depth_quote.
                   Inr (depth_base, depth_quote))))) ds)) t bs = Inr ds'"
      by (auto simp: result_iff Let_def case_prod_beta)
    have d': "unat d1 = depth_base ds (pair, b, dir, k) + unat amount"
      "unat d2 = depth_quote ds (pair, b, dir, k) + unat q"
      using d by (auto simp: depth_base_def depth_quote_def dec_add_def checked_add_Inr split: option.splits)
    have t_ok: "om_ok t" using Cons.prems(2) by (simp add: t om_ok_insert)
    from Cons.IH [OF rest t_ok] Cons.prems(3) have ih: "om_ok ds'" "\<forall>b \<in> set bs. \<exists>k. get_bucket b dir price = Inr k"
      "depth_shift t ds' (in_bucket bs pair dir price) (unat amount) (unat q)" by auto
    have step: "depth_base t key = depth_base ds key + (if key = (pair, b, dir, k) then unat amount else 0)"
      "depth_quote t key = depth_quote ds key + (if key = (pair, b, dir, k) then unat q else 0)" for key
      using d' Cons.prems(2) by (auto simp: t depth_base_def depth_quote_def map_of_om_insert)
    have "\<not> in_bucket bs pair dir price (pair, b, dir, k)"
      using Cons.prems(3) by (intro not_in_bucket) simp
    with ih step k show ?case by (auto simp: depth_shift_def in_bucket_Cons [OF k])
  qed
  with q show ?thesis by blast
qed

lemma decrease_step_Inr:
  assumes "om_modify key (\<lambda>(depth_base, depth_quote).
      and_then (dec_sub 6 6 depth_base amount) (\<lambda>depth_base.
      and_then (dec_sub 6 6 depth_quote q) (\<lambda>depth_quote.
        Inr (if is_non_zero depth_base \<or> is_non_zero depth_quote
             then Some (depth_base, depth_quote) else None)))) ds = Inr t" and "om_ok ds"
  shows "om_ok t \<and> depth_shift t ds (\<lambda>k. k = key) (unat amount) (unat q)"
proof -
  from assms(1) obtain b1 q1 b2 q2 where d: "map_of ds key = Some (b1, q1)"
    "checked_sub b1 amount = Inr b2" "checked_sub q1 q = Inr q2"
    and t: "t = om_set key (if is_non_zero b2 \<or> is_non_zero q2 then Some (b2, q2) else None) ds"
    by (auto simp: result_iff dec_sub_def)
  from d(2,3) have "unat b1 = unat amount + unat b2" "unat q1 = unat q + unat q2"
    by (simp_all only: checked_sub_Inr)
  with d(1) assms(2) show ?thesis
    by (auto simp: t depth_shift_def depth_base_def depth_quote_def map_of_om_set om_ok_set zero_defs)
qed

lemma decrease_liquidity_depths_Inr:
  assumes "decrease_liquidity_depths ds pair dir price amount bs = Inr ds'" and "om_ok ds" and "distinct bs"
  shows "om_ok ds' \<and> (\<exists>q. dec_mul 24 amount price = Inr q \<and>
      depth_shift ds' ds (in_bucket bs pair dir price) (unat amount) (unat q))"
proof -
  from assms(1) obtain q where q: "dec_mul 24 amount price = Inr q"
    by (auto simp: decrease_liquidity_depths_def result_iff)
  note run = assms(1) [unfolded decrease_liquidity_depths_def q and_then_simps]
  have "om_ok ds' \<and> depth_shift ds' ds (in_bucket bs pair dir price) (unat amount) (unat q)"
    using run assms(2,3)
  proof (induction bs arbitrary: ds)
    case Nil
    then show ?case by (simp add: depth_shift_def)
  next
    case (Cons b bs)
    obtain k where k: "get_bucket b dir price = Inr k" using Cons.prems(1) by (auto simp: result_iff)
    note p = Cons.prems(1) [unfolded try_fold.simps k and_then_simps]
    from p obtain t where step: "om_modify (pair, b, dir, k) (\<lambda>(depth_base, depth_quote).
      and_then (dec_sub 6 6 depth_base amount) (\<lambda>depth_base.
      and_then (dec_sub 6 6 depth_quote q) (\<lambda>depth_quote.
        Inr (if is_non_zero depth_base \<or> is_non_zero depth_quote
             then Some (depth_base, depth_quote) else None)))) ds = Inr t"
      by (rule and_thenE)
    note st = decrease_step_Inr [OF step Cons.prems(2)]
    note rest = p [unfolded step and_then_simps]
    from Cons.IH [OF rest] st Cons.prems(3) have ih: "om_ok ds'"
      "depth_shift ds' t (in_bucket bs pair dir price) (unat amount) (unat q)" by auto
    have "\<not> in_bucket bs pair dir price (pair, b, dir, k)"
      using Cons.prems(3) by (intro not_in_bucket) simp
    with ih st show ?case by (auto simp: depth_shift_def in_bucket_Cons [OF k])
  qed
  with q show ?thesis by blast
qed

lemma decrease_liquidity_depths_total:
  assumes "om_ok ds" and "distinct bs" and "dec_mul 24 amount price = Inr q"
    and "\<And>b. b \<in> set bs \<Longrightarrow> \<exists>k. get_bucket b dir price = Inr k"
    and "\<And>key. in_bucket bs pair dir price key \<Longrightarrow>
      map_of ds key \<noteq> None \<and> unat amount \<le> depth_base ds key \<and> unat q \<le> depth_quote ds key"
  shows "\<exists>ds'. decrease_liquidity_depths ds pair dir price amount bs = Inr ds'"
  unfolding decrease_liquidity_depths_def assms(3) and_then_simps
  using assms(1,2,4,5)
proof (induction bs arbitrary: ds)
  case Nil
  then show ?case by simp
next
  case (Cons b bs)
  from Cons.prems(3) [of b] obtain k where k: "get_bucket b dir price = Inr k" by auto
  let ?key = "(pair, b, dir, k)"
  have key: "map_of ds ?key \<noteq> None" "unat amount \<le> depth_base ds ?key" "unat q \<le> depth_quote ds ?key"
    using Cons.prems(4) [of ?key] by (simp_all add: in_bucket_Cons [OF k])
  then obtain b1 q1 where d: "map_of ds ?key = Some (b1, q1)" by force
  with key have "amount \<le> b1" "q \<le> q1"
    by (simp_all add: depth_base_def depth_quote_def word_le_nat_alt)
  then obtain t where step: "om_modify ?key (\<lambda>(depth_base, depth_quote).
      and_then (dec_sub 6 6 depth_base amount) (\<lambda>depth_base.
      and_then (dec_sub 6 6 depth_quote q) (\<lambda>depth_quote.
        Inr (if is_non_zero depth_base \<or> is_non_zero depth_quote
             then Some (depth_base, depth_quote) else None)))) ds = Inr t"
    using d by (auto simp: om_modify_def om_load_def dec_sub_def checked_sub_def)
  note st = decrease_step_Inr [OF step Cons.prems(1)]
  have out: "in_bucket bs pair dir price key \<Longrightarrow> key \<noteq> ?key" for key
    using Cons.prems(2) not_in_bucket [of b bs pair dir price pair dir k] by auto
  have keep: "map_of t key = map_of ds key" if "key \<noteq> ?key" for key
    using step that Cons.prems(1) by (auto simp: result_iff map_of_om_set)
  have "\<exists>ds'. try_fold (\<lambda>ds bucket_size.
         and_then (get_bucket bucket_size dir price) (\<lambda>bucket.
           om_modify (pair, bucket_size, dir, bucket) (\<lambda>(depth_base, depth_quote).
             and_then (dec_sub 6 6 depth_base amount) (\<lambda>depth_base.
             and_then (dec_sub 6 6 depth_quote q) (\<lambda>depth_quote.
               Inr (if is_non_zero depth_base \<or> is_non_zero depth_quote
                    then Some (depth_base, depth_quote) else None)))) ds)) t bs = Inr ds'"
  proof (rule Cons.IH)
    fix key assume "in_bucket bs pair dir price key"
    then show "map_of t key \<noteq> None \<and> unat amount \<le> depth_base t key \<and> unat q \<le> depth_quote t key"
      using Cons.prems(4) [of key] keep [of key] out [of key]
      by (auto simp: in_bucket_Cons [OF k] depth_base_def depth_quote_def)
  qed (use st Cons.prems in auto)
  then show ?case by (simp add: k step)
qed

end
