(* ===== verification/Dex_State.thy ===== *)
theory Dex_State
  imports Taxman Xyk Indexed_Map Dec_Coins Liquidity_Depth
begin

text \<open>
  The storage of the exchange, \<^verbatim>\<open>dango/dex/src/state.rs\<close>, with the pair parameters, requests, events
  and outgoing messages of \<^verbatim>\<open>dango/types/src/dex\<close>. The order book \<open>dx_orders\<close> is an indexed map: its
  unique index is the order id, its multi indexes are the user and the time in force.
\<close>

subsection \<open>Pair parameters (pair.rs, price.rs)\<close>

record geometric_params =
  geo_spacing :: udec
  geo_ratio :: udec
  geo_limit :: nat

datatype passive_liquidity = PoolXyk xyk_params | PoolGeometric geometric_params

text \<open>The bucket sizes are a \<^verbatim>\<open>BTreeSet\<close>: the list of its elements in increasing order.\<close>

record pair_params =
  pp_lp_denom :: denom
  pp_pool_type :: passive_liquidity
  pp_bucket_sizes :: "udec list"
  pp_swap_fee_rate :: udec
  pp_min_order_size :: u128

record pair_update =
  pu_pair :: pair_key
  pu_params :: pair_params

record resting_book =
  rb_best_bid_price :: "udec option"
  rb_best_ask_price :: "udec option"
  rb_mid_price :: "udec option"

subsection \<open>Requests (msgs.rs)\<close>

datatype price_option = LimitPrice udec | MarketPrice udec

datatype amount_option = BidQuote u128 | AskBase u128

record create_order_request =
  cr_pair :: pair_key
  cr_price :: price_option
  cr_amount :: amount_option
  cr_tif :: time_in_force

fun request_direction :: "amount_option \<Rightarrow> direction" where
  "request_direction (BidQuote _) = Bid"
| "request_direction (AskBase _) = Ask"

datatype cancel_order_request = CancelSome "u64 list" | CancelAll

subsection \<open>Events (events.rs) and messages\<close>

record order_created =
  oc_user :: addr
  oc_id :: u64
  oc_tif :: time_in_force
  oc_pair :: pair_key
  oc_direction :: direction
  oc_price :: udec
  oc_amount :: u128
  oc_deposit :: coin

record order_canceled =
  ox_user :: addr
  ox_id :: u64
  ox_tif :: time_in_force
  ox_remaining :: udec
  ox_refund :: dec_coin
  ox_pair :: pair_key
  ox_direction :: direction
  ox_price :: udec
  ox_amount :: u128

record order_filled =
  of_user :: addr
  of_id :: u64
  of_tif :: time_in_force
  of_pair :: pair_key
  of_direction :: direction
  of_filled_base :: udec
  of_filled_quote :: udec
  of_refund_base :: udec
  of_refund_quote :: udec
  of_fee_base :: udec
  of_fee_quote :: udec
  of_clearing_price :: udec
  of_cleared :: bool

datatype dex_event =
    OrderCreated order_created
  | OrderCanceled order_canceled
  | OrdersMatched pair_key udec udec
  | OrderFilled order_filled
  | Swapped addr coin coin
  | DexPaused "error option"
  | DexUnpaused

datatype dex_msg =
    DexTransfer "(addr, coins) omap"
  | DexMint addr coins
  | DexBurn addr coins
  | DexPay fee_type "(addr, coins) omap" coins
  | DexAuction

subsection \<open>State (state.rs)\<close>

type_synonym order_book = "(order_key, order, u64, addr, time_in_force) indexed_map"

type_synonym username = string

record dex_state =
  dx_paused :: bool
  dx_pairs :: "(pair_key, pair_params) omap"
  dx_reserves :: "(pair_key, coin_pair) omap"
  dx_resting :: "(pair_key, resting_book) omap"
  dx_next_order_id :: "u64 option"
  dx_orders :: order_book
  dx_depths :: depths
  dx_volumes :: "(addr \<times> u128, udec) omap"
  dx_volumes_by_user :: "(username \<times> u128, udec) omap"

definition order_index :: "(order_key, order, u64, addr, time_in_force) index_list" where
  "order_index = \<lparr>ix_unique = (\<lambda>(_, _, _, order_id) _. order_id), ix_first = (\<lambda>_ ord. o_user ord),
     ix_second = (\<lambda>_ ord. o_tif ord)\<rparr>"

lemma order_index_simps [simp]:
  "ix_unique order_index (pair, dir, price, order_id) ord = order_id"
  "ix_first order_index key ord = o_user ord"
  "ix_second order_index key ord = o_tif ord"
  by (simp_all add: order_index_def)

definition book_save :: "dex_state \<Rightarrow> order_key \<Rightarrow> order \<Rightarrow> dex_state res" where
  "book_save st key ord =
     and_then (indexed_save order_index (dx_orders st) key ord) (\<lambda>b. Inr (st\<lparr>dx_orders := b\<rparr>))"

definition book_remove :: "dex_state \<Rightarrow> order_key \<Rightarrow> dex_state res" where
  "book_remove st key =
     and_then (indexed_remove order_index (dx_orders st) key) (\<lambda>b. Inr (st\<lparr>dx_orders := b\<rparr>))"

definition orders_of :: "dex_state \<Rightarrow> (order_key, order) omap" where
  "orders_of st = im_primary (dx_orders st)"

text \<open>The counter of order ids starts at one; the value before the increment is used.\<close>

definition next_order_id :: "dex_state \<Rightarrow> (u64 \<times> dex_state) res" where
  "next_order_id st =
     (let old_value = (case dx_next_order_id st of None \<Rightarrow> 1 | Some v \<Rightarrow> v)
      in and_then (checked_add old_value 1) (\<lambda>new_value.
           Inr (old_value, st\<lparr>dx_next_order_id := Some new_value\<rparr>)))"

text \<open>What a pair's depth chart does when an order comes or goes.\<close>

definition depths_up :: "dex_state \<Rightarrow> order_key \<Rightarrow> udec \<Rightarrow> udec list \<Rightarrow> dex_state res" where
  "depths_up st = (\<lambda>(pair, dir, price, _) amount bucket_sizes.
     and_then (increase_liquidity_depths (dx_depths st) pair dir price amount bucket_sizes) (\<lambda>ds.
       Inr (st\<lparr>dx_depths := ds\<rparr>)))"

definition depths_down :: "dex_state \<Rightarrow> order_key \<Rightarrow> udec \<Rightarrow> udec list \<Rightarrow> dex_state res" where
  "depths_down st = (\<lambda>(pair, dir, price, _) amount bucket_sizes.
     and_then (decrease_liquidity_depths (dx_depths st) pair dir price amount bucket_sizes) (\<lambda>ds.
       Inr (st\<lparr>dx_depths := ds\<rparr>)))"

end
