(* ===== verification/Oracle.thy ===== *)
theory Oracle
  imports Wormhole
begin

text \<open>
  The oracle contract, \<^verbatim>\<open>dango/oracle/src\<close>, with the prices of \<^verbatim>\<open>dango/types/src/oracle\<close>: feeding
  prices from verified Wormhole messages, registering price sources, looking up the price of a denom
  through its source, and converting amounts to values and back.
\<close>

subsection \<open>Prices (price.rs)\<close>

record price =
  pr_price :: udec
  pr_ema :: udec
  pr_time :: u128

record precisioned_price = price +
  pr_precision :: u8

definition with_precision :: "price \<Rightarrow> u8 \<Rightarrow> precisioned_price" where
  "with_precision p prec =
     \<lparr>pr_price = pr_price p, pr_ema = pr_ema p, pr_time = pr_time p, pr_precision = prec\<rparr>"

text \<open>\<open>10u128.pow(prec)\<close> is a native power: it panics when it overflows.\<close>

definition pow10 :: "u8 \<Rightarrow> u128 res" where
  "pow10 p = unwrap (checked_pow 10 (unat p))"

definition value_of_unit_amount :: "nat \<Rightarrow> precisioned_price \<Rightarrow> u128 \<Rightarrow> udec res" where
  "value_of_unit_amount s p unit_amount =
     and_then (convert_precision 18 s (pr_price p)) (\<lambda>price.
     and_then (pow10 (pr_precision p)) (\<lambda>unit.
     and_then (checked_from_ratio s unit_amount unit) (\<lambda>humanized.
       dec_mul s price humanized)))"

definition value_of_dec_amount :: "nat \<Rightarrow> nat \<Rightarrow> precisioned_price \<Rightarrow> udec \<Rightarrow> udec res" where
  "value_of_dec_amount s1 s2 p dec_amount =
     and_then (checked_full_mul dec_amount (pr_price p)) (\<lambda>num.
     and_then (if s1 < s2 then and_then (checked_pow 10 (s2 - s1)) (checked_mul num)
               else if s2 < s1 then and_then (checked_pow 10 (s1 - s2)) (checked_div num)
               else Inr num) (\<lambda>num.
     and_then (checked_div num (precision 18)) (\<lambda>num.
     and_then (checked_pow 10 (unat (pr_precision p))) (\<lambda>unit.
     and_then (checked_div num unit) checked_into_prev))))"

definition unit_amount_from_value :: "precisioned_price \<Rightarrow> udec \<Rightarrow> u128 res" where
  "unit_amount_from_value p v =
     and_then (pow10 (pr_precision p)) (\<lambda>unit.
     and_then (dec_div 18 v (pr_price p)) (checked_mul_dec 18 unit))"

definition unit_amount_from_value_ceil :: "precisioned_price \<Rightarrow> udec \<Rightarrow> u128 res" where
  "unit_amount_from_value_ceil p v =
     and_then (pow10 (pr_precision p)) (\<lambda>unit.
     and_then (dec_div 18 v (pr_price p)) (checked_mul_dec_ceil 18 unit))"

text \<open>Signed words of the feed: a negative price, a positive exponent or a negative time is refused; the
  smallest exponent cannot be negated.\<close>

definition unsigned_u128 :: "'a::len word \<Rightarrow> u128 res" where
  "unsigned_u128 x = (if 0 \<le> sint x then Inr (ucast x) else Inl (Bail ''out of range integral type conversion''))"

definition decimal_places :: "u32 \<Rightarrow> nat res" where
  "decimal_places expo =
     (if sint expo = - (2 ^ 31) then Inl Panic
      else if sint expo \<le> 0 then Inr (nat (- sint expo))
      else Inl (Bail ''out of range integral type conversion''))"

definition from_seconds :: "u128 \<Rightarrow> u128 res" where
  "from_seconds s = unwrap (checked_mul s 1000000000)"

definition price_from_feed :: "price_feed \<Rightarrow> price res" where
  "price_from_feed feed =
     and_then (unsigned_u128 (pf_price feed)) (\<lambda>atomics.
     and_then (decimal_places (pf_expo feed)) (\<lambda>places.
     and_then (checked_from_atomics 18 atomics places) (\<lambda>price.
     and_then (unsigned_u128 (pf_ema_price feed)) (\<lambda>ema_atomics.
     and_then (decimal_places (pf_expo feed)) (\<lambda>ema_places.
     and_then (checked_from_atomics 18 ema_atomics ema_places) (\<lambda>ema.
     and_then (unsigned_u128 (pf_publish_time feed)) (\<lambda>seconds.
     and_then (from_seconds seconds) (\<lambda>timestamp.
       Inr \<lparr>pr_price = price, pr_ema = ema, pr_time = timestamp\<rparr>))))))))"

subsection \<open>State (state.rs)\<close>

datatype price_source =
    FixedSource udec u8 u128
  | PythSource u256 u8
  | LendingLiquidity

record oracle_state =
  os_guardian_sets :: "(u32, guardian_set) omap"
  os_price_sources :: "(denom, price_source) omap"
  os_prices :: "(u256, price \<times> u64) omap"

subsection \<open>Execution (execute.rs)\<close>

definition oracle_instantiate ::
    "(u32 \<times> guardian_set) list \<Rightarrow> (denom \<times> price_source) list \<Rightarrow> oracle_state" where
  "oracle_instantiate guardian_sets price_sources =
     \<lparr>os_guardian_sets = fold (\<lambda>(i, gs). om_insert i gs) guardian_sets [],
      os_price_sources = fold (\<lambda>(d, s). om_insert d s) price_sources [],
      os_prices = []\<rparr>"

definition register_price_sources ::
    "addr res \<Rightarrow> ctx \<Rightarrow> oracle_state \<Rightarrow> (denom \<times> price_source) list \<Rightarrow> oracle_state res" where
  "register_price_sources owner cx st price_sources =
     and_then owner (\<lambda>chain_owner.
     and_then (ensure (ctx_sender cx = chain_owner) Unauthorized) (\<lambda>_.
       Inr (st\<lparr>os_price_sources := fold (\<lambda>(d, s). om_insert d s) price_sources (os_price_sources st)\<rparr>)))"

text \<open>Which of the stored and the new record is kept.\<close>

fun newer_record :: "price \<Rightarrow> u64 \<Rightarrow> (price \<times> u64) option \<Rightarrow> price \<times> u64" where
  "newer_record new_price new_sequence None = (new_price, new_sequence)"
| "newer_record new_price new_sequence (Some (current_price, current_sequence)) =
     (if pr_time current_price < pr_time new_price then (new_price, new_sequence)
      else if pr_time current_price = pr_time new_price \<and> current_sequence < new_sequence
      then (new_price, new_sequence)
      else (current_price, current_sequence))"

definition feed_one :: "u64 \<Rightarrow> oracle_state \<Rightarrow> price_feed \<Rightarrow> oracle_state res" where
  "feed_one new_sequence st feed =
     and_then (price_from_feed feed) (\<lambda>new_price.
     and_then (may_update (pf_id feed) (\<lambda>current. Inr (newer_record new_price new_sequence current)) (os_prices st))
       (\<lambda>prices. Inr (st\<lparr>os_prices := prices\<rparr>)))"

definition feed_vaa :: "crypto_api \<Rightarrow> pyth_lib \<Rightarrow> u128 \<Rightarrow> oracle_state \<Rightarrow> bytes \<Rightarrow> oracle_state res" where
  "feed_vaa api lib now st bs =
     and_then (pyth_vaa_new api lib bs) (\<lambda>vaa.
     and_then (pyth_vaa_verify api now (os_guardian_sets st) vaa) (\<lambda>feeds.
       try_fold (feed_one (wv_sequence (pv_wormhole_vaa vaa))) st feeds))"

definition feed_prices :: "crypto_api \<Rightarrow> pyth_lib \<Rightarrow> ctx \<Rightarrow> oracle_state \<Rightarrow> bytes list \<Rightarrow> oracle_state res" where
  "feed_prices api lib cx st vaas = try_fold (feed_vaa api lib (ctx_time cx)) st vaas"

datatype oracle_msg =
    RegisterPriceSources "(denom \<times> price_source) list"
  | FeedPrices "bytes list"

fun oracle_execute ::
    "crypto_api \<Rightarrow> pyth_lib \<Rightarrow> addr res \<Rightarrow> ctx \<Rightarrow> oracle_state \<Rightarrow> oracle_msg \<Rightarrow> oracle_state res" where
  "oracle_execute api lib owner cx st (RegisterPriceSources price_sources) =
     register_price_sources owner cx st price_sources"
| "oracle_execute api lib owner cx st (FeedPrices vaas) = feed_prices api lib cx st vaas"

text \<open>A transaction the oracle itself may send: exactly one message, which executes the oracle and feeds
  prices, and only when a block is finalized. Messages to other contracts are not told apart.\<close>

datatype tx_msg = ExecuteMsg addr "oracle_msg option" | OtherMsg

definition oracle_authenticate :: "bool \<Rightarrow> addr \<Rightarrow> tx_msg list \<Rightarrow> unit res" where
  "oracle_authenticate finalizing contract msgs =
     and_then (ensure finalizing Unauthorized) (\<lambda>_.
       (case msgs of
          [ExecuteMsg target payload] \<Rightarrow>
            and_then (ensure (target = contract) (Bail ''contract must be the oracle'')) (\<lambda>_.
              (case payload of
                 Some (FeedPrices _) \<Rightarrow> Inr ()
               | _ \<Rightarrow> Inl (Bail ''the execute message must be feed prices'')))
        | _ \<Rightarrow> Inl (Bail ''transaction must contain exactly one message'')))"

subsection \<open>Looking up a price (oracle\_querier.rs)\<close>

definition lending_prefix :: denom where
  "lending_prefix = [''lending'', ''pool'']"

lemma denom_strip_shorter:
  "denom_strip d lending_prefix = Inr (Some d') \<Longrightarrow> length d' < length d"
  by (auto simp: denom_strip_def lending_prefix_def split: if_splits)

text \<open>The supply index of a lending market is another contract's answer. A source that is given
  overrides the registered one, for the denom asked only.\<close>

function query_price ::
    "oracle_state \<Rightarrow> (denom \<Rightarrow> udec res) \<Rightarrow> denom \<Rightarrow> price_source option \<Rightarrow> precisioned_price res" where
  "query_price st supply_index d source =
     (case (case source of Some s \<Rightarrow> Inr s | None \<Rightarrow> om_load (os_price_sources st) d) of
        Inl e \<Rightarrow> Inl e
      | Inr (FixedSource humanized_price prec timestamp) \<Rightarrow>
          Inr (with_precision \<lparr>pr_price = humanized_price, pr_ema = humanized_price, pr_time = timestamp\<rparr> prec)
      | Inr (PythSource pyth_id prec) \<Rightarrow>
          (case om_load (os_prices st) pyth_id of
             Inl e \<Rightarrow> Inl e
           | Inr (price, _) \<Rightarrow> Inr (with_precision price prec))
      | Inr LendingLiquidity \<Rightarrow>
          (case denom_strip d lending_prefix of
             Inl e \<Rightarrow> Inl e
           | Inr None \<Rightarrow> Inl (Bail ''not a lending pool token'')
           | Inr (Some underlying_denom) \<Rightarrow>
               and_then (query_price st supply_index underlying_denom None) (\<lambda>underlying.
               and_then (supply_index underlying_denom) (\<lambda>index.
               and_then (dec_mul 18 (pr_price underlying) index) (\<lambda>price.
               and_then (dec_mul 18 (pr_ema underlying) index) (\<lambda>ema.
                 Inr (with_precision \<lparr>pr_price = price, pr_ema = ema, pr_time = pr_time underlying\<rparr>
                   (pr_precision underlying))))))))"
  by pat_completeness auto

termination
  by (relation "measure (\<lambda>(st, supply_index, d, source). length d)") (simp_all add: denom_strip_shorter)

declare query_price.simps [simp del]

text \<open>The querier of other contracts, with a bound on the age of a price.\<close>

definition fresh_price :: "u128 \<Rightarrow> precisioned_price res \<Rightarrow> precisioned_price res" where
  "fresh_price no_older_than r =
     and_then r (\<lambda>p. and_then (ensure (no_older_than \<le> pr_time p) (Bail ''price is too old'')) (\<lambda>_. Inr p))"

definition query_prices ::
    "oracle_state \<Rightarrow> (denom \<Rightarrow> udec res) \<Rightarrow> denom option \<Rightarrow> u32 option \<Rightarrow> (denom, precisioned_price) omap" where
  "query_prices st supply_index start_after limit =
     List.map_filter (\<lambda>(d, source). map_option (Pair d) (result_ok (query_price st supply_index d (Some source))))
       (page start_after limit (os_price_sources st))"

definition query_price_source :: "oracle_state \<Rightarrow> denom \<Rightarrow> price_source res" where
  "query_price_source st d = om_load (os_price_sources st) d"

definition query_price_sources :: "oracle_state \<Rightarrow> denom option \<Rightarrow> u32 option \<Rightarrow> (denom, price_source) omap" where
  "query_price_sources st start_after limit = page start_after limit (os_price_sources st)"

definition query_guardian_set :: "oracle_state \<Rightarrow> u32 \<Rightarrow> guardian_set res" where
  "query_guardian_set st index = om_load (os_guardian_sets st) index"

definition query_guardian_sets :: "oracle_state \<Rightarrow> u32 option \<Rightarrow> u32 option \<Rightarrow> (u32, guardian_set) omap" where
  "query_guardian_sets st start_after limit = page start_after limit (os_guardian_sets st)"

subsection \<open>Where a stored price comes from\<close>

text \<open>A record comes from a message if it is a feed of the message, and more than two thirds of a guardian set
  that has not expired at the given time signed the message.\<close>

definition signed_feed ::
    "crypto_api \<Rightarrow> pyth_lib \<Rightarrow> (u32, guardian_set) omap \<Rightarrow> u128 \<Rightarrow> bytes \<Rightarrow> u256 \<Rightarrow> price \<times> u64 \<Rightarrow> bool" where
  "signed_feed api lib sets now bs pyth_id record \<longleftrightarrow>
     (\<exists>vaa gs feed. pyth_vaa_new api lib bs = Inr vaa \<and>
       map_of sets (wv_guardian_set_index (pv_wormhole_vaa vaa)) = Some gs \<and>
       (\<forall>expiry. gs_expiration_time gs = Some expiry \<longrightarrow> now < expiry) \<and>
       2 * length (gs_addresses gs) <
         3 * card (signers api (wv_hash (pv_wormhole_vaa vaa)) gs (wv_signatures (pv_wormhole_vaa vaa))) \<and>
       feed \<in> set (pv_feeds vaa) \<and> pf_id feed = pyth_id \<and> price_from_feed feed = Inr (fst record) \<and>
       wv_sequence (pv_wormhole_vaa vaa) = snd record)"

text \<open>A record is at least as new as another one.\<close>

definition at_least :: "price \<times> u64 \<Rightarrow> price \<times> u64 \<Rightarrow> bool" where
  "at_least r r' \<longleftrightarrow> r' = r \<or> pr_time (fst r) < pr_time (fst r') \<or>
     (pr_time (fst r) = pr_time (fst r') \<and> snd r < snd r')"

lemma at_least_trans: "at_least r r' \<Longrightarrow> at_least r' r'' \<Longrightarrow> at_least r r''"
  by (auto simp: at_least_def)

lemma newer_record_cases:
  "newer_record p s current = (p, s) \<or> current = Some (newer_record p s current)"
  "\<And>r. current = Some r \<Longrightarrow> at_least r (newer_record p s current)"
  by (cases current; force simp: at_least_def)+

text \<open>What one message does to the prices, and a sequence of steps.\<close>

definition prices_evolve ::
    "(u256 \<Rightarrow> price \<times> u64 \<Rightarrow> bool) \<Rightarrow> (u256, price \<times> u64) omap \<Rightarrow> (u256, price \<times> u64) omap \<Rightarrow> bool" where
  "prices_evolve good m m' \<longleftrightarrow> om_ok m' \<and>
     (\<forall>k r. map_of m k = Some r \<longrightarrow> (\<exists>r'. map_of m' k = Some r' \<and> at_least r r')) \<and>
     (\<forall>k r. map_of m' k = Some r \<longrightarrow> map_of m k = Some r \<or> good k r)"

lemma prices_evolve_refl: "om_ok m \<Longrightarrow> prices_evolve good m m"
  by (auto simp: prices_evolve_def at_least_def)

lemma prices_evolve_trans:
  assumes "prices_evolve good m m1" and "prices_evolve good m1 m2"
  shows "prices_evolve good m m2"
  using assms unfolding prices_evolve_def by (meson at_least_trans)

lemma prices_evolve_insert:
  assumes "om_ok m" and "map_of m k = Some r' \<or> good k r'" and "\<And>r. map_of m k = Some r \<Longrightarrow> at_least r r'"
  shows "prices_evolve good m (om_insert k r' m)"
proof -
  have "at_least r r" for r by (simp add: at_least_def)
  then show ?thesis
    using assms unfolding prices_evolve_def
    by (auto simp: map_of_om_insert om_ok_insert simp del: split_paired_All split_paired_Ex)
qed

lemma feed_one_evolves:
  assumes "om_ok (os_prices st)" and "feed_one s st feed = Inr st'"
    and "\<And>p. price_from_feed feed = Inr p \<Longrightarrow> good (pf_id feed) (p, s)"
  shows "prices_evolve good (os_prices st) (os_prices st') \<and> os_guardian_sets st' = os_guardian_sets st"
proof -
  from assms(2) obtain p where p: "price_from_feed feed = Inr p"
    and st': "st' = st\<lparr>os_prices := om_insert (pf_id feed) (newer_record p s (map_of (os_prices st) (pf_id feed))) (os_prices st)\<rparr>"
    by (auto simp: feed_one_def result_iff)
  let ?r = "newer_record p s (map_of (os_prices st) (pf_id feed))"
  have "?r = (p, s) \<or> map_of (os_prices st) (pf_id feed) = Some ?r" by (rule newer_record_cases(1))
  then have "map_of (os_prices st) (pf_id feed) = Some ?r \<or> good (pf_id feed) ?r"
    using assms(3) [OF p] by auto
  then show ?thesis
    using prices_evolve_insert [OF assms(1), of "pf_id feed" ?r good] newer_record_cases(2) by (simp add: st')
qed

lemma prices_evolve_mono:
  "prices_evolve good m m' \<Longrightarrow> (\<And>k r. good k r \<Longrightarrow> good' k r) \<Longrightarrow> prices_evolve good' m m'"
  unfolding prices_evolve_def by blast

lemma feed_vaa_evolves:
  assumes "om_ok (os_prices st)" and "os_guardian_sets st = sets" and "feed_vaa api lib now st bs = Inr st'"
  shows "prices_evolve (signed_feed api lib sets now bs) (os_prices st) (os_prices st') \<and> os_guardian_sets st' = sets"
proof -
  let ?good = "signed_feed api lib sets now bs"
  from assms(3) obtain vaa where vaa: "pyth_vaa_new api lib bs = Inr vaa"
    and v: "wormhole_verify api now sets (pv_wormhole_vaa vaa) = Inr ()"
    and f: "try_fold (feed_one (wv_sequence (pv_wormhole_vaa vaa))) st (pv_feeds vaa) = Inr st'"
    unfolding feed_vaa_def pyth_vaa_verify_def assms(2) and_then_Inr_iff by auto
  have "om_ok (wv_signatures (pv_wormhole_vaa vaa))"
    using vaa wormhole_vaa_signatures_ok
    by (auto simp: pyth_vaa_new_def and_then_Inr_iff split: if_splits)
  from wormhole_verify_Inr [OF v this] obtain gs where
    gs: "map_of sets (wv_guardian_set_index (pv_wormhole_vaa vaa)) = Some gs"
      "\<And>expiry. gs_expiration_time gs = Some expiry \<Longrightarrow> now < expiry"
      "2 * length (gs_addresses gs) < 3 * card (signers api (wv_hash (pv_wormhole_vaa vaa)) gs (wv_signatures (pv_wormhole_vaa vaa)))"
    by blast
  have good: "?good (pf_id feed) (p, wv_sequence (pv_wormhole_vaa vaa))"
    if "feed \<in> set (pv_feeds vaa)" and "price_from_feed feed = Inr p" for feed p
    unfolding signed_feed_def using vaa gs that by (intro exI conjI) auto
  have "prices_evolve ?good (os_prices st) (os_prices st') \<and> os_guardian_sets st' = sets"
  proof (rule try_fold_invariant [where I = "\<lambda>s. prices_evolve ?good (os_prices st) (os_prices s) \<and>
      os_guardian_sets s = sets", OF _ _ f])
    fix s feed s'
    assume feed: "feed \<in> set (pv_feeds vaa)"
      and i: "prices_evolve ?good (os_prices st) (os_prices s) \<and> os_guardian_sets s = sets"
      and s': "feed_one (wv_sequence (pv_wormhole_vaa vaa)) s feed = Inr s'"
    have "om_ok (os_prices s)" using i by (simp add: prices_evolve_def)
    from feed_one_evolves [OF this s', of ?good, OF good [OF feed]] i
    show "prices_evolve ?good (os_prices st) (os_prices s') \<and> os_guardian_sets s' = sets"
      by (auto intro: prices_evolve_trans)
  qed (simp add: prices_evolve_refl assms)
  then show ?thesis .
qed

lemma feed_prices_evolves:
  assumes "om_ok (os_prices st)" and "os_guardian_sets st = sets" and "feed_prices api lib cx st vaas = Inr st'"
  shows "prices_evolve (\<lambda>k r. \<exists>bs \<in> set vaas. signed_feed api lib sets (ctx_time cx) bs k r) (os_prices st) (os_prices st') \<and>
    os_guardian_sets st' = sets"
proof -
  let ?good = "\<lambda>k r. \<exists>bs \<in> set vaas. signed_feed api lib sets (ctx_time cx) bs k r"
  show ?thesis
    using assms(3) unfolding feed_prices_def
  proof (rule try_fold_invariant [where I = "\<lambda>s. prices_evolve ?good (os_prices st) (os_prices s) \<and>
      os_guardian_sets s = sets", rotated 2])
    fix s bs s'
    assume bs: "bs \<in> set vaas" and i: "prices_evolve ?good (os_prices st) (os_prices s) \<and> os_guardian_sets s = sets"
      and s': "feed_vaa api lib (ctx_time cx) s bs = Inr s'"
    have "om_ok (os_prices s)" "os_guardian_sets s = sets" using i by (simp_all add: prices_evolve_def)
    note f = feed_vaa_evolves [OF this s']
    then have "prices_evolve ?good (os_prices s) (os_prices s')"
      by (intro prices_evolve_mono [OF conjunct1]) (use bs in blast)+
    with i f show "prices_evolve ?good (os_prices st) (os_prices s') \<and> os_guardian_sets s' = sets"
      by (blast intro: prices_evolve_trans)
  qed (simp add: prices_evolve_refl assms)
qed

text \<open>Runs from the instantiation, by any caller; a run remembers the successful calls with their contexts,
  the last one first.\<close>

inductive oracle_run ::
    "crypto_api \<Rightarrow> pyth_lib \<Rightarrow> (u32 \<times> guardian_set) list \<Rightarrow> (ctx \<times> oracle_msg) list \<Rightarrow> oracle_state \<Rightarrow> bool"
  for api :: crypto_api and lib :: pyth_lib and sets :: "(u32 \<times> guardian_set) list" where
  oracle_start: "oracle_run api lib sets [] (oracle_instantiate sets sources)"
| oracle_step: "oracle_run api lib sets calls st \<Longrightarrow> oracle_execute api lib owner cx st msg = Inr st' \<Longrightarrow>
    oracle_run api lib sets ((cx, msg) # calls) st'"

definition guardian_map :: "(u32 \<times> guardian_set) list \<Rightarrow> (u32, guardian_set) omap" where
  "guardian_map sets = fold (\<lambda>(i, gs). om_insert i gs) sets []"

lemma oracle_execute_evolves:
  assumes "om_ok (os_prices st)" and "os_guardian_sets st = sets"
    and "oracle_execute api lib owner cx st msg = Inr st'"
  shows "prices_evolve (\<lambda>k r. \<exists>vaas bs. msg = FeedPrices vaas \<and> bs \<in> set vaas \<and> signed_feed api lib sets (ctx_time cx) bs k r)
    (os_prices st) (os_prices st') \<and> os_guardian_sets st' = sets"
proof (cases msg)
  case (RegisterPriceSources sources)
  with assms have "os_prices st' = os_prices st" "os_guardian_sets st' = sets"
    by (auto simp: register_price_sources_def result_iff)
  then show ?thesis using assms(1) by (simp add: prices_evolve_refl)
next
  case (FeedPrices vaas)
  with assms(3) have "feed_prices api lib cx st vaas = Inr st'" by simp
  note f = feed_prices_evolves [OF assms(1,2) this]
  then show ?thesis by (intro conjI prices_evolve_mono [OF conjunct1 [OF f]]) (auto simp: FeedPrices)
qed

lemma oracle_run_inv:
  assumes "oracle_run api lib sets calls st"
  shows "om_ok (os_prices st) \<and> os_guardian_sets st = guardian_map sets \<and>
    (\<forall>k r. map_of (os_prices st) k = Some r \<longrightarrow> (\<exists>cx vaas bs. (cx, FeedPrices vaas) \<in> set calls \<and> bs \<in> set vaas \<and>
      signed_feed api lib (guardian_map sets) (ctx_time cx) bs k r))"
  using assms
proof induction
  case (oracle_start sources)
  then show ?case by (simp add: oracle_instantiate_def guardian_map_def)
next
  case (oracle_step calls st owner cx msg st')
  then have "om_ok (os_prices st)" "os_guardian_sets st = guardian_map sets" by simp_all
  note e = oracle_execute_evolves [OF this oracle_step.hyps(2)]
  have "\<exists>cx' vaas bs. (cx', FeedPrices vaas) \<in> set ((cx, msg) # calls) \<and> bs \<in> set vaas \<and>
      signed_feed api lib (guardian_map sets) (ctx_time cx') bs k r" if "map_of (os_prices st') k = Some r" for k r
  proof (cases "map_of (os_prices st) k = Some r")
    case True
    with oracle_step.IH show ?thesis unfolding set_simps by blast
  next
    case False
    with e that obtain vaas bs where "msg = FeedPrices vaas" "bs \<in> set vaas"
      "signed_feed api lib (guardian_map sets) (ctx_time cx) bs k r" unfolding prices_evolve_def by blast
    then show ?thesis unfolding set_simps by blast
  qed
  with e show ?case by (simp add: prices_evolve_def)
qed

text \<open>C30: In every run of the oracle, by any callers, every stored price is a feed of one of the messages
  passed to a successful call of \<open>FeedPrices\<close> in that run, and more than two thirds of the guardians of
  one of the instantiated sets signed the hash of that message, a set that had not expired at the block
  time of that very call; nothing else can put a price into the contract.\<close>

theorem oracle_prices_signed:
  assumes "oracle_run api lib sets calls st" and "map_of (os_prices st) pyth_id = Some (p, s)"
  shows "\<exists>cx vaas bs vaa gs feed. (cx, FeedPrices vaas) \<in> set calls \<and> bs \<in> set vaas \<and>
    pyth_vaa_new api lib bs = Inr vaa \<and>
    map_of (guardian_map sets) (wv_guardian_set_index (pv_wormhole_vaa vaa)) = Some gs \<and>
    (\<forall>expiry. gs_expiration_time gs = Some expiry \<longrightarrow> ctx_time cx < expiry) \<and>
    2 * length (gs_addresses gs) <
      3 * card (signers api (wv_hash (pv_wormhole_vaa vaa)) gs (wv_signatures (pv_wormhole_vaa vaa))) \<and>
    feed \<in> set (pv_feeds vaa) \<and> pf_id feed = pyth_id \<and> price_from_feed feed = Inr p \<and>
    wv_sequence (pv_wormhole_vaa vaa) = s"
proof -
  from oracle_run_inv [OF assms(1)] assms(2) obtain cx vaas bs where
    "(cx, FeedPrices vaas) \<in> set calls" "bs \<in> set vaas"
    "signed_feed api lib (guardian_map sets) (ctx_time cx) bs pyth_id (p, s)" by blast
  then show ?thesis unfolding signed_feed_def fst_conv snd_conv by blast
qed

text \<open>A stored price is never replaced by an older one: whatever any caller does, the record of a
  price feed stays or moves strictly forward in the order of publication time, then of message
  sequence.\<close>

lemma oracle_prices_never_go_back:
  assumes "oracle_run api lib sets calls st" and "oracle_execute api lib owner cx st msg = Inr st'"
    and "map_of (os_prices st) pyth_id = Some (p, s)"
  shows "\<exists>p' s'. map_of (os_prices st') pyth_id = Some (p', s') \<and>
    ((p', s') = (p, s) \<or> pr_time p < pr_time p' \<or> (pr_time p = pr_time p' \<and> s < s'))"
proof -
  have "om_ok (os_prices st)" "os_guardian_sets st = guardian_map sets"
    using oracle_run_inv [OF assms(1)] by simp_all
  from oracle_execute_evolves [OF this assms(2)] assms(3) show ?thesis
    unfolding prices_evolve_def at_least_def by fastforce
qed

subsection \<open>Samples\<close>

text \<open>A host whose hash is constant and a set of one guardian with the address that hash gives.\<close>

definition sample_api :: crypto_api where
  "sample_api = \<lparr>keccak256 = (\<lambda>_. replicate 32 0), secp256k1_pubkey_recover = (\<lambda>_ _ _. Inr (replicate 65 0))\<rparr>"

definition sample_feed :: price_feed where
  "sample_feed = \<lparr>pf_id = 7, pf_price = 5, pf_ema_price = 5, pf_expo = 0, pf_publish_time = 3\<rparr>"

definition sample_attestation :: price_attestation where
  "sample_attestation = \<lparr>pa_price_id = 7, pa_price = 5, pa_expo = 0, pa_ema_price = 5, pa_trading = True,
     pa_publish_time = 3, pa_prev_publish_time = 2, pa_prev_price = 4\<rparr>"

definition sample_lib :: pyth_lib where
  "sample_lib = \<lparr>decode_update = (\<lambda>_. Inl Panic), decode_root = (\<lambda>_. Inl Panic),
     check_proof = (\<lambda>_ _ _. False), decode_message = (\<lambda>_. Inl Panic), decode_batch = (\<lambda>_. Inr [sample_attestation])\<rparr>"

definition sample_guardians :: guardian_set where
  "sample_guardians = \<lparr>gs_addresses = [0], gs_expiration_time = Some 100\<rparr>"

definition sample_message :: bytes where
  "sample_message = [1, 0, 0, 0, 0, 1] @ replicate 117 0"

definition sample_vaa :: wormhole_vaa where
  "sample_vaa = \<lparr>wv_version = 1, wv_guardian_set_index = 0, wv_hash = 0, wv_timestamp = 0, wv_nonce = 0,
     wv_emitter_chain = 0, wv_sequence = 0, wv_consistency_level = 0,
     wv_signatures = [(0, \<lparr>sig_id_recover = 0, sig_signature = replicate 64 0\<rparr>)],
     wv_emitter_address = replicate 32 0, wv_payload = []\<rparr>"

lemma from_be_bytes_zeros [simp]: "from_be_bytes (replicate n 0) = 0"
  by (induction n) (simp_all add: from_be_bytes_def)

lemma sample_vaa_parsed: "pyth_vaa_new sample_api sample_lib sample_message =
    Inr \<lparr>pv_wormhole_vaa = sample_vaa, pv_feeds = [sample_feed]\<rparr>"
proof -
  have "wormhole_vaa_new sample_api sample_message = Inr sample_vaa"
    by (simp add: wormhole_vaa_new_def sample_message_def sample_vaa_def next_be_def next_chunk_def
        numeral_eq_Suc signature_new_def analyzer_rest_def sample_api_def Let_def from_be_bytes_def)
  moreover have "4 \<le> length sample_message" "take 4 sample_message \<noteq> update_magic"
    by (simp_all add: sample_message_def update_magic_def)
  ultimately show ?thesis
    by (simp add: pyth_vaa_new_def sample_lib_def sample_attestation_def sample_feed_def feed_of_attestation_def)
qed

definition sample_oracle :: "(u256, price \<times> u64) omap \<Rightarrow> oracle_state" where
  "sample_oracle prices = \<lparr>os_guardian_sets = [(0, sample_guardians)], os_price_sources = [], os_prices = prices\<rparr>"

definition sample_price :: price where
  "sample_price = \<lparr>pr_price = 5 * 10 ^ 18, pr_ema = 5 * 10 ^ 18, pr_time = 3000000000\<rparr>"

definition sample_oracle_ctx :: ctx where
  "sample_oracle_ctx = \<lparr>ctx_contract = 9, ctx_sender = 4, ctx_funds = [], ctx_time = 50, ctx_height = 1\<rparr>"

lemma sample_feed_price: "price_from_feed sample_feed = Inr sample_price"
  by (simp add: price_from_feed_def sample_feed_def unsigned_u128_def decimal_places_def checked_from_atomics_def
      checked_pow_def checked_mul_def from_seconds_def sample_price_def)

lemma sample_feed_vaa:
  "feed_vaa sample_api sample_lib 50 (sample_oracle prices) sample_message =
     Inr (sample_oracle (om_insert 7 (newer_record sample_price 0 (map_of prices 7)) prices))"
proof -
  have v: "wormhole_verify sample_api 50 [(0, sample_guardians)] sample_vaa = Inr ()"
    by (simp add: wormhole_verify_def sample_vaa_def sample_guardians_def om_load_def quorum_def check_signature_def
        sample_api_def Let_def)
  show ?thesis
    by (simp add: feed_vaa_def sample_vaa_parsed pyth_vaa_verify_def sample_oracle_def v feed_one_def
        sample_feed_price may_update_def) (simp add: sample_feed_def sample_vaa_def)
qed

lemma sample_feed_prices:
  "oracle_execute sample_api sample_lib (Inr 1) sample_oracle_ctx (sample_oracle prices) (FeedPrices [sample_message]) =
     Inr (sample_oracle (om_insert 7 (newer_record sample_price 0 (map_of prices 7)) prices))"
  by (simp add: feed_prices_def sample_feed_vaa sample_oracle_ctx_def)

lemma sample_oracle_run:
  "oracle_run sample_api sample_lib [(0, sample_guardians)] [(sample_oracle_ctx, FeedPrices [sample_message])]
     (sample_oracle [(7, sample_price, 0)])"
proof -
  have "oracle_instantiate [(0, sample_guardians)] [] = sample_oracle []"
    by (simp add: oracle_instantiate_def sample_oracle_def)
  then have "oracle_run sample_api sample_lib [(0, sample_guardians)] [] (sample_oracle [])"
    by (metis oracle_start)
  from oracle_step [OF this sample_feed_prices] show ?thesis by simp
qed

lemma oracle_prices_signed_witness:
  "\<exists>vaa gs feed. pyth_vaa_new sample_api sample_lib sample_message = Inr vaa \<and>
     map_of (guardian_map [(0, sample_guardians)]) (wv_guardian_set_index (pv_wormhole_vaa vaa)) = Some gs \<and>
     ctx_time sample_oracle_ctx < the (gs_expiration_time gs) \<and>
     feed \<in> set (pv_feeds vaa) \<and> price_from_feed feed = Inr sample_price"
proof -
  have "map_of (os_prices (sample_oracle [(7, sample_price, 0)])) 7 = Some (sample_price, 0)"
    by (simp add: sample_oracle_def)
  from oracle_prices_signed [OF sample_oracle_run this] obtain vaa gs feed where
    v: "pyth_vaa_new sample_api sample_lib sample_message = Inr vaa"
      "map_of (guardian_map [(0, sample_guardians)]) (wv_guardian_set_index (pv_wormhole_vaa vaa)) = Some gs"
      "\<forall>expiry. gs_expiration_time gs = Some expiry \<longrightarrow> ctx_time sample_oracle_ctx < expiry"
      "feed \<in> set (pv_feeds vaa)" "price_from_feed feed = Inr sample_price" by auto
  have "gs = sample_guardians" using v(2) by (auto simp: guardian_map_def split: if_splits)
  then show ?thesis using v by (auto simp: sample_guardians_def)
qed

lemma oracle_prices_never_go_back_witness:
  "\<exists>p s. map_of (os_prices (sample_oracle [(7, sample_price, 0)])) 7 = Some (p, s) \<and>
     (p, s) = (sample_price, 0)"
proof -
  have step: "oracle_execute sample_api sample_lib (Inr 1) sample_oracle_ctx (sample_oracle [(7, sample_price, 0)])
      (FeedPrices [sample_message]) = Inr (sample_oracle [(7, sample_price, 0)])"
    using sample_feed_prices [of "[(7, sample_price, 0)]"] by simp
  have "map_of (os_prices (sample_oracle [(7, sample_price, 0)])) 7 = Some (sample_price, 0)"
    by (simp add: sample_oracle_def)
  from oracle_prices_never_go_back [OF sample_oracle_run step this] this show ?thesis by auto
qed

end
