(* ===== verification/Geometric.thy ===== *)
theory Geometric
  imports Dex_State Oracle
begin

text \<open>
  The geometric pool, \<^verbatim>\<open>dango/dex/src/core/geometric.rs\<close>: liquidity is placed around the oracle's
  price, a swap is matched against the reflected orders. The oracle is the parameter \<open>oracle\<close>, the
  answer of \<^verbatim>\<open>OracleQuerier::query_price\<close> for each denom. The four matching loops run over the list
  of reflected orders; an exhausted list is the error of the source.
\<close>

type_synonym oracle_fun = "denom \<Rightarrow> precisioned_price res"

definition initial_lp_tokens_per_usd :: u128 where
  "initial_lp_tokens_per_usd = 1000000"

definition oracle_value :: "oracle_fun \<Rightarrow> coin_pair \<Rightarrow> udec res" where
  "oracle_value oracle p =
     and_then (oracle (c_denom (fst p))) (\<lambda>first_price.
     and_then (value_of_unit_amount 24 first_price (c_amount (fst p))) (\<lambda>first_value.
     and_then (oracle (c_denom (snd p))) (\<lambda>second_price.
     and_then (value_of_unit_amount 24 second_price (c_amount (snd p))) (\<lambda>second_value.
       dec_add 24 24 first_value second_value))))"

definition geo_add_initial_liquidity :: "oracle_fun \<Rightarrow> coin_pair \<Rightarrow> u128 res" where
  "geo_add_initial_liquidity oracle deposit =
     and_then (oracle_value oracle deposit) (checked_mul_dec 24 initial_lp_tokens_per_usd)"

definition geo_add_subsequent_liquidity :: "oracle_fun \<Rightarrow> coin_pair \<Rightarrow> coin_pair \<Rightarrow> (coin_pair \<times> udec) res" where
  "geo_add_subsequent_liquidity oracle reserve deposit =
     and_then (oracle_value oracle deposit) (\<lambda>deposit_value.
     and_then (oracle_value oracle reserve) (\<lambda>reserve_value.
     and_then (coin_pair_merge reserve deposit) (\<lambda>reserve'.
     and_then (dec_div 24 deposit_value reserve_value) (\<lambda>ratio.
       Inr (reserve', ratio)))))"

subsection \<open>Reflection onto the order book\<close>

fun geo_bids :: "nat \<Rightarrow> geometric_params \<Rightarrow> udec option \<Rightarrow> u128 \<Rightarrow> (udec \<times> u128) list" where
  "geo_bids 0 params maybe_price remaining_quote = []"
| "geo_bids (Suc limit) params maybe_price remaining_quote =
     (case maybe_price of
        None \<Rightarrow> []
      | Some price \<Rightarrow>
          if is_zero price then []
          else (case and_then (checked_mul_dec 18 remaining_quote (geo_ratio params)) (\<lambda>size_in_quote.
                     and_then (checked_div_dec_floor 24 size_in_quote price) (\<lambda>sz.
                     and_then (ensure (\<not> is_zero sz) ZeroValue) (\<lambda>_.
                     and_then (checked_sub remaining_quote size_in_quote) (\<lambda>remaining_quote'.
                       Inr (sz, remaining_quote'))))) of
                  Inl _ \<Rightarrow> []
                | Inr (sz, remaining_quote') \<Rightarrow>
                    (price, sz) #
                      geo_bids limit params (result_ok (dec_sub 24 18 price (geo_spacing params))) remaining_quote'))"

fun geo_asks :: "nat \<Rightarrow> geometric_params \<Rightarrow> udec option \<Rightarrow> u128 \<Rightarrow> (udec \<times> u128) list" where
  "geo_asks 0 params maybe_price remaining_base = []"
| "geo_asks (Suc limit) params maybe_price remaining_base =
     (case maybe_price of
        None \<Rightarrow> []
      | Some price \<Rightarrow>
          (case and_then (checked_mul_dec 18 remaining_base (geo_ratio params)) (\<lambda>sz.
                and_then (ensure (\<not> is_zero sz) ZeroValue) (\<lambda>_.
                and_then (checked_sub remaining_base sz) (\<lambda>remaining_base'.
                  Inr (sz, remaining_base')))) of
             Inl _ \<Rightarrow> []
           | Inr (sz, remaining_base') \<Rightarrow>
               (price, sz) #
                 geo_asks limit params (result_ok (dec_add 24 18 price (geo_spacing params))) remaining_base'))"

definition geo_marginal_price :: "oracle_fun \<Rightarrow> denom \<Rightarrow> denom \<Rightarrow> udec res" where
  "geo_marginal_price oracle base_denom quote_denom =
     and_then (oracle base_denom) (\<lambda>p. and_then (value_of_unit_amount 24 p 1000000) (\<lambda>base_price.
     and_then (oracle quote_denom) (\<lambda>q. and_then (value_of_unit_amount 24 q 1000000) (\<lambda>quote_price.
       dec_div 24 base_price quote_price))))"

definition geo_reflect_curve ::
    "oracle_fun \<Rightarrow> pair_key \<Rightarrow> u128 \<Rightarrow> u128 \<Rightarrow> geometric_params \<Rightarrow> udec \<Rightarrow>
     ((udec \<times> u128) list \<times> (udec \<times> u128) list) res" where
  "geo_reflect_curve oracle pair base_reserve quote_reserve params swap_fee_rate =
     and_then (geo_marginal_price oracle (fst pair) (snd pair)) (\<lambda>marginal_price.
     and_then (dec_sub 18 18 (dec_one 18) swap_fee_rate) (\<lambda>one_sub_fee_rate.
     and_then (dec_mul 18 marginal_price one_sub_fee_rate) (\<lambda>bid_starting_price.
     and_then (dec_add 18 18 (dec_one 18) swap_fee_rate) (\<lambda>one_plus_fee_rate.
     and_then (dec_mul 18 marginal_price one_plus_fee_rate) (\<lambda>ask_starting_price.
       Inr (geo_bids (geo_limit params) params (Some bid_starting_price) quote_reserve,
            geo_asks (geo_limit params) params (Some ask_starting_price) base_reserve))))))"

subsection \<open>Matching a swap against the reflected orders\<close>

definition not_enough :: "u128 res" where
  "not_enough = Inl (Bail ''not enough liquidity to fulfill the swap'')"

fun bid_in_loop :: "udec \<Rightarrow> udec \<Rightarrow> (udec \<times> u128) list \<Rightarrow> u128 res" where
  "bid_in_loop remaining_bid_in_quote output_amount [] = not_enough"
| "bid_in_loop remaining_bid_in_quote output_amount ((price, amount) # passive_asks) =
     and_then (checked_multiply_ratio_floor remaining_bid_in_quote (precision 24) price) (\<lambda>remaining_bid.
     and_then (checked_into_dec 6 amount) (\<lambda>amount.
     (let matched_amount = min amount remaining_bid in
     and_then (dec_add 18 6 output_amount matched_amount) (\<lambda>output_amount.
     and_then (checked_mul_dec_ceil 24 matched_amount price) (\<lambda>matched_amount_in_quote.
     and_then (dec_sub 6 6 remaining_bid_in_quote matched_amount_in_quote) (\<lambda>remaining_bid_in_quote.
       if is_zero remaining_bid_in_quote \<or> is_zero remaining_bid \<or> is_zero matched_amount_in_quote
       then into_int 18 output_amount
       else bid_in_loop remaining_bid_in_quote output_amount passive_asks))))))"

fun ask_in_loop :: "udec \<Rightarrow> udec \<Rightarrow> (udec \<times> u128) list \<Rightarrow> u128 res" where
  "ask_in_loop remaining_ask output_amount_in_quote [] = not_enough"
| "ask_in_loop remaining_ask output_amount_in_quote ((price, amount) # passive_bids) =
     and_then (checked_into_dec 6 amount) (\<lambda>amount.
     (let matched_amount = min amount remaining_ask in
     and_then (dec_sub 6 6 remaining_ask matched_amount) (\<lambda>remaining_ask.
     and_then (checked_mul_dec_floor 24 matched_amount price) (\<lambda>matched_amount_in_quote.
     and_then (dec_add 18 6 output_amount_in_quote matched_amount_in_quote) (\<lambda>output_amount_in_quote.
       if is_zero remaining_ask \<or> is_zero matched_amount_in_quote
       then into_int 18 output_amount_in_quote
       else ask_in_loop remaining_ask output_amount_in_quote passive_bids)))))"

fun bid_out_loop :: "udec \<Rightarrow> udec \<Rightarrow> (udec \<times> u128) list \<Rightarrow> u128 res" where
  "bid_out_loop remaining_bid input_amount [] = not_enough"
| "bid_out_loop remaining_bid input_amount ((price, amount) # passive_asks) =
     and_then (checked_into_dec 6 amount) (\<lambda>amount.
     (let matched_amount = min amount remaining_bid in
     and_then (dec_sub 6 6 remaining_bid matched_amount) (\<lambda>remaining_bid.
     and_then (checked_mul_dec_ceil 24 matched_amount price) (\<lambda>matched_amount_in_quote.
     and_then (dec_add 18 6 input_amount matched_amount_in_quote) (\<lambda>input_amount.
       if is_zero remaining_bid \<or> is_zero matched_amount_in_quote
       then into_int 18 input_amount
       else bid_out_loop remaining_bid input_amount passive_asks)))))"

fun ask_out_loop :: "udec \<Rightarrow> udec \<Rightarrow> (udec \<times> u128) list \<Rightarrow> u128 res" where
  "ask_out_loop remaining_ask_in_quote input_amount [] = not_enough"
| "ask_out_loop remaining_ask_in_quote input_amount ((price, amount) # passive_bids) =
     and_then (checked_multiply_ratio_floor remaining_ask_in_quote (precision 24) price) (\<lambda>remaining_ask.
     and_then (checked_into_dec 6 amount) (\<lambda>amount.
     (let matched_amount = min amount remaining_ask in
     and_then (dec_add 18 6 input_amount matched_amount) (\<lambda>input_amount.
     and_then (checked_mul_dec_ceil 24 matched_amount price) (\<lambda>matched_amount_in_quote.
     and_then (dec_sub 6 6 remaining_ask_in_quote matched_amount_in_quote) (\<lambda>remaining_ask_in_quote.
       if is_zero remaining_ask_in_quote \<or> is_zero remaining_ask \<or> is_zero matched_amount_in_quote
       then into_int 18 input_amount
       else ask_out_loop remaining_ask_in_quote input_amount passive_bids))))))"

definition bid_exact_amount_in :: "u128 \<Rightarrow> (udec \<times> u128) list \<Rightarrow> u128 res" where
  "bid_exact_amount_in amount passive_asks = and_then (checked_into_dec 6 amount) (\<lambda>r. bid_in_loop r 0 passive_asks)"

definition ask_exact_amount_in :: "u128 \<Rightarrow> (udec \<times> u128) list \<Rightarrow> u128 res" where
  "ask_exact_amount_in amount passive_bids = and_then (checked_into_dec 6 amount) (\<lambda>r. ask_in_loop r 0 passive_bids)"

definition bid_exact_amount_out :: "u128 \<Rightarrow> (udec \<times> u128) list \<Rightarrow> u128 res" where
  "bid_exact_amount_out amount passive_asks = and_then (checked_into_dec 6 amount) (\<lambda>r. bid_out_loop r 0 passive_asks)"

definition ask_exact_amount_out :: "u128 \<Rightarrow> (udec \<times> u128) list \<Rightarrow> u128 res" where
  "ask_exact_amount_out amount passive_bids = and_then (checked_into_dec 6 amount) (\<lambda>r. ask_out_loop r 0 passive_bids)"

definition geo_swap_exact_amount_in ::
    "oracle_fun \<Rightarrow> pair_key \<Rightarrow> coin \<Rightarrow> coin_pair \<Rightarrow> geometric_params \<Rightarrow> udec \<Rightarrow> u128 res" where
  "geo_swap_exact_amount_in oracle pair input reserve params swap_fee_rate =
     and_then (coin_pair_amount_of reserve (fst pair)) (\<lambda>base_reserve.
     and_then (coin_pair_amount_of reserve (snd pair)) (\<lambda>quote_reserve.
     and_then (geo_reflect_curve oracle pair base_reserve quote_reserve params swap_fee_rate) (\<lambda>(passive_bids, passive_asks).
       if c_denom input = fst pair then ask_exact_amount_in (c_amount input) passive_bids
       else if c_denom input = snd pair then bid_exact_amount_in (c_amount input) passive_asks
       else Inl Panic)))"

definition geo_swap_exact_amount_out ::
    "oracle_fun \<Rightarrow> pair_key \<Rightarrow> coin \<Rightarrow> coin_pair \<Rightarrow> geometric_params \<Rightarrow> udec \<Rightarrow> u128 res" where
  "geo_swap_exact_amount_out oracle pair output reserve params swap_fee_rate =
     and_then (coin_pair_amount_of reserve (c_denom output)) (\<lambda>output_reserve.
     and_then (ensure (c_amount output < output_reserve) (Bail ''insufficient liquidity'')) (\<lambda>_.
     and_then (coin_pair_amount_of reserve (fst pair)) (\<lambda>base_reserve.
     and_then (coin_pair_amount_of reserve (snd pair)) (\<lambda>quote_reserve.
     and_then (geo_reflect_curve oracle pair base_reserve quote_reserve params swap_fee_rate) (\<lambda>(passive_bids, passive_asks).
       if c_denom output = fst pair then bid_exact_amount_out (c_amount output) passive_asks
       else if c_denom output = snd pair then ask_exact_amount_out (c_amount output) passive_bids
       else Inl Panic)))))"

subsection \<open>Reflected orders stay within the reserve\<close>

text \<open>The value a list of bids sets aside, rounded up for each order, is within the remaining quote.\<close>

definition bids_cost :: "(udec \<times> u128) list \<Rightarrow> nat" where
  "bids_cost xs = (\<Sum>(price, amount)\<leftarrow>xs. ceil_div (unat amount * unat price) (10 ^ 24))"

lemma bids_cost_simps [simp]:
  "bids_cost [] = 0" "bids_cost ((p, a) # xs) = ceil_div (unat a * unat p) (10 ^ 24) + bids_cost xs"
  by (simp_all add: bids_cost_def)

lemma geo_bids_within:
  "bids_cost (geo_bids limit params maybe_price remaining) \<le> unat remaining"
proof (induction limit arbitrary: maybe_price remaining)
  case (Suc limit)
  show ?case
  proof (cases "geo_bids (Suc limit) params maybe_price remaining")
    case (Cons x xs)
    then obtain price q sz remaining' where p: "maybe_price = Some price" "price \<noteq> 0"
      and q: "checked_mul_dec 18 remaining (geo_ratio params) = Inr q"
      and sz: "checked_div_dec_floor 24 q price = Inr sz"
      and r: "checked_sub remaining q = Inr remaining'"
      and eq: "x = (price, sz)" "xs = geo_bids limit params (result_ok (dec_sub 24 18 price (geo_spacing params))) remaining'"
      by (auto simp: and_then_Inr_iff ensure_Inr_iff is_zero_def split: option.splits sum.splits if_splits)
    have "unat sz = unat q * 10 ^ 24 div unat price" using sz by (simp add: dec_rounding_128)
    then have "unat sz * unat price \<le> unat q * 10 ^ 24" by simp
    then have "ceil_div (unat sz * unat price) (10 ^ 24) \<le> unat q" by (simp add: ceil_div_le_iff)
    moreover have "unat remaining = unat remaining' + unat q" using r by (simp add: checked_sub_Inr)
    ultimately show ?thesis
      using Suc.IH [of "result_ok (dec_sub 24 18 price (geo_spacing params))" remaining']
      unfolding Cons eq by simp
  qed simp
qed simp

lemma geo_asks_within:
  "asks_size (geo_asks limit params maybe_price remaining) \<le> unat remaining"
proof (induction limit arbitrary: maybe_price remaining)
  case (Suc limit)
  show ?case
  proof (cases "geo_asks (Suc limit) params maybe_price remaining")
    case (Cons x xs)
    then obtain price sz remaining' where r: "checked_sub remaining sz = Inr remaining'"
      and eq: "x = (price, sz)" "xs = geo_asks limit params (result_ok (dec_add 24 18 price (geo_spacing params))) remaining'"
      by (auto simp: and_then_Inr_iff ensure_Inr_iff split: option.splits sum.splits if_splits)
    have "unat remaining = unat remaining' + unat sz" using r by (simp add: checked_sub_Inr)
    then show ?thesis
      using Suc.IH [of "result_ok (dec_add 24 18 price (geo_spacing params))" remaining']
      unfolding Cons eq by simp
  qed simp
qed simp

end
