(* ===== verification/Order_Book.thy ===== *)
theory Order_Book
  imports Dex_State "HOL-Library.Word"
begin

unbundle bit_operations_syntax

text \<open>
  Creating and cancelling orders: \<^verbatim>\<open>dango/dex/src/execute/order_creation.rs\<close>,
  \<^verbatim>\<open>order_cancellation.rs\<close>, and the handlers \<^verbatim>\<open>batch_update_orders\<close>, \<^verbatim>\<open>batch_update_pairs\<close>,
  \<^verbatim>\<open>pause\<close>, \<^verbatim>\<open>unpause\<close> and \<^verbatim>\<open>force_cancel_orders\<close> of \<^verbatim>\<open>dango/dex/src/execute.rs\<close>.
\<close>

subsection \<open>Order creation (order_creation.rs)\<close>

text \<open>The limit price of an order: given, or the best price of the resting book with slippage.\<close>

definition order_price :: "dex_state \<Rightarrow> create_order_request \<Rightarrow> udec res" where
  "order_price st req =
     (case cr_price req of
        LimitPrice price \<Rightarrow> Inr price
      | MarketPrice max_slippage \<Rightarrow>
          (case request_direction (cr_amount req) of
             Bid \<Rightarrow>
               and_then (ok_or (Bail ''best ask price is not available'')
                 (case map_of (dx_resting st) (cr_pair req) of
                    None \<Rightarrow> None | Some rb \<Rightarrow> rb_best_ask_price rb)) (\<lambda>best_ask_price.
               Inr (dec_saturating_mul 24 best_ask_price (dec_saturating_add 24 18 (dec_one 24) max_slippage)))
           | Ask \<Rightarrow>
               and_then (ok_or (Bail ''best bid price is not available'')
                 (case map_of (dx_resting st) (cr_pair req) of
                    None \<Rightarrow> None | Some rb \<Rightarrow> rb_best_bid_price rb)) (\<lambda>best_bid_price.
               Inr (dec_saturating_mul 24 best_bid_price (dec_saturating_sub 24 18 (dec_one 24) max_slippage)))))"

text \<open>The size in base, the size in quote, and the deposit.\<close>

fun order_size :: "amount_option \<Rightarrow> pair_key \<Rightarrow> udec \<Rightarrow> (u128 \<times> u128 \<times> coin) res" where
  "order_size (BidQuote quote) pair price =
     and_then (checked_div_dec_floor 24 quote price) (\<lambda>amount.
     and_then (checked_mul_dec_ceil 24 amount price) (\<lambda>amount_in_quote.
       Inr (amount, amount_in_quote, mk_coin (snd pair) amount_in_quote)))"
| "order_size (AskBase base) pair price =
     and_then (checked_mul_dec_floor 24 base price) (\<lambda>amount_in_quote.
       Inr (base, amount_in_quote, mk_coin (fst pair) base))"

definition create_order ::
    "u64 \<Rightarrow> addr \<Rightarrow> dex_state \<times> dex_event list \<times> coins \<Rightarrow> create_order_request \<Rightarrow>
     (dex_state \<times> dex_event list \<times> coins) res" where
  "create_order height user = (\<lambda>(st, events, deposits) req.
     and_then (ok_or (Bail ''pair not found'') (map_of (dx_pairs st) (cr_pair req))) (\<lambda>pair.
     (let dir = request_direction (cr_amount req) in
     and_then (order_price st req) (\<lambda>price.
     and_then (order_size (cr_amount req) (cr_pair req) price) (\<lambda>(amount, amount_in_quote, deposit).
     and_then (checked_into_dec 6 amount) (\<lambda>remaining.
     and_then (ensure (pp_min_order_size pair \<le> amount_in_quote) (Bail ''order size is too small'')) (\<lambda>_.
     and_then (next_order_id st) (\<lambda>(next_id, st1).
     (let order_id = (if dir = Bid then NOT next_id else next_id);
          key = (cr_pair req, dir, price, order_id) in
     and_then (book_save st1 key
         \<lparr>o_user = user, o_id = order_id, o_direction = dir, o_tif = cr_tif req, o_price = price,
          o_amount = amount, o_remaining = remaining, o_created = Some height\<rparr>) (\<lambda>st2.
     and_then (if cr_tif req = GoodTilCanceled then depths_up st2 key remaining (pp_bucket_sizes pair)
               else Inr st2) (\<lambda>st3.
     (let event = OrderCreated
         \<lparr>oc_user = user, oc_id = order_id, oc_tif = cr_tif req, oc_pair = cr_pair req, oc_direction = dir,
          oc_price = price, oc_amount = amount, oc_deposit = deposit\<rparr> in
     and_then (coins_insert deposits deposit) (\<lambda>deposits'.
       Inr (st3, events @ [event], deposits'))))))))))))))"

subsection \<open>Order cancellation (order_cancellation.rs)\<close>

definition order_refund :: "order_key \<Rightarrow> order \<Rightarrow> dec_coin res" where
  "order_refund = (\<lambda>((base_denom, quote_denom), dir, price, _) ord.
     and_then (dec_mul 24 (o_remaining ord) price) (\<lambda>remaining_in_quote.
       Inr (case dir of
          Bid \<Rightarrow> mk_dec_coin quote_denom remaining_in_quote
        | Ask \<Rightarrow> mk_dec_coin base_denom (o_remaining ord))))"

definition cancel_order ::
    "dex_state \<times> dex_event list \<times> dec_coins \<Rightarrow> order_key \<Rightarrow> order \<Rightarrow>
     (dex_state \<times> dex_event list \<times> dec_coins) res" where
  "cancel_order = (\<lambda>(st, events, refunds) key ord.
     (case key of (pair, dir, price, order_id) \<Rightarrow>
     and_then (order_refund key ord) (\<lambda>refund.
     and_then
       (if o_tif ord = GoodTilCanceled
        then and_then (om_load (dx_pairs st) pair) (\<lambda>params.
               depths_down st key (o_remaining ord) (pp_bucket_sizes params))
        else Inr st) (\<lambda>st'.
     (let event = OrderCanceled
         \<lparr>ox_user = o_user ord, ox_id = order_id, ox_tif = o_tif ord, ox_remaining = o_remaining ord,
          ox_refund = refund, ox_pair = pair, ox_direction = dir, ox_price = price, ox_amount = o_amount ord\<rparr> in
     and_then (dec_coins_insert 6 refunds refund) (\<lambda>refunds'.
       Inr (st', events @ [event], refunds')))))))"

text \<open>Cancelling and deleting one order, the body of the loops below.\<close>

definition cancel_and_remove ::
    "dex_state \<times> dex_event list \<times> dec_coins \<Rightarrow> order_key \<times> order \<Rightarrow>
     (dex_state \<times> dex_event list \<times> dec_coins) res" where
  "cancel_and_remove acc = (\<lambda>(key, ord).
     and_then (cancel_order acc key ord) (\<lambda>(st, events, refunds).
     and_then (book_remove st key) (\<lambda>st'. Inr (st', events, refunds))))"

definition cancel_all_orders :: "dex_state \<Rightarrow> (dex_state \<times> dex_event list \<times> dec_transfers) res" where
  "cancel_all_orders st =
     try_fold (\<lambda>(st, events, refunds) (key, ord).
       and_then (cancel_and_remove
           (st, events, case map_of refunds (o_user ord) of None \<Rightarrow> dec_coins_new | Some cs \<Rightarrow> cs)
           (key, ord)) (\<lambda>(st', events', cs).
         Inr (st', events', om_insert (o_user ord) cs refunds)))
       (st, [], transfers_new) (orders_of st)"

definition cancel_all_orders_from_user ::
    "addr \<Rightarrow> dex_state \<times> dex_event list \<times> dec_coins \<Rightarrow> (dex_state \<times> dex_event list \<times> dec_coins) res" where
  "cancel_all_orders_from_user user acc =
     and_then (multi_range (orders_of (fst acc)) (im_first (dx_orders (fst acc))) user) (\<lambda>orders.
       try_fold cancel_and_remove acc orders)"

definition cancel_order_from_user ::
    "addr \<Rightarrow> dex_state \<times> dex_event list \<times> dec_coins \<Rightarrow> u64 \<Rightarrow> (dex_state \<times> dex_event list \<times> dec_coins) res" where
  "cancel_order_from_user user acc order_id =
     and_then (unique_load (dx_orders (fst acc)) order_id) (\<lambda>(key, ord).
     and_then (ensure (o_user ord = user) (Bail ''limit order does not belong to the sender'')) (\<lambda>_.
       cancel_and_remove acc (key, ord)))"

subsection \<open>Handlers (execute.rs)\<close>

type_synonym dex_result = "(dex_state \<times> dex_msg list \<times> dex_event list) res"

definition dex_pause :: "dex_state \<Rightarrow> dex_result" where
  "dex_pause st = Inr (st\<lparr>dx_paused := True\<rparr>, [], [DexPaused None])"

definition dex_unpause :: "dex_state \<Rightarrow> dex_result" where
  "dex_unpause st = Inr (st\<lparr>dx_paused := False\<rparr>, [], [DexUnpaused])"

text \<open>\<open>dex/pool\<close>, the prefix of every liquidity token, and the sender of the genesis messages.\<close>

definition lp_prefix :: denom where
  "lp_prefix = [''dex'', ''pool'']"

definition genesis_sender :: addr where
  "genesis_sender = 0x114af6e7a822df07328fba90e1546b5c2b00703f"

definition batch_update_pairs :: "addr res \<Rightarrow> ctx \<Rightarrow> dex_state \<Rightarrow> pair_update list \<Rightarrow> dex_result" where
  "batch_update_pairs owner cx st updates =
     and_then owner (\<lambda>chain_owner.
     and_then (ensure (ctx_sender cx = chain_owner \<or> ctx_sender cx = genesis_sender) Unauthorized) (\<lambda>_.
     and_then (try_fold (\<lambda>st u.
         and_then (ensure (denom_starts_with (pp_lp_denom (pu_params u)) lp_prefix)
           (Bail ''LP token denom does not start with the correct prefix'')) (\<lambda>_.
         Inr (st\<lparr>dx_pairs := om_insert (pu_pair u) (pu_params u) (dx_pairs st)\<rparr>))) st updates) (\<lambda>st'.
       Inr (st', [], []))))"

definition batch_update_orders ::
    "ctx \<Rightarrow> dex_state \<Rightarrow> create_order_request list \<Rightarrow> cancel_order_request option \<Rightarrow> dex_result" where
  "batch_update_orders cx st creates cancels =
     and_then (ensure (\<not> dx_paused st) (Bail ''trading is paused'')) (\<lambda>_.
     and_then
       (case cancels of
          Some (CancelSome order_ids) \<Rightarrow>
            try_fold (cancel_order_from_user (ctx_sender cx)) (st, [], dec_coins_new) order_ids
        | Some CancelAll \<Rightarrow> cancel_all_orders_from_user (ctx_sender cx) (st, [], dec_coins_new)
        | None \<Rightarrow> Inr (st, [], dec_coins_new)) (\<lambda>(st1, events1, refunds).
     and_then (try_fold (create_order (ctx_height cx) (ctx_sender cx)) (st1, events1, coins_new) creates)
       (\<lambda>(st2, events2, deposits).
     and_then (into_coins_floor 6 refunds) (\<lambda>refunds'.
     and_then (coins_insert_many (ctx_funds cx) (coins_iter refunds')) (\<lambda>funds1.
     and_then (map_err (\<lambda>_. Bail ''insufficient funds for batch updating orders'')
         (coins_deduct_many funds1 (coins_iter deposits))) (\<lambda>funds2.
       Inr (st2, [DexTransfer [(ctx_sender cx, funds2)]], events2)))))))"

definition force_cancel_orders :: "dex_state \<Rightarrow> dex_result" where
  "force_cancel_orders st =
     and_then (cancel_all_orders st) (\<lambda>(st', events, refunds).
     and_then (transfers_into_batch 6 refunds) (\<lambda>batch.
       Inr (st', [DexTransfer batch], events)))"

end
