(* ===== verification/Pools.thy ===== *)
theory Pools
  imports Geometric Order_Book
begin

text \<open>
  The passive liquidity pools of the exchange: adding and removing liquidity and single swaps
  (\<^verbatim>\<open>dango/dex/src/core/liquidity_pool.rs\<close>), routes of swaps (\<^verbatim>\<open>core/router.rs\<close>), and the four
  handlers of \<^verbatim>\<open>dango/dex/src/execute.rs\<close> that move funds in and out of the pools.
\<close>

subsection \<open>Liquidity (liquidity\_pool.rs)\<close>

definition abs_diff :: "'a::len word \<Rightarrow> 'a word \<Rightarrow> 'a word" where
  "abs_diff a b = (if b < a then a - b else b - a)"

text \<open>The fee rate of an unbalanced deposit, in 256 bits on the way.\<close>

definition deposit_fee_rate :: "oracle_fun \<Rightarrow> udec \<Rightarrow> coin_pair \<Rightarrow> coin_pair \<Rightarrow> udec res" where
  "deposit_fee_rate oracle swap_fee_rate reserve deposit =
     and_then (oracle (c_denom (fst reserve))) (\<lambda>price1.
     and_then (value_of_unit_amount 24 price1 (c_amount (fst deposit))) (\<lambda>a.
     and_then (value_of_unit_amount 24 price1 (c_amount (fst reserve))) (\<lambda>reserve_a.
     and_then (oracle (c_denom (snd reserve))) (\<lambda>price2.
     and_then (value_of_unit_amount 24 price2 (c_amount (snd deposit))) (\<lambda>b.
     and_then (value_of_unit_amount 24 price2 (c_amount (snd reserve))) (\<lambda>reserve_b.
     (let a = into_next a; reserve_a = into_next reserve_a; b = into_next b; reserve_b = into_next reserve_b in
     and_then (dec_add 24 24 a b) (\<lambda>deposit_value.
     and_then (dec_add 24 24 reserve_a reserve_b) (\<lambda>reserve_value.
     and_then (dec_mul 24 a reserve_b) (\<lambda>x.
     and_then (dec_mul 24 b reserve_a) (\<lambda>y.
     and_then (dec_add 24 24 deposit_value reserve_value) (\<lambda>total_value.
     and_then (dec_div 24 (abs_diff x y) total_value) (\<lambda>r.
     and_then (dec_mul 18 r (into_next swap_fee_rate)) (\<lambda>r.
     and_then (dec_div 24 r deposit_value) checked_into_prev))))))))))))))"

definition pool_add_liquidity ::
    "oracle_fun \<Rightarrow> pair_params \<Rightarrow> coin_pair \<Rightarrow> u128 \<Rightarrow> coin_pair \<Rightarrow> (coin_pair \<times> u128) res" where
  "pool_add_liquidity oracle params reserve lp_token_supply deposit =
     (if is_zero lp_token_supply
      then and_then (case pp_pool_type params of
               PoolXyk _ \<Rightarrow> add_initial_liquidity deposit
             | PoolGeometric _ \<Rightarrow> geo_add_initial_liquidity oracle deposit) (\<lambda>mint_amount.
           and_then (coin_pair_merge reserve deposit) (\<lambda>reserve'.
             Inr (reserve', mint_amount)))
      else
        and_then (deposit_fee_rate oracle (pp_swap_fee_rate params) reserve deposit) (\<lambda>fee_rate.
        and_then (case pp_pool_type params of
            PoolXyk _ \<Rightarrow> add_subsequent_liquidity reserve deposit
          | PoolGeometric _ \<Rightarrow> geo_add_subsequent_liquidity oracle reserve deposit) (\<lambda>(reserve', mint_ratio).
        and_then (checked_mul_dec_floor 24 lp_token_supply mint_ratio) (\<lambda>mint_amount_before_fee.
        and_then (dec_sub 18 24 (dec_one 18) fee_rate) (\<lambda>one_sub_fee_rate.
        and_then (checked_mul_dec_floor 18 mint_amount_before_fee one_sub_fee_rate) (\<lambda>mint_amount.
        and_then (ensure (is_non_zero mint_amount) (Bail ''mint amount must be non-zero'')) (\<lambda>_.
          Inr (reserve', mint_amount))))))))"

definition pool_remove_liquidity :: "coin_pair \<Rightarrow> u128 \<Rightarrow> u128 \<Rightarrow> (coin_pair \<times> coin_pair) res" where
  "pool_remove_liquidity reserve lp_token_supply lp_burn_amount =
     coin_pair_split reserve lp_burn_amount lp_token_supply"

definition pool_swap_in ::
    "oracle_fun \<Rightarrow> pair_params \<Rightarrow> pair_key \<Rightarrow> coin_pair \<Rightarrow> coin \<Rightarrow> (coin_pair \<times> coin) res" where
  "pool_swap_in oracle params pair reserve input =
     and_then (if c_denom (fst reserve) = c_denom input then Inr (c_denom (snd reserve))
               else if c_denom (snd reserve) = c_denom input then Inr (c_denom (fst reserve))
               else Inl (Bail ''input denom is neither the base nor the quote'')) (\<lambda>output_denom.
     and_then (case pp_pool_type params of
         PoolXyk _ \<Rightarrow>
           and_then (coin_pair_amount_of reserve (c_denom input)) (\<lambda>input_reserve.
           and_then (coin_pair_amount_of reserve output_denom) (\<lambda>output_reserve.
             xyk_swap_exact_amount_in input_reserve output_reserve (c_amount input) (pp_swap_fee_rate params)))
       | PoolGeometric geo \<Rightarrow>
           geo_swap_exact_amount_in oracle pair input reserve geo (pp_swap_fee_rate params)) (\<lambda>output_amount.
     (let output = mk_coin output_denom output_amount in
     and_then (ensure (is_positive (c_amount output)) (Bail ''output amount after fee must be positive'')) (\<lambda>_.
     and_then (coin_pair_add reserve input) (\<lambda>reserve1.
     and_then (coin_pair_sub reserve1 output) (\<lambda>reserve2.
       Inr (reserve2, output)))))))"

definition pool_swap_out ::
    "oracle_fun \<Rightarrow> pair_params \<Rightarrow> pair_key \<Rightarrow> coin_pair \<Rightarrow> coin \<Rightarrow> (coin_pair \<times> coin) res" where
  "pool_swap_out oracle params pair reserve output =
     (let input_denom = (if c_denom (fst reserve) = c_denom output then c_denom (snd reserve)
                         else c_denom (fst reserve)) in
     and_then (coin_pair_amount_of reserve input_denom) (\<lambda>input_reserve.
     and_then (coin_pair_amount_of reserve (c_denom output)) (\<lambda>output_reserve.
     and_then (case pp_pool_type params of
         PoolXyk _ \<Rightarrow>
           xyk_swap_exact_amount_out input_reserve output_reserve (c_amount output) (pp_swap_fee_rate params)
       | PoolGeometric geo \<Rightarrow>
           geo_swap_exact_amount_out oracle pair output reserve geo (pp_swap_fee_rate params)) (\<lambda>input_amount.
     (let input = mk_coin input_denom input_amount in
     and_then (ensure (is_positive (c_amount input)) (Bail ''input amount must be positive'')) (\<lambda>_.
     and_then (coin_pair_add reserve input) (\<lambda>reserve1.
     and_then (coin_pair_sub reserve1 output) (\<lambda>reserve2.
       Inr (reserve2, input)))))))))"

definition pool_reflect_curve ::
    "oracle_fun \<Rightarrow> pair_params \<Rightarrow> pair_key \<Rightarrow> coin_pair \<Rightarrow> ((udec \<times> u128) list \<times> (udec \<times> u128) list) res" where
  "pool_reflect_curve oracle params pair reserve =
     and_then (coin_pair_amount_of reserve (fst pair)) (\<lambda>base_reserve.
     and_then (coin_pair_amount_of reserve (snd pair)) (\<lambda>quote_reserve.
       (case pp_pool_type params of
          PoolXyk xyk \<Rightarrow> xyk_reflect_curve base_reserve quote_reserve xyk (pp_swap_fee_rate params)
        | PoolGeometric geo \<Rightarrow>
            geo_reflect_curve oracle pair base_reserve quote_reserve geo (pp_swap_fee_rate params))))"

subsection \<open>Routes (router.rs)\<close>

text \<open>A route lists no pair twice. The updated reserves are collected, the storage is only read.\<close>

type_synonym reserves = "(pair_key, coin_pair) omap"

definition route_step ::
    "(coin_pair \<Rightarrow> pair_params \<Rightarrow> pair_key \<Rightarrow> coin \<Rightarrow> (coin_pair \<times> coin) res) \<Rightarrow> dex_state \<Rightarrow>
     reserves \<times> coin \<Rightarrow> pair_key \<Rightarrow> (reserves \<times> coin) res" where
  "route_step swap st = (\<lambda>(reserves, coin) pair.
     and_then (om_load (dx_pairs st) pair) (\<lambda>params.
     and_then (om_load (dx_reserves st) pair) (\<lambda>reserve.
     and_then (swap reserve params pair coin) (\<lambda>(reserve', coin').
       Inr (om_insert pair reserve' reserves, coin')))))"

definition route_swap_in ::
    "oracle_fun \<Rightarrow> dex_state \<Rightarrow> udec \<Rightarrow> pair_key list \<Rightarrow> coin \<Rightarrow> (reserves \<times> coin \<times> u128) res" where
  "route_swap_in oracle st protocol_fee_rate route input =
     and_then (try_fold (route_step (\<lambda>reserve params pair coin. pool_swap_in oracle params pair reserve coin) st)
       ([], input) route) (\<lambda>(reserves, output).
     and_then (checked_mul_dec_ceil 18 (c_amount output) protocol_fee_rate) (\<lambda>protocol_fee.
     and_then (checked_sub (c_amount output) protocol_fee) (\<lambda>amount.
       Inr (reserves, output\<lparr>c_amount := amount\<rparr>, protocol_fee))))"

definition route_swap_out ::
    "oracle_fun \<Rightarrow> dex_state \<Rightarrow> udec \<Rightarrow> pair_key list \<Rightarrow> coin \<Rightarrow> (reserves \<times> coin \<times> u128) res" where
  "route_swap_out oracle st protocol_fee_rate route output =
     and_then (dec_sub 18 18 (dec_one 18) protocol_fee_rate) (\<lambda>one_sub_fee_rate.
     and_then (checked_div_dec_ceil 18 (c_amount output) one_sub_fee_rate) (\<lambda>amount.
     and_then (checked_sub amount (c_amount output)) (\<lambda>protocol_fee.
     and_then (try_fold (route_step (\<lambda>reserve params pair coin. pool_swap_out oracle params pair reserve coin) st)
       ([], output\<lparr>c_amount := amount\<rparr>) (rev route)) (\<lambda>(reserves, input).
       Inr (reserves, input, protocol_fee)))))"

subsection \<open>Handlers (execute.rs)\<close>

text \<open>What the exchange asks other contracts: prices, token supplies, the username that owns an account
  (none for contracts and multi-signature accounts), the app's configuration (fee rates and the address
  of the exchange) and the chain's owner. The addresses of the bank and the oracle are not part of the
  messages of the model.\<close>

record dex_env =
  de_price :: "denom \<Rightarrow> precisioned_price res"
  de_supply :: "denom \<Rightarrow> u128 res"
  de_taker_fee_rate :: udec
  de_maker_fee_rate :: udec
  de_volume_user :: "addr \<Rightarrow> username option res"
  de_dex :: addr
  de_owner :: "addr res"

definition max_oracle_staleness :: u128 where
  "max_oracle_staleness = 5000000000"

definition minimum_liquidity :: u128 where
  "minimum_liquidity = 1000"

definition dex_oracle :: "dex_env \<Rightarrow> ctx \<Rightarrow> oracle_fun res" where
  "dex_oracle env cx =
     and_then (duration_sub (ctx_time cx) max_oracle_staleness) (\<lambda>no_older_than.
       Inr (\<lambda>d. fresh_price no_older_than (de_price env d)))"

text \<open>The macro \<^verbatim>\<open>coins!\<close> skips a zero amount, the conversion from a coin does not.\<close>

definition coins_macro :: "denom \<Rightarrow> u128 \<Rightarrow> coins" where
  "coins_macro d a = (if is_zero a then [] else [(d, a)])"

definition coins_from_coin :: "coin \<Rightarrow> coins" where
  "coins_from_coin c = [(c_denom c, c_amount c)]"

definition provide_liquidity :: "dex_env \<Rightarrow> ctx \<Rightarrow> dex_state \<Rightarrow> pair_key \<Rightarrow> dex_result" where
  "provide_liquidity env cx st pair =
     and_then (coins_take_pair (ctx_funds cx) pair) (\<lambda>(funds, deposit).
     and_then (ensure (coins_is_empty funds) (Bail ''unexpected deposit'')) (\<lambda>_.
     and_then (om_load (dx_pairs st) pair) (\<lambda>params.
     and_then (case map_of (dx_reserves st) pair of
         None \<Rightarrow> coin_pair_new (mk_coin (fst pair) 0) (mk_coin (snd pair) 0)
       | Some reserve \<Rightarrow> Inr reserve) (\<lambda>reserve.
     and_then (de_supply env (pp_lp_denom params)) (\<lambda>lp_token_supply.
     and_then (dex_oracle env cx) (\<lambda>oracle.
     and_then (pool_add_liquidity oracle params reserve lp_token_supply deposit) (\<lambda>(reserve', lp_mint_amount).
       Inr (st\<lparr>dx_reserves := om_insert pair reserve' (dx_reserves st)\<rparr>,
         [DexMint (ctx_sender cx) (coins_macro (pp_lp_denom params) lp_mint_amount)] @
         (if is_zero lp_token_supply
          then [DexMint (ctx_contract cx) (coins_macro (pp_lp_denom params) minimum_liquidity)] else []),
         []))))))))"

definition withdraw_liquidity :: "dex_env \<Rightarrow> ctx \<Rightarrow> dex_state \<Rightarrow> pair_key \<Rightarrow> dex_result" where
  "withdraw_liquidity env cx st pair =
     and_then (om_load (dx_pairs st) pair) (\<lambda>params.
     and_then (om_load (dx_reserves st) pair) (\<lambda>reserve.
     and_then (de_supply env (pp_lp_denom params)) (\<lambda>lp_token_supply.
     (let (funds, lp) = coins_take (ctx_funds cx) (pp_lp_denom params) in
     and_then (ensure (coins_is_empty funds) (Bail ''unexpected deposit'')) (\<lambda>_.
     and_then (pool_remove_liquidity reserve lp_token_supply (c_amount lp)) (\<lambda>(reserve', refunds).
       Inr (st\<lparr>dx_reserves := om_insert pair reserve' (dx_reserves st)\<rparr>,
         [DexBurn (ctx_contract cx) (coins_macro (pp_lp_denom params) (c_amount lp)),
          DexTransfer [(ctx_sender cx, coin_pair_into_coins refunds)]], [])))))))"

text \<open>The protocol fee is paid to the taxman, on behalf of the sender.\<close>

definition pay_protocol_fee :: "ctx \<Rightarrow> denom \<Rightarrow> u128 \<Rightarrow> dex_msg list" where
  "pay_protocol_fee cx d protocol_fee =
     (if is_non_zero protocol_fee
      then [DexPay FeeTrade [(ctx_sender cx, coins_macro d protocol_fee)] (coins_macro d protocol_fee)]
      else [])"

definition save_reserves :: "dex_state \<Rightarrow> reserves \<Rightarrow> dex_state" where
  "save_reserves st reserves =
     st\<lparr>dx_reserves := fold (\<lambda>(pair, reserve). om_insert pair reserve) reserves (dx_reserves st)\<rparr>"

definition dex_swap_in :: "dex_env \<Rightarrow> ctx \<Rightarrow> dex_state \<Rightarrow> pair_key list \<Rightarrow> u128 option \<Rightarrow> dex_result" where
  "dex_swap_in env cx st route minimum_output =
     and_then (into_one_coin (ctx_funds cx)) (\<lambda>input.
     and_then (dex_oracle env cx) (\<lambda>oracle.
     and_then (route_swap_in oracle st (de_taker_fee_rate env) route input) (\<lambda>(reserves, output, protocol_fee).
     and_then (case minimum_output of
         Some m \<Rightarrow> ensure (m \<le> c_amount output) (Bail ''output amount is below the minimum'')
       | None \<Rightarrow> ensure (is_non_zero (c_amount output)) (Bail ''output amount is zero'')) (\<lambda>_.
       Inr (save_reserves st reserves,
         [DexTransfer [(ctx_sender cx, coins_from_coin output)]] @
         pay_protocol_fee cx (c_denom output) protocol_fee,
         [Swapped (ctx_sender cx) input output])))))"

definition dex_swap_out :: "dex_env \<Rightarrow> ctx \<Rightarrow> dex_state \<Rightarrow> pair_key list \<Rightarrow> coin \<Rightarrow> dex_result" where
  "dex_swap_out env cx st route output =
     and_then (dex_oracle env cx) (\<lambda>oracle.
     and_then (route_swap_out oracle st (de_taker_fee_rate env) route output) (\<lambda>(reserves, input, protocol_fee).
     and_then (coins_insert (ctx_funds cx) output) (\<lambda>funds1.
     and_then (map_err (\<lambda>_. Bail ''insufficient input for swap'') (coins_deduct funds1 input)) (\<lambda>funds2.
       Inr (save_reserves st reserves,
         [DexTransfer [(ctx_sender cx, funds2)]] @ pay_protocol_fee cx (c_denom output) protocol_fee,
         [Swapped (ctx_sender cx) input output])))))"

end
