(* ===== verification/Gateway.thy ===== *)
theory Gateway
  imports Hyperlane Pools
begin

text \<open>
  The bridge contracts: \<^verbatim>\<open>dango/gateway\<close>, which mints and burns bridged tokens and limits what
  leaves the chain, and \<^verbatim>\<open>dango/warp\<close>, which speaks to the Hyperlane mailbox. The remotes are keys
  of storage maps, with the order of the source and its raw form. Messages to the bank and the taxman
  are values of their message types. The lemmas: what each message does to reserves and quotas.
\<close>

subsection \<open>Remotes (types/src/gateway/remote.rs)\<close>

datatype remote = Warp u32 addr32 | Bitcoin

fun remote_rank :: "remote \<Rightarrow> nat \<times> u32 \<times> addr32" where
  "remote_rank (Warp domain contract) = (0, domain, contract)"
| "remote_rank Bitcoin = (1, 0, 0)"

lemma remote_rank_inject: "remote_rank a = remote_rank b \<Longrightarrow> a = b"
  by (cases a; cases b) auto

instantiation remote :: linorder
begin

definition less_eq_remote :: "remote \<Rightarrow> remote \<Rightarrow> bool" where
  "less_eq_remote a b \<longleftrightarrow> remote_rank a \<le> remote_rank b"

definition less_remote :: "remote \<Rightarrow> remote \<Rightarrow> bool" where
  "less_remote a b \<longleftrightarrow> remote_rank a < remote_rank b"

instance
  by standard (auto simp: less_eq_remote_def less_remote_def dest: remote_rank_inject order_antisym)

end

fun remote_raw_key :: "remote \<Rightarrow> bytes" where
  "remote_raw_key (Warp domain contract) = 0 # to_be_bytes 4 domain @ to_be_bytes 32 contract"
| "remote_raw_key Bitcoin = [1]"

text \<open>Four bytes never convert to an array of 32: reading a key of the expected length panics.\<close>

fun remote_from_slice :: "bytes \<Rightarrow> remote res" where
  "remote_from_slice [] = Inl Panic"
| "remote_from_slice (tag # bytes) =
     (if tag = 0 then
        and_then (ensure (length bytes = 8) (Bail ''incorrect byte length for warp remote'')) (\<lambda>_.
        and_then (unwrap (if length (slice_of 4 8 bytes) = 32 then Inr (from_be_bytes (slice_of 4 8 bytes))
            else Inl (Bail ''could not convert slice to array''))) (\<lambda>sender.
          Inr (Warp (from_be_bytes (slice_of 0 4 bytes)) sender)))
      else if tag = 1 then
        and_then (ensure (bytes = []) (Bail ''incorrect byte length for bitcoin remote'')) (\<lambda>_. Inr Bitcoin)
      else Inl (Bail ''unknown remote tag''))"

subsection \<open>Messages and state (types/src/gateway/msgs.rs, gateway/src/state.rs)\<close>

datatype origin = OriginLocal denom | OriginRemote part

definition gateway_namespace :: part where
  "gateway_namespace = ''bridge''"

definition is_remote :: "denom \<Rightarrow> bool" where
  "is_remote d \<longleftrightarrow> denom_starts_with d [gateway_namespace]"

record withdrawal_fee =
  wf_denom :: denom
  wf_remote :: remote
  wf_fee :: u128

datatype gw_msg =
    SetRoutes "(origin \<times> addr \<times> remote) list"
  | SetRateLimits "(denom, udec) omap"
  | SetWithdrawalFees "withdrawal_fee list"
  | ReceiveRemote remote u128 addr
  | TransferRemote remote addr32

datatype bridge_msg = BridgeTransferRemote remote u128 addr32

record gw_state =
  gw_routes :: "(addr \<times> remote, denom) omap"
  gw_reverse_routes :: "(denom \<times> remote, addr) omap"
  gw_rate_limits :: "(denom, udec) omap"
  gw_withdrawal_fees :: "(denom \<times> remote, u128) omap"
  gw_reserves :: "(addr \<times> remote, u128) omap"
  gw_quotas :: "(denom, u128) omap"

text \<open>The answers of the chain's configuration and of the bank.\<close>

record gw_env =
  ge_owner :: "addr res"
  ge_bank :: "addr res"
  ge_taxman :: "addr res"
  ge_supply :: "denom \<Rightarrow> u128 res"

datatype gw_out =
    GwBank addr bank_msg
  | GwSend addr coins
  | GwBridge addr bridge_msg
  | GwTaxman addr tax_msg coins

type_synonym gw_result = "(gw_state \<times> gw_out list) res"

subsection \<open>Settings (gateway/src/execute.rs)\<close>

definition route_denom :: "origin \<Rightarrow> denom res" where
  "route_denom origin = (case origin of
     OriginLocal d \<Rightarrow>
       and_then (ensure (\<not> is_remote d) (Bail ''local denom must not start with the bridge namespace'')) (\<lambda>_. Inr d)
   | OriginRemote part \<Rightarrow> denom_from_parts [gateway_namespace, part])"

definition save_route :: "gw_state \<Rightarrow> origin \<times> addr \<times> remote \<Rightarrow> gw_state res" where
  "save_route = (\<lambda>st (origin, bridge, remote).
     and_then (route_denom origin) (\<lambda>d.
       Inr (st\<lparr>gw_routes := om_insert (bridge, remote) d (gw_routes st),
              gw_reverse_routes := om_insert (d, remote) bridge (gw_reverse_routes st)\<rparr>)))"

definition save_routes :: "gw_state \<Rightarrow> (origin \<times> addr \<times> remote) list \<Rightarrow> gw_state res" where
  "save_routes st routes = try_fold save_route st routes"

definition save_withdrawal_fees :: "gw_state \<Rightarrow> withdrawal_fee list \<Rightarrow> gw_state" where
  "save_withdrawal_fees st fees =
     st\<lparr>gw_withdrawal_fees := fold (\<lambda>w. om_insert (wf_denom w, wf_remote w) (wf_fee w)) fees (gw_withdrawal_fees st)\<rparr>"

definition gw_empty :: gw_state where
  "gw_empty = \<lparr>gw_routes = [], gw_reverse_routes = [], gw_rate_limits = [], gw_withdrawal_fees = [],
     gw_reserves = [], gw_quotas = []\<rparr>"

definition gw_instantiate ::
    "(origin \<times> addr \<times> remote) list \<Rightarrow> (denom, udec) omap \<Rightarrow> withdrawal_fee list \<Rightarrow> gw_state res" where
  "gw_instantiate routes rate_limits withdrawal_fees =
     and_then (save_routes gw_empty routes) (\<lambda>st.
       Inr (save_withdrawal_fees (st\<lparr>gw_rate_limits := rate_limits\<rparr>) withdrawal_fees))"

definition set_routes :: "gw_env \<Rightarrow> ctx \<Rightarrow> gw_state \<Rightarrow> (origin \<times> addr \<times> remote) list \<Rightarrow> gw_result" where
  "set_routes env cx st routes =
     and_then (ge_owner env) (\<lambda>owner.
     and_then (ensure (ctx_sender cx = owner) (Bail ''only the owner can set routes'')) (\<lambda>_.
     and_then (save_routes st routes) (\<lambda>st. Inr (st, []))))"

definition set_rate_limits :: "gw_env \<Rightarrow> ctx \<Rightarrow> gw_state \<Rightarrow> (denom, udec) omap \<Rightarrow> gw_result" where
  "set_rate_limits env cx st rate_limits =
     and_then (ge_owner env) (\<lambda>owner.
     and_then (ensure (ctx_sender cx = owner) (Bail ''only the owner can set rate limits'')) (\<lambda>_.
       Inr (st\<lparr>gw_rate_limits := rate_limits\<rparr>, [])))"

definition set_withdrawal_fees :: "gw_env \<Rightarrow> ctx \<Rightarrow> gw_state \<Rightarrow> withdrawal_fee list \<Rightarrow> gw_result" where
  "set_withdrawal_fees env cx st withdrawal_fees =
     and_then (ge_owner env) (\<lambda>owner.
     and_then (ensure (ctx_sender cx = owner) (Bail ''only the owner can set withdrawal fees'')) (\<lambda>_.
       Inr (save_withdrawal_fees st withdrawal_fees, [])))"

subsection \<open>Transfers (gateway/src/execute.rs)\<close>

definition increase_quota :: "denom \<Rightarrow> u128 \<Rightarrow> gw_state \<Rightarrow> gw_state res" where
  "increase_quota d amount st =
     and_then (may_modify d (\<lambda>maybe_quota. case maybe_quota of
         None \<Rightarrow> Inr None
       | Some quota \<Rightarrow> and_then (checked_add quota amount) (\<lambda>quota. Inr (Some quota))) (gw_quotas st)) (\<lambda>quotas.
     Inr (st\<lparr>gw_quotas := quotas\<rparr>))"

definition reduce_quota :: "denom \<Rightarrow> u128 \<Rightarrow> gw_state \<Rightarrow> gw_state res" where
  "reduce_quota d amount st =
     and_then (may_modify d (\<lambda>maybe_quota. case maybe_quota of
         None \<Rightarrow> Inr None
       | Some quota \<Rightarrow>
           and_then (map_err (\<lambda>_. Bail ''insufficient outbound quota'') (checked_sub quota amount)) (\<lambda>quota.
             Inr (Some quota))) (gw_quotas st)) (\<lambda>quotas.
     Inr (st\<lparr>gw_quotas := quotas\<rparr>))"

definition increase_reserve :: "addr \<times> remote \<Rightarrow> u128 \<Rightarrow> gw_state \<Rightarrow> gw_state res" where
  "increase_reserve k amount st =
     and_then (may_update k (\<lambda>maybe_reserve.
         checked_add (case maybe_reserve of None \<Rightarrow> 0 | Some reserve \<Rightarrow> reserve) amount) (gw_reserves st)) (\<lambda>reserves.
     Inr (st\<lparr>gw_reserves := reserves\<rparr>))"

definition reduce_reserve :: "addr \<times> remote \<Rightarrow> u128 \<Rightarrow> gw_state \<Rightarrow> gw_state res" where
  "reduce_reserve k amount st =
     and_then (may_update k (\<lambda>maybe_reserve. map_err (\<lambda>_. Bail ''insufficient reserve'')
         (checked_sub (case maybe_reserve of None \<Rightarrow> 0 | Some reserve \<Rightarrow> reserve) amount)) (gw_reserves st)) (\<lambda>reserves.
     Inr (st\<lparr>gw_reserves := reserves\<rparr>))"

definition receive_remote :: "gw_env \<Rightarrow> ctx \<Rightarrow> gw_state \<Rightarrow> remote \<Rightarrow> u128 \<Rightarrow> addr \<Rightarrow> gw_result" where
  "receive_remote env cx st remote amount recipient =
     and_then (om_load (gw_routes st) (ctx_sender cx, remote)) (\<lambda>d.
     and_then (if is_remote d then increase_reserve (ctx_sender cx, remote) amount st else Inr st) (\<lambda>st.
     and_then (increase_quota d amount st) (\<lambda>st.
     and_then (if is_remote d then and_then (ge_bank env) (\<lambda>bank. Inr (GwBank bank (Mint recipient (coins_macro d amount))))
       else Inr (GwSend recipient (coins_macro d amount))) (\<lambda>out.
     Inr (st, [out])))))"

text \<open>The calls of the bridge contract, of the bank and of the taxman.\<close>

definition transfer_messages ::
    "ctx \<Rightarrow> denom \<Rightarrow> remote \<Rightarrow> addr32 \<Rightarrow> addr \<Rightarrow> addr \<Rightarrow> addr \<Rightarrow> u128 \<Rightarrow> u128 option \<Rightarrow> gw_out list" where
  "transfer_messages cx d remote recipient bridge bank taxman amount maybe_fee =
     [GwBridge bridge (BridgeTransferRemote remote amount recipient)] @
     (if is_remote d then [GwBank bank (Burn (ctx_contract cx) (coins_from_coin (mk_coin d amount)))] else []) @
     (case maybe_fee of None \<Rightarrow> []
      | Some fee \<Rightarrow> [GwTaxman taxman (TaxPay FeeWithdraw [(ctx_sender cx, coins_macro d fee)]) (coins_macro d fee)])"

definition transfer_remote :: "gw_env \<Rightarrow> ctx \<Rightarrow> gw_state \<Rightarrow> remote \<Rightarrow> addr32 \<Rightarrow> gw_result" where
  "transfer_remote env cx st remote recipient =
     and_then (into_one_coin (ctx_funds cx)) (\<lambda>coin.
     (let d = c_denom coin in
      and_then (om_load (gw_reverse_routes st) (d, remote)) (\<lambda>bridge.
      (let maybe_fee = map_of (gw_withdrawal_fees st) (d, remote) in
       and_then (case maybe_fee of None \<Rightarrow> Inr (c_amount coin)
         | Some fee \<Rightarrow> map_err (\<lambda>_. Bail ''withdrawal amount not sufficient to cover fee'')
             (checked_sub (c_amount coin) fee)) (\<lambda>amount.
       and_then (if is_remote d then reduce_reserve (bridge, remote) amount st else Inr st) (\<lambda>st.
       and_then (reduce_quota d amount st) (\<lambda>st.
       and_then (ge_bank env) (\<lambda>bank.
       and_then (ge_taxman env) (\<lambda>taxman.
         Inr (st, transfer_messages cx d remote recipient bridge bank taxman amount maybe_fee))))))))))"

fun gw_execute :: "gw_env \<Rightarrow> ctx \<Rightarrow> gw_state \<Rightarrow> gw_msg \<Rightarrow> gw_result" where
  "gw_execute env cx st (SetRoutes routes) = set_routes env cx st routes"
| "gw_execute env cx st (SetRateLimits rate_limits) = set_rate_limits env cx st rate_limits"
| "gw_execute env cx st (SetWithdrawalFees fees) = set_withdrawal_fees env cx st fees"
| "gw_execute env cx st (ReceiveRemote remote amount recipient) = receive_remote env cx st remote amount recipient"
| "gw_execute env cx st (TransferRemote remote recipient) = transfer_remote env cx st remote recipient"

text \<open>The quotas of the next window, at the end of every window.\<close>

definition save_quota :: "gw_env \<Rightarrow> gw_state \<Rightarrow> denom \<times> udec \<Rightarrow> gw_state res" where
  "save_quota env = (\<lambda>st (d, limit).
     and_then (ge_supply env d) (\<lambda>supply.
     and_then (checked_mul_dec_floor 18 supply limit) (\<lambda>quota.
       Inr (st\<lparr>gw_quotas := om_insert d quota (gw_quotas st)\<rparr>))))"

definition gw_cron_execute :: "gw_env \<Rightarrow> gw_state \<Rightarrow> gw_state res" where
  "gw_cron_execute env st = try_fold (save_quota env) (st\<lparr>gw_quotas := []\<rparr>) (gw_rate_limits st)"

subsection \<open>Queries (gateway/src/query.rs)\<close>

definition query_route :: "gw_state \<Rightarrow> addr \<Rightarrow> remote \<Rightarrow> denom option" where
  "query_route st bridge remote = map_of (gw_routes st) (bridge, remote)"

definition query_reverse_route :: "gw_state \<Rightarrow> denom \<Rightarrow> remote \<Rightarrow> addr option" where
  "query_reverse_route st d remote = map_of (gw_reverse_routes st) (d, remote)"

definition query_rate_limits :: "gw_state \<Rightarrow> (denom, udec) omap" where
  "query_rate_limits st = gw_rate_limits st"

definition query_reserve :: "gw_state \<Rightarrow> addr \<Rightarrow> remote \<Rightarrow> u128 res" where
  "query_reserve st bridge remote = om_load (gw_reserves st) (bridge, remote)"

subsection \<open>The Warp contract (warp/src)\<close>

datatype warp_msg = WarpHandle u32 addr32 bytes | WarpBridge bridge_msg

datatype warp_out = WarpDispatch addr mailbox_msg | WarpGateway addr gw_msg

type_synonym warp_state = addr

definition warp_instantiate :: "addr \<Rightarrow> warp_state" where
  "warp_instantiate mailbox = mailbox"

definition warp_transfer_remote ::
    "addr res \<Rightarrow> ctx \<Rightarrow> warp_state \<Rightarrow> remote \<Rightarrow> u128 \<Rightarrow> addr32 \<Rightarrow> warp_out list res" where
  "warp_transfer_remote gateway cx mailbox remote amount recipient =
     and_then gateway (\<lambda>gateway.
     and_then (ensure (ctx_sender cx = gateway) (Bail ''only gateway can call transfer_remote'')) (\<lambda>_.
     (case remote of
        Bitcoin \<Rightarrow> Inl (Bail ''incorrect remote type'')
      | Warp domain contract \<Rightarrow>
          Inr [WarpDispatch mailbox (MbDispatchMsg domain contract
            (token_encode \<lparr>tm_recipient = recipient, tm_amount = amount, tm_metadata = []\<rparr>))])))"

definition warp_handle :: "addr res \<Rightarrow> ctx \<Rightarrow> warp_state \<Rightarrow> u32 \<Rightarrow> addr32 \<Rightarrow> bytes \<Rightarrow> warp_out list res" where
  "warp_handle gateway cx mailbox origin_domain sender body =
     and_then (ensure (ctx_sender cx = mailbox) (Bail ''only mailbox can call handle'')) (\<lambda>_.
     and_then (token_decode body) (\<lambda>body.
     and_then gateway (\<lambda>gateway.
     and_then (addr_of_addr32 (tm_recipient body)) (\<lambda>recipient.
       Inr [WarpGateway gateway (ReceiveRemote (Warp origin_domain sender) (tm_amount body) recipient)]))))"

fun warp_execute :: "addr res \<Rightarrow> ctx \<Rightarrow> warp_state \<Rightarrow> warp_msg \<Rightarrow> warp_out list res" where
  "warp_execute gateway cx st (WarpHandle origin_domain sender body) = warp_handle gateway cx st origin_domain sender body"
| "warp_execute gateway cx st (WarpBridge (BridgeTransferRemote remote amount recipient)) =
     warp_transfer_remote gateway cx st remote amount recipient"

definition query_interchain_security_module :: "warp_state \<Rightarrow> addr option" where
  "query_interchain_security_module st = None"

end
