(* ===== verification/Hyperlane_Safety.thy ===== *)
theory Hyperlane_Safety
  imports Hyperlane
begin

text \<open>
  What the Hyperlane contracts guarantee over runs of the mailbox: at most one delivery per message,
  only of verified ones, and a tree that is the Merkle tree of all messages sent. The multisig module is
  characterised exactly; it counts signatures, not validators.
\<close>

subsection \<open>Runs of the mailbox\<close>

fun sent_of :: "mailbox_event list \<Rightarrow> hl_message list" where
  "sent_of [] = []"
| "sent_of (MbDispatch m # evs) = m # sent_of evs"
| "sent_of (_ # evs) = sent_of evs"

fun delivered_of :: "hl_env \<Rightarrow> mailbox_msg \<Rightarrow> (hl_env \<times> bytes \<times> bytes) list" where
  "delivered_of env (MbProcessMsg raw_message raw_metadata) = [(env, raw_message, raw_metadata)]"
| "delivered_of env (MbDispatchMsg _ _ _) = []"

inductive mailbox_run ::
    "crypto_api \<Rightarrow> mailbox_config \<Rightarrow> mailbox_state \<Rightarrow> hl_message list \<Rightarrow> (hl_env \<times> bytes \<times> bytes) list \<Rightarrow> bool"
  for api cfg where
  Genesis: "mailbox_run api cfg (mailbox_instantiate cfg) [] []"
| Step: "mailbox_run api cfg st sent got \<Longrightarrow> mailbox_execute api env cx st msg = Inr (st', outs, evs) \<Longrightarrow>
    mailbox_run api cfg st' (sent @ sent_of evs) (got @ delivered_of env msg)"

definition delivered_id :: "crypto_api \<Rightarrow> hl_env \<times> bytes \<times> bytes \<Rightarrow> u256" where
  "delivered_id api d = keccak_hash api (fst (snd d))"

text \<open>A message that is delivered was checked.\<close>

definition checked_delivery :: "mailbox_config \<Rightarrow> hl_env \<Rightarrow> bytes \<Rightarrow> bytes \<Rightarrow> bool" where
  "checked_delivery cfg env raw_message raw_metadata \<longleftrightarrow>
     (\<exists>m recipient maybe_ism. hl_decode raw_message = Inr m \<and> hm_version m = mailbox_version \<and>
        hm_destination m = mc_local_domain cfg \<and> addr_of_addr32 (hm_recipient m) = Inr recipient \<and>
        he_ism_of env recipient = Inr maybe_ism \<and>
        he_verify env (case maybe_ism of Some ism \<Rightarrow> ism | None \<Rightarrow> mc_default_ism cfg) raw_message raw_metadata = Inr ())"

lemma mailbox_dispatch_Inr:
  assumes "mailbox_dispatch api cx st destination recipient body = Inr (st', outs, evs)"
  obtains m tree where "sent_of evs = [m]" "hm_nonce m = mb_nonce st" "hm_origin m = mc_local_domain (mb_config st)"
    "hm_destination m \<noteq> mc_local_domain (mb_config st)" "hm_sender m = addr32_of_addr (ctx_sender cx)"
    "hm_destination m = destination" "hm_recipient m = recipient" "hm_body m = body" "hm_version m = mailbox_version"
    "tree_insert api (mb_tree st) (keccak_hash api (hl_encode m)) = Inr tree"
    "unat (mb_nonce st') = unat (mb_nonce st) + 1" "mb_tree st' = tree" "mb_config st' = mb_config st"
    "mb_deliveries st' = mb_deliveries st" "outs = []"
proof -
  define m where "m = \<lparr>hm_version = mailbox_version, hm_nonce = mb_nonce st, hm_origin = mc_local_domain (mb_config st),
    hm_sender = addr32_of_addr (ctx_sender cx), hm_destination = destination, hm_recipient = recipient, hm_body = body\<rparr>"
  obtain n tree index where "unat n = unat (mb_nonce st) + 1" "destination \<noteq> mc_local_domain (mb_config st)"
    "tree_insert api (mb_tree st) (keccak_hash api (hl_encode m)) = Inr tree"
    "st' = st\<lparr>mb_nonce := n, mb_tree := tree\<rparr>" "outs = []"
    "evs = [MbDispatch m, MbDispatchId (keccak_hash api (hl_encode m)),
      MbPostDispatch (keccak_hash api (hl_encode m)) index, MbInsertedIntoTree index]"
    using assms by (auto simp: mailbox_dispatch_def m_def Let_def result_iff checked_add_Inr)
  then show thesis by (intro that [of m tree]) (simp_all add: m_def)
qed

lemma mailbox_process_Inr:
  assumes "mailbox_process api env st raw_message raw_metadata = Inr (st', outs, evs)"
  shows "map_of (mb_deliveries st) (keccak_hash api raw_message) = None"
    and "st' = st\<lparr>mb_deliveries := om_insert (keccak_hash api raw_message) () (mb_deliveries st)\<rparr>"
    and "sent_of evs = []" and "checked_delivery (mb_config st) env raw_message raw_metadata"
  using assms by (auto simp: mailbox_process_def Let_def result_iff checked_delivery_def)

lemma mailbox_run_inv:
  assumes "mailbox_run api cfg st sent got"
  shows "mb_config st = cfg \<and> om_ok (mb_deliveries st) \<and>
    distinct (map (delivered_id api) got) \<and>
    (\<forall>id. query_delivered st id \<longleftrightarrow> id \<in> delivered_id api ` set got) \<and>
    (\<forall>(env, raw, md) \<in> set got. checked_delivery cfg env raw md) \<and>
    unat (mb_nonce st) = length sent \<and> map (unat \<circ> hm_nonce) sent = [0..<length sent] \<and>
    (\<forall>m \<in> set sent. hm_origin m = mc_local_domain cfg \<and> hm_destination m \<noteq> mc_local_domain cfg) \<and>
    try_fold (tree_insert api) merkle_tree_default (map (keccak_hash api \<circ> hl_encode) sent) = Inr (mb_tree st)"
  using assms
proof induction
  case Genesis
  show ?case by (simp add: mailbox_instantiate_def query_delivered_def)
next
  case (Step st sent got env cx msg st' outs evs)
  show ?case
  proof (cases msg)
    case (MbDispatchMsg destination recipient body)
    then have "mailbox_dispatch api cx st destination recipient body = Inr (st', outs, evs)" using Step.hyps(2) by simp
    then show ?thesis
      by (rule mailbox_dispatch_Inr) (use Step.IH MbDispatchMsg in \<open>simp add: query_delivered_def try_fold_append\<close>)
  next
    case (MbProcessMsg raw md)
    then have "mailbox_process api env st raw md = Inr (st', outs, evs)" using Step.hyps(2) by simp
    note p = mailbox_process_Inr [OF this]
    have "\<not> query_delivered st (keccak_hash api raw)" using p(1) by (simp add: query_delivered_def)
    then have new: "delivered_id api (env, raw, md) \<notin> delivered_id api ` set got"
      using Step.IH by (simp add: delivered_id_def)
    have "query_delivered st' id \<longleftrightarrow> id = keccak_hash api raw \<or> query_delivered st id" for id
      using Step.IH by (simp add: p(2) query_delivered_def map_of_om_insert)
    then have "query_delivered st' id \<longleftrightarrow> id \<in> delivered_id api ` set (got @ delivered_of env msg)" for id
      using Step.IH MbProcessMsg by (simp add: delivered_id_def)
    with Step.IH p new MbProcessMsg show ?thesis by (simp add: om_ok_insert)
  qed
qed

subsection \<open>The multisig module\<close>

lemma ism_verify_iff:
  "ism_verify api st raw_message raw_metadata = Inr () \<longleftrightarrow>
     (\<exists>m md vs. hl_decode raw_message = Inr m \<and> metadata_decode raw_metadata = Inr md \<and>
        map_of st (hm_origin m) = Some vs \<and> unat (vs_threshold vs) \<le> length (im_signatures md) \<and>
        length (im_signatures md) \<le> card (vs_validators vs) \<and>
        (\<forall>s \<in> set (im_signatures md). \<exists>v \<in> vs_validators vs.
           recover_signer api (ism_signed_hash api raw_message m md) s = Inr v))"
proof -
  have r: "(\<exists>ys. try_map f xs = Inr ys \<and> set ys \<subseteq> A) \<longleftrightarrow> (\<forall>x \<in> set xs. \<exists>y \<in> A. f x = Inr y)"
    for f :: "'x \<Rightarrow> 'y res" and xs A
  proof (induction xs)
    case (Cons x xs)
    have "(\<exists>ys. try_map f (x # xs) = Inr ys \<and> set ys \<subseteq> A) \<longleftrightarrow>
        (\<exists>y. f x = Inr y \<and> y \<in> A) \<and> (\<exists>ys. try_map f xs = Inr ys \<and> set ys \<subseteq> A)"
      by (auto simp: and_then_Inr_iff)
    with Cons show ?case by auto
  qed simp
  show ?thesis
    unfolding ism_verify_def Let_def and_then_Inr_iff ensure_Inr_iff om_load_Inr r [symmetric] by blast
qed

subsection \<open>A sample of the host's functions\<close>

text \<open>A hash function under which the constants of the tree are the roots of the empty trees, and a
  recovery that finds the same key in every signature.\<close>

definition next_zero_hash :: "u256 \<Rightarrow> u256" where
  "next_zero_hash a = (case map_of (zip (butlast zero_hashes) (tl zero_hashes)) a of Some z \<Rightarrow> z | None \<Rightarrow> a)"

definition sample_hash :: "bytes \<Rightarrow> u256" where
  "sample_hash bs =
     (let a = from_be_bytes (take 32 bs); b = from_be_bytes (drop 32 bs)
      in if a = b then next_zero_hash a else 3 * a + 5 * b)"

definition sample_host :: crypto_api where
  "sample_host = \<lparr>keccak256 = \<lambda>bs. to_be_bytes 32 (sample_hash bs),
     secp256k1_pubkey_recover = \<lambda>_ _ _. Inr (replicate 65 0)\<rparr>"

lemma keccak256_two_sample:
  "keccak256_two sample_host a b = (if a = b then next_zero_hash a else 3 * a + 5 * b)"
  by (simp add: keccak256_two_def keccak_hash_def sample_host_def sample_hash_def Let_def from_to_be_bytes)

lemma zeros_ok_iff:
  assumes "zs \<noteq> []" "zs ! 0 = z" "\<forall>i < length zs - 1. zs ! Suc i = h (zs ! i) (zs ! i)"
  shows "zeros_ok h z zs"
  unfolding zeros_ok_def
proof (intro allI impI)
  fix i
  assume "i < length zs"
  then show "zs ! i = tree_root h z i []"
  proof (induction i)
    case (Suc i)
    then show ?case using assms(3) by simp
  qed (use assms(2) in simp)
qed

lemma sample_zeros: "zeros_ok (keccak256_two sample_host) 0 zero_hashes"
proof (rule zeros_ok_iff)
  have "distinct (map (\<lambda>w. unat (take_bit 12 w)) (butlast zero_hashes))" by (simp add: zero_hashes_def)
  then have d: "distinct (butlast zero_hashes)" unfolding distinct_map by blast
  show "\<forall>i < length zero_hashes - 1. zero_hashes ! Suc i = keccak256_two sample_host (zero_hashes ! i) (zero_hashes ! i)"
  proof (intro allI impI)
    fix i
    assume i: "i < length zero_hashes - 1"
    then have "(zero_hashes ! i, zero_hashes ! Suc i) \<in> set (zip (butlast zero_hashes) (tl zero_hashes))"
      unfolding in_set_zip by (intro exI [of _ i]) (simp add: nth_butlast nth_tl)
    then have "map_of (zip (butlast zero_hashes) (tl zero_hashes)) (zero_hashes ! i) = Some (zero_hashes ! Suc i)"
      using d by (intro map_of_is_SomeI) simp_all
    then show "zero_hashes ! Suc i = keccak256_two sample_host (zero_hashes ! i) (zero_hashes ! i)"
      by (simp add: keccak256_two_sample next_zero_hash_def)
  qed
qed (simp_all add: zero_hashes_def)

definition sample_config :: mailbox_config where
  "sample_config = \<lparr>mc_local_domain = 1, mc_default_ism = 9\<rparr>"

definition sample_hl_env :: hl_env where
  "sample_hl_env = \<lparr>he_ism_of = \<lambda>_. Inr None, he_verify = \<lambda>_ _ _. Inr ()\<rparr>"

definition sample_hl_message :: hl_message where
  "sample_hl_message = \<lparr>hm_version = 3, hm_nonce = 0, hm_origin = 2, hm_sender = 5, hm_destination = 1,
     hm_recipient = 7, hm_body = [1, 2]\<rparr>"

definition sample_mailbox_ctx :: ctx where
  "sample_mailbox_ctx = \<lparr>ctx_contract = 4, ctx_sender = 6, ctx_funds = [], ctx_time = 1, ctx_height = 1\<rparr>"

lemma sample_process:
  "\<exists>st' outs evs. mailbox_execute sample_host sample_hl_env sample_mailbox_ctx (mailbox_instantiate sample_config)
     (MbProcessMsg (hl_encode sample_hl_message) []) = Inr (st', outs, evs)"
  by (simp add: mailbox_process_def hl_decode_encode mailbox_instantiate_def sample_config_def sample_hl_env_def
      sample_hl_message_def addr_of_addr32_def mailbox_version_def Let_def)

lemma sample_delivery:
  obtains st sent where "mailbox_run sample_host sample_config st sent [(sample_hl_env, hl_encode sample_hl_message, [])]"
proof -
  obtain st' outs evs where p: "mailbox_execute sample_host sample_hl_env sample_mailbox_ctx (mailbox_instantiate sample_config)
     (MbProcessMsg (hl_encode sample_hl_message) []) = Inr (st', outs, evs)"
    using sample_process by blast
  have "mailbox_run sample_host sample_config st' ([] @ sent_of evs)
      ([] @ delivered_of sample_hl_env (MbProcessMsg (hl_encode sample_hl_message) []))"
    by (rule mailbox_run.Step [OF mailbox_run.Genesis p])
  then show thesis by (intro that) simp
qed

lemma zero_hashes_Cons: "zero_hashes = 0 # tl zero_hashes"
  by (simp add: zero_hashes_def)

lemma sample_tree_insert:
  "tree_insert sample_host merkle_tree_default x = Inr \<lparr>mt_branch = x # tl zero_hashes, mt_count = 1\<rparr>"
proof -
  have l: "insert_loop sample_host x 1 zero_hashes = Inr (x # tl zero_hashes)"
    by (subst zero_hashes_Cons) simp
  have m: "(0::u128) < max_leaves" by (simp add: max_leaves_def tree_depth_def)
  show ?thesis by (simp add: tree_insert_def merkle_tree_default_def l m Let_def)
qed

lemma sample_dispatch:
  obtains st m where "mailbox_run sample_host sample_config st [m] []" "hm_body m = [8]"
proof -
  obtain st' outs evs m where p: "mailbox_execute sample_host sample_hl_env sample_mailbox_ctx (mailbox_instantiate sample_config)
     (MbDispatchMsg 2 7 [8]) = Inr (st', outs, evs)" "sent_of evs = [m]" "hm_body m = [8]"
    by (simp add: mailbox_dispatch_def mailbox_instantiate_def sample_config_def sample_tree_insert checked_add_def checked_sub_def Let_def)
  have "mailbox_run sample_host sample_config st' ([] @ sent_of evs)
      ([] @ delivered_of sample_hl_env (MbDispatchMsg 2 7 [8]))"
    by (rule mailbox_run.Step [OF mailbox_run.Genesis p(1)])
  with p(2,3) show thesis by (intro that) simp_all
qed

subsection \<open>Properties\<close>

text \<open>C23: In every run of the mailbox, whatever recipients and security modules answer, each message is
  delivered at most once, only when it is of the current version, addressed to this chain and accepted
  by the security module its recipient asks for (the default one if it asks for none), and once delivered
  it is refused ever after.\<close>

theorem mailbox_delivers_once:
  assumes "mailbox_run api cfg st sent got"
  shows "distinct (map (delivered_id api) got) \<and>
    (\<forall>(env, raw_message, raw_metadata) \<in> set got.
       checked_delivery cfg env raw_message raw_metadata \<and>
       (\<forall>env' raw_metadata'. \<not> is_ok (mailbox_process api env' st raw_message raw_metadata')))"
proof -
  note inv = mailbox_run_inv [OF assms]
  have "\<not> is_ok (mailbox_process api env' st raw md')" if "(env, raw, md) \<in> set got" for env raw md env' md'
  proof
    assume "is_ok (mailbox_process api env' st raw md')"
    then obtain st' outs evs where "mailbox_process api env' st raw md' = Inr (st', outs, evs)"
      by (cases "mailbox_process api env' st raw md'") auto
    from mailbox_process_Inr(1) [OF this] have "\<not> query_delivered st (delivered_id api (env, raw, md))"
      by (simp add: query_delivered_def delivered_id_def)
    with inv that show False by blast
  qed
  with inv show ?thesis by blast
qed

theorem mailbox_delivers_once_witness:
  "\<exists>st sent. mailbox_run sample_host sample_config st sent [(sample_hl_env, hl_encode sample_hl_message, [])] \<and>
     checked_delivery sample_config sample_hl_env (hl_encode sample_hl_message) [] \<and>
     \<not> is_ok (mailbox_process sample_host sample_hl_env st (hl_encode sample_hl_message) [5])"
proof -
  obtain st sent where run: "mailbox_run sample_host sample_config st sent [(sample_hl_env, hl_encode sample_hl_message, [])]"
    by (rule sample_delivery)
  from mailbox_delivers_once [OF run] run show ?thesis by auto
qed

text \<open>C24: In every run of the mailbox the messages sent carry the nonces zero, one, two and so on, and the
  root of the incremental tree is the root of the Merkle tree of depth 32 over the identifiers of the
  messages sent, in order, the other leaves being zero. The constants of the code are assumed to be the
  roots of the empty trees.\<close>

theorem mailbox_tree_commits:
  assumes "zeros_ok (keccak256_two api) 0 zero_hashes" "mailbox_run api cfg st sent got"
  shows "map (unat \<circ> hm_nonce) sent = [0..<length sent] \<and> unat (mb_nonce st) = length sent \<and>
    unat (mt_count (mb_tree st)) = length sent \<and>
    merkle_tree_root api (mb_tree st) =
      tree_root (keccak256_two api) 0 tree_depth (map (keccak_hash api \<circ> hl_encode) sent)"
proof -
  note inv = mailbox_run_inv [OF assms(2)]
  from inv tree_of_leaves [OF assms(1), of "map (keccak_hash api \<circ> hl_encode) sent"] show ?thesis
    by (simp add: tree_ok_def)
qed

theorem mailbox_tree_commits_witness:
  "\<exists>st m. mailbox_run sample_host sample_config st [m] [] \<and> unat (mt_count (mb_tree st)) = 1 \<and>
     merkle_tree_root sample_host (mb_tree st) =
       tree_root (keccak256_two sample_host) 0 tree_depth [keccak_hash sample_host (hl_encode m)]"
proof -
  obtain st m where run: "mailbox_run sample_host sample_config st [m] []" by (rule sample_dispatch)
  from mailbox_tree_commits [OF sample_zeros run] run show ?thesis by auto
qed

text \<open>C25: The security module counts signatures, not validators: any number of different signatures
  between the threshold and the size of the set verifies when each of them is by the same validator, so
  that one validator who signs often enough reaches every threshold alone; bytes after the last whole
  signature are ignored.\<close>

theorem ism_one_validator_suffices:
  assumes "hl_decode raw_message = Inr m" "map_of st (hm_origin m) = Some vs" "v \<in> vs_validators vs"
    and "sorted (im_signatures md)" "distinct (im_signatures md)" "im_signatures md \<noteq> []"
    and "\<forall>s \<in> set (im_signatures md). length s = 65 \<and>
      recover_signer api (ism_signed_hash api raw_message m md) s = Inr v"
    and "unat (vs_threshold vs) \<le> length (im_signatures md)" "length (im_signatures md) \<le> card (vs_validators vs)"
    and "length trailing < 65"
  shows "ism_verify api st raw_message (metadata_encode md @ trailing) = Inr ()"
proof -
  have "metadata_decode (metadata_encode md @ trailing) = Inr md"
    using assms(4-7,10) by (intro metadata_decode_encode) auto
  with assms show ?thesis unfolding ism_verify_iff by blast
qed

definition sample_signatures :: "bytes list" where
  "sample_signatures = [replicate 64 0 @ [27], replicate 64 1 @ [27]]"

lemma sorted_sample_signatures:
  "sorted sample_signatures" "distinct sample_signatures" "length sample_signatures = 2" "sample_signatures \<noteq> []"
  by (simp_all add: sample_signatures_def numeral_eq_Suc)

theorem ism_one_validator_suffices_witness:
  "\<exists>v. ism_verify sample_host [(2, \<lparr>vs_threshold = 2, vs_validators = {v, v + 1, v + 2}\<rparr>)] (hl_encode sample_hl_message)
     (metadata_encode \<lparr>im_origin_merkle_tree = 0, im_merkle_root = 0, im_merkle_index = 0,
       im_signatures = sample_signatures\<rparr>) = Inr ()"
proof -
  let ?md = "\<lparr>im_origin_merkle_tree = 0, im_merkle_root = 0, im_merkle_index = 0, im_signatures = sample_signatures\<rparr>"
  define v :: addr where "v = from_be_bytes (drop 12 (keccak256 sample_host (replicate 64 0)))"
  let ?st = "[(2, \<lparr>vs_threshold = 2, vs_validators = {v, v + 1, v + 2}\<rparr>)]"
  have r: "\<forall>s \<in> set (im_signatures ?md). length s = 65 \<and>
      recover_signer sample_host (ism_signed_hash sample_host (hl_encode sample_hl_message) sample_hl_message ?md) s = Inr v"
    by (simp add: sample_signatures_def recover_signer_def v_def sample_host_def nth_append checked_sub_def numeral_eq_Suc)
  have c: "card {v, v + 1, v + 2} = 3" by (simp add: card_insert_if)
  have "ism_verify sample_host ?st (hl_encode sample_hl_message) (metadata_encode ?md @ []) = Inr ()"
  proof (rule ism_one_validator_suffices [OF hl_decode_encode])
    show "map_of ?st (hm_origin sample_hl_message) = Some \<lparr>vs_threshold = 2, vs_validators = {v, v + 1, v + 2}\<rparr>"
      by (simp add: sample_hl_message_def)
    show "v \<in> vs_validators \<lparr>vs_threshold = 2, vs_validators = {v, v + 1, v + 2}\<rparr>" by simp
  qed (use r c in \<open>simp_all add: sorted_sample_signatures\<close>)
  then show ?thesis by auto
qed

end
