(* ===== verification/Gateway_Safety.thy ===== *)
theory Gateway_Safety
  imports Gateway Hyperlane_Safety
begin

text \<open>
  What the bridge guarantees. Composed with the bank, and as long as routes are only added, the supply
  of every bridged token is its initial supply plus the reserves of its remotes (\<open>bridge_run\<close>); within a window of
  the rate limit no more leaves the chain than the quota and what came in (\<open>window_run\<close>); and what one
  chain sends through gateway, Warp and mailbox arrives at the other chain's gateway unchanged.
\<close>

subsection \<open>Routes that are only added\<close>

fun append_only :: "gw_state \<Rightarrow> (origin \<times> addr \<times> remote) list \<Rightarrow> bool" where
  "append_only st [] = True"
| "append_only st (route # routes) = (case save_route st route of
     Inl _ \<Rightarrow> True
   | Inr st' \<Rightarrow> (let k = snd route in
       (map_of (gw_routes st) k = None \<or> map_of (gw_routes st) k = map_of (gw_routes st') k) \<and>
       append_only st' routes))"

fun adds_routes :: "gw_state \<Rightarrow> gw_msg \<Rightarrow> bool" where
  "adds_routes st (SetRoutes routes) = append_only st routes"
| "adds_routes st _ = True"

text \<open>The reserves of the remotes of a denom, and what pending messages will mint and burn.\<close>

definition reserves_of :: "gw_state \<Rightarrow> denom \<Rightarrow> nat" where
  "reserves_of st d = om_sum (\<lambda>k v. if map_of (gw_routes st) k = Some d then unat v else 0) (gw_reserves st)"

fun mints :: "gw_out \<Rightarrow> denom \<Rightarrow> nat" where
  "mints (GwBank _ (Mint _ cs)) d = unat (amount_of cs d)"
| "mints _ d = 0"

fun burns :: "gw_out \<Rightarrow> denom \<Rightarrow> nat" where
  "burns (GwBank _ (Burn _ cs)) d = unat (amount_of cs d)"
| "burns _ d = 0"

definition pending_mints :: "gw_out list \<Rightarrow> denom \<Rightarrow> nat" where
  "pending_mints outs d = (\<Sum>out\<leftarrow>outs. mints out d)"

definition pending_burns :: "gw_out list \<Rightarrow> denom \<Rightarrow> nat" where
  "pending_burns outs d = (\<Sum>out\<leftarrow>outs. burns out d)"

lemma pending_simps [simp]:
  "pending_mints [] d = 0" "pending_mints (out # outs) d = mints out d + pending_mints outs d"
  "pending_mints (outs @ outs') d = pending_mints outs d + pending_mints outs' d"
  "pending_burns [] d = 0" "pending_burns (out # outs) d = burns out d + pending_burns outs d"
  "pending_burns (outs @ outs') d = pending_burns outs d + pending_burns outs' d"
  by (simp_all add: pending_mints_def pending_burns_def)

text \<open>Reverse routes are inverse to routes, and reserves are kept for routes of remote denoms only.\<close>

definition gw_ok :: "gw_state \<Rightarrow> bool" where
  "gw_ok st \<longleftrightarrow> om_ok (gw_routes st) \<and> om_ok (gw_reverse_routes st) \<and> om_ok (gw_reserves st) \<and>
     (\<forall>d r b. map_of (gw_reverse_routes st) (d, r) = Some b \<longrightarrow> map_of (gw_routes st) (b, r) = Some d) \<and>
     (\<forall>k. map_of (gw_reserves st) k \<noteq> None \<longrightarrow> map_of (gw_routes st) k \<noteq> None)"

lemma gw_okI:
  assumes "om_ok (gw_routes st)" "om_ok (gw_reverse_routes st)" "om_ok (gw_reserves st)"
    and "\<And>d r b. map_of (gw_reverse_routes st) (d, r) = Some b \<Longrightarrow> map_of (gw_routes st) (b, r) = Some d"
    and "\<And>k. map_of (gw_reserves st) k \<noteq> None \<Longrightarrow> map_of (gw_routes st) k \<noteq> None"
  shows "gw_ok st"
  using assms by (simp add: gw_ok_def)

lemma gw_okD:
  assumes "gw_ok st"
  shows "om_ok (gw_routes st)" "om_ok (gw_reverse_routes st)" "om_ok (gw_reserves st)"
    and "map_of (gw_reverse_routes st) (d, r) = Some b \<Longrightarrow> map_of (gw_routes st) (b, r) = Some d"
    and "map_of (gw_reserves st) k \<noteq> None \<Longrightarrow> map_of (gw_routes st) k \<noteq> None"
  using assms unfolding gw_ok_def by blast+

lemma om_sum_cong_mem:
  "(\<And>k v. (k, v) \<in> set m \<Longrightarrow> w k v = w' k v) \<Longrightarrow> om_sum w m = om_sum w' m"
  by (induction m) auto

lemma save_route_keeps:
  assumes "gw_ok st" "save_route st (origin, b, r) = Inr st'"
    and "map_of (gw_routes st) (b, r) = None \<or> map_of (gw_routes st) (b, r) = map_of (gw_routes st') (b, r)"
  shows "gw_ok st' \<and> gw_reserves st' = gw_reserves st \<and> reserves_of st' = reserves_of st"
proof -
  from assms(2) obtain d where st': "st' = st\<lparr>gw_routes := om_insert (b, r) d (gw_routes st),
       gw_reverse_routes := om_insert (d, r) b (gw_reverse_routes st)\<rparr>"
    by (auto simp: save_route_def result_iff)
  note ok = gw_okD [OF assms(1)]
  have routes: "map_of (gw_routes st') k = (if k = (b, r) then Some d else map_of (gw_routes st) k)" for k
    using ok(1) by (simp add: st' map_of_om_insert)
  have kept: "map_of (gw_routes st) k = Some d' \<Longrightarrow> map_of (gw_routes st') k = Some d'" for k d'
    using assms(3) by (auto simp: routes)
  have "gw_ok st'"
  proof (rule gw_okI)
    fix d' r' b'
    assume "map_of (gw_reverse_routes st') (d', r') = Some b'"
    then have "d' = d \<and> r' = r \<and> b' = b \<or> map_of (gw_reverse_routes st) (d', r') = Some b'"
      using ok(2) by (auto simp: st' map_of_om_insert split: if_splits)
    then show "map_of (gw_routes st') (b', r') = Some d'"
    proof (elim disjE)
      show ?thesis if "map_of (gw_reverse_routes st) (d', r') = Some b'" using kept [OF ok(4) [OF that]] .
    qed (simp add: routes)
  next
    fix k
    assume "map_of (gw_reserves st') k \<noteq> None"
    then have "map_of (gw_reserves st) k \<noteq> None" by (simp add: st')
    from ok(5) [OF this] show "map_of (gw_routes st') k \<noteq> None" by (simp add: routes)
  qed (use ok in \<open>simp_all add: st' om_ok_insert\<close>)
  moreover have "reserves_of st' d' = reserves_of st d'" for d'
  proof -
    have "gw_reserves st' = gw_reserves st" by (simp add: st')
    moreover have "(map_of (gw_routes st') k = Some d') = (map_of (gw_routes st) k = Some d')"
      if "(k, v) \<in> set (gw_reserves st)" for k v
    proof -
      have "map_of (gw_reserves st) k \<noteq> None" using that by (metis map_of_eq_None_iff fst_conv image_eqI)
      from ok(5) [OF this] kept show ?thesis by fastforce
    qed
    ultimately show ?thesis unfolding reserves_of_def by (auto intro: om_sum_cong_mem)
  qed
  ultimately show ?thesis by (auto simp: st')
qed

lemma save_routes_keeps:
  assumes "gw_ok st" "save_routes st routes = Inr st'" "append_only st routes"
  shows "gw_ok st' \<and> gw_reserves st' = gw_reserves st \<and> reserves_of st' = reserves_of st"
  using assms unfolding save_routes_def
proof (induction routes arbitrary: st)
  case (Cons route routes)
  obtain origin b r where route: "route = (origin, b, r)" by (cases route)
  from Cons.prems(2) obtain st1 where st1: "save_route st (origin, b, r) = Inr st1"
    and rest: "try_fold save_route st1 routes = Inr st'"
    by (auto simp: route result_iff)
  from Cons.prems(3) st1 have a: "append_only st1 routes"
    and k: "map_of (gw_routes st) (b, r) = None \<or> map_of (gw_routes st) (b, r) = map_of (gw_routes st1) (b, r)"
    by (simp_all add: route Let_def)
  from save_route_keeps [OF Cons.prems(1) st1 k] Cons.IH [OF _ rest a] show ?case by simp
qed simp

subsection \<open>Receiving and sending\<close>

definition reserve_at :: "gw_state \<Rightarrow> addr \<times> remote \<Rightarrow> nat" where
  "reserve_at st k = om_amount (gw_reserves st) k"

text \<open>A reserve that is set to \<open>v\<close> changes the sum of its denom by the difference.\<close>

lemma reserves_of_set:
  assumes "gw_ok st" "map_of (gw_routes st) k = Some d"
    and "st' = st\<lparr>gw_reserves := om_insert k v (gw_reserves st)\<rparr>"
  shows "gw_ok st'"
    and "reserves_of st' d' + (if d' = d then reserve_at st k else 0) =
      reserves_of st d' + (if d' = d then unat v else 0)"
proof -
  note ok = gw_okD [OF assms(1)]
  show "gw_ok st'"
    using ok(1,2,4,5) assms(2) by (intro gw_okI) (auto simp: assms(3) om_ok_insert ok(3) map_of_om_insert split: if_splits)
  let ?w = "\<lambda>k v. if map_of (gw_routes st) k = Some d' then unat v else 0"
  have "om_sum ?w (om_insert k v (gw_reserves st)) + weight ?w k (map_of (gw_reserves st) k) =
      om_sum ?w (gw_reserves st) + ?w k v"
    by (rule om_sum_insert [OF ok(3)])
  moreover have "weight ?w k (map_of (gw_reserves st) k) = (if d' = d then reserve_at st k else 0)"
    using assms(2) by (auto simp: reserve_at_def om_amount_def split: option.splits)
  ultimately show "reserves_of st' d' + (if d' = d then reserve_at st k else 0) =
      reserves_of st d' + (if d' = d then unat v else 0)"
    using assms(2) by (auto simp: reserves_of_def assms(3))
qed

lemma increase_reserve_Inr:
  assumes "gw_ok st" "map_of (gw_routes st) k = Some d" "increase_reserve k amount st = Inr st'"
  shows "gw_ok st'" "reserves_of st' d' = reserves_of st d' + (if d' = d then unat amount else 0)"
    "gw_quotas st' = gw_quotas st"
proof -
  from assms(3) obtain v where v: "checked_add (case map_of (gw_reserves st) k of None \<Rightarrow> 0 | Some r \<Rightarrow> r) amount = Inr v"
    and st': "st' = st\<lparr>gw_reserves := om_insert k v (gw_reserves st)\<rparr>"
    by (auto simp: increase_reserve_def result_iff)
  have "unat v = reserve_at st k + unat amount"
    using v by (simp add: math_iff reserve_at_def om_amount_def)
  with reserves_of_set(1) [OF assms(1,2) st'] reserves_of_set(2) [OF assms(1,2) st', of d'] show "gw_ok st'"
    "reserves_of st' d' = reserves_of st d' + (if d' = d then unat amount else 0)"
    by (auto split: if_splits)
  show "gw_quotas st' = gw_quotas st" by (simp add: st')
qed

lemma reduce_reserve_Inr:
  assumes "gw_ok st" "map_of (gw_routes st) k = Some d" "reduce_reserve k amount st = Inr st'"
  shows "gw_ok st'" "reserves_of st' d' + (if d' = d then unat amount else 0) = reserves_of st d'"
    "gw_quotas st' = gw_quotas st"
proof -
  from assms(3) obtain v where v: "checked_sub (case map_of (gw_reserves st) k of None \<Rightarrow> 0 | Some r \<Rightarrow> r) amount = Inr v"
    and st': "st' = st\<lparr>gw_reserves := om_insert k v (gw_reserves st)\<rparr>"
    by (auto simp: reduce_reserve_def result_iff)
  have "unat v + unat amount = reserve_at st k"
    using v by (simp add: math_iff reserve_at_def om_amount_def)
  with reserves_of_set(1) [OF assms(1,2) st'] reserves_of_set(2) [OF assms(1,2) st', of d'] show "gw_ok st'"
    "reserves_of st' d' + (if d' = d then unat amount else 0) = reserves_of st d'"
    by (auto split: if_splits)
  show "gw_quotas st' = gw_quotas st" by (simp add: st')
qed

text \<open>Quotas are the rest of the state.\<close>

lemma quota_frame:
  assumes "increase_quota d amount st = Inr st' \<or> reduce_quota d amount st = Inr st'"
  shows "gw_ok st' = gw_ok st" "reserves_of st' = reserves_of st"
    "gw_routes st' = gw_routes st" "gw_reverse_routes st' = gw_reverse_routes st"
proof -
  obtain q where "st' = st\<lparr>gw_quotas := q\<rparr>"
    using assms by (auto simp: increase_quota_def reduce_quota_def result_iff)
  then show "gw_ok st' = gw_ok st" "reserves_of st' = reserves_of st"
    "gw_routes st' = gw_routes st" "gw_reverse_routes st' = gw_reverse_routes st"
    by (simp_all add: gw_ok_def reserves_of_def fun_eq_iff)
qed

text \<open>The messages a gateway sends to the bank are of these forms.\<close>

fun out_ok :: "gw_out \<Rightarrow> bool" where
  "out_ok (GwBank _ (Mint _ cs)) = coins_ok cs"
| "out_ok (GwBank _ (Burn _ cs)) = om_ok cs"
| "out_ok (GwBank _ _) = False"
| "out_ok (GwSend _ cs) = coins_ok cs"
| "out_ok _ = True"

lemma coins_macro_ok: "coins_ok (coins_macro d a)"
  by (simp add: coins_ok_def coins_macro_def om_ok_Cons is_zero_def)

lemma amount_of_one [simp]:
  "amount_of (coins_macro d a) d' = (if d' = d then a else 0)"
  "amount_of (coins_from_coin c) d' = (if d' = c_denom c then c_amount c else 0)"
  by (auto simp: amount_of_def coins_macro_def coins_from_coin_def is_zero_def)

lemma receive_remote_Inr:
  assumes "gw_ok st" "receive_remote env cx st remote amount recipient = Inr (st', outs)"
  shows "gw_ok st'" "\<forall>out \<in> set outs. out_ok out"
    "reserves_of st' d = reserves_of st d + pending_mints outs d" "pending_burns outs d = 0"
proof -
  from assms(2) obtain d0 st1 out where r: "map_of (gw_routes st) (ctx_sender cx, remote) = Some d0"
    and s: "(if is_remote d0 then increase_reserve (ctx_sender cx, remote) amount st else Inr st) = Inr st1"
    and q: "increase_quota d0 amount st1 = Inr st'" and outs: "outs = [out]"
    and out: "(if is_remote d0 then and_then (ge_bank env) (\<lambda>bank. Inr (GwBank bank (Mint recipient (coins_macro d0 amount))))
       else Inr (GwSend recipient (coins_macro d0 amount))) = Inr out"
    by (auto simp: receive_remote_def result_iff)
  note frame = quota_frame [OF disjI1, OF q]
  have st1: "gw_ok st1 \<and> (\<forall>d'. reserves_of st1 d' = reserves_of st d' + (if is_remote d0 \<and> d' = d0 then unat amount else 0))"
    using s assms(1) increase_reserve_Inr [OF assms(1) r, of amount st1] by (auto split: if_splits)
  then show "gw_ok st'" by (simp add: frame)
  show "\<forall>out \<in> set outs. out_ok out" "pending_burns outs d = 0"
    using out coins_macro_ok by (auto simp: outs result_iff split: if_splits)
  show "reserves_of st' d = reserves_of st d + pending_mints outs d"
    using st1 out by (auto simp: outs frame result_iff split: if_splits)
qed

lemma transfer_remoteE:
  assumes "transfer_remote env cx st remote recipient = Inr (st', outs)"
  obtains c bridge maybe_fee amount st1 bank taxman where "into_one_coin (ctx_funds cx) = Inr c"
    and "map_of (gw_reverse_routes st) (c_denom c, remote) = Some bridge"
    and "(if is_remote (c_denom c) then reduce_reserve (bridge, remote) amount st else Inr st) = Inr st1"
    and "reduce_quota (c_denom c) amount st1 = Inr st'"
    and "outs = transfer_messages cx (c_denom c) remote recipient bridge bank taxman amount maybe_fee"
  using assms unfolding transfer_remote_def Let_def by (clarsimp simp: result_iff)

lemma transfer_remote_Inr:
  assumes "gw_ok st" "transfer_remote env cx st remote recipient = Inr (st', outs)"
  shows "gw_ok st'" "\<forall>out \<in> set outs. out_ok out"
    "reserves_of st' d + pending_burns outs d = reserves_of st d" "pending_mints outs d = 0"
proof -
  from assms(2) obtain c :: coin and bridge maybe_fee amount st1 bank taxman
    where r: "map_of (gw_reverse_routes st) (c_denom c, remote) = Some bridge"
    and s: "(if is_remote (c_denom c) then reduce_reserve (bridge, remote) amount st else Inr st) = Inr st1"
    and q: "reduce_quota (c_denom c) amount st1 = Inr st'"
    and outs: "outs = transfer_messages cx (c_denom c) remote recipient bridge bank taxman amount maybe_fee"
    by (rule transfer_remoteE)
  note frame = quota_frame [OF disjI2, OF q]
  have "map_of (gw_routes st) (bridge, remote) = Some (c_denom c)" by (rule gw_okD(4) [OF assms(1) r])
  then have st1: "gw_ok st1 \<and> (\<forall>d'. reserves_of st1 d' + (if is_remote (c_denom c) \<and> d' = c_denom c then unat amount else 0) = reserves_of st d')"
    using s assms(1) reduce_reserve_Inr(1,2) [OF assms(1), of "(bridge, remote)" "c_denom c" amount st1]
    by (cases "is_remote (c_denom c)") simp_all
  then show "gw_ok st'" by (simp add: frame)
  show "\<forall>out \<in> set outs. out_ok out" "pending_mints outs d = 0"
    by (auto simp: outs transfer_messages_def coins_from_coin_def om_ok_Cons split: option.splits if_splits)
  show "reserves_of st' d + pending_burns outs d = reserves_of st d"
    using st1 by (auto simp: outs transfer_messages_def frame split: option.splits if_splits)
qed

lemma gw_execute_keeps:
  assumes "gw_ok st" "gw_execute env cx st msg = Inr (st', outs)" "adds_routes st msg"
  shows "gw_ok st'" "\<forall>out \<in> set outs. out_ok out"
    "reserves_of st' d + pending_burns outs d = reserves_of st d + pending_mints outs d"
proof -
  have "gw_ok st' \<and> (\<forall>out \<in> set outs. out_ok out) \<and>
    reserves_of st' d + pending_burns outs d = reserves_of st d + pending_mints outs d"
  proof (cases msg)
    case (SetRoutes routes)
    with assms save_routes_keeps [OF assms(1), of routes st'] show ?thesis
      by (auto simp: set_routes_def result_iff)
  next
    case (SetRateLimits limits)
    with assms show ?thesis by (auto simp: set_rate_limits_def result_iff gw_ok_def reserves_of_def)
  next
    case (SetWithdrawalFees fees)
    with assms show ?thesis
      by (auto simp: set_withdrawal_fees_def save_withdrawal_fees_def result_iff gw_ok_def reserves_of_def)
  next
    case (ReceiveRemote remote amount recipient)
    with assms receive_remote_Inr [OF assms(1), of env cx remote amount recipient st' outs] show ?thesis by simp
  next
    case (TransferRemote remote recipient)
    with assms transfer_remote_Inr [OF assms(1), of env cx remote recipient st' outs] show ?thesis by simp
  qed
  then show "gw_ok st'" "\<forall>out \<in> set outs. out_ok out"
    "reserves_of st' d + pending_burns outs d = reserves_of st d + pending_mints outs d" by blast+
qed

lemma gw_cron_keeps:
  assumes "gw_cron_execute env st = Inr st'"
  shows "gw_ok st' = gw_ok st" "reserves_of st' = reserves_of st" "gw_routes st' = gw_routes st"
proof -
  let ?I = "\<lambda>s. \<exists>q. s = st\<lparr>gw_quotas := q\<rparr>"
  have "?I st'"
    using _ _ assms [unfolded gw_cron_execute_def]
  proof (rule try_fold_invariant [where I = ?I])
    fix s e s'
    assume "?I s" "save_quota env s e = Inr s'"
    then show "?I s'" by (auto simp: save_quota_def result_iff split: prod.splits)
  qed blast
  then show "gw_ok st' = gw_ok st" "reserves_of st' = reserves_of st" "gw_routes st' = gw_routes st"
    by (auto simp: gw_ok_def reserves_of_def fun_eq_iff)
qed

subsection \<open>What the bank does to supplies\<close>

fun msg_mints :: "bank_msg \<Rightarrow> denom \<Rightarrow> nat" where
  "msg_mints (Mint _ cs) d = unat (amount_of cs d)"
| "msg_mints _ d = 0"

fun msg_burns :: "bank_msg \<Rightarrow> denom \<Rightarrow> nat" where
  "msg_burns (Burn _ cs) d = unat (amount_of cs d)"
| "msg_burns _ d = 0"

lemma bank_msg_supply:
  assumes "bank_inv bk" "bank_execute_msg env cx bk msg = Inr (bk', evs)" "msg_coins_ok msg"
  shows "supply_of bk' d + msg_burns msg d = supply_of bk d + msg_mints msg d"
    and "msg_burns msg d \<noteq> 0 \<or> msg_mints msg d \<noteq> 0 \<Longrightarrow> ensure_namespace_owner env cx bk d = Inr ()"
proof -
  have owner: "ensure_namespace_owner env cx bk d = Inr ()"
    if "\<forall>c \<in> set (coins_iter cs). ensure_namespace_owner env cx bk (c_denom c) = Inr ()" "unat (amount_of cs d) \<noteq> 0" for cs
  proof -
    from that(2) obtain a where "map_of cs d = Some a" by (auto simp: amount_of_def split: option.splits)
    then have "mk_coin d a \<in> set (coins_iter cs)" by (force simp: coins_iter_def dest: map_of_SomeD)
    with that(1) show ?thesis by fastforce
  qed
  have wf: "bank_wf bk" using assms(1) by (simp add: bank_inv_def)
  have "supply_of bk' d + msg_burns msg d = supply_of bk d + msg_mints msg d \<and>
    (msg_burns msg d \<noteq> 0 \<or> msg_mints msg d \<noteq> 0 \<longrightarrow> ensure_namespace_owner env cx bk d = Inr ())"
  proof (cases msg)
    case (Mint to cs)
    with assms mint_coins_Inr(3,6) [OF wf, of cs env cx to bk' evs] owner show ?thesis by auto
  next
    case (Burn a cs)
    with assms burn_coins_Inr(2,3) [OF wf, of cs env cx a bk' evs] owner show ?thesis by (auto simp: issued_def)
  next
    case (RecoverTransfer s r)
    show ?thesis
    proof (cases "map_of (b_orphaned bk) (s, r)")
      case None
      with RecoverTransfer assms show ?thesis by (auto simp: recover_transfer_def result_iff)
    next
      case (Some cs)
      from RecoverTransfer assms(2) Some obtain st1
        where st1: "st1 = bk\<lparr>b_orphaned := om_remove (s, r) (b_orphaned bk)\<rparr>" "bank_wf st1"
          "moved st1 bk' (ctx_contract cx) (ctx_sender cx) (\<lambda>d. unat (amount_of cs d))"
        by (auto elim: recover_transfer_Inr [OF wf])
      have "supply_of bk' d = supply_of bk d"
        using bank_wf_moved(2) [OF st1(2,3)] amounts_cong(3) [of st1 bk] by (simp add: st1(1))
      with RecoverTransfer show ?thesis by simp
    qed
  next
    case (ForceTransfer a b cs)
    with assms have "moved bk bk' a b (\<lambda>d. unat (amount_of cs d))"
      by (auto simp: force_transfer_def result_iff intro: move_coins_Inr [OF wf])
    from bank_wf_moved(2) [OF wf this] ForceTransfer show ?thesis by simp
  next
    case (SetNamespaceOwner p a)
    with assms(2) amounts_cong(3) [of bk' bk] show ?thesis by (auto simp: set_namespace_owner_def result_iff)
  next
    case (SetMetadata d m)
    with assms(2) amounts_cong(3) [of bk' bk] show ?thesis by (auto simp: set_metadata_def result_iff)
  qed
  then show "supply_of bk' d + msg_burns msg d = supply_of bk d + msg_mints msg d"
    and "msg_burns msg d \<noteq> 0 \<or> msg_mints msg d \<noteq> 0 \<Longrightarrow> ensure_namespace_owner env cx bk d = Inr ()" by blast+
qed

text \<open>A burn may also name a coin of amount zero, as \<open>coins_from_coin\<close> does.\<close>

lemma bank_burn_supply:
  assumes "bank_inv bk" "burn_coins env cx bk a cs = Inr (bk', evs)" "om_ok cs"
  shows "supply_of bk' d + unat (amount_of cs d) = supply_of bk d" "bank_inv bk'"
    "b_namespace_owners bk' = b_namespace_owners bk"
proof -
  have wf: "bank_wf bk" using assms(1) by (simp add: bank_inv_def)
  from assms(2) have "bank_wf bk'" and i: "issued bk' bk a (\<lambda>d. unat (amount_of cs d))"
    using burn_list [OF wf, of env cx a "coins_iter cs" bk'] sum_coins_iter [OF assms(3)]
    by (auto simp: burn_coins_def result_iff)
  then show "supply_of bk' d + unat (amount_of cs d) = supply_of bk d"
    "b_namespace_owners bk' = b_namespace_owners bk"
    by (simp_all add: issued_def frame_def)
  have "supply_of bk' d = book bk' d" for d
    using i assms(1) unfolding issued_def bank_inv_def by (metis add_right_cancel)
  with \<open>bank_wf bk'\<close> show "bank_inv bk'" by (simp add: bank_inv_def)
qed

lemma bank_execute_supply:
  assumes "bank_inv st" and "bank_execute env self st a transfers = Inr (st', evs)"
    and "\<forall>e \<in> set transfers. coins_ok (snd e)"
  shows "supply_of st' d = supply_of st d"
  using bank_execute_transfers_exactly [OF assms, of _ d] by (simp add: total_supply_supply_of)

subsection \<open>Runs of gateway and bank\<close>

text \<open>Messages of the gateway wait to be executed, the last ones sent first. Between any two of them,
  anybody else may act on the bank, and anybody may call the gateway.\<close>

inductive bridge_run :: "addr \<Rightarrow> addr \<Rightarrow> gw_state \<Rightarrow> bank_state \<Rightarrow> gw_state \<Rightarrow> bank_state \<Rightarrow> gw_out list \<Rightarrow> bool"
  for self bank st0 bk0 where
  Start: "bridge_run self bank st0 bk0 st0 bk0 []"
| Message: "bridge_run self bank st0 bk0 st bk pending \<Longrightarrow> gw_execute env cx st msg = Inr (st', outs) \<Longrightarrow>
    ge_bank env = Inr bank \<Longrightarrow> ctx_contract cx = self \<Longrightarrow> adds_routes st msg \<Longrightarrow>
    bridge_run self bank st0 bk0 st' bk (outs @ pending)"
| Cron: "bridge_run self bank st0 bk0 st bk pending \<Longrightarrow> gw_cron_execute env st = Inr st' \<Longrightarrow>
    bridge_run self bank st0 bk0 st' bk pending"
| Deliver: "bridge_run self bank st0 bk0 st bk (GwBank b msg # pending) \<Longrightarrow>
    bank_execute_entry benv cx bk msg = Inr (bk', evs) \<Longrightarrow> ctx_contract cx = bank \<Longrightarrow> ctx_sender cx = self \<Longrightarrow>
    bridge_run self bank st0 bk0 st bk' pending"
| Send: "bridge_run self bank st0 bk0 st bk (GwSend to cs # pending) \<Longrightarrow>
    bank_execute benv bank bk self [(to, cs)] = Inr (bk', evs) \<Longrightarrow>
    bridge_run self bank st0 bk0 st bk' pending"
| CallBridge: "bridge_run self bank st0 bk0 st bk (GwBridge b m # pending) \<Longrightarrow>
    bridge_run self bank st0 bk0 st bk pending"
| CallTaxman: "bridge_run self bank st0 bk0 st bk (GwTaxman t m funds # pending) \<Longrightarrow>
    bridge_run self bank st0 bk0 st bk pending"
| Others: "bridge_run self bank st0 bk0 st bk pending \<Longrightarrow>
    bank_execute_entry benv cx bk msg = Inr (bk', evs) \<Longrightarrow> ctx_contract cx = bank \<Longrightarrow> ctx_sender cx \<noteq> self \<Longrightarrow>
    msg_coins_ok msg \<Longrightarrow> bridge_run self bank st0 bk0 st bk' pending"
| Transfer: "bridge_run self bank st0 bk0 st bk pending \<Longrightarrow>
    bank_execute benv bank bk a transfers = Inr (bk', evs) \<Longrightarrow> \<forall>e \<in> set transfers. coins_ok (snd e) \<Longrightarrow>
    bridge_run self bank st0 bk0 st bk' pending"

text \<open>The bank knows the gateway as the owner of the namespace of bridged tokens.\<close>

definition bank_ready :: "addr \<Rightarrow> bank_state \<Rightarrow> bool" where
  "bank_ready self bk \<longleftrightarrow> bank_inv bk \<and> om_ok (b_namespace_owners bk) \<and>
     map_of (b_namespace_owners bk) gateway_namespace = Some self"

definition bridge_inv :: "addr \<Rightarrow> denom \<Rightarrow> nat \<Rightarrow> gw_state \<Rightarrow> bank_state \<Rightarrow> gw_out list \<Rightarrow> bool" where
  "bridge_inv self d n0 st bk pending \<longleftrightarrow> gw_ok st \<and> bank_ready self bk \<and> (\<forall>out \<in> set pending. out_ok out) \<and>
     supply_of bk d + pending_mints pending d = n0 + reserves_of st d + pending_burns pending d"

lemma bridge_inv_gw:
  assumes "bridge_inv self d n0 st bk pending" "gw_execute env cx st msg = Inr (st', outs)" "adds_routes st msg"
  shows "bridge_inv self d n0 st' bk (outs @ pending)"
proof -
  have ok: "gw_ok st" using assms(1) by (simp add: bridge_inv_def)
  note k = gw_execute_keeps [OF ok assms(2,3)]
  from assms(1) k(1,2) k(3) [of d] show ?thesis by (auto simp: bridge_inv_def)
qed

lemma bank_ready_entry:
  assumes "bank_ready self bk" "bank_execute_entry benv cx bk msg = Inr (bk', evs)" "msg_coins_ok msg"
  shows "bank_ready self bk'" "bank_execute_msg benv cx bk msg = Inr (bk', evs)"
proof -
  show e: "bank_execute_msg benv cx bk msg = Inr (bk', evs)"
    using assms(2) by (simp add: bank_execute_entry_def result_iff)
  show "bank_ready self bk'"
    using assms(1) bank_execute_msg_inv [OF _ e assms(3)] bank_execute_msg_owners [OF _ _ assms(3) e]
    by (simp add: bank_ready_def)
qed

lemma bridge_inv_deliver:
  assumes "bridge_inv self d n0 st bk (GwBank b msg # pending)" "bank_execute_entry benv cx bk msg = Inr (bk', evs)"
  shows "bridge_inv self d n0 st bk' pending"
proof -
  from assms(1) have ready: "bank_ready self bk" and inv: "bank_inv bk" and out: "out_ok (GwBank b msg)"
    by (auto simp: bridge_inv_def bank_ready_def)
  have e: "bank_execute_msg benv cx bk msg = Inr (bk', evs)"
    using assms(2) by (simp add: bank_execute_entry_def result_iff)
  show ?thesis
  proof (cases msg)
    case (Mint to cs)
    with out have c: "msg_coins_ok msg" by simp
    from bank_ready_entry(1) [OF ready assms(2) c] bank_msg_supply(1) [OF inv e c, of d] assms(1) Mint
    show ?thesis by (auto simp: bridge_inv_def)
  next
    case (Burn a cs)
    with out e have c: "om_ok cs" and b: "burn_coins benv cx bk a cs = Inr (bk', evs)" by simp_all
    from bank_burn_supply(1) [OF inv b c, of d] bank_burn_supply(2,3) [OF inv b c] assms(1) ready Burn show ?thesis
      by (auto simp: bridge_inv_def bank_ready_def)
  qed (use out in simp_all)
qed

lemma bank_ready_execute:
  assumes "bank_ready self bk" "bank_execute benv bank bk a transfers = Inr (bk', evs)"
    and "\<forall>e \<in> set transfers. coins_ok (snd e)"
  shows "bank_ready self bk'" "supply_of bk' d = supply_of bk d"
  using assms(1) bank_execute_inv [OF _ assms(2,3)] bank_execute_owners [OF _ assms(2,3)]
    bank_execute_supply [OF _ assms(2,3)] by (simp_all add: bank_ready_def)

lemma bridge_inv_others:
  assumes "bridge_inv self d n0 st bk pending" "bank_execute_entry benv cx bk msg = Inr (bk', evs)" "msg_coins_ok msg"
    and "ctx_sender cx \<noteq> self" "denom_namespace d = Some gateway_namespace"
  shows "bridge_inv self d n0 st bk' pending"
proof -
  from assms(1) have ready: "bank_ready self bk" by (simp add: bridge_inv_def)
  note e = bank_ready_entry [OF ready assms(2,3)]
  have "ensure_namespace_owner benv cx bk d \<noteq> Inr ()"
    using ready assms(4,5) by (auto simp: ensure_namespace_owner_def bank_ready_def result_iff)
  with bank_msg_supply(2) [OF _ e(2) assms(3), of d] ready have "msg_burns msg d = 0" "msg_mints msg d = 0"
    unfolding bank_ready_def by blast+
  with bank_msg_supply(1) [OF _ e(2) assms(3), of d] ready have "supply_of bk' d = supply_of bk d"
    by (simp add: bank_ready_def)
  with assms(1) e(1) show ?thesis by (simp add: bridge_inv_def)
qed

lemma bridge_run_inv:
  assumes "bridge_run self bank st0 bk0 st bk pending" "bridge_inv self d n0 st0 bk0 []"
    and "denom_namespace d = Some gateway_namespace"
  shows "bridge_inv self d n0 st bk pending"
  using assms(1)
proof induction
  case Start
  show ?case by (rule assms(2))
next
  case (Message st bk pending env cx msg st' outs)
  then show ?case by (blast intro: bridge_inv_gw)
next
  case (Cron st bk pending env st')
  with gw_cron_keeps [OF Cron(2)] show ?case by (simp add: bridge_inv_def)
next
  case (Deliver st bk b msg pending benv cx bk' evs)
  then show ?case by (blast intro: bridge_inv_deliver)
next
  case (Send st bk to cs pending benv bk' evs)
  then have "bank_ready self bk" "coins_ok cs" by (simp_all add: bridge_inv_def)
  with bank_ready_execute [OF _ Send(2), of self] Send(3) show ?case by (simp add: bridge_inv_def)
next
  case (Others st bk pending benv cx msg bk' evs)
  then show ?case using assms(3) by (blast intro: bridge_inv_others)
next
  case (Transfer st bk pending benv a transfers bk' evs)
  then have "bank_ready self bk" by (simp add: bridge_inv_def)
  from bank_ready_execute [OF this Transfer(2,3)] Transfer(4) show ?case by (simp add: bridge_inv_def)
qed (simp_all add: bridge_inv_def)

lemma gw_genesis:
  assumes "gw_instantiate routes limits fees = Inr st0" "append_only gw_empty routes"
  shows "gw_ok st0" "reserves_of st0 d = 0"
proof -
  obtain st where s: "save_routes gw_empty routes = Inr st"
    and st0: "st0 = save_withdrawal_fees (st\<lparr>gw_rate_limits := limits\<rparr>) fees"
    using assms(1) by (auto simp: gw_instantiate_def result_iff)
  have "gw_ok gw_empty" by (simp add: gw_ok_def gw_empty_def)
  note k = save_routes_keeps [OF this s assms(2)]
  from conjunct1 [OF k] show "gw_ok st0" by (simp add: st0 save_withdrawal_fees_def gw_ok_def)
  from k show "reserves_of st0 d = 0"
    by (simp add: st0 save_withdrawal_fees_def reserves_of_def) (simp add: gw_empty_def)
qed

subsection \<open>The window of a rate limit\<close>

fun came_in :: "ctx \<Rightarrow> gw_state \<Rightarrow> gw_msg \<Rightarrow> denom \<Rightarrow> nat" where
  "came_in cx st (ReceiveRemote remote amount _) d =
     (if map_of (gw_routes st) (ctx_sender cx, remote) = Some d then unat amount else 0)"
| "came_in cx st _ d = 0"

fun bridged :: "gw_out \<Rightarrow> nat" where
  "bridged (GwBridge _ (BridgeTransferRemote _ amount _)) = unat amount"
| "bridged _ = 0"

definition went_out :: "ctx \<Rightarrow> gw_out list \<Rightarrow> denom \<Rightarrow> nat" where
  "went_out cx outs d = (if coins_has (ctx_funds cx) d then \<Sum>out\<leftarrow>outs. bridged out else 0)"

inductive window_run :: "gw_state \<Rightarrow> gw_state \<Rightarrow> (denom \<Rightarrow> nat) \<Rightarrow> (denom \<Rightarrow> nat) \<Rightarrow> bool" for st0 where
  Start: "window_run st0 st0 (\<lambda>_. 0) (\<lambda>_. 0)"
| Message: "window_run st0 st inn out \<Longrightarrow> gw_execute env cx st msg = Inr (st', outs) \<Longrightarrow>
    window_run st0 st' (\<lambda>d. inn d + came_in cx st msg d) (\<lambda>d. out d + went_out cx outs d)"

text \<open>The quota of a denom as a number, if there is one.\<close>

definition quota_of :: "gw_state \<Rightarrow> denom \<Rightarrow> nat option" where
  "quota_of st d = map_option unat (map_of (gw_quotas st) d)"

lemma increase_quota_Inr:
  assumes "om_ok (gw_quotas st)" "increase_quota d amount st = Inr st'"
  shows "om_ok (gw_quotas st')"
    "quota_of st' d' = (if d' = d then map_option (\<lambda>q. q + unat amount) (quota_of st d) else quota_of st d')"
  using assms by (auto simp: increase_quota_def quota_of_def result_iff math_iff om_ok_set map_of_om_set split: option.splits)

lemma reduce_quota_Inr:
  assumes "om_ok (gw_quotas st)" "reduce_quota d amount st = Inr st'"
  shows "om_ok (gw_quotas st')" "d' \<noteq> d \<Longrightarrow> quota_of st' d' = quota_of st d'"
    "quota_of st d = map_option (\<lambda>q. q + unat amount) (quota_of st' d)"
  using assms by (auto simp: reduce_quota_def quota_of_def result_iff math_iff om_ok_set map_of_om_set split: option.splits)

lemma reserve_quotas:
  "increase_reserve k amount st = Inr st' \<Longrightarrow> gw_quotas st' = gw_quotas st"
  "reduce_reserve k amount st = Inr st' \<Longrightarrow> gw_quotas st' = gw_quotas st"
  by (auto simp: increase_reserve_def reduce_reserve_def result_iff)

lemma save_routes_quotas: "save_routes st routes = Inr st' \<Longrightarrow> gw_quotas st' = gw_quotas st"
  unfolding save_routes_def
  by (rule try_fold_invariant [where I = "\<lambda>s. gw_quotas s = gw_quotas st" and f = save_route and s = st and xs = routes])
    (auto simp: save_route_def result_iff)

lemma bridged_transfer_messages:
  "(\<Sum>out\<leftarrow>transfer_messages cx d remote recipient bridge bank taxman amount maybe_fee. bridged out) = unat amount"
  by (cases maybe_fee) (simp_all add: transfer_messages_def)

lemma one_coin_has: "into_one_coin cs = Inr c \<Longrightarrow> coins_has cs d \<longleftrightarrow> d = c_denom c"
  by (auto simp: into_one_coin_def coins_len_def coins_iter_def coins_has_def mk_coin_def length_Suc_conv
      split: if_splits list.splits)

lemma gw_execute_quota:
  assumes "om_ok (gw_quotas st)" "gw_execute env cx st msg = Inr (st', outs)" "quota_of st d = Some q"
  shows "om_ok (gw_quotas st') \<and> (\<exists>q'. quota_of st' d = Some q' \<and> q' + went_out cx outs d = q + came_in cx st msg d)"
proof (cases msg)
  case (ReceiveRemote remote amount recipient)
  with assms(2) obtain d0 st1 out where r: "map_of (gw_routes st) (ctx_sender cx, remote) = Some d0"
    and s: "(if is_remote d0 then increase_reserve (ctx_sender cx, remote) amount st else Inr st) = Inr st1"
    and q: "increase_quota d0 amount st1 = Inr st'" and outs: "outs = [out]" "bridged out = 0"
    by (auto simp: receive_remote_def result_iff split: if_splits)
  have "gw_quotas st1 = gw_quotas st" using s by (auto split: if_splits dest: reserve_quotas)
  then have "om_ok (gw_quotas st1)" "quota_of st1 = quota_of st" using assms(1) by (simp_all add: quota_of_def fun_eq_iff)
  with increase_quota_Inr [OF _ q] assms(3) show ?thesis
    by (auto simp: ReceiveRemote r outs went_out_def)
next
  case (TransferRemote remote recipient)
  with assms(2) have "transfer_remote env cx st remote recipient = Inr (st', outs)" by simp
  then obtain c :: coin and bridge maybe_fee amount st1 bank taxman where c: "into_one_coin (ctx_funds cx) = Inr c"
    and s: "(if is_remote (c_denom c) then reduce_reserve (bridge, remote) amount st else Inr st) = Inr st1"
    and q: "reduce_quota (c_denom c) amount st1 = Inr st'"
    and outs: "outs = transfer_messages cx (c_denom c) remote recipient bridge bank taxman amount maybe_fee"
    by (rule transfer_remoteE)
  have "gw_quotas st1 = gw_quotas st" using s by (auto split: if_splits dest: reserve_quotas)
  then have st1: "om_ok (gw_quotas st1)" "quota_of st1 = quota_of st" using assms(1) by (simp_all add: quota_of_def fun_eq_iff)
  note r = reduce_quota_Inr [OF st1(1) q]
  have w: "went_out cx outs d = (if d = c_denom c then unat amount else 0)" for d
    by (simp add: went_out_def one_coin_has [OF c] outs bridged_transfer_messages)
  show ?thesis
    using r(1) r(2) [of d] r(3) assms(3) st1(2) by (cases "d = c_denom c") (auto simp: TransferRemote w)
next
  case (SetRoutes routes)
  with assms save_routes_quotas show ?thesis
    by (auto simp: set_routes_def result_iff quota_of_def went_out_def)
next
  case (SetRateLimits limits)
  with assms show ?thesis by (auto simp: set_rate_limits_def result_iff quota_of_def went_out_def)
next
  case (SetWithdrawalFees fees)
  with assms show ?thesis
    by (auto simp: set_withdrawal_fees_def save_withdrawal_fees_def result_iff quota_of_def went_out_def)
qed

lemma window_run_quota:
  assumes "window_run st0 st inn out" "om_ok (gw_quotas st0)" "quota_of st0 d = Some q0"
  shows "om_ok (gw_quotas st) \<and> (\<exists>q. quota_of st d = Some q \<and> q + out d = q0 + inn d)"
  using assms(1)
proof induction
  case (Message st inn out env cx msg st' outs)
  then obtain q where q: "quota_of st d = Some q" "q + out d = q0 + inn d" and ok: "om_ok (gw_quotas st)" by blast
  from gw_execute_quota [OF ok Message(2) q(1)] q(2) show ?case by fastforce
qed (use assms(2,3) in simp)

lemma save_quota_Inr:
  assumes "save_quota env st (d, limit) = Inr st'"
  obtains s quota where "ge_supply env d = Inr s" "unat quota = unat s * unat limit div 10 ^ 18"
    "st' = st\<lparr>gw_quotas := om_insert d quota (gw_quotas st)\<rparr>"
  using assms that by (auto simp: save_quota_def result_iff math_iff)

lemma cron_quotas:
  assumes "try_fold (save_quota env) st limits = Inr st'" "om_ok (gw_quotas st)"
  shows "om_ok (gw_quotas st') \<and>
    (\<forall>d. d \<notin> fst ` set limits \<longrightarrow> quota_of st' d = quota_of st d) \<and>
    (distinct (map fst limits) \<longrightarrow> (\<forall>(d, limit) \<in> set limits. \<exists>s. ge_supply env d = Inr s \<and>
       quota_of st' d = Some (unat s * unat limit div 10 ^ 18)))"
  using assms
proof (induction limits arbitrary: st)
  case (Cons e limits)
  obtain d limit where e: "e = (d, limit)" by (cases e)
  from Cons.prems(1) obtain st1 where st1: "save_quota env st (d, limit) = Inr st1"
    and rest: "try_fold (save_quota env) st1 limits = Inr st'"
    by (auto simp: e result_iff)
  from st1 obtain s quota where s: "ge_supply env d = Inr s" "unat quota = unat s * unat limit div 10 ^ 18"
    and eq: "st1 = st\<lparr>gw_quotas := om_insert d quota (gw_quotas st)\<rparr>"
    by (rule save_quota_Inr)
  have ok: "om_ok (gw_quotas st1)" and q: "quota_of st1 d' = (if d' = d then Some (unat quota) else quota_of st d')" for d'
    using Cons.prems(2) by (simp_all add: eq om_ok_insert quota_of_def map_of_om_insert)
  from Cons.IH [OF rest ok] s q show ?case by (auto simp: e)
qed simp

subsection \<open>Properties\<close>

text \<open>C26: Bridged tokens are backed: in every run of gateway and bank, whenever no message of the gateway is
  pending, the supply of every token of the bridge namespace is its supply when the gateway was
  instantiated plus the sum of the reserves of its remotes. The bank starts in any state with its
  invariant in which the gateway owns that namespace; routes are only added, and nobody but the gateway
  sends messages in its name. Anybody may do anything else in between.\<close>

theorem bridged_supply_backed:
  assumes "gw_instantiate routes limits fees = Inr st0" "append_only gw_empty routes"
    and "bank_ready self bk0" and "bridge_run self bank st0 bk0 st bk []"
    and "denom_namespace d = Some gateway_namespace"
  shows "total_supply bk d = total_supply bk0 d +
    (\<Sum>(k, v)\<leftarrow>gw_reserves st. if map_of (gw_routes st) k = Some d then unat v else 0)"
proof -
  note g = gw_genesis [OF assms(1,2)]
  have "bridge_inv self d (supply_of bk0 d) st0 bk0 []"
    using g assms(3) by (simp add: bridge_inv_def)
  from bridge_run_inv [OF assms(4) this assms(5)] show ?thesis
    by (simp add: bridge_inv_def total_supply_supply_of reserves_of_def om_sum_def)
qed

text \<open>C27: From the moment the quotas are set, and until they are set anew, the quota of a limited denom is
  always the limit times the supply at that moment, plus what came in, minus what went out. So what leaves
  the chain never exceeds the limit by more than what comes in, whatever anybody sends to the gateway.\<close>

theorem gateway_rate_limited:
  assumes "gw_cron_execute env st = Inr st0" "distinct (map fst (gw_rate_limits st))"
    and "(d, limit) \<in> set (gw_rate_limits st)" "ge_supply env d = Inr supply" "window_run st0 st' inn out"
  shows "out d \<le> unat supply * unat limit div 10 ^ 18 + inn d \<and>
    quota_of st' d = Some (unat supply * unat limit div 10 ^ 18 + inn d - out d)"
proof -
  have "om_ok (gw_quotas st0)" "quota_of st0 d = Some (unat supply * unat limit div 10 ^ 18)"
    using cron_quotas [OF assms(1) [unfolded gw_cron_execute_def]] assms(2-4) by fastforce+
  from window_run_quota [OF assms(5) this] show ?thesis by auto
qed

text \<open>C28: What the gateway of one chain sends through its Warp contract and its mailbox reaches the gateway
  of the chain the remote names, once it is processed there: the message that the other Warp contract
  sends asks for the same amount, for the account the recipient's 32 bytes stand for, from the remote
  that stands for the first chain and its Warp contract.\<close>

theorem bridged_transfer_arrives:
  assumes "transfer_remote env cx st (Warp domain contract) recipient = Inr (st', outs)"
    and "GwBridge b (BridgeTransferRemote r amount to) \<in> set outs"
    and "warp_execute gw wcx mailbox (WarpBridge (BridgeTransferRemote r amount to)) = Inr wouts"
    and "WarpDispatch mb msg \<in> set wouts"
    and "mailbox_execute api henv mcx mst msg = Inr (mst', mouts, evs)" "MbDispatch m \<in> set evs"
    and "mailbox_execute api henv' mcx' mst2 (MbProcessMsg (hl_encode m) metadata) = Inr (mst2', mouts2, evs2)"
    and "MbHandle a origin sender body \<in> set mouts2"
    and "warp_execute gw2 wcx2 mailbox2 (WarpHandle origin sender body) = Inr wouts2"
    and "WarpGateway g gmsg \<in> set wouts2"
  shows "domain = mc_local_domain (mb_config mst2) \<and> addr_of_addr32 contract = Inr a \<and>
    (\<exists>account. addr_of_addr32 recipient = Inr account \<and>
       gmsg = ReceiveRemote (Warp (mc_local_domain (mb_config mst)) (addr32_of_addr (ctx_sender mcx))) amount account)"
proof -
  from assms(1) obtain c :: coin and bridge maybe_fee x st1 bank taxman
    where outs: "outs = transfer_messages cx (c_denom c) (Warp domain contract) recipient bridge bank taxman x maybe_fee"
    by (rule transfer_remoteE)
  with assms(2) have r: "r = Warp domain contract" "to = recipient"
    by (auto simp: transfer_messages_def split: if_splits option.splits)
  from assms(3,4) have msg: "msg = MbDispatchMsg domain contract
      (token_encode \<lparr>tm_recipient = recipient, tm_amount = amount, tm_metadata = []\<rparr>)"
    by (auto simp: r warp_transfer_remote_def result_iff)
  from assms(5,6) have m: "hm_origin m = mc_local_domain (mb_config mst)" "hm_sender m = addr32_of_addr (ctx_sender mcx)"
      "hm_destination m = domain" "hm_recipient m = contract"
      "hm_body m = token_encode \<lparr>tm_recipient = recipient, tm_amount = amount, tm_metadata = []\<rparr>"
    by (auto simp: msg mailbox_dispatch_def Let_def result_iff)
  from assms(7,8) have h: "domain = mc_local_domain (mb_config mst2)" "addr_of_addr32 contract = Inr a"
      "origin = hm_origin m" "sender = hm_sender m" "body = hm_body m"
    by (auto simp: mailbox_process_def Let_def result_iff hl_decode_encode m)
  from assms(9,10) show ?thesis
    by (auto simp: warp_handle_def result_iff h m token_decode_encode)
qed

text \<open>C29: Remotes cannot be read back from the storage keys they are written as: the only bytes that are
  read as a remote are the key of the Bitcoin bridge. The key of a Warp remote is refused for its length,
  and a key of the length that is expected makes the contract panic.\<close>

theorem warp_remote_unreadable:
  "(remote_from_slice bytes = Inr r \<longleftrightarrow> bytes = remote_raw_key Bitcoin \<and> r = Bitcoin) \<and>
   \<not> is_ok (remote_from_slice (remote_raw_key (Warp domain contract))) \<and>
   remote_from_slice [0, b1, b2, b3, b4, b5, b6, b7, b8] = Inl Panic"
proof (intro conjI)
  show "remote_from_slice bytes = Inr r \<longleftrightarrow> bytes = remote_raw_key Bitcoin \<and> r = Bitcoin"
    by (cases bytes) (auto simp: result_iff slice_of_def)
qed (simp_all add: ensure_def slice_of_def)

text \<open>Setting a route that exists replaces it: the denom the remote stood for is no longer its denom.\<close>

lemma set_routes_overwrites:
  assumes "ge_owner env = Inr (ctx_sender cx)" "denom_from_parts [gateway_namespace, p] = Inr d" "om_ok (gw_routes st)"
  shows "\<exists>st'. set_routes env cx st [(OriginRemote p, b, r)] = Inr (st', []) \<and> query_route st' b r = Some d"
  using assms by (simp add: set_routes_def save_routes_def save_route_def route_denom_def query_route_def map_of_om_insert)

subsection \<open>Witnesses\<close>

text \<open>A token bridged through the Warp contract at address 5 from contract 7 of domain 2.\<close>

definition eth :: denom where
  "eth = [''bridge'', ''eth'']"

definition sample_gw_env :: gw_env where
  "sample_gw_env = \<lparr>ge_owner = Inr 1, ge_bank = Inr 2, ge_taxman = Inr 3, ge_supply = \<lambda>_. Inr 1000\<rparr>"

definition sample_gw :: "(addr \<times> remote, u128) omap \<Rightarrow> (denom, u128) omap \<Rightarrow> gw_state" where
  "sample_gw reserves quotas = \<lparr>gw_routes = [((5, Warp 2 7), eth)], gw_reverse_routes = [((eth, Warp 2 7), 5)],
     gw_rate_limits = [(eth, 100000000000000000)], gw_withdrawal_fees = [((eth, Warp 2 7), 1)],
     gw_reserves = reserves, gw_quotas = quotas\<rparr>"

definition gw_ctx :: "addr \<Rightarrow> coins \<Rightarrow> ctx" where
  "gw_ctx sender funds = \<lparr>ctx_contract = 4, ctx_sender = sender, ctx_funds = funds, ctx_time = 1, ctx_height = 1\<rparr>"

lemma eth_denom: "denom_from_parts [gateway_namespace, ''eth''] = Inr eth" "is_remote eth"
  "denom_namespace eth = Some gateway_namespace"
  by code_simp+

definition eth_route :: "origin \<times> addr \<times> remote" where
  "eth_route = (OriginRemote ''eth'', 5, Warp 2 7)"

lemma sample_routes:
  "gw_instantiate [eth_route] [(eth, 100000000000000000)] [\<lparr>wf_denom = eth, wf_remote = Warp 2 7, wf_fee = 1\<rparr>] =
     Inr (sample_gw [] [])"
  "append_only gw_empty [eth_route]"
  by (simp_all add: eth_route_def gw_instantiate_def save_routes_def save_route_def route_denom_def eth_denom gw_empty_def
      save_withdrawal_fees_def sample_gw_def Let_def)

lemma sample_receive:
  "gw_execute sample_gw_env (gw_ctx 5 []) (sample_gw [] []) (ReceiveRemote (Warp 2 7) 100 9) =
     Inr (sample_gw [((5, Warp 2 7), 100)] [], [GwBank 2 (Mint 9 [(eth, 100)])])"
  by (simp add: receive_remote_def om_load_def sample_gw_def gw_ctx_def eth_denom increase_reserve_def increase_quota_def
      may_update_def may_modify_def checked_add_def sample_gw_env_def coins_macro_def is_zero_def om_set_def om_remove_def)

lemma sample_transfer:
  "transfer_remote sample_gw_env (gw_ctx 9 [(eth, 31)]) (sample_gw [((5, Warp 2 7), 100)] [(eth, 100)]) (Warp 2 7) 11 =
     Inr (sample_gw [((5, Warp 2 7), 70)] [(eth, 70)],
       transfer_messages (gw_ctx 9 [(eth, 31)]) eth (Warp 2 7) 11 5 2 3 30 (Some 1))"
  by (simp add: transfer_remote_def om_load_def sample_gw_def gw_ctx_def eth_denom reduce_reserve_def reduce_quota_def
      into_one_coin_def coins_len_def coins_iter_def mk_coin_def Let_def
      may_update_def may_modify_def checked_sub_def sample_gw_env_def om_set_def)

definition sample_bank :: "(denom, u128) omap \<Rightarrow> (addr \<times> denom, u128) omap \<Rightarrow> bank_state" where
  "sample_bank supplies balances = \<lparr>b_namespace_owners = [(''bridge'', 4)], b_metadatas = [],
     b_supplies = supplies, b_balances = balances, b_orphaned = []\<rparr>"

lemma sample_mint:
  "bank_execute_entry \<lparr>be_owner = Inr 1, be_taxman = Inr 3, be_exists = \<lambda>_. True\<rparr>
     \<lparr>ctx_contract = 2, ctx_sender = 4, ctx_funds = [], ctx_time = 1, ctx_height = 1\<rparr> (sample_bank [(eth, 7)] [((9, eth), 7)])
     (Mint 9 [(eth, 100)]) = Inr (sample_bank [(eth, 107)] [((9, eth), 107)], [Minted 9 4 [(eth, 100)]])"
  by (simp add: bank_execute_entry_def coins_is_empty_def sample_bank_def bank_eval eth_def)

theorem bridged_supply_backed_witness:
  "\<exists>st bk0 bk. bridge_run 4 2 (sample_gw [] []) bk0 st bk [] \<and> total_supply bk0 eth = 7 \<and> total_supply bk eth = 107 \<and>
     (\<Sum>(k, v)\<leftarrow>gw_reserves st. if map_of (gw_routes st) k = Some eth then unat v else 0) = 100"
proof -
  let ?st = "sample_gw [((5, Warp 2 7), 100)] []"
  let ?old = "sample_bank [(eth, 7)] [((9, eth), 7)]" and ?bk = "sample_bank [(eth, 107)] [((9, eth), 107)]"
  have "bridge_run 4 2 (sample_gw [] []) ?old ?st ?old ([GwBank 2 (Mint 9 [(eth, 100)])] @ [])"
    by (rule bridge_run.Message [OF bridge_run.Start sample_receive]) (simp_all add: sample_gw_env_def gw_ctx_def)
  then have run: "bridge_run 4 2 (sample_gw [] []) ?old ?st ?bk []"
    by (intro bridge_run.Deliver [OF _ sample_mint]) simp_all
  have "bank_ready 4 ?old"
    by (simp add: bank_ready_def sample_bank_def bank_inv_def bank_wf_def supply_of_def book_def om_amount_def om_ok_def
        gateway_namespace_def)
  from bridged_supply_backed [OF sample_routes this run eth_denom(3)] have "total_supply ?bk eth = total_supply ?old eth +
      (\<Sum>(k, v)\<leftarrow>gw_reserves ?st. if map_of (gw_routes ?st) k = Some eth then unat v else 0)" .
  moreover have "total_supply ?bk eth = 107" "total_supply ?old eth = 7"
    by (simp_all add: sample_bank_def total_supply_supply_of supply_of_def om_amount_def)
  ultimately show ?thesis using run by (intro exI [of _ ?st] exI [of _ ?old] exI [of _ ?bk]) simp
qed

lemma sample_cron:
  "gw_cron_execute sample_gw_env (sample_gw [((5, Warp 2 7), 100)] []) =
     Inr (sample_gw [((5, Warp 2 7), 100)] [(eth, 100)])"
proof -
  have "checked_mul_dec_floor 18 1000 100000000000000000 = Inr (100 :: u128)" by (simp add: math_iff)
  then show ?thesis by (simp add: gw_cron_execute_def save_quota_def sample_gw_def sample_gw_env_def)
qed

theorem gateway_rate_limited_witness:
  "\<exists>st' inn out. window_run (sample_gw [((5, Warp 2 7), 100)] [(eth, 100)]) st' inn out \<and> out eth = 30 \<and>
     quota_of st' eth = Some 70"
proof -
  let ?st0 = "sample_gw [((5, Warp 2 7), 100)] [(eth, 100)]"
    and ?outs = "transfer_messages (gw_ctx 9 [(eth, 31)]) eth (Warp 2 7) 11 5 2 3 30 (Some 1)"
  have "gw_execute sample_gw_env (gw_ctx 9 [(eth, 31)]) ?st0 (TransferRemote (Warp 2 7) 11) =
      Inr (sample_gw [((5, Warp 2 7), 70)] [(eth, 70)], ?outs)"
    using sample_transfer by simp
  from window_run.Message [OF window_run.Start this]
  have run: "window_run ?st0 (sample_gw [((5, Warp 2 7), 70)] [(eth, 70)]) (\<lambda>d. 0 + came_in (gw_ctx 9 [(eth, 31)]) ?st0
      (TransferRemote (Warp 2 7) 11) d) (\<lambda>d. 0 + went_out (gw_ctx 9 [(eth, 31)]) ?outs d)" .
  have out: "went_out (gw_ctx 9 [(eth, 31)]) ?outs eth = 30"
    by (simp add: went_out_def coins_has_def gw_ctx_def bridged_transfer_messages)
  have "distinct (map fst (gw_rate_limits (sample_gw [((5, Warp 2 7), 100)] [])))"
    "(eth, 100000000000000000) \<in> set (gw_rate_limits (sample_gw [((5, Warp 2 7), 100)] []))"
    "ge_supply sample_gw_env eth = Inr 1000"
    by (simp_all add: sample_gw_def sample_gw_env_def)
  from gateway_rate_limited [OF sample_cron this run] out
  have q: "quota_of (sample_gw [((5, Warp 2 7), 70)] [(eth, 70)]) eth = Some 70" by simp
  show ?thesis by (intro exI conjI, rule run) (simp_all add: out q)
qed

text \<open>The gateway of domain 1 sends 30 to account 11 of domain 2, whose Warp contract has the address 7.\<close>

definition sample_body :: bytes where
  "sample_body = token_encode \<lparr>tm_recipient = 11, tm_amount = 30, tm_metadata = []\<rparr>"

definition sample_sent :: hl_message where
  "sample_sent = \<lparr>hm_version = mailbox_version, hm_nonce = 0, hm_origin = 1, hm_sender = addr32_of_addr 5,
     hm_destination = 2, hm_recipient = 7, hm_body = sample_body\<rparr>"

definition warp_ctx :: "addr \<Rightarrow> ctx" where
  "warp_ctx sender = \<lparr>ctx_contract = 0, ctx_sender = sender, ctx_funds = [], ctx_time = 1, ctx_height = 1\<rparr>"

lemma sample_warp_sends:
  "warp_execute (Inr 4) (warp_ctx 4) 6 (WarpBridge (BridgeTransferRemote (Warp 2 7) 30 11)) =
     Inr [WarpDispatch 6 (MbDispatchMsg 2 7 sample_body)]"
  by (simp add: warp_transfer_remote_def warp_ctx_def sample_body_def)

lemma sample_mailbox_sends:
  obtains st evs where "mailbox_execute sample_host sample_hl_env (warp_ctx 5) (mailbox_instantiate sample_config)
     (MbDispatchMsg 2 7 sample_body) = Inr (st, [], evs)" "MbDispatch sample_sent \<in> set evs"
  by (simp add: mailbox_dispatch_def mailbox_instantiate_def sample_config_def sample_tree_insert checked_add_def
      checked_sub_def Let_def warp_ctx_def sample_sent_def)

lemma sample_mailbox_delivers:
  obtains st evs where "mailbox_execute sample_host sample_hl_env (warp_ctx 1)
     (mailbox_instantiate \<lparr>mc_local_domain = 2, mc_default_ism = 9\<rparr>) (MbProcessMsg (hl_encode sample_sent) []) =
       Inr (st, [MbHandle 7 1 (addr32_of_addr 5) sample_body], evs)"
  by (simp add: mailbox_process_def hl_decode_encode mailbox_instantiate_def sample_hl_env_def
      sample_sent_def addr_of_addr32_def mailbox_version_def Let_def)

theorem bridged_transfer_arrives_witness:
  "warp_execute (Inr 14) (warp_ctx 16) 16 (WarpHandle 1 (addr32_of_addr 5) sample_body) =
     Inr [WarpGateway 14 (ReceiveRemote (Warp 1 (addr32_of_addr 5)) 30 11)]"
proof -
  obtain gmsg where handle: "warp_execute (Inr 14) (warp_ctx 16) 16 (WarpHandle 1 (addr32_of_addr 5) sample_body) =
      Inr [WarpGateway 14 gmsg]"
    by (simp add: warp_handle_def sample_body_def token_decode_encode warp_ctx_def addr_of_addr32_def)
  obtain st evs where d: "mailbox_execute sample_host sample_hl_env (warp_ctx 5) (mailbox_instantiate sample_config)
     (MbDispatchMsg 2 7 sample_body) = Inr (st, [], evs)" "MbDispatch sample_sent \<in> set evs"
    by (rule sample_mailbox_sends)
  obtain st2 evs2 where p: "mailbox_execute sample_host sample_hl_env (warp_ctx 1)
     (mailbox_instantiate \<lparr>mc_local_domain = 2, mc_default_ism = 9\<rparr>) (MbProcessMsg (hl_encode sample_sent) []) =
       Inr (st2, [MbHandle 7 1 (addr32_of_addr 5) sample_body], evs2)"
    by (rule sample_mailbox_delivers)
  have "\<exists>account. addr_of_addr32 11 = Inr account \<and> gmsg = ReceiveRemote (Warp 1 (addr32_of_addr 5)) 30 account"
    using bridged_transfer_arrives [OF sample_transfer, of 5 "Warp 2 7" 30 11, OF _ sample_warp_sends _ d p _ handle]
    by (simp add: transfer_messages_def mailbox_instantiate_def sample_config_def warp_ctx_def)
  with handle show ?thesis by (simp add: addr_of_addr32_def)
qed

end
