(* ===== verification/Vesting.thy ===== *)
theory Vesting
  imports Context
begin

text \<open>
  The vesting contract, \<^verbatim>\<open>dango/vesting/src\<close> and \<^verbatim>\<open>dango/types/src/vesting/types.rs\<close>: a position
  vests linearly by its own schedule and unlocks by the contract's one; what can be claimed is the
  smaller of the two, less what was claimed before. Transfers the contract asks for are the second
  part of a message's result. The lemmas: the vested amount lies between zero and the totalal and
  grows with time, and the contract always holds what it owes to all positions together.
\<close>

record schedule =
  sc_start :: u128
  sc_cliff :: u128
  sc_period :: u128

datatype vesting_status = Active schedule | Terminated u128

record position =
  pos_status :: vesting_status
  pos_total :: u128
  pos_claimed :: u128

record vesting_state =
  v_unlocking :: schedule
  v_positions :: "(addr, position) omap"

datatype vesting_msg = VestCreate addr schedule | VestTerminate addr | VestClaim

type_synonym vesting_result = "(vesting_state \<times> (addr \<times> coin) list) res"

definition dango_denom :: denom where
  "dango_denom = [''dango'']"

subsection \<open>Schedules and positions (types.rs)\<close>

definition schedule_claimable :: "schedule \<Rightarrow> u128 \<Rightarrow> u128 \<Rightarrow> u128 res" where
  "schedule_claimable sc now tot =
     and_then (duration_add (sc_start sc) (sc_cliff sc)) (\<lambda>cliff_time.
     and_then
       (if now < cliff_time then Inr 0
        else and_then (duration_add (sc_start sc) (sc_period sc)) (\<lambda>end_time.
          if now < end_time
          then and_then (duration_sub now (sc_start sc)) (\<lambda>elapsed.
                 checked_from_ratio 18 elapsed (sc_period sc))
          else Inr (dec_one 18)))
       (\<lambda>claim_percent. checked_mul_dec_floor 18 tot claim_percent))"

fun status_claimable :: "vesting_status \<Rightarrow> u128 \<Rightarrow> u128 \<Rightarrow> u128 res" where
  "status_claimable (Active sc) now tot = schedule_claimable sc now tot"
| "status_claimable (Terminated vested) now tot = Inr vested"

definition position_claimable :: "position \<Rightarrow> u128 \<Rightarrow> schedule \<Rightarrow> u128 res" where
  "position_claimable p now unlocking =
     and_then (status_claimable (pos_status p) now (pos_total p)) (\<lambda>vested.
     and_then (schedule_claimable unlocking now (pos_total p)) (\<lambda>unlocked.
     Inr (unwrap_or 0 (checked_sub (min vested unlocked) (pos_claimed p)))))"

subsection \<open>Messages (execute.rs)\<close>

definition vesting_instantiate :: "ctx \<Rightarrow> u128 \<Rightarrow> u128 \<Rightarrow> vesting_state" where
  "vesting_instantiate cx cliff period =
     \<lparr>v_unlocking = \<lparr>sc_start = ctx_time cx, sc_cliff = cliff, sc_period = period\<rparr>, v_positions = []\<rparr>"

definition vesting_create :: "addr res \<Rightarrow> ctx \<Rightarrow> vesting_state \<Rightarrow> addr \<Rightarrow> schedule \<Rightarrow> vesting_result" where
  "vesting_create owner cx st user sc =
     and_then owner (\<lambda>chain_owner.
     and_then (ensure (ctx_sender cx = chain_owner) Unauthorized) (\<lambda>_.
     and_then (into_one_coin_of_denom (ctx_funds cx) dango_denom) (\<lambda>coin.
     Inr (st\<lparr>v_positions := om_insert user
            \<lparr>pos_status = Active sc, pos_total = c_amount coin, pos_claimed = 0\<rparr> (v_positions st)\<rparr>,
          []))))"

definition vesting_terminate :: "addr res \<Rightarrow> ctx \<Rightarrow> vesting_state \<Rightarrow> addr \<Rightarrow> vesting_result" where
  "vesting_terminate owner cx st user =
     and_then owner (\<lambda>chain_owner.
     and_then (ensure (ctx_sender cx = chain_owner) Unauthorized) (\<lambda>_.
     and_then (om_load (v_positions st) user) (\<lambda>p.
     and_then
       (case pos_status p of
          Active sc \<Rightarrow> schedule_claimable sc (ctx_time cx) (pos_total p)
        | Terminated _ \<Rightarrow> Inl (Bail ''position is already terminated'')) (\<lambda>vested.
     and_then (checked_sub (pos_total p) vested) (\<lambda>refund.
     Inr (st\<lparr>v_positions := om_insert user (p\<lparr>pos_status := Terminated vested\<rparr>) (v_positions st)\<rparr>,
          if is_non_zero refund then [(chain_owner, mk_coin dango_denom refund)] else []))))))"

definition vesting_claim :: "ctx \<Rightarrow> vesting_state \<Rightarrow> vesting_result" where
  "vesting_claim cx st =
     and_then (om_load (v_positions st) (ctx_sender cx)) (\<lambda>p.
     and_then (position_claimable p (ctx_time cx) (v_unlocking st)) (\<lambda>claimable.
     and_then (ensure (is_non_zero claimable) (Bail ''nothing to claim'')) (\<lambda>_.
     and_then (checked_add (pos_claimed p) claimable) (\<lambda>claimed.
     Inr (st\<lparr>v_positions := om_insert (ctx_sender cx) (p\<lparr>pos_claimed := claimed\<rparr>) (v_positions st)\<rparr>,
          [(ctx_sender cx, mk_coin dango_denom claimable)])))))"

fun vesting_execute :: "addr res \<Rightarrow> ctx \<Rightarrow> vesting_state \<Rightarrow> vesting_msg \<Rightarrow> vesting_result" where
  "vesting_execute owner cx st (VestCreate user sc) = vesting_create owner cx st user sc"
| "vesting_execute owner cx st (VestTerminate user) = vesting_terminate owner cx st user"
| "vesting_execute owner cx st VestClaim = vesting_claim cx st"

subsection \<open>Queries (query.rs)\<close>

definition query_position :: "vesting_state \<Rightarrow> u128 \<Rightarrow> addr \<Rightarrow> (position \<times> u128) res" where
  "query_position st now user =
     and_then (om_load (v_positions st) user) (\<lambda>p.
     and_then (position_claimable p now (v_unlocking st)) (\<lambda>claimable. Inr (p, claimable)))"

definition query_positions ::
    "vesting_state \<Rightarrow> u128 \<Rightarrow> addr option \<Rightarrow> u32 option \<Rightarrow> (addr, position \<times> u128) omap res" where
  "query_positions st now start_after limit =
     try_map (\<lambda>(user, p).
       and_then (position_claimable p now (v_unlocking st)) (\<lambda>claimable. Inr (user, (p, claimable))))
       (page start_after limit (v_positions st))"

subsection \<open>The vested amount\<close>

lemma duration_add_Inr [math_iff]: "duration_add a b = Inr c \<longleftrightarrow> unat c = unat a + unat b"
  by (auto simp: duration_add_def result_iff math_iff)

lemma duration_sub_Inr [math_iff]: "duration_sub a b = Inr c \<longleftrightarrow> unat a = unat b + unat c"
  by (auto simp: duration_sub_def result_iff math_iff)

lemma unat_dec_one_18: "unat (dec_one 18 :: u128) = 10 ^ 18"
  unfolding dec_one_def by (rule unat_precision) simp

text \<open>The percentage of a schedule that is vested, in units of \<open>10 ^ -18\<close>.\<close>

definition percent_at :: "schedule \<Rightarrow> nat \<Rightarrow> nat" where
  "percent_at sc now =
     (if now < unat (sc_start sc) + unat (sc_cliff sc) then 0
      else if now < unat (sc_start sc) + unat (sc_period sc)
      then (now - unat (sc_start sc)) * 10 ^ 18 div unat (sc_period sc)
      else 10 ^ 18)"

lemma schedule_claimable_Inr:
  assumes "schedule_claimable sc now tot = Inr a"
  shows "unat a = unat tot * percent_at sc (unat now) div 10 ^ 18"
proof -
  obtain t1 p where t1: "unat t1 = unat (sc_start sc) + unat (sc_cliff sc)"
    and p: "(if now < t1 then Inr 0
        else and_then (duration_add (sc_start sc) (sc_period sc)) (\<lambda>end_time.
          if now < end_time
          then and_then (duration_sub now (sc_start sc)) (\<lambda>elapsed.
                 checked_from_ratio 18 elapsed (sc_period sc))
          else Inr (dec_one 18))) = Inr p"
    and a: "unat a = unat tot * unat p div 10 ^ 18"
    using assms by (auto simp: schedule_claimable_def result_iff math_iff)
  have "unat p = percent_at sc (unat now)"
    using p by (auto simp: percent_at_def word_less_nat_alt t1 result_iff math_iff checked_from_ratio_def
        unat_dec_one_18 unat_precision split: if_splits)
  with a show ?thesis by simp
qed

lemma percent_at_le: "percent_at sc now \<le> 10 ^ 18"
proof (cases "unat (sc_period sc) = 0")
  case False
  have "(now - unat (sc_start sc)) * 10 ^ 18 div unat (sc_period sc) \<le> 10 ^ 18"
    if "now < unat (sc_start sc) + unat (sc_period sc)"
  proof -
    have "(now - unat (sc_start sc)) * 10 ^ 18 \<le> unat (sc_period sc) * 10 ^ 18"
      using that by (intro mult_le_mono1) linarith
    then show ?thesis using False by (metis div_le_mono nonzero_mult_div_cancel_left)
  qed
  then show ?thesis by (simp add: percent_at_def)
qed (simp add: percent_at_def)

lemma percent_at_mono: "now \<le> now' \<Longrightarrow> percent_at sc now \<le> percent_at sc now'"
  using percent_at_le [of sc now]
  by (auto simp: percent_at_def intro!: div_le_mono mult_le_mono1 diff_le_mono)

definition vested_at :: "schedule \<Rightarrow> nat \<Rightarrow> u128 \<Rightarrow> nat" where
  "vested_at sc now tot = unat tot * percent_at sc now div 10 ^ 18"

lemma vested_at_le: "vested_at sc now tot \<le> unat tot"
proof -
  have "unat tot * percent_at sc now \<le> unat tot * 10 ^ 18"
    using percent_at_le by (rule mult_le_mono2)
  then show ?thesis unfolding vested_at_def
    by (metis div_le_mono nonzero_mult_div_cancel_right power_not_zero zero_neq_numeral)
qed

lemma vested_at_mono: "now \<le> now' \<Longrightarrow> vested_at sc now tot \<le> vested_at sc now' tot"
  unfolding vested_at_def by (intro div_le_mono mult_le_mono2 percent_at_mono)

lemma schedule_claimable_vested:
  "schedule_claimable sc now tot = Inr a \<Longrightarrow> unat a = vested_at sc (unat now) tot"
  by (simp add: schedule_claimable_Inr vested_at_def)

subsection \<open>What the contract owes\<close>

definition owed :: "position \<Rightarrow> nat" where
  "owed p = (case pos_status p of Active sc \<Rightarrow> unat (pos_total p) | Terminated v \<Rightarrow> unat v)
     - unat (pos_claimed p)"

definition total_owed :: "vesting_state \<Rightarrow> nat" where
  "total_owed st = om_sum (\<lambda>_ p. owed p) (v_positions st)"

text \<open>A position is sound at a time when no more was claimed than has vested by then.\<close>

definition position_ok :: "nat \<Rightarrow> position \<Rightarrow> bool" where
  "position_ok now p \<longleftrightarrow>
     (case pos_status p of
        Active sc \<Rightarrow> unat (pos_claimed p) \<le> vested_at sc now (pos_total p)
      | Terminated v \<Rightarrow> unat (pos_claimed p) \<le> unat v \<and> unat v \<le> unat (pos_total p))"

definition vesting_wf :: "nat \<Rightarrow> vesting_state \<Rightarrow> bool" where
  "vesting_wf now st \<longleftrightarrow> om_ok (v_positions st) \<and> (\<forall>e \<in> set (v_positions st). position_ok now (snd e))"

lemma position_ok_mono: "position_ok now p \<Longrightarrow> now \<le> now' \<Longrightarrow> position_ok now' p"
  by (cases "pos_status p") (auto simp: position_ok_def dest: vested_at_mono le_trans
      intro: le_trans [OF _ vested_at_mono])

lemma vesting_wf_mono: "vesting_wf now st \<Longrightarrow> now \<le> now' \<Longrightarrow> vesting_wf now' st"
  by (auto simp: vesting_wf_def intro: position_ok_mono)

lemma vesting_wf_insert:
  "vesting_wf now st \<Longrightarrow> position_ok now p \<Longrightarrow>
   vesting_wf now (st\<lparr>v_positions := om_insert user p (v_positions st)\<rparr>)"
  by (auto simp: vesting_wf_def om_ok_insert om_insert_entries)

lemma vesting_wf_load: "vesting_wf now st \<Longrightarrow> map_of (v_positions st) user = Some p \<Longrightarrow> position_ok now p"
  by (fastforce simp: vesting_wf_def dest: map_of_SomeD)

lemma total_owed_insert:
  "vesting_wf now st \<Longrightarrow>
   total_owed (st\<lparr>v_positions := om_insert user p (v_positions st)\<rparr>)
     + (case map_of (v_positions st) user of None \<Rightarrow> 0 | Some p \<Rightarrow> owed p)
   = total_owed st + owed p"
  using om_sum_insert [of "v_positions st" "\<lambda>_ p. owed p" user p]
  by (simp add: total_owed_def vesting_wf_def weight_def)

lemma total_owed_update:
  "vesting_wf now st \<Longrightarrow> map_of (v_positions st) user = Some q \<Longrightarrow>
   total_owed (st\<lparr>v_positions := om_insert user p (v_positions st)\<rparr>) + owed q = total_owed st + owed p"
  using total_owed_insert [of now st user p] by simp

definition sent :: "(addr \<times> coin) list \<Rightarrow> nat" where
  "sent msgs = (\<Sum>(a, c)\<leftarrow>msgs. unat (c_amount c))"

text \<open>What a claim and a termination do to the position and pay out.\<close>

lemma position_claimable_Inr:
  assumes "position_claimable p now unlocking = Inr a"
  obtains v and u :: u128 where "status_claimable (pos_status p) now (pos_total p) = Inr v"
    and "unat u = vested_at unlocking (unat now) (pos_total p)"
    and "unat a = min (unat v) (unat u) - unat (pos_claimed p)"
proof -
  obtain v u where vu: "status_claimable (pos_status p) now (pos_total p) = Inr v"
      "schedule_claimable unlocking now (pos_total p) = Inr u"
      "a = unwrap_or 0 (checked_sub (min v u) (pos_claimed p))"
    using assms by (auto simp: position_claimable_def result_iff)
  have "unat a = min (unat v) (unat u) - unat (pos_claimed p)"
    using vu(3) by (auto simp: checked_sub_def unat_sub word_le_nat_alt min_def)
  then show ?thesis using that [OF vu(1) schedule_claimable_vested [OF vu(2)]] by simp
qed

lemma vesting_claim_Inr:
  assumes "vesting_claim cx st = Inr (st', msgs)" and "vesting_wf (unat (ctx_time cx)) st"
  obtains p a where "map_of (v_positions st) (ctx_sender cx) = Some p"
    and "position_claimable p (ctx_time cx) (v_unlocking st) = Inr a" and "a \<noteq> 0"
    and "st' = st\<lparr>v_positions := om_insert (ctx_sender cx)
           (p\<lparr>pos_claimed := pos_claimed p + a\<rparr>) (v_positions st)\<rparr>"
    and "unat (pos_claimed p + a) = unat (pos_claimed p) + unat a"
    and "msgs = [(ctx_sender cx, mk_coin dango_denom a)]"
    and "position_ok (unat (ctx_time cx)) (p\<lparr>pos_claimed := pos_claimed p + a\<rparr>)"
    and "owed p = owed (p\<lparr>pos_claimed := pos_claimed p + a\<rparr>) + unat a"
proof -
  obtain p a b where p: "map_of (v_positions st) (ctx_sender cx) = Some p"
    and a: "position_claimable p (ctx_time cx) (v_unlocking st) = Inr a" "a \<noteq> 0"
    and b: "checked_add (pos_claimed p) a = Inr b"
    and st': "st' = st\<lparr>v_positions := om_insert (ctx_sender cx) (p\<lparr>pos_claimed := b\<rparr>) (v_positions st)\<rparr>"
      "msgs = [(ctx_sender cx, mk_coin dango_denom a)]"
    using assms(1) by (auto simp: vesting_claim_def result_iff is_non_zero_def is_zero_def)
  have b': "b = pos_claimed p + a" "unat b = unat (pos_claimed p) + unat a"
    using b by (simp add: checked_add_def split: if_splits) (use b in \<open>simp add: math_iff\<close>)
  from a(1) obtain v and u :: u128 where v: "status_claimable (pos_status p) (ctx_time cx) (pos_total p) = Inr v"
      "unat a = min (unat v) (unat u) - unat (pos_claimed p)"
    by (rule position_claimable_Inr)
  have le: "unat (pos_claimed p) + unat a \<le> unat v" using v(2) a(2) by (auto simp: word_unat_eq_iff)
  have ok: "position_ok (unat (ctx_time cx)) p" using assms(2) p by (rule vesting_wf_load)
  have v': "case pos_status p of Active sc \<Rightarrow> unat v = vested_at sc (unat (ctx_time cx)) (pos_total p)
      | Terminated w \<Rightarrow> w = v"
    using v(1) by (auto simp: schedule_claimable_vested split: vesting_status.split)
  have "position_ok (unat (ctx_time cx)) (p\<lparr>pos_claimed := b\<rparr>)"
    using ok v' le b'(2) by (auto simp: position_ok_def split: vesting_status.splits)
  moreover have "owed p = owed (p\<lparr>pos_claimed := b\<rparr>) + unat a"
  proof (cases "pos_status p")
    case (Active sc)
    then have "unat v \<le> unat (pos_total p)" using v' vested_at_le by simp
    then show ?thesis using Active le b'(2) by (simp add: owed_def)
  next
    case (Terminated w)
    then show ?thesis using v' le b'(2) by (simp add: owed_def)
  qed
  ultimately show ?thesis using that [OF p a] st' b' by simp
qed

lemma vesting_terminate_Inr:
  assumes "vesting_terminate owner cx st user = Inr (st', msgs)"
    and "vesting_wf (unat (ctx_time cx)) st"
  obtains p sc v where "map_of (v_positions st) user = Some p" and "pos_status p = Active sc"
    and "owner = Inr (ctx_sender cx)"
    and "unat v = vested_at sc (unat (ctx_time cx)) (pos_total p)"
    and "st' = st\<lparr>v_positions := om_insert user (p\<lparr>pos_status := Terminated v\<rparr>) (v_positions st)\<rparr>"
    and "sent msgs + unat v = unat (pos_total p)" and "\<forall>m \<in> set msgs. fst m = ctx_sender cx"
    and "position_ok (unat (ctx_time cx)) (p\<lparr>pos_status := Terminated v\<rparr>)"
    and "owed p = owed (p\<lparr>pos_status := Terminated v\<rparr>) + sent msgs"
proof -
  obtain p v r where p1: "map_of (v_positions st) user = Some p"
    and o: "owner = Inr (ctx_sender cx)"
    and c: "(case pos_status p of
          Active sc \<Rightarrow> schedule_claimable sc (ctx_time cx) (pos_total p)
        | Terminated _ \<Rightarrow> Inl (Bail ''position is already terminated'')) = Inr v"
    and r: "checked_sub (pos_total p) v = Inr r"
    and st': "st' = st\<lparr>v_positions := om_insert user (p\<lparr>pos_status := Terminated v\<rparr>) (v_positions st)\<rparr>"
      "msgs = (if is_non_zero r then [(ctx_sender cx, mk_coin dango_denom r)] else [])"
    using assms(1) by (auto simp: vesting_terminate_def result_iff)
  from c obtain sc where p2: "pos_status p = Active sc"
      and v: "schedule_claimable sc (ctx_time cx) (pos_total p) = Inr v"
    by (cases "pos_status p") simp_all
  note p = p1 p2
  have v': "unat v = vested_at sc (unat (ctx_time cx)) (pos_total p)"
    using v by (rule schedule_claimable_vested)
  have ok: "position_ok (unat (ctx_time cx)) p" using assms(2) p(1) by (rule vesting_wf_load)
  then have c: "unat (pos_claimed p) \<le> unat v" using p(2) v' by (simp add: position_ok_def)
  have s: "sent msgs + unat v = unat (pos_total p)"
    using r st'(2) by (auto simp: sent_def math_iff is_non_zero_def is_zero_def)
  show ?thesis
    using that [OF p o v' st'(1) s] st'(2) p(2) c s v' vested_at_le
    by (auto simp: position_ok_def owed_def split: if_splits)
qed

subsection \<open>Runs and solvency\<close>

text \<open>
  A run of the contract with the amount it received less the amount it paid out, and the time of the
  last block; block time never goes back. Every sender may send every message, with any funds.
\<close>

inductive vesting_run :: "vesting_state \<Rightarrow> int \<Rightarrow> u128 \<Rightarrow> bool" where
  vesting_start: "vesting_run (vesting_instantiate cx cliff period) 0 (ctx_time cx)"
| vesting_step:
    "vesting_run st held now \<Longrightarrow> vesting_execute owner cx st msg = Inr (st', msgs) \<Longrightarrow>
     now \<le> ctx_time cx \<Longrightarrow>
     vesting_run st' (held + int (unat (amount_of (ctx_funds cx) dango_denom)) - int (sent msgs))
       (ctx_time cx)"

lemma into_one_coin_of_denom_amount:
  "into_one_coin_of_denom cs d = Inr c \<Longrightarrow> c_amount c = amount_of cs d"
  by (auto simp: into_one_coin_of_denom_def into_one_coin_def result_iff coins_len_def coins_iter_def
      amount_of_def length_Suc_conv split: if_splits list.splits)

lemma vesting_execute_step:
  assumes "vesting_execute owner cx st msg = Inr (st', msgs)" and "vesting_wf (unat (ctx_time cx)) st"
  shows "vesting_wf (unat (ctx_time cx)) st'"
    and "total_owed st' + sent msgs \<le> total_owed st + unat (amount_of (ctx_funds cx) dango_denom)"
proof -
  let ?t = "unat (ctx_time cx)"
  have "vesting_wf ?t st' \<and>
      total_owed st' + sent msgs \<le> total_owed st + unat (amount_of (ctx_funds cx) dango_denom)"
  proof (cases msg)
    case (VestCreate user sc)
    then obtain c where c: "into_one_coin_of_denom (ctx_funds cx) dango_denom = Inr c"
      and st': "st' = st\<lparr>v_positions := om_insert user
        \<lparr>pos_status = Active sc, pos_total = c_amount c, pos_claimed = 0\<rparr> (v_positions st)\<rparr>" "msgs = []"
      using assms(1) by (auto simp: vesting_create_def result_iff)
    have "position_ok ?t \<lparr>pos_status = Active sc, pos_total = c_amount c, pos_claimed = 0\<rparr>"
      by (simp add: position_ok_def)
    moreover have "owed \<lparr>pos_status = Active sc, pos_total = c_amount c, pos_claimed = 0\<rparr> =
        unat (amount_of (ctx_funds cx) dango_denom)"
      using into_one_coin_of_denom_amount [OF c] by (simp add: owed_def)
    ultimately show ?thesis
      using st' vesting_wf_insert [OF assms(2)] total_owed_insert [OF assms(2), of user]
      by (simp add: sent_def) (metis le_add1)
  next
    case (VestTerminate user)
    then have "vesting_terminate owner cx st user = Inr (st', msgs)" using assms(1) by simp
    then obtain p v where p: "map_of (v_positions st) user = Some p"
      and st': "st' = st\<lparr>v_positions := om_insert user (p\<lparr>pos_status := Terminated v\<rparr>) (v_positions st)\<rparr>"
      and ok: "position_ok ?t (p\<lparr>pos_status := Terminated v\<rparr>)"
      and o: "owed p = owed (p\<lparr>pos_status := Terminated v\<rparr>) + sent msgs"
      using assms(2) by (rule vesting_terminate_Inr)
    show ?thesis
      using vesting_wf_insert [OF assms(2) ok] total_owed_update [OF assms(2) p, of "p\<lparr>pos_status := Terminated v\<rparr>"]
        o st' by simp
  next
    case VestClaim
    then have "vesting_claim cx st = Inr (st', msgs)" using assms(1) by simp
    then obtain p a where p: "map_of (v_positions st) (ctx_sender cx) = Some p"
      and st': "st' = st\<lparr>v_positions := om_insert (ctx_sender cx)
           (p\<lparr>pos_claimed := pos_claimed p + a\<rparr>) (v_positions st)\<rparr>"
      and m: "msgs = [(ctx_sender cx, mk_coin dango_denom a)]"
      and ok: "position_ok ?t (p\<lparr>pos_claimed := pos_claimed p + a\<rparr>)"
      and o: "owed p = owed (p\<lparr>pos_claimed := pos_claimed p + a\<rparr>) + unat a"
      using assms(2) by (rule vesting_claim_Inr)
    have "sent msgs = unat a" by (simp add: m sent_def)
    then show ?thesis
      using vesting_wf_insert [OF assms(2) ok] total_owed_update [OF assms(2) p, of "p\<lparr>pos_claimed := pos_claimed p + a\<rparr>"]
        o st' by simp
  qed
  then show "vesting_wf ?t st'"
    and "total_owed st' + sent msgs \<le> total_owed st + unat (amount_of (ctx_funds cx) dango_denom)"
    by simp_all
qed

lemma vesting_wf_later: "vesting_wf (unat now) st \<Longrightarrow> now \<le> t \<Longrightarrow> vesting_wf (unat t) st"
  by (rule vesting_wf_mono) (simp_all add: word_le_nat_alt)

lemma vesting_run_inv:
  "vesting_run st held now \<Longrightarrow> vesting_wf (unat now) st \<and> int (total_owed st) \<le> held"
proof (induction rule: vesting_run.induct)
  case (vesting_start cx cliff period)
  then show ?case by (simp add: vesting_instantiate_def vesting_wf_def total_owed_def)
next
  case (vesting_step st held now owner cx msg st' msgs)
  then have wf: "vesting_wf (unat (ctx_time cx)) st"
    by (blast intro: vesting_wf_later)
  from vesting_execute_step [OF vesting_step.hyps(2) this] vesting_step.IH show ?case by linarith
qed

subsection \<open>Properties\<close>

lemmas vesting_eval =
  vesting_create_def vesting_terminate_def vesting_claim_def vesting_instantiate_def
  into_one_coin_of_denom_def into_one_coin_def coins_len_def coins_iter_def mk_coin_def
  om_load_def dango_denom_def position_claimable_def schedule_claimable_def duration_add_def
  duration_sub_def checked_add_def checked_sub_def is_non_zero_def is_zero_def dec_one_def
  precision_def checked_from_ratio_def

text \<open>A sample run for the witnesses: a grant of 100 at time 0, vesting and unlocking over 10.\<close>

definition sample_schedule :: schedule where
  "sample_schedule = \<lparr>sc_start = 0, sc_cliff = 0, sc_period = 10\<rparr>"

definition sample_ctx :: "addr \<Rightarrow> coins \<Rightarrow> u128 \<Rightarrow> ctx" where
  "sample_ctx sender funds now =
     \<lparr>ctx_contract = 9, ctx_sender = sender, ctx_funds = funds, ctx_time = now, ctx_height = 0\<rparr>"

definition sample_state :: "vesting_status \<Rightarrow> u128 \<Rightarrow> vesting_state" where
  "sample_state s claimed = \<lparr>v_unlocking = sample_schedule,
     v_positions = [(4, \<lparr>pos_status = s, pos_total = 100, pos_claimed = claimed\<rparr>)]\<rparr>"

lemmas sample_defs = sample_schedule_def sample_ctx_def sample_state_def vesting_eval dec_eval

lemma sample_run: "vesting_run (sample_state (Active sample_schedule) 0) 100 0"
proof -
  let ?cx = "sample_ctx 1 [([''dango''], 100)] 0"
  have start: "vesting_run (vesting_instantiate ?cx 0 10) 0 (ctx_time ?cx)" by (rule vesting_start)
  have "vesting_execute (Inr 1) ?cx (vesting_instantiate ?cx 0 10) (VestCreate 4 sample_schedule) =
      Inr (sample_state (Active sample_schedule) 0, [])"
    by (simp add: sample_defs)
  from vesting_step [OF start this] show ?thesis
    by (simp add: sample_ctx_def sent_def dango_denom_def amount_of_def)
qed

lemma sample_claim:
  "vesting_claim (sample_ctx 4 [] 5) (sample_state (Active sample_schedule) 0) =
     Inr (sample_state (Active sample_schedule) 50, [(4, mk_coin [''dango''] 50)])"
  by (simp add: sample_defs)

lemma sample_terminate:
  "vesting_terminate (Inr 1) (sample_ctx 1 [] 7) (sample_state (Active sample_schedule) 0) 4 =
     Inr (sample_state (Terminated 70) 0, [(1, mk_coin [''dango''] 30)])"
  by (simp add: sample_defs)

text \<open>C31: The vesting contract is solvent in every run: what it received in the vesting token, less
  everything it paid out, covers what it still owes to all positions together, however creations,
  terminations and claims are interleaved.\<close>

theorem vesting_solvent:
  assumes "vesting_run st held now"
  shows "int (\<Sum>(user, p)\<leftarrow>v_positions st. owed p) \<le> held"
  using vesting_run_inv [OF assms] by (simp add: total_owed_def om_sum_def)

lemma vesting_solvent_witness:
  "int (\<Sum>(user, p)\<leftarrow>v_positions (sample_state (Active sample_schedule) 50). owed p) \<le> 50"
proof -
  have "vesting_execute (Inr 1) (sample_ctx 4 [] 5) (sample_state (Active sample_schedule) 0) VestClaim =
      Inr (sample_state (Active sample_schedule) 50, [(4, mk_coin [''dango''] 50)])"
    by (simp add: sample_claim)
  from vesting_step [OF sample_run this] have "vesting_run (sample_state (Active sample_schedule) 50) 50 5"
    by (simp add: sample_ctx_def sent_def amount_of_def)
  then show ?thesis by (rule vesting_solvent)
qed

text \<open>A claim pays exactly the smaller of the vested and the unlocked amount, less what was claimed
  before; afterwards the amount claimed is that smaller amount, which never exceeds the total.\<close>

lemma vesting_claim_pays_exactly:
  assumes "vesting_run st held now" and "now \<le> ctx_time cx"
    and "vesting_claim cx st = Inr (st', msgs)"
    and "map_of (v_positions st) (ctx_sender cx) = Some p" and "pos_status p = Active sc"
  shows "\<exists>p' c. map_of (v_positions st') (ctx_sender cx) = Some p' \<and> msgs = [(ctx_sender cx, c)] \<and>
    c_denom c = dango_denom \<and> unat (pos_claimed p') = unat (pos_claimed p) + unat (c_amount c) \<and>
    unat (pos_claimed p') = min (vested_at sc (unat (ctx_time cx)) (pos_total p))
      (vested_at (v_unlocking st) (unat (ctx_time cx)) (pos_total p)) \<and>
    unat (pos_claimed p') \<le> unat (pos_total p)"
proof -
  have wf: "vesting_wf (unat (ctx_time cx)) st"
    using vesting_run_inv [OF assms(1)] assms(2) by (blast intro: vesting_wf_later)
  from assms(3) wf obtain a where a: "position_claimable p (ctx_time cx) (v_unlocking st) = Inr a" "a \<noteq> 0"
    and st': "st' = st\<lparr>v_positions := om_insert (ctx_sender cx)
           (p\<lparr>pos_claimed := pos_claimed p + a\<rparr>) (v_positions st)\<rparr>"
    and s: "unat (pos_claimed p + a) = unat (pos_claimed p) + unat a"
    and m: "msgs = [(ctx_sender cx, mk_coin dango_denom a)]"
    by (rule vesting_claim_Inr) (use assms(4) in simp)
  from a(1) obtain v and u :: u128
    where v: "status_claimable (pos_status p) (ctx_time cx) (pos_total p) = Inr v"
      "unat u = vested_at (v_unlocking st) (unat (ctx_time cx)) (pos_total p)"
      "unat a = min (unat v) (unat u) - unat (pos_claimed p)"
    by (rule position_claimable_Inr)
  have "unat v = vested_at sc (unat (ctx_time cx)) (pos_total p)"
    using v(1) assms(5) by (simp add: schedule_claimable_vested)
  moreover have "unat (pos_claimed p) + unat a = min (unat v) (unat u)"
    using v(3) a(2) by (auto simp: word_unat_eq_iff)
  moreover have "om_ok (v_positions st)" using wf by (simp add: vesting_wf_def)
  ultimately show ?thesis
    using s v(2) vested_at_le [of sc _ "pos_total p"]
    by (simp add: st' m map_of_om_insert) (metis min.coboundedI1)
qed

lemma vesting_claim_pays_exactly_witness:
  "\<exists>p' c. map_of (v_positions (sample_state (Active sample_schedule) 50)) 4 = Some p' \<and>
     [(4, mk_coin [''dango''] 50)] = [(4, c)] \<and> unat (pos_claimed p') \<le> 100"
proof -
  have "map_of (v_positions (sample_state (Active sample_schedule) 0)) (ctx_sender (sample_ctx 4 [] 5)) =
      Some \<lparr>pos_status = Active sample_schedule, pos_total = 100, pos_claimed = 0\<rparr>"
    by (simp add: sample_ctx_def sample_state_def)
  from vesting_claim_pays_exactly [OF sample_run _ sample_claim this, of sample_schedule] show ?thesis
    by (simp add: sample_ctx_def) blast
qed

text \<open>Terminating a position pays the chain owner exactly the unvested part: refund and vested amount
  add up to the total, only the chain owner is paid, and the user's claims stay within the vested
  amount for ever, since later calls compute from it.\<close>

lemma vesting_terminate_splits_total:
  assumes "vesting_run st held now" and "now \<le> ctx_time cx"
    and "vesting_terminate owner cx st user = Inr (st', msgs)"
  shows "\<exists>p sc v. map_of (v_positions st) user = Some p \<and> pos_status p = Active sc \<and>
    map_of (v_positions st') user = Some (p\<lparr>pos_status := Terminated v\<rparr>) \<and>
    unat v = vested_at sc (unat (ctx_time cx)) (pos_total p) \<and>
    unat (pos_claimed p) \<le> unat v \<and> sent msgs + unat v = unat (pos_total p) \<and>
    (\<forall>m \<in> set msgs. Inr (fst m) = owner)"
proof -
  have wf: "vesting_wf (unat (ctx_time cx)) st"
    using vesting_run_inv [OF assms(1)] assms(2) by (blast intro: vesting_wf_later)
  from vesting_terminate_Inr [OF assms(3) wf] obtain p sc v
    where p: "map_of (v_positions st) user = Some p" "pos_status p = Active sc" "owner = Inr (ctx_sender cx)"
      "unat v = vested_at sc (unat (ctx_time cx)) (pos_total p)"
      "st' = st\<lparr>v_positions := om_insert user (p\<lparr>pos_status := Terminated v\<rparr>) (v_positions st)\<rparr>"
      "sent msgs + unat v = unat (pos_total p)" "\<forall>m \<in> set msgs. fst m = ctx_sender cx"
      "position_ok (unat (ctx_time cx)) (p\<lparr>pos_status := Terminated v\<rparr>)"
    by metis
  have "om_ok (v_positions st)" using wf by (simp add: vesting_wf_def)
  with p show ?thesis by (auto simp: map_of_om_insert position_ok_def)
qed

lemma vesting_terminate_splits_total_witness:
  "\<exists>p v. map_of (v_positions (sample_state (Terminated 70) 0)) 4 = Some (p\<lparr>pos_status := Terminated v\<rparr>) \<and>
     sent [(1, mk_coin [''dango''] 30)] + unat v = 100"
proof -
  from vesting_terminate_splits_total [OF sample_run _ sample_terminate]
  obtain p v where p: "map_of (v_positions (sample_state (Active sample_schedule) 0)) 4 = Some p"
    "map_of (v_positions (sample_state (Terminated 70) 0)) 4 = Some (p\<lparr>pos_status := Terminated v\<rparr>)"
    "sent [(1, mk_coin [''dango''] 30)] + unat v = unat (pos_total p)"
    by (auto simp: sample_ctx_def)
  then have "unat (pos_total p) = 100" by (auto simp: sample_state_def)
  with p(2,3) show ?thesis by auto
qed

text \<open>Creating a position for a user who has one replaces it, whatever was still owed on it.\<close>

lemma vesting_create_replaces:
  assumes "om_ok (v_positions st)" and "vesting_create owner cx st user sc = Inr (st', msgs)"
  shows "map_of (v_positions st') user =
    Some \<lparr>pos_status = Active sc, pos_total = amount_of (ctx_funds cx) dango_denom, pos_claimed = 0\<rparr>"
  using assms into_one_coin_of_denom_amount
  by (fastforce simp: vesting_create_def result_iff map_of_om_insert)

end
