(* ===== verification/Order_Matching.thy ===== *)
theory Order_Matching
  imports Dex_Types
begin

text \<open>
  The uniform-price auction, \<^verbatim>\<open>dango/dex/src/core/order_matching.rs\<close>. The loop walks the two sides
  of the book in price-time priority. Each side has the same variables in the source (\<open>bid\<close>,
  \<open>bid_iter\<close>, \<open>bids\<close>, \<open>bid_is_new\<close>, \<open>bid_volume\<close>), here a record \<open>side\<close>; an iterator is the list of the
  orders it has still to return. The lemmas: the loop ends, and the volume found is the largest
  volume any single price can trade, reached at every price of the range returned.
\<close>

record side =
  sd_cur :: "priced_order option"
  sd_iter :: "priced_order list"
  sd_taken :: "priced_order list"
  sd_new :: bool
  sd_volume :: udec

record match_state =
  ms_bid :: side
  ms_ask :: side
  ms_range :: "(udec \<times> udec) option"

record matching_outcome =
  mo_range :: "(udec \<times> udec) option"
  mo_volume :: udec
  mo_bids :: "priced_order list"
  mo_asks :: "priced_order list"

fun iter_next :: "priced_order list \<Rightarrow> priced_order option \<times> priced_order list" where
  "iter_next [] = (None, [])"
| "iter_next (x # xs) = (Some x, xs)"

definition side_init :: "priced_order list \<Rightarrow> side" where
  "side_init xs = \<lparr>sd_cur = fst (iter_next xs), sd_iter = snd (iter_next xs), sd_taken = [],
     sd_new = True, sd_volume = 0\<rparr>"

text \<open>\<open>if bid_is_new { bids.push(..); bid_volume += bid_order.remaining }\<close>\<close>

definition side_push :: "side \<Rightarrow> priced_order \<Rightarrow> side res" where
  "side_push s po =
     (if sd_new s
      then and_then (dec_add 6 6 (sd_volume s) (o_remaining (snd po))) (\<lambda>v.
             Inr (s\<lparr>sd_taken := sd_taken s @ [po], sd_volume := v\<rparr>))
      else Inr s)"

text \<open>\<open>if bid_volume <= ask_volume { bid = bid_iter.next(); bid_is_new = true } else { bid_is_new = false }\<close>\<close>

definition side_settle :: "bool \<Rightarrow> side \<Rightarrow> side" where
  "side_settle advance s =
     (if advance
      then s\<lparr>sd_cur := fst (iter_next (sd_iter s)), sd_iter := snd (iter_next (sd_iter s)), sd_new := True\<rparr>
      else s\<lparr>sd_new := False\<rparr>)"

definition match_step :: "match_state \<Rightarrow> priced_order \<Rightarrow> priced_order \<Rightarrow> match_state res" where
  "match_step s bid ask =
     and_then (side_push (ms_bid s) bid) (\<lambda>b.
     and_then (side_push (ms_ask s) ask) (\<lambda>a.
       Inr \<lparr>ms_bid = side_settle (sd_volume b \<le> sd_volume a) b,
            ms_ask = side_settle (sd_volume a \<le> sd_volume b) a,
            ms_range = Some (fst ask, fst bid)\<rparr>))"

definition side_left :: "side \<Rightarrow> nat" where
  "side_left s = length (sd_iter s) + (if sd_cur s = None then 0 else 1)"

lemma side_push_left: "side_push s po = Inr s' \<Longrightarrow> side_left s' = side_left s \<and> sd_cur s' = sd_cur s"
  by (auto simp: side_push_def side_left_def result_iff split: if_splits)

lemma side_settle_left:
  "side_left (side_settle advance s) \<le> side_left s"
  "sd_cur s \<noteq> None \<Longrightarrow> side_left (side_settle True s) < side_left s"
  by (cases "sd_iter s"; simp add: side_settle_def side_left_def)+

lemma match_step_left:
  assumes "match_step s bid ask = Inr s'" and "sd_cur (ms_bid s) \<noteq> None" and "sd_cur (ms_ask s) \<noteq> None"
  shows "side_left (ms_bid s') + side_left (ms_ask s') < side_left (ms_bid s) + side_left (ms_ask s)"
proof -
  obtain b a where b: "side_push (ms_bid s) bid = Inr b" and a: "side_push (ms_ask s) ask = Inr a"
    and s': "s' = \<lparr>ms_bid = side_settle (sd_volume b \<le> sd_volume a) b,
        ms_ask = side_settle (sd_volume a \<le> sd_volume b) a, ms_range = Some (fst ask, fst bid)\<rparr>"
    using assms(1) by (auto simp: match_step_def result_iff)
  note l = side_push_left [OF b] side_push_left [OF a]
  have "side_left (side_settle True b) < side_left b" "side_left (side_settle True a) < side_left a"
    using side_settle_left(2) [of b] side_settle_left(2) [of a] l assms(2,3) by auto
  moreover have "sd_volume b \<le> sd_volume a \<or> sd_volume a \<le> sd_volume b" by (rule linear)
  ultimately show ?thesis
    using l side_settle_left(1) [of "sd_volume b \<le> sd_volume a" b]
      side_settle_left(1) [of "sd_volume a \<le> sd_volume b" a]
    by (auto simp: s')
qed

function match_loop :: "match_state \<Rightarrow> match_state res" where
  "match_loop s =
     (case sd_cur (ms_bid s) of
        None \<Rightarrow> Inr s
      | Some bid \<Rightarrow>
          (case sd_cur (ms_ask s) of
             None \<Rightarrow> Inr s
           | Some ask \<Rightarrow>
               if fst bid < fst ask then Inr s else and_then (match_step s bid ask) match_loop))"
  by pat_completeness auto
termination
  by (relation "measure (\<lambda>s. side_left (ms_bid s) + side_left (ms_ask s))") (auto intro: match_step_left)

declare match_loop.simps [simp del]

definition match_orders :: "priced_order list \<Rightarrow> priced_order list \<Rightarrow> matching_outcome res" where
  "match_orders bids asks =
     and_then (match_loop \<lparr>ms_bid = side_init bids, ms_ask = side_init asks, ms_range = None\<rparr>) (\<lambda>s.
       Inr \<lparr>mo_range = ms_range s, mo_volume = min (sd_volume (ms_bid s)) (sd_volume (ms_ask s)),
            mo_bids = sd_taken (ms_bid s), mo_asks = sd_taken (ms_ask s)\<rparr>)"

subsection \<open>The state of one side\<close>

definition size_of :: "priced_order list \<Rightarrow> nat" where
  "size_of xs = (\<Sum>po\<leftarrow>xs. unat (o_remaining (snd po)))"

lemma size_of_simps [simp]:
  "size_of [] = 0"
  "size_of (x # xs) = unat (o_remaining (snd x)) + size_of xs"
  "size_of (xs @ ys) = size_of xs + size_of ys"
  by (simp_all add: size_of_def)

text \<open>The orders of a side not yet taken.\<close>

definition side_pending :: "side \<Rightarrow> priced_order list" where
  "side_pending s = (if sd_new s then (case sd_cur s of None \<Rightarrow> [] | Some x \<Rightarrow> [x]) else []) @ sd_iter s"

definition side_inv :: "priced_order list \<Rightarrow> side \<Rightarrow> bool" where
  "side_inv xs s \<longleftrightarrow> xs = sd_taken s @ side_pending s \<and> unat (sd_volume s) = size_of (sd_taken s) \<and>
     (\<not> sd_new s \<longrightarrow> sd_taken s \<noteq> [] \<and> sd_cur s = Some (last (sd_taken s))) \<and>
     (sd_new s \<longrightarrow> sd_cur s = None \<longrightarrow> sd_iter s = [])"

lemma side_init_inv: "side_inv xs (side_init xs)"
  by (cases xs) (simp_all add: side_inv_def side_init_def side_pending_def)

text \<open>After a push the current order is the last one taken.\<close>

lemma side_push_inv:
  assumes "side_inv xs s" and "sd_cur s = Some po" and "side_push s po = Inr s'"
  shows "xs = sd_taken s' @ sd_iter s'" and "unat (sd_volume s') = size_of (sd_taken s')"
    and "sd_taken s' \<noteq> []" and "last (sd_taken s') = po" and "sd_cur s' = Some po"
    and "unat (sd_volume s') =
      unat (sd_volume s) + (if sd_new s then unat (o_remaining (snd po)) else 0)"
    and "sd_taken s' = sd_taken s @ (if sd_new s then [po] else [])"
    and "sd_iter s' = sd_iter s"
  using assms
  by (auto simp: side_push_def side_inv_def side_pending_def result_iff math_iff split: if_splits)

lemma side_settle_inv:
  assumes "xs = sd_taken s @ sd_iter s" and "unat (sd_volume s) = size_of (sd_taken s)"
    and "sd_taken s \<noteq> []" and "sd_cur s = Some (last (sd_taken s))"
  shows "side_inv xs (side_settle advance s)"
  using assms by (cases "sd_iter s") (auto simp: side_inv_def side_settle_def side_pending_def)

text \<open>How far a side that waits has run ahead of the other one.\<close>

definition side_link :: "side \<Rightarrow> side \<Rightarrow> bool" where
  "side_link s t \<longleftrightarrow>
     (sd_new s \<longrightarrow> sd_volume s \<le> sd_volume t) \<and>
     (\<not> sd_new s \<longrightarrow> sd_volume t < sd_volume s \<and>
        size_of (butlast (sd_taken s)) \<le> unat (sd_volume t))"

lemma side_settle_simps [simp]:
  "sd_taken (side_settle b s) = sd_taken s" "sd_volume (side_settle b s) = sd_volume s"
  "sd_new (side_settle b s) = b"
  by (simp_all add: side_settle_def)

lemma side_link_step:
  assumes "side_inv xs s" and "sd_cur s = Some po" and "side_push s po = Inr s'"
    and "side_link s t" and "sd_volume t \<le> sd_volume t'"
  shows "side_link (side_settle (sd_volume s' \<le> sd_volume t') s') (side_settle b t')"
proof -
  note p = side_push_inv [OF assms(1-3)]
  have "size_of (butlast (sd_taken s')) \<le> unat (sd_volume t')"
  proof (cases "sd_new s")
    case True
    then have "butlast (sd_taken s') = sd_taken s" using p(7) by simp
    moreover have "unat (sd_volume s) = size_of (sd_taken s)" using assms(1) by (simp add: side_inv_def)
    moreover have "sd_volume s \<le> sd_volume t" using assms(4) True by (simp add: side_link_def)
    ultimately show ?thesis using assms(5) by (simp add: word_le_nat_alt)
  next
    case False
    then show ?thesis using assms(4,5) p(7) by (simp add: side_link_def word_le_nat_alt)
  qed
  then show ?thesis by (auto simp: side_link_def)
qed

subsection \<open>The loop\<close>

definition best_first :: "(udec \<Rightarrow> udec \<Rightarrow> bool) \<Rightarrow> priced_order list \<Rightarrow> bool" where
  "best_first le xs \<longleftrightarrow> sorted_wrt (\<lambda>x y. le (fst x) (fst y)) xs"

definition match_inv :: "priced_order list \<Rightarrow> priced_order list \<Rightarrow> match_state \<Rightarrow> bool" where
  "match_inv bids asks s \<longleftrightarrow>
     side_inv bids (ms_bid s) \<and> side_inv asks (ms_ask s) \<and>
     side_link (ms_bid s) (ms_ask s) \<and> side_link (ms_ask s) (ms_bid s) \<and>
     (case ms_range s of
        None \<Rightarrow> sd_taken (ms_bid s) = [] \<and> sd_taken (ms_ask s) = []
      | Some (l, u) \<Rightarrow> l \<le> u \<and> sd_taken (ms_bid s) \<noteq> [] \<and> sd_taken (ms_ask s) \<noteq> [] \<and>
          (\<forall>x \<in> set (sd_taken (ms_bid s)). u \<le> fst x) \<and> (\<forall>x \<in> set (sd_taken (ms_ask s)). fst x \<le> l))"

lemma best_first_last:
  assumes "best_first le (xs @ ys)" and "\<And>p. le p p" and "x \<in> set xs"
  shows "le (fst x) (fst (last xs))"
proof -
  from assms(3) have "xs \<noteq> []" by auto
  then have xs: "xs = butlast xs @ [last xs]" by simp
  have "best_first le xs" using assms(1) by (simp add: best_first_def sorted_wrt_append)
  then have "best_first le (butlast xs @ [last xs])" using xs by simp
  then have "\<forall>y \<in> set (butlast xs). le (fst y) (fst (last xs))"
    by (simp add: best_first_def sorted_wrt_append)
  moreover have "x \<in> set (butlast xs) \<or> x = last xs" using assms(3) xs
    by (metis Un_iff empty_iff insert_iff list.set(1) list.set(2) set_append)
  ultimately show ?thesis using assms(2) by auto
qed

lemma match_step_inv:
  assumes "match_inv bids asks s" and "sd_cur (ms_bid s) = Some bid" and "sd_cur (ms_ask s) = Some ask"
    and "fst ask \<le> fst bid" and "match_step s bid ask = Inr s'"
    and "best_first (\<ge>) bids" and "best_first (\<le>) asks"
  shows "match_inv bids asks s'"
proof -
  obtain b a where b: "side_push (ms_bid s) bid = Inr b" and a: "side_push (ms_ask s) ask = Inr a"
    and s': "s' = \<lparr>ms_bid = side_settle (sd_volume b \<le> sd_volume a) b,
        ms_ask = side_settle (sd_volume a \<le> sd_volume b) a, ms_range = Some (fst ask, fst bid)\<rparr>"
    using assms(5) by (auto simp: match_step_def result_iff)
  from assms(1) have inv: "side_inv bids (ms_bid s)" "side_inv asks (ms_ask s)"
      "side_link (ms_bid s) (ms_ask s)" "side_link (ms_ask s) (ms_bid s)"
    by (simp_all add: match_inv_def)
  note pb = side_push_inv [OF inv(1) assms(2) b] and pa = side_push_inv [OF inv(2) assms(3) a]
  have le: "sd_volume (ms_bid s) \<le> sd_volume b" "sd_volume (ms_ask s) \<le> sd_volume a"
    using pb(6) pa(6) by (simp_all add: word_le_nat_alt)
  have "\<forall>x \<in> set (sd_taken b). fst bid \<le> fst x"
    using best_first_last [of "(\<ge>)" "sd_taken b" "sd_iter b"] assms(6) pb(1,4) by auto
  moreover have "\<forall>x \<in> set (sd_taken a). fst x \<le> fst ask"
    using best_first_last [of "(\<le>)" "sd_taken a" "sd_iter a"] assms(7) pa(1,4) by auto
  moreover have "side_inv bids (side_settle c b)" "side_inv asks (side_settle c a)" for c
    using pb pa by (auto intro: side_settle_inv)
  ultimately show ?thesis
    using side_link_step [OF inv(1) assms(2) b inv(3) le(2)] side_link_step [OF inv(2) assms(3) a inv(4) le(1)]
      assms(4) pb(3) pa(3)
    by (simp add: match_inv_def s')
qed

text \<open>The state in which the loop ends.\<close>

definition match_final :: "match_state \<Rightarrow> bool" where
  "match_final s \<longleftrightarrow>
     (case (sd_cur (ms_bid s), sd_cur (ms_ask s)) of (Some bid, Some ask) \<Rightarrow> fst bid < fst ask | _ \<Rightarrow> True)"

lemma match_loop_inv:
  assumes "match_loop s = Inr s'" and "match_inv bids asks s"
    and "best_first (\<ge>) bids" and "best_first (\<le>) asks"
  shows "match_inv bids asks s' \<and> match_final s'"
  using assms(1,2)
proof (induction s rule: match_loop.induct)
  case (1 s)
  show ?case
  proof (cases "match_final s")
    case True
    then have "match_loop s = Inr s"
      by (subst match_loop.simps) (auto simp: match_final_def split: option.splits)
    with 1 True show ?thesis by simp
  next
    case False
    then obtain bid ask where c: "sd_cur (ms_bid s) = Some bid" "sd_cur (ms_ask s) = Some ask"
        "\<not> fst bid < fst ask"
      by (auto simp: match_final_def split: option.splits)
    with 1(2) obtain t where t: "match_step s bid ask = Inr t" "match_loop t = Inr s'"
      by (subst (asm) match_loop.simps) (auto simp: result_iff)
    have "match_inv bids asks t"
      using match_step_inv [OF 1(3) c(1,2) _ t(1) assms(3,4)] c(3) by simp
    with 1(1) [OF c(1,2,3) _ t(2)] t(1) show ?thesis by simp
  qed
qed

lemma match_orders_Inr:
  assumes "match_orders bids asks = Inr m" and "best_first (\<ge>) bids" and "best_first (\<le>) asks"
  obtains s where "match_inv bids asks s" and "match_final s"
    and "m = \<lparr>mo_range = ms_range s, mo_volume = min (sd_volume (ms_bid s)) (sd_volume (ms_ask s)),
            mo_bids = sd_taken (ms_bid s), mo_asks = sd_taken (ms_ask s)\<rparr>"
proof -
  obtain s where s: "match_loop \<lparr>ms_bid = side_init bids, ms_ask = side_init asks, ms_range = None\<rparr> = Inr s"
    "m = \<lparr>mo_range = ms_range s, mo_volume = min (sd_volume (ms_bid s)) (sd_volume (ms_ask s)),
            mo_bids = sd_taken (ms_bid s), mo_asks = sd_taken (ms_ask s)\<rparr>"
    using assms(1) by (auto simp: match_orders_def result_iff)
  have "match_inv bids asks \<lparr>ms_bid = side_init bids, ms_ask = side_init asks, ms_range = None\<rparr>"
    using side_init_inv by (simp add: match_inv_def side_link_def) (simp add: side_init_def)
  from match_loop_inv [OF s(1) this assms(2,3)] s(2) that show thesis by blast
qed

subsection \<open>Demand and supply\<close>

text \<open>What is bid for at a price or better, and what is offered at a price or better.\<close>

definition demanded :: "priced_order list \<Rightarrow> udec \<Rightarrow> nat" where
  "demanded bids p = size_of (filter (\<lambda>x. p \<le> fst x) bids)"

definition offered :: "priced_order list \<Rightarrow> udec \<Rightarrow> nat" where
  "offered asks p = size_of (filter (\<lambda>x. fst x \<le> p) asks)"

lemma size_of_filter_le: "size_of (filter P xs) \<le> size_of xs"
  by (induction xs) auto

lemma size_of_filter_all: "\<forall>x \<in> set xs. P x \<Longrightarrow> size_of (filter P xs) = size_of xs"
  by (induction xs) auto

lemma size_of_filter_none: "\<forall>x \<in> set xs. \<not> P x \<Longrightarrow> size_of (filter P xs) = 0"
  by (induction xs) auto

lemma demanded_append: "demanded (xs @ ys) p = demanded xs p + demanded ys p"
  by (simp add: demanded_def)

lemma offered_append: "offered (xs @ ys) p = offered xs p + offered ys p"
  by (simp add: offered_def)

text \<open>Orders priced from the current one on do not trade beyond its price.\<close>

lemma demanded_none: "best_first (\<ge>) (x # xs) \<Longrightarrow> fst x < p \<Longrightarrow> demanded (x # xs) p = 0"
  unfolding demanded_def by (rule size_of_filter_none) (auto simp: best_first_def)

lemma offered_none: "best_first (\<le>) (x # xs) \<Longrightarrow> p < fst x \<Longrightarrow> offered (x # xs) p = 0"
  unfolding offered_def by (rule size_of_filter_none) (auto simp: best_first_def)

lemma size_of_butlast: "xs \<noteq> [] \<Longrightarrow> size_of xs = size_of (butlast xs) + unat (o_remaining (snd (last xs)))"
  by (induction xs rule: rev_induct) auto

lemma demanded_le: "demanded xs p \<le> size_of xs"
  by (simp add: demanded_def size_of_filter_le)

lemma offered_le: "offered xs p \<le> size_of xs"
  by (simp add: offered_def size_of_filter_le)

text \<open>Beyond the current price a side trades what it has taken, less the current order if it waits.\<close>

definition side_before :: "side \<Rightarrow> nat" where
  "side_before s = (if sd_new s then unat (sd_volume s) else size_of (butlast (sd_taken s)))"

lemma demanded_beyond:
  assumes "side_inv xs s" and "best_first (\<ge>) xs"
    and "case sd_cur s of None \<Rightarrow> True | Some x \<Rightarrow> fst x < p"
  shows "demanded xs p \<le> side_before s"
proof (cases "sd_cur s")
  case None
  with assms(1) have "sd_new s" "xs = sd_taken s" "unat (sd_volume s) = size_of (sd_taken s)"
    by (auto simp: side_inv_def side_pending_def)
  then show ?thesis using demanded_le by (simp add: side_before_def)
next
  case (Some x)
  show ?thesis
  proof (cases "sd_new s")
    case True
    with assms(1) Some have xs: "xs = sd_taken s @ x # sd_iter s" "unat (sd_volume s) = size_of (sd_taken s)"
      by (auto simp: side_inv_def side_pending_def)
    then have "best_first (\<ge>) (x # sd_iter s)" using assms(2) by (simp add: best_first_def sorted_wrt_append)
    then have "demanded (x # sd_iter s) p = 0" using assms(3) Some by (intro demanded_none) auto
    then show ?thesis using xs True demanded_le by (simp add: demanded_append side_before_def)
  next
    case False
    with assms(1) Some have xs: "xs = sd_taken s @ sd_iter s" "sd_taken s \<noteq> []" "x = last (sd_taken s)"
      by (auto simp: side_inv_def side_pending_def)
    then have xs': "xs = butlast (sd_taken s) @ x # sd_iter s" by simp
    then have "best_first (\<ge>) (x # sd_iter s)" using assms(2) by (simp add: best_first_def sorted_wrt_append)
    then have "demanded (x # sd_iter s) p = 0" using assms(3) Some by (intro demanded_none) auto
    then show ?thesis using xs' False demanded_le by (simp add: demanded_append side_before_def)
  qed
qed

lemma offered_beyond:
  assumes "side_inv xs s" and "best_first (\<le>) xs"
    and "case sd_cur s of None \<Rightarrow> True | Some x \<Rightarrow> p < fst x"
  shows "offered xs p \<le> side_before s"
proof (cases "sd_cur s")
  case None
  with assms(1) have "sd_new s" "xs = sd_taken s" "unat (sd_volume s) = size_of (sd_taken s)"
    by (auto simp: side_inv_def side_pending_def)
  then show ?thesis using offered_le by (simp add: side_before_def)
next
  case (Some x)
  show ?thesis
  proof (cases "sd_new s")
    case True
    with assms(1) Some have xs: "xs = sd_taken s @ x # sd_iter s" "unat (sd_volume s) = size_of (sd_taken s)"
      by (auto simp: side_inv_def side_pending_def)
    then have "best_first (\<le>) (x # sd_iter s)" using assms(2) by (simp add: best_first_def sorted_wrt_append)
    then have "offered (x # sd_iter s) p = 0" using assms(3) Some by (intro offered_none) auto
    then show ?thesis using xs True offered_le by (simp add: offered_append side_before_def)
  next
    case False
    with assms(1) Some have xs: "xs = sd_taken s @ sd_iter s" "sd_taken s \<noteq> []" "x = last (sd_taken s)"
      by (auto simp: side_inv_def side_pending_def)
    then have xs': "xs = butlast (sd_taken s) @ x # sd_iter s" by simp
    then have "best_first (\<le>) (x # sd_iter s)" using assms(2) by (simp add: best_first_def sorted_wrt_append)
    then have "offered (x # sd_iter s) p = 0" using assms(3) Some by (intro offered_none) auto
    then show ?thesis using xs' False offered_le by (simp add: offered_append side_before_def)
  qed
qed

lemma side_before_le:
  assumes "side_inv xs s" and "side_link s t"
  shows "side_before s \<le> unat (sd_volume s)" and "side_before s \<le> unat (sd_volume t)"
    and "size_of (butlast (sd_taken s)) \<le> side_before s"
proof -
  have b: "size_of (butlast (sd_taken s)) \<le> unat (sd_volume s)"
    using assms(1) size_of_butlast [of "sd_taken s"] by (cases "sd_taken s = []") (auto simp: side_inv_def)
  then show "side_before s \<le> unat (sd_volume s)" by (simp add: side_before_def)
  show "side_before s \<le> unat (sd_volume t)"
    using assms(2) by (auto simp: side_before_def side_link_def word_le_nat_alt)
  show "size_of (butlast (sd_taken s)) \<le> side_before s" using b by (simp add: side_before_def)
qed

lemma match_bound:
  assumes "match_inv bids asks s" and "match_final s" and "best_first (\<ge>) bids" and "best_first (\<le>) asks"
  shows "min (demanded bids p) (offered asks p) \<le> min (unat (sd_volume (ms_bid s))) (unat (sd_volume (ms_ask s)))"
proof -
  from assms(1) have inv: "side_inv bids (ms_bid s)" "side_inv asks (ms_ask s)"
      "side_link (ms_bid s) (ms_ask s)" "side_link (ms_ask s) (ms_bid s)"
    by (simp_all add: match_inv_def)
  note le = side_before_le [OF inv(1,3)] side_before_le [OF inv(2,4)]
  consider "case sd_cur (ms_bid s) of None \<Rightarrow> True | Some x \<Rightarrow> fst x < p"
    | "case sd_cur (ms_ask s) of None \<Rightarrow> True | Some x \<Rightarrow> p < fst x"
    using assms(2) by (auto simp: match_final_def split: option.splits)
      (metis fst_conv leI order_less_le_trans)+
  then show ?thesis
  proof cases
    case 1
    from demanded_beyond [OF inv(1) assms(3) this] le show ?thesis by linarith
  next
    case 2
    from offered_beyond [OF inv(2) assms(4) this] le show ?thesis by linarith
  qed
qed

lemma match_attained:
  assumes "match_inv bids asks s" and "ms_range s = Some (l, u)" and "l \<le> p" and "p \<le> u"
  shows "unat (sd_volume (ms_bid s)) \<le> demanded bids p" and "unat (sd_volume (ms_ask s)) \<le> offered asks p"
proof -
  from assms have b: "side_inv bids (ms_bid s)" "\<forall>x \<in> set (sd_taken (ms_bid s)). p \<le> fst x"
    and a: "side_inv asks (ms_ask s)" "\<forall>x \<in> set (sd_taken (ms_ask s)). fst x \<le> p"
    by (auto simp: match_inv_def)
  show "unat (sd_volume (ms_bid s)) \<le> demanded bids p"
    using b size_of_filter_all [OF b(2)] by (simp add: side_inv_def demanded_def)
  show "unat (sd_volume (ms_ask s)) \<le> offered asks p"
    using a size_of_filter_all [OF a(2)] by (simp add: side_inv_def offered_def)
qed

lemma unat_min: "unat (min a b :: 'a::len word) = min (unat a) (unat b)"
  by (simp add: min_def word_le_nat_alt)

subsection \<open>The loop returns\<close>

lemma side_push_ok:
  assumes "side_inv xs s" and "sd_cur s = Some po" and "size_of xs < 2 ^ 128"
  shows "\<exists>s'. side_push s po = Inr s'"
proof (cases "sd_new s")
  case True
  with assms(1,2) have "unat (sd_volume s) + unat (o_remaining (snd po)) \<le> size_of xs"
    by (auto simp: side_inv_def side_pending_def)
  with assms(3) True show ?thesis by (simp add: side_push_def dec_add_def checked_add_def)
qed (simp add: side_push_def)

lemma match_loop_ok:
  assumes "match_inv bids asks s" and "best_first (\<ge>) bids" and "best_first (\<le>) asks"
    and "size_of bids < 2 ^ 128" and "size_of asks < 2 ^ 128"
  shows "\<exists>s'. match_loop s = Inr s'"
  using assms(1)
proof (induction s rule: match_loop.induct)
  case (1 s)
  show ?case
  proof (cases "match_final s")
    case True
    then show ?thesis by (subst match_loop.simps) (auto simp: match_final_def split: option.splits)
  next
    case False
    then obtain bid ask where c: "sd_cur (ms_bid s) = Some bid" "sd_cur (ms_ask s) = Some ask"
        "\<not> fst bid < fst ask"
      by (auto simp: match_final_def split: option.splits)
    from 1(2) have inv: "side_inv bids (ms_bid s)" "side_inv asks (ms_ask s)"
      by (simp_all add: match_inv_def)
    obtain t where t: "match_step s bid ask = Inr t"
      using side_push_ok [OF inv(1) c(1) assms(4)] side_push_ok [OF inv(2) c(2) assms(5)]
      by (auto simp: match_step_def)
    have "match_inv bids asks t"
      using match_step_inv [OF 1(2) c(1,2) _ t assms(2,3)] c(3) by simp
    with 1(1) [OF c(1,2,3) t] show ?thesis
      by (subst match_loop.simps) (simp add: c t)
  qed
qed

subsection \<open>Properties\<close>

text \<open>C4: The auction finds the best trade: for books in price priority, no single price can trade more
  than the volume found, every price of the range found trades exactly that volume, and if there is
  no range then no price trades anything.\<close>

theorem match_orders_maximises_volume:
  assumes "match_orders bids asks = Inr m" and "best_first (\<ge>) bids" and "best_first (\<le>) asks"
  shows "(\<forall>p. min (demanded bids p) (offered asks p) \<le> unat (mo_volume m)) \<and>
    (case mo_range m of
       None \<Rightarrow> \<forall>p. min (demanded bids p) (offered asks p) = 0
     | Some (l, u) \<Rightarrow> l \<le> u \<and>
         (\<forall>p. l \<le> p \<and> p \<le> u \<longrightarrow> min (demanded bids p) (offered asks p) = unat (mo_volume m)))"
proof -
  from match_orders_Inr [OF assms] obtain s where s: "match_inv bids asks s" "match_final s"
      "m = \<lparr>mo_range = ms_range s, mo_volume = min (sd_volume (ms_bid s)) (sd_volume (ms_ask s)),
            mo_bids = sd_taken (ms_bid s), mo_asks = sd_taken (ms_ask s)\<rparr>"
    by blast
  note bound = match_bound [OF s(1,2) assms(2,3)]
  show ?thesis
  proof (cases "ms_range s")
    case None
    with s(1) have "unat (sd_volume (ms_bid s)) = 0" by (simp add: match_inv_def side_inv_def)
    then have "min (demanded bids p) (offered asks p) = 0" for p using bound [of p] by linarith
    with None show ?thesis by (simp add: s(3))
  next
    case (Some r)
    obtain l u where r: "r = (l, u)" by (cases r)
    with Some s(1) have "l \<le> u" by (simp add: match_inv_def)
    moreover have "min (demanded bids p) (offered asks p) = unat (mo_volume m)" if "l \<le> p" "p \<le> u" for p
    proof -
      have "ms_range s = Some (l, u)" using Some r by simp
      from match_attained [OF s(1) this that] bound [of p]
      have "min (demanded bids p) (offered asks p) =
          min (unat (sd_volume (ms_bid s))) (unat (sd_volume (ms_ask s)))" by linarith
      then show ?thesis by (simp add: s(3) unat_min)
    qed
    ultimately show ?thesis using bound Some r by (simp add: s(3) unat_min)
  qed
qed

lemmas match_eval =
  match_orders_def match_loop.simps side_init_def match_step_def side_push_def side_settle_def
  dec_add_def checked_add_def

definition sample_order :: "direction \<Rightarrow> udec \<Rightarrow> udec \<Rightarrow> order" where
  "sample_order d p r = \<lparr>o_user = 1, o_id = 1, o_direction = d, o_tif = GoodTilCanceled, o_price = p,
     o_amount = r, o_remaining = r, o_created = Some 1\<rparr>"

lemma match_orders_maximises_volume_witness:
  "\<exists>m. match_orders [(9, sample_order Bid 9 10), (5, sample_order Bid 5 10)]
      [(3, sample_order Ask 3 4), (4, sample_order Ask 4 8), (7, sample_order Ask 7 5)] = Inr m \<and>
    mo_volume m = 12 \<and> min (demanded [(9, sample_order Bid 9 10), (5, sample_order Bid 5 10)] 5)
      (offered [(3, sample_order Ask 3 4), (4, sample_order Ask 4 8), (7, sample_order Ask 7 5)] 5) = 12"
proof -
  let ?bids = "[(9, sample_order Bid 9 10), (5, sample_order Bid 5 10)]"
  let ?asks = "[(3, sample_order Ask 3 4), (4, sample_order Ask 4 8), (7, sample_order Ask 7 5)]"
  obtain m where m: "match_orders ?bids ?asks = Inr m" "mo_range m = Some (4, 5)" "mo_volume m = 12"
    by (simp add: match_eval sample_order_def)
  have "best_first (\<ge>) ?bids" "best_first (\<le>) ?asks" by (simp_all add: best_first_def)
  from match_orders_maximises_volume [OF m(1) this] m show ?thesis by auto
qed

text \<open>The auction returns for every pair of books whose sizes add up within 128 bits. What it takes
  is a prefix of each book, in priority order; the bids taken are all at or above every price of the
  range and the asks at or below; and on each side everything but the last order taken is traded in
  full.\<close>

lemma match_orders_takes_prefixes:
  assumes "best_first (\<ge>) bids" and "best_first (\<le>) asks"
    and "size_of bids < 2 ^ 128" and "size_of asks < 2 ^ 128"
  shows "\<exists>m rest_bids rest_asks. match_orders bids asks = Inr m \<and>
    bids = mo_bids m @ rest_bids \<and> asks = mo_asks m @ rest_asks \<and>
    unat (mo_volume m) = min (size_of (mo_bids m)) (size_of (mo_asks m)) \<and>
    size_of (butlast (mo_bids m)) \<le> unat (mo_volume m) \<and>
    size_of (butlast (mo_asks m)) \<le> unat (mo_volume m) \<and>
    (\<forall>l u. mo_range m = Some (l, u) \<longrightarrow>
      (\<forall>x \<in> set (mo_bids m). u \<le> fst x) \<and> (\<forall>x \<in> set (mo_asks m). fst x \<le> l))"
proof -
  have init: "match_inv bids asks \<lparr>ms_bid = side_init bids, ms_ask = side_init asks, ms_range = None\<rparr>"
    using side_init_inv by (simp add: match_inv_def side_link_def) (simp add: side_init_def)
  from match_loop_ok [OF this assms] obtain m where m: "match_orders bids asks = Inr m"
    by (auto simp: match_orders_def)
  from match_orders_Inr [OF m assms(1,2)] obtain s where s: "match_inv bids asks s"
      "m = \<lparr>mo_range = ms_range s, mo_volume = min (sd_volume (ms_bid s)) (sd_volume (ms_ask s)),
            mo_bids = sd_taken (ms_bid s), mo_asks = sd_taken (ms_ask s)\<rparr>"
    by blast
  from s(1) have inv: "side_inv bids (ms_bid s)" "side_inv asks (ms_ask s)"
      "side_link (ms_bid s) (ms_ask s)" "side_link (ms_ask s) (ms_bid s)"
    by (simp_all add: match_inv_def)
  note le = side_before_le [OF inv(1,3)] side_before_le [OF inv(2,4)]
  have "unat (mo_volume m) = min (size_of (mo_bids m)) (size_of (mo_asks m))"
    "bids = mo_bids m @ side_pending (ms_bid s)" "asks = mo_asks m @ side_pending (ms_ask s)"
    "size_of (butlast (mo_bids m)) \<le> unat (mo_volume m)"
    "size_of (butlast (mo_asks m)) \<le> unat (mo_volume m)"
    using inv(1,2) le by (simp_all add: s(2) side_inv_def unat_min)
  moreover have "\<forall>l u. mo_range m = Some (l, u) \<longrightarrow>
      (\<forall>x \<in> set (mo_bids m). u \<le> fst x) \<and> (\<forall>x \<in> set (mo_asks m). fst x \<le> l)"
    using s(1) by (auto simp: s(2) match_inv_def split: option.splits)
  ultimately show ?thesis using m by blast
qed

lemma match_orders_takes_prefixes_witness:
  "\<exists>m. match_orders [(9, sample_order Bid 9 10)] [(3, sample_order Ask 3 4)] = Inr m \<and>
     unat (mo_volume m) = min (size_of (mo_bids m)) (size_of (mo_asks m))"
proof -
  have "best_first (\<ge>) [(9, sample_order Bid 9 10)]" "best_first (\<le>) [(3, sample_order Ask 3 4)]"
    "size_of [(9, sample_order Bid 9 10)] < 2 ^ 128" "size_of [(3, sample_order Ask 3 4)] < 2 ^ 128"
    by (simp_all add: best_first_def sample_order_def)
  from match_orders_takes_prefixes [OF this] show ?thesis by blast
qed

end
