(* ===== verification/Order_Filling.thy ===== *)
theory Order_Filling
  imports Order_Matching
begin

text \<open>
  Filling matched orders at the clearing price, \<^verbatim>\<open>dango/dex/src/core/order_filling.rs\<close>. The lemmas:
  exactly the volume is filled on each side, every outcome accounts for its order to the last unit of
  base, and the quote the bids had set aside covers all that is paid out in quote, with rounding.
\<close>

record filling_outcome =
  fo_order :: order
  fo_filled_base :: udec
  fo_filled_quote :: udec
  fo_refund_base :: udec
  fo_refund_quote :: udec
  fo_fee_base :: udec
  fo_fee_quote :: udec
  fo_clearing_price :: udec

text \<open>Passive orders are free, orders of an earlier block pay the maker rate, others the taker rate.\<close>

definition order_fee_rate :: "order \<Rightarrow> u64 \<Rightarrow> udec \<Rightarrow> udec \<Rightarrow> udec" where
  "order_fee_rate ord current_block_height maker_fee_rate taker_fee_rate =
     (case o_created ord of
        None \<Rightarrow> 0
      | Some block_height \<Rightarrow> if block_height < current_block_height then maker_fee_rate else taker_fee_rate)"

fun fill_bids ::
    "priced_order list \<Rightarrow> udec \<Rightarrow> udec \<Rightarrow> u64 \<Rightarrow> udec \<Rightarrow> udec \<Rightarrow> filling_outcome list res" where
  "fill_bids [] clearing_price volume height maker taker = Inr []"
| "fill_bids ((order_price, ord) # bids) clearing_price volume height maker taker =
     (let filled_base = min (o_remaining ord) volume
      in and_then (dec_mul 24 filled_base clearing_price) (\<lambda>filled_quote.
         and_then (order_fill ord filled_base) (\<lambda>ord'.
         and_then (unwrap (dec_sub 6 6 volume filled_base)) (\<lambda>volume'.
         and_then (dec_mul 18 filled_base (order_fee_rate ord' height maker taker)) (\<lambda>fee_base.
         and_then (dec_sub 6 6 filled_base fee_base) (\<lambda>refund_base.
         and_then (unwrap (dec_sub 24 24 order_price clearing_price)) (\<lambda>improvement.
         and_then (dec_mul 24 filled_base improvement) (\<lambda>refund_quote.
         and_then (if is_zero volume' then Inr []
                   else fill_bids bids clearing_price volume' height maker taker) (\<lambda>outcome.
           Inr (\<lparr>fo_order = ord', fo_filled_base = filled_base, fo_filled_quote = filled_quote,
                 fo_refund_base = refund_base, fo_refund_quote = refund_quote,
                 fo_fee_base = fee_base, fo_fee_quote = 0, fo_clearing_price = clearing_price\<rparr>
                # outcome))))))))))"

fun fill_asks ::
    "priced_order list \<Rightarrow> udec \<Rightarrow> udec \<Rightarrow> u64 \<Rightarrow> udec \<Rightarrow> udec \<Rightarrow> filling_outcome list res" where
  "fill_asks [] clearing_price volume height maker taker = Inr []"
| "fill_asks ((_, ord) # asks) clearing_price volume height maker taker =
     (let filled_base = min (o_remaining ord) volume
      in and_then (dec_mul 24 filled_base clearing_price) (\<lambda>filled_quote.
         and_then (order_fill ord filled_base) (\<lambda>ord'.
         and_then (unwrap (dec_sub 6 6 volume filled_base)) (\<lambda>volume'.
         and_then (dec_mul 18 filled_quote (order_fee_rate ord' height maker taker)) (\<lambda>fee_quote.
         and_then (dec_sub 6 6 filled_quote fee_quote) (\<lambda>refund_quote.
         and_then (if is_zero volume' then Inr []
                   else fill_asks asks clearing_price volume' height maker taker) (\<lambda>outcome.
           Inr (\<lparr>fo_order = ord', fo_filled_base = filled_base, fo_filled_quote = filled_quote,
                 fo_refund_base = 0, fo_refund_quote = refund_quote,
                 fo_fee_base = 0, fo_fee_quote = fee_quote, fo_clearing_price = clearing_price\<rparr>
                # outcome))))))))"

definition fill_orders ::
    "priced_order list \<Rightarrow> priced_order list \<Rightarrow> udec \<Rightarrow> udec \<Rightarrow> u64 \<Rightarrow> udec \<Rightarrow> udec \<Rightarrow>
     filling_outcome list res" where
  "fill_orders bids asks clearing_price volume height maker taker =
     and_then (fill_bids bids clearing_price volume height maker taker) (\<lambda>filled_bids.
     and_then (fill_asks asks clearing_price volume height maker taker) (\<lambda>filled_asks.
       Inr (filled_bids @ filled_asks)))"

subsection \<open>One outcome\<close>

definition outcome_filled :: "udec \<Rightarrow> priced_order \<Rightarrow> filling_outcome \<Rightarrow> bool" where
  "outcome_filled clearing_price po f \<longleftrightarrow>
     (\<exists>r. fo_order f = (snd po)\<lparr>o_remaining := r\<rparr> \<and>
       unat (o_remaining (snd po)) = unat (fo_filled_base f) + unat r) \<and>
     unat (fo_filled_quote f) = unat (fo_filled_base f) * unat clearing_price div 10 ^ 24 \<and>
     fo_clearing_price f = clearing_price"

definition bid_filled :: "udec \<Rightarrow> priced_order \<Rightarrow> filling_outcome \<Rightarrow> bool" where
  "bid_filled clearing_price po f \<longleftrightarrow> outcome_filled clearing_price po f \<and>
     clearing_price \<le> fst po \<and>
     unat (fo_refund_base f) + unat (fo_fee_base f) = unat (fo_filled_base f) \<and>
     unat (fo_refund_quote f) =
       unat (fo_filled_base f) * (unat (fst po) - unat clearing_price) div 10 ^ 24 \<and>
     fo_fee_quote f = 0"

definition ask_filled :: "udec \<Rightarrow> priced_order \<Rightarrow> filling_outcome \<Rightarrow> bool" where
  "ask_filled clearing_price po f \<longleftrightarrow> outcome_filled clearing_price po f \<and>
     unat (fo_refund_quote f) + unat (fo_fee_quote f) = unat (fo_filled_quote f) \<and>
     fo_refund_base f = 0 \<and> fo_fee_base f = 0"

definition filled_total :: "filling_outcome list \<Rightarrow> nat" where
  "filled_total fs = (\<Sum>f\<leftarrow>fs. unat (fo_filled_base f))"

lemma filled_total_simps [simp]:
  "filled_total [] = 0"
  "filled_total (f # fs) = unat (fo_filled_base f) + filled_total fs"
  by (simp_all add: filled_total_def)

lemmas dec_mul_24 = dec_rounding_128(1) [of 24, simplified]
lemmas dec_mul_18 = dec_rounding_128(1) [of 18, simplified]

lemma order_fill_Inr [math_iff]:
  "order_fill ord x = Inr ord' \<longleftrightarrow>
    (\<exists>r. ord' = ord\<lparr>o_remaining := r\<rparr> \<and> unat (o_remaining ord) = unat x + unat r)"
  by (auto simp: order_fill_def result_iff math_iff)

lemma fill_bids_Inr:
  assumes "fill_bids bids cp v h mk tk = Inr fs"
  shows "list_all2 (bid_filled cp) (take (length fs) bids) fs \<and> length fs \<le> length bids
    \<and> filled_total fs = min (unat v) (size_of bids)"
  using assms
proof (induction bids arbitrary: v fs)
  case Nil
  then show ?case by simp
next
  case (Cons po bids)
  obtain p ord where po: "po = (p, ord)" by (cases po)
  define x where "x = min (o_remaining ord) v"
  from Cons.prems obtain fq ord' v' fee rb imp rq rest
    where fq: "dec_mul 24 x cp = Inr fq" and ord': "order_fill ord x = Inr ord'"
      and v': "dec_sub 6 6 v x = Inr v'"
      and rb: "dec_sub 6 6 x fee = Inr rb" and imp: "dec_sub 24 24 p cp = Inr imp"
      and rq: "dec_mul 24 x imp = Inr rq"
      and rest: "(if is_zero v' then Inr [] else fill_bids bids cp v' h mk tk) = Inr rest"
      and fs: "fs = \<lparr>fo_order = ord', fo_filled_base = x, fo_filled_quote = fq, fo_refund_base = rb,
        fo_refund_quote = rq, fo_fee_base = fee, fo_fee_quote = 0, fo_clearing_price = cp\<rparr> # rest"
    by (auto simp: po Let_def result_iff x_def)
  have vx: "unat v = unat x + unat v'" using v' by (simp add: math_iff)
  have "bid_filled cp po (hd fs)"
    using fq ord' rb imp rq
    by (auto simp: fs po bid_filled_def outcome_filled_def math_iff dec_mul_24 word_le_nat_alt)
  moreover have "list_all2 (bid_filled cp) (take (length rest) bids) rest \<and> length rest \<le> length bids
      \<and> filled_total rest = min (unat v') (size_of bids)"
    using rest Cons.IH [of v' rest] by (auto simp: is_zero_def split: if_splits)
  moreover have "unat x + min (unat v') (size_of bids) = min (unat v) (unat (o_remaining ord) + size_of bids)"
    using vx by (auto simp: x_def unat_min min_def word_le_nat_alt split: if_splits)
  ultimately show ?case by (simp add: fs po)
qed

lemma fill_asks_Inr:
  assumes "fill_asks asks cp v h mk tk = Inr fs"
  shows "list_all2 (ask_filled cp) (take (length fs) asks) fs \<and> length fs \<le> length asks
    \<and> filled_total fs = min (unat v) (size_of asks)"
  using assms
proof (induction asks arbitrary: v fs)
  case Nil
  then show ?case by simp
next
  case (Cons po asks)
  obtain p ord where po: "po = (p, ord)" by (cases po)
  define x where "x = min (o_remaining ord) v"
  from Cons.prems obtain fq ord' v' fee rq rest
    where fq: "dec_mul 24 x cp = Inr fq" and ord': "order_fill ord x = Inr ord'"
      and v': "dec_sub 6 6 v x = Inr v'"
      and rq: "dec_sub 6 6 fq fee = Inr rq"
      and rest: "(if is_zero v' then Inr [] else fill_asks asks cp v' h mk tk) = Inr rest"
      and fs: "fs = \<lparr>fo_order = ord', fo_filled_base = x, fo_filled_quote = fq, fo_refund_base = 0,
        fo_refund_quote = rq, fo_fee_base = 0, fo_fee_quote = fee, fo_clearing_price = cp\<rparr> # rest"
    by (auto simp: po Let_def result_iff x_def)
  have vx: "unat v = unat x + unat v'" using v' by (simp add: math_iff)
  have "ask_filled cp po (hd fs)"
    using fq ord' rq by (auto simp: fs po ask_filled_def outcome_filled_def math_iff dec_mul_24)
  moreover have "list_all2 (ask_filled cp) (take (length rest) asks) rest \<and> length rest \<le> length asks
      \<and> filled_total rest = min (unat v') (size_of asks)"
    using rest Cons.IH [of v' rest] by (auto simp: is_zero_def split: if_splits)
  moreover have "unat x + min (unat v') (size_of asks) = min (unat v) (unat (o_remaining ord) + size_of asks)"
    using vx by (auto simp: x_def unat_min min_def word_le_nat_alt split: if_splits)
  ultimately show ?case by (simp add: fs po)
qed

subsection \<open>Solvency of a fill\<close>

text \<open>
  Amounts of quote, in units of \<open>10 ^ -30\<close> (base units times price units): what is set aside for bids,
  and what an outcome pays out in quote.
\<close>

definition set_aside :: "priced_order list \<Rightarrow> nat" where
  "set_aside bids = (\<Sum>po\<leftarrow>bids. unat (o_remaining (snd po)) * unat (fst po))"

definition quote_out :: "filling_outcome list \<Rightarrow> nat" where
  "quote_out fs = (\<Sum>f\<leftarrow>fs. (unat (fo_refund_quote f) + unat (fo_fee_quote f)) * 10 ^ 24)"

definition base_out :: "filling_outcome list \<Rightarrow> nat" where
  "base_out fs = (\<Sum>f\<leftarrow>fs. unat (fo_refund_base f) + unat (fo_fee_base f))"

lemma out_simps [simp]:
  "quote_out [] = 0" "base_out [] = 0" "set_aside [] = 0"
  "quote_out (f # fs) = (unat (fo_refund_quote f) + unat (fo_fee_quote f)) * 10 ^ 24 + quote_out fs"
  "base_out (f # fs) = unat (fo_refund_base f) + unat (fo_fee_base f) + base_out fs"
  "set_aside (po # pos) = unat (o_remaining (snd po)) * unat (fst po) + set_aside pos"
  by (simp_all add: quote_out_def base_out_def set_aside_def)

lemma out_append [simp]:
  "quote_out (fs @ gs) = quote_out fs + quote_out gs"
  "base_out (fs @ gs) = base_out fs + base_out gs"
  "set_aside (pos @ qos) = set_aside pos + set_aside qos"
  by (simp_all add: quote_out_def base_out_def set_aside_def)

text \<open>The priced orders that remain after outcomes.\<close>

definition left_over :: "priced_order list \<Rightarrow> filling_outcome list \<Rightarrow> priced_order list" where
  "left_over pos fs = map (\<lambda>(po, f). (fst po, fo_order f)) (zip pos fs) @ drop (length fs) pos"

lemma left_over_simps [simp]:
  "left_over pos [] = pos"
  "left_over (po # pos) (f # fs) = (fst po, fo_order f) # left_over pos fs"
  by (simp_all add: left_over_def)

lemma bid_filled_quote:
  assumes "bid_filled cp po f"
  shows "unat (o_remaining (fo_order f)) * unat (fst po) + unat (fo_filled_base f) * unat cp
      + (unat (fo_refund_quote f) + unat (fo_fee_quote f)) * 10 ^ 24
    \<le> unat (o_remaining (snd po)) * unat (fst po)"
proof -
  let ?x = "unat (fo_filled_base f)" and ?p = "unat (fst po)" and ?c = "unat cp"
  from assms obtain r where r: "o_remaining (fo_order f) = r" "unat (o_remaining (snd po)) = ?x + unat r"
    and le: "?c \<le> ?p" and rq: "unat (fo_refund_quote f) = ?x * (?p - ?c) div 10 ^ 24" "fo_fee_quote f = 0"
    by (auto simp: bid_filled_def outcome_filled_def word_le_nat_alt)
  have "unat (fo_refund_quote f) * 10 ^ 24 \<le> ?x * (?p - ?c)"
    unfolding rq(1) by (rule div_times_less_eq_dividend)
  then have "?x * ?c + unat (fo_refund_quote f) * 10 ^ 24 \<le> ?x * ?c + ?x * (?p - ?c)" by simp
  also have "\<dots> = ?x * ?p" using le by (simp flip: distrib_left)
  finally show ?thesis by (simp add: r rq(2) distrib_right)
qed

lemma bids_filled_quote:
  assumes "list_all2 (bid_filled cp) (take (length fs) bids) fs" and "length fs \<le> length bids"
  shows "set_aside (left_over bids fs) + filled_total fs * unat cp + quote_out fs \<le> set_aside bids"
  using assms
proof (induction fs arbitrary: bids rule: list.induct)
  case (Cons f fs)
  then obtain po pos where bids: "bids = po # pos" by (cases bids) auto
  with Cons.prems have "bid_filled cp po f" "list_all2 (bid_filled cp) (take (length fs) pos) fs"
    "length fs \<le> length pos" by simp_all
  from bid_filled_quote [OF this(1)] Cons.IH [OF this(2,3)] show ?case
    by (simp add: bids distrib_right)
qed simp

lemma asks_filled_quote:
  assumes "list_all2 (ask_filled cp) asks fs"
  shows "quote_out fs \<le> filled_total fs * unat cp"
  using assms
proof (induction rule: list_all2_induct)
  case (Cons po asks f fs)
  have "(unat (fo_refund_quote f) + unat (fo_fee_quote f)) * 10 ^ 24 \<le> unat (fo_filled_base f) * unat cp"
    using Cons(1) by (simp add: ask_filled_def outcome_filled_def)
  with Cons(3) show ?case by (simp add: distrib_right)
qed simp

lemma bids_filled_base: "list_all2 (bid_filled cp) bids fs \<Longrightarrow> base_out fs = filled_total fs"
  by (induction rule: list_all2_induct) (auto simp: bid_filled_def)

lemma asks_filled_base: "list_all2 (ask_filled cp) asks fs \<Longrightarrow> base_out fs = 0"
  by (induction rule: list_all2_induct) (auto simp: ask_filled_def)

lemma fill_orders_Inr:
  assumes "fill_orders bids asks cp v h mk tk = Inr fs"
  obtains bs as where "fs = bs @ as" and "fill_bids bids cp v h mk tk = Inr bs"
    and "fill_asks asks cp v h mk tk = Inr as"
  using assms by (auto simp: fill_orders_def result_iff)

subsection \<open>Filling returns\<close>

lemma dec_mul_24_ok: "unat a * unat b < 2 ^ 128 * 10 ^ 24 \<Longrightarrow> \<exists>r. dec_mul 24 a (b :: u128) = Inr r"
proof -
  assume "unat a * unat b < 2 ^ 128 * 10 ^ 24"
  then have "unat a * unat b div 10 ^ 24 < 2 ^ LENGTH(128)" by (simp add: less_mult_imp_div_less)
  then have "dec_mul 24 a b = Inr (of_nat (unat a * unat b div 10 ^ 24))"
    unfolding dec_mul_24 unat_of_nat by simp
  then show ?thesis ..
qed

lemma dec_mul_18_fee:
  fixes a b :: u128
  assumes "unat b \<le> 10 ^ 18"
  obtains r where "dec_mul 18 a b = Inr r" and "unat r \<le> unat a"
proof -
  have "unat a * unat b div 10 ^ 18 \<le> unat a * 10 ^ 18 div 10 ^ 18"
    by (intro div_le_mono mult_le_mono2 assms)
  then have le: "unat a * unat b div 10 ^ 18 \<le> unat a" by simp
  also have "unat a < 2 ^ LENGTH(128)" by (rule unsigned_less)
  finally have "dec_mul 18 a b = Inr (of_nat (unat a * unat b div 10 ^ 18))"
    and "unat (of_nat (unat a * unat b div 10 ^ 18) :: u128) = unat a * unat b div 10 ^ 18"
    unfolding dec_mul_18 unat_of_nat by simp_all
  with le that show thesis by simp
qed

lemma dec_sub_ok: "unat b \<le> unat a \<Longrightarrow> \<exists>r. dec_sub s s a b = Inr (r :: u128)"
  by (simp add: dec_sub_def checked_sub_def word_le_nat_alt)

definition fees_ok :: "udec \<Rightarrow> udec \<Rightarrow> bool" where
  "fees_ok maker taker \<longleftrightarrow> unat maker \<le> 10 ^ 18 \<and> unat taker \<le> 10 ^ 18"

lemma order_fee_rate_ok: "fees_ok mk tk \<Longrightarrow> unat (order_fee_rate ord h mk tk) \<le> 10 ^ 18"
  by (auto simp: fees_ok_def order_fee_rate_def split: option.splits)

text \<open>The notional value of an order at a price fits the quote type.\<close>

definition fits :: "order \<Rightarrow> udec \<Rightarrow> bool" where
  "fits ord p \<longleftrightarrow> unat (o_remaining ord) * unat p < 2 ^ 128 * 10 ^ 24"

lemma fits_part:
  "fits ord p \<Longrightarrow> unat x \<le> unat (o_remaining ord) \<Longrightarrow> unat q \<le> unat p \<Longrightarrow> unat x * unat q < 2 ^ 128 * 10 ^ 24"
  unfolding fits_def by (rule le_less_trans [OF mult_le_mono])

lemma fill_bids_ok:
  assumes "\<And>po. po \<in> set bids \<Longrightarrow> cp \<le> fst po \<and> fits (snd po) (fst po)" and "fees_ok mk tk"
  shows "\<exists>fs. fill_bids bids cp v h mk tk = Inr fs"
  using assms(1)
proof (induction bids arbitrary: v)
  case Nil
  then show ?case by simp
next
  case (Cons po bids)
  obtain p ord where po: "po = (p, ord)" by (cases po)
  define x where "x = min (o_remaining ord) v"
  have x: "unat x \<le> unat (o_remaining ord)" "unat x \<le> unat v" by (simp_all add: x_def unat_min)
  have cp: "unat cp \<le> unat p" and fit: "fits ord p"
    using Cons.prems [of po] by (auto simp: po word_le_nat_alt)
  obtain fq where fq: "dec_mul 24 x cp = Inr fq"
    using dec_mul_24_ok [OF fits_part [OF fit x(1) cp]] ..
  obtain ord' where ord': "order_fill ord x = Inr ord'"
    using dec_sub_ok [OF x(1), of 6] by (auto simp: order_fill_def)
  obtain v' where v': "dec_sub 6 6 v x = Inr v'" using dec_sub_ok [OF x(2)] ..
  obtain fee where fee: "dec_mul 18 x (order_fee_rate ord' h mk tk) = Inr fee" "unat fee \<le> unat x"
    using dec_mul_18_fee order_fee_rate_ok [OF assms(2)] .
  obtain rb where rb: "dec_sub 6 6 x fee = Inr rb" using dec_sub_ok [OF fee(2)] ..
  obtain imp where imp: "dec_sub 24 24 p cp = Inr imp" using dec_sub_ok [OF cp] ..
  then have "unat imp \<le> unat p" by (simp add: math_iff)
  then obtain rq where rq: "dec_mul 24 x imp = Inr rq"
    using dec_mul_24_ok [OF fits_part [OF fit x(1)]] by blast
  obtain rest where "fill_bids bids cp v' h mk tk = Inr rest"
    using Cons.IH [of v'] Cons.prems by auto
  with fq ord' v' fee(1) rb imp rq show ?case by (simp add: po Let_def flip: x_def)
qed

lemma fill_asks_ok:
  assumes "\<And>po. po \<in> set asks \<Longrightarrow> fits (snd po) cp" and "fees_ok mk tk"
  shows "\<exists>fs. fill_asks asks cp v h mk tk = Inr fs"
  using assms(1)
proof (induction asks arbitrary: v)
  case Nil
  then show ?case by simp
next
  case (Cons po asks)
  obtain p ord where po: "po = (p, ord)" by (cases po)
  define x where "x = min (o_remaining ord) v"
  have x: "unat x \<le> unat (o_remaining ord)" "unat x \<le> unat v" by (simp_all add: x_def unat_min)
  have fit: "fits ord cp" using Cons.prems [of po] by (auto simp: po)
  obtain fq where fq: "dec_mul 24 x cp = Inr fq"
    using dec_mul_24_ok [OF fits_part [OF fit x(1) order_refl]] ..
  obtain ord' where ord': "order_fill ord x = Inr ord'"
    using dec_sub_ok [OF x(1), of 6] by (auto simp: order_fill_def)
  obtain v' where v': "dec_sub 6 6 v x = Inr v'" using dec_sub_ok [OF x(2)] ..
  obtain fee where fee: "dec_mul 18 fq (order_fee_rate ord' h mk tk) = Inr fee" "unat fee \<le> unat fq"
    using dec_mul_18_fee order_fee_rate_ok [OF assms(2)] .
  obtain rq where rq: "dec_sub 6 6 fq fee = Inr rq" using dec_sub_ok [OF fee(2)] ..
  obtain rest where "fill_asks asks cp v' h mk tk = Inr rest"
    using Cons.IH [of v'] Cons.prems by auto
  with fq ord' v' fee(1) rq show ?case by (simp add: po Let_def flip: x_def)
qed

subsection \<open>Properties\<close>

text \<open>C5: Filling is solvent: if the volume is covered on both sides, each side is filled for exactly the
  volume; the base paid out equals the base taken from the asks; and the quote set aside for the bids
  covers what stays set aside for their remainders plus every refund, proceeds and fee paid in quote,
  rounding included.\<close>

theorem fill_orders_solvent:
  assumes "fill_orders bids asks cp v h mk tk = Inr fs"
    and "unat v \<le> size_of bids" and "unat v \<le> size_of asks"
  shows "\<exists>bs as. fs = bs @ as \<and> length bs \<le> length bids \<and> length as \<le> length asks \<and>
    filled_total bs = unat v \<and> filled_total as = unat v \<and>
    base_out fs = filled_total as \<and>
    set_aside (left_over bids bs) + quote_out fs \<le> set_aside bids"
proof -
  from fill_orders_Inr [OF assms(1)] obtain bs as where fs: "fs = bs @ as"
    and bs: "fill_bids bids cp v h mk tk = Inr bs" and as: "fill_asks asks cp v h mk tk = Inr as" .
  note b = fill_bids_Inr [OF bs] and a = fill_asks_Inr [OF as]
  have q: "quote_out as \<le> unat v * unat cp"
    using asks_filled_quote [of cp "take (length as) asks" as] a assms(3) by simp
  have "set_aside (left_over bids bs) + unat v * unat cp + quote_out bs \<le> set_aside bids"
    using bids_filled_quote [of cp bs bids] b assms(2) by simp
  with q have "set_aside (left_over bids bs) + quote_out fs \<le> set_aside bids" by (simp add: fs)
  moreover have "base_out fs = unat v"
    using bids_filled_base asks_filled_base a b assms(2) by (fastforce simp: fs)
  ultimately show ?thesis using a b assms(2,3) fs by (intro exI [of _ bs] exI [of _ as]) simp
qed

lemmas fill_eval =
  fill_orders_def Let_def dec_mul_eq_ratio order_fill_def order_fee_rate_def dec_sub_def

lemma fill_orders_solvent_witness:
  "\<exists>fs bs as. fill_orders [(3000000000000000000000000, sample_order Bid 3000000000000000000000000 10)]
      [(1000000000000000000000000, sample_order Ask 1000000000000000000000000 4)]
      2000000000000000000000000 4 5 0 0 = Inr fs \<and> fs = bs @ as \<and>
      filled_total bs = 4 \<and> filled_total as = 4 \<and> base_out fs = filled_total as"
proof -
  let ?b = "[(3000000000000000000000000, sample_order Bid 3000000000000000000000000 10)]"
  let ?a = "[(1000000000000000000000000, sample_order Ask 1000000000000000000000000 4)]"
  obtain fs where fs: "fill_orders ?b ?a 2000000000000000000000000 4 5 0 0 = Inr fs"
    by (simp add: fill_eval dec_eval sample_order_def)
  from fill_orders_solvent [OF fs] show ?thesis using fs by (auto simp: sample_order_def)
qed

text \<open>Filling never fails or panics: if every bid is priced at or above the clearing price, notional
  values fit the type and fee rates are at most one, filling returns.\<close>

lemma fill_orders_returns:
  assumes "\<And>po. po \<in> set bids \<Longrightarrow> cp \<le> fst po \<and> fits (snd po) (fst po)"
    and "\<And>po. po \<in> set asks \<Longrightarrow> fits (snd po) cp" and "fees_ok mk tk"
  shows "\<exists>fs. fill_orders bids asks cp v h mk tk = Inr fs"
proof -
  obtain bs where "fill_bids bids cp v h mk tk = Inr bs" using fill_bids_ok [OF assms(1,3)] by blast
  moreover obtain as where "fill_asks asks cp v h mk tk = Inr as"
    using fill_asks_ok [OF assms(2,3)] by blast
  ultimately show ?thesis by (simp add: fill_orders_def)
qed

lemma fill_orders_returns_witness:
  "\<exists>fs. fill_orders [(3, sample_order Bid 3 10)] [(1, sample_order Ask 1 4)] 2 4 5 1000 2000 = Inr fs"
  by (rule fill_orders_returns) (auto simp: sample_order_def fits_def fees_ok_def)

end
