(* ===== verification/Auction.thy ===== *)
theory Auction
  imports Pools Order_Filling
begin

text \<open>
  The batch auction at the end of every block, \<^verbatim>\<open>dango/dex/src/cron.rs\<close>, and the entry points of the
  exchange. The arguments the functions of the source pass around by mutable reference (the storage,
  the events, refunds, fees, fee payments and volumes) are the fields of one record \<open>auction_state\<close>. A
  hash map of the source is an ordered map: its entries are only looked up and, at the end, written to
  different storage keys, so its order has no effect.
\<close>

record auction_state =
  au_state :: dex_state
  au_events :: "dex_event list"
  au_refunds :: dec_transfers
  au_volumes :: "(addr, udec) omap"
  au_volumes_by_username :: "(username, udec) omap"
  au_fees :: dec_coins
  au_payments :: dec_transfers

definition half :: udec where
  "half = 500000000000000000"

subsection \<open>Volumes\<close>

text \<open>The latest saved volume of a key: the timestamps are the second part of the storage key.\<close>

definition latest_volume :: "'k \<Rightarrow> ('k \<times> u128, udec) omap \<Rightarrow> udec" where
  "latest_volume k saved = (case rev (filter (\<lambda>e. fst (fst e) = k) saved) of [] \<Rightarrow> 0 | e # _ \<Rightarrow> snd e)"

definition add_volume :: "('k \<times> u128, udec) omap \<Rightarrow> 'k::linorder \<Rightarrow> udec \<Rightarrow> ('k, udec) omap \<Rightarrow> ('k, udec) omap res" where
  "add_volume saved k new_volume volumes =
     and_then (case map_of volumes k of
         Some v \<Rightarrow> dec_add 6 6 v new_volume
       | None \<Rightarrow> dec_add 6 6 (latest_volume k saved) new_volume) (\<lambda>volume.
       Inr (om_insert k volume volumes))"

definition update_trading_volumes ::
    "dex_env \<Rightarrow> oracle_fun \<Rightarrow> denom \<Rightarrow> udec \<Rightarrow> addr \<Rightarrow> auction_state \<Rightarrow> auction_state res" where
  "update_trading_volumes env oracle base_denom filled order_user au =
     (case oracle base_denom of
        Inl _ \<Rightarrow> Inr au
      | Inr base_asset_price \<Rightarrow>
          and_then (value_of_dec_amount 6 6 base_asset_price filled) (\<lambda>new_volume.
          and_then (add_volume (dx_volumes (au_state au)) order_user new_volume (au_volumes au)) (\<lambda>volumes.
          and_then (de_volume_user env order_user) (\<lambda>maybe_username.
            (case maybe_username of
               None \<Rightarrow> Inr (au\<lparr>au_volumes := volumes\<rparr>)
             | Some username \<Rightarrow>
                 and_then (add_volume (dx_volumes_by_user (au_state au)) username new_volume
                     (au_volumes_by_username au)) (\<lambda>by_username.
                   Inr (au\<lparr>au_volumes := volumes, au_volumes_by_username := by_username\<rparr>)))))))"

subsection \<open>Handling the filled orders\<close>

definition fill_user_order :: "pair_key \<Rightarrow> filling_outcome \<Rightarrow> auction_state \<Rightarrow> auction_state res" where
  "fill_user_order = (\<lambda>(base_denom, quote_denom) f au.
     (let user = o_user (fo_order f);
          pay = (\<lambda>d fee (fees, payments).
            if is_non_zero fee
            then and_then (dec_coins_insert 6 fees (mk_dec_coin d fee)) (\<lambda>fees'.
                 and_then (transfers_insert 6 payments user d fee) (\<lambda>payments'.
                   Inr (fees', payments')))
            else Inr (fees, payments)) in
     and_then (pay base_denom (fo_fee_base f) (au_fees au, au_payments au)) (\<lambda>fp.
     and_then (pay quote_denom (fo_fee_quote f) fp) (\<lambda>(fees, payments).
     and_then (transfers_insert 6 (au_refunds au) user base_denom (fo_refund_base f)) (\<lambda>refunds.
     and_then (transfers_insert 6 refunds user quote_denom (fo_refund_quote f)) (\<lambda>refunds'.
       Inr (au\<lparr>au_refunds := refunds', au_fees := fees, au_payments := payments\<rparr>)))))))"

definition fill_passive_order ::
    "pair_key \<Rightarrow> filling_outcome \<Rightarrow> dec_coins \<times> dec_coins \<Rightarrow> (dec_coins \<times> dec_coins) res" where
  "fill_passive_order = (\<lambda>(base_denom, quote_denom) f (inflows, outflows).
     (case o_direction (fo_order f) of
        Bid \<Rightarrow>
          and_then (dec_coins_insert 6 inflows (mk_dec_coin base_denom (fo_filled_base f))) (\<lambda>inflows'.
          and_then (dec_coins_insert 6 outflows (mk_dec_coin quote_denom (fo_filled_quote f))) (\<lambda>outflows'.
            Inr (inflows', outflows')))
      | Ask \<Rightarrow>
          and_then (dec_coins_insert 6 inflows (mk_dec_coin quote_denom (fo_filled_quote f))) (\<lambda>inflows'.
          and_then (dec_coins_insert 6 outflows (mk_dec_coin base_denom (fo_filled_base f))) (\<lambda>outflows'.
            Inr (inflows', outflows')))))"

text \<open>The event and the transfer are skipped when there is nothing to refund.\<close>

definition refund_ioc_order :: "pair_key \<Rightarrow> order \<Rightarrow> auction_state \<Rightarrow> auction_state res" where
  "refund_ioc_order pair ord au =
     and_then (case o_direction ord of
         Bid \<Rightarrow> and_then (checked_mul_dec_floor 24 (o_remaining ord) (o_price ord)) (\<lambda>remaining_in_quote.
                 Inr (mk_dec_coin (snd pair) remaining_in_quote))
       | Ask \<Rightarrow> Inr (mk_dec_coin (fst pair) (o_remaining ord))) (\<lambda>refund.
     if is_non_zero (dc_amount refund)
     then and_then (transfers_insert 6 (au_refunds au) (o_user ord) (dc_denom refund) (dc_amount refund)) (\<lambda>refunds.
       Inr (au\<lparr>au_refunds := refunds,
         au_events := au_events au @ [OrderCanceled
           \<lparr>ox_user = o_user ord, ox_id = o_id ord, ox_tif = o_tif ord, ox_remaining = o_remaining ord,
            ox_refund = refund, ox_pair = pair, ox_direction = o_direction ord, ox_price = o_price ord,
            ox_amount = o_amount ord\<rparr>]\<rparr>))
     else Inr au)"

definition order_key_of :: "pair_key \<Rightarrow> order \<Rightarrow> order_key" where
  "order_key_of pair ord = (pair, o_direction ord, o_price ord, o_id ord)"

definition order_filled_event :: "pair_key \<Rightarrow> filling_outcome \<Rightarrow> dex_event" where
  "order_filled_event pair f =
     (let ord = fo_order f in OrderFilled
        \<lparr>of_user = o_user ord, of_id = o_id ord, of_tif = o_tif ord, of_pair = pair,
         of_direction = o_direction ord, of_filled_base = fo_filled_base f, of_filled_quote = fo_filled_quote f,
         of_refund_base = fo_refund_base f, of_refund_quote = fo_refund_quote f, of_fee_base = fo_fee_base f,
         of_fee_quote = fo_fee_quote f, of_clearing_price = fo_clearing_price f,
         of_cleared = is_zero (o_remaining ord)\<rparr>)"

text \<open>A filled order of a user is updated in the book, or deleted when nothing remains; an
  immediate-or-cancel order is deleted and its remainder refunded.\<close>

definition settle_user_order :: "pair_key \<Rightarrow> udec list \<Rightarrow> filling_outcome \<Rightarrow> auction_state \<Rightarrow> auction_state res" where
  "settle_user_order pair bucket_sizes f au =
     (let ord = fo_order f; key = order_key_of pair ord in
      case o_tif ord of
        GoodTilCanceled \<Rightarrow>
          and_then (depths_down (au_state au) key (fo_filled_base f) bucket_sizes) (\<lambda>st.
          and_then (if is_zero (o_remaining ord) then book_remove st key else book_save st key ord) (\<lambda>st'.
            Inr (au\<lparr>au_state := st'\<rparr>)))
      | ImmediateOrCancel \<Rightarrow>
          and_then (refund_ioc_order pair ord au) (\<lambda>au'.
          and_then (book_remove (au_state au') key) (\<lambda>st'.
            Inr (au'\<lparr>au_state := st'\<rparr>))))"

definition handle_outcome ::
    "dex_env \<Rightarrow> oracle_fun \<Rightarrow> pair_key \<Rightarrow> udec list \<Rightarrow> auction_state \<times> dec_coins \<times> dec_coins \<Rightarrow> filling_outcome \<Rightarrow>
     (auction_state \<times> dec_coins \<times> dec_coins) res" where
  "handle_outcome env oracle pair bucket_sizes = (\<lambda>(au, flows) f.
     and_then
       (if o_user (fo_order f) \<noteq> de_dex env
        then and_then (fill_user_order pair f au) (\<lambda>au1.
             and_then (settle_user_order pair bucket_sizes f au1) (\<lambda>au2. Inr (au2, flows)))
        else and_then (fill_passive_order pair f flows) (\<lambda>flows'. Inr (au, flows'))) (\<lambda>(au3, flows').
     and_then (update_trading_volumes env oracle (fst pair) (fo_filled_base f) (o_user (fo_order f))
         (au3\<lparr>au_events := au_events au3 @ [order_filled_event pair f]\<rparr>)) (\<lambda>au4.
       Inr (au4, flows'))))"

subsection \<open>One pair\<close>

text \<open>A passive order of the pool enters the book.\<close>

definition place_passive_order ::
    "addr \<Rightarrow> pair_key \<Rightarrow> udec list \<Rightarrow> direction \<Rightarrow> dex_state \<Rightarrow> udec \<times> u128 \<Rightarrow> dex_state res" where
  "place_passive_order dex pair bucket_sizes dir st = (\<lambda>(price, amount).
     and_then (next_order_id st) (\<lambda>(next_id, st1).
     (let order_id = (if dir = Bid then NOT next_id else next_id); key = (pair, dir, price, order_id) in
     and_then (checked_into_dec 6 amount) (\<lambda>remaining.
     and_then (depths_up st1 key remaining bucket_sizes) (\<lambda>st2.
       book_save st2 key
         \<lparr>o_user = dex, o_id = order_id, o_direction = dir, o_tif = GoodTilCanceled, o_price = price,
          o_amount = amount, o_remaining = remaining, o_created = None\<rparr>)))))"

text \<open>When the curve cannot be reflected, for instance because the oracle is down, there are no passive
  orders.\<close>

definition place_passive_orders ::
    "addr \<Rightarrow> oracle_fun \<Rightarrow> pair_key \<Rightarrow> udec list \<Rightarrow> dex_state \<Rightarrow> dex_state res" where
  "place_passive_orders dex oracle pair bucket_sizes st =
     (case map_of (dx_reserves st) pair of
        None \<Rightarrow> Inr st
      | Some reserve \<Rightarrow>
          and_then (om_load (dx_pairs st) pair) (\<lambda>params.
            (case pool_reflect_curve oracle params pair reserve of
               Inl _ \<Rightarrow> Inr st
             | Inr (passive_bids, passive_asks) \<Rightarrow>
                 and_then (try_fold (place_passive_order dex pair bucket_sizes Bid) st passive_bids) (\<lambda>st'.
                   try_fold (place_passive_order dex pair bucket_sizes Ask) st' passive_asks))))"

text \<open>The orders of one side of a pair, in ascending order of price and id.\<close>

definition side_orders :: "dex_state \<Rightarrow> pair_key \<Rightarrow> direction \<Rightarrow> priced_order list" where
  "side_orders st pair dir =
     map (\<lambda>((_, _, price, _), ord). (price, ord))
       (filter (\<lambda>((p, d, _, _), _). p = pair \<and> d = dir) (orders_of st))"

definition choose_clearing_price :: "udec option \<Rightarrow> udec \<Rightarrow> udec \<Rightarrow> udec res" where
  "choose_clearing_price mid lower_price upper_price =
     (case mid of
        Some mid_price \<Rightarrow>
          Inr (if mid_price < lower_price then lower_price
               else if mid_price > upper_price then upper_price
               else mid_price)
      | None \<Rightarrow> and_then (dec_add 24 24 lower_price upper_price) (\<lambda>p. dec_mul 18 p half))"

definition dec_coins_is_empty :: "dec_coins \<Rightarrow> bool" where
  "dec_coins_is_empty cs \<longleftrightarrow> cs = []"

definition update_reserve :: "pair_key \<Rightarrow> dec_coins \<Rightarrow> dec_coins \<Rightarrow> dex_state \<Rightarrow> dex_state res" where
  "update_reserve pair inflows outflows st =
     (if dec_coins_is_empty inflows \<and> dec_coins_is_empty outflows then Inr st
      else
        and_then (om_load (dx_reserves st) pair) (\<lambda>reserve.
        and_then (into_coins_floor 6 inflows) (\<lambda>ins.
        and_then (try_fold coin_pair_add reserve (coins_iter ins)) (\<lambda>reserve1.
        and_then (into_coins_ceil 6 outflows) (\<lambda>outs.
        and_then (try_fold coin_pair_sub reserve1 (coins_iter outs)) (\<lambda>reserve2.
          Inr (st\<lparr>dx_reserves := om_insert pair reserve2 (dx_reserves st)\<rparr>)))))))"

definition cancel_ioc_order :: "pair_key \<Rightarrow> auction_state \<Rightarrow> order \<Rightarrow> auction_state res" where
  "cancel_ioc_order pair au ord =
     and_then (book_remove (au_state au) (order_key_of pair ord)) (\<lambda>st.
       refund_ioc_order pair ord (au\<lparr>au_state := st\<rparr>))"

definition cancel_ioc_orders :: "pair_key \<Rightarrow> auction_state \<Rightarrow> auction_state res" where
  "cancel_ioc_orders pair au =
     and_then (multi_range (orders_of (au_state au)) (im_second (dx_orders (au_state au))) ImmediateOrCancel)
       (\<lambda>entries. try_fold (cancel_ioc_order pair) au (map snd (filter (\<lambda>((p, _), _). p = pair) entries)))"

definition save_resting_book :: "pair_key \<Rightarrow> dex_state \<Rightarrow> dex_state res" where
  "save_resting_book pair st =
     (let best_bid_price = map_option fst (fst (iter_next (rev (side_orders st pair Bid))));
          best_ask_price = map_option fst (fst (iter_next (side_orders st pair Ask))) in
     and_then (case (best_bid_price, best_ask_price) of
         (Some bid, Some ask) \<Rightarrow>
           and_then (dec_add 24 24 bid ask) (\<lambda>p. and_then (dec_mul 18 p half) (\<lambda>m. Inr (Some m)))
       | (Some bid, None) \<Rightarrow> Inr (Some bid)
       | (None, Some ask) \<Rightarrow> Inr (Some ask)
       | (None, None) \<Rightarrow> Inr None) (\<lambda>mid_price.
       Inr (st\<lparr>dx_resting := om_insert pair
         \<lparr>rb_best_bid_price = best_bid_price, rb_best_ask_price = best_ask_price, rb_mid_price = mid_price\<rparr>
         (dx_resting st)\<rparr>)))"

text \<open>Matching and filling: the outcomes, and the event of a match.\<close>

definition match_and_fill ::
    "dex_env \<Rightarrow> u64 \<Rightarrow> pair_key \<Rightarrow> dex_state \<Rightarrow> (dex_event list \<times> filling_outcome list) res" where
  "match_and_fill env height pair st =
     and_then (match_orders (rev (side_orders st pair Bid)) (side_orders st pair Ask)) (\<lambda>m.
       (case mo_range m of
          None \<Rightarrow> Inr ([], [])
        | Some (lower_price, upper_price) \<Rightarrow>
            and_then (choose_clearing_price
                (case map_of (dx_resting st) pair of None \<Rightarrow> None | Some b \<Rightarrow> rb_mid_price b)
                lower_price upper_price) (\<lambda>clearing_price.
            and_then (fill_orders (mo_bids m) (mo_asks m) clearing_price (mo_volume m) height
                (de_maker_fee_rate env) (de_taker_fee_rate env)) (\<lambda>outcomes.
              Inr ([OrdersMatched pair clearing_price (mo_volume m)], outcomes)))))"

definition clear_orders_of_pair ::
    "dex_env \<Rightarrow> oracle_fun \<Rightarrow> u64 \<Rightarrow> auction_state \<Rightarrow> pair_key \<times> pair_params \<Rightarrow> auction_state res" where
  "clear_orders_of_pair env oracle height au = (\<lambda>(pair, params).
     (let bucket_sizes = pp_bucket_sizes params in
     and_then (place_passive_orders (de_dex env) oracle pair bucket_sizes (au_state au)) (\<lambda>st1.
     and_then (match_and_fill env height pair st1) (\<lambda>(matched, outcomes).
     and_then (try_fold (handle_outcome env oracle pair bucket_sizes)
         (au\<lparr>au_state := st1, au_events := au_events au @ matched\<rparr>, dec_coins_new, dec_coins_new) outcomes)
       (\<lambda>(au2, inflows, outflows).
     and_then (update_reserve pair inflows outflows (au_state au2)) (\<lambda>st3.
     and_then (cancel_ioc_orders pair (au2\<lparr>au_state := st3\<rparr>)) (\<lambda>au4.
     and_then (save_resting_book pair (au_state au4)) (\<lambda>st5.
       Inr (au4\<lparr>au_state := st5\<rparr>)))))))))"

subsection \<open>The auction\<close>

text \<open>A pair that is no longer listed makes the lookup of its parameters panic.\<close>

definition delete_passive_order :: "(pair_key, pair_params) omap \<Rightarrow> dex_state \<Rightarrow> order_key \<times> order \<Rightarrow> dex_state res" where
  "delete_passive_order pairs st = (\<lambda>(key, ord).
     and_then (ok_or Panic (map_of pairs (fst key))) (\<lambda>params.
     and_then (depths_down st key (o_remaining ord) (pp_bucket_sizes params)) (\<lambda>st'.
       book_remove st' key)))"

definition delete_passive_orders :: "addr \<Rightarrow> dex_state \<Rightarrow> dex_state res" where
  "delete_passive_orders dex st =
     and_then (multi_range (orders_of st) (im_first (dx_orders st)) dex) (\<lambda>entries.
       try_fold (delete_passive_order (dx_pairs st)) st entries)"

definition save_volumes :: "u128 \<Rightarrow> auction_state \<Rightarrow> dex_state" where
  "save_volumes now au =
     (au_state au)\<lparr>dx_volumes := fold (\<lambda>(k, v). om_insert (k, now) v) (au_volumes au) (dx_volumes (au_state au)),
       dx_volumes_by_user :=
         fold (\<lambda>(k, v). om_insert (k, now) v) (au_volumes_by_username au) (dx_volumes_by_user (au_state au))\<rparr>"

definition auction :: "dex_env \<Rightarrow> ctx \<Rightarrow> dex_state \<Rightarrow> dex_result" where
  "auction env cx st =
     and_then (dex_oracle env cx) (\<lambda>oracle.
     and_then (delete_passive_orders (de_dex env) st) (\<lambda>st1.
     and_then (try_fold (clear_orders_of_pair env oracle (ctx_height cx))
         \<lparr>au_state = st1, au_events = [], au_refunds = transfers_new, au_volumes = [],
          au_volumes_by_username = [], au_fees = dec_coins_new, au_payments = transfers_new\<rparr> (dx_pairs st))
       (\<lambda>au.
     and_then (transfers_into_batch 6 (au_refunds au)) (\<lambda>refunds.
     and_then (into_coins_floor 6 (au_fees au)) (\<lambda>fees.
     and_then (transfers_into_batch 6 (au_payments au)) (\<lambda>payments.
       Inr (save_volumes (ctx_time cx) au,
         (if refunds \<noteq> [] then [DexTransfer refunds] else []) @
         (if coins_is_non_empty fees then [DexPay FeeTrade payments fees] else []),
         au_events au)))))))"

text \<open>The auction is run as a message to the exchange itself, whose failure is answered by a reply that
  pauses trading.\<close>

definition cron_execute :: "dex_state \<Rightarrow> dex_result" where
  "cron_execute st = (if dx_paused st then Inr (st, [], []) else Inr (st, [DexAuction], []))"

definition dex_reply :: "dex_state \<Rightarrow> error \<Rightarrow> dex_result" where
  "dex_reply st e = Inr (st\<lparr>dx_paused := True\<rparr>, [], [DexPaused (Some e)])"

subsection \<open>Dispatch (execute.rs)\<close>

datatype owner_msg = SetPaused bool | BatchUpdatePairs "pair_update list" | ForceCancelOrders

datatype dex_execute_msg =
    OwnerMsg owner_msg
  | AuctionMsg
  | BatchUpdateOrders "create_order_request list" "cancel_order_request option"
  | ProvideLiquidity pair_key
  | WithdrawLiquidity pair_key
  | SwapExactAmountIn "pair_key list" "u128 option"
  | SwapExactAmountOut "pair_key list" coin

fun owner_execute :: "dex_env \<Rightarrow> ctx \<Rightarrow> dex_state \<Rightarrow> owner_msg \<Rightarrow> dex_result" where
  "owner_execute env cx st (SetPaused True) = dex_pause st"
| "owner_execute env cx st (SetPaused False) = dex_unpause st"
| "owner_execute env cx st (BatchUpdatePairs updates) = batch_update_pairs (de_owner env) cx st updates"
| "owner_execute env cx st ForceCancelOrders = force_cancel_orders st"

fun dex_execute :: "dex_env \<Rightarrow> ctx \<Rightarrow> dex_state \<Rightarrow> dex_execute_msg \<Rightarrow> dex_result" where
  "dex_execute env cx st (OwnerMsg msg) =
     and_then (de_owner env) (\<lambda>chain_owner.
     and_then (ensure (ctx_sender cx = chain_owner) Unauthorized) (\<lambda>_. owner_execute env cx st msg))"
| "dex_execute env cx st AuctionMsg =
     and_then (ensure (ctx_sender cx = ctx_contract cx) Unauthorized) (\<lambda>_. auction env cx st)"
| "dex_execute env cx st (BatchUpdateOrders reqs cancels) = batch_update_orders cx st reqs cancels"
| "dex_execute env cx st (ProvideLiquidity pair) = provide_liquidity env cx st pair"
| "dex_execute env cx st (WithdrawLiquidity pair) = withdraw_liquidity env cx st pair"
| "dex_execute env cx st (SwapExactAmountIn route minimum_output) = dex_swap_in env cx st route minimum_output"
| "dex_execute env cx st (SwapExactAmountOut route amount_out) = dex_swap_out env cx st route amount_out"

definition dex_initial :: dex_state where
  "dex_initial = \<lparr>dx_paused = False, dx_pairs = [], dx_reserves = [], dx_resting = [], dx_next_order_id = None,
     dx_orders = indexed_new, dx_depths = [], dx_volumes = [], dx_volumes_by_user = []\<rparr>"

definition dex_instantiate :: "dex_env \<Rightarrow> ctx \<Rightarrow> pair_update list \<Rightarrow> dex_result" where
  "dex_instantiate env cx pairs = batch_update_pairs (de_owner env) cx (dex_initial\<lparr>dx_paused := False\<rparr>) pairs"

end
