(* ===== verification/Book_Invariant.thy ===== *)
theory Book_Invariant
  imports Order_Book
begin

text \<open>
  The invariant of the order book: keys agree with the orders they lead to, ids come from the counter,
  and the depth chart counts exactly the orders in the book. The depth chart is claimed for a set \<open>T\<close> of
  tracked pairs only: when the owner changes the bucket sizes of a pair whose orders rest, the code leaves
  the chart as it is, and the pair drops out of \<open>T\<close>; everything else in the invariant holds for all pairs.
  \<open>depths_track\<close> is stated over the entries of the book, the depths and the bucket sizes of each pair,
  so that creation, cancellation and filling use the same three lemmas: an order comes, an order
  goes, an order shrinks. \<open>book_debt\<close> is what the exchange owes to the owners of the orders.
\<close>

subsection \<open>The depth chart counts the orders\<close>

definition counts :: "(pair_key \<Rightarrow> udec list) \<Rightarrow> depth_key \<Rightarrow> order_key \<Rightarrow> order \<Rightarrow> bool" where
  "counts buckets key = (\<lambda>(pair, dir, price, _) ord.
     o_tif ord = GoodTilCanceled \<and> in_bucket (buckets pair) pair dir price key)"

definition base_weight :: "(pair_key \<Rightarrow> udec list) \<Rightarrow> depth_key \<Rightarrow> order_key \<Rightarrow> order \<Rightarrow> nat" where
  "base_weight buckets key k ord = (if counts buckets key k ord then unat (o_remaining ord) else 0)"

text \<open>The value of an amount of base at a price, in units of quote of \<open>10 ^ -6\<close>.\<close>

definition value_at :: "udec \<Rightarrow> udec \<Rightarrow> nat" where
  "value_at amount price = unat amount * unat price div 10 ^ 24"

definition key_price :: "order_key \<Rightarrow> udec" where
  "key_price = (\<lambda>(_, _, price, _). price)"

lemma key_price_simps [simp]: "key_price (pair, dir, price, order_id) = price"
  by (simp add: key_price_def)

definition quote_weight :: "(pair_key \<Rightarrow> udec list) \<Rightarrow> depth_key \<Rightarrow> order_key \<Rightarrow> order \<Rightarrow> nat" where
  "quote_weight buckets key k ord =
     (if counts buckets key k ord then value_at (o_remaining ord) (key_price k) else 0)"

definition depths_track ::
    "pair_key set \<Rightarrow> (pair_key \<Rightarrow> udec list) \<Rightarrow> (order_key, order) omap \<Rightarrow> depths \<Rightarrow> bool" where
  "depths_track T buckets m ds \<longleftrightarrow> om_ok ds \<and> (\<forall>key. fst key \<in> T \<longrightarrow>
     depth_base ds key = om_sum (base_weight buckets key) m \<and>
     om_sum (quote_weight buckets key) m \<le> depth_quote ds key)"

lemma dec_mul_value: "dec_mul 24 a p = Inr q \<longleftrightarrow> unat q = value_at a p"
  by (simp add: dec_rounding_128 value_at_def)

lemma dec_mul_value_ex: "(\<exists>q. dec_mul 24 a p = Inr q) \<longleftrightarrow> value_at a p < 2 ^ 128"
proof
  assume "value_at a p < 2 ^ 128"
  then have "unat (of_nat (value_at a p) :: u128) = value_at a p" by (simp add: unat_of_nat)
  then show "\<exists>q. dec_mul 24 a p = Inr q" by (auto simp only: dec_mul_value)
next
  assume "\<exists>q. dec_mul 24 a p = Inr q"
  then obtain q :: u128 where "unat q = value_at a p" by (auto simp only: dec_mul_value)
  with unat_less_pow [of q] show "value_at a p < 2 ^ 128" by simp
qed

lemma value_at_split:
  assumes "unat a = unat b + unat c"
  shows "value_at b p + value_at c p \<le> value_at a p"
  using div_add_le [of "unat b * unat p" "10 ^ 24" "unat c * unat p"]
  by (simp add: value_at_def assms add_mult_distrib)

lemma depths_trackI:
  assumes "om_ok ds"
    and "\<And>key. fst key \<in> T \<Longrightarrow> depth_base ds key = om_sum (base_weight buckets key) m \<and>
      om_sum (quote_weight buckets key) m \<le> depth_quote ds key"
  shows "depths_track T buckets m ds"
  using assms unfolding depths_track_def by blast

lemma depths_trackD:
  assumes "depths_track T buckets m ds"
  shows "om_ok ds" "fst key \<in> T \<Longrightarrow> depth_base ds key = om_sum (base_weight buckets key) m"
    "fst key \<in> T \<Longrightarrow> om_sum (quote_weight buckets key) m \<le> depth_quote ds key"
  using assms unfolding depths_track_def by blast+

lemma depths_track_subset: "depths_track T buckets m ds \<Longrightarrow> T' \<subseteq> T \<Longrightarrow> depths_track T' buckets m ds"
  unfolding depths_track_def by blast

lemma depth_shiftD:
  assumes "depth_shift ds ds' hit base quote"
  shows "depth_base ds' key = depth_base ds key + (if hit key then base else 0)"
    "depth_quote ds' key = depth_quote ds key + (if hit key then quote else 0)"
  using assms unfolding depth_shift_def by blast+

lemmas weight_defs = base_weight_def quote_weight_def counts_def

text \<open>An order comes.\<close>

lemma depths_track_insert:
  assumes "om_ok m" and "depths_track T buckets m ds" and "map_of m k = None"
    and "k = (pair, dir, price, order_id)" and "distinct (buckets pair)"
    and "if o_tif ord = GoodTilCanceled
      then increase_liquidity_depths ds pair dir price (o_remaining ord) (buckets pair) = Inr ds' else ds' = ds"
  shows "depths_track T buckets (om_insert k ord m) ds'"
proof -
  note ds = depths_trackD(1) [OF assms(2)]
  have sums: "om_sum w (om_insert k ord m) = om_sum w m + w k ord" for w
    using om_sum_insert [OF assms(1), of w k ord] assms(3) by simp
  show ?thesis
  proof (cases "o_tif ord = GoodTilCanceled")
    case True
    with assms(6) have "increase_liquidity_depths ds pair dir price (o_remaining ord) (buckets pair) = Inr ds'"
      by simp
    from increase_liquidity_depths_Inr [OF this ds assms(5)] obtain q :: udec where ds': "om_ok ds'"
      and q: "unat q = value_at (o_remaining ord) price"
      and sh: "depth_shift ds ds' (in_bucket (buckets pair) pair dir price) (unat (o_remaining ord)) (unat q)"
      unfolding dec_mul_value by blast
    show ?thesis
      by (rule depths_trackI [OF ds'])
        (use True q depth_shiftD [OF sh] depths_trackD [OF assms(2)] in
          \<open>simp add: sums [unfolded assms(4)] weight_defs assms(4)\<close>)
  next
    case False
    then have "ds' = ds" using assms(6) by simp
    then show ?thesis
      by (intro depths_trackI) (use False depths_trackD [OF assms(2)] in \<open>simp_all add: sums [unfolded assms(4)] weight_defs assms(4)\<close>)
  qed
qed

text \<open>An order goes.\<close>

lemma depths_track_remove:
  assumes "om_ok m" and "depths_track T buckets m ds" and "map_of m k = Some ord"
    and "k = (pair, dir, price, order_id)" and "distinct (buckets pair)"
    and "if o_tif ord = GoodTilCanceled
      then decrease_liquidity_depths ds pair dir price (o_remaining ord) (buckets pair) = Inr ds' else ds' = ds"
  shows "depths_track T buckets (om_remove k m) ds'"
proof -
  note ds = depths_trackD(1) [OF assms(2)]
  have sums: "om_sum w (om_remove k m) + w k ord = om_sum w m" for w
    using om_sum_remove [OF assms(1), of w k] assms(3) by simp
  show ?thesis
  proof (cases "o_tif ord = GoodTilCanceled")
    case True
    with assms(6) have "decrease_liquidity_depths ds pair dir price (o_remaining ord) (buckets pair) = Inr ds'"
      by simp
    from decrease_liquidity_depths_Inr [OF this ds assms(5)] obtain q :: udec where ds': "om_ok ds'"
      and q: "unat q = value_at (o_remaining ord) price"
      and sh: "depth_shift ds' ds (in_bucket (buckets pair) pair dir price) (unat (o_remaining ord)) (unat q)"
      unfolding dec_mul_value by blast
    have "depth_base ds' key = om_sum (base_weight buckets key) (om_remove k m) \<and>
        om_sum (quote_weight buckets key) (om_remove k m) \<le> depth_quote ds' key" if "fst key \<in> T" for key
      using sums [of "base_weight buckets key"] sums [of "quote_weight buckets key"]
        depths_trackD(2,3) [OF assms(2) that] depth_shiftD [OF sh, of key] q True
      by (auto simp: weight_defs assms(4) split: if_splits)
    with ds' show ?thesis by (rule depths_trackI)
  next
    case False
    have "om_sum (base_weight buckets key) (om_remove k m) = om_sum (base_weight buckets key) m"
      "om_sum (quote_weight buckets key) (om_remove k m) = om_sum (quote_weight buckets key) m" for key
      using sums [of "base_weight buckets key"] sums [of "quote_weight buckets key"] False
      by (simp_all add: weight_defs assms(4))
    moreover have "ds' = ds" using assms(6) False by simp
    ultimately show ?thesis by (intro depths_trackI) (use depths_trackD [OF assms(2)] in simp_all)
  qed
qed

lemma entry_weight_le:
  assumes "om_ok m" and "map_of m k = Some ord"
  shows "w k ord \<le> om_sum w m"
  using om.weight_le_total [OF assms(1), of w k] assms(2) by simp

text \<open>The depths of a non-empty order on a tracked pair can always be decreased, by any part of its
  remainder.\<close>

lemma depths_track_decrease_total:
  assumes "om_ok m" and "depths_track T buckets m ds" and "map_of m k = Some ord"
    and "k = (pair, dir, price, order_id)" and "distinct (buckets pair)"
    and "o_tif ord = GoodTilCanceled" and "o_remaining ord \<noteq> 0"
    and "value_at (o_remaining ord) price < 2 ^ 128"
    and "\<And>b. b \<in> set (buckets pair) \<Longrightarrow> \<exists>n. get_bucket b dir price = Inr n"
    and "amount \<le> o_remaining ord" and "pair \<in> T"
  shows "\<exists>ds'. decrease_liquidity_depths ds pair dir price amount (buckets pair) = Inr ds'"
proof -
  have le: "unat amount \<le> unat (o_remaining ord)" using assms(10) by (simp add: word_le_nat_alt)
  then have v: "value_at amount price \<le> value_at (o_remaining ord) price"
    unfolding value_at_def by (intro div_le_mono mult_le_mono1)
  then obtain q where q: "dec_mul 24 amount price = Inr q"
    using assms(8) dec_mul_value_ex [of amount price] by auto
  show ?thesis
  proof (rule decrease_liquidity_depths_total [OF _ assms(5) q assms(9)])
    show "om_ok ds" by (rule depths_trackD [OF assms(2)])
    fix key assume key: "in_bucket (buckets pair) pair dir price key"
    have t: "fst key \<in> T" using key assms(11) by (auto simp: in_bucket_def)
    have w: "base_weight buckets key k ord = unat (o_remaining ord)"
      "quote_weight buckets key k ord = value_at (o_remaining ord) price"
      using key by (simp_all add: base_weight_def quote_weight_def counts_def assms(4,6))
    have b: "unat (o_remaining ord) \<le> depth_base ds key"
      using entry_weight_le [OF assms(1,3), of "base_weight buckets key"] w(1)
      by (simp add: depths_trackD(2) [OF assms(2) t])
    moreover have "value_at (o_remaining ord) price \<le> depth_quote ds key"
      using entry_weight_le [OF assms(1,3), of "quote_weight buckets key"] w(2)
        depths_trackD(3) [OF assms(2) t] by simp
    moreover have "map_of ds key \<noteq> None"
      using b assms(7) by (cases "map_of ds key") (auto simp: depth_base_def unat_eq_zero)
    ultimately show "map_of ds key \<noteq> None \<and> unat amount \<le> depth_base ds key \<and> unat q \<le> depth_quote ds key"
      using le v q by (simp add: dec_mul_value)
  qed
qed

text \<open>An order shrinks by a filled amount.\<close>

lemma depths_track_shrink:
  assumes "om_ok m" and "depths_track T buckets m ds" and "map_of m k = Some ord"
    and "k = (pair, dir, price, order_id)" and "distinct (buckets pair)" and "o_tif ord = GoodTilCanceled"
    and "unat (o_remaining ord) = unat amount + unat left"
    and "decrease_liquidity_depths ds pair dir price amount (buckets pair) = Inr ds'"
  shows "depths_track T buckets (om_insert k (ord\<lparr>o_remaining := left\<rparr>) m) ds'"
proof -
  let ?ord = "ord\<lparr>o_remaining := left\<rparr>"
  note ds = depths_trackD(1) [OF assms(2)]
  have sums: "om_sum w (om_insert k ?ord m) + w k ord = om_sum w m + w k ?ord" for w
    using om_sum_insert [OF assms(1), of w k ?ord] assms(3) by simp
  from decrease_liquidity_depths_Inr [OF assms(8) ds assms(5)] obtain q :: udec where ds': "om_ok ds'"
    and q: "unat q = value_at amount price"
    and sh: "depth_shift ds' ds (in_bucket (buckets pair) pair dir price) (unat amount) (unat q)"
    unfolding dec_mul_value by blast
  note split = value_at_split [OF assms(7), of price]
  have "depth_base ds' key = om_sum (base_weight buckets key) (om_insert k ?ord m) \<and>
      om_sum (quote_weight buckets key) (om_insert k ?ord m) \<le> depth_quote ds' key" if "fst key \<in> T" for key
    using sums [of "base_weight buckets key"] sums [of "quote_weight buckets key"] assms(6,7) q split
      depths_trackD(2,3) [OF assms(2) that] depth_shiftD [OF sh, of key]
    by (auto simp: weight_defs assms(4) split: if_splits)
  with ds' show ?thesis by (rule depths_trackI)
qed

subsection \<open>The invariant\<close>

definition buckets_of :: "dex_state \<Rightarrow> pair_key \<Rightarrow> udec list" where
  "buckets_of st pair = (case map_of (dx_pairs st) pair of None \<Rightarrow> [] | Some params \<Rightarrow> pp_bucket_sizes params)"

definition next_id :: "dex_state \<Rightarrow> nat" where
  "next_id st = (case dx_next_order_id st of None \<Rightarrow> 1 | Some v \<Rightarrow> unat v)"

text \<open>The counter value an order id was made from: bids count down.\<close>

definition id_number :: "direction \<Rightarrow> u64 \<Rightarrow> nat" where
  "id_number dir order_id = unat (if dir = Bid then NOT order_id else order_id)"

definition entry_ok :: "pair_key set \<Rightarrow> dex_state \<Rightarrow> order_key \<times> order \<Rightarrow> bool" where
  "entry_ok T st = (\<lambda>((pair, dir, price, order_id), ord).
     o_direction ord = dir \<and> o_price ord = price \<and> o_id ord = order_id \<and>
     unat (o_remaining ord) \<le> unat (o_amount ord) * 10 ^ 6 \<and>
     id_number dir order_id < next_id st \<and>
     (o_tif ord = GoodTilCanceled \<longrightarrow> map_of (dx_pairs st) pair \<noteq> None \<and>
        value_at (o_remaining ord) price < 2 ^ 128 \<and>
        (pair \<in> T \<longrightarrow> (\<forall>b \<in> set (buckets_of st pair). \<exists>k. get_bucket b dir price = Inr k))))"

definition pairs_ok :: "(pair_key, pair_params) omap \<Rightarrow> bool" where
  "pairs_ok ps \<longleftrightarrow> om_ok ps \<and>
     (\<forall>e \<in> set ps. distinct (pp_bucket_sizes (snd e)))"

definition book_inv :: "pair_key set \<Rightarrow> dex_state \<Rightarrow> bool" where
  "book_inv T st \<longleftrightarrow> indexed_ok order_index (dx_orders st) \<and> pairs_ok (dx_pairs st) \<and>
     (\<forall>e \<in> set (orders_of st). entry_ok T st e) \<and>
     depths_track T (buckets_of st) (orders_of st) (dx_depths st)"

lemma book_invD:
  assumes "book_inv T st"
  shows "indexed_ok order_index (dx_orders st)" "om_ok (orders_of st)" "pairs_ok (dx_pairs st)"
    "\<And>e. e \<in> set (orders_of st) \<Longrightarrow> entry_ok T st e"
    "depths_track T (buckets_of st) (orders_of st) (dx_depths st)"
  using assms by (auto simp: book_inv_def indexed_ok_def orders_of_def)

lemma pairs_okD:
  assumes "pairs_ok ps" and "map_of ps pair = Some params"
  shows "distinct (pp_bucket_sizes params)"
proof -
  have "(pair, params) \<in> set ps" using assms(2) by (rule map_of_SomeD)
  with assms(1) show "distinct (pp_bucket_sizes params)" unfolding pairs_ok_def by force
qed

lemma distinct_buckets: "pairs_ok (dx_pairs st) \<Longrightarrow> distinct (buckets_of st pair)"
  by (auto simp: buckets_of_def dest: pairs_okD split: option.splits)

lemma book_inv_subset: "book_inv T st \<Longrightarrow> T' \<subseteq> T \<Longrightarrow> book_inv T' st"
  by (auto simp: book_inv_def entry_ok_def intro: depths_track_subset)

text \<open>The invariant and the debts do not see the other fields of the state.\<close>

lemma book_inv_cong:
  assumes "dx_orders st' = dx_orders st" and "dx_pairs st' = dx_pairs st"
    and "dx_depths st' = dx_depths st" and "dx_next_order_id st' = dx_next_order_id st"
  shows "book_inv T st' \<longleftrightarrow> book_inv T st"
proof -
  have "buckets_of st' = buckets_of st" by (simp add: fun_eq_iff buckets_of_def assms)
  moreover have "entry_ok T st' = entry_ok T st"
    by (simp add: fun_eq_iff entry_ok_def next_id_def assms buckets_of_def)
  ultimately show ?thesis by (simp add: book_inv_def orders_of_def assms)
qed

subsection \<open>What the exchange owes for an order, in units of \<open>10 ^ -30\<close>\<close>

definition order_debt :: "denom \<Rightarrow> order_key \<Rightarrow> order \<Rightarrow> nat" where
  "order_debt d = (\<lambda>((base_denom, quote_denom), dir, price, _) ord.
     (case dir of
        Bid \<Rightarrow> if d = quote_denom then unat (o_remaining ord) * unat price else 0
      | Ask \<Rightarrow> if d = base_denom then unat (o_remaining ord) * 10 ^ 24 else 0))"

definition book_debt :: "dex_state \<Rightarrow> denom \<Rightarrow> nat" where
  "book_debt st d = om_sum (order_debt d) (orders_of st)"

subsection \<open>Creation\<close>

lemma book_save_Inr:
  assumes "indexed_ok order_index (dx_orders st)" and "book_save st key ord = Inr st'"
  shows "\<exists>b. st' = st\<lparr>dx_orders := b\<rparr> \<and> indexed_ok order_index b \<and>
    im_primary b = om_insert key ord (orders_of st)"
  using assms indexed_save_Inr by (fastforce simp: book_save_def result_iff orders_of_def)

lemma book_remove_Inr:
  assumes "indexed_ok order_index (dx_orders st)"
  shows "\<exists>b. book_remove st key = Inr (st\<lparr>dx_orders := b\<rparr>) \<and> indexed_ok order_index b \<and>
    im_primary b = om_remove key (orders_of st)"
  using indexed_remove_Inr [OF assms, of key] by (auto simp: book_remove_def orders_of_def)

lemma depths_up_Inr:
  "depths_up st (pair, dir, price, order_id) amount bs = Inr st' \<longleftrightarrow>
    (\<exists>ds. increase_liquidity_depths (dx_depths st) pair dir price amount bs = Inr ds \<and>
      st' = st\<lparr>dx_depths := ds\<rparr>)"
  by (auto simp: depths_up_def result_iff)

lemma depths_down_Inr:
  "depths_down st (pair, dir, price, order_id) amount bs = Inr st' \<longleftrightarrow>
    (\<exists>ds. decrease_liquidity_depths (dx_depths st) pair dir price amount bs = Inr ds \<and>
      st' = st\<lparr>dx_depths := ds\<rparr>)"
  by (auto simp: depths_down_def result_iff)

lemma next_order_id_Inr:
  assumes "next_order_id st = Inr (i, st')"
  shows "unat i = next_id st \<and> next_id st' = next_id st + 1 \<and>
    (\<exists>n. st' = st\<lparr>dx_next_order_id := Some n\<rparr>)"
proof -
  from assms obtain n where n: "checked_add i 1 = Inr n" and st': "st' = st\<lparr>dx_next_order_id := Some n\<rparr>"
    and i: "i = (case dx_next_order_id st of None \<Rightarrow> 1 | Some v \<Rightarrow> v)"
    by (auto simp: next_order_id_def result_iff Let_def)
  from n have "unat n = unat i + 1" by (simp add: checked_add_Inr)
  with i show ?thesis by (auto simp: st' next_id_def split: option.splits)
qed

lemma id_number_new: "id_number dir (if dir = Bid then NOT i else i) = unat i"
  by (simp add: id_number_def)

text \<open>The deposit of an order covers what is owed for it.\<close>

lemma order_size_Inr:
  assumes "order_size opt pair price = Inr (amount, in_quote, deposit)"
    and "checked_into_dec 6 amount = Inr remaining"
    and "o_remaining ord = remaining"
  shows "unat remaining = unat amount * 10 ^ 6 \<and>
    order_debt d (pair, request_direction opt, price, i) ord \<le>
      (if d = c_denom deposit then unat (c_amount deposit) * 10 ^ 30 else 0)"
proof -
  have p: "unat (precision 6 :: u128) = 10 ^ 6" by (rule unat_precision) simp
  have rem: "unat remaining = unat amount * 10 ^ 6"
    using assms(2) by (auto simp: checked_into_dec_def map_err_Inr_iff checked_mul_Inr p)
  show ?thesis
  proof (cases opt)
    case (BidQuote quote)
    with assms(1) have q: "checked_mul_dec_ceil 24 amount price = Inr in_quote"
      and dep: "deposit = mk_coin (snd pair) in_quote" by (auto simp: result_iff)
    from q have c: "unat in_quote = ceil_div (unat amount * unat price) (10 ^ 24)" by (simp add: dec_rounding_128)
    have "unat amount * unat price \<le> unat in_quote * 10 ^ 24" unfolding c by (rule ceil_div_lower) simp
    then show ?thesis
      using rem by (cases pair) (auto simp: BidQuote order_debt_def assms(3) dep)
  next
    case (AskBase base)
    with assms(1) have q: "checked_mul_dec_floor 24 base price = Inr in_quote" and a: "amount = base"
      and dep: "deposit = mk_coin (fst pair) base" by (auto simp: result_iff)
    then show ?thesis
      using rem by (cases pair) (auto simp: AskBase order_debt_def assms(3) dep a)
  qed
qed

lemma entry_ok_mono:
  assumes "entry_ok T st e" and "dx_pairs st' = dx_pairs st" and "next_id st \<le> next_id st'"
  shows "entry_ok T st' e"
proof -
  have "buckets_of st' = buckets_of st" by (simp add: fun_eq_iff buckets_of_def assms(2))
  with assms show ?thesis by (auto simp: entry_ok_def)
qed

text \<open>An order with a fresh id enters the book: the one step of creating an order and of placing the
  orders of a pool.\<close>

lemma new_order_inv:
  assumes "book_inv T st" and "next_order_id st = Inr (i, st1)"
    and "key = (pair, dir, price, oid)" and "oid = (if dir = Bid then NOT i else i)"
    and "o_direction ord = dir" "o_price ord = price" "o_id ord = oid"
    and "unat (o_remaining ord) \<le> unat (o_amount ord) * 10 ^ 6"
    and "o_tif ord = GoodTilCanceled \<Longrightarrow> map_of (dx_pairs st) pair \<noteq> None"
    and "if o_tif ord = GoodTilCanceled
      then increase_liquidity_depths (dx_depths st) pair dir price (o_remaining ord) (buckets_of st pair) = Inr ds
      else ds = dx_depths st"
    and "indexed_ok order_index b" "im_primary b = om_insert key ord (orders_of st)"
    and "st' = st1\<lparr>dx_orders := b, dx_depths := ds\<rparr>"
  shows "book_inv T st' \<and> map_of (orders_of st) key = None \<and> orders_of st' = om_insert key ord (orders_of st)"
proof -
  note inv = book_invD [OF assms(1)]
  from next_order_id_Inr [OF assms(2)] obtain n where i: "unat i = next_id st" "next_id st1 = next_id st + 1"
    and st1: "st1 = st\<lparr>dx_next_order_id := Some n\<rparr>" by blast
  have fresh: "map_of (orders_of st) key = None"
  proof (rule ccontr)
    assume "map_of (orders_of st) key \<noteq> None"
    then obtain o' where "(key, o') \<in> set (orders_of st)" by (auto dest: map_of_SomeD)
    from inv(4) [OF this] have "id_number dir oid < next_id st" by (simp add: entry_ok_def assms(3))
    then show False by (simp add: assms(4) id_number_new i(1))
  qed
  have orders: "orders_of st' = om_insert key ord (orders_of st)" by (simp add: orders_of_def assms(12,13))
  have buckets: "buckets_of st' = buckets_of st" by (simp add: fun_eq_iff buckets_of_def assms(13) st1)
  have nid: "next_id st' = next_id st + 1" using i(2) by (simp add: next_id_def assms(13))
  have track: "depths_track T (buckets_of st') (orders_of st') (dx_depths st')"
    unfolding orders buckets
    using depths_track_insert [OF inv(2,5) fresh assms(3) distinct_buckets [OF inv(3)] assms(10)]
    by (simp add: assms(13))
  have "value_at (o_remaining ord) price < 2 ^ 128 \<and> (\<forall>b \<in> set (buckets_of st pair). \<exists>k. get_bucket b dir price = Inr k)"
    if "o_tif ord = GoodTilCanceled"
  proof -
    from that assms(10) have
      "increase_liquidity_depths (dx_depths st) pair dir price (o_remaining ord) (buckets_of st pair) = Inr ds" by simp
    from increase_liquidity_depths_Inr [OF this depths_trackD(1) [OF inv(5)] distinct_buckets [OF inv(3)]]
    show ?thesis by (metis dec_mul_value_ex)
  qed
  moreover have "id_number dir oid < next_id st'" by (simp add: assms(4) id_number_new i(1) nid)
  ultimately have new: "entry_ok T st' (key, ord)"
    using assms(5-9) by (simp add: entry_ok_def assms(3) buckets) (simp add: assms(13) st1)
  have "book_inv T st'"
    unfolding book_inv_def
  proof (intro conjI ballI)
    fix e assume "e \<in> set (orders_of st')"
    then have "e = (key, ord) \<or> e \<in> set (orders_of st)" by (auto simp: orders om_insert_entries inv(2))
    then show "entry_ok T st' e"
      using new entry_ok_mono [OF inv(4), of e st'] by (auto simp: nid) (simp add: assms(13) st1)
  qed (use assms(11) inv(3) track in \<open>simp_all add: assms(13) st1\<close>)
  with fresh orders show ?thesis by blast
qed

lemma create_order_Inr:
  assumes "book_inv T st" and "coins_ok deposits"
    and "create_order height user (st, events, deposits) req = Inr (st', events', deposits')"
  shows "book_inv T st' \<and> coins_ok deposits' \<and>
    (\<exists>n b ds. st' = st\<lparr>dx_next_order_id := Some n, dx_orders := b, dx_depths := ds\<rparr>) \<and>
    (\<exists>key ord. map_of (orders_of st) key = None \<and> orders_of st' = om_insert key ord (orders_of st) \<and>
      o_user ord = user \<and> o_created ord = Some height) \<and>
    (\<forall>d. book_debt st' d + unat (amount_of deposits d) * 10 ^ 30
      \<le> book_debt st d + unat (amount_of deposits' d) * 10 ^ 30)"
proof -
  let ?dir = "request_direction (cr_amount req)" and ?pair = "cr_pair req"
  from assms(3) obtain params price amount in_quote deposit remaining i st1 st2 where
    pp: "map_of (dx_pairs st) ?pair = Some params"
    and size: "order_size (cr_amount req) ?pair price = Inr (amount, in_quote, deposit)"
    and rem: "checked_into_dec 6 amount = Inr remaining"
    and nxt: "next_order_id st = Inr (i, st1)"
    and sv: "book_save st1 (?pair, ?dir, price, if ?dir = Bid then NOT i else i)
         \<lparr>o_user = user, o_id = (if ?dir = Bid then NOT i else i), o_direction = ?dir, o_tif = cr_tif req,
          o_price = price, o_amount = amount, o_remaining = remaining, o_created = Some height\<rparr> = Inr st2"
    and up: "(if cr_tif req = GoodTilCanceled
        then depths_up st2 (?pair, ?dir, price, if ?dir = Bid then NOT i else i) remaining (pp_bucket_sizes params)
        else Inr st2) = Inr st'"
    and dep: "coins_insert deposits deposit = Inr deposits'"
    by (auto simp: create_order_def and_then_Inr_iff ok_or_Inr_iff ensure_Inr_iff Let_def
        simp del: if_split_asm split del: if_split)
  define oid where "oid = (if ?dir = Bid then NOT i else i)"
  define key where "key = (?pair, ?dir, price, oid)"
  define ord where "ord = \<lparr>o_user = user, o_id = oid, o_direction = ?dir, o_tif = cr_tif req,
      o_price = price, o_amount = amount, o_remaining = remaining, o_created = Some height\<rparr>"
  note inv = book_invD [OF assms(1)]
  from next_order_id_Inr [OF nxt] obtain n where i: "unat i = next_id st" "next_id st1 = next_id st + 1"
    and st1: "st1 = st\<lparr>dx_next_order_id := Some n\<rparr>" by blast
  have "indexed_ok order_index (dx_orders st1)" using inv(1) by (simp add: st1)
  from book_save_Inr [OF this sv] obtain b where st2: "st2 = st1\<lparr>dx_orders := b\<rparr>"
    and b: "indexed_ok order_index b" "im_primary b = om_insert key ord (orders_of st)"
    by (auto simp: key_def ord_def oid_def st1 orders_of_def)
  have bs: "buckets_of st ?pair = pp_bucket_sizes params" by (simp add: buckets_of_def pp)
  obtain ds where st': "st' = st2\<lparr>dx_depths := ds\<rparr>" and ds: "if o_tif ord = GoodTilCanceled
      then increase_liquidity_depths (dx_depths st) ?pair ?dir price (o_remaining ord) (buckets_of st ?pair) = Inr ds
      else ds = dx_depths st"
    using up by (auto simp: depths_up_Inr ord_def bs st2 st1 split: if_splits)
  note sz = order_size_Inr [OF size rem, of ord _ oid]
  have new: "book_inv T st' \<and> map_of (orders_of st) key = None \<and> orders_of st' = om_insert key ord (orders_of st)"
    by (rule new_order_inv [OF assms(1) nxt key_def oid_def _ _ _ _ _ ds b])
      (use sz pp in \<open>simp_all add: ord_def st' st2\<close>)
  then have fresh: "map_of (orders_of st) key = None" and orders: "orders_of st' = om_insert key ord (orders_of st)"
    and "book_inv T st'" by blast+
  moreover have "coins_ok deposits'" by (rule coins_insert_Inr(1) [OF assms(2) dep])
  moreover have "book_debt st' d + unat (amount_of deposits d) * 10 ^ 30
      \<le> book_debt st d + unat (amount_of deposits' d) * 10 ^ 30" for d
  proof -
    have "book_debt st' d = book_debt st d + order_debt d key ord"
      using om_sum_insert [OF inv(2), of "order_debt d" key ord] fresh by (simp add: book_debt_def orders)
    moreover have "order_debt d key ord \<le> (if d = c_denom deposit then unat (c_amount deposit) * 10 ^ 30 else 0)"
      using sz [of d] by (simp add: key_def ord_def)
    ultimately show ?thesis
      using coins_insert_Inr(2) [OF assms(2) dep, of d] by (simp split: if_splits)
  qed
  moreover have "\<exists>n b ds. st' = st\<lparr>dx_next_order_id := Some n, dx_orders := b, dx_depths := ds\<rparr>"
    unfolding st' st2 st1 by blast
  moreover have "\<exists>key ord. map_of (orders_of st) key = None \<and> orders_of st' = om_insert key ord (orders_of st) \<and>
      o_user ord = user \<and> o_created ord = Some height"
    by (rule exI [of _ key], rule exI [of _ ord]) (simp add: fresh orders ord_def)
  ultimately show ?thesis by blast
qed

subsection \<open>Cancellation\<close>

definition refund_amount :: "order_key \<Rightarrow> order \<Rightarrow> denom \<Rightarrow> nat" where
  "refund_amount = (\<lambda>((base_denom, quote_denom), dir, price, _) ord d.
     (case dir of
        Bid \<Rightarrow> if d = quote_denom then value_at (o_remaining ord) price else 0
      | Ask \<Rightarrow> if d = base_denom then unat (o_remaining ord) else 0))"

lemma order_refund_Inr:
  assumes "order_refund key ord = Inr refund"
  shows "(if d = dc_denom refund then unat (dc_amount refund) else 0) = refund_amount key ord d"
proof -
  obtain base quote dir price oid where key: "key = ((base, quote), dir, price, oid)" by (cases key) auto
  show ?thesis
    using assms by (cases dir) (auto simp: key order_refund_def refund_amount_def and_then_Inr_iff dec_mul_value)
qed

lemma refund_le_debt: "refund_amount key ord d * 10 ^ 24 \<le> order_debt d key ord"
  by (auto simp: refund_amount_def order_debt_def value_at_def split: direction.splits prod.splits)

text \<open>An order leaves the book, or a part of it is filled.\<close>

lemma removed_order_inv:
  assumes "book_inv T st" and "map_of (orders_of st) key = Some ord" and "key = (pair, dir, price, oid)"
    and "if o_tif ord = GoodTilCanceled
      then decrease_liquidity_depths (dx_depths st) pair dir price (o_remaining ord) (buckets_of st pair) = Inr ds
      else ds = dx_depths st"
    and "indexed_ok order_index b" "im_primary b = om_remove key (orders_of st)"
    and "st' = st\<lparr>dx_orders := b, dx_depths := ds\<rparr>"
  shows "book_inv T st' \<and> orders_of st' = om_remove key (orders_of st)"
proof -
  note inv = book_invD [OF assms(1)]
  have orders: "orders_of st' = om_remove key (orders_of st)" by (simp add: orders_of_def assms(6,7))
  have buckets: "buckets_of st' = buckets_of st" by (simp add: fun_eq_iff buckets_of_def assms(7))
  have track: "depths_track T (buckets_of st') (orders_of st') (dx_depths st')"
    unfolding orders buckets
    using depths_track_remove [OF inv(2,5) assms(2,3) distinct_buckets [OF inv(3)] assms(4)] by (simp add: assms(7))
  have "book_inv T st'"
    unfolding book_inv_def
  proof (intro conjI ballI)
    fix e assume "e \<in> set (orders_of st')"
    then have "e \<in> set (orders_of st)" by (simp add: orders om_remove_entries)
    from entry_ok_mono [OF inv(4) [OF this]] show "entry_ok T st' e" by (simp add: assms(7) next_id_def)
  qed (use assms(5) inv(3) track in \<open>simp_all add: assms(7)\<close>)
  with orders show ?thesis by blast
qed

lemma shrunk_order_inv:
  assumes "book_inv T st" and "map_of (orders_of st) key = Some ord" and "key = (pair, dir, price, oid)"
    and "o_tif ord = GoodTilCanceled" and "unat (o_remaining ord) = unat amount + unat left"
    and "decrease_liquidity_depths (dx_depths st) pair dir price amount (buckets_of st pair) = Inr ds"
    and "indexed_ok order_index b" "im_primary b = om_insert key (ord\<lparr>o_remaining := left\<rparr>) (orders_of st)"
    and "st' = st\<lparr>dx_orders := b, dx_depths := ds\<rparr>"
  shows "book_inv T st' \<and> orders_of st' = om_insert key (ord\<lparr>o_remaining := left\<rparr>) (orders_of st)"
proof -
  note inv = book_invD [OF assms(1)]
  have orders: "orders_of st' = om_insert key (ord\<lparr>o_remaining := left\<rparr>) (orders_of st)"
    by (simp add: orders_of_def assms(8,9))
  have buckets: "buckets_of st' = buckets_of st" by (simp add: fun_eq_iff buckets_of_def assms(9))
  have track: "depths_track T (buckets_of st') (orders_of st') (dx_depths st')"
    unfolding orders buckets
    using depths_track_shrink [OF inv(2,5) assms(2,3) distinct_buckets [OF inv(3)] assms(4,5,6)] by (simp add: assms(9))
  have old: "entry_ok T st (key, ord)" by (rule inv(4) [OF map_of_SomeD [OF assms(2)]])
  have le: "unat left \<le> unat (o_remaining ord)" using assms(5) by simp
  then have "value_at left price \<le> value_at (o_remaining ord) price"
    unfolding value_at_def by (intro div_le_mono mult_le_mono1)
  then have new: "entry_ok T st' (key, ord\<lparr>o_remaining := left\<rparr>)"
    using old assms(4) le by (auto simp: entry_ok_def assms(3) buckets) (simp_all add: assms(9) next_id_def)
  have "book_inv T st'"
    unfolding book_inv_def
  proof (intro conjI ballI)
    fix e assume "e \<in> set (orders_of st')"
    then have "e = (key, ord\<lparr>o_remaining := left\<rparr>) \<or> e \<in> set (orders_of st)"
      by (auto simp: orders om_insert_entries inv(2))
    then show "entry_ok T st' e"
      using new entry_ok_mono [OF inv(4), of e st'] by (auto simp: assms(9) next_id_def)
  qed (use assms(7) inv(3) track in \<open>simp_all add: assms(9)\<close>)
  with orders show ?thesis by blast
qed

lemma cancel_and_remove_Inr:
  assumes "book_inv T st" and "om_ok refunds" and "map_of (orders_of st) key = Some ord"
    and "cancel_and_remove (st, events, refunds) (key, ord) = Inr (st', events', refunds')"
  shows "book_inv T st' \<and> om_ok refunds' \<and> orders_of st' = om_remove key (orders_of st) \<and>
    (\<exists>b ds. st' = st\<lparr>dx_orders := b, dx_depths := ds\<rparr>) \<and>
    (\<forall>d. om_amount refunds' d = om_amount refunds d + refund_amount key ord d) \<and>
    (\<forall>d. book_debt st' d + om_amount refunds' d * 10 ^ 24 \<le> book_debt st d + om_amount refunds d * 10 ^ 24)"
proof -
  obtain pair dir price oid where key: "key = (pair, dir, price, oid)" by (cases key)
  note inv = book_invD [OF assms(1)]
  have mem: "(key, ord) \<in> set (orders_of st)" by (rule map_of_SomeD [OF assms(3)])
  note ok = inv(4) [OF mem]
  from assms(4) obtain refund st1 where rf: "order_refund key ord = Inr refund"
    and down: "(if o_tif ord = GoodTilCanceled
        then and_then (om_load (dx_pairs st) pair) (\<lambda>params.
               depths_down st key (o_remaining ord) (pp_bucket_sizes params)) else Inr st) = Inr st1"
    and ins: "dec_coins_insert 6 refunds refund = Inr refunds'" and rm: "book_remove st1 key = Inr st'"
    unfolding key by (auto simp: cancel_and_remove_def cancel_order_def and_then_Inr_iff Let_def
        simp del: if_split_asm split del: if_split)
  have bs: "pp_bucket_sizes params = buckets_of st pair" if "map_of (dx_pairs st) pair = Some params" for params
    using that by (simp add: buckets_of_def)
  obtain ds where st1: "st1 = st\<lparr>dx_depths := ds\<rparr>" and ds: "if o_tif ord = GoodTilCanceled
      then decrease_liquidity_depths (dx_depths st) pair dir price (o_remaining ord) (buckets_of st pair) = Inr ds
      else ds = dx_depths st"
    using down by (auto simp: and_then_Inr_iff om_load_Inr key depths_down_Inr bs split: if_splits)
  have "indexed_ok order_index (dx_orders st1)" using inv(1) by (simp add: st1)
  from book_remove_Inr [OF this, of key] rm obtain b where st': "st' = st1\<lparr>dx_orders := b\<rparr>"
    and b: "indexed_ok order_index b" "im_primary b = om_remove key (orders_of st)"
    by (auto simp: st1 orders_of_def)
  have gone: "book_inv T st' \<and> orders_of st' = om_remove key (orders_of st)"
    by (rule removed_order_inv [OF assms(1,3) key ds b]) (simp add: st' st1)
  then have orders: "orders_of st' = om_remove key (orders_of st)" by blast
  from gone have "book_inv T st'" by blast
  moreover note dec_coins_insert_Inr [OF assms(2) ins]
  moreover have "book_debt st' d + om_amount refunds' d * 10 ^ 24 \<le> book_debt st d + om_amount refunds d * 10 ^ 24" for d
  proof -
    have "book_debt st' d + order_debt d key ord = book_debt st d"
      using om_sum_remove [OF inv(2), of "order_debt d" key] assms(3) by (simp add: book_debt_def orders)
    moreover have "om_amount refunds' d = om_amount refunds d + refund_amount key ord d"
      using dec_coins_insert_Inr [OF assms(2) ins, of d] order_refund_Inr [OF rf, of d] by simp
    ultimately show ?thesis using refund_le_debt [of key ord d] by (simp add: add_mult_distrib)
  qed
  moreover have "\<exists>b ds. st' = st\<lparr>dx_orders := b, dx_depths := ds\<rparr>"
    by (rule exI [of _ b], rule exI [of _ ds]) (simp add: st' st1)
  ultimately show ?thesis
    using orders order_refund_Inr [OF rf] by auto
qed

lemma cancel_and_remove_total:
  assumes "book_inv T st" and "map_of (orders_of st) key = Some ord" and "fst key \<in> T" and "o_remaining ord \<noteq> 0"
    and "value_at (o_remaining ord) (key_price key) < 2 ^ 128"
    and "\<And>d. om_amount refunds d + refund_amount key ord d < 2 ^ 128"
  shows "\<exists>acc. cancel_and_remove (st, events, refunds) (key, ord) = Inr acc"
proof -
  obtain pair dir price oid where key: "key = (pair, dir, price, oid)" by (cases key)
  note inv = book_invD [OF assms(1)]
  note ok = inv(4) [OF map_of_SomeD [OF assms(2)]]
  from assms(5) obtain q where "dec_mul 24 (o_remaining ord) price = Inr q"
    using dec_mul_value_ex [of "o_remaining ord" price] by (auto simp: key)
  then obtain refund where rf: "order_refund key ord = Inr refund"
    by (cases pair) (simp add: order_refund_def key)
  have "om_amount refunds (dc_denom refund) + unat (dc_amount refund) < 2 ^ 128"
    using assms(6) [of "dc_denom refund"] order_refund_Inr [OF rf, of "dc_denom refund"] by simp
  then obtain refunds' where ins: "dec_coins_insert 6 refunds refund = Inr refunds'"
    using dec_coins_insert_total by blast
  have "\<exists>ds. (if o_tif ord = GoodTilCanceled
      then and_then (om_load (dx_pairs st) pair) (\<lambda>params.
        depths_down st key (o_remaining ord) (pp_bucket_sizes params)) else Inr st) = Inr (st\<lparr>dx_depths := ds\<rparr>)"
  proof (cases "o_tif ord = GoodTilCanceled")
    case True
    from ok True obtain params where pp: "map_of (dx_pairs st) pair = Some params"
      and bk: "\<And>b. b \<in> set (buckets_of st pair) \<Longrightarrow> \<exists>k. get_bucket b dir price = Inr k"
      using assms(3) by (auto simp: entry_ok_def key)
    have bs: "pp_bucket_sizes params = buckets_of st pair" by (simp add: buckets_of_def pp)
    have "value_at (o_remaining ord) price < 2 ^ 128" using assms(5) by (simp add: key)
    then obtain ds where "decrease_liquidity_depths (dx_depths st) pair dir price (o_remaining ord) (buckets_of st pair) = Inr ds"
      using depths_track_decrease_total [OF inv(2,5) assms(2) key distinct_buckets [OF inv(3)] True assms(4) _ bk order_refl]
      using assms(3) by (auto simp: key)
    then show ?thesis
      by (intro exI [of _ ds]) (simp add: True om_load_def pp key depths_down_Inr bs)
  qed (auto intro: exI [of _ "dx_depths st"])
  then obtain ds where down: "(if o_tif ord = GoodTilCanceled
      then and_then (om_load (dx_pairs st) pair) (\<lambda>params.
        depths_down st key (o_remaining ord) (pp_bucket_sizes params)) else Inr st) = Inr (st\<lparr>dx_depths := ds\<rparr>)" ..
  have "indexed_ok order_index (dx_orders (st\<lparr>dx_depths := ds\<rparr>))" using inv(1) by simp
  from book_remove_Inr [OF this, of key] obtain st' where "book_remove (st\<lparr>dx_depths := ds\<rparr>) key = Inr st'" by blast
  then show ?thesis
    using rf ins by (simp add: cancel_and_remove_def cancel_order_def key Let_def down [unfolded key] del: if_split)
qed

end
