(* ===== verification/Book_Handlers.thy ===== *)
theory Book_Handlers
  imports Book_Invariant
begin

text \<open>
  What the order handlers of \<^verbatim>\<open>dango/dex/src/execute.rs\<close> do to the book and to the exchange's
  balance: every handler keeps the invariant, sends out no more than came in or is no longer owed,
  and leaves the orders of everybody else as they are.
\<close>

subsection \<open>Deducting several coins\<close>

lemma coins_deduct_many_Inr:
  assumes "coins_ok cs" and "coins_deduct_many cs xs = Inr cs'"
  shows "coins_ok cs' \<and> (\<forall>d. unat (amount_of cs d) =
    unat (amount_of cs' d) + (\<Sum>c\<leftarrow>xs. if c_denom c = d then unat (c_amount c) else 0))"
  using assms unfolding coins_deduct_many_def
proof (induction xs arbitrary: cs)
  case (Cons c xs)
  from Cons.prems(2) obtain t where t: "coins_deduct cs c = Inr t" "try_fold coins_deduct t xs = Inr cs'"
    by (auto simp: result_iff)
  note ok = coins_deduct_Inr [OF Cons.prems(1) t(1)]
  from Cons.IH [OF ok(1) t(2)] ok(2) show ?case by (auto simp: eq_commute)
qed simp

lemma coins_iter_sum:
  "coins_ok cs \<Longrightarrow> (\<Sum>c\<leftarrow>coins_iter cs. if c_denom c = d then unat (c_amount c) else 0) = unat (amount_of cs d)"
  by (intro sum_coins_iter coins_okD)

subsection \<open>Whose orders a handler touches\<close>

definition others_untouched :: "addr \<Rightarrow> dex_state \<Rightarrow> dex_state \<Rightarrow> bool" where
  "others_untouched user st st' \<longleftrightarrow> (\<forall>key ord. o_user ord \<noteq> user \<longrightarrow>
     (map_of (orders_of st') key = Some ord \<longleftrightarrow> map_of (orders_of st) key = Some ord))"

text \<open>A handler that works on the book changes the orders, the depths and the id counter only.\<close>

definition same_frame :: "dex_state \<Rightarrow> dex_state \<Rightarrow> bool" where
  "same_frame st st' \<longleftrightarrow> dx_pairs st' = dx_pairs st \<and> dx_reserves st' = dx_reserves st \<and>
     dx_paused st' = dx_paused st \<and> dx_resting st' = dx_resting st \<and> dx_volumes st' = dx_volumes st \<and>
     dx_volumes_by_user st' = dx_volumes_by_user st"

lemma others_untouched_refl: "others_untouched user st st"
  by (simp add: others_untouched_def)

lemma others_untouched_trans:
  "others_untouched user st st1 \<Longrightarrow> others_untouched user st1 st2 \<Longrightarrow> others_untouched user st st2"
  by (simp add: others_untouched_def)

lemma same_frame_refl: "same_frame st st"
  by (simp add: same_frame_def)

lemma same_frame_trans: "same_frame st st1 \<Longrightarrow> same_frame st1 st2 \<Longrightarrow> same_frame st st2"
  by (auto simp: same_frame_def)

lemma same_frameD:
  assumes "same_frame st st'"
  shows "dx_pairs st' = dx_pairs st" "dx_reserves st' = dx_reserves st" "dx_paused st' = dx_paused st"
    "dx_resting st' = dx_resting st" "dx_volumes st' = dx_volumes st"
    "dx_volumes_by_user st' = dx_volumes_by_user st"
  using assms by (auto simp: same_frame_def)

lemma others_untouched_insert:
  assumes "om_ok (orders_of st)" and "orders_of st' = om_insert key ord (orders_of st)"
    and "map_of (orders_of st) key = None" and "o_user ord = user"
  shows "others_untouched user st st'"
  using assms by (auto simp: others_untouched_def map_of_om_insert)

lemma others_untouched_remove:
  assumes "orders_of st' = om_remove key (orders_of st)"
    and "map_of (orders_of st) key = Some ord" and "o_user ord = user"
  shows "others_untouched user st st'"
  using assms by (auto simp: others_untouched_def map_of_om_remove)

text \<open>The effect of cancelling orders, from a book and refunds due to a book and refunds due.\<close>

definition cancels :: "pair_key set \<Rightarrow> addr \<Rightarrow> dex_state \<times> 'e \<times> dec_coins \<Rightarrow> dex_state \<times> 'e \<times> dec_coins \<Rightarrow> bool" where
  "cancels T user = (\<lambda>(st, _, refunds) (st', _, refunds').
     book_inv T st' \<and> om_ok refunds' \<and> same_frame st st' \<and> others_untouched user st st' \<and>
     set (orders_of st') \<subseteq> set (orders_of st) \<and>
     (\<forall>d. book_debt st' d + om_amount refunds' d * 10 ^ 24 \<le> book_debt st d + om_amount refunds d * 10 ^ 24))"

lemma cancels_debt:
  "cancels T user (st, e, refunds) (st', e', refunds') \<Longrightarrow>
    book_debt st' d + om_amount refunds' d * 10 ^ 24 \<le> book_debt st d + om_amount refunds d * 10 ^ 24"
  unfolding cancels_def prod.case by blast

lemma cancels_trans:
  assumes "cancels T user a b" and "cancels T user b c"
  shows "cancels T user a c"
proof -
  obtain st1 e1 r1 st2 e2 r2 st3 e3 r3 where
    [simp]: "a = (st1, e1, r1)" "b = (st2, e2, r2)" "c = (st3, e3, r3)" by (metis prod.collapse)
  show ?thesis
    using assms same_frame_trans [of st1 st2 st3] others_untouched_trans [of user st1 st2 st3]
    by (auto simp: cancels_def intro: order_trans)
qed

lemma cancels_refl: "book_inv T st \<Longrightarrow> om_ok refunds \<Longrightarrow> cancels T user (st, e, refunds) (st, e, refunds)"
  by (simp add: cancels_def same_frame_refl others_untouched_refl)

lemma cancel_and_remove_cancels:
  assumes "book_inv T st" and "om_ok refunds" and "map_of (orders_of st) key = Some ord" and "o_user ord = user"
    and "cancel_and_remove (st, events, refunds) (key, ord) = Inr acc"
  shows "cancels T user (st, events, refunds) acc \<and> orders_of (fst acc) = om_remove key (orders_of st)"
proof -
  obtain st' events' refunds' where acc: "acc = (st', events', refunds')" by (cases acc)
  note eff = cancel_and_remove_Inr [OF assms(1-3) assms(5) [unfolded acc]]
  then obtain b ds where "st' = st\<lparr>dx_orders := b, dx_depths := ds\<rparr>" by blast
  then have "same_frame st st'" by (simp add: same_frame_def)
  moreover have "others_untouched user st st'"
    by (rule others_untouched_remove) (use eff assms(3,4) in auto)
  moreover have "set (orders_of st') \<subseteq> set (orders_of st)" using eff by (auto simp: om_remove_entries)
  ultimately show ?thesis using eff unfolding cancels_def acc prod.case fst_conv by blast
qed

lemma cancel_list_cancels:
  assumes "book_inv T st" and "om_ok refunds" and "distinct (map fst es)"
    and "\<And>e. e \<in> set es \<Longrightarrow> map_of (orders_of st) (fst e) = Some (snd e) \<and> o_user (snd e) = user"
    and "try_fold cancel_and_remove (st, events, refunds) es = Inr acc"
  shows "cancels T user (st, events, refunds) acc \<and>
    (\<forall>e \<in> set es. map_of (orders_of (fst acc)) (fst e) = None)"
  using assms
proof (induction es arbitrary: st events refunds)
  case Nil
  then show ?case using cancels_refl by fastforce
next
  case (Cons e es)
  obtain key ord where e: "e = (key, ord)" by (cases e)
  from Cons.prems(5) obtain a where a: "cancel_and_remove (st, events, refunds) (key, ord) = Inr a"
    and rest: "try_fold cancel_and_remove a es = Inr acc" by (auto simp: result_iff e)
  have k: "map_of (orders_of st) key = Some ord" "o_user ord = user" using Cons.prems(4) [of e] by (simp_all add: e)
  note eff = cancel_and_remove_cancels [OF Cons.prems(1,2) k a]
  obtain st1 ev1 r1 where a': "a = (st1, ev1, r1)" by (cases a)
  from eff have ok: "book_inv T st1" "om_ok r1" "orders_of st1 = om_remove key (orders_of st)"
    by (simp_all add: a' cancels_def)
  have "map_of (orders_of st1) (fst e') = Some (snd e') \<and> o_user (snd e') = user" if "e' \<in> set es" for e'
    using that Cons.prems(3) Cons.prems(4) [of e'] by (auto simp: ok(3) map_of_om_remove e rev_image_eqI)
  note ih = Cons.IH [OF ok(1,2) _ this rest [unfolded a']]
  have "cancels T user a acc" "\<forall>e \<in> set es. map_of (orders_of (fst acc)) (fst e) = None"
    using ih Cons.prems(3) by (auto simp: a')
  moreover have "map_of (orders_of (fst acc)) key = None"
  proof -
    have "set (orders_of (fst acc)) \<subseteq> set (orders_of st1)"
      using \<open>cancels T user a acc\<close> by (auto simp: a' cancels_def split: prod.splits)
    then show ?thesis by (intro map_of_notin) (auto simp: ok(3) om_remove_entries)
  qed
  ultimately show ?case using eff cancels_trans [of T user "(st, events, refunds)" a acc] by (simp add: e)
qed

lemma cancel_order_from_user_cancels:
  assumes "book_inv T st" and "om_ok refunds"
    and "cancel_order_from_user user (st, events, refunds) order_id = Inr acc"
  shows "cancels T user (st, events, refunds) acc"
proof -
  from assms(3) obtain key ord where ld: "unique_load (dx_orders st) order_id = Inr (key, ord)"
    and u: "o_user ord = user" and c: "cancel_and_remove (st, events, refunds) (key, ord) = Inr acc"
    by (auto simp: cancel_order_from_user_def result_iff)
  note inv = book_invD [OF assms(1)]
  have "map_of (orders_of st) key = Some ord"
    using ld unique_load_iff [OF inv(1)] om_mem_iff [OF inv(2)] by (simp add: orders_of_def)
  from cancel_and_remove_cancels [OF assms(1,2) this u c] show ?thesis ..
qed

lemma cancel_all_from_user_cancels:
  assumes "book_inv T st" and "om_ok refunds"
    and "cancel_all_orders_from_user user (st, events, refunds) = Inr acc"
  shows "cancels T user (st, events, refunds) acc \<and>
    (\<forall>key ord. map_of (orders_of (fst acc)) key = Some ord \<longrightarrow> o_user ord \<noteq> user)"
proof -
  note inv = book_invD [OF assms(1)]
  let ?es = "filter (\<lambda>(k, v). o_user v = user) (orders_of st)"
  have "multi_agrees (ix_first order_index) (orders_of st) (im_first (dx_orders st))"
    using inv(1) by (simp add: indexed_ok_def orders_of_def)
  from multi_range_eq [OF inv(2) this, of user]
  have "multi_range (orders_of st) (im_first (dx_orders st)) user = Inr ?es"
    by (simp add: order_index_def)
  with assms(3) have f: "try_fold cancel_and_remove (st, events, refunds) ?es = Inr acc"
    by (simp add: cancel_all_orders_from_user_def)
  have d: "distinct (map fst ?es)" by (rule om_ok_distinct [OF om_ok_filter [OF inv(2)]])
  have m: "map_of (orders_of st) (fst e) = Some (snd e) \<and> o_user (snd e) = user" if "e \<in> set ?es" for e
    using that om_mem_iff [OF inv(2)] by auto
  note eff = cancel_list_cancels [OF assms(1,2) d m f]
  moreover have "o_user ord \<noteq> user" if a: "map_of (orders_of (fst acc)) key = Some ord" for key ord
  proof
    assume u: "o_user ord = user"
    have "(key, ord) \<in> set (orders_of (fst acc))" using a by (rule map_of_SomeD)
    moreover have "set (orders_of (fst acc)) \<subseteq> set (orders_of st)"
      using eff by (auto simp: cancels_def split: prod.splits)
    ultimately have "(key, ord) \<in> set ?es" using u by auto
    with eff have "map_of (orders_of (fst acc)) key = None" by fastforce
    with a show False by simp
  qed
  ultimately show ?thesis by blast
qed

subsection \<open>Creating several orders\<close>

text \<open>The effect of creating orders: what is newly owed is covered by the deposits asked for.\<close>

definition creates :: "pair_key set \<Rightarrow> addr \<Rightarrow> dex_state \<times> 'e \<times> coins \<Rightarrow> dex_state \<times> 'e \<times> coins \<Rightarrow> bool" where
  "creates T user = (\<lambda>(st, _, deposits) (st', _, deposits').
     book_inv T st' \<and> coins_ok deposits' \<and> same_frame st st' \<and> others_untouched user st st' \<and>
     (\<forall>d. book_debt st' d + unat (amount_of deposits d) * 10 ^ 30
       \<le> book_debt st d + unat (amount_of deposits' d) * 10 ^ 30))"

lemma creates_debt:
  "creates T user (st, e, deposits) (st', e', deposits') \<Longrightarrow>
    book_debt st' d + unat (amount_of deposits d) * 10 ^ 30
      \<le> book_debt st d + unat (amount_of deposits' d) * 10 ^ 30"
  unfolding creates_def prod.case by blast

lemma creates_refl: "book_inv T st \<Longrightarrow> coins_ok deposits \<Longrightarrow> creates T user (st, e, deposits) (st, e', deposits)"
  by (simp add: creates_def same_frame_refl others_untouched_refl)

lemma creates_trans:
  assumes "creates T user a b" and "creates T user b c"
  shows "creates T user a c"
proof -
  obtain st1 e1 r1 st2 e2 r2 st3 e3 r3 where s: "a = (st1, e1, r1)" "b = (st2, e2, r2)" "c = (st3, e3, r3)"
    by (metis prod.collapse)
  have "book_debt st3 d + unat (amount_of r1 d) * 10 ^ 30 \<le> book_debt st1 d + unat (amount_of r3 d) * 10 ^ 30" for d
  proof -
    show ?thesis using assms [unfolded s, THEN creates_debt, of d] by linarith
  qed
  with assms show ?thesis
    using same_frame_trans [of st1 st2 st3] others_untouched_trans [of user st1 st2 st3]
    unfolding creates_def s prod.case by blast
qed

lemma create_order_creates:
  assumes "book_inv T st" and "coins_ok deposits"
    and "create_order height user (st, events, deposits) req = Inr acc"
  shows "creates T user (st, events, deposits) acc"
proof -
  obtain st' events' deposits' where acc: "acc = (st', events', deposits')" by (cases acc)
  note eff = create_order_Inr [OF assms(1,2) assms(3) [unfolded acc]]
  then obtain n b ds key ord where st': "st' = st\<lparr>dx_next_order_id := Some n, dx_orders := b, dx_depths := ds\<rparr>"
    and ins: "map_of (orders_of st) key = None" "orders_of st' = om_insert key ord (orders_of st)" "o_user ord = user"
    by blast
  have "same_frame st st'" by (simp add: same_frame_def st')
  moreover have "others_untouched user st st'"
    by (rule others_untouched_insert [OF book_invD(2) [OF assms(1)] ins(2,1,3)])
  ultimately show ?thesis using eff unfolding creates_def acc prod.case by blast
qed

lemma create_list_creates:
  assumes "book_inv T st" and "coins_ok deposits"
    and "try_fold (create_order height user) (st, events, deposits) reqs = Inr acc"
  shows "creates T user (st, events, deposits) acc"
proof (rule try_fold_invariant [where I = "creates T user (st, events, deposits)", OF _ creates_refl [OF assms(1,2)] assms(3)])
  fix s req s' assume c: "creates T user (st, events, deposits) s" and s': "create_order height user s req = Inr s'"
  obtain st1 e1 d1 where s: "s = (st1, e1, d1)" by (cases s)
  from c have "book_inv T st1" "coins_ok d1" by (simp_all add: creates_def s)
  from create_order_creates [OF this s' [unfolded s]] c show "creates T user (st, events, deposits) s'"
    unfolding s by (rule creates_trans [rotated])
qed

lemma cancel_ids_cancels:
  assumes "book_inv T st" and "om_ok refunds"
    and "try_fold (cancel_order_from_user user) (st, events, refunds) ids = Inr acc"
  shows "cancels T user (st, events, refunds) acc"
proof (rule try_fold_invariant [where I = "cancels T user (st, events, refunds)", OF _ cancels_refl [OF assms(1,2)] assms(3)])
  fix s i s' assume c: "cancels T user (st, events, refunds) s" and s': "cancel_order_from_user user s i = Inr s'"
  obtain st1 e1 r1 where s: "s = (st1, e1, r1)" by (cases s)
  from c have "book_inv T st1" "om_ok r1" by (simp_all add: cancels_def s)
  from cancel_order_from_user_cancels [OF this s' [unfolded s]] c show "cancels T user (st, events, refunds) s'"
    unfolding s by (rule cancels_trans [rotated])
qed

subsection \<open>The handler that creates and cancels\<close>

text \<open>The first phase of the handler, by the kind of request.\<close>

lemma cancel_phase:
  assumes "book_inv T st"
    and "(case request of
          Some (CancelSome order_ids) \<Rightarrow>
            try_fold (cancel_order_from_user user) (st, [], dec_coins_new) order_ids
        | Some CancelAll \<Rightarrow> cancel_all_orders_from_user user (st, [], dec_coins_new)
        | None \<Rightarrow> Inr (st, [], dec_coins_new)) = Inr acc"
  shows "cancels T user (st, [], dec_coins_new) acc"
proof -
  have ok: "om_ok dec_coins_new" by (simp add: dec_coins_new_def)
  show ?thesis
    using assms(2) cancel_ids_cancels [OF assms(1) ok] cancel_all_from_user_cancels [OF assms(1) ok]
      cancels_refl [OF assms(1) ok, of user "[]"]
    by (auto split: option.splits cancel_order_request.splits)
qed

lemma batch_update_orders_Inr:
  assumes "book_inv T st" and "coins_ok (ctx_funds cx)"
    and "batch_update_orders cx st reqs request = Inr (st', msgs, events)"
  shows "book_inv T st' \<and> same_frame st st' \<and> others_untouched (ctx_sender cx) st st' \<and> \<not> dx_paused st \<and>
    (\<exists>out. msgs = [DexTransfer [(ctx_sender cx, out)]] \<and> coins_ok out \<and>
      (\<forall>d. book_debt st' d + unat (amount_of out d) * 10 ^ 30
        \<le> book_debt st d + unat (amount_of (ctx_funds cx) d) * 10 ^ 30))"
proof -
  let ?user = "ctx_sender cx"
  from assms(3) obtain st1 events1 refunds deposits refunds' funds1 funds2 where
    np: "\<not> dx_paused st"
    and c: "(case request of
          Some (CancelSome order_ids) \<Rightarrow>
            try_fold (cancel_order_from_user ?user) (st, [], dec_coins_new) order_ids
        | Some CancelAll \<Rightarrow> cancel_all_orders_from_user ?user (st, [], dec_coins_new)
        | None \<Rightarrow> Inr (st, [], dec_coins_new)) = Inr (st1, events1, refunds)"
    and f: "try_fold (create_order (ctx_height cx) ?user) (st1, events1, coins_new) reqs = Inr (st', events, deposits)"
    and r: "into_coins_floor 6 refunds = Inr refunds'"
    and i: "coins_insert_many (ctx_funds cx) (coins_iter refunds') = Inr funds1"
    and dd: "coins_deduct_many funds1 (coins_iter deposits) = Inr funds2"
    and m: "msgs = [DexTransfer [(?user, funds2)]]"
    unfolding batch_update_orders_def by (auto simp: and_then_Inr_iff ensure_Inr_iff map_err_Inr_iff)
  have can: "cancels T ?user (st, [], dec_coins_new) (st1, events1, refunds)" by (rule cancel_phase [OF assms(1) c])
  then have st1: "book_inv T st1" "om_ok refunds" by (simp_all add: cancels_def)
  have new: "coins_ok coins_new" by (simp add: coins_ok_def coins_new_def)
  note cre = create_list_creates [OF st1(1) new f]
  then have dep: "coins_ok deposits" by (simp add: creates_def)
  from into_coins_floor_total [OF st1(2), of 6] r have rr: "coins_ok refunds'"
    "\<And>d. unat (amount_of refunds' d) = om_amount refunds d div 10 ^ 6" by auto
  note ins = coins_insert_many_Inr [OF assms(2) i]
  note ded = coins_deduct_many_Inr [OF ins(1) dd]
  have "book_debt st' d + unat (amount_of funds2 d) * 10 ^ 30
      \<le> book_debt st d + unat (amount_of (ctx_funds cx) d) * 10 ^ 30" for d
  proof -
    have z: "unat (amount_of coins_new d) = 0" "om_amount dec_coins_new d = 0"
      by (simp_all add: amount_of_def coins_new_def om_amount_def dec_coins_new_def)
    have 1: "book_debt st1 d + om_amount refunds d * 10 ^ 24 \<le> book_debt st d"
      using cancels_debt [OF can, of d] by (simp add: z)
    have 2: "book_debt st' d \<le> book_debt st1 d + unat (amount_of deposits d) * 10 ^ 30"
      using creates_debt [OF cre, of d] by (simp add: z)
    have 3: "unat (amount_of funds1 d) = unat (amount_of (ctx_funds cx) d) + om_amount refunds d div 10 ^ 6"
      using ins(2) [of d] by (simp add: coins_iter_sum [OF rr(1)] rr(2))
    have 4: "unat (amount_of funds1 d) = unat (amount_of funds2 d) + unat (amount_of deposits d)"
      using ded by (simp add: coins_iter_sum [OF dep])
    have 5: "om_amount refunds d div 10 ^ 6 * 10 ^ 30 \<le> om_amount refunds d * 10 ^ 24"
    proof -
      have "om_amount refunds d div 10 ^ 6 * 10 ^ 6 \<le> om_amount refunds d" by simp
      then show ?thesis by simp
    qed
    from 1 2 3 4 5 show ?thesis by simp
  qed
  moreover have "same_frame st st'" "others_untouched ?user st st'"
    using can cre same_frame_trans [of st st1 st'] others_untouched_trans [of ?user st st1 st']
    unfolding cancels_def creates_def prod.case by blast+
  moreover have "book_inv T st'" using cre by (simp add: creates_def)
  moreover have "coins_ok funds2" using ded ..
  ultimately show ?thesis using m np by blast
qed

text \<open>C12: A batch of cancellations and creations by one user keeps the book consistent (indexes, ids, and
  the depth charts of the pairs T where they were right before; nothing is asked of the parameters of the
  pairs), leaves every order of every other user as it is, and pays the sender no more than the funds
  sent plus what the cancelled orders set aside less what the new orders set aside.\<close>

theorem batch_update_orders_safe:
  assumes "book_inv T st" and "coins_ok (ctx_funds cx)"
    and "batch_update_orders cx st reqs request = Inr (st', msgs, events)"
  shows "book_inv T st' \<and>
    (\<forall>key ord. o_user ord \<noteq> ctx_sender cx \<longrightarrow>
      (map_of (orders_of st') key = Some ord \<longleftrightarrow> map_of (orders_of st) key = Some ord)) \<and>
    (\<exists>out. msgs = [DexTransfer [(ctx_sender cx, out)]] \<and> (\<forall>d.
      book_debt st' d + unat (amount_of out d) * 10 ^ 30
        \<le> book_debt st d + unat (amount_of (ctx_funds cx) d) * 10 ^ 30))"
  using batch_update_orders_Inr [OF assms] unfolding others_untouched_def by blast

subsection \<open>An owner can cancel\<close>

lemma coins_insert_all_loop:
  assumes "coins_ok (m @ cs)"
  shows "try_fold coins_insert m (coins_iter cs) = Inr (m @ cs)"
  using assms
proof (induction cs arbitrary: m)
  case Nil
  then show ?case by (simp add: coins_iter_def)
next
  case (Cons e cs)
  obtain d a where e: "e = (d, a)" by (cases e)
  have lt: "fst x < d" if "x \<in> set m" for x
    using Cons.prems that by (auto simp: coins_ok_def om_ok_def e sorted_wrt_append)
  then have "map_of m d = None" by (intro map_of_notin) fastforce
  moreover have "a \<noteq> 0" using Cons.prems by (auto simp: coins_ok_def e)
  ultimately have "coins_insert m (mk_coin d a) = Inr (m @ [(d, a)])"
    by (simp add: coins_insert_def zero_defs om_insert_last [OF lt])
  with Cons.IH [of "m @ [(d, a)]"] Cons.prems show ?case by (simp add: e coins_iter_def)
qed

lemma coins_insert_all: "coins_ok cs \<Longrightarrow> coins_insert_many coins_new (coins_iter cs) = Inr cs"
  using coins_insert_all_loop [of "[]" cs] by (simp add: coins_insert_many_def coins_new_def)

lemma cancel_one_total:
  assumes "book_inv T st" and "map_of (orders_of st) key = Some ord" and "o_tif ord = GoodTilCanceled"
    and "fst key \<in> T" and "o_remaining ord \<noteq> 0"
  shows "\<exists>st' events refunds. cancel_order_from_user (o_user ord) (st, [], dec_coins_new) (o_id ord) = Inr (st', events, refunds)
    \<and> orders_of st' = om_remove key (orders_of st) \<and> om_ok refunds \<and>
    (\<forall>d. om_amount refunds d = refund_amount key ord d)"
proof -
  obtain pair dir price oid where key: "key = (pair, dir, price, oid)" by (cases key)
  note inv = book_invD [OF assms(1)]
  have mem: "(key, ord) \<in> set (orders_of st)" by (rule map_of_SomeD [OF assms(2)])
  from inv(4) [OF this] assms(3) have id: "o_id ord = oid" and v: "value_at (o_remaining ord) (key_price key) < 2 ^ 128"
    by (auto simp: entry_ok_def key)
  have ld: "unique_load (dx_orders st) (o_id ord) = Inr (key, ord)"
    using mem unique_load_iff [OF inv(1)] by (simp add: orders_of_def key id)
  have z: "om_amount dec_coins_new d = 0" for d by (simp add: om_amount_def dec_coins_new_def)
  have r: "refund_amount key ord d < 2 ^ 128" for d
    using v unat_less_pow [of "o_remaining ord"]
    by (auto simp: refund_amount_def key split: direction.splits prod.splits)
  have "\<exists>acc. cancel_and_remove (st, [], dec_coins_new) (key, ord) = Inr acc"
    by (rule cancel_and_remove_total [OF assms(1,2,4,5) v]) (simp add: z r [simplified])
  then obtain st' events refunds where c: "cancel_and_remove (st, [], dec_coins_new) (key, ord) = Inr (st', events, refunds)"
    by (metis prod.collapse)
  have "om_ok dec_coins_new" by (simp add: dec_coins_new_def)
  note eff = cancel_and_remove_Inr [OF assms(1) this assms(2) c]
  have "cancel_order_from_user (o_user ord) (st, [], dec_coins_new) (o_id ord) = Inr (st', events, refunds)"
    by (simp add: cancel_order_from_user_def ld c)
  with eff z show ?thesis by auto
qed

text \<open>While trading is not paused, the owner of a non-empty resting good-til-canceled order on a tracked pair
  can cancel it, whatever else is in the book.\<close>

lemma owner_cancels:
  assumes "book_inv T st" and "\<not> dx_paused st" and "map_of (orders_of st) key = Some ord"
    and "o_tif ord = GoodTilCanceled" and "ctx_sender cx = o_user ord" and "ctx_funds cx = coins_new"
    and "fst key \<in> T" and "o_remaining ord \<noteq> 0"
  shows "\<exists>st' events out. batch_update_orders cx st [] (Some (CancelSome [o_id ord])) =
      Inr (st', [DexTransfer [(o_user ord, out)]], events) \<and>
    orders_of st' = om_remove key (orders_of st) \<and>
    (\<forall>d. unat (amount_of out d) = refund_amount key ord d div 10 ^ 6)"
proof -
  from cancel_one_total [OF assms(1,3,4,7,8)] obtain st' events refunds where
    c: "cancel_order_from_user (o_user ord) (st, [], dec_coins_new) (o_id ord) = Inr (st', events, refunds)"
      "orders_of st' = om_remove key (orders_of st)"
    and r: "om_ok refunds" "\<And>d. om_amount refunds d = refund_amount key ord d" by blast
  from into_coins_floor_total [OF r(1), of 6] obtain out where out: "into_coins_floor 6 refunds = Inr out"
    "coins_ok out" "\<And>d. unat (amount_of out d) = refund_amount key ord d div 10 ^ 6" by (auto simp: r(2))
  have d: "coins_deduct_many out (coins_iter coins_new) = Inr out"
    by (simp add: coins_deduct_many_def coins_iter_def coins_new_def)
  have "batch_update_orders cx st [] (Some (CancelSome [o_id ord])) = Inr (st', [DexTransfer [(o_user ord, out)]], events)"
    using assms(2,5,6) c(1) out(1) by (simp add: batch_update_orders_def coins_insert_all [OF out(2)] d)
  with c(2) out(3) show ?thesis by blast
qed

subsection \<open>Cancelling everything\<close>

lemma cancel_all_loop:
  assumes "book_inv T st" and "orders_of st = es" and "transfers_ok refunds"
    and "try_fold (\<lambda>(st, events, refunds) (key, ord).
       and_then (cancel_and_remove
           (st, events, case map_of refunds (o_user ord) of None \<Rightarrow> dec_coins_new | Some cs \<Rightarrow> cs)
           (key, ord)) (\<lambda>(st', events', cs).
         Inr (st', events', om_insert (o_user ord) cs refunds)))
       (st, events, refunds) es = Inr (st', events', refunds')"
  shows "book_inv T st' \<and> orders_of st' = [] \<and> transfers_ok refunds' \<and> same_frame st st' \<and>
    (\<forall>d. book_debt st' d + transfers_total refunds' d * 10 ^ 24 \<le> book_debt st d + transfers_total refunds d * 10 ^ 24)"
  using assms
proof (induction es arbitrary: st events refunds)
  case Nil
  then show ?case by (simp add: same_frame_refl)
next
  case (Cons e es)
  obtain key ord where e: "e = (key, ord)" by (cases e)
  let ?user = "o_user ord"
  from Cons.prems(4) obtain st1 ev1 cs where
    c: "cancel_and_remove (st, events, transfers_of refunds ?user) (key, ord) = Inr (st1, ev1, cs)"
    and rest: "try_fold (\<lambda>(st, events, refunds) (key, ord).
       and_then (cancel_and_remove
           (st, events, case map_of refunds (o_user ord) of None \<Rightarrow> dec_coins_new | Some cs \<Rightarrow> cs)
           (key, ord)) (\<lambda>(st', events', cs).
         Inr (st', events', om_insert (o_user ord) cs refunds)))
       (st1, ev1, om_insert ?user cs refunds) es = Inr (st', events', refunds')"
    by (auto simp: e and_then_Inr_iff transfers_of_def)
  note om = book_invD(2) [OF Cons.prems(1)]
  have k: "map_of (orders_of st) key = Some ord" by (simp add: Cons.prems(2) e)
  note eff = cancel_and_remove_Inr [OF Cons.prems(1) transfers_of_ok [OF Cons.prems(3)] k c]
  have es: "orders_of st1 = es"
  proof -
    have "\<forall>x \<in> set es. fst x \<noteq> key" using om unfolding Cons.prems(2) by (auto simp: e om_ok_Cons)
    then show ?thesis using eff by (simp add: om_remove_def Cons.prems(2) e)
  qed
  have up: "transfers_update refunds ?user (\<lambda>_. Inr cs) = Inr (om_insert ?user cs refunds)"
    by (simp add: transfers_update_def may_update_def)
  have tr: "transfers_ok (om_insert ?user cs refunds) \<and>
      transfers_total (om_insert ?user cs refunds) d = transfers_total refunds d + refund_amount key ord d" for d
    using transfers_update_Inr [OF Cons.prems(3) up, of "refund_amount key ord" d] eff by simp
  have "book_inv T st1" using eff by simp
  note ih = Cons.IH [OF this es conjunct1 [OF tr] rest]
  have "book_debt st1 d + refund_amount key ord d * 10 ^ 24 \<le> book_debt st d" for d
  proof -
    have "book_debt st1 d + om_amount cs d * 10 ^ 24
        \<le> book_debt st d + om_amount (transfers_of refunds ?user) d * 10 ^ 24"
      "om_amount cs d = om_amount (transfers_of refunds ?user) d + refund_amount key ord d" using eff by blast+
    then show ?thesis by (simp add: add_mult_distrib)
  qed
  moreover have "same_frame st st'"
    using eff ih by (auto simp: same_frame_def)
  ultimately show ?case using ih tr by (auto simp: add_mult_distrib intro: order_trans)
qed

lemma force_cancel_orders_Inr:
  assumes "book_inv T st" and "force_cancel_orders st = Inr (st', msgs, events)"
  shows "book_inv T st' \<and> same_frame st st' \<and> orders_of st' = [] \<and>
    (\<exists>batch. msgs = [DexTransfer batch] \<and> (\<forall>d. batch_total batch d * 10 ^ 30 \<le> book_debt st d))"
proof -
  from assms(2) obtain refunds batch where c: "cancel_all_orders st = Inr (st', events, refunds)"
    and b: "transfers_into_batch 6 refunds = Inr batch" and m: "msgs = [DexTransfer batch]"
    by (auto simp: force_cancel_orders_def result_iff)
  note eff = cancel_all_loop [OF assms(1) refl transfers_new_ok(1) c [unfolded cancel_all_orders_def]]
  then have tr: "transfers_ok refunds" by simp
  have "batch_total batch d * 10 ^ 30 \<le> book_debt st d" for d
  proof -
    have "book_debt st' d + transfers_total refunds d * 10 ^ 24 \<le> book_debt st d + transfers_total transfers_new d * 10 ^ 24"
      using eff by blast
    then have "transfers_total refunds d * 10 ^ 24 \<le> book_debt st d" by simp
    moreover have "batch_total batch d \<le> transfers_total refunds d div 10 ^ 6"
      using transfers_into_batch_total [OF tr, of 6] b by auto
    then have "batch_total batch d * 10 ^ 6 \<le> transfers_total refunds d"
      by (meson div_times_less_eq_dividend mult_le_mono1 order_trans)
    moreover have "batch_total batch d * 10 ^ 30 = batch_total batch d * 10 ^ 6 * 10 ^ 24" by simp
    ultimately show ?thesis by (metis mult_le_mono1 order_trans)
  qed
  with eff m show ?thesis by blast
qed

subsection \<open>Pair updates\<close>

lemma om_sum_cong: "(\<And>k v. (k, v) \<in> set m \<Longrightarrow> w k v = w' k v) \<Longrightarrow> om_sum w m = om_sum w' m"
  by (induction m) auto

text \<open>The pairs of a list of updates have no order resting in the book.\<close>

definition quiet :: "dex_state \<Rightarrow> pair_key \<Rightarrow> bool" where
  "quiet st pair \<longleftrightarrow> (\<forall>e \<in> set (orders_of st). fst (fst e) \<noteq> pair)"

text \<open>The pairs whose depth chart an update leaves right: those it does not touch, and the quiet ones.\<close>

definition still_tracked :: "pair_key set \<Rightarrow> dex_state \<Rightarrow> pair_update list \<Rightarrow> pair_key set" where
  "still_tracked T st updates = {p \<in> T. p \<in> pu_pair ` set updates \<longrightarrow> quiet st p}"

definition proper_update :: "pair_update \<Rightarrow> bool" where
  "proper_update u \<longleftrightarrow> distinct (pp_bucket_sizes (pu_params u))"

lemma update_pair_inv:
  assumes "book_inv T st" and "pair \<in> T \<Longrightarrow> quiet st pair" and "distinct (pp_bucket_sizes params)"
    and "st' = st\<lparr>dx_pairs := om_insert pair params (dx_pairs st)\<rparr>"
  shows "book_inv T st'"
proof -
  note inv = book_invD [OF assms(1)]
  have om: "om_ok (dx_pairs st)" using inv(3) by (simp add: pairs_ok_def)
  have o: "orders_of st' = orders_of st" "dx_depths st' = dx_depths st" "dx_orders st' = dx_orders st"
    by (simp_all add: assms(4) orders_of_def)
  have bk: "buckets_of st' p = buckets_of st p" if "p \<noteq> pair" for p
    using that by (simp add: buckets_of_def assms(4) map_of_om_insert om)
  have other: "p \<noteq> pair" if "((p, dir, price, oid), ord) \<in> set (orders_of st)" "p \<in> T" for p dir price oid ord
    using assms(2) that by (fastforce simp: quiet_def)
  have "pairs_ok (dx_pairs st')"
    using inv(3) assms(3) by (auto simp: pairs_ok_def assms(4) om_ok_insert om_insert_entries)
  moreover have "entry_ok T st' e" if "e \<in> set (orders_of st)" for e
  proof -
    obtain p dir price oid ord where e: "e = ((p, dir, price, oid), ord)" by (metis prod.collapse)
    have "buckets_of st' p = buckets_of st p" if "p \<in> T" using other [OF _ that] bk \<open>e \<in> _\<close> by (auto simp: e)
    moreover have "map_of (dx_pairs st) p \<noteq> None \<Longrightarrow> map_of (dx_pairs st') p \<noteq> None"
      by (auto simp: assms(4) map_of_om_insert om)
    moreover have "next_id st' = next_id st" by (simp add: next_id_def assms(4))
    ultimately show ?thesis using inv(4) [OF that] by (auto simp: entry_ok_def e)
  qed
  moreover have "depths_track T (buckets_of st') (orders_of st) (dx_depths st)"
  proof (rule depths_trackI)
    fix key :: depth_key assume t: "fst key \<in> T"
    have "w (buckets_of st') key k v = w (buckets_of st) key k v"
      if kv: "(k, v) \<in> set (orders_of st)" and w: "w = base_weight \<or> w = quote_weight" for w k v
    proof -
      obtain p dir price oid where k: "k = (p, dir, price, oid)" by (metis prod.collapse)
      have "counts (buckets_of st') key k v = counts (buckets_of st) key k v"
        using other [OF kv [unfolded k]] t bk [of p] by (cases "p \<in> T") (auto simp: counts_def k in_bucket_def)
      then show ?thesis using w by (auto simp: base_weight_def quote_weight_def)
    qed
    then have "om_sum (w (buckets_of st') key) (orders_of st) = om_sum (w (buckets_of st) key) (orders_of st)"
      if "w = base_weight \<or> w = quote_weight" for w
      using that by (intro om_sum_cong) blast
    with depths_trackD(2,3) [OF inv(5) t]
    show "depth_base (dx_depths st) key = om_sum (base_weight (buckets_of st') key) (orders_of st) \<and>
        om_sum (quote_weight (buckets_of st') key) (orders_of st) \<le> depth_quote (dx_depths st) key" by simp
  qed (rule depths_trackD [OF inv(5)])
  ultimately show ?thesis using inv(1) by (simp add: book_inv_def o)
qed

lemma batch_update_pairs_Inr:
  assumes "book_inv T st" and "\<And>u. u \<in> set updates \<Longrightarrow> proper_update u"
    and "batch_update_pairs owner cx st updates = Inr (st', msgs, events)"
  shows "book_inv (still_tracked T st updates) st' \<and> book_debt st' = book_debt st \<and> msgs = [] \<and>
    dx_reserves st' = dx_reserves st \<and> orders_of st' = orders_of st"
proof -
  let ?T = "still_tracked T st updates"
  let ?I = "\<lambda>s. book_inv ?T s \<and> dx_reserves s = dx_reserves st \<and> orders_of s = orders_of st"
  from assms(3) obtain r where r: "try_fold (\<lambda>st u.
         and_then (ensure (denom_starts_with (pp_lp_denom (pu_params u)) lp_prefix)
           (Bail ''LP token denom does not start with the correct prefix'')) (\<lambda>_.
         Inr (st\<lparr>dx_pairs := om_insert (pu_pair u) (pu_params u) (dx_pairs st)\<rparr>))) st updates = Inr st'"
    and m: "msgs = []"
    by (auto simp: batch_update_pairs_def result_iff)
  have "?I st'"
  proof (rule try_fold_invariant [where I = ?I, OF _ _ r])
    fix s u s' assume u: "u \<in> set updates" and i: "?I s"
      and "and_then (ensure (denom_starts_with (pp_lp_denom (pu_params u)) lp_prefix)
           (Bail ''LP token denom does not start with the correct prefix'')) (\<lambda>_.
         Inr (s\<lparr>dx_pairs := om_insert (pu_pair u) (pu_params u) (dx_pairs s)\<rparr>)) = Inr s'"
    then have s': "s' = s\<lparr>dx_pairs := om_insert (pu_pair u) (pu_params u) (dx_pairs s)\<rparr>"
      by (auto simp: result_iff)
    have "quiet s (pu_pair u)" if "pu_pair u \<in> ?T" using that u i by (auto simp: still_tracked_def quiet_def)
    from update_pair_inv [OF conjunct1 [OF i] this _ s'] assms(2) [OF u] i show "?I s'"
      by (auto simp: s' orders_of_def proper_update_def)
  qed (auto simp: still_tracked_def intro: book_inv_subset [OF assms(1)])
  with m show ?thesis by (simp add: book_debt_def fun_eq_iff)
qed

subsection \<open>Samples\<close>

definition sample_params :: "udec list \<Rightarrow> pair_params" where
  "sample_params bucket_sizes = \<lparr>pp_lp_denom = [''dex'', ''pool'', ''a''],
     pp_pool_type = PoolXyk \<lparr>xyk_spacing = 1, xyk_reserve_ratio = 0, xyk_limit = 1\<rparr>,
     pp_bucket_sizes = bucket_sizes, pp_swap_fee_rate = 0, pp_min_order_size = 0\<rparr>"

definition sample_dex :: dex_state where
  "sample_dex = \<lparr>dx_paused = False, dx_pairs = [(([''a''], [''b'']), sample_params [10 ^ 24])],
     dx_reserves = [], dx_resting = [], dx_next_order_id = None, dx_orders = indexed_new, dx_depths = [],
     dx_volumes = [], dx_volumes_by_user = []\<rparr>"

definition sample_ask :: create_order_request where
  "sample_ask = \<lparr>cr_pair = ([''a''], [''b'']), cr_price = LimitPrice (2 * 10 ^ 24), cr_amount = AskBase 5,
     cr_tif = GoodTilCanceled\<rparr>"

definition user_ctx :: "coins \<Rightarrow> ctx" where
  "user_ctx funds = \<lparr>ctx_contract = 9, ctx_sender = 4, ctx_funds = funds, ctx_time = 0, ctx_height = 3\<rparr>"

definition resting_ask :: order where
  "resting_ask = \<lparr>o_user = 4, o_id = 1, o_direction = Ask, o_tif = GoodTilCanceled, o_price = 2 * 10 ^ 24,
     o_amount = 5, o_remaining = 5000000, o_created = Some 3\<rparr>"

definition sample_book :: dex_state where
  "sample_book = sample_dex\<lparr>dx_next_order_id := Some 2,
     dx_orders := \<lparr>im_primary = [((([''a''], [''b'']), Ask, 2 * 10 ^ 24, 1), resting_ask)],
       im_unique = [(1, ([''a''], [''b'']), Ask, 2 * 10 ^ 24, 1)],
       im_first = [((4, ([''a''], [''b'']), Ask, 2 * 10 ^ 24, 1), ())],
       im_second = [((GoodTilCanceled, ([''a''], [''b'']), Ask, 2 * 10 ^ 24, 1), ())]\<rparr>,
     dx_depths := [((([''a''], [''b'']), 10 ^ 24, Ask, 2 * 10 ^ 24), 5000000, 10000000)]\<rparr>"

lemma sample_dex_inv: "book_inv T sample_dex"
  by (auto simp: book_inv_def sample_dex_def indexed_new_ok pairs_ok_def sample_params_def orders_of_def
      indexed_new_def [THEN arg_cong, of im_primary] om_ok_def depths_track_def depth_base_def depth_quote_def)

lemma sample_book_reached:
  "batch_update_orders (user_ctx [([''a''], 7)]) sample_dex [sample_ask] None =
     Inr (sample_book, [DexTransfer [(4, [([''a''], 2)])]],
       [OrderCreated \<lparr>oc_user = 4, oc_id = 1, oc_tif = GoodTilCanceled, oc_pair = ([''a''], [''b'']),
          oc_direction = Ask, oc_price = 2 * 10 ^ 24, oc_amount = 5, oc_deposit = mk_coin [''a''] 5\<rparr>])"
  by (simp add: batch_update_orders_def sample_dex_def user_ctx_def sample_ask_def sample_params_def create_order_def
    order_price_def dec_eval dec_coins_new_def sample_book_def book_save_def indexed_save_def indexed_replace_def
    indexed_new_def unique_save_def multi_save_def next_order_id_def depths_up_def increase_liquidity_depths_def
    may_update_def resting_ask_def order_index_def into_coins_floor_def round_coins_def coins_iter_def
    coins_insert_many_def coins_insert_def coins_deduct_many_def coins_deduct_def coins_new_def checked_into_dec_def
    dec_mul_eq_ratio get_bucket_def mk_coin_def Let_def om_load_def dec_add_def checked_mul_def dec_div_def
    checked_floor_def checked_rem_def checked_div_def)

lemma sample_book_inv: "book_inv T sample_book"
proof -
  have "coins_ok (ctx_funds (user_ctx [([''a''], 7)]))" by (simp add: user_ctx_def coins_ok_def om_ok_def)
  from batch_update_orders_Inr [OF sample_dex_inv this sample_book_reached] show ?thesis by blast
qed

lemma sample_resting:
  "map_of (orders_of sample_book) (([''a''], [''b'']), Ask, 2 * 10 ^ 24, 1) = Some resting_ask"
  by (simp add: sample_book_def orders_of_def)

lemma batch_update_orders_safe_witness:
  "book_debt sample_book [''a''] + 2 * 10 ^ 30 \<le> 7 * 10 ^ 30"
proof -
  have "coins_ok (ctx_funds (user_ctx [([''a''], 7)]))" by (simp add: user_ctx_def coins_ok_def om_ok_def)
  from batch_update_orders_safe [OF sample_dex_inv this sample_book_reached]
  have "book_debt sample_book [''a''] + unat (amount_of [([''a''], 2)] [''a'']) * 10 ^ 30
      \<le> book_debt sample_dex [''a''] + unat (amount_of (ctx_funds (user_ctx [([''a''], 7)])) [''a'']) * 10 ^ 30"
    by fast
  then show ?thesis
    by (simp add: book_debt_def sample_dex_def orders_of_def indexed_new_def user_ctx_def amount_of_def)
qed

end
