(* ===== verification/Pool_Safety.thy ===== *)
theory Pool_Safety
  imports Pools Book_Handlers
begin

text \<open>
  What the pools keep: every swap, deposit and withdrawal moves exactly the coins it names in and out
  of the reserves, so that the reserves of all pools together grow by what the exchange takes in and
  shrink by what it sends out; liquidity tokens are minted and redeemed at no better than the pro-rata
  rate.
\<close>

subsection \<open>Amounts in a coin pair\<close>

definition pair_amount :: "coin_pair \<Rightarrow> denom \<Rightarrow> nat" where
  "pair_amount p d = (if c_denom (fst p) = d then unat (c_amount (fst p)) else 0) +
     (if c_denom (snd p) = d then unat (c_amount (snd p)) else 0)"

definition coin_amount :: "coin \<Rightarrow> denom \<Rightarrow> nat" where
  "coin_amount c d = (if c_denom c = d then unat (c_amount c) else 0)"

definition pair_denoms :: "coin_pair \<Rightarrow> denom \<times> denom" where
  "pair_denoms p = (c_denom (fst p), c_denom (snd p))"

lemma coin_pair_add_Inr:
  assumes "coin_pair_ok p" and "coin_pair_add p c = Inr p'"
  shows "pair_denoms p' = pair_denoms p \<and> coin_pair_ok p' \<and> pair_amount p' d = pair_amount p d + coin_amount c d"
proof (cases "c_denom (fst p) = c_denom c")
  case True
  with assms(2) obtain a where a: "checked_add (c_amount (fst p)) (c_amount c) = Inr a" and p': "p' = ((fst p)\<lparr>c_amount := a\<rparr>, snd p)"
    unfolding coin_pair_add_def by (auto simp: and_then_Inr_iff)
  show ?thesis
    using a [unfolded checked_add_Inr] assms(1) True
    by (simp add: p' pair_denoms_def coin_pair_ok_def pair_amount_def coin_amount_def)
next
  case False
  with assms(2) obtain a where 2: "c_denom (snd p) = c_denom c"
    and a: "checked_add (c_amount (snd p)) (c_amount c) = Inr a" and p': "p' = (fst p, (snd p)\<lparr>c_amount := a\<rparr>)"
    unfolding coin_pair_add_def by (auto simp: and_then_Inr_iff split: if_split_asm)
  show ?thesis
    using a [unfolded checked_add_Inr] assms(1) False 2
    by (simp add: p' pair_denoms_def coin_pair_ok_def pair_amount_def coin_amount_def)
qed

lemma coin_pair_sub_Inr:
  assumes "coin_pair_ok p" and "coin_pair_sub p c = Inr p'"
  shows "pair_denoms p' = pair_denoms p \<and> coin_pair_ok p' \<and> pair_amount p d = pair_amount p' d + coin_amount c d"
proof (cases "c_denom (fst p) = c_denom c")
  case True
  with assms(2) obtain a where a: "checked_sub (c_amount (fst p)) (c_amount c) = Inr a" and p': "p' = ((fst p)\<lparr>c_amount := a\<rparr>, snd p)"
    unfolding coin_pair_sub_def by (auto simp: and_then_Inr_iff)
  show ?thesis
    using a [unfolded checked_sub_Inr] assms(1) True
    by (simp add: p' pair_denoms_def coin_pair_ok_def pair_amount_def coin_amount_def)
next
  case False
  with assms(2) obtain a where 2: "c_denom (snd p) = c_denom c"
    and a: "checked_sub (c_amount (snd p)) (c_amount c) = Inr a" and p': "p' = (fst p, (snd p)\<lparr>c_amount := a\<rparr>)"
    unfolding coin_pair_sub_def by (auto simp: and_then_Inr_iff split: if_split_asm)
  show ?thesis
    using a [unfolded checked_sub_Inr] assms(1) False 2
    by (simp add: p' pair_denoms_def coin_pair_ok_def pair_amount_def coin_amount_def)
qed

lemma coin_pair_merge_Inr:
  assumes "coin_pair_merge p q = Inr p'"
  shows "pair_denoms p' = pair_denoms p \<and> pair_denoms q = pair_denoms p \<and> (coin_pair_ok p' \<longleftrightarrow> coin_pair_ok p) \<and>
    pair_amount p' d = pair_amount p d + pair_amount q d"
proof -
  from assms obtain a b where d: "c_denom (fst p) = c_denom (fst q)" "c_denom (snd p) = c_denom (snd q)"
    and a: "checked_add (c_amount (fst p)) (c_amount (fst q)) = Inr a"
    and b: "checked_add (c_amount (snd p)) (c_amount (snd q)) = Inr b"
    and p': "p' = ((fst p)\<lparr>c_amount := a\<rparr>, (snd p)\<lparr>c_amount := b\<rparr>)"
    unfolding coin_pair_merge_def by (auto simp: and_then_Inr_iff split: if_split_asm)
  show ?thesis
    using a [unfolded checked_add_Inr] b [unfolded checked_add_Inr] d
    by (simp add: p' pair_denoms_def coin_pair_ok_def pair_amount_def)
qed

lemma coin_pair_split_Inr:
  assumes "coin_pair_split p n m = Inr (p', q)"
  shows "pair_denoms p' = pair_denoms p \<and> pair_denoms q = pair_denoms p \<and> (coin_pair_ok p' \<longleftrightarrow> coin_pair_ok p) \<and>
    pair_amount p d = pair_amount p' d + pair_amount q d"
  using coin_pair_split_sum [OF assms] assms
  by (auto simp: coin_pair_split_def and_then_Inr_iff pair_denoms_def coin_pair_ok_def pair_amount_def)

subsection \<open>Swaps and deposits move what they say\<close>

lemma pool_swap_in_Inr:
  assumes "coin_pair_ok reserve" and "pool_swap_in oracle params pair reserve input = Inr (reserve', output)"
  shows "coin_pair_ok reserve' \<and> c_amount output \<noteq> 0 \<and>
    pair_amount reserve' d + coin_amount output d = pair_amount reserve d + coin_amount input d"
proof -
  from assms(2) obtain r1 where r: "coin_pair_add reserve input = Inr r1" "coin_pair_sub r1 output = Inr reserve'"
    and pos: "is_positive (c_amount output)"
    unfolding pool_swap_in_def Let_def and_then_Inr_iff ensure_Inr_iff by blast
  note a = coin_pair_add_Inr [OF assms(1) r(1)]
  then have "coin_pair_ok r1" by simp
  from coin_pair_sub_Inr [OF this r(2), of d] a [of d] pos show ?thesis
    by (simp add: is_positive_def word_gt_0)
qed

lemma pool_swap_out_Inr:
  assumes "coin_pair_ok reserve" and "pool_swap_out oracle params pair reserve output = Inr (reserve', input)"
  shows "coin_pair_ok reserve' \<and> c_amount input \<noteq> 0 \<and>
    pair_amount reserve' d + coin_amount output d = pair_amount reserve d + coin_amount input d"
proof -
  from assms(2) obtain r1 where r: "coin_pair_add reserve input = Inr r1" "coin_pair_sub r1 output = Inr reserve'"
    and pos: "is_positive (c_amount input)"
    unfolding pool_swap_out_def Let_def and_then_Inr_iff ensure_Inr_iff by blast
  note a = coin_pair_add_Inr [OF assms(1) r(1)]
  then have "coin_pair_ok r1" by simp
  from coin_pair_sub_Inr [OF this r(2), of d] a [of d] pos show ?thesis
    by (simp add: is_positive_def word_gt_0)
qed

lemma pool_add_liquidity_Inr:
  assumes "pool_add_liquidity oracle params reserve lp_supply deposit = Inr (reserve', minted)"
  shows "coin_pair_merge reserve deposit = Inr reserve'"
  using assms
  by (auto simp: pool_add_liquidity_def and_then_Inr_iff add_subsequent_liquidity_def
      geo_add_subsequent_liquidity_def split: if_splits passive_liquidity.splits)

subsection \<open>Routes\<close>

definition reserves_total :: "reserves \<Rightarrow> denom \<Rightarrow> nat" where
  "reserves_total m d = om_sum (\<lambda>_ p. pair_amount p d) m"

definition reserves_ok :: "reserves \<Rightarrow> bool" where
  "reserves_ok m \<longleftrightarrow> om_ok m \<and> (\<forall>e \<in> set m. coin_pair_ok (snd e))"

lemma reserves_total_insert:
  assumes "reserves_ok m" and "map_of m pair = Some p"
  shows "reserves_total (om_insert pair p' m) d + pair_amount p d = reserves_total m d + pair_amount p' d"
  using om_sum_insert [of m "\<lambda>_ p. pair_amount p d" pair p'] assms by (simp add: reserves_total_def reserves_ok_def)

lemma reserves_total_insert_new:
  assumes "reserves_ok m" and "map_of m pair = None"
  shows "reserves_total (om_insert pair p' m) d = reserves_total m d + pair_amount p' d"
  using om_sum_insert [of m "\<lambda>_ p. pair_amount p d" pair p'] assms by (simp add: reserves_total_def reserves_ok_def)

lemma reserves_ok_insert: "reserves_ok m \<Longrightarrow> coin_pair_ok p \<Longrightarrow> reserves_ok (om_insert pair p m)"
  by (auto simp: reserves_ok_def om_ok_insert om_insert_entries)

lemma reserves_okD: "reserves_ok m \<Longrightarrow> map_of m pair = Some p \<Longrightarrow> coin_pair_ok p"
  by (force simp: reserves_ok_def dest: map_of_SomeD)

definition put_all :: "reserves \<Rightarrow> reserves \<Rightarrow> reserves" where
  "put_all new m = fold (\<lambda>(pair, reserve). om_insert pair reserve) new m"

lemma put_all_ok: "om_ok m \<Longrightarrow> om_ok (put_all new m)"
  unfolding put_all_def by (induction new arbitrary: m) (auto simp: om_ok_insert)

lemma map_of_put_all:
  assumes "om_ok m" and "distinct (map fst new)"
  shows "map_of (put_all new m) k = (case map_of new k of None \<Rightarrow> map_of m k | Some p \<Rightarrow> Some p)"
  using assms unfolding put_all_def
proof (induction new arbitrary: m)
  case (Cons e new)
  obtain a p where e: "e = (a, p)" by (cases e)
  have "map_of new a = None" using Cons.prems(2) by (simp add: e map_of_eq_None_iff)
  with Cons show ?case by (auto simp: e om_ok_insert map_of_om_insert split: option.splits)
qed simp

lemma put_all_insert:
  assumes "om_ok m" and "om_ok new"
  shows "put_all (om_insert pair p new) m = om_insert pair p (put_all new m)"
proof (rule om_ext)
  show "map_of (put_all (om_insert pair p new) m) = map_of (om_insert pair p (put_all new m))"
    using assms map_of_put_all [OF assms(1) om_ok_distinct [OF om_ok_insert [OF assms(2)]]]
      map_of_put_all [OF assms(1) om_ok_distinct [OF assms(2)]]
    by (auto simp: fun_eq_iff map_of_om_insert put_all_ok)
qed (simp_all add: put_all_ok om_ok_insert assms)

text \<open>A swap moves \<open>coin\<close> into a pool and \<open>coin'\<close> out of it, or the other way round.\<close>

lemma route_moves:
  assumes "reserves_ok (dx_reserves st)" and "distinct route"
    and swap: "\<And>reserve params pair coin reserve' coin' d. coin_pair_ok reserve \<Longrightarrow>
      swap reserve params pair coin = Inr (reserve', coin') \<Longrightarrow>
      coin_pair_ok reserve' \<and> pair_amount reserve' d + f coin' d + g coin d = pair_amount reserve d + f coin d + g coin' d"
    and "try_fold (route_step swap st) ([], start) route = Inr (new, final)"
  shows "om_ok new \<and> reserves_ok (put_all new (dx_reserves st)) \<and>
    reserves_total (put_all new (dx_reserves st)) d + f final d + g start d
      = reserves_total (dx_reserves st) d + f start d + g final d"
proof -
  let ?m = "dx_reserves st"
  have "om_ok new' \<and> reserves_ok (put_all new' ?m) \<and>
      reserves_total (put_all new' ?m) d + f final d + g coin d = reserves_total (put_all new ?m) d + f coin d + g final d"
    if "try_fold (route_step swap st) (new, coin) route = Inr (new', final)" and "distinct route"
      and "om_ok new" and "reserves_ok (put_all new ?m)" and "\<And>p. p \<in> set route \<Longrightarrow> map_of new p = None"
    for new new' coin final route
    using that
  proof (induction route arbitrary: new coin)
    case (Cons pair route)
    from Cons.prems(1) obtain params reserve reserve' coin' where
      ld: "map_of ?m pair = Some reserve" and sw: "swap reserve params pair coin = Inr (reserve', coin')"
      and rest: "try_fold (route_step swap st) (om_insert pair reserve' new, coin') route = Inr (new', final)"
      by (auto simp: route_step_def and_then_Inr_iff om_load_Inr)
    have ok: "coin_pair_ok reserve" by (rule reserves_okD [OF assms(1) ld])
    note mv = swap [OF ok sw]
    have om: "om_ok ?m" using assms(1) by (simp add: reserves_ok_def)
    note ins = put_all_insert [OF om Cons.prems(3), of pair reserve']
    have cur: "map_of (put_all new ?m) pair = Some reserve"
      using map_of_put_all [OF om om_ok_distinct [OF Cons.prems(3)], of pair] Cons.prems(5) [of pair] ld by simp
    have "reserves_ok (put_all (om_insert pair reserve' new) ?m)"
      unfolding ins by (rule reserves_ok_insert [OF Cons.prems(4)]) (use mv in blast)
    moreover have "map_of (om_insert pair reserve' new) p = None" if "p \<in> set route" for p
      using that Cons.prems(2,5) by (auto simp: map_of_om_insert Cons.prems(3))
    ultimately have ih: "om_ok new' \<and> reserves_ok (put_all new' ?m) \<and>
        reserves_total (put_all new' ?m) d + f final d + g coin' d =
        reserves_total (put_all (om_insert pair reserve' new) ?m) d + f coin' d + g final d"
      using Cons.IH [OF rest] Cons.prems(2) by (simp add: om_ok_insert Cons.prems(3))
    have "reserves_total (put_all (om_insert pair reserve' new) ?m) d + pair_amount reserve d =
        reserves_total (put_all new ?m) d + pair_amount reserve' d"
      unfolding ins by (rule reserves_total_insert [OF Cons.prems(4) cur])
    with mv [of d] ih show ?case by linarith
  qed simp
  from this [OF assms(4,2)] assms(1) show ?thesis by (simp add: put_all_def)
qed

subsection \<open>Handlers\<close>

text \<open>What the exchange sends out with a message: transfers, payments to the taxman, and tokens it burns.\<close>

fun msg_out :: "dex_msg \<Rightarrow> denom \<Rightarrow> nat" where
  "msg_out (DexTransfer batch) d = batch_total batch d"
| "msg_out (DexPay _ _ funds) d = unat (amount_of funds d)"
| "msg_out (DexBurn _ cs) d = unat (amount_of cs d)"
| "msg_out (DexMint _ _) d = 0"
| "msg_out DexAuction d = 0"

definition msgs_out :: "dex_msg list \<Rightarrow> denom \<Rightarrow> nat" where
  "msgs_out msgs d = (\<Sum>m\<leftarrow>msgs. msg_out m d)"

lemma msgs_out_simps [simp]:
  "msgs_out [] d = 0" "msgs_out (m # ms) d = msg_out m d + msgs_out ms d"
  "msgs_out (ms @ ms') d = msgs_out ms d + msgs_out ms' d"
  by (simp_all add: msgs_out_def)

lemma batch_total_single [simp]: "batch_total [(user, cs)] d = unat (amount_of cs d)"
  by (simp add: batch_total_def)

lemma amount_of_macro [simp]: "amount_of (coins_macro d a) d' = (if d = d' then a else 0)"
  by (simp add: coins_macro_def amount_of_def is_zero_def)

lemma amount_of_from_coin [simp]: "unat (amount_of (coins_from_coin c) d) = coin_amount c d"
  by (simp add: coins_from_coin_def amount_of_def coin_amount_def)

lemma pay_protocol_fee_out: "msgs_out (pay_protocol_fee cx d0 fee) d = (if d0 = d then unat fee else 0)"
  by (simp add: pay_protocol_fee_def is_non_zero_def is_zero_def)

lemma coin_pair_into_coins_amount:
  "coin_pair_ok p \<Longrightarrow> unat (amount_of (coin_pair_into_coins p) d) = pair_amount p d"
  by (auto simp: coin_pair_into_coins_def Let_def amount_of_def pair_amount_def coin_pair_ok_def map_of_om_insert
      om_ok_insert zero_defs)

lemma coins_take_amount:
  assumes "om_ok cs" and "coins_take cs d0 = (rest, c)"
  shows "om_ok rest \<and> c_denom c = d0 \<and> unat (amount_of cs d) = unat (amount_of rest d) + coin_amount c d"
  using assms by (auto simp: coins_take_def om_ok_remove amount_of_om_remove coin_amount_def mk_coin_def)

lemma coins_is_empty_amount: "coins_is_empty cs \<Longrightarrow> amount_of cs d = 0"
  by (simp add: coins_is_empty_def amount_of_def)

lemma coin_pair_new_amount:
  assumes "coin_pair_new c1 c2 = Inr p"
  shows "coin_pair_ok p \<and> pair_amount p d = coin_amount c1 d + coin_amount c2 d"
proof -
  from assms consider "c_denom c1 < c_denom c2" "p = (c1, c2)" | "c_denom c2 < c_denom c1" "p = (c2, c1)"
    unfolding coin_pair_new_def by (metis linorder_neqE sum.distinct(1) sum.inject(2))
  then show ?thesis by cases (simp_all only: coin_pair_ok_def pair_amount_def coin_amount_def fst_conv snd_conv add.commute simp_thms)
qed

lemma coins_take_pair_amount:
  assumes "om_ok cs" and "coins_take_pair cs pair = Inr (rest, p)"
  shows "coin_pair_ok p \<and> unat (amount_of cs d) = unat (amount_of rest d) + pair_amount p d"
proof -
  obtain cs1 c1 cs2 c2 where t: "coins_take cs (fst pair) = (cs1, c1)" "coins_take cs1 (snd pair) = (cs2, c2)"
    by (metis prod.collapse)
  with assms(2) have n: "coin_pair_new c1 c2 = Inr p" "rest = cs2"
    by (auto simp: coins_take_pair_def case_prod_beta Let_def and_then_Inr_iff)
  from coins_take_amount [OF assms(1) t(1), of d] coins_take_amount [OF _ t(2), of d] coin_pair_new_amount [OF n(1), of d] n(2)
  show ?thesis by simp
qed

lemma into_one_coin_amount:
  assumes "into_one_coin cs = Inr c"
  shows "unat (amount_of cs d) = coin_amount c d"
  using assms
  by (auto simp: into_one_coin_def coins_len_def coins_iter_def amount_of_def coin_amount_def mk_coin_def
      length_Suc_conv split: if_splits list.splits)

definition conserves :: "ctx \<Rightarrow> dex_state \<Rightarrow> dex_state \<Rightarrow> dex_msg list \<Rightarrow> bool" where
  "conserves cx st st' msgs \<longleftrightarrow> reserves_ok (dx_reserves st') \<and>
     (\<exists>rs. st' = st\<lparr>dx_reserves := rs\<rparr>) \<and>
     (\<forall>d. reserves_total (dx_reserves st') d + msgs_out msgs d =
       reserves_total (dx_reserves st) d + unat (amount_of (ctx_funds cx) d))"

lemma provide_liquidity_conserves:
  assumes "reserves_ok (dx_reserves st)" and "coins_ok (ctx_funds cx)"
    and "provide_liquidity env cx st pair = Inr (st', msgs, events)"
  shows "conserves cx st st' msgs"
proof -
  from assms(3) obtain funds deposit params reserve lp_supply orc reserve' minted where
    t: "coins_take_pair (ctx_funds cx) pair = Inr (funds, deposit)" and e: "coins_is_empty funds"
    and r: "(case map_of (dx_reserves st) pair of
         None \<Rightarrow> coin_pair_new (mk_coin (fst pair) 0) (mk_coin (snd pair) 0)
       | Some reserve \<Rightarrow> Inr reserve) = Inr reserve"
    and a: "pool_add_liquidity orc params reserve lp_supply deposit = Inr (reserve', minted)"
    and st': "st' = st\<lparr>dx_reserves := om_insert pair reserve' (dx_reserves st)\<rparr>"
    and m: "msgs_out msgs = (\<lambda>_. 0)"
    unfolding provide_liquidity_def
    by (elim and_thenE) (auto simp: and_then_Inr_iff ensure_Inr_iff msgs_out_def fun_eq_iff split: if_splits)
  note dep = coins_take_pair_amount [OF coins_okD [OF assms(2)] t]
  have ok: "coin_pair_ok reserve \<and> reserves_total (dx_reserves st) d + pair_amount reserve' d =
      reserves_total (om_insert pair reserve' (dx_reserves st)) d + pair_amount reserve d" for d
  proof (cases "map_of (dx_reserves st) pair")
    case None
    with r have "coin_pair_new (mk_coin (fst pair) 0) (mk_coin (snd pair) 0) = Inr reserve" by simp
    from coin_pair_new_amount [OF this, of d] show ?thesis
      using reserves_total_insert_new [OF assms(1) None, of reserve' d] by (simp add: coin_amount_def mk_coin_def)
  next
    case (Some p)
    with r show ?thesis
      using reserves_total_insert [OF assms(1) Some, of reserve' d] reserves_okD [OF assms(1) Some] by simp
  qed
  note mg = coin_pair_merge_Inr [OF pool_add_liquidity_Inr [OF a]]
  have "reserves_ok (om_insert pair reserve' (dx_reserves st))"
    by (rule reserves_ok_insert [OF assms(1)]) (use mg ok in blast)
  moreover have "reserves_total (om_insert pair reserve' (dx_reserves st)) d =
      reserves_total (dx_reserves st) d + unat (amount_of (ctx_funds cx) d)" for d
    using ok [of d] mg [of d] dep [of d] coins_is_empty_amount [OF e, of d] by simp
  ultimately show ?thesis by (auto simp: conserves_def st' m)
qed

lemma withdraw_liquidity_conserves:
  assumes "reserves_ok (dx_reserves st)" and "coins_ok (ctx_funds cx)"
    and "withdraw_liquidity env cx st pair = Inr (st', msgs, events)"
  shows "conserves cx st st' msgs"
proof -
  obtain params :: pair_params and reserve lp_supply where r: "map_of (dx_reserves st) pair = Some reserve"
    and rest: "(let (funds, lp) = coins_take (ctx_funds cx) (pp_lp_denom params) in
     and_then (ensure (coins_is_empty funds) (Bail ''unexpected deposit'')) (\<lambda>_.
     and_then (pool_remove_liquidity reserve lp_supply (c_amount lp)) (\<lambda>(reserve', refunds).
       Inr (st\<lparr>dx_reserves := om_insert pair reserve' (dx_reserves st)\<rparr>,
         [DexBurn (ctx_contract cx) (coins_macro (pp_lp_denom params) (c_amount lp)),
          DexTransfer [(ctx_sender cx, coin_pair_into_coins refunds)]], [])))) = Inr (st', msgs, events)"
    using assms(3) unfolding withdraw_liquidity_def and_then_Inr_iff om_load_Inr by blast
  obtain funds lp where t: "coins_take (ctx_funds cx) (pp_lp_denom params) = (funds, lp)" by (metis prod.collapse)
  from rest [unfolded t Let_def prod.case pool_remove_liquidity_def] obtain reserve' refunds where
    e: "coins_is_empty funds" and s: "coin_pair_split reserve (c_amount lp) lp_supply = Inr (reserve', refunds)"
    and st': "st' = st\<lparr>dx_reserves := om_insert pair reserve' (dx_reserves st)\<rparr>"
    and m: "msgs = [DexBurn (ctx_contract cx) (coins_macro (pp_lp_denom params) (c_amount lp)),
          DexTransfer [(ctx_sender cx, coin_pair_into_coins refunds)]]"
    unfolding and_then_Inr_iff ensure_Inr_iff by (elim exE conjE) (simp only: split_paired_all prod.case sum.inject prod.inject)
  note lp = coins_take_amount [OF coins_okD [OF assms(2)] t]
  note sp = coin_pair_split_Inr [OF s]
  have ok: "coin_pair_ok reserve" by (rule reserves_okD [OF assms(1) r])
  then have "coin_pair_ok refunds" using sp by (simp add: coin_pair_ok_def pair_denoms_def)
  then have out: "msgs_out msgs d = coin_amount lp d + pair_amount refunds d" for d
    using lp [of d] by (simp add: m coin_pair_into_coins_amount) (simp add: coin_amount_def)
  have "reserves_ok (om_insert pair reserve' (dx_reserves st))"
    by (rule reserves_ok_insert [OF assms(1)]) (use sp ok in blast)
  moreover have "reserves_total (om_insert pair reserve' (dx_reserves st)) d + msgs_out msgs d =
      reserves_total (dx_reserves st) d + unat (amount_of (ctx_funds cx) d)" for d
    using reserves_total_insert [OF assms(1) r, of reserve' d] sp [of d] lp [of d]
      coins_is_empty_amount [OF e, of d] by (simp add: out)
  ultimately show ?thesis by (auto simp: conserves_def st')
qed

lemma swap_in_conserves:
  assumes "reserves_ok (dx_reserves st)" and "distinct route"
    and "dex_swap_in env cx st route minimum = Inr (st', msgs, events)"
  shows "conserves cx st st' msgs"
proof -
  from assms(3) obtain input orc new out fee amount where
    i: "into_one_coin (ctx_funds cx) = Inr input"
    and f: "try_fold (route_step (\<lambda>reserve params pair coin. pool_swap_in orc params pair reserve coin) st)
       ([], input) route = Inr (new, out)"
    and sub: "checked_sub (c_amount out) fee = Inr amount"
    and st': "st' = save_reserves st new"
    and m: "msgs = [DexTransfer [(ctx_sender cx, coins_from_coin (out\<lparr>c_amount := amount\<rparr>))]] @
         pay_protocol_fee cx (c_denom out) fee"
    unfolding dex_swap_in_def route_swap_in_def
    by (elim and_thenE) (auto simp: and_then_Inr_iff)
  have mv: "om_ok new \<and> reserves_ok (put_all new (dx_reserves st)) \<and>
      reserves_total (put_all new (dx_reserves st)) d + coin_amount out d + 0
        = reserves_total (dx_reserves st) d + coin_amount input d + 0" for d
    by (rule route_moves [where f = coin_amount and g = "\<lambda>_ _. 0", OF assms(1,2) _ f])
      (use pool_swap_in_Inr in fastforce)
  have "unat (c_amount out) = unat amount + unat fee" using sub by (simp add: checked_sub_Inr)
  then have "msgs_out msgs d = coin_amount out d" for d
    by (simp add: m pay_protocol_fee_out coin_amount_def)
  then show ?thesis
    using mv by (auto simp: conserves_def st' save_reserves_def put_all_def into_one_coin_amount [OF i])
qed

lemma swap_out_conserves:
  assumes "reserves_ok (dx_reserves st)" and "distinct route" and "coins_ok (ctx_funds cx)"
    and "dex_swap_out env cx st route output = Inr (st', msgs, events)"
  shows "conserves cx st st' msgs"
proof -
  from assms(4) obtain orc new input gross fee funds1 funds2 where
    f: "try_fold (route_step (\<lambda>reserve params pair coin. pool_swap_out orc params pair reserve coin) st)
       ([], output\<lparr>c_amount := gross\<rparr>) (rev route) = Inr (new, input)"
    and sub: "checked_sub gross (c_amount output) = Inr fee"
    and i: "coins_insert (ctx_funds cx) output = Inr funds1" and dd: "coins_deduct funds1 input = Inr funds2"
    and st': "st' = save_reserves st new"
    and m: "msgs = [DexTransfer [(ctx_sender cx, funds2)]] @ pay_protocol_fee cx (c_denom output) fee"
    unfolding dex_swap_out_def route_swap_out_def
    by (elim and_thenE) (auto simp: and_then_Inr_iff map_err_Inr_iff)
  have dist: "distinct (rev route)" using assms(2) by simp
  have mv: "om_ok new \<and> reserves_ok (put_all new (dx_reserves st)) \<and>
      reserves_total (put_all new (dx_reserves st)) d + 0 + coin_amount (output\<lparr>c_amount := gross\<rparr>) d
        = reserves_total (dx_reserves st) d + 0 + coin_amount input d" for d
    by (rule route_moves [where g = coin_amount and f = "\<lambda>_ _. 0", OF assms(1) dist _ f])
      (use pool_swap_out_Inr in fastforce)
  note ins = coins_insert_Inr [OF assms(3) i]
  note ded = coins_deduct_Inr [OF ins(1) dd]
  have g: "unat gross = unat fee + unat (c_amount output)" using sub by (simp add: checked_sub_Inr)
  have "msgs_out msgs d + coin_amount input d
      = unat (amount_of (ctx_funds cx) d) + coin_amount (output\<lparr>c_amount := gross\<rparr>) d" for d
    using ins(2) [of d] ded(2) [of d] g
    by (cases "d = c_denom output"; cases "d = c_denom input")
      (simp_all add: m pay_protocol_fee_out coin_amount_def)
  moreover have "reserves_total (put_all new (dx_reserves st)) d + msgs_out msgs d
      = reserves_total (dx_reserves st) d + unat (amount_of (ctx_funds cx) d)"
    if "msgs_out msgs d + coin_amount input d
      = unat (amount_of (ctx_funds cx) d) + coin_amount (output\<lparr>c_amount := gross\<rparr>) d" for d
  proof -
    have "reserves_total (put_all new (dx_reserves st)) d + coin_amount (output\<lparr>c_amount := gross\<rparr>) d
        = reserves_total (dx_reserves st) d + coin_amount input d" using mv [of d] by simp
    with that show ?thesis by linarith
  qed
  ultimately have "reserves_total (put_all new (dx_reserves st)) d + msgs_out msgs d
      = reserves_total (dx_reserves st) d + unat (amount_of (ctx_funds cx) d)" for d by blast
  then show ?thesis using mv by (auto simp: conserves_def st' save_reserves_def put_all_def)
qed

text \<open>C13: Providing and withdrawing liquidity and swapping along a route move exactly the funds they name:
  in every denom, the reserves of all pools together grow by the funds sent in less everything the
  exchange sends out (transfers, protocol fees, burned liquidity tokens). Nothing is created or lost.\<close>

theorem pools_conserve_funds:
  assumes "reserves_ok (dx_reserves st)" and "coins_ok (ctx_funds cx)" and "distinct route"
    and "provide_liquidity env cx st pair = Inr (st', msgs, events) \<or>
      withdraw_liquidity env cx st pair = Inr (st', msgs, events) \<or>
      dex_swap_in env cx st route minimum = Inr (st', msgs, events) \<or>
      dex_swap_out env cx st route output = Inr (st', msgs, events)"
  shows "reserves_ok (dx_reserves st') \<and>
    (\<forall>d. reserves_total (dx_reserves st') d + msgs_out msgs d =
      reserves_total (dx_reserves st) d + unat (amount_of (ctx_funds cx) d))"
proof -
  have "conserves cx st st' msgs"
    using assms(4)
    by (elim disjE) (erule provide_liquidity_conserves [OF assms(1,2)] withdraw_liquidity_conserves [OF assms(1,2)]
      swap_in_conserves [OF assms(1,3)] swap_out_conserves [OF assms(1,3,2)])+
  then show ?thesis by (simp add: conserves_def)
qed

subsection \<open>Liquidity tokens are fairly priced\<close>

lemma mint_le_ratio:
  assumes "pool_add_liquidity oracle params reserve lp_supply deposit = Inr (reserve', minted)" and "lp_supply \<noteq> 0"
  shows "\<exists>ratio. (case pp_pool_type params of
      PoolXyk _ \<Rightarrow> add_subsequent_liquidity reserve deposit
    | PoolGeometric _ \<Rightarrow> geo_add_subsequent_liquidity oracle reserve deposit) = Inr (reserve', ratio) \<and>
    minted \<noteq> 0 \<and> unat minted * 10 ^ 24 \<le> unat lp_supply * unat ratio"
proof -
  from assms obtain ratio fee_rate before one_sub where
    r: "(case pp_pool_type params of
      PoolXyk _ \<Rightarrow> add_subsequent_liquidity reserve deposit
    | PoolGeometric _ \<Rightarrow> geo_add_subsequent_liquidity oracle reserve deposit) = Inr (reserve', ratio)"
    and b: "checked_mul_dec_floor 24 lp_supply ratio = Inr before"
    and s: "dec_sub 18 24 (dec_one 18) fee_rate = Inr one_sub"
    and m: "checked_mul_dec_floor 18 before one_sub = Inr minted" "is_non_zero minted"
    by (auto simp: pool_add_liquidity_def and_then_Inr_iff ensure_Inr_iff is_zero_def)
  have "unat one_sub \<le> unat (dec_one 18 :: udec)"
  proof -
    from s obtain o' p where "checked_sub (into_next (dec_one 18 :: udec)) o' = Inr p" "checked_into_prev p = Inr one_sub"
      by (auto simp: dec_sub_def and_then_Inr_iff)
    then have "unat (into_next (dec_one 18 :: udec)) = unat o' + unat p" "unat one_sub = unat p"
      by (simp_all only: checked_sub_Inr checked_into_prev_Inr)
    then show ?thesis by simp
  qed
  then have "unat one_sub \<le> 10 ^ 18" by (simp add: dec_one_def unat_precision)
  then have "unat before * unat one_sub div 10 ^ 18 \<le> unat before * 10 ^ 18 div 10 ^ 18"
    by (intro div_le_mono mult_le_mono2)
  moreover have "unat minted = unat before * unat one_sub div 10 ^ 18" using m(1) by (simp add: dec_rounding_128)
  moreover have "unat before = unat lp_supply * unat ratio div 10 ^ 24" using b by (simp add: dec_rounding_128)
  ultimately have "unat minted \<le> unat lp_supply * unat ratio div 10 ^ 24" by simp
  then have "unat minted * 10 ^ 24 \<le> unat lp_supply * unat ratio"
    by (simp add: less_eq_div_iff_mult_less_eq)
  with r m(2) show ?thesis by (auto simp: zero_defs)
qed

lemma share_bound:
  assumes "m * k \<le> s * r" and "(r + k) * i \<le> i' * k" and "0 < (k :: nat)"
  shows "(s + m) * i \<le> s * i'"
proof -
  have "((s + m) * i) * k = s * i * k + m * k * i" by (simp add: algebra_simps)
  also have "\<dots> \<le> s * i * k + s * r * i" using mult_le_mono1 [OF assms(1), of i] by simp
  also have "\<dots> = s * ((r + k) * i)" by (simp add: algebra_simps)
  also have "\<dots> \<le> s * (i' * k)" using assms(2) by (rule mult_le_mono2)
  finally have "((s + m) * i) * k \<le> (s * i') * k" by simp
  with assms(3) show ?thesis by simp
qed

text \<open>C35: A deposit into a constant-product pool never dilutes the other shares: the invariant of the pool
  (the rounded square root of the product of its reserves) per liquidity token after the mint is at
  least what it was before, whatever the oracle says and however unbalanced the deposit is.\<close>

theorem xyk_deposit_never_dilutes:
  assumes "pool_add_liquidity oracle params reserve lp_supply deposit = Inr (reserve', minted)"
    and "lp_supply \<noteq> 0" and "pp_pool_type params = PoolXyk xyk"
  shows "\<exists>i i'. normalized_invariant reserve = Inr i \<and> normalized_invariant reserve' = Inr i' \<and>
    (unat lp_supply + unat minted) * unat i \<le> unat lp_supply * unat i'"
proof -
  from mint_le_ratio [OF assms(1,2)] assms(3) obtain ratio where
    r: "add_subsequent_liquidity reserve deposit = Inr (reserve', ratio)"
    and m: "unat minted * 10 ^ 24 \<le> unat lp_supply * unat ratio" by auto
  from r obtain i i' q where i: "normalized_invariant reserve = Inr i" "normalized_invariant reserve' = Inr i'"
    and q: "checked_from_ratio 24 i' i = Inr q" and s: "dec_sub 24 24 q (dec_one 24) = Inr ratio"
    by (auto simp: add_subsequent_liquidity_def and_then_Inr_iff)
  have "unat q = unat ratio + 10 ^ 24"
    using s by (simp add: dec_sub_def checked_sub_Inr dec_one_def unat_precision)
  moreover have "unat q * unat i \<le> unat i' * 10 ^ 24"
    using q by (simp add: dec_rounding_128)
  ultimately have "(unat ratio + 10 ^ 24) * unat i \<le> unat i' * 10 ^ 24" by simp
  from share_bound [OF m this] i show ?thesis by auto
qed

text \<open>Withdrawing pays each reserve pro rata, rounded down, and leaves the rest in the pool; it succeeds
  for every share of an existing supply.\<close>

lemma withdrawal_is_pro_rata:
  assumes "lp_supply \<noteq> 0" and "burned \<le> lp_supply"
  shows "\<exists>rest refunds. pool_remove_liquidity reserve lp_supply burned = Inr (rest, refunds) \<and>
    unat (c_amount (fst refunds)) = unat (c_amount (fst reserve)) * unat burned div unat lp_supply \<and>
    unat (c_amount (snd refunds)) = unat (c_amount (snd reserve)) * unat burned div unat lp_supply \<and>
    unat (c_amount (fst rest)) = unat (c_amount (fst reserve)) - unat (c_amount (fst refunds)) \<and>
    unat (c_amount (snd rest)) = unat (c_amount (snd reserve)) - unat (c_amount (snd refunds))"
proof -
  have nz: "unat lp_supply \<noteq> 0" using assms(1) by (simp add: unat_eq_zero)
  have part: "\<exists>q :: u128. checked_multiply_ratio_floor a burned lp_supply = Inr q \<and>
      unat q = unat a * unat burned div unat lp_supply \<and> (\<exists>r. checked_sub a q = Inr r \<and> unat r = unat a - unat q)" for a :: u128
  proof -
    have "unat a * unat burned \<le> unat a * unat lp_supply" using assms(2) by (simp add: word_le_nat_alt)
    then have "unat a * unat burned div unat lp_supply \<le> unat a * unat lp_supply div unat lp_supply" by (rule div_le_mono)
    then have le: "unat a * unat burned div unat lp_supply \<le> unat a" using nz by simp
    define q :: u128 where "q = of_nat (unat a * unat burned div unat lp_supply)"
    have q: "unat q = unat a * unat burned div unat lp_supply"
      unfolding q_def unat_of_nat by (rule mod_less) (use le unat_less_pow [of a] in simp)
    then have "checked_multiply_ratio_floor a burned lp_supply = Inr q"
      using nz by (simp add: checked_multiply_ratio_floor_Inr)
    moreover have "checked_sub a q = Inr (a - q)" using q le by (simp add: checked_sub_def word_le_nat_alt)
    moreover have "unat (a - q) = unat a - unat q" using q le by (simp add: unat_sub word_le_nat_alt)
    ultimately show ?thesis using q by blast
  qed
  from part [of "c_amount (fst reserve)"] part [of "c_amount (snd reserve)"] show ?thesis
    by (auto simp: pool_remove_liquidity_def coin_pair_split_def mk_coin_def)
qed

subsection \<open>Samples\<close>

lemma checked_sqrt_square:
  fixes n k :: u128
  assumes "unat n = unat k ^ 2"
  shows "checked_sqrt n = Inr k"
proof -
  obtain r where r: "checked_sqrt n = Inr r" "unat r ^ 2 \<le> unat n" "unat n < (unat r + 1) ^ 2"
    by (rule checked_sqrt_floor [of n]) simp_all
  from r(2) have "unat r \<le> unat k" by (simp add: assms)
  moreover from r(3) have "unat k < unat r + 1" unfolding assms by (rule power_less_imp_less_base) simp
  ultimately have "r = k" by (simp add: word_unat_eq_iff)
  with r(1) show ?thesis by simp
qed

definition pool_pair :: "u128 \<Rightarrow> u128 \<Rightarrow> coin_pair" where
  "pool_pair a b = (mk_coin [''a''] a, mk_coin [''b''] b)"

definition unit_oracle :: oracle_fun where
  "unit_oracle d = Inr \<lparr>pr_price = 10 ^ 18, pr_ema = 10 ^ 18, pr_time = 0, pr_precision = 0\<rparr>"

definition sample_env :: dex_env where
  "sample_env = \<lparr>de_price = unit_oracle, de_supply = (\<lambda>_. Inr 100), de_taker_fee_rate = 10 ^ 17,
     de_maker_fee_rate = 0, de_volume_user = (\<lambda>_. Inr None), de_dex = 9, de_owner = Inr 1\<rparr>"

lemma sample_deposit:
  "pool_add_liquidity unit_oracle (sample_params []) (pool_pair 100 100) 100 (pool_pair 10 10) =
     Inr (pool_pair 110 110, 10)"
proof -
  have inv: "normalized_invariant (pool_pair 100 100) = Inr 100" "normalized_invariant (pool_pair 110 110) = Inr 110"
    by (simp_all add: normalized_invariant_def pool_pair_def mk_coin_def checked_mul_def checked_sqrt_square)
  have merge: "coin_pair_merge (pool_pair 100 100) (pool_pair 10 10) = Inr (pool_pair 110 110)"
    by (simp add: coin_pair_merge_def pool_pair_def mk_coin_def checked_add_def)
  have sub: "add_subsequent_liquidity (pool_pair 100 100) (pool_pair 10 10) = Inr (pool_pair 110 110, 10 ^ 23)"
    by (simp add: add_subsequent_liquidity_def inv merge dec_eval dec_sub_def)
  have val: "value_of_unit_amount 24 \<lparr>pr_price = 1000000000000000000, pr_ema = 1000000000000000000, pr_time = 0, pr_precision = 0\<rparr> n = Inr (n * 10 ^ 24)"
    if "n = 100 \<or> n = 10" for n
    using that by (auto simp: value_of_unit_amount_def convert_precision_def checked_pow_def checked_mul_def pow10_def
        dec_eval dec_mul_eq_ratio)
  have val: "value_of_unit_amount 24 \<lparr>pr_price = 1000000000000000000, pr_ema = 1000000000000000000,
      pr_time = 0, pr_precision = 0\<rparr> 100 = Inr 100000000000000000000000000"
    "value_of_unit_amount 24 \<lparr>pr_price = 1000000000000000000, pr_ema = 1000000000000000000,
      pr_time = 0, pr_precision = 0\<rparr> 10 = Inr 10000000000000000000000000"
    using val [of 100] val [of 10] by simp_all
  have fee: "deposit_fee_rate unit_oracle 0 (pool_pair 100 100) (pool_pair 10 10) = Inr 0"
    by (simp add: deposit_fee_rate_def unit_oracle_def pool_pair_def mk_coin_def val Let_def into_next_def
        dec_add_def dec_eval dec_mul_eq_ratio dec_div_def abs_diff_def checked_into_prev_def)
  show ?thesis
    by (simp add: pool_add_liquidity_def sample_params_def fee sub dec_eval dec_sub_def scale_precision_def
        checked_pow_def checked_div_def into_next_def checked_into_prev_def)
qed

lemma xyk_deposit_never_dilutes_witness:
  "\<exists>i i'. normalized_invariant (pool_pair 100 100) = Inr i \<and> normalized_invariant (pool_pair 110 110) = Inr i' \<and>
     110 * unat i \<le> 100 * unat i'"
proof -
  have "pp_pool_type (sample_params []) = PoolXyk \<lparr>xyk_spacing = 1, xyk_reserve_ratio = 0, xyk_limit = 1\<rparr>"
    by (simp add: sample_params_def)
  from xyk_deposit_never_dilutes [OF sample_deposit _ this] show ?thesis by fastforce
qed

lemma withdrawal_is_pro_rata_witness:
  "\<exists>rest refunds. pool_remove_liquidity (pool_pair 110 55) 100 30 = Inr (rest, refunds) \<and>
     unat (c_amount (fst refunds)) = 33 \<and> unat (c_amount (snd refunds)) = 16"
  using withdrawal_is_pro_rata [of 100 30 "pool_pair 110 55"] by (fastforce simp: pool_pair_def mk_coin_def)

definition sample_pools :: dex_state where
  "sample_pools = sample_dex\<lparr>dx_reserves := [(([''a''], [''b'']), pool_pair 100 100)]\<rparr>"

lemma sample_withdraw:
  "withdraw_liquidity sample_env (user_ctx [([''dex'', ''pool'', ''a''], 30)]) sample_pools ([''a''], [''b'']) =
     Inr (sample_pools\<lparr>dx_reserves := [(([''a''], [''b'']), pool_pair 70 70)]\<rparr>,
       [DexBurn 9 [([''dex'', ''pool'', ''a''], 30)], DexTransfer [(4, [([''a''], 30), ([''b''], 30)])]], [])"
  by (simp add: withdraw_liquidity_def sample_pools_def sample_dex_def om_load_def sample_env_def sample_params_def
      user_ctx_def coins_take_def om_remove_def amount_of_def coins_is_empty_def pool_remove_liquidity_def
      coin_pair_split_def pool_pair_def mk_coin_def dec_eval coins_macro_def coin_pair_into_coins_def Let_def)

lemma pools_conserve_funds_witness:
  "\<exists>st' msgs events. withdraw_liquidity sample_env (user_ctx [([''dex'', ''pool'', ''a''], 30)]) sample_pools ([''a''], [''b'']) =
      Inr (st', msgs, events) \<and>
    reserves_total (dx_reserves st') [''a''] + msgs_out msgs [''a''] = 100"
proof -
  have ok: "reserves_ok (dx_reserves sample_pools)" "coins_ok (ctx_funds (user_ctx [([''dex'', ''pool'', ''a''], 30)]))"
    by (simp_all add: sample_pools_def reserves_ok_def pool_pair_def coin_pair_ok_def mk_coin_def user_ctx_def coins_ok_def om_ok_def)
  from pools_conserve_funds [OF ok distinct.simps(1) [THEN iffD2, OF TrueI] disjI2 [OF disjI1], OF sample_withdraw]
  have "reserves_total (dx_reserves (sample_pools\<lparr>dx_reserves := [(([''a''], [''b'']), pool_pair 70 70)]\<rparr>)) [''a''] +
      msgs_out [DexBurn 9 [([''dex'', ''pool'', ''a''], 30)], DexTransfer [(4, [([''a''], 30), ([''b''], 30)])]] [''a''] = 100"
    by (simp add: sample_pools_def reserves_total_def pair_amount_def pool_pair_def mk_coin_def user_ctx_def amount_of_def)
  with sample_withdraw show ?thesis by blast
qed

end
