(* ===== verification/Auction_Safety.thy ===== *)
theory Auction_Safety
  imports Auction Pool_Safety
begin

text \<open>
  What the auction does to the book and to the exchange's balance. \<open>user_debt\<close> is what the exchange
  owes to the owners of resting orders, its own passive orders apart. The accounting is done per filled
  order (\<open>handle_outcome_Inr\<close>) against the clearing price and summed over a pair and over all pairs;
  \<open>dust\<close> counts the filled passive bids, whose payment into the auction is rounded down.
\<close>

subsection \<open>Passive orders\<close>

lemma xyk_bids_nonzero: "(p, a) \<in> set (xyk_bids n base quote spacing start prev prev_quote) \<Longrightarrow> a \<noteq> 0"
proof (induction n arbitrary: start prev prev_quote)
  case (Suc n)
  show ?case
  proof (cases "xyk_bids (Suc n) base quote spacing start prev prev_quote")
    case (Cons x xs)
    then obtain price sz prev' prev_quote' start' where eq: "x = (price, sz)" "sz \<noteq> 0" "xs = xyk_bids n base quote spacing start' prev' prev_quote'"
      by (auto simp: and_then_Inr_iff ensure_Inr_iff is_zero_def split: option.splits sum.splits if_splits)
    from Suc.prems have "(p, a) \<in> set (x # xs)" unfolding Cons .
    then show ?thesis using eq Suc.IH by auto
  qed (use Suc.prems in simp)
qed simp

lemma xyk_asks_nonzero: "(p, a) \<in> set (xyk_asks n base quote spacing start prev) \<Longrightarrow> a \<noteq> 0"
proof (induction n arbitrary: start prev)
  case (Suc n)
  show ?case
  proof (cases "xyk_asks (Suc n) base quote spacing start prev")
    case (Cons x xs)
    then obtain price sz prev' start' where eq: "x = (price, sz)" "sz \<noteq> 0" "xs = xyk_asks n base quote spacing start' prev'"
      by (auto simp: and_then_Inr_iff ensure_Inr_iff is_zero_def split: option.splits sum.splits if_splits)
    from Suc.prems have "(p, a) \<in> set (x # xs)" unfolding Cons .
    then show ?thesis using eq Suc.IH by auto
  qed (use Suc.prems in simp)
qed simp

lemma geo_bids_nonzero: "(p, a) \<in> set (geo_bids n params start remaining) \<Longrightarrow> a \<noteq> 0"
proof (induction n arbitrary: start remaining)
  case (Suc n)
  show ?case
  proof (cases "geo_bids (Suc n) params start remaining")
    case (Cons x xs)
    then obtain price sz start' remaining' where eq: "x = (price, sz)" "sz \<noteq> 0" "xs = geo_bids n params start' remaining'"
      by (auto simp: and_then_Inr_iff ensure_Inr_iff is_zero_def split: option.splits sum.splits if_splits)
    from Suc.prems have "(p, a) \<in> set (x # xs)" unfolding Cons .
    then show ?thesis using eq Suc.IH by auto
  qed (use Suc.prems in simp)
qed simp

lemma geo_asks_nonzero: "(p, a) \<in> set (geo_asks n params start remaining) \<Longrightarrow> a \<noteq> 0"
proof (induction n arbitrary: start remaining)
  case (Suc n)
  show ?case
  proof (cases "geo_asks (Suc n) params start remaining")
    case (Cons x xs)
    then obtain price sz start' remaining' where eq: "x = (price, sz)" "sz \<noteq> 0" "xs = geo_asks n params start' remaining'"
      by (auto simp: and_then_Inr_iff ensure_Inr_iff is_zero_def split: option.splits sum.splits if_splits)
    from Suc.prems have "(p, a) \<in> set (x # xs)" unfolding Cons .
    then show ?thesis using eq Suc.IH by auto
  qed (use Suc.prems in simp)
qed simp

text \<open>A pool never quotes an empty order.\<close>

lemma reflect_curve_nonzero:
  assumes "pool_reflect_curve oracle params pair reserve = Inr (bids, asks)" and "(p, a) \<in> set bids \<union> set asks"
  shows "a \<noteq> 0"
proof (cases "pp_pool_type params")
  case (PoolXyk xyk)
  with assms obtain n base quote spacing lo hi where "bids = xyk_bids n base quote spacing lo 0 0"
    "asks = xyk_asks n base quote spacing hi 0"
    by (auto simp: pool_reflect_curve_def xyk_reflect_curve_def and_then_Inr_iff)
  with assms(2) xyk_bids_nonzero xyk_asks_nonzero show ?thesis by blast
next
  case (PoolGeometric geo)
  with assms obtain n lo hi b q where "bids = geo_bids n geo lo b" "asks = geo_asks n geo hi q"
    by (auto simp: pool_reflect_curve_def geo_reflect_curve_def and_then_Inr_iff)
  with assms(2) geo_bids_nonzero geo_asks_nonzero show ?thesis by blast
qed

subsection \<open>The debt to users\<close>

definition user_weight :: "addr \<Rightarrow> denom \<Rightarrow> order_key \<Rightarrow> order \<Rightarrow> nat" where
  "user_weight dex d key ord = (if o_user ord = dex then 0 else order_debt d key ord)"

definition user_debt :: "addr \<Rightarrow> dex_state \<Rightarrow> denom \<Rightarrow> nat" where
  "user_debt dex st d = om_sum (user_weight dex d) (orders_of st)"

text \<open>The invariant between messages: the book's, and that the exchange's own orders are the passive ones.\<close>

definition dex_inv :: "pair_key set \<Rightarrow> addr \<Rightarrow> dex_state \<Rightarrow> bool" where
  "dex_inv T dex st \<longleftrightarrow> book_inv T st \<and> reserves_ok (dx_reserves st) \<and>
     (\<forall>e \<in> set (orders_of st). o_user (snd e) = dex \<longrightarrow> o_tif (snd e) = GoodTilCanceled)"

lemma dex_invD:
  assumes "dex_inv T dex st"
  shows "book_inv T st" "reserves_ok (dx_reserves st)"
    "map_of (orders_of st) key = Some ord \<Longrightarrow> o_user ord = dex \<Longrightarrow> o_tif ord = GoodTilCanceled"
  using assms by (force simp: dex_inv_def dest: map_of_SomeD)+

lemma dex_invI:
  assumes "book_inv T st" and "reserves_ok (dx_reserves st)"
    and "\<And>key ord. map_of (orders_of st) key = Some ord \<Longrightarrow> o_user ord = dex \<Longrightarrow> o_tif ord = GoodTilCanceled"
  shows "dex_inv T dex st"
  using assms om_mem_iff [OF book_invD(2) [OF assms(1)]] by (auto simp: dex_inv_def)

lemma user_debt_insert:
  assumes "om_ok (orders_of st)" and "orders_of st' = om_insert key ord (orders_of st)"
  shows "user_debt dex st' d + weight (user_weight dex d) key (map_of (orders_of st) key)
    = user_debt dex st d + user_weight dex d key ord"
  using om_sum_insert [OF assms(1), of "user_weight dex d" key ord] by (simp add: user_debt_def assms(2))

lemma user_debt_remove:
  assumes "om_ok (orders_of st)" and "orders_of st' = om_remove key (orders_of st)"
  shows "user_debt dex st' d + weight (user_weight dex d) key (map_of (orders_of st) key) = user_debt dex st d"
  using om_sum_remove [OF assms(1), of "user_weight dex d" key] by (simp add: user_debt_def assms(2))

text \<open>Orders of users only shrink; the immediate-or-cancel ones stay as they are or go.\<close>

definition shrunk :: "order \<Rightarrow> order \<Rightarrow> bool" where
  "shrunk ord ord' \<longleftrightarrow> (\<exists>r. ord' = ord\<lparr>o_remaining := r\<rparr> \<and> r \<le> o_remaining ord \<and>
     (o_tif ord = ImmediateOrCancel \<longrightarrow> r = o_remaining ord))"

definition evolves :: "addr \<Rightarrow> dex_state \<Rightarrow> dex_state \<Rightarrow> bool" where
  "evolves dex st st' \<longleftrightarrow> (\<forall>k ord'. map_of (orders_of st') k = Some ord' \<longrightarrow> o_user ord' \<noteq> dex \<longrightarrow>
     (\<exists>ord. map_of (orders_of st) k = Some ord \<and> shrunk ord ord'))"

lemma shrunk_refl: "shrunk ord ord"
  by (auto simp: shrunk_def intro: exI [of _ "o_remaining ord"])

lemma shrunk_trans:
  assumes "shrunk a b" and "shrunk b c"
  shows "shrunk a c"
proof -
  from assms(1) obtain r where r: "b = a\<lparr>o_remaining := r\<rparr>" "r \<le> o_remaining a"
    "o_tif a = ImmediateOrCancel \<Longrightarrow> r = o_remaining a" by (auto simp: shrunk_def)
  from assms(2) obtain r' where r': "c = b\<lparr>o_remaining := r'\<rparr>" "r' \<le> o_remaining b"
    "o_tif b = ImmediateOrCancel \<Longrightarrow> r' = o_remaining b" by (auto simp: shrunk_def)
  have "r' \<le> o_remaining a" using r(2) r'(2) by (auto simp: r(1) intro: order_trans)
  with r r' show ?thesis by (auto simp: shrunk_def)
qed

lemma shrunk_user: "shrunk ord ord' \<Longrightarrow> o_user ord' = o_user ord \<and> o_tif ord' = o_tif ord"
  by (auto simp: shrunk_def)

lemma evolvesD:
  assumes "evolves dex st st'" and "map_of (orders_of st') k = Some ord'" and "o_user ord' \<noteq> dex"
  obtains ord where "map_of (orders_of st) k = Some ord" and "shrunk ord ord'"
  using assms unfolding evolves_def by blast

lemma evolves_refl: "evolves dex st st"
  using shrunk_refl unfolding evolves_def by blast

lemma evolves_trans:
  assumes "evolves dex a b" and "evolves dex b c"
  shows "evolves dex a c"
  unfolding evolves_def
proof (intro allI impI)
  fix k ord' assume "map_of (orders_of c) k = Some ord'" "o_user ord' \<noteq> dex"
  with assms(2) obtain ord1 where 1: "map_of (orders_of b) k = Some ord1" "shrunk ord1 ord'" by (rule evolvesD)
  have "o_user ord1 \<noteq> dex" using shrunk_user [OF 1(2)] \<open>o_user ord' \<noteq> dex\<close> by simp
  with assms(1) 1(1) obtain ord where "map_of (orders_of a) k = Some ord" "shrunk ord ord1" by (rule evolvesD)
  with 1(2) show "\<exists>ord. map_of (orders_of a) k = Some ord \<and> shrunk ord ord'" by (blast intro: shrunk_trans)
qed

lemma evolves_remove: "orders_of st' = om_remove key (orders_of st) \<Longrightarrow> evolves dex st st'"
  using shrunk_refl by (auto simp: evolves_def map_of_om_remove simp del: split_paired_All split: if_splits)

subsection \<open>Placing and deleting passive orders\<close>

lemma place_passive_order_Inr:
  assumes "dex_inv T dex st" and "map_of (dx_pairs st) pair = Some params"
    and "place_passive_order dex pair (pp_bucket_sizes params) dir st (price, amount) = Inr st'"
  shows "dex_inv T dex st' \<and> same_frame st st' \<and> evolves dex st st' \<and>
    (\<forall>d. user_debt dex st' d = user_debt dex st d)"
proof -
  note inv = dex_invD [OF assms(1)]
  note bi = book_invD [OF inv(1)]
  from assms(3) obtain i st1 remaining st2 where nxt: "next_order_id st = Inr (i, st1)"
    and rem: "checked_into_dec 6 amount = Inr remaining"
    and up: "depths_up st1 (pair, dir, price, if dir = Bid then NOT i else i) remaining (pp_bucket_sizes params) = Inr st2"
    and sv: "book_save st2 (pair, dir, price, if dir = Bid then NOT i else i)
         \<lparr>o_user = dex, o_id = if dir = Bid then NOT i else i, o_direction = dir, o_tif = GoodTilCanceled,
          o_price = price, o_amount = amount, o_remaining = remaining, o_created = None\<rparr> = Inr st'"
    by (auto simp: place_passive_order_def and_then_Inr_iff Let_def simp del: if_split_asm split del: if_split)
  define oid where "oid = (if dir = Bid then NOT i else i)"
  define key where "key = (pair, dir, price, oid)"
  define ord where "ord = \<lparr>o_user = dex, o_id = oid, o_direction = dir, o_tif = GoodTilCanceled,
          o_price = price, o_amount = amount, o_remaining = remaining, o_created = None\<rparr>"
  from next_order_id_Inr [OF nxt] obtain n where st1: "st1 = st\<lparr>dx_next_order_id := Some n\<rparr>" by blast
  have bs: "buckets_of st pair = pp_bucket_sizes params" by (simp add: buckets_of_def assms(2))
  from up obtain ds where ds: "increase_liquidity_depths (dx_depths st) pair dir price remaining (buckets_of st pair) = Inr ds"
    and st2: "st2 = st1\<lparr>dx_depths := ds\<rparr>" by (auto simp: depths_up_Inr bs st1)
  have "indexed_ok order_index (dx_orders st2)" using bi(1) by (simp add: st2 st1)
  from book_save_Inr [OF this sv] obtain b where st': "st' = st2\<lparr>dx_orders := b\<rparr>"
    and b: "indexed_ok order_index b" "im_primary b = om_insert key ord (orders_of st)"
    by (auto simp: key_def ord_def oid_def st2 st1 orders_of_def)
  have p: "unat (precision 6 :: u128) = 10 ^ 6" by (rule unat_precision) simp
  have "unat remaining = unat amount * 10 ^ 6"
    using rem by (auto simp: checked_into_dec_def map_err_Inr_iff checked_mul_Inr p)
  then have new: "book_inv T st' \<and> map_of (orders_of st) key = None \<and> orders_of st' = om_insert key ord (orders_of st)"
    by (intro new_order_inv [OF inv(1) nxt key_def oid_def _ _ _ _ _ _ b, of ds])
      (use ds assms(2) in \<open>simp_all add: ord_def st' st2\<close>)
  have tif: "o_tif ord = GoodTilCanceled" by (simp add: ord_def)
  have "dex_inv T dex st'"
  proof (rule dex_invI)
    show "o_tif o' = GoodTilCanceled" if "map_of (orders_of st') k = Some o'" "o_user o' = dex" for k o'
      using that inv(3) [of k o'] new tif by (auto simp: map_of_om_insert bi(2) split: if_splits)
  qed (use new inv(2) in \<open>simp_all add: st' st2 st1\<close>)
  moreover have "user_debt dex st' d = user_debt dex st d" for d
    using user_debt_insert [OF bi(2), of st' key ord dex d] new by (simp add: user_weight_def ord_def)
  moreover have "evolves dex st st'"
  proof -
    have "o_user ord = dex" by (simp add: ord_def)
    then show ?thesis
      using new shrunk_refl by (auto simp: evolves_def map_of_om_insert bi(2) simp del: split_paired_All split: if_splits)
  qed
  ultimately show ?thesis by (simp add: same_frame_def st' st2 st1)
qed

lemma place_passive_list:
  assumes "dex_inv T dex st" and "map_of (dx_pairs st) pair = Some params"
    and "try_fold (place_passive_order dex pair (pp_bucket_sizes params) dir) st xs = Inr st'"
  shows "dex_inv T dex st' \<and> same_frame st st' \<and> evolves dex st st' \<and>
    (\<forall>d. user_debt dex st' d = user_debt dex st d)"
proof (rule try_fold_invariant [where I = "\<lambda>s. dex_inv T dex s \<and> same_frame st s \<and> evolves dex st s \<and>
      (\<forall>d. user_debt dex s d = user_debt dex st d)", OF _ _ assms(3)])
  fix s x s' assume s: "dex_inv T dex s \<and> same_frame st s \<and> evolves dex st s \<and> (\<forall>d. user_debt dex s d = user_debt dex st d)"
    and st: "place_passive_order dex pair (pp_bucket_sizes params) dir s x = Inr s'"
  obtain p a where x': "x = (p, a)" by (cases x)
  have "map_of (dx_pairs s) pair = Some params" using s assms(2) by (simp add: same_frame_def)
  from place_passive_order_Inr [OF conjunct1 [OF s] this st [unfolded x']] s
  show "dex_inv T dex s' \<and> same_frame st s' \<and> evolves dex st s' \<and> (\<forall>d. user_debt dex s' d = user_debt dex st d)"
    by (auto simp: x' intro: same_frame_trans evolves_trans)
qed (simp add: assms(1) same_frame_refl evolves_refl)

lemma place_passive_orders_Inr:
  assumes "dex_inv T dex st" and "map_of (dx_pairs st) pair = Some params"
    and "place_passive_orders dex oracle pair (pp_bucket_sizes params) st = Inr st'"
  shows "dex_inv T dex st' \<and> same_frame st st' \<and> evolves dex st st' \<and>
    (\<forall>d. user_debt dex st' d = user_debt dex st d)"
proof (cases "st' = st")
  case False
  with assms(3) obtain reserve params' bids asks st1 where
    r: "pool_reflect_curve oracle params' pair reserve = Inr (bids, asks)"
    and b: "try_fold (place_passive_order dex pair (pp_bucket_sizes params) Bid) st bids = Inr st1"
    and a: "try_fold (place_passive_order dex pair (pp_bucket_sizes params) Ask) st1 asks = Inr st'"
    unfolding place_passive_orders_def
    by (cases "map_of (dx_reserves st) pair") (auto elim!: and_thenE split: sum.splits)
  note one = place_passive_list [OF assms(1,2) b]
  then have "map_of (dx_pairs st1) pair = Some params" using assms(2) by (simp add: same_frame_def)
  then have "dex_inv T dex st' \<and> same_frame st1 st' \<and> evolves dex st1 st' \<and> (\<forall>d. user_debt dex st' d = user_debt dex st1 d)"
    by (rule place_passive_list [OF conjunct1 [OF one] _ a])
  with one show ?thesis by (auto intro: same_frame_trans evolves_trans)
qed (simp add: assms(1) same_frame_refl evolves_refl)

lemma dex_inv_remove:
  assumes "dex_inv T dex st" and "book_inv T st'" and "orders_of st' = om_remove key (orders_of st)"
    and "dx_reserves st' = dx_reserves st"
  shows "dex_inv T dex st'"
proof (rule dex_invI)
  show "o_tif o' = GoodTilCanceled" if "map_of (orders_of st') k = Some o'" "o_user o' = dex" for k o'
    using that dex_invD(3) [OF assms(1), of k o'] by (simp add: assms(3) map_of_om_remove split: if_splits)
qed (use assms dex_invD in simp_all)

lemma delete_passive_order_Inr:
  assumes "dex_inv T dex st" and "map_of (orders_of st) key = Some ord" and "o_user ord = dex"
    and "delete_passive_order (dx_pairs st) st (key, ord) = Inr st'"
  shows "dex_inv T dex st' \<and> same_frame st st' \<and> orders_of st' = om_remove key (orders_of st) \<and>
    (\<forall>d. user_debt dex st' d = user_debt dex st d)"
proof -
  obtain pair dir price oid where key: "key = (pair, dir, price, oid)" by (cases key)
  note inv = dex_invD [OF assms(1)]
  note bi = book_invD [OF inv(1)]
  from assms(4) obtain params st1 where pp: "map_of (dx_pairs st) pair = Some params"
    and down: "depths_down st key (o_remaining ord) (pp_bucket_sizes params) = Inr st1"
    and rm: "book_remove st1 key = Inr st'"
    by (auto simp: delete_passive_order_def and_then_Inr_iff ok_or_Inr_iff key)
  have bs: "buckets_of st pair = pp_bucket_sizes params" by (simp add: buckets_of_def pp)
  from down obtain ds where st1: "st1 = st\<lparr>dx_depths := ds\<rparr>"
    and ds: "decrease_liquidity_depths (dx_depths st) pair dir price (o_remaining ord) (buckets_of st pair) = Inr ds"
    by (auto simp: key depths_down_Inr bs)
  have "indexed_ok order_index (dx_orders st1)" using bi(1) by (simp add: st1)
  from book_remove_Inr [OF this, of key] rm obtain b where st': "st' = st1\<lparr>dx_orders := b\<rparr>"
    and b: "indexed_ok order_index b" "im_primary b = om_remove key (orders_of st)"
    by (auto simp: st1 orders_of_def)
  have gone: "book_inv T st' \<and> orders_of st' = om_remove key (orders_of st)"
    by (rule removed_order_inv [OF inv(1) assms(2) key _ b, of ds])
      (use ds inv(3) [OF assms(2,3)] in \<open>simp_all add: st' st1\<close>)
  then have "dex_inv T dex st'" by (intro dex_inv_remove [OF assms(1)]) (simp_all add: st' st1)
  moreover have "user_debt dex st' d = user_debt dex st d" for d
    using user_debt_remove [OF bi(2) conjunct2 [OF gone], of dex d] by (simp add: assms(2,3) user_weight_def)
  ultimately show ?thesis using gone by (simp add: same_frame_def st' st1)
qed

lemma delete_passive_list:
  assumes "dex_inv T dex st" and "pairs = dx_pairs st" and "distinct (map fst es)"
    and "\<And>e. e \<in> set es \<Longrightarrow> map_of (orders_of st) (fst e) = Some (snd e) \<and> o_user (snd e) = dex"
    and "try_fold (delete_passive_order pairs) st es = Inr st'"
  shows "dex_inv T dex st' \<and> same_frame st st' \<and> (\<forall>d. user_debt dex st' d = user_debt dex st d) \<and>
    (\<forall>k. map_of (orders_of st') k = (if k \<in> fst ` set es then None else map_of (orders_of st) k))"
  using assms
proof (induction es arbitrary: st)
  case Nil
  then show ?case by (simp add: same_frame_refl)
next
  case (Cons e es)
  obtain key ord where e: "e = (key, ord)" by (cases e)
  from Cons.prems(5) obtain st1 where s: "delete_passive_order (dx_pairs st) st (key, ord) = Inr st1"
    and rest: "try_fold (delete_passive_order pairs) st1 es = Inr st'" by (auto simp: result_iff e Cons.prems(2))
  have k: "map_of (orders_of st) key = Some ord" "o_user ord = dex" using Cons.prems(4) [of e] by (simp_all add: e)
  note one = delete_passive_order_Inr [OF Cons.prems(1) k s]
  have "pairs = dx_pairs st1" using one Cons.prems(2) by (simp add: same_frame_def)
  moreover have "map_of (orders_of st1) (fst e') = Some (snd e') \<and> o_user (snd e') = dex" if "e' \<in> set es" for e'
    using that Cons.prems(3) Cons.prems(4) [of e'] one by (auto simp: map_of_om_remove e rev_image_eqI)
  ultimately have "dex_inv T dex st' \<and> same_frame st1 st' \<and> (\<forall>d. user_debt dex st' d = user_debt dex st1 d) \<and>
      (\<forall>k. map_of (orders_of st') k = (if k \<in> fst ` set es then None else map_of (orders_of st1) k))"
    using Cons.prems(3) one by (intro Cons.IH [OF _ _ _ _ rest]) auto
  with one show ?case by (auto simp: e map_of_om_remove intro: same_frame_trans)
qed

lemma delete_passive_orders_Inr:
  assumes "dex_inv T dex st" and "delete_passive_orders dex st = Inr st'"
  shows "dex_inv T dex st' \<and> same_frame st st' \<and> (\<forall>d. user_debt dex st' d = user_debt dex st d) \<and>
    (\<forall>k. map_of (orders_of st') k =
      (case map_of (orders_of st) k of None \<Rightarrow> None | Some ord \<Rightarrow> if o_user ord = dex then None else Some ord))"
proof -
  note bi = book_invD [OF dex_invD(1) [OF assms(1)]]
  let ?es = "filter (\<lambda>(k, v). o_user v = dex) (orders_of st)"
  have "multi_agrees (ix_first order_index) (orders_of st) (im_first (dx_orders st))"
    using bi(1) by (simp add: indexed_ok_def orders_of_def)
  from multi_range_eq [OF bi(2) this, of dex]
  have f: "try_fold (delete_passive_order (dx_pairs st)) st ?es = Inr st'"
    using assms(2) by (simp add: delete_passive_orders_def order_index_def)
  have d: "distinct (map fst ?es)" by (rule om_ok_distinct [OF om_ok_filter [OF bi(2)]])
  have m: "map_of (orders_of st) (fst e) = Some (snd e) \<and> o_user (snd e) = dex" if "e \<in> set ?es" for e
    using that om_mem_iff [OF bi(2)] by auto
  have "k \<in> fst ` set ?es \<longleftrightarrow> (\<exists>ord. map_of (orders_of st) k = Some ord \<and> o_user ord = dex)" for k
    using om_mem_iff [OF bi(2), of k] by force
  with delete_passive_list [OF assms(1) refl d m f] show ?thesis by (auto split: option.splits)
qed

subsection \<open>Settling one filled order\<close>

text \<open>An outcome belongs to an order in the book, which it fills in part or in full.\<close>

definition outcome_of :: "dex_state \<Rightarrow> pair_key \<Rightarrow> filling_outcome \<Rightarrow> bool" where
  "outcome_of st pair f \<longleftrightarrow> (\<exists>ord r. map_of (orders_of st) (order_key_of pair (fo_order f)) = Some ord \<and>
     fo_order f = ord\<lparr>o_remaining := r\<rparr> \<and> unat (o_remaining ord) = unat (fo_filled_base f) + unat r)"

text \<open>What the filled part of the order had set aside.\<close>

definition freed :: "pair_key \<Rightarrow> denom \<Rightarrow> filling_outcome \<Rightarrow> nat" where
  "freed pair d f = (case o_direction (fo_order f) of
     Bid \<Rightarrow> if d = snd pair then unat (fo_filled_base f) * unat (o_price (fo_order f)) else 0
   | Ask \<Rightarrow> if d = fst pair then unat (fo_filled_base f) * 10 ^ 24 else 0)"

lemma order_debt_filled:
  assumes "unat (o_remaining ord) = unat x + unat r" and "key = order_key_of pair ord"
    and "fo_order f = ord\<lparr>o_remaining := r\<rparr>" and "fo_filled_base f = x"
  shows "order_debt d key ord = order_debt d key (fo_order f) + freed pair d f"
  using assms by (cases pair; cases "o_direction ord")
    (auto simp: order_debt_def order_key_of_def freed_def add_mult_distrib)

text \<open>The parts of the auction that a step leaves as they are.\<close>

definition same_ledgers :: "auction_state \<Rightarrow> auction_state \<Rightarrow> bool" where
  "same_ledgers au au' \<longleftrightarrow> au_fees au' = au_fees au \<and> au_payments au' = au_payments au"

lemma refund_ioc_order_Inr:
  assumes "transfers_ok (au_refunds au)" and "refund_ioc_order pair ord au = Inr au'"
  shows "au_state au' = au_state au \<and> same_ledgers au au' \<and> transfers_ok (au_refunds au') \<and>
    (\<exists>es. au_events au' = au_events au @ es) \<and>
    (\<forall>d. transfers_total (au_refunds au') d * 10 ^ 24
      \<le> transfers_total (au_refunds au) d * 10 ^ 24 + order_debt d (order_key_of pair ord) ord)"
proof -
  from assms(2) obtain refund where r: "(case o_direction ord of
         Bid \<Rightarrow> and_then (checked_mul_dec_floor 24 (o_remaining ord) (o_price ord)) (\<lambda>remaining_in_quote.
                 Inr (mk_dec_coin (snd pair) remaining_in_quote))
       | Ask \<Rightarrow> Inr (mk_dec_coin (fst pair) (o_remaining ord))) = Inr refund"
    and rest: "(if is_non_zero (dc_amount refund)
     then and_then (transfers_insert 6 (au_refunds au) (o_user ord) (dc_denom refund) (dc_amount refund)) (\<lambda>refunds.
       Inr (au\<lparr>au_refunds := refunds,
         au_events := au_events au @ [OrderCanceled
           \<lparr>ox_user = o_user ord, ox_id = o_id ord, ox_tif = o_tif ord, ox_remaining = o_remaining ord,
            ox_refund = refund, ox_pair = pair, ox_direction = o_direction ord, ox_price = o_price ord,
            ox_amount = o_amount ord\<rparr>]\<rparr>))
     else Inr au) = Inr au'"
    unfolding refund_ioc_order_def by (elim and_thenE)
  have le: "(if d = dc_denom refund then unat (dc_amount refund) else 0) * 10 ^ 24
      \<le> order_debt d (order_key_of pair ord) ord" for d
    using r by (cases pair; cases "o_direction ord")
      (auto simp: and_then_Inr_iff order_debt_def order_key_of_def dec_rounding_128)
  show ?thesis
  proof (cases "is_non_zero (dc_amount refund)")
    case True
    with rest obtain refunds where
      t: "transfers_insert 6 (au_refunds au) (o_user ord) (dc_denom refund) (dc_amount refund) = Inr refunds"
      and au': "au_refunds au' = refunds" "au_state au' = au_state au" "au_fees au' = au_fees au"
        "au_payments au' = au_payments au" "\<exists>es. au_events au' = au_events au @ es"
      by (auto simp: and_then_Inr_iff)
    show ?thesis
      using transfers_insert_Inr [OF assms(1) t] le by (simp add: au' same_ledgers_def add_mult_distrib)
  next
    case False
    with rest assms(1) show ?thesis by (simp add: same_ledgers_def)
  qed
qed

definition owed :: "addr \<Rightarrow> auction_state \<Rightarrow> denom \<Rightarrow> nat" where
  "owed dex au d = user_debt dex (au_state au) d +
     (transfers_total (au_refunds au) d + om_amount (au_fees au) d) * 10 ^ 24"

definition au_ok :: "pair_key set \<Rightarrow> addr \<Rightarrow> auction_state \<Rightarrow> bool" where
  "au_ok T dex au \<longleftrightarrow> dex_inv T dex (au_state au) \<and> transfers_ok (au_refunds au) \<and> om_ok (au_fees au) \<and>
     transfers_ok (au_payments au) \<and> (\<forall>d. transfers_total (au_payments au) d = om_amount (au_fees au) d)"

text \<open>A step that changes the book only at one key.\<close>

definition only_key :: "order_key \<Rightarrow> dex_state \<Rightarrow> dex_state \<Rightarrow> bool" where
  "only_key key st st' \<longleftrightarrow> same_frame st st' \<and>
     (\<forall>k. k \<noteq> key \<longrightarrow> map_of (orders_of st') k = map_of (orders_of st) k) \<and>
     (\<forall>ord'. map_of (orders_of st') key = Some ord' \<longrightarrow> (\<exists>ord. map_of (orders_of st) key = Some ord \<and> shrunk ord ord'))"

lemma only_key_refl: "only_key key st st"
  using shrunk_refl by (simp add: only_key_def same_frame_refl)

lemma only_key_evolves: "only_key key st st' \<Longrightarrow> evolves dex st st'"
  using shrunk_refl unfolding only_key_def evolves_def by metis

lemma settle_gtc:
  assumes "dex_inv T dex st" and "map_of (orders_of st) key = Some ord" and "key = order_key_of pair ord"
    and "o_tif ord = GoodTilCanceled" and "unat (o_remaining ord) = unat x + unat r"
    and "map_of (dx_pairs st) pair = Some params"
    and "depths_down st key x (pp_bucket_sizes params) = Inr st1"
    and "(if is_zero r then book_remove st1 key else book_save st1 key (ord\<lparr>o_remaining := r\<rparr>)) = Inr st'"
  shows "book_inv T st' \<and> orders_of st' =
    (if r = 0 then om_remove key (orders_of st) else om_insert key (ord\<lparr>o_remaining := r\<rparr>) (orders_of st)) \<and>
    same_frame st st'"
proof -
  note inv = dex_invD [OF assms(1)]
  note bi = book_invD [OF inv(1)]
  obtain dir price oid where key: "key = (pair, dir, price, oid)" by (simp add: assms(3) order_key_of_def)
  have bs: "buckets_of st pair = pp_bucket_sizes params" by (simp add: buckets_of_def assms(6))
  from assms(7) obtain ds where st1: "st1 = st\<lparr>dx_depths := ds\<rparr>"
    and ds: "decrease_liquidity_depths (dx_depths st) pair dir price x (buckets_of st pair) = Inr ds"
    by (auto simp: key depths_down_Inr bs)
  have ix: "indexed_ok order_index (dx_orders st1)" using bi(1) by (simp add: st1)
  show ?thesis
  proof (cases "r = 0")
    case True
    from book_remove_Inr [OF ix, of key] True assms(8) obtain b where st': "st' = st1\<lparr>dx_orders := b\<rparr>"
      and b: "indexed_ok order_index b" "im_primary b = om_remove key (orders_of st)"
      by (auto simp: st1 orders_of_def is_zero_def)
    have "x = o_remaining ord" using assms(5) True by (simp add: word_unat_eq_iff)
    then have "book_inv T st' \<and> orders_of st' = om_remove key (orders_of st)"
      by (intro removed_order_inv [OF inv(1) assms(2) key _ b, of ds])
        (use ds assms(4) in \<open>simp_all add: st' st1\<close>)
    then show ?thesis using True by (simp add: same_frame_def st' st1)
  next
    case False
    with assms(8) have sv: "book_save st1 key (ord\<lparr>o_remaining := r\<rparr>) = Inr st'" by (simp add: is_zero_def)
    from book_save_Inr [OF ix sv] obtain b where st': "st' = st1\<lparr>dx_orders := b\<rparr>"
      and b: "indexed_ok order_index b" "im_primary b = om_insert key (ord\<lparr>o_remaining := r\<rparr>) (orders_of st)"
      by (auto simp: st1 orders_of_def)
    have "book_inv T st' \<and> orders_of st' = om_insert key (ord\<lparr>o_remaining := r\<rparr>) (orders_of st)"
      by (intro shrunk_order_inv [OF inv(1) assms(2) key assms(4,5) ds b]) (simp add: st' st1)
    then show ?thesis using False by (simp add: same_frame_def st' st1)
  qed
qed

lemma removed_ioc_order:
  assumes "dex_inv T dex st" and "map_of (orders_of st) key = Some ord" and "key = order_key_of pair ord"
    and "o_tif ord = ImmediateOrCancel" and "book_remove st key = Inr st'"
  shows "book_inv T st' \<and> orders_of st' = om_remove key (orders_of st) \<and> same_frame st st'"
proof -
  note inv = dex_invD [OF assms(1)]
  note bi = book_invD [OF inv(1)]
  obtain dir price oid where key: "key = (pair, dir, price, oid)" by (simp add: assms(3) order_key_of_def)
  from book_remove_Inr [OF bi(1), of key] assms(5) obtain b where st': "st' = st\<lparr>dx_orders := b\<rparr>"
    and b: "indexed_ok order_index b" "im_primary b = om_remove key (orders_of st)" by auto
  have "book_inv T st' \<and> orders_of st' = om_remove key (orders_of st)"
    by (intro removed_order_inv [OF inv(1) assms(2) key _ b, of "dx_depths st"]) (use assms(4) in \<open>simp_all add: st'\<close>)
  then show ?thesis by (simp add: same_frame_def st')
qed

lemma settle_user_order_Inr:
  assumes "au_ok T dex au" and "outcome_of (au_state au) pair f" and "o_user (fo_order f) \<noteq> dex"
    and "map_of (dx_pairs (au_state au)) pair = Some params"
    and "settle_user_order pair (pp_bucket_sizes params) f au = Inr au'"
  shows "au_ok T dex au' \<and> only_key (order_key_of pair (fo_order f)) (au_state au) (au_state au') \<and>
    (\<exists>es. au_events au' = au_events au @ es) \<and>
    (\<forall>d. owed dex au' d + freed pair d f \<le> owed dex au d)"
proof -
  let ?st = "au_state au" and ?key = "order_key_of pair (fo_order f)"
  from assms(1) have ok: "dex_inv T dex ?st" "transfers_ok (au_refunds au)" by (simp_all add: au_ok_def)
  note bi = book_invD [OF dex_invD(1) [OF ok(1)]]
  from assms(2) obtain ord r where o: "map_of (orders_of ?st) ?key = Some ord"
    "fo_order f = ord\<lparr>o_remaining := r\<rparr>" and x: "unat (o_remaining ord) = unat (fo_filled_base f) + unat r"
    by (auto simp: outcome_of_def)
  have key: "?key = order_key_of pair ord" and u: "o_user ord \<noteq> dex" and tif: "o_tif (fo_order f) = o_tif ord"
    using assms(3) by (simp_all add: o(2) order_key_of_def)
  have debt: "order_debt d ?key ord = order_debt d ?key (fo_order f) + freed pair d f" for d
    by (rule order_debt_filled [OF x key o(2) refl])
  show ?thesis
  proof (cases "o_tif ord")
    case GoodTilCanceled
    with assms(5) tif obtain st1 st' where
      down: "depths_down ?st ?key (fo_filled_base f) (pp_bucket_sizes params) = Inr st1"
      and sv: "(if is_zero r then book_remove st1 ?key else book_save st1 ?key (ord\<lparr>o_remaining := r\<rparr>)) = Inr st'"
      and au': "au' = au\<lparr>au_state := st'\<rparr>"
      by (auto simp: settle_user_order_def Let_def and_then_Inr_iff o(2) [symmetric])
        (auto simp: o(2) split: if_splits)
    note g = settle_gtc [OF ok(1) o(1) key GoodTilCanceled x assms(4) down sv]
    have map: "map_of (orders_of st') k = (if k = ?key then if r = 0 then None else Some (ord\<lparr>o_remaining := r\<rparr>)
        else map_of (orders_of ?st) k)" for k
      using g by (auto simp: map_of_om_insert bi(2) map_of_om_remove)
    have "dex_inv T dex st'"
    proof (rule dex_invI)
      show "o_tif o' = GoodTilCanceled" if "map_of (orders_of st') k = Some o'" "o_user o' = dex" for k o'
        using that dex_invD(3) [OF ok(1), of k o'] GoodTilCanceled by (auto simp: map split: if_splits)
    qed (use g dex_invD(2) [OF ok(1)] in \<open>simp_all add: same_frame_def\<close>)
    moreover have "user_debt dex st' d + freed pair d f \<le> user_debt dex ?st d" for d
    proof (cases "r = 0")
      case True
      then have "orders_of st' = om_remove ?key (orders_of ?st)" using g by simp
      from user_debt_remove [OF bi(2) this, of dex d] show ?thesis by (simp add: o(1) user_weight_def u debt)
    next
      case False
      then have "orders_of st' = om_insert ?key (fo_order f) (orders_of ?st)" using g by (simp add: o(2))
      from user_debt_insert [OF bi(2) this, of dex d] show ?thesis
        using assms(3) by (simp add: o(1) user_weight_def u debt)
    qed
    moreover have "only_key ?key ?st st'"
    proof -
      have "shrunk ord (ord\<lparr>o_remaining := r\<rparr>)"
        using x GoodTilCanceled by (auto simp: shrunk_def word_le_nat_alt)
      then show ?thesis using g map o(1) by (simp add: only_key_def del: split_paired_All)
    qed
    ultimately show ?thesis
      using assms(1) by (simp add: au' au_ok_def owed_def)
  next
    case ImmediateOrCancel
    with assms(5) tif obtain au1 st' where rf: "refund_ioc_order pair (fo_order f) au = Inr au1"
      and rm: "book_remove (au_state au1) ?key = Inr st'" and au': "au' = au1\<lparr>au_state := st'\<rparr>"
      by (auto simp: settle_user_order_def Let_def and_then_Inr_iff)
    note r1 = refund_ioc_order_Inr [OF ok(2) rf]
    have "book_remove ?st ?key = Inr st'" using rm r1 by simp
    note g = removed_ioc_order [OF ok(1) o(1) key ImmediateOrCancel this]
    have "dex_inv T dex st'"
      by (rule dex_inv_remove [OF ok(1)]) (use g in \<open>auto simp: same_frame_def\<close>)
    have a: "user_debt dex st' d + order_debt d ?key (fo_order f) + freed pair d f = user_debt dex ?st d" for d
      using user_debt_remove [OF bi(2), of st' ?key dex d] g by (simp add: o(1) user_weight_def u debt)
    have b: "transfers_total (au_refunds au1) d * 10 ^ 24
        \<le> transfers_total (au_refunds au) d * 10 ^ 24 + order_debt d ?key (fo_order f)" for d
      using r1 by blast
    have fees: "au_fees au1 = au_fees au" "au_payments au1 = au_payments au" using r1 by (simp_all add: same_ledgers_def)
    have "owed dex au' d + freed pair d f \<le> owed dex au d" for d
      using a [of d] b [of d] by (simp add: owed_def au' fees add_mult_distrib)
    moreover have "only_key ?key ?st st'"
      using g by (simp add: only_key_def map_of_om_remove del: split_paired_All)
    moreover have "au_ok T dex au'" using assms(1) \<open>dex_inv T dex st'\<close> r1 by (simp add: au_ok_def au' fees)
    ultimately show ?thesis using r1 by (simp add: au')
  qed
qed

lemma pay_fee_Inr:
  assumes "om_ok fees" and "transfers_ok payments"
    and "(if is_non_zero fee
      then and_then (dec_coins_insert 6 fees (mk_dec_coin d0 fee)) (\<lambda>fees'.
           and_then (transfers_insert 6 payments user d0 fee) (\<lambda>payments'. Inr (fees', payments')))
      else Inr (fees, payments)) = Inr (fees', payments')"
  shows "om_ok fees' \<and> transfers_ok payments' \<and>
    (\<forall>d. om_amount fees' d = om_amount fees d + (if d = d0 then unat fee else 0) \<and>
      transfers_total payments' d = transfers_total payments d + (if d = d0 then unat fee else 0))"
proof (cases "is_non_zero fee")
  case True
  with assms(3) have f: "dec_coins_insert 6 fees (mk_dec_coin d0 fee) = Inr fees'"
    and p: "transfers_insert 6 payments user d0 fee = Inr payments'" by (auto simp: and_then_Inr_iff)
  show ?thesis using dec_coins_insert_Inr [OF assms(1) f] transfers_insert_Inr [OF assms(2) p] by simp
next
  case False
  with assms show ?thesis by (auto simp: is_non_zero_def is_zero_def)
qed

lemma fill_user_order_Inr:
  assumes "au_ok T dex au" and "fill_user_order pair f au = Inr au'"
  shows "au_ok T dex au' \<and> au_state au' = au_state au \<and> au_events au' = au_events au \<and>
    (\<forall>d. owed dex au' d = owed dex au d +
      ((if d = fst pair then unat (fo_refund_base f) + unat (fo_fee_base f) else 0) +
       (if d = snd pair then unat (fo_refund_quote f) + unat (fo_fee_quote f) else 0)) * 10 ^ 24)"
proof -
  obtain base quote where pair: "pair = (base, quote)" by (cases pair)
  let ?user = "o_user (fo_order f)"
  from assms(2) obtain fees1 payments1 fees payments refunds1 refunds where
    p1: "(if is_non_zero (fo_fee_base f)
      then and_then (dec_coins_insert 6 (au_fees au) (mk_dec_coin base (fo_fee_base f))) (\<lambda>fees'.
           and_then (transfers_insert 6 (au_payments au) ?user base (fo_fee_base f)) (\<lambda>payments'. Inr (fees', payments')))
      else Inr (au_fees au, au_payments au)) = Inr (fees1, payments1)"
    and p2: "(if is_non_zero (fo_fee_quote f)
      then and_then (dec_coins_insert 6 fees1 (mk_dec_coin quote (fo_fee_quote f))) (\<lambda>fees'.
           and_then (transfers_insert 6 payments1 ?user quote (fo_fee_quote f)) (\<lambda>payments'. Inr (fees', payments')))
      else Inr (fees1, payments1)) = Inr (fees, payments)"
    and r1: "transfers_insert 6 (au_refunds au) ?user base (fo_refund_base f) = Inr refunds1"
    and r2: "transfers_insert 6 refunds1 ?user quote (fo_refund_quote f) = Inr refunds"
    and au': "au' = au\<lparr>au_refunds := refunds, au_fees := fees, au_payments := payments\<rparr>"
    unfolding fill_user_order_def pair prod.case Let_def
    by (elim and_thenE) (auto simp: and_then_Inr_iff simp del: if_split_asm split del: if_split)
  from assms(1) have ok: "om_ok (au_fees au)" "transfers_ok (au_payments au)" "transfers_ok (au_refunds au)"
    by (simp_all add: au_ok_def)
  note f1 = pay_fee_Inr [OF ok(1,2) p1]
  note f2 = pay_fee_Inr [OF _ _ p2]
  note t1 = transfers_insert_Inr [OF ok(3) r1]
  note t2 = transfers_insert_Inr [OF _ r2]
  have ok1: "om_ok fees1" "transfers_ok payments1" "transfers_ok refunds1" using f1 t1 by blast+
  show ?thesis
    using assms(1) f1 f2 [OF ok1(1,2)] t1 t2 [OF ok1(3)]
    by (auto simp: au_ok_def au' owed_def pair add_mult_distrib)
qed

subsection \<open>Accounting for one outcome\<close>

text \<open>An outcome at a clearing price; what it gives to the auction at that price, and what it takes.\<close>

definition priced_at :: "udec \<Rightarrow> filling_outcome \<Rightarrow> bool" where
  "priced_at cp f \<longleftrightarrow>
     (let x = unat (fo_filled_base f); p = unat (o_price (fo_order f)); c = unat cp in
      unat (fo_filled_quote f) = x * c div 10 ^ 24 \<and>
      (case o_direction (fo_order f) of
         Bid \<Rightarrow> unat (fo_refund_base f) + unat (fo_fee_base f) = x \<and>
           unat (fo_refund_quote f) * 10 ^ 24 + x * c \<le> x * p \<and> fo_fee_quote f = 0
       | Ask \<Rightarrow> fo_refund_base f = 0 \<and> fo_fee_base f = 0 \<and>
           unat (fo_refund_quote f) + unat (fo_fee_quote f) = unat (fo_filled_quote f)))"

definition gives :: "udec \<Rightarrow> pair_key \<Rightarrow> denom \<Rightarrow> filling_outcome \<Rightarrow> nat" where
  "gives cp pair d f = (case o_direction (fo_order f) of
     Bid \<Rightarrow> if d = snd pair then unat (fo_filled_base f) * unat cp else 0
   | Ask \<Rightarrow> if d = fst pair then unat (fo_filled_base f) * 10 ^ 24 else 0)"

definition takes :: "udec \<Rightarrow> pair_key \<Rightarrow> denom \<Rightarrow> filling_outcome \<Rightarrow> nat" where
  "takes cp pair d f = (case o_direction (fo_order f) of
     Bid \<Rightarrow> if d = fst pair then unat (fo_filled_base f) * 10 ^ 24 else 0
   | Ask \<Rightarrow> if d = snd pair then unat (fo_filled_base f) * unat cp else 0)"

text \<open>The filled passive bids of pairs quoted in a denom, counted in the events.\<close>

fun dusty :: "addr \<Rightarrow> denom \<Rightarrow> dex_event \<Rightarrow> bool" where
  "dusty dex d (OrderFilled e) \<longleftrightarrow> of_user e = dex \<and> of_direction e = Bid \<and> snd (of_pair e) = d"
| "dusty dex d _ \<longleftrightarrow> False"

definition dust :: "addr \<Rightarrow> dex_event list \<Rightarrow> denom \<Rightarrow> nat" where
  "dust dex events d = length (filter (dusty dex d) events)"

lemma dust_simps [simp]:
  "dust dex [] d = 0" "dust dex (es @ es') d = dust dex es d + dust dex es' d"
  "dust dex (e # es) d = (if dusty dex d e then 1 else 0) + dust dex es d"
  by (simp_all add: dust_def)

lemma user_balance:
  assumes "priced_at cp f"
  shows "((if d = fst pair then unat (fo_refund_base f) + unat (fo_fee_base f) else 0) +
       (if d = snd pair then unat (fo_refund_quote f) + unat (fo_fee_quote f) else 0)) * 10 ^ 24 + gives cp pair d f
    \<le> takes cp pair d f + freed pair d f"
proof (cases "o_direction (fo_order f)")
  case Bid
  with assms show ?thesis by (simp add: priced_at_def Let_def gives_def takes_def freed_def add_mult_distrib)
next
  case Ask
  let ?x = "unat (fo_filled_base f) * unat cp"
  have "?x div 10 ^ 24 * 10 ^ 24 \<le> ?x" by (rule div_times_less_eq_dividend)
  with assms Ask show ?thesis by (simp add: priced_at_def Let_def gives_def takes_def freed_def)
qed

lemma fill_passive_order_Inr:
  assumes "om_ok inflows" and "om_ok outflows" and "fill_passive_order pair f (inflows, outflows) = Inr (inflows', outflows')"
    and "priced_at cp f"
  shows "om_ok inflows' \<and> om_ok outflows' \<and>
    om_amount inflows' d * 10 ^ 24 + om_amount outflows d * 10 ^ 24 + gives cp pair d f
      \<le> om_amount inflows d * 10 ^ 24 + om_amount outflows' d * 10 ^ 24 + takes cp pair d f +
        (if o_direction (fo_order f) = Bid \<and> snd pair = d then 10 ^ 24 else 0)"
proof -
  obtain base quote where pair: "pair = (base, quote)" by (cases pair)
  let ?x = "unat (fo_filled_base f) * unat cp"
  have fq: "unat (fo_filled_quote f) = ?x div 10 ^ 24" using assms(4) by (simp add: priced_at_def Let_def)
  have "?x = ?x div 10 ^ 24 * 10 ^ 24 + ?x mod 10 ^ 24" "?x mod 10 ^ 24 < 10 ^ 24" by simp_all
  then have up: "?x \<le> unat (fo_filled_quote f) * 10 ^ 24 + 10 ^ 24" and low: "unat (fo_filled_quote f) * 10 ^ 24 \<le> ?x"
    unfolding fq by linarith+
  show ?thesis
  proof (cases "o_direction (fo_order f)")
    case Bid
    with assms(3) have i: "dec_coins_insert 6 inflows (mk_dec_coin base (fo_filled_base f)) = Inr inflows'"
      and u: "dec_coins_insert 6 outflows (mk_dec_coin quote (fo_filled_quote f)) = Inr outflows'"
      by (auto simp: fill_passive_order_def pair and_then_Inr_iff)
    show ?thesis
      using dec_coins_insert_Inr [OF assms(1) i, of d] dec_coins_insert_Inr [OF assms(2) u, of d] up
      by (auto simp: Bid gives_def takes_def pair)
  next
    case Ask
    with assms(3) have i: "dec_coins_insert 6 inflows (mk_dec_coin quote (fo_filled_quote f)) = Inr inflows'"
      and u: "dec_coins_insert 6 outflows (mk_dec_coin base (fo_filled_base f)) = Inr outflows'"
      by (auto simp: fill_passive_order_def pair and_then_Inr_iff)
    show ?thesis
      using dec_coins_insert_Inr [OF assms(1) i, of d] dec_coins_insert_Inr [OF assms(2) u, of d] low
      by (auto simp: Ask gives_def takes_def pair)
  qed
qed

lemma update_trading_volumes_frame:
  assumes "update_trading_volumes env oracle base_denom filled user au = Inr au'"
  shows "au_state au' = au_state au \<and> au_events au' = au_events au \<and> au_refunds au' = au_refunds au \<and>
    same_ledgers au au'"
  using assms by (auto simp: update_trading_volumes_def and_then_Inr_iff same_ledgers_def split: sum.splits option.splits)

lemma handle_outcome_Inr:
  assumes "au_ok T (de_dex env) au" and "om_ok inflows" and "om_ok outflows"
    and "outcome_of (au_state au) pair f" and "priced_at cp f"
    and "map_of (dx_pairs (au_state au)) pair = Some params"
    and "handle_outcome env oracle pair (pp_bucket_sizes params) (au, inflows, outflows) f = Inr (au', inflows', outflows')"
  shows "au_ok T (de_dex env) au' \<and> om_ok inflows' \<and> om_ok outflows' \<and>
    only_key (order_key_of pair (fo_order f)) (au_state au) (au_state au') \<and>
    (\<forall>d. owed (de_dex env) au' d + om_amount inflows' d * 10 ^ 24 + om_amount outflows d * 10 ^ 24 + gives cp pair d f
        + dust (de_dex env) (au_events au) d * 10 ^ 24
      \<le> owed (de_dex env) au d + om_amount inflows d * 10 ^ 24 + om_amount outflows' d * 10 ^ 24 + takes cp pair d f
        + dust (de_dex env) (au_events au') d * 10 ^ 24)"
proof -
  let ?dex = "de_dex env"
  from assms(7) obtain au3 where
    h: "(if o_user (fo_order f) \<noteq> ?dex
        then and_then (fill_user_order pair f au) (\<lambda>au1.
             and_then (settle_user_order pair (pp_bucket_sizes params) f au1) (\<lambda>au2. Inr (au2, inflows, outflows)))
        else and_then (fill_passive_order pair f (inflows, outflows)) (\<lambda>flows'. Inr (au, flows'))) =
      Inr (au3, inflows', outflows')"
    and v: "update_trading_volumes env oracle (fst pair) (fo_filled_base f) (o_user (fo_order f))
         (au3\<lparr>au_events := au_events au3 @ [order_filled_event pair f]\<rparr>) = Inr au'"
    by (auto simp: handle_outcome_def and_then_Inr_iff simp del: if_split_asm split del: if_split)
  from update_trading_volumes_frame [OF v] have au': "au_state au' = au_state au3" "au_refunds au' = au_refunds au3"
    "au_fees au' = au_fees au3" "au_payments au' = au_payments au3"
    "au_events au' = au_events au3 @ [order_filled_event pair f]" by (simp_all add: same_ledgers_def)
  have same: "au_ok T ?dex au' = au_ok T ?dex au3" "owed ?dex au' = owed ?dex au3"
    by (simp_all add: au_ok_def owed_def au' fun_eq_iff)
  have dust: "dust ?dex (au_events au') d = dust ?dex (au_events au3) d +
      (if o_user (fo_order f) = ?dex \<and> o_direction (fo_order f) = Bid \<and> snd pair = d then 1 else 0)" for d
    by (simp add: au' order_filled_event_def Let_def)
  show ?thesis
  proof (cases "o_user (fo_order f) = ?dex")
    case False
    with h obtain au1 where f: "fill_user_order pair f au = Inr au1"
      and s: "settle_user_order pair (pp_bucket_sizes params) f au1 = Inr au3"
      and flows: "inflows' = inflows" "outflows' = outflows" by (auto simp: and_then_Inr_iff)
    note 1 = fill_user_order_Inr [OF assms(1) f]
    then have st1: "au_ok T ?dex au1" "au_state au1 = au_state au" "au_events au1 = au_events au" by blast+
    note 2 = settle_user_order_Inr [OF st1(1) assms(4) [folded st1(2)] False assms(6) [folded st1(2)] s]
    from 2 obtain es where es: "au_events au3 = au_events au @ es" using st1(3) by auto
    have "owed ?dex au3 d + gives cp pair d f \<le> owed ?dex au d + takes cp pair d f" for d
    proof -
      have "owed ?dex au3 d + freed pair d f \<le> owed ?dex au1 d" using 2 by blast
      moreover have "owed ?dex au1 d = owed ?dex au d +
        ((if d = fst pair then unat (fo_refund_base f) + unat (fo_fee_base f) else 0) +
         (if d = snd pair then unat (fo_refund_quote f) + unat (fo_fee_quote f) else 0)) * 10 ^ 24" using 1 by blast
      ultimately show ?thesis using user_balance [OF assms(5), of d pair] by linarith
    qed
    then have "owed ?dex au' d + om_amount inflows' d * 10 ^ 24 + om_amount outflows d * 10 ^ 24 + gives cp pair d f
        + dust ?dex (au_events au) d * 10 ^ 24
      \<le> owed ?dex au d + om_amount inflows d * 10 ^ 24 + om_amount outflows' d * 10 ^ 24 + takes cp pair d f
        + dust ?dex (au_events au') d * 10 ^ 24" for d
      using le_add1 [of "dust ?dex (au_events au) d" "dust ?dex es d"]
      by (simp add: same dust es flows False add_mult_distrib add_le_mono)
    moreover have "au_ok T ?dex au'" "only_key (order_key_of pair (fo_order f)) (au_state au) (au_state au')"
      using 2 by (simp_all only: same au' st1(2))
    ultimately show ?thesis using assms(2,3) flows by blast
  next
    case True
    with h have f: "fill_passive_order pair f (inflows, outflows) = Inr (inflows', outflows')" and au3: "au3 = au"
      by (auto simp: and_then_Inr_iff)
    note p = fill_passive_order_Inr [OF assms(2,3) f assms(5)]
    have "only_key (order_key_of pair (fo_order f)) (au_state au) (au_state au)"
      by (rule only_key_refl)
    moreover have "owed ?dex au' d + om_amount inflows' d * 10 ^ 24 + om_amount outflows d * 10 ^ 24 + gives cp pair d f
        + dust ?dex (au_events au) d * 10 ^ 24
      \<le> owed ?dex au d + om_amount inflows d * 10 ^ 24 + om_amount outflows' d * 10 ^ 24 + takes cp pair d f
        + dust ?dex (au_events au') d * 10 ^ 24" for d
      using p [of d] True by (simp add: same dust au3 split: if_splits)
    moreover have "om_ok inflows'" "om_ok outflows'" using p by blast+
    moreover have "au_ok T ?dex au'" using assms(1) by (simp only: same au3)
    ultimately show ?thesis by (simp only: au' au3) blast
  qed
qed

lemma only_key_frame: "only_key key st st' \<Longrightarrow> same_frame st st'"
  by (simp add: only_key_def)

lemma outcome_of_other:
  assumes "outcome_of st pair f" and "only_key key st st'" and "order_key_of pair (fo_order f) \<noteq> key"
  shows "outcome_of st' pair f"
  using assms unfolding outcome_of_def only_key_def by metis

lemma handle_outcomes_Inr:
  assumes "au_ok T (de_dex env) au" and "om_ok inflows" and "om_ok outflows"
    and "distinct (map (\<lambda>f. order_key_of pair (fo_order f)) fs)"
    and "\<And>f. f \<in> set fs \<Longrightarrow> outcome_of (au_state au) pair f \<and> priced_at cp f"
    and "map_of (dx_pairs (au_state au)) pair = Some params"
    and "try_fold (handle_outcome env oracle pair (pp_bucket_sizes params)) (au, inflows, outflows) fs =
      Inr (au', inflows', outflows')"
  shows "au_ok T (de_dex env) au' \<and> om_ok inflows' \<and> om_ok outflows' \<and> same_frame (au_state au) (au_state au') \<and>
    evolves (de_dex env) (au_state au) (au_state au') \<and>
    (\<forall>d. owed (de_dex env) au' d + om_amount inflows' d * 10 ^ 24 + om_amount outflows d * 10 ^ 24
        + sum_list (map (gives cp pair d) fs) + dust (de_dex env) (au_events au) d * 10 ^ 24
      \<le> owed (de_dex env) au d + om_amount inflows d * 10 ^ 24 + om_amount outflows' d * 10 ^ 24
        + sum_list (map (takes cp pair d) fs) + dust (de_dex env) (au_events au') d * 10 ^ 24)"
  using assms
proof (induction fs arbitrary: au inflows outflows)
  case Nil
  then show ?case by (simp add: same_frame_refl evolves_refl)
next
  case (Cons f fs)
  let ?dex = "de_dex env"
  from Cons.prems(7) obtain au1 i1 u1 where
    h: "handle_outcome env oracle pair (pp_bucket_sizes params) (au, inflows, outflows) f = Inr (au1, i1, u1)"
    and rest: "try_fold (handle_outcome env oracle pair (pp_bucket_sizes params)) (au1, i1, u1) fs =
      Inr (au', inflows', outflows')"
    by (auto simp: and_then_Inr_iff)
  have f: "outcome_of (au_state au) pair f" "priced_at cp f" using Cons.prems(5) by simp_all
  note one = handle_outcome_Inr [OF Cons.prems(1-3) f Cons.prems(6) h]
  then have k: "only_key (order_key_of pair (fo_order f)) (au_state au) (au_state au1)" by blast
  note fr = only_key_frame [OF k]
  have "outcome_of (au_state au1) pair g \<and> priced_at cp g" if g: "g \<in> set fs" for g
  proof -
    from Cons.prems(4) have "order_key_of pair (fo_order f) \<notin> (\<lambda>f. order_key_of pair (fo_order f)) ` set fs" by simp
    then have "order_key_of pair (fo_order g) \<noteq> order_key_of pair (fo_order f)" using g by (metis image_eqI)
    with Cons.prems(5) [of g] g show ?thesis using outcome_of_other [OF _ k] by simp
  qed
  moreover have "map_of (dx_pairs (au_state au1)) pair = Some params" using fr Cons.prems(6) by (simp add: same_frame_def)
  ultimately have ih: "au_ok T ?dex au' \<and> om_ok inflows' \<and> om_ok outflows' \<and> same_frame (au_state au1) (au_state au') \<and>
      evolves ?dex (au_state au1) (au_state au') \<and>
      (\<forall>d. owed ?dex au' d + om_amount inflows' d * 10 ^ 24 + om_amount u1 d * 10 ^ 24
        + sum_list (map (gives cp pair d) fs) + dust ?dex (au_events au1) d * 10 ^ 24
      \<le> owed ?dex au1 d + om_amount i1 d * 10 ^ 24 + om_amount outflows' d * 10 ^ 24
        + sum_list (map (takes cp pair d) fs) + dust ?dex (au_events au') d * 10 ^ 24)"
    using one Cons.prems(4) by (intro Cons.IH [OF _ _ _ _ _ _ rest]) simp_all
  have "owed ?dex au' d + om_amount inflows' d * 10 ^ 24 + om_amount outflows d * 10 ^ 24
        + sum_list (map (gives cp pair d) (f # fs)) + dust ?dex (au_events au) d * 10 ^ 24
      \<le> owed ?dex au d + om_amount inflows d * 10 ^ 24 + om_amount outflows' d * 10 ^ 24
        + sum_list (map (takes cp pair d) (f # fs)) + dust ?dex (au_events au') d * 10 ^ 24" for d
  proof -
    have "owed ?dex au1 d + om_amount i1 d * 10 ^ 24 + om_amount outflows d * 10 ^ 24 + gives cp pair d f
        + dust ?dex (au_events au) d * 10 ^ 24
      \<le> owed ?dex au d + om_amount inflows d * 10 ^ 24 + om_amount u1 d * 10 ^ 24 + takes cp pair d f
        + dust ?dex (au_events au1) d * 10 ^ 24" using one by blast
    moreover have "owed ?dex au' d + om_amount inflows' d * 10 ^ 24 + om_amount u1 d * 10 ^ 24
        + sum_list (map (gives cp pair d) fs) + dust ?dex (au_events au1) d * 10 ^ 24
      \<le> owed ?dex au1 d + om_amount i1 d * 10 ^ 24 + om_amount outflows' d * 10 ^ 24
        + sum_list (map (takes cp pair d) fs) + dust ?dex (au_events au') d * 10 ^ 24" using ih by blast
    ultimately show ?thesis by simp
  qed
  with ih fr only_key_evolves [OF k, of ?dex] show ?case by (blast intro: same_frame_trans evolves_trans)
qed

subsection \<open>Matching and filling a pair\<close>

lemma side_orders_keys:
  assumes "book_inv T st"
  shows "map (\<lambda>po. order_key_of pair (snd po)) (side_orders st pair dir) =
      map fst (filter (\<lambda>((p, d, _, _), _). p = pair \<and> d = dir) (orders_of st))"
    and "po \<in> set (side_orders st pair dir) \<Longrightarrow>
      map_of (orders_of st) (order_key_of pair (snd po)) = Some (snd po) \<and> o_direction (snd po) = dir \<and>
      o_price (snd po) = fst po"
proof -
  note bi = book_invD [OF assms]
  let ?P = "\<lambda>((p, d, _, _), _). p = pair \<and> d = dir"
  let ?g = "\<lambda>((_, _, price, _), ord). (price, ord)"
  have e: "order_key_of pair (snd (?g e)) = fst e \<and> o_direction (snd (?g e)) = dir \<and>
      o_price (snd (?g e)) = fst (?g e) \<and> snd (?g e) = snd e" if "e \<in> set (orders_of st)" and "?P e" for e
    using bi(4) [OF that(1)] that(2) by (auto simp: entry_ok_def order_key_of_def split: prod.splits)
  show "map (\<lambda>po. order_key_of pair (snd po)) (side_orders st pair dir) = map fst (filter ?P (orders_of st))"
    unfolding side_orders_def map_map comp_def
  proof (rule map_cong [OF refl])
    fix e assume "e \<in> set (filter ?P (orders_of st))"
    then have "e \<in> set (orders_of st)" "?P e" by simp_all
    from e [OF this] show "order_key_of pair (snd (?g e)) = fst e" by blast
  qed
  assume "po \<in> set (side_orders st pair dir)"
  then obtain e where e1: "e \<in> set (orders_of st)" "?P e" "po = ?g e" unfolding side_orders_def by auto
  have m: "map_of (orders_of st) (fst e) = Some (snd e)" using e1(1) om_mem_iff [OF bi(2)] by (metis prod.collapse)
  have "order_key_of pair (snd po) = fst e" "o_direction (snd po) = dir" "o_price (snd po) = fst po" "snd po = snd e"
    using e [OF e1(1,2)] unfolding e1(3) by blast+
  with m show "map_of (orders_of st) (order_key_of pair (snd po)) = Some (snd po) \<and>
      o_direction (snd po) = dir \<and> o_price (snd po) = fst po" by metis
qed

lemma side_orders_sorted:
  assumes "book_inv T st"
  shows "best_first (\<le>) (side_orders st pair dir)" and "best_first (\<ge>) (rev (side_orders st pair dir))"
proof -
  note bi = book_invD [OF assms]
  have "sorted_wrt (<) (map (\<lambda>po. order_key_of pair (snd po)) (side_orders st pair dir))"
    unfolding side_orders_keys(1) [OF assms] using om_ok_filter [OF bi(2)] by (simp only: om_ok_def)
  then have s: "sorted_wrt (\<lambda>x y. order_key_of pair (snd x) < order_key_of pair (snd y)) (side_orders st pair dir)"
    by (simp add: sorted_wrt_map)
  show 1: "best_first (\<le>) (side_orders st pair dir)"
    unfolding best_first_def
  proof (rule sorted_wrt_mono_rel [OF _ s])
    fix x y assume "x \<in> set (side_orders st pair dir)" "y \<in> set (side_orders st pair dir)"
      "order_key_of pair (snd x) < order_key_of pair (snd y)"
    then show "fst x \<le> fst y"
      using side_orders_keys(2) [OF assms, of x pair dir] side_orders_keys(2) [OF assms, of y pair dir]
      by (auto simp: order_key_of_def less_prod_def' less_imp_le)
  qed
  then show "best_first (\<ge>) (rev (side_orders st pair dir))" by (simp add: best_first_def sorted_wrt_rev)
qed

lemma sum_gives:
  assumes "\<And>f. f \<in> set fs \<Longrightarrow> o_direction (fo_order f) = dir"
  shows "sum_list (map (gives cp pair d) fs) = (case dir of
      Bid \<Rightarrow> if d = snd pair then filled_total fs * unat cp else 0
    | Ask \<Rightarrow> if d = fst pair then filled_total fs * 10 ^ 24 else 0)"
    and "sum_list (map (takes cp pair d) fs) = (case dir of
      Bid \<Rightarrow> if d = fst pair then filled_total fs * 10 ^ 24 else 0
    | Ask \<Rightarrow> if d = snd pair then filled_total fs * unat cp else 0)"
  using assms by (induction fs) (auto simp: gives_def takes_def add_mult_distrib split: direction.splits)

text \<open>The outcomes of one side.\<close>

lemma outcomes_of_side:
  assumes "book_inv T st" and "list_all2 (outcome_filled cp) (take (length fs) taken) fs" and "length fs \<le> length taken"
    and "set taken \<subseteq> set (side_orders st pair dir)"
    and "distinct (map (\<lambda>po. order_key_of pair (snd po)) taken)"
  shows "(\<forall>f \<in> set fs. outcome_of st pair f \<and> o_direction (fo_order f) = dir) \<and>
    distinct (map (\<lambda>f. order_key_of pair (fo_order f)) fs)"
proof -
  let ?t = "take (length fs) taken"
  have same: "order_key_of pair (fo_order f) = order_key_of pair (snd po) \<and> outcome_of st pair f \<and>
      o_direction (fo_order f) = dir"
    if "outcome_filled cp po f" and "po \<in> set taken" for po f
  proof -
    from that(1) obtain r where r: "fo_order f = (snd po)\<lparr>o_remaining := r\<rparr>"
      "unat (o_remaining (snd po)) = unat (fo_filled_base f) + unat r" by (auto simp: outcome_filled_def)
    have k: "order_key_of pair (fo_order f) = order_key_of pair (snd po)" by (simp add: r(1) order_key_of_def)
    have "po \<in> set (side_orders st pair dir)" using that(2) assms(4) by blast
    note side_orders_keys(2) [OF assms(1) this]
    with r k show ?thesis by (auto simp: outcome_of_def)
  qed
  have sub: "set ?t \<subseteq> set taken" by (rule set_take_subset)
  have "map (\<lambda>f. order_key_of pair (fo_order f)) fs = map (\<lambda>po. order_key_of pair (snd po)) ?t"
    using assms(2) sub
  proof (induction rule: list_all2_induct)
    case (Cons po pos f fs)
    with same [of po f] show ?case by simp
  qed simp
  moreover have "distinct (map (\<lambda>po. order_key_of pair (snd po)) ?t)"
    using assms(5) by (metis distinct_take take_map)
  moreover have "\<forall>f \<in> set fs. outcome_of st pair f \<and> o_direction (fo_order f) = dir"
  proof
    fix f assume "f \<in> set fs"
    then obtain po where "po \<in> set ?t" "outcome_filled cp po f"
      using assms(2) by (metis in_set_conv_nth list_all2_conv_all_nth)
    with same [of po f] sub show "outcome_of st pair f \<and> o_direction (fo_order f) = dir" by blast
  qed
  ultimately show ?thesis by simp
qed

lemma bid_filled_priced:
  assumes "bid_filled cp po f" and "o_direction (fo_order f) = Bid" and "o_price (snd po) = fst po"
  shows "priced_at cp f"
proof -
  let ?x = "unat (fo_filled_base f)" and ?p = "unat (fst po)" and ?c = "unat cp"
  from assms(1) obtain r where r: "fo_order f = (snd po)\<lparr>o_remaining := r\<rparr>"
    by (auto simp: bid_filled_def outcome_filled_def)
  from assms(1) have le: "?c \<le> ?p" and q: "unat (fo_refund_quote f) = ?x * (?p - ?c) div 10 ^ 24"
    by (auto simp: bid_filled_def word_le_nat_alt)
  have "unat (fo_refund_quote f) * 10 ^ 24 \<le> ?x * (?p - ?c)" unfolding q by (rule div_times_less_eq_dividend)
  then have "unat (fo_refund_quote f) * 10 ^ 24 + ?x * ?c \<le> ?x * (?p - ?c) + ?x * ?c" by simp
  also have "\<dots> = ?x * ?p" using le by (simp flip: distrib_left)
  finally show ?thesis
    using assms by (simp add: priced_at_def Let_def r bid_filled_def outcome_filled_def)
qed

lemma ask_filled_priced: "ask_filled cp po f \<Longrightarrow> o_direction (fo_order f) = Ask \<Longrightarrow> priced_at cp f"
  by (simp add: priced_at_def Let_def ask_filled_def outcome_filled_def)

lemma match_and_fill_Inr:
  assumes "book_inv T st" and "match_and_fill env height pair st = Inr (evs, fs)"
  shows "\<exists>cp. (\<forall>f \<in> set fs. outcome_of st pair f \<and> priced_at cp f) \<and>
    distinct (map (\<lambda>f. order_key_of pair (fo_order f)) fs) \<and>
    (\<forall>d. sum_list (map (gives cp pair d) fs) = sum_list (map (takes cp pair d) fs)) \<and>
    (\<forall>dex d. dust dex evs d = 0)"
proof -
  let ?bids = "rev (side_orders st pair Bid)" and ?asks = "side_orders st pair Ask"
  from assms(2) obtain m where m: "match_orders ?bids ?asks = Inr m"
    and rest: "(case mo_range m of
          None \<Rightarrow> Inr ([], [])
        | Some (lower_price, upper_price) \<Rightarrow>
            and_then (choose_clearing_price
                (case map_of (dx_resting st) pair of None \<Rightarrow> None | Some b \<Rightarrow> rb_mid_price b)
                lower_price upper_price) (\<lambda>clearing_price.
            and_then (fill_orders (mo_bids m) (mo_asks m) clearing_price (mo_volume m) height
                (de_maker_fee_rate env) (de_taker_fee_rate env)) (\<lambda>outcomes.
              Inr ([OrdersMatched pair clearing_price (mo_volume m)], outcomes)))) = Inr (evs, fs)"
    unfolding match_and_fill_def by (elim and_thenE)
  show ?thesis
  proof (cases "mo_range m")
    case None
    with rest show ?thesis by simp
  next
    case (Some range)
    with rest obtain cp where
      f: "fill_orders (mo_bids m) (mo_asks m) cp (mo_volume m) height (de_maker_fee_rate env) (de_taker_fee_rate env) = Inr fs"
      and evs: "evs = [OrdersMatched pair cp (mo_volume m)]"
      by (auto simp: and_then_Inr_iff split: prod.splits)
    obtain s where s: "match_inv ?bids ?asks s"
      and m': "m = \<lparr>mo_range = ms_range s, mo_volume = min (sd_volume (ms_bid s)) (sd_volume (ms_ask s)),
            mo_bids = sd_taken (ms_bid s), mo_asks = sd_taken (ms_ask s)\<rparr>"
      using match_orders_Inr [OF m side_orders_sorted(2,1) [OF assms(1)]] by metis
    have ms: "mo_volume m = min (sd_volume (ms_bid s)) (sd_volume (ms_ask s))"
        "mo_bids m = sd_taken (ms_bid s)" "mo_asks m = sd_taken (ms_ask s)" by (simp_all add: m')
    from s have inv: "side_inv ?bids (ms_bid s)" "side_inv ?asks (ms_ask s)" by (simp_all add: match_inv_def)
    then have tb: "?bids = mo_bids m @ side_pending (ms_bid s)" "unat (mo_volume m) \<le> size_of (mo_bids m)"
      and ta: "?asks = mo_asks m @ side_pending (ms_ask s)" "unat (mo_volume m) \<le> size_of (mo_asks m)"
      by (simp_all add: side_inv_def ms unat_min)
    have keys: "distinct (map (\<lambda>po. order_key_of pair (snd po)) (side_orders st pair dir))" for dir
      unfolding side_orders_keys(1) [OF assms(1)]
      by (intro om_ok_distinct om_ok_filter book_invD(2) [OF assms(1)])
    have db: "distinct (map (\<lambda>po. order_key_of pair (snd po)) (mo_bids m))"
    proof -
      have "distinct (map (\<lambda>po. order_key_of pair (snd po)) ?bids)" using keys [of Bid] by (simp only: distinct_map distinct_rev set_rev)
      then show ?thesis unfolding tb(1) by simp
    qed
    have da: "distinct (map (\<lambda>po. order_key_of pair (snd po)) (mo_asks m))"
      using keys [of Ask] unfolding ta(1) by simp
    have sb: "set (mo_bids m) \<subseteq> set (side_orders st pair Bid)"
      using arg_cong [OF tb(1), of set] by auto
    have sa: "set (mo_asks m) \<subseteq> set (side_orders st pair Ask)"
      using arg_cong [OF ta(1), of set] by auto
    from fill_orders_Inr [OF f] obtain bs as where fs: "fs = bs @ as"
      and b: "fill_bids (mo_bids m) cp (mo_volume m) height (de_maker_fee_rate env) (de_taker_fee_rate env) = Inr bs"
      and a: "fill_asks (mo_asks m) cp (mo_volume m) height (de_maker_fee_rate env) (de_taker_fee_rate env) = Inr as" .
    note B = fill_bids_Inr [OF b] and A = fill_asks_Inr [OF a]
    have ob: "list_all2 (outcome_filled cp) (take (length bs) (mo_bids m)) bs"
      and oa: "list_all2 (outcome_filled cp) (take (length as) (mo_asks m)) as"
      using A B by (auto elim!: list_all2_mono simp: bid_filled_def ask_filled_def)
    note ob' = outcomes_of_side [OF assms(1) ob _ sb db] and oa' = outcomes_of_side [OF assms(1) oa _ sa da]
    have 1: "\<forall>f \<in> set bs. outcome_of st pair f \<and> o_direction (fo_order f) = Bid"
      "distinct (map (\<lambda>f. order_key_of pair (fo_order f)) bs)" using ob' B by blast+
    have 2: "\<forall>f \<in> set as. outcome_of st pair f \<and> o_direction (fo_order f) = Ask"
      "distinct (map (\<lambda>f. order_key_of pair (fo_order f)) as)" using oa' A by blast+
    have pb: "priced_at cp f" if "f \<in> set bs" for f
    proof -
      from that B obtain po where po: "po \<in> set (take (length bs) (mo_bids m))" "bid_filled cp po f"
        by (metis in_set_conv_nth list_all2_conv_all_nth)
      then have "po \<in> set (side_orders st pair Bid)" using sb by (meson in_set_takeD subsetD)
      from side_orders_keys(2) [OF assms(1) this] bid_filled_priced [OF po(2)] 1(1) that show ?thesis by blast
    qed
    have pa: "priced_at cp f" if "f \<in> set as" for f
    proof -
      from that A obtain po where "ask_filled cp po f" by (metis in_set_conv_nth list_all2_conv_all_nth)
      from ask_filled_priced [OF this] 2(1) that show ?thesis by blast
    qed
    have disj: "order_key_of pair (fo_order f) \<noteq> order_key_of pair (fo_order g)" if "f \<in> set bs" "g \<in> set as" for f g
      using 1(1) 2(1) that by (simp add: order_key_of_def)
    have "distinct (map (\<lambda>f. order_key_of pair (fo_order f)) fs)"
      unfolding fs map_append distinct_append set_map
      using 1(2) 2(2) disj by blast
    moreover have "sum_list (map (gives cp pair d) fs) = sum_list (map (takes cp pair d) fs)" for d
      using sum_gives [of bs Bid cp pair d] sum_gives [of as Ask cp pair d] 1(1) 2(1) A B tb(2) ta(2)
      by (simp add: fs)
    ultimately show ?thesis using 1 2 pb pa by (intro exI [of _ cp]) (auto simp: fs evs)
  qed
qed

subsection \<open>The reserves of the pool\<close>

lemma coin_pair_add_all:
  assumes "coin_pair_ok p" and "try_fold coin_pair_add p cs = Inr p'"
  shows "coin_pair_ok p' \<and> pair_amount p' d = pair_amount p d + (\<Sum>c\<leftarrow>cs. coin_amount c d)"
  using assms
proof (induction cs arbitrary: p)
  case (Cons c cs)
  from Cons.prems(2) obtain p1 where p1: "coin_pair_add p c = Inr p1" "try_fold coin_pair_add p1 cs = Inr p'"
    by (auto simp: and_then_Inr_iff)
  from coin_pair_add_Inr [OF Cons.prems(1) p1(1)] Cons.IH [OF _ p1(2)] show ?case by simp
qed simp

lemma coin_pair_sub_all:
  assumes "coin_pair_ok p" and "try_fold coin_pair_sub p cs = Inr p'"
  shows "coin_pair_ok p' \<and> pair_amount p d = pair_amount p' d + (\<Sum>c\<leftarrow>cs. coin_amount c d)"
  using assms
proof (induction cs arbitrary: p)
  case (Cons c cs)
  from Cons.prems(2) obtain p1 where p1: "coin_pair_sub p c = Inr p1" "try_fold coin_pair_sub p1 cs = Inr p'"
    by (auto simp: and_then_Inr_iff)
  from coin_pair_sub_Inr [OF Cons.prems(1) p1(1)] Cons.IH [OF _ p1(2)] show ?case by simp
qed simp

lemma coins_iter_amount: "coins_ok cs \<Longrightarrow> (\<Sum>c\<leftarrow>coins_iter cs. coin_amount c d) = unat (amount_of cs d)"
  using coins_iter_sum [of cs d] by (simp add: coin_amount_def)

lemma update_reserve_Inr:
  assumes "reserves_ok (dx_reserves st)" and "om_ok inflows" and "om_ok outflows"
    and "update_reserve pair inflows outflows st = Inr st'"
  shows "\<exists>m. st' = st\<lparr>dx_reserves := m\<rparr> \<and> reserves_ok m \<and>
    (\<forall>d. reserves_total m d * 10 ^ 30 + om_amount outflows d * 10 ^ 24
      \<le> reserves_total (dx_reserves st) d * 10 ^ 30 + om_amount inflows d * 10 ^ 24)"
proof (cases "dec_coins_is_empty inflows \<and> dec_coins_is_empty outflows")
  case True
  with assms show ?thesis
    by (intro exI [of _ "dx_reserves st"]) (auto simp: update_reserve_def dec_coins_is_empty_def)
next
  case False
  with assms(4) obtain reserve ins reserve1 outs reserve2 where
    ld: "map_of (dx_reserves st) pair = Some reserve"
    and i: "into_coins_floor 6 inflows = Inr ins" and r1: "try_fold coin_pair_add reserve (coins_iter ins) = Inr reserve1"
    and u: "into_coins_ceil 6 outflows = Inr outs" and r2: "try_fold coin_pair_sub reserve1 (coins_iter outs) = Inr reserve2"
    and st': "st' = st\<lparr>dx_reserves := om_insert pair reserve2 (dx_reserves st)\<rparr>"
    unfolding update_reserve_def by (simp only: if_False) (auto simp: and_then_Inr_iff om_load_Inr)
  from into_coins_floor_total [OF assms(2), of 6] i have ins: "coins_ok ins"
    "\<And>d. unat (amount_of ins d) = om_amount inflows d div 10 ^ 6" by auto
  from into_coins_ceil_total [OF assms(3), of 6] u have outs: "coins_ok outs"
    "\<And>d. unat (amount_of outs d) = ceil_div (om_amount outflows d) (10 ^ 6)" by auto
  have ok: "coin_pair_ok reserve" by (rule reserves_okD [OF assms(1) ld])
  note a = coin_pair_add_all [OF ok r1]
  note b = coin_pair_sub_all [OF conjunct1 [OF a] r2]
  have "reserves_total (om_insert pair reserve2 (dx_reserves st)) d * 10 ^ 30 + om_amount outflows d * 10 ^ 24
      \<le> reserves_total (dx_reserves st) d * 10 ^ 30 + om_amount inflows d * 10 ^ 24" for d
  proof -
    let ?i = "om_amount inflows d" and ?u = "om_amount outflows d"
    have "pair_amount reserve2 d + ceil_div ?u (10 ^ 6) = pair_amount reserve d + ?i div 10 ^ 6"
      using conjunct2 [OF a [of d]] conjunct2 [OF b [of d]] by (simp add: coins_iter_amount ins outs)
    moreover have "reserves_total (om_insert pair reserve2 (dx_reserves st)) d + pair_amount reserve d =
        reserves_total (dx_reserves st) d + pair_amount reserve2 d"
      by (rule reserves_total_insert [OF assms(1) ld])
    ultimately have "reserves_total (om_insert pair reserve2 (dx_reserves st)) d + ceil_div ?u (10 ^ 6) =
        reserves_total (dx_reserves st) d + ?i div 10 ^ 6" by linarith
    moreover have "?i div 10 ^ 6 * 10 ^ 6 \<le> ?i" "?u \<le> ceil_div ?u (10 ^ 6) * 10 ^ 6"
      by (simp, rule ceil_div_lower, simp)
    ultimately show ?thesis by simp
  qed
  moreover have "reserves_ok (om_insert pair reserve2 (dx_reserves st))"
    by (rule reserves_ok_insert [OF assms(1)]) (use b in blast)
  ultimately show ?thesis using st' by blast
qed

subsection \<open>Cancelling what is immediate-or-cancel\<close>

lemma cancel_ioc_order_Inr:
  assumes "au_ok T dex au" and "map_of (orders_of (au_state au)) (order_key_of pair ord) = Some ord"
    and "o_tif ord = ImmediateOrCancel" and "cancel_ioc_order pair au ord = Inr au'"
  shows "au_ok T dex au' \<and> same_frame (au_state au) (au_state au') \<and>
    orders_of (au_state au') = om_remove (order_key_of pair ord) (orders_of (au_state au)) \<and>
    (\<exists>es. au_events au' = au_events au @ es) \<and> (\<forall>d. owed dex au' d \<le> owed dex au d)"
proof -
  let ?st = "au_state au" and ?key = "order_key_of pair ord"
  from assms(1) have ok: "dex_inv T dex ?st" "transfers_ok (au_refunds au)" by (simp_all add: au_ok_def)
  note bi = book_invD [OF dex_invD(1) [OF ok(1)]]
  have u: "o_user ord \<noteq> dex" using dex_invD(3) [OF ok(1) assms(2)] assms(3) by auto
  from assms(4) obtain st1 where rm: "book_remove ?st ?key = Inr st1"
    and rf: "refund_ioc_order pair ord (au\<lparr>au_state := st1\<rparr>) = Inr au'"
    by (auto simp: cancel_ioc_order_def and_then_Inr_iff)
  note g = removed_ioc_order [OF ok(1) assms(2) refl assms(3) rm]
  have "transfers_ok (au_refunds (au\<lparr>au_state := st1\<rparr>))" using ok(2) by simp
  note r = refund_ioc_order_Inr [OF this rf]
  then have au': "au_state au' = st1" "au_fees au' = au_fees au" "au_payments au' = au_payments au"
    by (simp_all add: same_ledgers_def)
  have inv: "dex_inv T dex st1" by (rule dex_inv_remove [OF ok(1)]) (use g in \<open>auto simp: same_frame_def\<close>)
  have "owed dex au' d \<le> owed dex au d" for d
  proof -
    have "user_debt dex st1 d + order_debt d ?key ord = user_debt dex ?st d"
      using user_debt_remove [OF bi(2), of st1 ?key dex d] g by (simp add: assms(2) user_weight_def u)
    moreover have "transfers_total (au_refunds au') d * 10 ^ 24 \<le> transfers_total (au_refunds au) d * 10 ^ 24 + order_debt d ?key ord"
      using r by simp
    ultimately show ?thesis by (simp add: owed_def au' add_mult_distrib)
  qed
  moreover have "au_ok T dex au'" using assms(1) inv r by (simp add: au_ok_def au')
  ultimately show ?thesis using g r by (simp add: au')
qed

lemma cancel_ioc_list:
  assumes "au_ok T dex au" and "distinct (map (order_key_of pair) os)"
    and "\<And>ord. ord \<in> set os \<Longrightarrow> map_of (orders_of (au_state au)) (order_key_of pair ord) = Some ord \<and>
      o_tif ord = ImmediateOrCancel"
    and "try_fold (cancel_ioc_order pair) au os = Inr au'"
  shows "au_ok T dex au' \<and> same_frame (au_state au) (au_state au') \<and>
    (\<forall>k. map_of (orders_of (au_state au')) k =
      (if k \<in> order_key_of pair ` set os then None else map_of (orders_of (au_state au)) k)) \<and>
    (\<exists>es. au_events au' = au_events au @ es) \<and> (\<forall>d. owed dex au' d \<le> owed dex au d)"
  using assms
proof (induction os arbitrary: au)
  case Nil
  then show ?case by (simp add: same_frame_refl)
next
  case (Cons ord os)
  from Cons.prems(4) obtain au1 where c: "cancel_ioc_order pair au ord = Inr au1"
    and rest: "try_fold (cancel_ioc_order pair) au1 os = Inr au'" by (auto simp: and_then_Inr_iff)
  have k: "map_of (orders_of (au_state au)) (order_key_of pair ord) = Some ord" "o_tif ord = ImmediateOrCancel"
    using Cons.prems(3) by simp_all
  note one = cancel_ioc_order_Inr [OF Cons.prems(1) k c]
  have "map_of (orders_of (au_state au1)) (order_key_of pair ord') = Some ord' \<and> o_tif ord' = ImmediateOrCancel"
    if "ord' \<in> set os" for ord'
  proof -
    have "order_key_of pair ord' \<noteq> order_key_of pair ord" using that Cons.prems(2) by (metis distinct.simps(2) imageI list.simps(9) set_map)
    with that Cons.prems(3) [of ord'] one show ?thesis by (simp add: map_of_om_remove)
  qed
  then have "au_ok T dex au' \<and> same_frame (au_state au1) (au_state au') \<and>
      (\<forall>k. map_of (orders_of (au_state au')) k =
        (if k \<in> order_key_of pair ` set os then None else map_of (orders_of (au_state au1)) k)) \<and>
      (\<exists>es. au_events au' = au_events au1 @ es) \<and> (\<forall>d. owed dex au' d \<le> owed dex au1 d)"
    using one Cons.prems(2) by (intro Cons.IH [OF _ _ _ rest]) simp_all
  with one show ?case
    by (auto simp: map_of_om_remove simp del: split_paired_All intro: same_frame_trans order_trans)
qed

lemma cancel_ioc_orders_Inr:
  assumes "au_ok T dex au" and "cancel_ioc_orders pair au = Inr au'"
  shows "au_ok T dex au' \<and> same_frame (au_state au) (au_state au') \<and> evolves dex (au_state au) (au_state au') \<and>
    (\<forall>k ord. map_of (orders_of (au_state au')) k = Some ord \<longrightarrow> fst k = pair \<longrightarrow> o_tif ord = GoodTilCanceled) \<and>
    (\<exists>es. au_events au' = au_events au @ es) \<and> (\<forall>d. owed dex au' d \<le> owed dex au d)"
proof -
  let ?st = "au_state au"
  have inv: "book_inv T ?st" using assms(1) by (simp add: au_ok_def dex_inv_def)
  note bi = book_invD [OF inv]
  let ?es = "filter (\<lambda>(k, v). o_tif v = ImmediateOrCancel) (orders_of ?st)"
  let ?fs = "filter (\<lambda>((p, _), _). p = pair) ?es"
  have "multi_agrees (ix_second order_index) (orders_of ?st) (im_second (dx_orders ?st))"
    using bi(1) by (simp add: indexed_ok_def orders_of_def)
  from multi_range_eq [OF bi(2) this, of ImmediateOrCancel]
  have f: "try_fold (cancel_ioc_order pair) au (map snd ?fs) = Inr au'"
    using assms(2) by (simp add: cancel_ioc_orders_def order_index_def)
  have e: "order_key_of pair (snd e) = fst e \<and> map_of (orders_of ?st) (fst e) = Some (snd e) \<and>
      o_tif (snd e) = ImmediateOrCancel" if "e \<in> set ?fs" for e
    using that bi(4) [of e] om_mem_iff [OF bi(2)] by (auto simp: entry_ok_def order_key_of_def)
  then have keys: "map (order_key_of pair) (map snd ?fs) = map fst ?fs" by simp
  have d: "distinct (map (order_key_of pair) (map snd ?fs))"
    unfolding keys by (intro om_ok_distinct om_ok_filter bi(2))
  have m: "map_of (orders_of ?st) (order_key_of pair ord) = Some ord \<and> o_tif ord = ImmediateOrCancel"
    if "ord \<in> set (map snd ?fs)" for ord
    using that e by auto
  note all = cancel_ioc_list [OF assms(1) d m f]
  have ks: "order_key_of pair ` set (map snd ?fs) = fst ` set ?fs"
    using arg_cong [OF keys, of set] by (simp only: set_map)
  have map: "map_of (orders_of (au_state au')) k = (if k \<in> fst ` set ?fs then None else map_of (orders_of ?st) k)" for k
    using all unfolding ks by blast
  have "evolves dex ?st (au_state au')"
    using shrunk_refl by (auto simp: evolves_def map simp del: split_paired_All split: if_splits)
  moreover have "o_tif ord = GoodTilCanceled"
    if a: "map_of (orders_of (au_state au')) k = Some ord" and p: "fst k = pair" for k ord
  proof (rule ccontr)
    assume "o_tif ord \<noteq> GoodTilCanceled"
    then have "o_tif ord = ImmediateOrCancel" by (cases "o_tif ord") simp_all
    moreover from a have "k \<notin> fst ` set ?fs" "map_of (orders_of ?st) k = Some ord" by (simp_all add: map split: if_splits)
    moreover from this(2) have "(k, ord) \<in> set (orders_of ?st)" by (rule map_of_SomeD)
    ultimately have "(k, ord) \<in> set ?fs" using p by (cases k) simp
    then have "k \<in> fst ` set ?fs" by (rule rev_image_eqI) (simp only: fst_conv)
    with \<open>k \<notin> fst ` set ?fs\<close> show False by (rule notE)
  qed
  ultimately show ?thesis using all by blast
qed

subsection \<open>One pair, all pairs, the auction\<close>

lemma dex_inv_cong:
  assumes "dex_inv T dex st" and "dx_orders st' = dx_orders st" and "dx_pairs st' = dx_pairs st"
    and "dx_depths st' = dx_depths st" and "dx_next_order_id st' = dx_next_order_id st" and "reserves_ok (dx_reserves st')"
  shows "dex_inv T dex st'"
  using assms book_inv_cong [OF assms(2-5)] by (simp add: dex_inv_def orders_of_def)

lemma evolves_same: "orders_of st' = orders_of st \<Longrightarrow> evolves dex st st'"
  using evolves_refl [of dex st] by (simp add: evolves_def)

text \<open>All that the exchange owes or holds in pools, in units of \<open>10 ^ -30\<close>.\<close>

definition liabilities :: "addr \<Rightarrow> auction_state \<Rightarrow> denom \<Rightarrow> nat" where
  "liabilities dex au d = owed dex au d + reserves_total (dx_reserves (au_state au)) d * 10 ^ 30"

lemma clear_orders_of_pair_Inr:
  assumes "au_ok T (de_dex env) au" and "map_of (dx_pairs (au_state au)) pair = Some params"
    and "clear_orders_of_pair env oracle height au (pair, params) = Inr au'"
  shows "au_ok T (de_dex env) au' \<and> dx_pairs (au_state au') = dx_pairs (au_state au) \<and>
    evolves (de_dex env) (au_state au) (au_state au') \<and>
    (\<forall>k ord. map_of (orders_of (au_state au')) k = Some ord \<longrightarrow> fst k = pair \<longrightarrow> o_tif ord = GoodTilCanceled) \<and>
    (\<forall>d. liabilities (de_dex env) au' d + dust (de_dex env) (au_events au) d * 10 ^ 24
      \<le> liabilities (de_dex env) au d + dust (de_dex env) (au_events au') d * 10 ^ 24)"
proof -
  let ?dex = "de_dex env"
  from assms(3) obtain st1 matched outcomes au2 inflows outflows st3 au4 st5 where
    pl: "place_passive_orders ?dex oracle pair (pp_bucket_sizes params) (au_state au) = Inr st1"
    and mf: "match_and_fill env height pair st1 = Inr (matched, outcomes)"
    and ho: "try_fold (handle_outcome env oracle pair (pp_bucket_sizes params))
         (au\<lparr>au_state := st1, au_events := au_events au @ matched\<rparr>, dec_coins_new, dec_coins_new) outcomes =
       Inr (au2, inflows, outflows)"
    and ur: "update_reserve pair inflows outflows (au_state au2) = Inr st3"
    and ci: "cancel_ioc_orders pair (au2\<lparr>au_state := st3\<rparr>) = Inr au4"
    and sr: "save_resting_book pair (au_state au4) = Inr st5"
    and au': "au' = au4\<lparr>au_state := st5\<rparr>"
    by (auto simp: clear_orders_of_pair_def Let_def and_then_Inr_iff)
  have inv: "dex_inv T ?dex (au_state au)" using assms(1) by (simp add: au_ok_def)
  note 1 = place_passive_orders_Inr [OF inv assms(2) pl]
  then have st1: "dex_inv T ?dex st1" "same_frame (au_state au) st1" "evolves ?dex (au_state au) st1"
    "\<And>d. user_debt ?dex st1 d = user_debt ?dex (au_state au) d" by blast+
  from match_and_fill_Inr [OF dex_invD(1) [OF st1(1)] mf] obtain cp where
    m: "\<And>f. f \<in> set outcomes \<Longrightarrow> outcome_of st1 pair f \<and> priced_at cp f"
      "distinct (map (\<lambda>f. order_key_of pair (fo_order f)) outcomes)"
      "\<And>d. sum_list (map (gives cp pair d) outcomes) = sum_list (map (takes cp pair d) outcomes)"
      "\<And>dex d. dust dex matched d = 0" by blast
  let ?au1 = "au\<lparr>au_state := st1, au_events := au_events au @ matched\<rparr>"
  have au1: "au_ok T ?dex ?au1" "owed ?dex ?au1 = owed ?dex au"
    using assms(1) st1(1,4) by (simp_all add: au_ok_def owed_def fun_eq_iff)
  have new: "om_ok dec_coins_new" "om_amount dec_coins_new d = 0" for d
    by (simp_all add: dec_coins_new_def)
  have "map_of (dx_pairs (au_state ?au1)) pair = Some params" using assms(2) st1(2) by (simp add: same_frame_def)
  from handle_outcomes_Inr [OF au1(1) new(1) new(1) m(2) _ this ho, of cp] m(1)
  have 2: "au_ok T ?dex au2 \<and> om_ok inflows \<and> om_ok outflows \<and> same_frame st1 (au_state au2) \<and> evolves ?dex st1 (au_state au2)"
    and eq2: "\<And>d. owed ?dex au2 d + om_amount inflows d * 10 ^ 24 + dust ?dex (au_events au) d * 10 ^ 24
      \<le> owed ?dex au d + om_amount outflows d * 10 ^ 24 + dust ?dex (au_events au2) d * 10 ^ 24"
    using m(3,4) by (simp_all add: new(2) au1(2) add.assoc)
  have inv2: "dex_inv T ?dex (au_state au2)" using 2 by (simp add: au_ok_def)
  from update_reserve_Inr [OF dex_invD(2) [OF inv2] _ _ ur] 2 obtain rs where
    st3: "st3 = (au_state au2)\<lparr>dx_reserves := rs\<rparr>" and rs: "reserves_ok rs"
    and eq3: "\<And>d. reserves_total rs d * 10 ^ 30 + om_amount outflows d * 10 ^ 24
      \<le> reserves_total (dx_reserves (au_state au2)) d * 10 ^ 30 + om_amount inflows d * 10 ^ 24" by blast
  have inv3: "dex_inv T ?dex st3" by (rule dex_inv_cong [OF inv2]) (simp_all add: st3 rs)
  let ?au3 = "au2\<lparr>au_state := st3\<rparr>"
  have au3: "au_ok T ?dex ?au3" using 2 inv3 by (simp add: au_ok_def)
  have owed3: "owed ?dex ?au3 = owed ?dex au2"
    by (simp add: owed_def fun_eq_iff user_debt_def st3 orders_of_def)
  note 4 = cancel_ioc_orders_Inr [OF au3 ci]
  have inv4: "dex_inv T ?dex (au_state au4)" using 4 by (simp add: au_ok_def)
  from sr obtain rb where st5: "st5 = (au_state au4)\<lparr>dx_resting := rb\<rparr>"
    by (auto simp: save_resting_book_def Let_def and_then_Inr_iff)
  have o5: "orders_of st5 = orders_of (au_state au4)" by (simp add: st5 orders_of_def)
  have inv5: "dex_inv T ?dex st5" by (rule dex_inv_cong [OF inv4]) (simp_all add: st5 dex_invD(2) [OF inv4])
  have au5: "au_ok T ?dex au'" "owed ?dex au' = owed ?dex au4"
    using 4 inv5 by (simp_all add: au_ok_def au' owed_def fun_eq_iff user_debt_def o5)
  have frame: "dx_reserves (au_state au2) = dx_reserves (au_state au)" "dx_pairs (au_state au2) = dx_pairs (au_state au)"
    using 2 st1(2) by (simp_all add: same_frame_def)
  have frame4: "dx_reserves (au_state au4) = rs" "dx_pairs (au_state au4) = dx_pairs (au_state au)"
    using 4 frame by (simp_all add: same_frame_def st3)
  have "liabilities ?dex au' d + dust ?dex (au_events au) d * 10 ^ 24
      \<le> liabilities ?dex au d + dust ?dex (au_events au') d * 10 ^ 24" for d
  proof -
    have "owed ?dex au4 d \<le> owed ?dex au2 d" using 4 unfolding owed3 by blast
    moreover have "dust ?dex (au_events au2) d * 10 ^ 24 \<le> dust ?dex (au_events au4) d * 10 ^ 24"
      using 4 by (auto simp: add_mult_distrib)
    moreover have "dx_reserves (au_state au') = rs" "au_events au' = au_events au4" by (simp_all add: au' st5 frame4)
    ultimately show ?thesis
      using eq2 [of d] eq3 [of d] by (simp add: liabilities_def au5(2) frame)
  qed
  moreover have "evolves ?dex (au_state au) st5"
  proof -
    have "evolves ?dex (au_state au) (au_state au2)" using st1(3) 2 evolves_trans by blast
    moreover have "evolves ?dex (au_state au2) st3" by (rule evolves_same) (simp add: st3 orders_of_def)
    moreover have "evolves ?dex st3 (au_state au4)" using 4 by simp
    moreover have "evolves ?dex (au_state au4) st5" by (rule evolves_same [OF o5])
    ultimately show ?thesis by (meson evolves_trans)
  qed
  moreover have "\<forall>k ord. map_of (orders_of st5) k = Some ord \<longrightarrow> fst k = pair \<longrightarrow> o_tif ord = GoodTilCanceled"
    unfolding o5 using 4 by blast
  ultimately show ?thesis using au5(1) frame4(2) by (simp add: au' st5)
qed

lemma clear_all_pairs_Inr:
  assumes "au_ok T (de_dex env) au" and "\<And>p. p \<in> set ps \<Longrightarrow> map_of (dx_pairs (au_state au)) (fst p) = Some (snd p)"
    and "try_fold (clear_orders_of_pair env oracle height) au ps = Inr au'"
  shows "au_ok T (de_dex env) au' \<and> dx_pairs (au_state au') = dx_pairs (au_state au) \<and>
    evolves (de_dex env) (au_state au) (au_state au') \<and>
    (\<forall>k ord. map_of (orders_of (au_state au')) k = Some ord \<longrightarrow> fst k \<in> fst ` set ps \<longrightarrow> o_tif ord = GoodTilCanceled) \<and>
    (\<forall>d. liabilities (de_dex env) au' d + dust (de_dex env) (au_events au) d * 10 ^ 24
      \<le> liabilities (de_dex env) au d + dust (de_dex env) (au_events au') d * 10 ^ 24)"
  using assms
proof (induction ps arbitrary: au)
  case Nil
  then show ?case by (simp add: evolves_refl)
next
  case (Cons p ps)
  let ?dex = "de_dex env"
  obtain pair params where p: "p = (pair, params)" by (cases p)
  from Cons.prems(3) obtain au1 where c: "clear_orders_of_pair env oracle height au (pair, params) = Inr au1"
    and rest: "try_fold (clear_orders_of_pair env oracle height) au1 ps = Inr au'" by (auto simp: and_then_Inr_iff p)
  have "map_of (dx_pairs (au_state au)) pair = Some params" using Cons.prems(2) [of p] by (simp add: p)
  note one = clear_orders_of_pair_Inr [OF Cons.prems(1) this c]
  then have ih: "au_ok T ?dex au' \<and> dx_pairs (au_state au') = dx_pairs (au_state au1) \<and>
    evolves ?dex (au_state au1) (au_state au') \<and>
    (\<forall>k ord. map_of (orders_of (au_state au')) k = Some ord \<longrightarrow> fst k \<in> fst ` set ps \<longrightarrow> o_tif ord = GoodTilCanceled) \<and>
    (\<forall>d. liabilities ?dex au' d + dust ?dex (au_events au1) d * 10 ^ 24
      \<le> liabilities ?dex au1 d + dust ?dex (au_events au') d * 10 ^ 24)"
    using Cons.prems(2) by (intro Cons.IH [OF _ _ rest]) simp_all
  have inv': "dex_inv T ?dex (au_state au')" using ih by (simp add: au_ok_def)
  have "o_tif ord = GoodTilCanceled"
    if a: "map_of (orders_of (au_state au')) k = Some ord" and k: "fst k = pair" for k ord
  proof (cases "o_user ord = ?dex")
    case True
    then show ?thesis using dex_invD(3) [OF inv' a] by simp
  next
    case False
    have "evolves ?dex (au_state au1) (au_state au')" using ih by blast
    from evolvesD [OF this a False] obtain ord0 where o0: "map_of (orders_of (au_state au1)) k = Some ord0"
      and s: "shrunk ord0 ord" .
    have "o_tif ord0 = GoodTilCanceled" using one o0 k by blast
    then show ?thesis using shrunk_user [OF s] by simp
  qed
  then have "\<forall>k ord. map_of (orders_of (au_state au')) k = Some ord \<longrightarrow> fst k \<in> fst ` set (p # ps) \<longrightarrow> o_tif ord = GoodTilCanceled"
    using ih unfolding p by (metis fst_conv image_insert insert_iff list.simps(15))
  moreover have "liabilities ?dex au' d + dust ?dex (au_events au) d * 10 ^ 24
      \<le> liabilities ?dex au d + dust ?dex (au_events au') d * 10 ^ 24" for d
  proof -
    have "liabilities ?dex au' d + dust ?dex (au_events au1) d * 10 ^ 24
        \<le> liabilities ?dex au1 d + dust ?dex (au_events au') d * 10 ^ 24" using ih by blast
    moreover have "liabilities ?dex au1 d + dust ?dex (au_events au) d * 10 ^ 24
        \<le> liabilities ?dex au d + dust ?dex (au_events au1) d * 10 ^ 24" using one by blast
    ultimately show ?thesis by linarith
  qed
  moreover have "evolves ?dex (au_state au) (au_state au')" using one ih evolves_trans by blast
  ultimately show ?case using one ih by auto
qed

end
