(* ===== verification/Exchange.thy ===== *)
theory Exchange
  imports Auction_Safety
begin

text \<open>
  The exchange as a whole: what a successful auction leaves behind and sends out, that the taxman accepts
  the fees it is sent, and the invariant of every run of the exchange, in which messages of any users,
  auctions and replies are interleaved: the exchange always holds the reserves of its pools and what it
  owes to the owners of resting orders, up to the counted dust of the auctions.
\<close>

subsection \<open>The auction\<close>

lemma save_volumes_frame:
  "dx_orders (save_volumes now au) = dx_orders (au_state au)"
  "dx_pairs (save_volumes now au) = dx_pairs (au_state au)"
  "dx_depths (save_volumes now au) = dx_depths (au_state au)"
  "dx_next_order_id (save_volumes now au) = dx_next_order_id (au_state au)"
  "dx_reserves (save_volumes now au) = dx_reserves (au_state au)"
  "orders_of (save_volumes now au) = orders_of (au_state au)"
  by (simp_all add: save_volumes_def orders_of_def)

lemma batch_le_total:
  assumes "transfers_ok b" and "transfers_into_batch 6 b = Inr batch"
  shows "batch_total batch d * 10 ^ 30 \<le> transfers_total b d * 10 ^ 24"
proof -
  have "batch_total batch d \<le> transfers_total b d div 10 ^ 6"
    using transfers_into_batch_total [OF assms(1), of 6] assms(2) by auto
  then have "batch_total batch d * 10 ^ 6 \<le> transfers_total b d"
    by (meson div_times_less_eq_dividend mult_le_mono1 order_trans)
  moreover have "batch_total batch d * 10 ^ 30 = batch_total batch d * 10 ^ 6 * 10 ^ 24" by simp
  ultimately show ?thesis by (metis mult_le_mono1)
qed

lemma coins_floor_le:
  assumes "om_ok cs" and "into_coins_floor 6 cs = Inr c"
  shows "unat (amount_of c d) * 10 ^ 30 \<le> om_amount cs d * 10 ^ 24"
proof -
  have "unat (amount_of c d) = om_amount cs d div 10 ^ 6" using into_coins_floor_total [OF assms(1), of 6] assms(2) by auto
  then have "unat (amount_of c d) * 10 ^ 6 \<le> om_amount cs d" by simp
  moreover have "unat (amount_of c d) * 10 ^ 30 = unat (amount_of c d) * 10 ^ 6 * 10 ^ 24" by simp
  ultimately show ?thesis by (metis mult_le_mono1)
qed

lemma auction_Inr:
  assumes "dex_inv T (de_dex env) st" and "auction env cx st = Inr (st', msgs, events)"
  obtains au refunds fees payments where "au_ok T (de_dex env) au" and "st' = save_volumes (ctx_time cx) au"
    and "dx_pairs (au_state au) = dx_pairs st" and "evolves (de_dex env) st (au_state au)"
    and "\<And>k ord. map_of (orders_of (au_state au)) k = Some ord \<Longrightarrow> map_of (dx_pairs st) (fst k) \<noteq> None \<Longrightarrow>
      o_tif ord = GoodTilCanceled"
    and "\<And>d. liabilities (de_dex env) au d \<le> user_debt (de_dex env) st d + reserves_total (dx_reserves st) d * 10 ^ 30 +
      dust (de_dex env) events d * 10 ^ 24"
    and "transfers_into_batch 6 (au_refunds au) = Inr refunds" and "into_coins_floor 6 (au_fees au) = Inr fees"
    and "transfers_into_batch 6 (au_payments au) = Inr payments"
    and "msgs = (if refunds \<noteq> [] then [DexTransfer refunds] else []) @
         (if coins_is_non_empty fees then [DexPay FeeTrade payments fees] else [])"
proof -
  let ?dex = "de_dex env"
  from assms(2) obtain orc st1 au refunds fees payments where
    d: "delete_passive_orders ?dex st = Inr st1"
    and c: "try_fold (clear_orders_of_pair env orc (ctx_height cx))
         \<lparr>au_state = st1, au_events = [], au_refunds = transfers_new, au_volumes = [],
          au_volumes_by_username = [], au_fees = dec_coins_new, au_payments = transfers_new\<rparr> (dx_pairs st) = Inr au"
    and r: "transfers_into_batch 6 (au_refunds au) = Inr refunds" "into_coins_floor 6 (au_fees au) = Inr fees"
      "transfers_into_batch 6 (au_payments au) = Inr payments"
    and st': "st' = save_volumes (ctx_time cx) au" and ev: "events = au_events au"
    and msgs: "msgs = (if refunds \<noteq> [] then [DexTransfer refunds] else []) @
         (if coins_is_non_empty fees then [DexPay FeeTrade payments fees] else [])"
    unfolding auction_def and_then_Inr_iff by fastforce
  note 1 = delete_passive_orders_Inr [OF assms(1) d]
  let ?au = "\<lparr>au_state = st1, au_events = [], au_refunds = transfers_new, au_volumes = [],
          au_volumes_by_username = [], au_fees = dec_coins_new, au_payments = transfers_new\<rparr>"
  have om: "om_ok dec_coins_new" "\<And>d. om_amount dec_coins_new d = 0" by (simp_all add: dec_coins_new_def)
  have ok: "au_ok T ?dex ?au" using 1 om by (simp add: au_ok_def)
  have same: "dx_pairs st1 = dx_pairs st" "dx_reserves st1 = dx_reserves st" using 1 by (simp_all add: same_frame_def)
  have om_pairs: "om_ok (dx_pairs st)" using book_invD(3) [OF dex_invD(1) [OF assms(1)]] by (simp add: pairs_ok_def)
  have look: "map_of (dx_pairs (au_state ?au)) (fst p) = Some (snd p)" if "p \<in> set (dx_pairs st)" for p
    using that om_mem_iff [OF om_pairs, of "fst p" "snd p"] by (simp add: same)
  note all = clear_all_pairs_Inr [OF ok look c]
  have ev1: "evolves ?dex st st1"
    using 1 shrunk_refl by (auto simp: evolves_def simp del: split_paired_All split: option.splits if_splits)
  have "evolves ?dex st (au_state au)" using ev1 all by (simp only: auction_state.select_convs) (meson evolves_trans)
  moreover have "o_tif ord = GoodTilCanceled"
    if "map_of (orders_of (au_state au)) k = Some ord" "map_of (dx_pairs st) (fst k) \<noteq> None" for k ord
  proof -
    have "fst k \<in> fst ` set (dx_pairs st)" using that(2) by (simp add: map_of_eq_None_iff)
    with that(1) all show ?thesis by blast
  qed
  moreover have "liabilities ?dex au d \<le> user_debt ?dex st d + reserves_total (dx_reserves st) d * 10 ^ 30 +
      dust ?dex events d * 10 ^ 24" for d
  proof -
    have "liabilities ?dex ?au d = user_debt ?dex st d + reserves_total (dx_reserves st) d * 10 ^ 30"
      using 1 by (simp add: liabilities_def owed_def same om)
    moreover have "liabilities ?dex au d + dust ?dex (au_events ?au) d * 10 ^ 24
        \<le> liabilities ?dex ?au d + dust ?dex (au_events au) d * 10 ^ 24" using all by blast
    ultimately show ?thesis by (simp add: ev)
  qed
  moreover have "dx_pairs (au_state au) = dx_pairs st" "au_ok T ?dex au" using all by (simp_all add: same)
  ultimately show thesis using that r st' msgs by blast
qed

lemma auction_conserves:
  assumes "dex_inv T (de_dex env) st" and "auction env cx st = Inr (st', msgs, events)"
  shows "user_debt (de_dex env) st' d + (reserves_total (dx_reserves st') d + msgs_out msgs d) * 10 ^ 30
    \<le> user_debt (de_dex env) st d + reserves_total (dx_reserves st) d * 10 ^ 30 + dust (de_dex env) events d * 10 ^ 24"
  using assms
proof (rule auction_Inr)
  fix au refunds fees payments
  assume ok: "au_ok T (de_dex env) au" and st': "st' = save_volumes (ctx_time cx) au"
    and l: "\<And>d. liabilities (de_dex env) au d \<le> user_debt (de_dex env) st d +
      reserves_total (dx_reserves st) d * 10 ^ 30 + dust (de_dex env) events d * 10 ^ 24"
    and r: "transfers_into_batch 6 (au_refunds au) = Inr refunds" and f: "into_coins_floor 6 (au_fees au) = Inr fees"
    and m: "msgs = (if refunds \<noteq> [] then [DexTransfer refunds] else []) @
         (if coins_is_non_empty fees then [DexPay FeeTrade payments fees] else [])"
  have "msgs_out msgs d \<le> batch_total refunds d + unat (amount_of fees d)"
    by (auto simp: m batch_total_def)
  moreover have "batch_total refunds d * 10 ^ 30 \<le> transfers_total (au_refunds au) d * 10 ^ 24"
    using ok by (intro batch_le_total [OF _ r]) (simp add: au_ok_def)
  moreover have "unat (amount_of fees d) * 10 ^ 30 \<le> om_amount (au_fees au) d * 10 ^ 24"
    using ok by (intro coins_floor_le [OF _ f]) (simp add: au_ok_def)
  ultimately show ?thesis
    using l [of d] by (simp add: liabilities_def owed_def st' save_volumes_frame user_debt_def add_mult_distrib)
qed

lemma auction_inv:
  assumes "dex_inv T (de_dex env) st" and "auction env cx st = Inr (st', msgs, events)"
  shows "dex_inv T (de_dex env) st'"
  using assms
proof (rule auction_Inr)
  fix au assume "au_ok T (de_dex env) au" and st': "st' = save_volumes (ctx_time cx) au"
  then have inv: "dex_inv T (de_dex env) (au_state au)" by (simp add: au_ok_def)
  show ?thesis
    unfolding st' by (rule dex_inv_cong [OF inv]) (simp_all add: save_volumes_frame dex_invD(2) [OF inv])
qed

text \<open>C2: A successful auction pays out no more than it took in, but for dust: in every denom, what the exchange
  still owes to the owners of resting orders, the reserves of its pools, and everything it sends out
  (refunds, proceeds and fees) exceed what it owed and what was in the pools before by at most one
  millionth of a unit for every passive bid filled, as counted in the events (their payment into the
  auction is rounded down). The auction starts from a state with the invariant of the runs of C1.\<close>

theorem auction_conserves_funds:
  assumes "dex_inv T (de_dex env) st" and "auction env cx st = Inr (st', msgs, events)"
  shows "user_debt (de_dex env) st' d + (reserves_total (dx_reserves st') d + msgs_out msgs d) * 10 ^ 30
    \<le> user_debt (de_dex env) st d + reserves_total (dx_reserves st) d * 10 ^ 30 + dust (de_dex env) events d * 10 ^ 24"
  by (rule auction_conserves [OF assms])

text \<open>C3: A successful auction keeps the book consistent (indexes, ids, and the depth charts of all pairs where
  they were consistent before), and touches users' orders only by filling and deleting them: an order
  of a user that is in the book afterwards was there before with at least as much remaining and is
  otherwise unchanged, and no immediate-or-cancel order of a listed pair is left.\<close>

theorem auction_keeps_book:
  assumes "dex_inv T (de_dex env) st" and "auction env cx st = Inr (st', msgs, events)"
  shows "dex_inv T (de_dex env) st' \<and> dx_pairs st' = dx_pairs st \<and>
    (\<forall>k ord'. map_of (orders_of st') k = Some ord' \<longrightarrow>
      (o_user ord' \<noteq> de_dex env \<longrightarrow> (\<exists>ord. map_of (orders_of st) k = Some ord \<and>
        ord' = ord\<lparr>o_remaining := o_remaining ord'\<rparr> \<and> o_remaining ord' \<le> o_remaining ord)) \<and>
      (map_of (dx_pairs st) (fst k) \<noteq> None \<longrightarrow> o_tif ord' = GoodTilCanceled))"
  using assms
proof (rule auction_Inr)
  fix au
  assume ok: "au_ok T (de_dex env) au" and st': "st' = save_volumes (ctx_time cx) au"
    and p: "dx_pairs (au_state au) = dx_pairs st" and e: "evolves (de_dex env) st (au_state au)"
    and i: "\<And>k ord. map_of (orders_of (au_state au)) k = Some ord \<Longrightarrow> map_of (dx_pairs st) (fst k) \<noteq> None \<Longrightarrow>
      o_tif ord = GoodTilCanceled"
  have "dex_inv T (de_dex env) st'" by (rule auction_inv [OF assms])
  moreover have "\<exists>ord. map_of (orders_of st) k = Some ord \<and> ord' = ord\<lparr>o_remaining := o_remaining ord'\<rparr> \<and>
      o_remaining ord' \<le> o_remaining ord"
    if "map_of (orders_of st') k = Some ord'" "o_user ord' \<noteq> de_dex env" for k ord'
  proof -
    from that(1) have "map_of (orders_of (au_state au)) k = Some ord'" by (simp add: st' save_volumes_frame)
    from evolvesD [OF e this that(2)] obtain ord where "map_of (orders_of st) k = Some ord" "shrunk ord ord'" .
    then show ?thesis by (auto simp: shrunk_def)
  qed
  ultimately show ?thesis using i p by (simp add: st' save_volumes_frame del: split_paired_All)
qed

subsection \<open>The taxman accepts the fees\<close>

lemma coins_insert_ok:
  assumes "coins_ok cs" and "unat (amount_of cs (c_denom c)) + unat (c_amount c) < 2 ^ 128"
  shows "\<exists>cs'. coins_insert cs c = Inr cs'"
  using assms(2) by (auto simp: coins_insert_def amount_of_def checked_add_def split: option.splits)

lemma coins_insert_list_ok:
  assumes "coins_ok cs" and "\<And>d. unat (amount_of cs d) + (\<Sum>c\<leftarrow>xs. coin_amount c d) < 2 ^ 128"
  shows "\<exists>cs'. try_fold coins_insert cs xs = Inr cs' \<and> coins_ok cs' \<and>
    (\<forall>d. unat (amount_of cs' d) = unat (amount_of cs d) + (\<Sum>c\<leftarrow>xs. coin_amount c d))"
  using assms
proof (induction xs arbitrary: cs)
  case (Cons c xs)
  have "unat (amount_of cs (c_denom c)) + unat (c_amount c) < 2 ^ 128"
    using Cons.prems(2) [of "c_denom c"] by (simp add: coin_amount_def)
  from coins_insert_ok [OF Cons.prems(1) this] obtain cs1 where c: "coins_insert cs c = Inr cs1" ..
  note ok = coins_insert_Inr [OF Cons.prems(1) c]
  have am: "unat (amount_of cs1 d) = unat (amount_of cs d) + coin_amount c d" for d
    using ok(2) [of d] by (simp add: coin_amount_def eq_commute)
  have "\<And>d. unat (amount_of cs1 d) + (\<Sum>c\<leftarrow>xs. coin_amount c d) < 2 ^ 128"
    using Cons.prems(2) by (simp add: am add.assoc)
  from Cons.IH [OF ok(1) this] c show ?case by (auto simp: am)
qed simp

text \<open>Adding up the payments of a batch succeeds when their sum fits, and gives the sum.\<close>

lemma sum_payments:
  assumes "coins_ok acc" and "\<And>e. e \<in> set batch \<Longrightarrow> coins_ok (snd e)"
    and "\<And>d. unat (amount_of acc d) + batch_total batch d < 2 ^ 128"
  shows "\<exists>all. try_fold (\<lambda>acc e. coins_insert_many acc (coins_iter (snd e))) acc batch = Inr all \<and> coins_ok all \<and>
    (\<forall>d. unat (amount_of all d) = unat (amount_of acc d) + batch_total batch d)"
  using assms
proof (induction batch arbitrary: acc)
  case (Cons e batch)
  obtain user cs where e: "e = (user, cs)" by (cases e)
  have ok: "coins_ok cs" using Cons.prems(2) [of e] by (simp add: e)
  have tot: "batch_total (e # batch) d = unat (amount_of cs d) + batch_total batch d" for d
    by (simp add: batch_total_def e)
  have "unat (amount_of acc d) + (\<Sum>c\<leftarrow>coins_iter cs. coin_amount c d) < 2 ^ 128" for d
    using Cons.prems(3) [of d] by (simp add: coins_iter_amount [OF ok] tot)
  from coins_insert_list_ok [OF Cons.prems(1) this] obtain acc1 where
    a: "coins_insert_many acc (coins_iter cs) = Inr acc1" "coins_ok acc1"
      "\<And>d. unat (amount_of acc1 d) = unat (amount_of acc d) + unat (amount_of cs d)"
    by (auto simp: coins_insert_many_def coins_iter_amount [OF ok])
  have "unat (amount_of acc1 d) + batch_total batch d < 2 ^ 128" for d
    using Cons.prems(3) [of d] by (simp add: a(3) tot add.assoc)
  with Cons.IH [OF a(2)] Cons.prems(2) obtain all where
    "try_fold (\<lambda>acc e. coins_insert_many acc (coins_iter (snd e))) acc1 batch = Inr all" "coins_ok all"
    "\<And>d. unat (amount_of all d) = unat (amount_of acc1 d) + batch_total batch d" by auto
  then show ?case using a by (intro exI [of _ all]) (simp add: e tot [unfolded e])
qed (simp add: batch_total_def)

lemma check_paid:
  assumes "\<And>c. c \<in> set xs \<Longrightarrow> c_amount c \<le> amount_of funds (c_denom c)"
  shows "try_fold (\<lambda>_ coin. ensure (c_amount coin \<le> amount_of funds (c_denom coin)) e) () xs = Inr ()"
  using assms by (induction xs) (simp_all add: ensure_def)

text \<open>C15: The taxman accepts what an auction sends it: from a state with the invariant of every run
  (\<open>exchange_run_covered\<close>), the fee message of a successful auction never fails in the taxman's handler,
  since the per-user payments it declares, each rounded down, add up to no more than the fees attached,
  rounded down once.\<close>

theorem auction_fees_accepted:
  assumes "dex_inv T (de_dex env) st" and "auction env cx st = Inr (st', msgs, events)"
    and "DexPay ty payments fees \<in> set msgs" and "ctx_funds cx' = fees"
  shows "\<exists>receipts. taxman_pay cx' tax ty payments = Inr (tax, receipts) \<and> length receipts = length payments"
  using assms(1,2)
proof (rule auction_Inr)
  fix au refunds fees' payments'
  assume ok: "au_ok T (de_dex env) au"
    and f: "into_coins_floor 6 (au_fees au) = Inr fees'" and p: "transfers_into_batch 6 (au_payments au) = Inr payments'"
    and m: "msgs = (if refunds \<noteq> [] then [DexTransfer refunds] else []) @
         (if coins_is_non_empty fees' then [DexPay FeeTrade payments' fees'] else [])"
  have eq: "payments = payments'" "fees = fees'" "coins_is_non_empty fees"
    using assms(3) by (auto simp: m split: if_splits)
  from ok have om: "om_ok (au_fees au)" "transfers_ok (au_payments au)"
    and same: "\<And>d. transfers_total (au_payments au) d = om_amount (au_fees au) d" by (simp_all add: au_ok_def)
  from into_coins_floor_total [OF om(1), of 6] f have fees: "\<And>d. unat (amount_of fees d) = om_amount (au_fees au) d div 10 ^ 6"
    by (auto simp: eq)
  from transfers_into_batch_total [OF om(2), of 6] p have pays: "\<And>e. e \<in> set payments \<Longrightarrow> coins_ok (snd e)"
    "\<And>d. batch_total payments d \<le> transfers_total (au_payments au) d div 10 ^ 6" by (auto simp: eq)
  have le: "batch_total payments d \<le> unat (amount_of fees d)" for d
    using pays(2) [of d] by (simp add: fees same)
  have new: "coins_ok coins_new" "unat (amount_of coins_new d) = 0" for d
    by (simp_all add: coins_ok_def coins_new_def amount_of_def)
  have "unat (amount_of coins_new d) + batch_total payments d < 2 ^ 128" for d
    using le [of d] unat_less_pow [of "amount_of fees d"] by (simp add: new(2))
  from sum_payments [OF new(1) pays(1) this] obtain total_coins where
    t: "try_fold (\<lambda>acc e. coins_insert_many acc (coins_iter (snd e))) coins_new payments = Inr total_coins"
      "coins_ok total_coins" "\<And>d. unat (amount_of total_coins d) = batch_total payments d"
    by (auto simp: new(2))
  have "c_amount c \<le> amount_of fees (c_denom c)" if "c \<in> set (coins_iter total_coins)" for c
  proof -
    from that obtain d a where "(d, a) \<in> set total_coins" "c = mk_coin d a" by (auto simp: coins_iter_def)
    moreover from this(1) have "amount_of total_coins d = a"
      using om_mem_iff [OF coins_okD [OF t(2)]] by (simp add: amount_of_def)
    ultimately show ?thesis using le [of d] t(3) [of d] by (simp add: word_le_nat_alt mk_coin_def)
  qed
  from check_paid [OF this] show ?thesis
    using eq(3) t(1) by (simp add: taxman_pay_def assms(4))
qed

subsection \<open>Sums over parts of a map\<close>

lemma om_sum_as_sum:
  assumes "om_ok m"
  shows "om_sum w m = (\<Sum>e \<in> set m. w (fst e) (snd e))"
proof -
  have "distinct m" using om_ok_distinct [OF assms] by (simp add: distinct_map)
  then show ?thesis by (simp add: om_sum_def case_prod_beta sum_list_distinct_conv_sum_set)
qed

lemma om_sum_agree:
  assumes "om_ok m" and "om_ok m'"
    and "\<And>k v. w k v \<noteq> 0 \<Longrightarrow> map_of m k = Some v \<longleftrightarrow> map_of m' k = Some v"
  shows "om_sum w m = om_sum w m'"
proof -
  have "(\<Sum>e \<in> set m. w (fst e) (snd e)) = (\<Sum>e \<in> set m'. w (fst e) (snd e))"
  proof (rule sum.mono_neutral_cong)
    fix e assume "e \<in> set m' - set m"
    then show "w (fst e) (snd e) = 0"
      using assms(3) [of "fst e" "snd e"] om_mem_iff [OF assms(1), of "fst e" "snd e"]
        om_mem_iff [OF assms(2), of "fst e" "snd e"] by auto
  next
    fix e assume "e \<in> set m - set m'"
    then show "w (fst e) (snd e) = 0"
      using assms(3) [of "fst e" "snd e"] om_mem_iff [OF assms(1), of "fst e" "snd e"]
        om_mem_iff [OF assms(2), of "fst e" "snd e"] by auto
  qed simp_all
  with assms(1,2) show ?thesis by (simp add: om_sum_as_sum)
qed

lemma om_sum_filter: "om_sum w (filter (\<lambda>e. P (fst e)) m) = om_sum (\<lambda>k v. if P k then w k v else 0) m"
  by (induction m) auto

lemma om_sum_add: "om_sum (\<lambda>k v. w k v + w' k v) m = om_sum w m + om_sum w' m"
  by (induction m) auto

subsection \<open>The debt to users under the order handlers\<close>

text \<open>A handler that leaves the orders of the exchange alone changes the debt to users as it changes the
  debt of the whole book.\<close>

definition own_debt :: "addr \<Rightarrow> dex_state \<Rightarrow> denom \<Rightarrow> nat" where
  "own_debt dex st d = om_sum (\<lambda>k ord. if o_user ord = dex then order_debt d k ord else 0) (orders_of st)"

lemma debt_split: "book_debt st d = user_debt dex st d + own_debt dex st d"
  unfolding book_debt_def user_debt_def own_debt_def om_sum_add [symmetric]
  by (rule om_sum_cong) (simp add: user_weight_def)

lemma own_debt_untouched:
  assumes "book_inv T st" and "book_inv T st'" and "others_untouched user st st'" and "user \<noteq> dex"
  shows "own_debt dex st' d = own_debt dex st d"
  unfolding own_debt_def
proof (rule om_sum_agree)
  fix k v assume "(if o_user v = dex then order_debt d k v else 0) \<noteq> 0"
  then have "o_user v \<noteq> user" using assms(4) by (auto split: if_splits)
  then show "map_of (orders_of st') k = Some v \<longleftrightarrow> map_of (orders_of st) k = Some v"
    using assms(3) unfolding others_untouched_def by blast
qed (use book_invD(2) assms(1,2) in blast)+

text \<open>What a handler promises: the invariant, and that debts and reserves are covered by the funds.\<close>

definition sound_step :: "pair_key set \<Rightarrow> addr \<Rightarrow> ctx \<Rightarrow> dex_state \<Rightarrow> dex_state \<Rightarrow> (denom \<Rightarrow> nat) \<Rightarrow> (denom \<Rightarrow> nat) \<Rightarrow> bool" where
  "sound_step T dex cx st st' out slack \<longleftrightarrow> dex_inv T dex st' \<and> (\<forall>d.
     user_debt dex st' d + (reserves_total (dx_reserves st') d + out d) * 10 ^ 30
       \<le> user_debt dex st d + (reserves_total (dx_reserves st) d + unat (amount_of (ctx_funds cx) d)) * 10 ^ 30
         + slack d * 10 ^ 24)"

lemma batch_update_orders_sound:
  assumes "dex_inv T dex st" and "coins_ok (ctx_funds cx)" and "ctx_sender cx \<noteq> dex"
    and "batch_update_orders cx st reqs request = Inr (st', msgs, events)"
  shows "sound_step T dex cx st st' (msgs_out msgs) (\<lambda>_. 0)"
proof -
  note inv = dex_invD [OF assms(1)]
  from batch_update_orders_Inr [OF inv(1) assms(2,4)] obtain out where
    b: "book_inv T st'" "same_frame st st'" "others_untouched (ctx_sender cx) st st'"
    and m: "msgs = [DexTransfer [(ctx_sender cx, out)]]"
    and le: "\<And>d. book_debt st' d + unat (amount_of out d) * 10 ^ 30
        \<le> book_debt st d + unat (amount_of (ctx_funds cx) d) * 10 ^ 30" by blast
  have "dex_inv T dex st'"
  proof (rule dex_invI [OF b(1)])
    show "reserves_ok (dx_reserves st')" using b(2) inv(2) by (simp add: same_frame_def)
    fix k ord assume a: "map_of (orders_of st') k = Some ord" "o_user ord = dex"
    then have "map_of (orders_of st) k = Some ord" using b(3) assms(3) unfolding others_untouched_def by metis
    from inv(3) [OF this a(2)] show "o_tif ord = GoodTilCanceled" .
  qed
  moreover have "user_debt dex st' d + unat (amount_of out d) * 10 ^ 30
      \<le> user_debt dex st d + unat (amount_of (ctx_funds cx) d) * 10 ^ 30" for d
    using le [of d] own_debt_untouched [OF inv(1) b(1,3) assms(3), of d]
    by (simp add: debt_split [of _ _ dex])
  ultimately show ?thesis
    using b(2) by (simp add: sound_step_def m same_frame_def add_mult_distrib)
qed

lemma pool_handlers_sound:
  assumes "dex_inv T dex st" and "coins_ok (ctx_funds cx)" and "distinct route"
    and "provide_liquidity env cx st pair = Inr (st', msgs, events) \<or>
      withdraw_liquidity env cx st pair = Inr (st', msgs, events) \<or>
      dex_swap_in env cx st route minimum = Inr (st', msgs, events) \<or>
      dex_swap_out env cx st route amount_out = Inr (st', msgs, events)"
  shows "sound_step T dex cx st st' (msgs_out msgs) (\<lambda>_. 0)"
proof -
  note inv = dex_invD [OF assms(1)]
  have "conserves cx st st' msgs"
    using assms(4)
    by (elim disjE) (erule provide_liquidity_conserves [OF inv(2) assms(2)] withdraw_liquidity_conserves [OF inv(2) assms(2)]
      swap_in_conserves [OF inv(2) assms(3)] swap_out_conserves [OF inv(2) assms(3,2)])+
  then have c: "reserves_ok (dx_reserves st')"
    "\<And>d. reserves_total (dx_reserves st') d + msgs_out msgs d =
      reserves_total (dx_reserves st) d + unat (amount_of (ctx_funds cx) d)" by (auto simp: conserves_def)
  from \<open>conserves cx st st' msgs\<close> obtain m where st': "st' = st\<lparr>dx_reserves := m\<rparr>" by (auto simp: conserves_def)
  have "dex_inv T dex st'" by (rule dex_inv_cong [OF assms(1)]) (use c(1) in \<open>simp_all add: st'\<close>)
  moreover have "user_debt dex st' = user_debt dex st" by (simp add: user_debt_def fun_eq_iff st' orders_of_def)
  ultimately show ?thesis using c(2) by (simp add: sound_step_def)
qed

subsection \<open>Forced cancellation\<close>

text \<open>What a batch pays to others than the exchange itself.\<close>

definition batch_to_users :: "addr \<Rightarrow> (addr, coins) omap \<Rightarrow> denom \<Rightarrow> nat" where
  "batch_to_users dex batch d = batch_total (filter (\<lambda>e. fst e \<noteq> dex) batch) d"

lemma batch_filter:
  assumes "transfers_into_batch s b = Inr batch"
  shows "transfers_into_batch s (filter (\<lambda>e. P (fst e)) b) = Inr (filter (\<lambda>e. P (fst e)) batch)"
proof -
  let ?f = "\<lambda>(user, cs). and_then (into_coins_floor s cs) (\<lambda>c. Inr (user, c))"
  have "try_map ?f b = Inr xs \<Longrightarrow> try_map ?f (filter (\<lambda>e. P (fst e)) b) = Inr (filter (\<lambda>e. P (fst e)) xs)" for xs
    by (induction b arbitrary: xs) (auto simp: and_then_Inr_iff split: prod.splits)
  moreover from assms obtain xs where xs: "try_map ?f b = Inr xs"
    and batch: "batch = filter (\<lambda>(user, c). coins_is_non_empty c) xs"
    by (auto simp: transfers_into_batch_def and_then_Inr_iff)
  ultimately have "transfers_into_batch s (filter (\<lambda>e. P (fst e)) b) =
      Inr (filter (\<lambda>(user, c). coins_is_non_empty c) (filter (\<lambda>e. P (fst e)) xs))"
    by (simp add: transfers_into_batch_def)
  then show ?thesis by (simp only: batch filter_filter conj_commute)
qed

text \<open>Cancelling every order owes each user at most the debt for the orders it had.\<close>

definition owed_users :: "addr \<Rightarrow> dec_transfers \<Rightarrow> denom \<Rightarrow> nat" where
  "owed_users dex b d = om_sum (\<lambda>user cs. if user \<noteq> dex then om_amount cs d else 0) b"

lemma owed_users_filter: "transfers_total (filter (\<lambda>e. fst e \<noteq> dex) b) d = owed_users dex b d"
  by (simp add: transfers_total_def owed_users_def om_sum_filter [where P = "\<lambda>u. u \<noteq> dex"])

lemma owed_users_update:
  assumes "om_ok b" and "\<And>d. om_amount cs d = om_amount (transfers_of b user) d + n d"
  shows "owed_users dex (om_insert user cs b) d = owed_users dex b d + (if user = dex then 0 else n d)"
  using om_sum_insert [OF assms(1), of "\<lambda>u cs. if u \<noteq> dex then om_amount cs d else 0" user cs] assms(2) [of d]
  by (auto simp: owed_users_def transfers_of_def weight_def dec_coins_new_def split: option.splits if_splits)

lemma cancel_all_users:
  assumes "dex_inv T dex st" and "orders_of st = es" and "transfers_ok refunds"
    and "try_fold (\<lambda>(st, events, refunds) (key, ord).
       and_then (cancel_and_remove
           (st, events, case map_of refunds (o_user ord) of None \<Rightarrow> dec_coins_new | Some cs \<Rightarrow> cs)
           (key, ord)) (\<lambda>(st', events', cs).
         Inr (st', events', om_insert (o_user ord) cs refunds)))
       (st, events, refunds) es = Inr (st', events', refunds')"
  shows "user_debt dex st' d + owed_users dex refunds' d * 10 ^ 24
    \<le> user_debt dex st d + owed_users dex refunds d * 10 ^ 24"
  using assms
proof (induction es arbitrary: st events refunds)
  case (Cons e es)
  obtain key ord where e: "e = (key, ord)" by (cases e)
  let ?user = "o_user ord"
  from Cons.prems(4) obtain st1 ev1 cs where
    c: "cancel_and_remove (st, events, transfers_of refunds ?user) (key, ord) = Inr (st1, ev1, cs)"
    and rest: "try_fold (\<lambda>(st, events, refunds) (key, ord).
       and_then (cancel_and_remove
           (st, events, case map_of refunds (o_user ord) of None \<Rightarrow> dec_coins_new | Some cs \<Rightarrow> cs)
           (key, ord)) (\<lambda>(st', events', cs).
         Inr (st', events', om_insert (o_user ord) cs refunds)))
       (st1, ev1, om_insert ?user cs refunds) es = Inr (st', events', refunds')"
    by (auto simp: e and_then_Inr_iff transfers_of_def)
  note inv = dex_invD [OF Cons.prems(1)]
  note om = book_invD(2) [OF inv(1)]
  have k: "map_of (orders_of st) key = Some ord" by (simp add: Cons.prems(2) e)
  note eff = cancel_and_remove_Inr [OF inv(1) transfers_of_ok [OF Cons.prems(3)] k c]
  have rm: "orders_of st1 = om_remove key (orders_of st)" using eff by blast
  have "\<forall>x \<in> set es. fst x \<noteq> key" using om unfolding Cons.prems(2) by (auto simp: e om_ok_Cons)
  then have es: "orders_of st1 = es" by (simp add: rm om_remove_def Cons.prems(2) e)
  have res: "dx_reserves st1 = dx_reserves st" using eff by auto
  have inv1: "dex_inv T dex st1"
  proof (rule dex_invI)
    show "book_inv T st1" using eff by blast
    show "reserves_ok (dx_reserves st1)" using inv(2) by (simp add: res)
    fix k' o' assume "map_of (orders_of st1) k' = Some o'" "o_user o' = dex"
    then show "o_tif o' = GoodTilCanceled"
      using inv(3) by (auto simp: rm map_of_om_remove split: if_splits simp del: split_paired_All)
  qed
  have up: "transfers_update refunds ?user (\<lambda>_. Inr cs) = Inr (om_insert ?user cs refunds)"
    by (simp add: transfers_update_def may_update_def)
  have am: "\<And>d. om_amount cs d = om_amount (transfers_of refunds ?user) d + refund_amount key ord d" using eff by blast
  have tr: "transfers_ok (om_insert ?user cs refunds)"
    using transfers_update_Inr [OF Cons.prems(3) up, of "refund_amount key ord"] eff by blast
  have omr: "om_ok refunds" using Cons.prems(3) by (simp add: transfers_ok_def)
  have "user_debt dex st1 d + user_weight dex d key ord = user_debt dex st d"
    using user_debt_remove [OF om rm, of dex d] k by (simp add: weight_def)
  moreover have "(if ?user = dex then 0 else refund_amount key ord d) * 10 ^ 24 \<le> user_weight dex d key ord"
    using refund_le_debt [of key ord d] by (simp add: user_weight_def)
  ultimately have "user_debt dex st1 d + owed_users dex (om_insert ?user cs refunds) d * 10 ^ 24
      \<le> user_debt dex st d + owed_users dex refunds d * 10 ^ 24"
    by (simp add: owed_users_update [OF omr am] add_mult_distrib del: mult_zero_left)
  with Cons.IH [OF inv1 es tr rest] show ?case by linarith
qed simp

lemma force_cancel_orders_sound:
  assumes "dex_inv T dex st" and "force_cancel_orders st = Inr (st', msgs, events)"
  shows "dex_inv T dex st' \<and> dx_reserves st' = dx_reserves st \<and> (\<exists>batch. msgs = [DexTransfer batch] \<and>
    (\<forall>d. user_debt dex st' d + batch_to_users dex batch d * 10 ^ 30 \<le> user_debt dex st d))"
proof -
  note inv = dex_invD [OF assms(1)]
  from force_cancel_orders_Inr [OF inv(1) assms(2)] have b: "book_inv T st'" "same_frame st st'" "orders_of st' = []"
    by blast+
  have res: "dx_reserves st' = dx_reserves st" using b(2) by (simp add: same_frame_def)
  have inv': "dex_inv T dex st'" using b(1) inv(2) by (intro dex_invI) (simp_all add: res b(3))
  from assms(2) obtain refunds batch where c: "cancel_all_orders st = Inr (st', events, refunds)"
    and t: "transfers_into_batch 6 refunds = Inr batch" and m: "msgs = [DexTransfer batch]"
    by (auto simp: force_cancel_orders_def result_iff)
  note c = c [unfolded cancel_all_orders_def]
  have "transfers_ok refunds" using cancel_all_loop [OF inv(1) refl transfers_new_ok(1) c] by blast
  then have ok: "transfers_ok (filter (\<lambda>e. fst e \<noteq> dex) refunds)"
    by (auto simp: transfers_ok_def om_ok_filter)
  have "user_debt dex st' d + batch_to_users dex batch d * 10 ^ 30 \<le> user_debt dex st d" for d
  proof -
    have "user_debt dex st' d + owed_users dex refunds d * 10 ^ 24 \<le> user_debt dex st d"
      using cancel_all_users [OF assms(1) refl transfers_new_ok(1) c, of d] by (simp add: owed_users_def transfers_new_def)
    moreover have "batch_to_users dex batch d * 10 ^ 30 \<le> owed_users dex refunds d * 10 ^ 24"
      using batch_le_total [OF ok batch_filter [OF t, of "\<lambda>u. u \<noteq> dex"], of d]
      by (simp only: batch_to_users_def owed_users_filter)
    ultimately show ?thesis by linarith
  qed
  with inv' res m show ?thesis by blast
qed

subsection \<open>Every message\<close>

text \<open>What leaves the exchange: transfers to others, fees and burned tokens.\<close>

fun paid_out :: "addr \<Rightarrow> dex_msg \<Rightarrow> denom \<Rightarrow> nat" where
  "paid_out dex (DexTransfer batch) d = batch_to_users dex batch d"
| "paid_out dex msg d = msg_out msg d"

definition all_paid_out :: "addr \<Rightarrow> dex_msg list \<Rightarrow> denom \<Rightarrow> nat" where
  "all_paid_out dex msgs d = (\<Sum>m\<leftarrow>msgs. paid_out dex m d)"

lemma batch_to_users_le: "batch_to_users dex batch d \<le> batch_total batch d"
  by (induction batch) (auto simp: batch_to_users_def batch_total_def)

lemma all_paid_out_le: "all_paid_out dex msgs d \<le> msgs_out msgs d"
proof (induction msgs)
  case (Cons m msgs)
  have "paid_out dex m d \<le> msg_out m d" by (cases m) (simp_all add: batch_to_users_le)
  with Cons show ?case by (simp add: all_paid_out_def)
qed (simp add: all_paid_out_def)

lemma sound_step_paid:
  assumes "sound_step T dex cx st st' (msgs_out msgs) slack"
  shows "sound_step T dex cx st st' (all_paid_out dex msgs) slack"
proof -
  have "(reserves_total (dx_reserves st') d + all_paid_out dex msgs d) * 10 ^ 30
      \<le> (reserves_total (dx_reserves st') d + msgs_out msgs d) * 10 ^ 30" for d
    by (rule mult_le_mono1) (simp add: all_paid_out_le)
  then show ?thesis
    using assms unfolding sound_step_def by (meson add_left_mono order_trans)
qed

text \<open>The messages a run is made of. The exchange sends itself only the auction, without funds; the pairs of a
  route (\<^verbatim>\<open>UniqueVec\<close>) and the bucket sizes of a pair (\<^verbatim>\<open>BTreeSet\<close>) have no duplicates, by their types.
  Nothing is asked of what the owner sets, nor when.\<close>

fun admissible :: "addr \<Rightarrow> ctx \<Rightarrow> dex_execute_msg \<Rightarrow> bool" where
  "admissible dex cx AuctionMsg \<longleftrightarrow> ctx_funds cx = coins_new"
| "admissible dex cx (OwnerMsg (BatchUpdatePairs updates)) \<longleftrightarrow> ctx_sender cx \<noteq> dex \<and> list_all proper_update updates"
| "admissible dex cx (SwapExactAmountIn route m) \<longleftrightarrow> ctx_sender cx \<noteq> dex \<and> distinct route"
| "admissible dex cx (SwapExactAmountOut route m) \<longleftrightarrow> ctx_sender cx \<noteq> dex \<and> distinct route"
| "admissible dex cx msg \<longleftrightarrow> ctx_sender cx \<noteq> dex"

text \<open>The pairs whose depth chart is still right after a message: an update of the parameters of a pair with
  resting orders takes the pair out.\<close>

fun tracked_after :: "pair_key set \<Rightarrow> dex_state \<Rightarrow> dex_execute_msg \<Rightarrow> pair_key set" where
  "tracked_after T st (OwnerMsg (BatchUpdatePairs updates)) = still_tracked T st updates"
| "tracked_after T st msg = T"

lemma dex_inv_subset: "dex_inv T dex st \<Longrightarrow> T' \<subseteq> T \<Longrightarrow> dex_inv T' dex st"
  using book_inv_subset by (auto simp: dex_inv_def)

lemma sound_frame:
  assumes "dex_inv T dex st" and "book_inv T st'" and "orders_of st' = orders_of st" and "dx_reserves st' = dx_reserves st"
    and "\<And>d. out d = 0"
  shows "sound_step T dex cx st st' out slack"
proof -
  note inv = dex_invD [OF assms(1)]
  have "dex_inv T dex st'" using inv assms(2-4) by (intro dex_invI) simp_all
  then show ?thesis by (simp add: sound_step_def user_debt_def assms)
qed

lemma pause_sound:
  assumes "dex_inv T dex st"
  shows "sound_step T dex cx st (st\<lparr>dx_paused := b\<rparr>) (all_paid_out dex []) slack"
proof (rule sound_frame [OF assms])
  show "book_inv T (st\<lparr>dx_paused := b\<rparr>)" using dex_invD(1) [OF assms] by (subst book_inv_cong [where st = st]) simp_all
qed (simp_all add: orders_of_def all_paid_out_def)

lemma owner_execute_sound:
  assumes "dex_inv T dex st" and "admissible dex cx (OwnerMsg msg)"
    and "owner_execute env cx st msg = Inr (st', msgs, events)"
  shows "sound_step (tracked_after T st (OwnerMsg msg)) dex cx st st' (all_paid_out dex msgs) (\<lambda>_. 0)"
proof (cases msg)
  case (SetPaused b)
  with assms(3) show ?thesis
    by (cases b) (auto simp: dex_pause_def dex_unpause_def intro: pause_sound [OF assms(1)])
next
  case (BatchUpdatePairs updates)
  let ?T = "still_tracked T st updates"
  have "proper_update u" if "u \<in> set updates" for u
    using assms(2) that by (auto simp: BatchUpdatePairs list_all_iff)
  from batch_update_pairs_Inr [OF dex_invD(1) [OF assms(1)] this] assms(3)
  have "book_inv ?T st'" "msgs = []" "dx_reserves st' = dx_reserves st" "orders_of st' = orders_of st"
    by (auto simp: BatchUpdatePairs)
  moreover have "dex_inv ?T dex st"
    by (rule dex_inv_subset [OF assms(1)]) (auto simp: still_tracked_def)
  ultimately show ?thesis by (simp add: BatchUpdatePairs) (intro sound_frame, simp_all add: all_paid_out_def)
next
  case ForceCancelOrders
  with assms(3) have "force_cancel_orders st = Inr (st', msgs, events)" by simp
  from force_cancel_orders_sound [OF assms(1) this] obtain batch where
    "dex_inv T dex st'" "dx_reserves st' = dx_reserves st" "msgs = [DexTransfer batch]"
    "\<And>d. user_debt dex st' d + batch_to_users dex batch d * 10 ^ 30 \<le> user_debt dex st d" by blast
  then have le: "user_debt dex st' d + (reserves_total (dx_reserves st') d + all_paid_out dex msgs d) * 10 ^ 30
      \<le> user_debt dex st d + (reserves_total (dx_reserves st) d + unat (amount_of (ctx_funds cx) d)) * 10 ^ 30 + 0 * 10 ^ 24"
    for d by (simp add: all_paid_out_def add_mult_distrib trans_le_add1)
  from \<open>dex_inv T dex st'\<close> le show ?thesis unfolding ForceCancelOrders tracked_after.simps sound_step_def by blast
qed

lemma sound_step_weaken:
  assumes "sound_step T dex cx st st' out (\<lambda>_. 0)"
  shows "sound_step T dex cx st st' out slack"
proof -
  have "user_debt dex st' d + (reserves_total (dx_reserves st') d + out d) * 10 ^ 30
       \<le> user_debt dex st d + (reserves_total (dx_reserves st) d + unat (amount_of (ctx_funds cx) d)) * 10 ^ 30
         + slack d * 10 ^ 24" for d
    using assms by (simp add: sound_step_def trans_le_add1)
  with assms show ?thesis unfolding sound_step_def by blast
qed

lemma dex_execute_sound:
  assumes "dex_inv T dex st" and "coins_ok (ctx_funds cx)" and "de_dex env = dex" and "admissible dex cx msg"
    and "dex_execute env cx st msg = Inr (st', msgs, events)"
  shows "sound_step (tracked_after T st msg) dex cx st st' (all_paid_out dex msgs) (dust dex events)"
proof (cases msg)
  case (OwnerMsg om)
  with assms(5) have "owner_execute env cx st om = Inr (st', msgs, events)" by (auto simp: and_then_Inr_iff)
  from owner_execute_sound [OF assms(1) assms(4) [unfolded OwnerMsg] this] show ?thesis
    unfolding OwnerMsg by (rule sound_step_weaken)
next
  case AuctionMsg
  with assms(5) have a: "auction env cx st = Inr (st', msgs, events)" by (simp add: and_then_Inr_iff)
  have f: "unat (amount_of (ctx_funds cx) d) = 0" for d
    using assms(4) by (simp add: AuctionMsg coins_new_def amount_of_def)
  have "sound_step T dex cx st st' (msgs_out msgs) (dust dex events)"
    using auction_conserves [OF _ a, of T] auction_inv [OF _ a, of T] assms(1,3) by (simp add: sound_step_def f)
  then show ?thesis unfolding AuctionMsg tracked_after.simps by (rule sound_step_paid)
next
  case (BatchUpdateOrders reqs request)
  with assms(4,5) have "ctx_sender cx \<noteq> dex" "batch_update_orders cx st reqs request = Inr (st', msgs, events)"
    by simp_all
  from batch_update_orders_sound [OF assms(1,2) this] show ?thesis
    unfolding BatchUpdateOrders tracked_after.simps by (rule sound_step_weaken [OF sound_step_paid])
next
  case (ProvideLiquidity pair)
  with assms(5) have "provide_liquidity env cx st pair = Inr (st', msgs, events)" by simp
  from pool_handlers_sound [OF assms(1,2) distinct.simps(1) [THEN iffD2, OF TrueI] disjI1 [OF this]] show ?thesis
    unfolding ProvideLiquidity tracked_after.simps by (rule sound_step_weaken [OF sound_step_paid])
next
  case (WithdrawLiquidity pair)
  with assms(5) have "withdraw_liquidity env cx st pair = Inr (st', msgs, events)" by simp
  from pool_handlers_sound [OF assms(1,2) distinct.simps(1) [THEN iffD2, OF TrueI] disjI2 [OF disjI1 [OF this]]]
  show ?thesis unfolding WithdrawLiquidity tracked_after.simps by (rule sound_step_weaken [OF sound_step_paid])
next
  case (SwapExactAmountIn route m)
  with assms(4,5) have "distinct route" "dex_swap_in env cx st route m = Inr (st', msgs, events)" by simp_all
  from pool_handlers_sound [OF assms(1,2) this(1) disjI2 [OF disjI2 [OF disjI1 [OF this(2)]]]]
  show ?thesis unfolding SwapExactAmountIn tracked_after.simps by (rule sound_step_weaken [OF sound_step_paid])
next
  case (SwapExactAmountOut route out)
  with assms(4,5) have "distinct route" "dex_swap_out env cx st route out = Inr (st', msgs, events)" by simp_all
  from pool_handlers_sound [OF assms(1,2) this(1) disjI2 [OF disjI2 [OF disjI2 [OF this(2)]]]]
  show ?thesis unfolding SwapExactAmountOut tracked_after.simps by (rule sound_step_weaken [OF sound_step_paid])
qed

subsection \<open>Runs\<close>

text \<open>A run of the exchange: it is instantiated, then any messages of any senders are executed, auctions
  among them, and a failed auction is answered by the reply. Along with the state the run counts what
  the exchange holds (the funds it was sent less what it paid out) and the dust of its auctions, and it
  remembers the pairs whose parameters were never updated while orders of the pair rested. A message whose
  payments the bank refuses, or that fails, leaves no trace.\<close>

inductive exchange_run ::
    "addr \<Rightarrow> pair_key set \<Rightarrow> dex_state \<Rightarrow> (denom \<Rightarrow> nat) \<Rightarrow> (denom \<Rightarrow> nat) \<Rightarrow> bool" for dex where
  run_start: "exchange_run dex UNIV st (\<lambda>d. unat (amount_of (ctx_funds cx) d)) (\<lambda>_. 0)"
  if "list_all proper_update pairs" and "coins_ok (ctx_funds cx)"
    and "dex_instantiate env cx pairs = Inr (st, [], [])"
| run_message: "exchange_run dex (tracked_after T st msg) st'
    (\<lambda>d. cash d + unat (amount_of (ctx_funds cx) d) - all_paid_out dex msgs d) (\<lambda>d. dusts d + dust dex events d)"
  if "exchange_run dex T st cash dusts" and "de_dex env = dex" and "coins_ok (ctx_funds cx)" and "admissible dex cx msg"
    and "dex_execute env cx st msg = Inr (st', msgs, events)"
    and "\<And>d. all_paid_out dex msgs d \<le> cash d + unat (amount_of (ctx_funds cx) d)"
| run_failed_auction: "exchange_run dex T st' cash dusts"
  if "exchange_run dex T st cash dusts" and "dex_reply st e = Inr (st', msgs, events)"

lemma dex_initial_inv: "dex_inv T dex dex_initial"
proof -
  have "indexed_ok order_index (dx_orders dex_initial)" "orders_of dex_initial = []" "dx_depths dex_initial = []"
    by (simp_all add: dex_initial_def indexed_new_ok orders_of_def indexed_new_def [THEN arg_cong, of im_primary])
  then have "book_inv T dex_initial"
    by (simp add: book_inv_def pairs_ok_def dex_initial_def om_ok_def depths_track_def depth_base_def depth_quote_def)
  with \<open>orders_of dex_initial = []\<close> show ?thesis
    by (intro dex_invI) (simp_all add: dex_initial_def reserves_ok_def om_ok_def)
qed

lemma run_step_covers:
  assumes "sound_step T dex cx st st' out slack"
    and "\<And>d. user_debt dex st d + reserves_total (dx_reserves st) d * 10 ^ 30 \<le> cash d * 10 ^ 30 + dusts d * 10 ^ 24"
  shows "user_debt dex st' d + (reserves_total (dx_reserves st') d + out d) * 10 ^ 30
    \<le> (cash d + unat (amount_of (ctx_funds cx) d)) * 10 ^ 30 + (dusts d + slack d) * 10 ^ 24"
proof -
  have "user_debt dex st' d + (reserves_total (dx_reserves st') d + out d) * 10 ^ 30
       \<le> user_debt dex st d + (reserves_total (dx_reserves st) d + unat (amount_of (ctx_funds cx) d)) * 10 ^ 30
         + slack d * 10 ^ 24"
    using assms(1) by (simp add: sound_step_def)
  with assms(2) [of d] show ?thesis by (simp add: add_mult_distrib)
qed

lemma exchange_run_covered:
  assumes "exchange_run dex T st cash dusts"
  shows "dex_inv T dex st \<and>
    (\<forall>d. user_debt dex st d + reserves_total (dx_reserves st) d * 10 ^ 30 \<le> cash d * 10 ^ 30 + dusts d * 10 ^ 24)"
  using assms
proof (induction rule: exchange_run.induct)
  case (run_start pairs cx env st)
  let ?init = "dex_initial\<lparr>dx_paused := False\<rparr>"
  have init: "?init = dex_initial" by (simp add: dex_initial_def)
  have "proper_update u" if "u \<in> set pairs" for u using run_start(1) that by (simp add: list_all_iff)
  have "book_inv UNIV dex_initial" by (rule dex_invD(1) [OF dex_initial_inv])
  note 1 = batch_update_pairs_Inr [OF _ \<open>\<And>u. u \<in> set pairs \<Longrightarrow> proper_update u\<close>
      run_start(3) [unfolded dex_instantiate_def], unfolded init, OF this]
  have all: "still_tracked UNIV dex_initial pairs = UNIV"
    by (auto simp: still_tracked_def quiet_def dex_initial_def orders_of_def indexed_new_def)
  from 1 have "book_inv UNIV st" by (simp add: all)
  moreover from 1 have "orders_of st = []" "dx_reserves st = []"
    by (simp_all add: dex_initial_def orders_of_def indexed_new_def)
  ultimately show ?case by (auto intro!: dex_invI simp: user_debt_def reserves_total_def reserves_ok_def om_ok_def)
next
  case (run_message T st cash dusts env cx msg st' msgs events)
  from run_message.IH have inv: "dex_inv T dex st"
    and cov: "\<And>d. user_debt dex st d + reserves_total (dx_reserves st) d * 10 ^ 30 \<le> cash d * 10 ^ 30 + dusts d * 10 ^ 24"
    by simp_all
  note s = dex_execute_sound [OF inv run_message.hyps(3,2,4,5)]
  have "user_debt dex st' d + reserves_total (dx_reserves st') d * 10 ^ 30
      \<le> (cash d + unat (amount_of (ctx_funds cx) d) - all_paid_out dex msgs d) * 10 ^ 30
        + (dusts d + dust dex events d) * 10 ^ 24" for d
    using run_step_covers [OF s cov, of d] run_message.hyps(6) [of d] by (simp add: diff_mult_distrib add_mult_distrib)
  with s show ?case by (simp add: sound_step_def)
next
  case (run_failed_auction T st cash dusts e st' msgs events)
  then have st': "st' = st\<lparr>dx_paused := True\<rparr>" by (auto simp: dex_reply_def)
  from run_failed_auction.IH pause_sound [of T dex st undefined True] show ?case
    by (simp add: st' sound_step_def user_debt_def orders_of_def)
qed

text \<open>C1: The exchange is solvent in every run: whatever messages, owner updates, auctions and failed auctions
  have been executed since it was instantiated, in every denom it holds at least the reserves of its
  pools and what it owes the owners of resting orders (counted in units of \<open>10 ^ -30\<close>), short by at most
  one millionth of a unit for every passive bid filled so far.\<close>

theorem exchange_solvent:
  assumes "exchange_run dex T st cash dusts"
  shows "user_debt dex st d + reserves_total (dx_reserves st) d * 10 ^ 30 \<le> cash d * 10 ^ 30 + dusts d * 10 ^ 24"
  using exchange_run_covered [OF assms] by blast

text \<open>The exchange can pay what it sends: after fewer than a million fills of passive bids, what a
  successful message pays out is covered by what the exchange holds together with the funds sent, so
  the bank never refuses the payment for lack of funds.\<close>

lemma exchange_can_pay:
  assumes "exchange_run dex T st cash dusts" and "de_dex env = dex" and "coins_ok (ctx_funds cx)"
    and "admissible dex cx msg" and "dex_execute env cx st msg = Inr (st', msgs, events)"
    and "dusts d + dust dex events d < 10 ^ 6"
  shows "all_paid_out dex msgs d \<le> cash d + unat (amount_of (ctx_funds cx) d)"
proof -
  from exchange_run_covered [OF assms(1)] have inv: "dex_inv T dex st"
    and cov: "\<And>d. user_debt dex st d + reserves_total (dx_reserves st) d * 10 ^ 30 \<le> cash d * 10 ^ 30 + dusts d * 10 ^ 24"
    by simp_all
  have "all_paid_out dex msgs d * 10 ^ 30
      \<le> (cash d + unat (amount_of (ctx_funds cx) d)) * 10 ^ 30 + (dusts d + dust dex events d) * 10 ^ 24"
    using run_step_covers [OF dex_execute_sound [OF inv assms(3,2,4,5)] cov, of d] by (simp add: add_mult_distrib)
  also have "\<dots> < (cash d + unat (amount_of (ctx_funds cx) d) + 1) * 10 ^ 30"
    using assms(6) by simp
  finally have "all_paid_out dex msgs d < cash d + unat (amount_of (ctx_funds cx) d) + 1"
    by (simp only: mult_less_cancel2)
  then show ?thesis by simp
qed

subsection \<open>Owners can cancel\<close>

text \<open>C34: In every run of the exchange, while trading is not paused, the owner of a resting good-til-canceled
  order that is not empty can cancel it, whatever else is in the book, provided the parameters of the
  order's pair were never updated while orders of the pair rested: the handler succeeds, deletes exactly
  that order, and sends the owner exactly what the order still set aside (its remaining base, or their
  value in quote), rounded down.\<close>

theorem owner_can_cancel:
  assumes "exchange_run dex T st cash dusts" and "\<not> dx_paused st" and "map_of (orders_of st) key = Some ord"
    and "o_tif ord = GoodTilCanceled" and "o_remaining ord \<noteq> 0" and "fst key \<in> T"
    and "ctx_sender cx = o_user ord" and "ctx_funds cx = coins_new"
  shows "\<exists>st' events out. batch_update_orders cx st [] (Some (CancelSome [o_id ord])) =
      Inr (st', [DexTransfer [(o_user ord, out)]], events) \<and>
    orders_of st' = om_remove key (orders_of st) \<and>
    (\<forall>d. unat (amount_of out d) = refund_amount key ord d div 10 ^ 6)"
  using exchange_run_covered [OF assms(1)]
  by (intro owner_cancels [OF dex_invD(1) assms(2-4,7,8,6,5)]) blast

subsection \<open>Samples\<close>

text \<open>A user's bid and ask that cross, and the auction that fills them at a taker fee of a tenth.\<close>

definition crossing_dex :: dex_state where
  "crossing_dex = sample_dex\<lparr>dx_pairs := [(([''a''], [''b'']), sample_params [])]\<rparr>"

definition crossing_requests :: "create_order_request list" where
  "crossing_requests =
    [\<lparr>cr_pair = ([''a''], [''b'']), cr_price = LimitPrice (2 * 10 ^ 24), cr_amount = BidQuote 40,
       cr_tif = GoodTilCanceled\<rparr>,
     \<lparr>cr_pair = ([''a''], [''b'']), cr_price = LimitPrice (2 * 10 ^ 24), cr_amount = AskBase 20,
       cr_tif = GoodTilCanceled\<rparr>]"

definition crossed_order :: "direction \<Rightarrow> u64 \<Rightarrow> order" where
  "crossed_order dir order_id = \<lparr>o_user = 4, o_id = order_id, o_direction = dir, o_tif = GoodTilCanceled,
     o_price = 2000000000000000000000000, o_amount = 20, o_remaining = 20000000, o_created = Some 3\<rparr>"

definition crossed_book :: dex_state where
  "crossed_book = crossing_dex\<lparr>dx_next_order_id := Some 3,
     dx_orders :=
       \<lparr>im_primary = [((([''a''], [''b'']), Bid, 2000000000000000000000000, - 2), crossed_order Bid (- 2)),
          ((([''a''], [''b'']), Ask, 2000000000000000000000000, 2), crossed_order Ask 2)],
        im_unique = [(2, ([''a''], [''b'']), Ask, 2000000000000000000000000, 2),
          (- 2, ([''a''], [''b'']), Bid, 2000000000000000000000000, - 2)],
        im_first = [((4, ([''a''], [''b'']), Bid, 2000000000000000000000000, - 2), ()),
          ((4, ([''a''], [''b'']), Ask, 2000000000000000000000000, 2), ())],
        im_second = [((GoodTilCanceled, ([''a''], [''b'']), Bid, 2000000000000000000000000, - 2), ()),
          ((GoodTilCanceled, ([''a''], [''b'']), Ask, 2000000000000000000000000, 2), ())]\<rparr>\<rparr>"

lemmas handler_eval =
  batch_update_orders_def user_ctx_def sample_params_def create_order_def order_price_def dec_eval
  dec_coins_new_def book_save_def indexed_save_def indexed_replace_def indexed_new_def unique_save_def
  multi_save_def next_order_id_def depths_up_def increase_liquidity_depths_def may_update_def order_index_def
  into_coins_floor_def round_coins_def coins_iter_def coins_insert_many_def coins_insert_def
  coins_deduct_many_def coins_deduct_def coins_new_def checked_into_dec_def dec_mul_eq_ratio mk_coin_def Let_def
  om_load_def dec_add_def checked_mul_def dec_div_def checked_floor_def checked_rem_def checked_div_def
  om_remove_def less_direction_def

lemma crossed_book_reached:
  "\<exists>events. batch_update_orders (user_ctx [([''a''], 20), ([''b''], 40)]) crossing_dex crossing_requests None =
     Inr (crossed_book, [DexTransfer [(4, [])]], events) \<and> dust 9 events d = 0"
  by (simp add: handler_eval crossing_dex_def crossing_requests_def sample_dex_def crossed_book_def crossed_order_def)

definition dark_env :: dex_env where
  "dark_env = sample_env\<lparr>de_price := \<lambda>_. Inl DataNotFound\<rparr>"

definition cron_ctx :: ctx where
  "cron_ctx = \<lparr>ctx_contract = 9, ctx_sender = 9, ctx_funds = [], ctx_time = 10000000000, ctx_height = 3\<rparr>"

lemma dark_env_simps [simp]: "de_dex dark_env = 9" "de_price dark_env d = Inl DataNotFound"
  by (simp_all add: dark_env_def sample_env_def)

lemma cron_ctx_simps [simp]:
  "ctx_time cron_ctx = 10000000000" "ctx_height cron_ctx = 3" "ctx_funds cron_ctx = coins_new"
  "ctx_sender cron_ctx = ctx_contract cron_ctx"
  by (simp_all add: cron_ctx_def coins_new_def)

lemma crossed_frame:
  "dx_resting crossed_book = []" "dx_pairs crossed_book = [(([''a''], [''b'']), sample_params [])]"
  "dx_reserves crossed_book = []" "dx_volumes crossed_book = []" "dx_volumes_by_user crossed_book = []"
  by (simp_all add: crossed_book_def crossing_dex_def sample_dex_def)

lemma crossed_sides:
  "side_orders crossed_book ([''a''], [''b'']) dir =
     [(2000000000000000000000000, crossed_order dir (case dir of Bid \<Rightarrow> - 2 | Ask \<Rightarrow> 2))]"
  by (cases dir) (simp_all add: side_orders_def crossed_book_def orders_of_def)

lemma crossed_matched:
  "match_orders [(2000000000000000000000000, crossed_order Bid (- 2))] [(2000000000000000000000000, crossed_order Ask 2)] =
     Inr \<lparr>mo_range = Some (2000000000000000000000000, 2000000000000000000000000), mo_volume = 20000000,
       mo_bids = [(2000000000000000000000000, crossed_order Bid (- 2))],
       mo_asks = [(2000000000000000000000000, crossed_order Ask 2)]\<rparr>"
  by (simp add: match_orders_def match_loop.simps side_init_def match_step_def side_push_def side_settle_def
     dec_add_def checked_add_def crossed_order_def)

definition crossed_outcomes :: "filling_outcome list" where
  "crossed_outcomes =
    [\<lparr>fo_order = (crossed_order Bid (- 2))\<lparr>o_remaining := 0\<rparr>, fo_filled_base = 20000000, fo_filled_quote = 40000000,
       fo_refund_base = 18000000, fo_refund_quote = 0, fo_fee_base = 2000000, fo_fee_quote = 0,
       fo_clearing_price = 2000000000000000000000000\<rparr>,
     \<lparr>fo_order = (crossed_order Ask 2)\<lparr>o_remaining := 0\<rparr>, fo_filled_base = 20000000, fo_filled_quote = 40000000,
       fo_refund_base = 0, fo_refund_quote = 36000000, fo_fee_base = 0, fo_fee_quote = 4000000,
       fo_clearing_price = 2000000000000000000000000\<rparr>]"

lemma crossed_filled: "match_and_fill dark_env 3 ([''a''], [''b'']) crossed_book =
    Inr ([OrdersMatched ([''a''], [''b'']) 2000000000000000000000000 20000000], crossed_outcomes)"
  by (simp add: match_and_fill_def crossed_sides crossed_matched choose_clearing_price_def crossed_frame
      dec_add_def dec_mul_eq_ratio dec_eval half_def fill_eval crossed_order_def [THEN arg_cong, of o_remaining]
      crossed_order_def [THEN arg_cong, of o_created] crossed_outcomes_def dark_env_def sample_env_def)

lemma crossed_passive:
  "delete_passive_orders 9 crossed_book = Inr crossed_book"
  "place_passive_orders 9 orc ([''a''], [''b'']) buckets crossed_book = Inr crossed_book"
  by (simp_all add: delete_passive_orders_def multi_range_def place_passive_orders_def crossed_frame)
    (simp add: crossed_book_def)

text \<open>The record of an auction before and after the two orders are handled.\<close>

definition opened :: "dex_event list \<Rightarrow> auction_state" where
  "opened events = \<lparr>au_state = crossed_book, au_events = events, au_refunds = transfers_new, au_volumes = [],
     au_volumes_by_username = [], au_fees = dec_coins_new, au_payments = transfers_new\<rparr>"

definition cleared_dex :: dex_state where
  "cleared_dex = crossing_dex\<lparr>dx_next_order_id := Some 3, dx_orders := indexed_new\<rparr>"

definition handled :: "dex_state \<Rightarrow> dex_event list \<Rightarrow> auction_state" where
  "handled st events = \<lparr>au_state = st, au_events = events,
     au_refunds = [(4, [([''a''], 18000000), ([''b''], 36000000)])], au_volumes = [], au_volumes_by_username = [],
     au_fees = [([''a''], 2000000), ([''b''], 4000000)],
     au_payments = [(4, [([''a''], 2000000), ([''b''], 4000000)])]\<rparr>"

lemma crossed_handled:
  assumes "orc [''a''] = Inl e" and "dust 9 ev d = 0"
  shows "\<exists>events. try_fold (handle_outcome dark_env orc ([''a''], [''b'']) []) (opened ev, dec_coins_new, dec_coins_new)
     crossed_outcomes = Inr (handled cleared_dex events, [], []) \<and> dust 9 events d = 0"
  using assms
  by (simp add: handle_outcome_def fill_user_order_def settle_user_order_def update_trading_volumes_def
      order_key_of_def order_filled_event_def depths_down_def decrease_liquidity_depths_def book_remove_def
      indexed_remove_def indexed_replace_def unique_remove_def multi_remove_def om_load_def om_remove_def
      transfers_insert_def transfers_update_def transfers_new_def dec_coins_insert_def may_update_def mk_dec_coin_def
      dec_add_def opened_def handled_def crossed_order_def crossed_book_def indexed_new_def dec_coins_new_def Let_def
      order_index_def dec_mul_eq_ratio dec_eval crossed_outcomes_def cleared_dex_def)

definition final_dex :: dex_state where
  "final_dex = cleared_dex\<lparr>dx_resting := [(([''a''], [''b'']),
     \<lparr>rb_best_bid_price = None, rb_best_ask_price = None, rb_mid_price = None\<rparr>)]\<rparr>"

lemma crossed_cleared:
  assumes "orc [''a''] = Inl e"
  shows "\<exists>events. clear_orders_of_pair dark_env orc 3 (opened []) (([''a''], [''b'']), sample_params []) =
    Inr (handled final_dex events) \<and> dust 9 events d = 0"
proof -
  let ?ev = "[OrdersMatched ([''a''], [''b'']) 2000000000000000000000000 20000000]"
  have b: "pp_bucket_sizes (sample_params []) = []" by (simp add: sample_params_def)
  obtain events where h: "try_fold (handle_outcome dark_env orc ([''a''], [''b'']) [])
      (opened ?ev, dec_coins_new, dec_coins_new) crossed_outcomes = Inr (handled cleared_dex events, [], [])"
    and d: "dust 9 events d = 0"
    using crossed_handled [of orc e ?ev d] assms by fastforce
  have o: "(opened [])\<lparr>au_state := crossed_book, au_events := ?ev\<rparr> = opened ?ev" "au_state (opened []) = crossed_book"
    "au_events (opened []) = []" by (simp_all add: opened_def)
  have "orders_of cleared_dex = []" "dx_resting cleared_dex = []" "im_second (dx_orders cleared_dex) = []"
    by (simp_all add: cleared_dex_def orders_of_def crossing_dex_def sample_dex_def indexed_new_def)
  then show ?thesis
    using d by (simp add: clear_orders_of_pair_def b o crossed_passive crossed_filled h update_reserve_def handled_def
        dec_coins_is_empty_def cancel_ioc_orders_def multi_range_def save_resting_book_def side_orders_def final_dex_def)
qed

definition crossed_msgs :: "dex_msg list" where
  "crossed_msgs = [DexTransfer [(4, [([''a''], 18), ([''b''], 36)])],
     DexPay FeeTrade [(4, [([''a''], 2), ([''b''], 4)])] [([''a''], 2), ([''b''], 4)]]"

lemma crossed_auction:
  "\<exists>events. auction dark_env cron_ctx crossed_book = Inr (final_dex, crossed_msgs, events) \<and> dust 9 events d = 0"
proof -
  define orc where "orc = (\<lambda>d. fresh_price 5000000000 (de_price dark_env d))"
  have o: "dex_oracle dark_env cron_ctx = Inr orc"
    by (simp add: dex_oracle_def orc_def duration_sub_def max_oracle_staleness_def checked_sub_def)
  have "orc [''a''] = Inl DataNotFound" by (simp add: orc_def fresh_price_def)
  from crossed_cleared [where orc = orc and d = d, OF this] obtain events where d: "dust 9 events d = 0" and
    c: "clear_orders_of_pair dark_env orc 3 (opened []) (([''a''], [''b'']), sample_params []) =
      Inr (handled final_dex events)" by blast
  have "dx_volumes final_dex = []" "dx_volumes_by_user final_dex = []"
    by (simp_all add: final_dex_def cleared_dex_def crossing_dex_def sample_dex_def)
  then have s: "save_volumes 10000000000 (handled final_dex events) = final_dex"
    by (simp add: save_volumes_def handled_def)
  show ?thesis
    using d by (simp add: auction_def o crossed_passive crossed_frame opened_def [symmetric] c s)
      (simp add: handled_def transfers_into_batch_def into_coins_floor_def round_coins_def coins_is_non_empty_def
        into_int_floor_def into_int_def handler_eval crossed_msgs_def)
qed

text \<open>The run: the exchange is instantiated with the pair, and the user places the two orders.\<close>

definition crossed_cash :: "denom \<Rightarrow> nat" where
  "crossed_cash d = (if d = [''a''] then 20 else if d = [''b''] then 40 else 0)"

lemma instantiated_run:
  assumes "distinct buckets"
  shows "exchange_run 9 UNIV (sample_dex\<lparr>dx_pairs := [(([''a''], [''b'']), sample_params buckets)]\<rparr>) (\<lambda>_. 0) (\<lambda>_. 0)"
proof -
  let ?pairs = "[\<lparr>pu_pair = ([''a''], [''b'']), pu_params = sample_params buckets\<rparr>]"
  let ?cx = "(user_ctx [])\<lparr>ctx_sender := 1\<rparr>"
  have init: "dex_instantiate sample_env ?cx ?pairs =
      Inr (sample_dex\<lparr>dx_pairs := [(([''a''], [''b'']), sample_params buckets)]\<rparr>, [], [])"
    by (simp add: dex_instantiate_def batch_update_pairs_def sample_env_def dex_initial_def
        sample_dex_def denom_starts_with_def lp_prefix_def sample_params_def)
  have "exchange_run 9 UNIV (sample_dex\<lparr>dx_pairs := [(([''a''], [''b'']), sample_params buckets)]\<rparr>)
      (\<lambda>d. unat (amount_of (ctx_funds ?cx) d)) (\<lambda>_. 0)"
    by (rule run_start [OF _ _ init]) (simp_all add: proper_update_def sample_params_def user_ctx_def coins_ok_def om_ok_def assms)
  then show ?thesis by (simp add: user_ctx_def amount_of_def)
qed

lemma resting_run: "\<exists>cash dusts. exchange_run 9 UNIV sample_book cash dusts"
proof -
  have "sample_dex\<lparr>dx_pairs := [(([''a''], [''b'']), sample_params [10 ^ 24])]\<rparr> = sample_dex"
    by (simp add: sample_dex_def)
  with instantiated_run [of "[10 ^ 24]"] have start: "exchange_run 9 UNIV sample_dex (\<lambda>_. 0) (\<lambda>_. 0)" by simp
  let ?cx = "user_ctx [([''a''], 7)]" and ?out = "[DexTransfer [(4, [([''a''], 2)])]]"
  have m: "\<exists>events. dex_execute sample_env ?cx sample_dex (BatchUpdateOrders [sample_ask] None) = Inr (sample_book, ?out, events)"
    using sample_book_reached by simp
  then obtain events where "dex_execute sample_env ?cx sample_dex (BatchUpdateOrders [sample_ask] None) =
      Inr (sample_book, ?out, events)" ..
  note step = run_message [OF start _ _ _ this, unfolded tracked_after.simps]
  have "all_paid_out 9 ?out d \<le> 0 + unat (amount_of (ctx_funds ?cx) d)" for d
    by (simp add: all_paid_out_def batch_to_users_def batch_total_def amount_of_def user_ctx_def)
  with step have "exchange_run 9 UNIV sample_book
      (\<lambda>d. 0 + unat (amount_of (ctx_funds ?cx) d) - all_paid_out 9 ?out d) (\<lambda>d. 0 + dust 9 events d)"
    by (simp add: sample_env_def user_ctx_def coins_ok_def om_ok_def)
  then show ?thesis by blast
qed

lemma owner_can_cancel_witness:
  "\<exists>st' events out. batch_update_orders (user_ctx []) sample_book [] (Some (CancelSome [1])) =
      Inr (st', [DexTransfer [(4, out)]], events) \<and> orders_of st' = [] \<and> unat (amount_of out [''a'']) = 5"
proof -
  obtain cash dusts where r: "exchange_run 9 UNIV sample_book cash dusts" using resting_run by blast
  have np: "\<not> dx_paused sample_book" by (simp add: sample_book_def sample_dex_def)
  have cx: "ctx_sender (user_ctx []) = o_user resting_ask" "ctx_funds (user_ctx []) = coins_new"
    by (simp_all add: user_ctx_def resting_ask_def coins_new_def)
  have g: "o_tif resting_ask = GoodTilCanceled" "o_remaining resting_ask \<noteq> 0" by (simp_all add: resting_ask_def)
  from owner_can_cancel [OF r np sample_resting g UNIV_I cx] show ?thesis
    by (fastforce simp: resting_ask_def sample_book_def orders_of_def om_remove_def refund_amount_def)
qed

lemma crossed_run: "exchange_run 9 UNIV crossed_book crossed_cash (\<lambda>_. 0)"
proof -
  let ?ux = "user_ctx [([''a''], 20), ([''b''], 40)]"
  have start: "exchange_run 9 UNIV crossing_dex (\<lambda>_. 0) (\<lambda>_. 0)"
    using instantiated_run [of "[]"] by (simp add: crossing_dex_def)
  obtain events where m: "dex_execute sample_env ?ux crossing_dex (BatchUpdateOrders crossing_requests None) =
      Inr (crossed_book, [DexTransfer [(4, [])]], events)"
    using crossed_book_reached by fastforce
  have dust: "dust 9 events d = 0" for d using crossed_book_reached [of d] m by auto
  have out: "all_paid_out 9 [DexTransfer [(4, [])]] d = 0" for d
    by (simp add: all_paid_out_def batch_to_users_def amount_of_def)
  have "exchange_run 9 UNIV crossed_book
      (\<lambda>d. 0 + unat (amount_of (ctx_funds ?ux) d) - all_paid_out 9 [DexTransfer [(4, [])]] d)
      (\<lambda>d. 0 + dust 9 events d)"
    by (rule run_message [OF start _ _ _ m, unfolded tracked_after.simps])
      (simp_all add: out, simp_all add: sample_env_def user_ctx_def coins_ok_def om_ok_def)
  moreover have "(\<lambda>d. 0 + unat (amount_of (ctx_funds ?ux) d) -
      all_paid_out 9 [DexTransfer [(4, [])]] d) = crossed_cash"
    by (auto simp: out user_ctx_def amount_of_def crossed_cash_def)
  ultimately show ?thesis by (simp add: dust)
qed

lemma crossed_inv: "dex_inv UNIV (de_dex dark_env) crossed_book"
  using exchange_run_covered [OF crossed_run] by simp

lemma auction_conserves_funds_witness:
  "\<exists>events. auction dark_env cron_ctx crossed_book = Inr (final_dex, crossed_msgs, events) \<and>
    msgs_out crossed_msgs [''a''] * 10 ^ 30 \<le> user_debt 9 crossed_book [''a'']"
proof -
  obtain events where a: "auction dark_env cron_ctx crossed_book = Inr (final_dex, crossed_msgs, events)"
    and d: "dust 9 events [''a''] = 0" using crossed_auction by blast
  from auction_conserves_funds [OF crossed_inv a, of "[''a'']"] a show ?thesis
    by (simp add: d crossed_frame reserves_total_def add_mult_distrib)
qed

lemma auction_keeps_book_witness: "dex_inv UNIV 9 final_dex \<and> dx_pairs final_dex = dx_pairs crossed_book"
proof -
  obtain events where "auction dark_env cron_ctx crossed_book = Inr (final_dex, crossed_msgs, events)"
    using crossed_auction by blast
  note k = auction_keeps_book [OF crossed_inv this]
  from conjunct1 [OF k] conjunct1 [OF conjunct2 [OF k]] show ?thesis unfolding dark_env_simps by (rule conjI)
qed

lemma auction_fees_accepted_witness:
  "\<forall>tax. \<exists>receipts. taxman_pay (user_ctx [([''a''], 2), ([''b''], 4)]) tax FeeTrade [(4, [([''a''], 2), ([''b''], 4)])] =
     Inr (tax, receipts)"
proof
  fix tax
  obtain events where a: "auction dark_env cron_ctx crossed_book = Inr (final_dex, crossed_msgs, events)"
    using crossed_auction by blast
  have "DexPay FeeTrade [(4, [([''a''], 2), ([''b''], 4)])] [([''a''], 2), ([''b''], 4)] \<in> set crossed_msgs"
    by (simp add: crossed_msgs_def)
  from auction_fees_accepted [OF crossed_inv a this, of "user_ctx [([''a''], 2), ([''b''], 4)]" tax]
  show "\<exists>receipts. taxman_pay (user_ctx [([''a''], 2), ([''b''], 4)]) tax FeeTrade [(4, [([''a''], 2), ([''b''], 4)])] =
     Inr (tax, receipts)"
    by (auto simp: user_ctx_def)
qed

lemma exchange_solvent_witness: "user_debt 9 crossed_book [''a''] \<le> 20 * 10 ^ 30"
  using exchange_solvent [OF crossed_run, of "[''a'']"] by (simp add: crossed_cash_def)

lemma exchange_can_pay_witness: "all_paid_out 9 crossed_msgs [''b''] \<le> 40"
proof -
  obtain events where "auction dark_env cron_ctx crossed_book = Inr (final_dex, crossed_msgs, events)"
    and d: "dust 9 events [''b''] = 0" using crossed_auction by blast
  then have a: "dex_execute dark_env cron_ctx crossed_book AuctionMsg = Inr (final_dex, crossed_msgs, events)"
    by (simp add: ensure_def)
  have "coins_ok (ctx_funds cron_ctx)" by (simp add: coins_new_def coins_ok_def om_ok_def)
  from exchange_can_pay [OF crossed_run _ this _ a, of "[''b'']"] show ?thesis
    by (simp add: d crossed_cash_def coins_new_def amount_of_def)
qed

end
