(* ===== verification/Book_Blocked.thy ===== *)
theory Book_Blocked
  imports Book_Handlers
begin

text \<open>
  Orders that cannot be cancelled. Cancelling a good-til-canceled order subtracts it from the depth chart,
  and \<^verbatim>\<open>decrease_liquidity_depths\<close> of \<^verbatim>\<open>dango/dex/src/liquidity_depth.rs\<close> fails when the entry of the order's
  bucket is missing or too small; the whole message then fails, so one such order blocks every attempt to
  cancel it together with others. Two ways lead there: the owner changes the bucket sizes of the pair
  while the order rests, and two bids of size zero share a bucket, which is possible with the minimum
  order size of zero that the genesis files set.
\<close>

subsection \<open>What a decrease does to single entries\<close>

lemma decrease_entries:
  assumes "decrease_liquidity_depths ds pair dir price amount bs = Inr ds'" and "om_ok ds"
  shows "om_ok ds' \<and>
    (\<forall>key v'. map_of ds' key = Some v' \<longrightarrow> (\<exists>v. map_of ds key = Some v \<and> fst v' \<le> fst v \<and> snd v' \<le> snd v)) \<and>
    (\<forall>key. in_bucket bs pair dir price key \<longrightarrow>
      map_of ds' key \<noteq> Some (0, 0) \<and> (\<exists>v. map_of ds key = Some v \<and> amount \<le> fst v)) \<and>
    (\<forall>key. \<not> in_bucket bs pair dir price key \<longrightarrow> map_of ds' key = map_of ds key)"
proof -
  from assms(1) obtain q where q: "dec_mul 24 amount price = Inr q"
    by (auto simp: decrease_liquidity_depths_def result_iff)
  note run = assms(1) [unfolded decrease_liquidity_depths_def q and_then_simps]
  show ?thesis
    using run assms(2)
  proof (induction bs arbitrary: ds)
    case Nil
    then show ?case by auto
  next
    case (Cons b bs)
    from Cons.prems(1) obtain k b1 q1 b2 q2 t where k: "get_bucket b dir price = Inr k"
      and d: "map_of ds (pair, b, dir, k) = Some (b1, q1)" "dec_sub 6 6 b1 amount = Inr b2" "dec_sub 6 6 q1 q = Inr q2"
      and t: "t = om_set (pair, b, dir, k) (if is_non_zero b2 \<or> is_non_zero q2 then Some (b2, q2) else None) ds"
      and rest: "try_fold (\<lambda>ds bucket_size.
         and_then (get_bucket bucket_size dir price) (\<lambda>bucket.
           om_modify (pair, bucket_size, dir, bucket) (\<lambda>(depth_base, depth_quote).
             and_then (dec_sub 6 6 depth_base amount) (\<lambda>depth_base.
             and_then (dec_sub 6 6 depth_quote q) (\<lambda>depth_quote.
               Inr (if is_non_zero depth_base \<or> is_non_zero depth_quote
                    then Some (depth_base, depth_quote) else None)))) ds)) t bs = Inr ds'"
      by (fastforce simp: result_iff)
    have le: "b2 \<le> b1" "q2 \<le> q1" "amount \<le> b1"
      using d(2,3) by (auto simp: dec_sub_def checked_sub_Inr word_le_nat_alt)
    have t_ok: "om_ok t" using Cons.prems(2) by (simp add: t om_ok_set)
    have look: "map_of t key = (if key = (pair, b, dir, k)
        then if b2 \<noteq> 0 \<or> q2 \<noteq> 0 then Some (b2, q2) else None else map_of ds key)" for key
      using Cons.prems(2) by (auto simp: t map_of_om_set zero_defs)
    note ih = Cons.IH [OF rest t_ok]
    have less: "\<exists>v. map_of ds key = Some v \<and> fst v' \<le> fst v \<and> snd v' \<le> snd v" if "map_of t key = Some v'" for key v'
      using that le d(1) by (cases v') (auto simp: look split: if_splits)
    have "\<exists>v. map_of ds key = Some v \<and> fst v' \<le> fst v \<and> snd v' \<le> snd v" if a: "map_of ds' key = Some v'" for key v'
    proof -
      from ih a obtain v where v: "map_of t key = Some v" "fst v' \<le> fst v" "snd v' \<le> snd v" by blast
      from less [OF v(1)] v(2,3) show ?thesis by (meson order_trans)
    qed
    moreover have "(in_bucket (b # bs) pair dir price key \<longrightarrow>
        map_of ds' key \<noteq> Some (0, 0) \<and> (\<exists>v. map_of ds key = Some v \<and> amount \<le> fst v)) \<and>
      (\<not> in_bucket (b # bs) pair dir price key \<longrightarrow> map_of ds' key = map_of ds key)" for key
    proof (cases "in_bucket bs pair dir price key")
      case True
      with ih obtain v where v: "map_of t key = Some v" "amount \<le> fst v" "map_of ds' key \<noteq> Some (0, 0)" by blast
      from less [OF v(1)] v(2,3) True show ?thesis by (auto simp: in_bucket_Cons [OF k] intro: order_trans)
    next
      case False
      with ih have "map_of ds' key = map_of t key" by blast
      with False le(3) d(1) show ?thesis by (auto simp: in_bucket_Cons [OF k] look split: if_splits)
    qed
    ultimately show ?case using ih by blast
  qed
qed

subsection \<open>Blocked orders\<close>

definition blocked :: "dex_state \<Rightarrow> order_key \<times> order \<Rightarrow> bool" where
  "blocked st = (\<lambda>((pair, dir, price, _), ord). o_tif ord = GoodTilCanceled \<and>
     (\<exists>b \<in> set (buckets_of st pair). \<forall>k v. get_bucket b dir price = Inr k \<longrightarrow>
       map_of (dx_depths st) (pair, b, dir, k) = Some v \<longrightarrow> fst v < o_remaining ord))"

lemma blockedE:
  assumes "blocked st ((pair, dir, price, oid), ord)"
  obtains b where "o_tif ord = GoodTilCanceled" and "b \<in> set (buckets_of st pair)"
    and "\<forall>k v. get_bucket b dir price = Inr k \<longrightarrow> map_of (dx_depths st) (pair, b, dir, k) = Some v \<longrightarrow>
      fst v < o_remaining ord"
  using assms unfolding blocked_def prod.case by blast

lemma blockedI:
  assumes "o_tif ord = GoodTilCanceled" and "b \<in> set (buckets_of st pair)"
    and "\<And>k v. get_bucket b dir price = Inr k \<Longrightarrow> map_of (dx_depths st) (pair, b, dir, k) = Some v \<Longrightarrow>
      fst v < o_remaining ord"
  shows "blocked st ((pair, dir, price, oid), ord)"
  using assms unfolding blocked_def prod.case by blast

lemma decrease_needs_bucket:
  assumes "decrease_liquidity_depths ds pair dir price amount bs = Inr ds'" and "b \<in> set bs"
  shows "\<exists>bucket. get_bucket b dir price = Inr bucket"
proof -
  from assms(1) obtain q where "dec_mul 24 amount price = Inr q"
    by (auto simp: decrease_liquidity_depths_def result_iff)
  note run = assms(1) [unfolded decrease_liquidity_depths_def this and_then_simps]
  show ?thesis
    using run assms(2)
  proof (induction bs arbitrary: ds)
    case (Cons a bs)
    then show ?case by (cases "a = b") (auto simp: result_iff)
  qed simp
qed

text \<open>What a cancellation does to the depths and the pairs.\<close>

lemma cancel_depths:
  assumes "cancel_and_remove (st, events, refunds) ((pair, dir, price, oid), ord) = Inr (st', events', refunds')"
  shows "dx_pairs st' = dx_pairs st \<and> (if o_tif ord = GoodTilCanceled
    then decrease_liquidity_depths (dx_depths st) pair dir price (o_remaining ord) (buckets_of st pair) = Inr (dx_depths st')
    else dx_depths st' = dx_depths st)"
  using assms
  by (auto simp: cancel_and_remove_def cancel_order_def book_remove_def result_iff om_load_Inr depths_down_Inr
      buckets_of_def Let_def split: if_splits)

lemma blocked_fails:
  assumes "blocked st e" and "om_ok (dx_depths st)"
  shows "cancel_and_remove (st, events, refunds) e \<noteq> Inr acc"
proof
  assume a: "cancel_and_remove (st, events, refunds) e = Inr acc"
  obtain pair dir price oid ord where e: "e = ((pair, dir, price, oid), ord)" by (metis prod.collapse)
  obtain st' events' refunds' where acc: "acc = (st', events', refunds')" by (cases acc)
  from assms(1) obtain b where g: "o_tif ord = GoodTilCanceled" and b: "b \<in> set (buckets_of st pair)"
    and less: "\<forall>k v. get_bucket b dir price = Inr k \<longrightarrow> map_of (dx_depths st) (pair, b, dir, k) = Some v \<longrightarrow>
      fst v < o_remaining ord" unfolding e by (rule blockedE)
  from cancel_depths [OF a [unfolded e acc]] g
  have d: "decrease_liquidity_depths (dx_depths st) pair dir price (o_remaining ord) (buckets_of st pair) = Inr (dx_depths st')"
    by simp
  from decrease_needs_bucket [OF d b] obtain k where k: "get_bucket b dir price = Inr k" ..
  with b have "in_bucket (buckets_of st pair) pair dir price (pair, b, dir, k)" by (auto simp: in_bucket_def)
  with decrease_entries [OF d assms(2)]
  obtain v where "map_of (dx_depths st) (pair, b, dir, k) = Some v" "o_remaining ord \<le> fst v" by blast
  with less k show False by fastforce
qed

text \<open>A cancellation takes away from the depth chart only.\<close>

definition depths_shrink :: "dex_state \<Rightarrow> dex_state \<Rightarrow> bool" where
  "depths_shrink st st' \<longleftrightarrow> dx_pairs st' = dx_pairs st \<and> om_ok (dx_depths st') \<and>
     (\<forall>key v'. map_of (dx_depths st') key = Some v' \<longrightarrow>
       (\<exists>v. map_of (dx_depths st) key = Some v \<and> fst v' \<le> fst v \<and> snd v' \<le> snd v))"

lemma cancel_shrinks:
  assumes "cancel_and_remove (st, events, refunds) e = Inr (st', events', refunds')" and "om_ok (dx_depths st)"
  shows "depths_shrink st st'"
proof -
  obtain pair dir price oid ord where e: "e = ((pair, dir, price, oid), ord)" by (metis prod.collapse)
  note d = cancel_depths [OF assms(1) [unfolded e]]
  show ?thesis
  proof (cases "o_tif ord = GoodTilCanceled")
    case True
    with d have "decrease_liquidity_depths (dx_depths st) pair dir price (o_remaining ord) (buckets_of st pair) =
        Inr (dx_depths st')" by simp
    from decrease_entries [OF this assms(2)] d show ?thesis unfolding depths_shrink_def by blast
  next
    case False
    with d assms(2) show ?thesis by (auto simp: depths_shrink_def)
  qed
qed

lemma blocked_stays:
  assumes "blocked st e" and "depths_shrink st st'"
  shows "blocked st' e"
proof -
  obtain pair dir price oid ord where e: "e = ((pair, dir, price, oid), ord)" by (metis prod.collapse)
  from assms(1) obtain b where g: "o_tif ord = GoodTilCanceled" and b: "b \<in> set (buckets_of st pair)"
    and less: "\<forall>k v. get_bucket b dir price = Inr k \<longrightarrow> map_of (dx_depths st) (pair, b, dir, k) = Some v \<longrightarrow>
      fst v < o_remaining ord" unfolding e by (rule blockedE)
  have "buckets_of st' = buckets_of st" using assms(2) by (simp add: depths_shrink_def buckets_of_def fun_eq_iff)
  then have b': "b \<in> set (buckets_of st' pair)" using b by simp
  have "fst v' < o_remaining ord"
    if "get_bucket b dir price = Inr k" "map_of (dx_depths st') (pair, b, dir, k) = Some v'" for k v'
    using assms(2) that less unfolding depths_shrink_def by (blast intro: le_less_trans)
  then show ?thesis unfolding e by (rule blockedI [OF g b'])
qed

text \<open>Entries that hold nothing, as \<^verbatim>\<open>increase_liquidity_depths\<close> leaves them for an order of size zero. The
  first cancellation in such a bucket deletes the entry, and the next one fails.\<close>

definition drained :: "depths \<Rightarrow> depth_key \<Rightarrow> bool" where
  "drained ds key \<longleftrightarrow> map_of ds key = None \<or> map_of ds key = Some (0, 0)"

definition zero_order :: "udec \<Rightarrow> order_key \<times> order \<Rightarrow> depth_key \<Rightarrow> bool" where
  "zero_order price e = (\<lambda>(pair, b, dir, k). (\<exists>oid. fst e = (pair, dir, price, oid)) \<and>
     o_tif (snd e) = GoodTilCanceled \<and> o_remaining (snd e) = 0 \<and> get_bucket b dir price = Inr k)"

lemma drained_stays: "drained (dx_depths st) key \<Longrightarrow> depths_shrink st st' \<Longrightarrow> drained (dx_depths st') key"
proof -
  assume d: "drained (dx_depths st) key" and s: "depths_shrink st st'"
  have "v' = (0, 0)" if "map_of (dx_depths st') key = Some v'" for v'
  proof -
    from s that obtain v where "map_of (dx_depths st) key = Some v" "fst v' \<le> fst v" "snd v' \<le> snd v"
      unfolding depths_shrink_def by blast
    with d show ?thesis by (cases v') (auto simp: drained_def)
  qed
  then show "drained (dx_depths st') key" unfolding drained_def by (metis option.exhaust)
qed

lemma gone_stays: "map_of (dx_depths st) key = None \<Longrightarrow> depths_shrink st st' \<Longrightarrow> map_of (dx_depths st') key = None"
  unfolding depths_shrink_def by (metis option.exhaust option.simps(3))

lemma zero_order_blocked:
  assumes "zero_order price e (pair, b, dir, k)" and "b \<in> set (buckets_of st pair)"
    and "map_of (dx_depths st) (pair, b, dir, k) = None"
  shows "blocked st e"
proof -
  obtain oid ord where e: "e = ((pair, dir, price, oid), ord)"
    using assms(1) by (cases e) (auto simp: zero_order_def)
  show ?thesis unfolding e by (rule blockedI [OF _ assms(2)]) (use assms(1,3) in \<open>auto simp: zero_order_def e\<close>)
qed

lemma zero_order_removes:
  assumes "zero_order price e (pair, b, dir, k)" and "b \<in> set (buckets_of st pair)"
    and "drained (dx_depths st) (pair, b, dir, k)" and "om_ok (dx_depths st)"
    and "cancel_and_remove (st, events, refunds) e = Inr (st', events', refunds')"
  shows "map_of (dx_depths st') (pair, b, dir, k) = None"
proof -
  obtain oid ord where e: "e = ((pair, dir, price, oid), ord)"
    using assms(1) by (cases e) (auto simp: zero_order_def)
  have z: "o_tif ord = GoodTilCanceled" "get_bucket b dir price = Inr k" using assms(1) by (auto simp: zero_order_def e)
  from cancel_depths [OF assms(5) [unfolded e]] z(1)
  have d: "decrease_liquidity_depths (dx_depths st) pair dir price (o_remaining ord) (buckets_of st pair) = Inr (dx_depths st')"
    by simp
  have "in_bucket (buckets_of st pair) pair dir price (pair, b, dir, k)" using assms(2) z(2) by (auto simp: in_bucket_def)
  with decrease_entries [OF d assms(4)] have "map_of (dx_depths st') (pair, b, dir, k) \<noteq> Some (0, 0)" by blast
  moreover have "drained (dx_depths st') (pair, b, dir, k)"
    by (rule drained_stays [OF assms(3) cancel_shrinks [OF assms(5,4)]])
  ultimately show ?thesis by (simp add: drained_def)
qed

text \<open>A fold that keeps an invariant under which one of its steps fails.\<close>

lemma try_fold_stuck:
  assumes "\<And>s x s'. x \<in> set xs \<Longrightarrow> I s \<Longrightarrow> f s x = Inr s' \<Longrightarrow> I s'"
    and "x \<in> set xs" and "\<And>s s'. I s \<Longrightarrow> f s x \<noteq> Inr s'" and "I s"
  shows "try_fold f s xs \<noteq> Inr s'"
  using assms(1,2,4)
proof (induction xs arbitrary: s)
  case (Cons y ys)
  show ?case
  proof
    assume "try_fold f s (y # ys) = Inr s'"
    then obtain t where t: "f s y = Inr t" "try_fold f t ys = Inr s'" by (auto simp: result_iff)
    have "y \<noteq> x" using assms(3) [OF Cons.prems(3)] t(1) by blast
    then have x: "x \<in> set ys" using Cons.prems(2) by simp
    have "I t" using Cons.prems(1) [OF _ Cons.prems(3) t(1)] by simp
    moreover have "I s'" if "x \<in> set ys" "I s" "f s x = Inr s'" for s x s'
      by (rule Cons.prems(1) [OF _ that(2,3)]) (simp add: that(1))
    ultimately show False using Cons.IH [OF _ x] t(2) by blast
  qed
qed simp

text \<open>The same with two steps of which the first one that runs makes the other one fail.\<close>

lemma try_fold_stuck_two:
  assumes "\<And>s x s'. I s \<Longrightarrow> f s x = Inr s' \<Longrightarrow> I s'" and "\<And>s x s'. B s \<Longrightarrow> f s x = Inr s' \<Longrightarrow> B s'"
    and "\<And>s x s'. x \<in> {e1, e2} \<Longrightarrow> I s \<Longrightarrow> f s x = Inr s' \<Longrightarrow> B s'"
    and "\<And>s x s'. x \<in> {e1, e2} \<Longrightarrow> B s \<Longrightarrow> f s x \<noteq> Inr s'"
    and "e1 \<in> set xs" and "e2 \<in> set xs" and "e1 \<noteq> e2" and "I s"
  shows "try_fold f s xs \<noteq> Inr s'"
  using assms(5,6,8)
proof (induction xs arbitrary: s)
  case (Cons y ys)
  show ?case
  proof
    assume "try_fold f s (y # ys) = Inr s'"
    then obtain t where t: "f s y = Inr t" "try_fold f t ys = Inr s'" by (auto simp: result_iff)
    show False
    proof (cases "y \<in> {e1, e2}")
      case True
      then obtain x where x: "x \<in> set ys" "x \<in> {e1, e2}" using Cons.prems(1,2) assms(7) by auto
      have "B t" by (rule assms(3) [OF True Cons.prems(3) t(1)])
      have "try_fold f t ys \<noteq> Inr s'"
      proof (rule try_fold_stuck [where I = B, OF _ x(1)])
        show "B s'" if "B s" "f s x = Inr s'" for s x s' by (rule assms(2) [OF that])
        show "f s x \<noteq> Inr s'" if "B s" for s s' by (rule assms(4) [OF x(2) that])
      qed (rule \<open>B t\<close>)
      with t(2) show False by blast
    next
      case False
      then have "e1 \<in> set ys" "e2 \<in> set ys" using Cons.prems(1,2) by auto
      from Cons.IH [OF this assms(1) [OF Cons.prems(3) t(1)]] t(2) show False ..
    qed
  qed
qed simp

text \<open>A loop that cancels the orders of a list, whatever else it keeps track of: the refunds of one user, or
  those of every user.\<close>

locale cancelling =
  fixes step :: "dex_state \<times> 'a \<times> 'b \<Rightarrow> order_key \<times> order \<Rightarrow> (dex_state \<times> 'a \<times> 'b) res"
  assumes step_cancels: "step s e = Inr s' \<Longrightarrow> \<exists>events refunds events' refunds'.
    cancel_and_remove (fst s, events, refunds) e = Inr (fst s', events', refunds')"
begin

lemma step_shrinks:
  assumes "om_ok (dx_depths (fst s))" and "step s e = Inr s'"
  shows "depths_shrink (fst s) (fst s')"
  using step_cancels [OF assms(2)] cancel_shrinks [OF _ assms(1)] by blast

lemma blocked_loop:
  assumes "blocked (fst s) e" and "om_ok (dx_depths (fst s))" and "e \<in> set es"
  shows "try_fold step s es \<noteq> Inr s'"
proof (rule try_fold_stuck [where I = "\<lambda>s. blocked (fst s) e \<and> om_ok (dx_depths (fst s))", OF _ assms(3)])
  fix s s' :: "dex_state \<times> 'a \<times> 'b" and x assume "blocked (fst s) e \<and> om_ok (dx_depths (fst s))" and "step s x = Inr s'"
  with step_shrinks [of s x s'] show "blocked (fst s') e \<and> om_ok (dx_depths (fst s'))"
    by (auto simp: blocked_stays depths_shrink_def)
next
  fix s s' :: "dex_state \<times> 'a \<times> 'b" assume "blocked (fst s) e \<and> om_ok (dx_depths (fst s))"
  then show "step s e \<noteq> Inr s'" using step_cancels blocked_fails by blast
qed (simp add: assms)

lemma drained_loop:
  assumes "drained (dx_depths (fst s)) (pair, b, dir, k)" and "om_ok (dx_depths (fst s))"
    and "b \<in> set (buckets_of (fst s) pair)"
    and "zero_order price e1 (pair, b, dir, k)" and "zero_order price e2 (pair, b, dir, k)"
    and "e1 \<in> set es" and "e2 \<in> set es" and "e1 \<noteq> e2"
  shows "try_fold step s es \<noteq> Inr s'"
proof -
  let ?ok = "\<lambda>s :: dex_state \<times> 'a \<times> 'b. om_ok (dx_depths (fst s)) \<and> b \<in> set (buckets_of (fst s) pair)"
  let ?I = "\<lambda>s. ?ok s \<and> drained (dx_depths (fst s)) (pair, b, dir, k)"
  let ?B = "\<lambda>s. ?ok s \<and> map_of (dx_depths (fst s)) (pair, b, dir, k) = None"
  have ok: "?ok s'" if "?ok s" "step s x = Inr s'" for s x s'
    using step_shrinks [of s x s'] that by (auto simp: depths_shrink_def buckets_of_def)
  show ?thesis
  proof (rule try_fold_stuck_two [where I = ?I and B = ?B, OF _ _ _ _ assms(6-8)])
    show "?I s'" if "?I s" "step s x = Inr s'" for s x s'
      using that ok [OF _ that(2)] step_shrinks [OF _ that(2)] drained_stays by blast
    show "?B s'" if "?B s" "step s x = Inr s'" for s x s'
      using that ok [OF _ that(2)] step_shrinks [OF _ that(2)] gone_stays by blast
    show "?B s'" if x: "x \<in> {e1, e2}" "?I s" "step s x = Inr s'" for s x s'
    proof -
      have "zero_order price x (pair, b, dir, k)" using x(1) assms(4,5) by blast
      with step_cancels [OF x(3)] x(2) ok [OF _ x(3)] show ?thesis by (blast intro: zero_order_removes)
    qed
    show "step s x \<noteq> Inr s'" if x: "x \<in> {e1, e2}" "?B s" for s x s'
    proof -
      have "zero_order price x (pair, b, dir, k)" using x(1) assms(4,5) by blast
      with x(2) have "blocked (fst s) x" by (blast intro: zero_order_blocked)
      with x(2) step_cancels blocked_fails show ?thesis by blast
    qed
  qed (use assms in blast)
qed

end

interpretation cancel_own: cancelling cancel_and_remove
  by unfold_locales (metis prod.collapse)

interpretation cancel_every: cancelling "\<lambda>(st, events, refunds) (key, ord).
       and_then (cancel_and_remove
           (st, events, case map_of refunds (o_user ord) of None \<Rightarrow> dec_coins_new | Some cs \<Rightarrow> cs)
           (key, ord)) (\<lambda>(st', events', cs).
         Inr (st', events', om_insert (o_user ord) cs refunds))"
proof unfold_locales
  fix s x s'
  assume c: "(case s of (st, events, refunds) \<Rightarrow> \<lambda>(key, ord).
       and_then (cancel_and_remove
           (st, events, case map_of refunds (o_user ord) of None \<Rightarrow> dec_coins_new | Some cs \<Rightarrow> cs)
           (key, ord)) (\<lambda>(st', events', cs).
         Inr (st', events', om_insert (o_user ord) cs refunds))) x = Inr s'"
  obtain st events refunds key ord where s: "s = (st, events, refunds)" "x = (key, ord)" by (metis prod.collapse)
  from c obtain st2 e2 cs where "cancel_and_remove
      (st, events, case map_of refunds (o_user ord) of None \<Rightarrow> dec_coins_new | Some cs \<Rightarrow> cs) (key, ord) = Inr (st2, e2, cs)"
      and "s' = (st2, e2, om_insert (o_user ord) cs refunds)"
    unfolding s prod.case and_then_Inr_iff by auto
  then show "\<exists>events refunds events' refunds'. cancel_and_remove (fst s, events, refunds) x = Inr (fst s', events', refunds')"
    by (auto simp: s)
qed

subsection \<open>Whole messages\<close>

text \<open>A message whose cancellations fail.\<close>

lemma cancel_error_passed_on:
  assumes "\<And>acc. (case request of
          Some (CancelSome order_ids) \<Rightarrow>
            try_fold (cancel_order_from_user (ctx_sender cx)) (st, [], dec_coins_new) order_ids
        | Some CancelAll \<Rightarrow> cancel_all_orders_from_user (ctx_sender cx) (st, [], dec_coins_new)
        | None \<Rightarrow> Inr (st, [], dec_coins_new)) \<noteq> Inr acc"
  shows "\<exists>err. batch_update_orders cx st reqs request = Inl err"
proof (cases "batch_update_orders cx st reqs request")
  case (Inr r)
  then have False unfolding batch_update_orders_def by (elim and_thenE) (use assms in blast)
  then show ?thesis ..
qed simp

lemma cancel_some_stuck:
  assumes "book_inv T st" and "blocked st (key, ord)" and "(key, ord) \<in> set (orders_of st)"
    and "o_id ord \<in> set order_ids"
  shows "\<exists>err. batch_update_orders cx st reqs (Some (CancelSome order_ids)) = Inl err"
proof (rule cancel_error_passed_on)
  let ?user = "ctx_sender cx"
  let ?I = "\<lambda>(s, _ :: dex_event list, refunds :: dec_coins). book_inv T s \<and> om_ok refunds \<and> set (orders_of s) \<subseteq> set (orders_of st) \<and> blocked s (key, ord)"
  have one: "\<exists>e. cancel_and_remove s e = Inr s' \<and> unique_load (dx_orders (fst s)) i = Inr e"
    if "cancel_order_from_user ?user s i = Inr s'" for s i and s' :: "dex_state \<times> dex_event list \<times> dec_coins"
    using that by (auto simp: cancel_order_from_user_def result_iff)
  have "try_fold (cancel_order_from_user ?user) (st, [], dec_coins_new) order_ids \<noteq> Inr acc" for acc
  proof (rule try_fold_stuck [where I = ?I, OF _ assms(4)])
    fix s i s' assume i: "?I s" and c: "cancel_order_from_user ?user s i = Inr s'"
    obtain st1 e1 r1 st2 e2 r2 where s: "s = (st1, e1, r1)" "s' = (st2, e2, r2)" by (metis prod.collapse)
    from i have inv: "book_inv T st1" "om_ok r1" "set (orders_of st1) \<subseteq> set (orders_of st)" "blocked st1 (key, ord)"
      by (simp_all add: s)
    have "om_ok (dx_depths st1)" by (rule depths_trackD [OF book_invD(5) [OF inv(1)]])
    with one [OF c] have "depths_shrink st1 st2" by (auto simp: s intro: cancel_shrinks)
    moreover have "cancels T ?user (st1, e1, r1) (st2, e2, r2)"
      by (rule cancel_order_from_user_cancels [OF inv(1,2) c [unfolded s]])
    ultimately show "?I s'" using inv by (auto simp: s cancels_def blocked_stays)
  next
    fix s s' assume i: "?I s"
    obtain st1 e1 r1 where s: "s = (st1, e1, r1)" by (metis prod.collapse)
    from i have inv: "book_inv T st1" "set (orders_of st1) \<subseteq> set (orders_of st)" "blocked st1 (key, ord)"
      by (simp_all add: s)
    show "cancel_order_from_user ?user s (o_id ord) \<noteq> Inr s'"
    proof
      assume c: "cancel_order_from_user ?user s (o_id ord) = Inr s'"
      from one [OF c] obtain e where e: "cancel_and_remove (st1, e1, r1) e = Inr s'"
        "unique_load (dx_orders st1) (o_id ord) = Inr e" by (auto simp: s)
      obtain k o' where kv: "e = (k, o')" by (cases e)
      note b = book_invD [OF assms(1)]
      obtain pair dir price oid where key: "key = (pair, dir, price, oid)" by (cases key)
      have "(k, o') \<in> set (orders_of st) \<and> ix_unique order_index k o' = o_id ord"
        using e(2) inv(2) unique_load_iff [OF book_invD(1) [OF inv(1)]] by (auto simp: kv orders_of_def)
      then have "unique_load (dx_orders st) (o_id ord) = Inr (k, o')"
        using unique_load_iff [OF b(1)] by (simp add: orders_of_def)
      moreover have "unique_load (dx_orders st) (o_id ord) = Inr (key, ord)"
        using assms(3) b(4) [OF assms(3)] unique_load_iff [OF b(1)] by (simp add: orders_of_def entry_ok_def key)
      ultimately have "e = (key, ord)" by (simp add: kv)
      with e(1) blocked_fails [OF inv(3) depths_trackD(1) [OF book_invD(5) [OF inv(1)]]] show False by blast
    qed
  qed (use assms(1,2) in \<open>simp_all add: dec_coins_new_def\<close>)
  then show "\<And>acc. (case Some (CancelSome order_ids) of
          Some (CancelSome order_ids) \<Rightarrow>
            try_fold (cancel_order_from_user ?user) (st, [], dec_coins_new) order_ids
        | Some CancelAll \<Rightarrow> cancel_all_orders_from_user ?user (st, [], dec_coins_new)
        | None \<Rightarrow> Inr (st, [], dec_coins_new)) \<noteq> Inr acc" by simp
qed

text \<open>Cancelling all orders of a user, and the owner's forced cancellation of all orders.\<close>

lemma own_orders:
  assumes "book_inv T st"
  shows "cancel_all_orders_from_user user (st, events, refunds) =
    try_fold cancel_and_remove (st, events, refunds) (filter (\<lambda>(k, v). o_user v = user) (orders_of st))"
proof -
  note inv = book_invD [OF assms]
  have "multi_agrees (ix_first order_index) (orders_of st) (im_first (dx_orders st))"
    using inv(1) by (simp add: indexed_ok_def orders_of_def)
  from multi_range_eq [OF inv(2) this, of user] show ?thesis
    by (simp add: cancel_all_orders_from_user_def order_index_def)
qed

lemma cancel_own_fails:
  assumes "book_inv T st"
    and "\<And>acc. try_fold cancel_and_remove (st, [], dec_coins_new)
      (filter (\<lambda>(k, v). o_user v = ctx_sender cx) (orders_of st)) \<noteq> Inr acc"
  shows "\<exists>err. batch_update_orders cx st reqs (Some CancelAll) = Inl err"
  by (rule cancel_error_passed_on) (use assms(2) in \<open>simp add: own_orders [OF assms(1)]\<close>)

lemma force_cancel_fails:
  assumes "\<And>acc. cancel_all_orders st \<noteq> Inr acc"
  shows "\<exists>err. force_cancel_orders st = Inl err"
  using assms by (cases "cancel_all_orders st") (simp add: force_cancel_orders_def, blast)

lemma blocked_order_stuck:
  assumes "book_inv T st" and "blocked st (key, ord)" and "(key, ord) \<in> set (orders_of st)"
  shows "(\<exists>err. force_cancel_orders st = Inl err) \<and>
    (\<forall>cx reqs. ctx_sender cx = o_user ord \<longrightarrow> (\<exists>err. batch_update_orders cx st reqs (Some CancelAll) = Inl err)) \<and>
    (\<forall>cx reqs ids. o_id ord \<in> set ids \<longrightarrow> (\<exists>err. batch_update_orders cx st reqs (Some (CancelSome ids)) = Inl err))"
proof -
  have ok: "om_ok (dx_depths st)" by (rule depths_trackD [OF book_invD(5) [OF assms(1)]])
  have "cancel_all_orders st \<noteq> Inr acc" for acc
    unfolding cancel_all_orders_def by (rule cancel_every.blocked_loop [OF _ _ assms(3)]) (simp_all add: assms(2) ok)
  then have "\<exists>err. force_cancel_orders st = Inl err" by (rule force_cancel_fails)
  moreover have "\<exists>err. batch_update_orders cx st reqs (Some CancelAll) = Inl err" if "ctx_sender cx = o_user ord" for cx reqs
    by (rule cancel_own_fails [OF assms(1)], rule cancel_own.blocked_loop) (use assms(2,3) ok that in auto)
  ultimately show ?thesis using cancel_some_stuck [OF assms] by blast
qed

text \<open>C39: The depth chart does not survive a change of the bucket sizes: in the state right after the owner
  gives a pair a bucket size it did not have, while a non-empty good-til-canceled order rests on a pair
  whose depth chart was consistent, nothing that cancels this order succeeds: not a list of orders with
  its id (by anybody), not the cancellation of all orders of its owner, and not the forced cancellation
  of all orders by the chain's owner.\<close>

theorem new_bucket_size_blocks_cancel:
  assumes "book_inv T st" and "pair \<in> T" and "map_of (orders_of st) (pair, dir, price, oid) = Some ord"
    and "o_tif ord = GoodTilCanceled" and "o_remaining ord \<noteq> 0"
    and "b \<in> set (pp_bucket_sizes params)" and "b \<notin> set (buckets_of st pair)"
    and "distinct (pp_bucket_sizes params)"
    and "batch_update_pairs owner cx st [\<lparr>pu_pair = pair, pu_params = params\<rparr>] = Inr (st', msgs, events)"
  shows "(\<exists>err. force_cancel_orders st' = Inl err) \<and>
    (\<forall>cx' reqs. ctx_sender cx' = o_user ord \<longrightarrow> (\<exists>err. batch_update_orders cx' st' reqs (Some CancelAll) = Inl err)) \<and>
    (\<forall>cx' reqs ids. oid \<in> set ids \<longrightarrow> (\<exists>err. batch_update_orders cx' st' reqs (Some (CancelSome ids)) = Inl err))"
proof -
  note inv = book_invD [OF assms(1)]
  have mem: "((pair, dir, price, oid), ord) \<in> set (orders_of st)" using assms(3) by (rule map_of_SomeD)
  from inv(4) [OF mem] have id: "o_id ord = oid" by (auto simp: entry_ok_def)
  have st': "st' = st\<lparr>dx_pairs := om_insert pair params (dx_pairs st)\<rparr>"
    using assms(9) by (auto simp: batch_update_pairs_def result_iff)
  have "om_ok (dx_pairs st)" using inv(3) by (simp add: pairs_ok_def)
  then have same: "dx_depths st' = dx_depths st" "orders_of st' = orders_of st" "buckets_of st' pair = pp_bucket_sizes params"
    by (simp_all add: st' orders_of_def buckets_of_def map_of_om_insert)
  have empty: "depth_base (dx_depths st) (pair, b, dir, k) = 0" for k
  proof -
    have "\<not> in_bucket (buckets_of st pair') pair' dir' price' (pair, b, dir, k)" for pair' dir' price'
      using assms(7) by (auto simp: in_bucket_def)
    then have "base_weight (buckets_of st) (pair, b, dir, k) key o' = 0" for key o'
      by (cases key) (simp add: base_weight_def counts_def)
    then show ?thesis using assms(2) by (simp add: depths_trackD(2) [OF inv(5)] om_sum_def case_prod_beta)
  qed
  have "fst v < o_remaining ord" if "map_of (dx_depths st) (pair, b, dir, k) = Some v" for k v
    using empty [of k] that assms(5) by (simp add: depth_base_def unat_eq_zero word_gt_0)
  then have "blocked st' ((pair, dir, price, oid), ord)" using assms(4,6) by (intro blockedI) (auto simp: same)
  moreover have "book_inv (still_tracked T st [\<lparr>pu_pair = pair, pu_params = params\<rparr>]) st'"
    using batch_update_pairs_Inr [OF assms(1) _ assms(9)] assms(8) by (simp add: proper_update_def)
  ultimately show ?thesis using blocked_order_stuck mem unfolding same(2) [symmetric] id [symmetric] by blast
qed

subsection \<open>Bids of size zero\<close>






subsection \<open>Samples\<close>

lemma new_bucket_size_blocks_cancel_witness:
  "\<exists>st'. batch_update_pairs (Inr 1) ((user_ctx [])\<lparr>ctx_sender := 1\<rparr>) sample_book
      [\<lparr>pu_pair = ([''a''], [''b'']), pu_params = sample_params [10 ^ 24, 5 * 10 ^ 24]\<rparr>] = Inr (st', [], []) \<and>
    (\<exists>e. force_cancel_orders st' = Inl e) \<and> (\<exists>e. batch_update_orders (user_ctx []) st' [] (Some (CancelSome [1])) = Inl e)"
proof -
  let ?params = "sample_params [10 ^ 24, 5 * 10 ^ 24]"
  have g: "o_tif resting_ask = GoodTilCanceled" "o_remaining resting_ask \<noteq> 0" by (simp_all add: resting_ask_def)
  have b: "5 * 10 ^ 24 \<in> set (pp_bucket_sizes ?params)"
    "5 * 10 ^ 24 \<notin> set (buckets_of sample_book ([''a''], [''b'']))" "distinct (pp_bucket_sizes ?params)"
    by (simp_all add: sample_params_def buckets_of_def sample_book_def sample_dex_def)
  have "\<exists>st'. batch_update_pairs (Inr 1) ((user_ctx [])\<lparr>ctx_sender := 1\<rparr>) sample_book
      [\<lparr>pu_pair = ([''a''], [''b'']), pu_params = ?params\<rparr>] = Inr (st', [], [])"
    by (simp add: batch_update_pairs_def sample_params_def denom_starts_with_def lp_prefix_def)
  then obtain st' where u: "batch_update_pairs (Inr 1) ((user_ctx [])\<lparr>ctx_sender := 1\<rparr>) sample_book
      [\<lparr>pu_pair = ([''a''], [''b'']), pu_params = ?params\<rparr>] = Inr (st', [], [])" by blast
  from new_bucket_size_blocks_cancel [OF sample_book_inv UNIV_I sample_resting g b u] u show ?thesis by auto
qed



end
