(* ===== verification/Auction_Halt.thy ===== *)
theory Auction_Halt
  imports Exchange Book_Blocked
begin

text \<open>
  What the bids of size zero of \<^verbatim>\<open>Book_Blocked\<close> do to the auction. One user of an exchange without orders
  sends one message that places two such bids above a bid and an ask of its own that cross, all of it
  accepted for exactly the funds of the two orders that cross. The next auction fills the first empty
  bid with nothing, which deletes the empty depth entry, and fails at the second one; the handler of
  failed auctions (\<open>dex_reply\<close>) then pauses trading.
\<close>

definition halting_requests :: "create_order_request list" where
  "halting_requests =
    (let free = \<lparr>cr_pair = ([''a''], [''b'']), cr_price = LimitPrice (3 * 10 ^ 24), cr_amount = BidQuote 1, cr_tif = GoodTilCanceled\<rparr>
     in free # free # crossing_requests)"

definition halting_order :: "udec \<Rightarrow> u128 \<Rightarrow> direction \<Rightarrow> u64 \<Rightarrow> order" where
  "halting_order price amount dir order_id = \<lparr>o_user = 4, o_id = order_id, o_direction = dir, o_tif = GoodTilCanceled,
     o_price = price, o_amount = amount, o_remaining = amount * 1000000, o_created = Some 3\<rparr>"

definition halting_book :: dex_state where
  "halting_book = sample_dex\<lparr>dx_next_order_id := Some 5,
     dx_depths :=
       [((([''a''], [''b'']), 1000000000000000000000000, Bid, 2000000000000000000000000), 20000000, 40000000),
        ((([''a''], [''b'']), 1000000000000000000000000, Bid, 3000000000000000000000000), 0, 0),
        ((([''a''], [''b'']), 1000000000000000000000000, Ask, 2000000000000000000000000), 20000000, 40000000)],
     dx_orders :=
       \<lparr>im_primary = [((([''a''], [''b'']), Bid, 2000000000000000000000000, - 4), halting_order 2000000000000000000000000 20 Bid (- 4)),
          ((([''a''], [''b'']), Bid, 3000000000000000000000000, - 3), halting_order 3000000000000000000000000 0 Bid (- 3)),
          ((([''a''], [''b'']), Bid, 3000000000000000000000000, - 2), halting_order 3000000000000000000000000 0 Bid (- 2)),
          ((([''a''], [''b'']), Ask, 2000000000000000000000000, 4), halting_order 2000000000000000000000000 20 Ask 4)],
        im_unique = [(4, ([''a''], [''b'']), Ask, 2000000000000000000000000, 4),
          (- 4, ([''a''], [''b'']), Bid, 2000000000000000000000000, - 4),
          (- 3, ([''a''], [''b'']), Bid, 3000000000000000000000000, - 3),
          (- 2, ([''a''], [''b'']), Bid, 3000000000000000000000000, - 2)],
        im_first = [((4, ([''a''], [''b'']), Bid, 2000000000000000000000000, - 4), ()),
          ((4, ([''a''], [''b'']), Bid, 3000000000000000000000000, - 3), ()),
          ((4, ([''a''], [''b'']), Bid, 3000000000000000000000000, - 2), ()),
          ((4, ([''a''], [''b'']), Ask, 2000000000000000000000000, 4), ())],
        im_second = [((GoodTilCanceled, ([''a''], [''b'']), Bid, 2000000000000000000000000, - 4), ()),
          ((GoodTilCanceled, ([''a''], [''b'']), Bid, 3000000000000000000000000, - 3), ()),
          ((GoodTilCanceled, ([''a''], [''b'']), Bid, 3000000000000000000000000, - 2), ()),
          ((GoodTilCanceled, ([''a''], [''b'']), Ask, 2000000000000000000000000, 4), ())]\<rparr>\<rparr>"

lemma halting_buckets:
  "get_bucket 1000000000000000000000000 dir 2000000000000000000000000 = Inr 2000000000000000000000000"
  "get_bucket 1000000000000000000000000 dir 3000000000000000000000000 = Inr 3000000000000000000000000"
  by (simp_all add: get_bucket_def dec_div_def checked_floor_def checked_rem_def checked_div_def dec_mul_eq_ratio dec_eval)

lemma halting_book_reached:
  "\<exists>events. batch_update_orders (user_ctx [([''a''], 20), ([''b''], 40)]) sample_dex halting_requests None =
     Inr (halting_book, [DexTransfer [(4, [])]], events)"
  by (simp add: handler_eval halting_buckets halting_requests_def crossing_requests_def sample_dex_def halting_book_def halting_order_def)


lemma halting_frame:
  "dx_resting halting_book = []" "dx_pairs halting_book = [(([''a''], [''b'']), sample_params [10 ^ 24])]"
  "dx_reserves halting_book = []"
  by (simp_all add: halting_book_def sample_dex_def)

lemma halting_sides:
  "rev (side_orders halting_book ([''a''], [''b'']) Bid) =
     [(3000000000000000000000000, halting_order 3000000000000000000000000 0 Bid (- 2)),
      (3000000000000000000000000, halting_order 3000000000000000000000000 0 Bid (- 3)),
      (2000000000000000000000000, halting_order 2000000000000000000000000 20 Bid (- 4))]"
  "side_orders halting_book ([''a''], [''b'']) Ask =
     [(2000000000000000000000000, halting_order 2000000000000000000000000 20 Ask 4)]"
  by (simp_all add: side_orders_def halting_book_def orders_of_def)

lemma halting_matched:
  "match_orders (rev (side_orders halting_book ([''a''], [''b'']) Bid)) (side_orders halting_book ([''a''], [''b'']) Ask) =
     Inr \<lparr>mo_range = Some (2000000000000000000000000, 2000000000000000000000000), mo_volume = 20000000,
       mo_bids = rev (side_orders halting_book ([''a''], [''b'']) Bid),
       mo_asks = side_orders halting_book ([''a''], [''b'']) Ask\<rparr>"
  unfolding halting_sides
  by (simp add: match_orders_def match_loop.simps side_init_def match_step_def side_push_def side_settle_def
     dec_add_def checked_add_def halting_order_def)

definition empty_fill :: "u64 \<Rightarrow> filling_outcome" where
  "empty_fill order_id = \<lparr>fo_order = halting_order 3000000000000000000000000 0 Bid order_id, fo_filled_base = 0,
     fo_filled_quote = 0, fo_refund_base = 0, fo_refund_quote = 0, fo_fee_base = 0, fo_fee_quote = 0,
     fo_clearing_price = 2000000000000000000000000\<rparr>"

lemma halting_filled: "\<exists>rest. match_and_fill dark_env 3 ([''a''], [''b'']) halting_book =
    Inr ([OrdersMatched ([''a''], [''b'']) 2000000000000000000000000 20000000], empty_fill (- 2) # empty_fill (- 3) # rest)"
  by (simp add: match_and_fill_def halting_matched choose_clearing_price_def halting_frame)
    (simp add: halting_sides
      dec_add_def dec_mul_eq_ratio dec_eval half_def fill_eval halting_order_def empty_fill_def dark_env_def sample_env_def)

lemma halting_passive:
  "delete_passive_orders 9 halting_book = Inr halting_book"
  "place_passive_orders 9 orc ([''a''], [''b'']) buckets halting_book = Inr halting_book"
  by (simp_all add: delete_passive_orders_def multi_range_def place_passive_orders_def halting_frame)
    (simp add: halting_book_def)


definition halting_opened :: auction_state where
  "halting_opened = \<lparr>au_state = halting_book,
     au_events = [OrdersMatched ([''a''], [''b'']) 2000000000000000000000000 20000000], au_refunds = transfers_new,
     au_volumes = [], au_volumes_by_username = [], au_fees = dec_coins_new, au_payments = transfers_new\<rparr>"

lemma first_empty_fill:
  assumes "orc [''a''] = Inl e"
  shows "\<exists>au. handle_outcome dark_env orc ([''a''], [''b'']) [1000000000000000000000000]
      (halting_opened, dec_coins_new, dec_coins_new) (empty_fill (- 2)) = Inr (au, dec_coins_new, dec_coins_new) \<and>
    map_of (dx_depths (au_state au)) (([''a''], [''b'']), 1000000000000000000000000, Bid, 3000000000000000000000000) = None"
  using assms
  by (simp add: handle_outcome_def fill_user_order_def settle_user_order_def update_trading_volumes_def
      order_key_of_def order_filled_event_def depths_down_def decrease_liquidity_depths_def book_remove_def
      indexed_remove_def indexed_replace_def unique_remove_def multi_remove_def om_load_def om_remove_def
      transfers_insert_def transfers_update_def transfers_new_def dec_coins_insert_def may_update_def mk_dec_coin_def
      dec_add_def halting_opened_def halting_order_def halting_book_def dec_coins_new_def Let_def halting_buckets
      order_index_def dec_mul_eq_ratio dec_eval empty_fill_def om_modify_def dec_sub_def checked_sub_def om_set_def)

lemma second_empty_fill:
  assumes "map_of (dx_depths (au_state au)) (([''a''], [''b'']), 1000000000000000000000000, Bid, 3000000000000000000000000) = None"
  shows "\<exists>err. handle_outcome dark_env orc ([''a''], [''b'']) [1000000000000000000000000] (au, flows) (empty_fill (- 3)) = Inl err"
proof (cases "handle_outcome dark_env orc ([''a''], [''b'']) [1000000000000000000000000] (au, flows) (empty_fill (- 3))")
  case (Inr r)
  then obtain au1 au2 where f: "fill_user_order ([''a''], [''b'']) (empty_fill (- 3)) au = Inr au1"
    and s: "settle_user_order ([''a''], [''b'']) [1000000000000000000000000] (empty_fill (- 3)) au1 = Inr au2"
    by (auto simp: handle_outcome_def and_then_Inr_iff empty_fill_def halting_order_def dark_env_def sample_env_def)
  have "au_state au1 = au_state au" using f by (auto simp: fill_user_order_def and_then_Inr_iff Let_def)
  with s assms show ?thesis
    by (auto simp: settle_user_order_def empty_fill_def halting_order_def Let_def order_key_of_def depths_down_Inr
        and_then_Inr_iff decrease_liquidity_depths_def halting_buckets om_modify_Inr)
qed simp

lemma free_bids_stop_auction: "\<exists>err. auction dark_env cron_ctx halting_book = Inl err"
proof (cases "auction dark_env cron_ctx halting_book")
  case (Inr r)
  let ?pair = "([''a''], [''b''])" and ?b = "[1000000000000000000000000]"
  define orc where "orc = (\<lambda>d. fresh_price 5000000000 (de_price dark_env d))"
  have o: "dex_oracle dark_env cron_ctx = Inr orc"
    by (simp add: dex_oracle_def orc_def duration_sub_def max_oracle_staleness_def checked_sub_def)
  have p: "orc [''a''] = Inl DataNotFound" by (simp add: orc_def fresh_price_def)
  have bs: "pp_bucket_sizes (sample_params [10 ^ 24]) = ?b" by (simp add: sample_params_def)
  obtain rest where m: "match_and_fill dark_env 3 ?pair halting_book =
      Inr ([OrdersMatched ?pair 2000000000000000000000000 20000000], empty_fill (- 2) # empty_fill (- 3) # rest)"
    using halting_filled by blast
  from first_empty_fill [of orc, OF p] obtain au where
    a: "handle_outcome dark_env orc ?pair ?b (halting_opened, dec_coins_new, dec_coins_new) (empty_fill (- 2)) =
      Inr (au, dec_coins_new, dec_coins_new)"
      "map_of (dx_depths (au_state au)) (?pair, 1000000000000000000000000, Bid, 3000000000000000000000000) = None" by blast
  obtain err where e: "handle_outcome dark_env orc ?pair ?b (au, dec_coins_new, dec_coins_new) (empty_fill (- 3)) = Inl err"
    using second_empty_fill [OF a(2)] by blast
  have "try_fold (handle_outcome dark_env orc ?pair ?b) (halting_opened, dec_coins_new, dec_coins_new)
      (empty_fill (- 2) # empty_fill (- 3) # rest) = Inl err" by (simp add: a(1) e)
  then show ?thesis
    by (simp add: auction_def o halting_passive halting_frame clear_orders_of_pair_def bs [simplified] m halting_opened_def Let_def)
qed simp

end
