(* ===== verification/Lending.thy ===== *)
theory Lending
  imports Liquidity_Depth
begin

text \<open>
  The lending contract, \<^verbatim>\<open>dango/lending\<close>, with the types of \<^verbatim>\<open>dango/types/src/lending\<close>. A market has
  a borrow index and a supply index that grow with the interest; debts and deposits are recorded
  divided by the index of their time ("scaled"), debts as decimals of 256 bits, deposits as amounts of
  a liquidity token. What the contract asks other contracts for is the record \<open>lend_env\<close>: the owner of
  the chain, the supply of a token, and whether an account is a margin account.
\<close>

subsection \<open>Markets (market.rs, interest\_rate.rs)\<close>

definition seconds_per_year :: u128 where
  "seconds_per_year = 31536000"

text \<open>The fields are \<^verbatim>\<open>Bounded\<close> decimals; decoding refuses other values.\<close>

record rate_model =
  rm_base_rate :: udec
  rm_optimal_utilization :: udec
  rm_first_slope :: udec
  rm_second_slope :: udec
  rm_reserve_factor :: udec

definition rate_model_ok :: "rate_model \<Rightarrow> bool" where
  "rate_model_ok m \<longleftrightarrow> rm_base_rate m < dec_one 18 \<and>
     0 < rm_optimal_utilization m \<and> rm_optimal_utilization m < dec_one 18 \<and>
     0 < rm_first_slope m \<and> rm_first_slope m < dec_one 18 \<and>
     0 < rm_second_slope m \<and> rm_second_slope m < dec_one 18 \<and> rm_reserve_factor m \<le> dec_one 18"

record market =
  mk_lp_denom :: denom
  mk_model :: rate_model
  mk_borrowed :: u256
  mk_borrow_index :: udec
  mk_supply_index :: udec
  mk_updated :: u128
  mk_fee :: u128

definition lending_namespace :: part where
  "lending_namespace = ''lending''"

definition lending_subnamespace :: part where
  "lending_subnamespace = ''pool''"

definition market_new :: "denom \<Rightarrow> rate_model \<Rightarrow> market res" where
  "market_new underlying_denom model =
     and_then (denom_prepend underlying_denom [lending_namespace, lending_subnamespace]) (\<lambda>lp_denom.
       Inr \<lparr>mk_lp_denom = lp_denom, mk_model = model, mk_borrowed = 0, mk_borrow_index = dec_one 18,
         mk_supply_index = dec_one 18, mk_updated = 0, mk_fee = 0\<rparr>)"

definition add_borrowed :: "market \<Rightarrow> u256 \<Rightarrow> market res" where
  "add_borrowed m amount_scaled =
     and_then (dec_add 18 18 (mk_borrowed m) amount_scaled) (\<lambda>total. Inr (m\<lparr>mk_borrowed := total\<rparr>))"

definition deduct_borrowed :: "market \<Rightarrow> u256 \<Rightarrow> market res" where
  "deduct_borrowed m amount_scaled =
     and_then (dec_sub 18 18 (mk_borrowed m) amount_scaled) (\<lambda>total. Inr (m\<lparr>mk_borrowed := total\<rparr>))"

definition add_pending_protocol_fee :: "market \<Rightarrow> u128 \<Rightarrow> market res" where
  "add_pending_protocol_fee m amount_scaled =
     and_then (checked_add (mk_fee m) amount_scaled) (\<lambda>fee. Inr (m\<lparr>mk_fee := fee\<rparr>))"

definition reset_pending_protocol_fee :: "market \<Rightarrow> market" where
  "reset_pending_protocol_fee m = m\<lparr>mk_fee := 0\<rparr>"

subsection \<open>Interest (core/interest\_rate.rs, core/market.rs)\<close>

text \<open>Decimal operators panic where the checked operations fail.\<close>

definition calculate_rates :: "rate_model \<Rightarrow> udec \<Rightarrow> (udec \<times> udec) res" where
  "calculate_rates model utilization =
     and_then
       (if utilization \<le> rm_optimal_utilization model then
          and_then (unwrap (dec_div 18 utilization (rm_optimal_utilization model))) (\<lambda>u.
          and_then (unwrap (dec_mul 18 u (rm_first_slope model))) (\<lambda>x.
            unwrap (dec_add 18 18 (rm_base_rate model) x)))
        else
          and_then (unwrap (dec_sub 18 18 utilization (rm_optimal_utilization model))) (\<lambda>a.
          and_then (unwrap (dec_sub 18 18 (dec_one 18) (rm_optimal_utilization model))) (\<lambda>b.
          and_then (unwrap (dec_div 18 a b)) (\<lambda>excess_utilization.
          and_then (unwrap (dec_add 18 18 (rm_base_rate model) (rm_first_slope model))) (\<lambda>x.
          and_then (unwrap (dec_mul 18 excess_utilization (rm_second_slope model))) (\<lambda>y.
            unwrap (dec_add 18 18 x y)))))))
       (\<lambda>borrow_rate.
     and_then (unwrap (dec_mul 18 utilization borrow_rate)) (\<lambda>x.
     and_then (unwrap (dec_sub 18 18 (dec_one 18) (rm_reserve_factor model))) (\<lambda>y.
     and_then (unwrap (dec_mul 18 x y)) (\<lambda>supply_rate.
       Inr (borrow_rate, supply_rate)))))"

definition into_scaled_debt :: "u128 \<Rightarrow> market \<Rightarrow> u256 res" where
  "into_scaled_debt amount m =
     and_then (checked_into_dec 18 (into_next amount)) (\<lambda>d. dec_div 18 d (into_next (mk_borrow_index m)))"

definition into_scaled_collateral :: "u128 \<Rightarrow> market \<Rightarrow> u128 res" where
  "into_scaled_collateral amount m = checked_div_dec_floor 18 amount (mk_supply_index m)"

definition into_underlying_debt :: "u256 \<Rightarrow> market \<Rightarrow> u128 res" where
  "into_underlying_debt amount_scaled m =
     and_then (dec_mul 18 amount_scaled (into_next (mk_borrow_index m))) (\<lambda>x.
     and_then (checked_ceil 18 x) (\<lambda>y.
     and_then (into_int 18 y) checked_into_prev))"

definition into_underlying_collateral :: "u128 \<Rightarrow> market \<Rightarrow> u128 res" where
  "into_underlying_collateral amount_scaled m = checked_mul_dec_floor 18 amount_scaled (mk_supply_index m)"

record lend_env =
  le_owner :: addr
  le_supply :: "denom \<Rightarrow> u128 res"
  le_is_margin :: "addr \<Rightarrow> bool res"

definition total_supplied :: "lend_env \<Rightarrow> market \<Rightarrow> u128 res" where
  "total_supplied env m =
     and_then (le_supply env (mk_lp_denom m)) (\<lambda>supply.
     and_then (checked_add supply (mk_fee m)) (\<lambda>amount_scaled.
       into_underlying_collateral amount_scaled m))"

definition total_borrowed :: "market \<Rightarrow> u128 res" where
  "total_borrowed m = into_underlying_debt (mk_borrowed m) m"

definition utilization_rate :: "lend_env \<Rightarrow> market \<Rightarrow> udec res" where
  "utilization_rate env m =
     and_then (total_borrowed m) (\<lambda>borrowed.
     and_then (total_supplied env m) (\<lambda>supplied.
       if is_zero supplied then Inr 0
       else and_then (checked_from_ratio 18 borrowed supplied) (\<lambda>rate.
         if dec_one 18 < rate then Inr (dec_one 18) else Inr rate)))"

definition into_seconds :: "u128 \<Rightarrow> u128" where
  "into_seconds nanos = nanos div 1000 div 1000 div 1000"

definition update_indices :: "lend_env \<Rightarrow> u128 \<Rightarrow> market \<Rightarrow> market res" where
  "update_indices env current_time m =
     and_then (total_supplied env m) (\<lambda>supplied.
       if is_zero supplied \<or> is_zero (mk_borrowed m) \<or> current_time = mk_updated m
       then Inr (m\<lparr>mk_updated := current_time\<rparr>)
       else
         and_then (utilization_rate env m) (\<lambda>utilization.
         and_then (calculate_rates (mk_model m) utilization) (\<lambda>(borrow_rate, supply_rate).
         and_then (duration_sub current_time (mk_updated m)) (\<lambda>time_delta.
         and_then (checked_from_ratio 18 (into_seconds time_delta) seconds_per_year) (\<lambda>time_out_of_year.
         and_then (dec_mul 18 borrow_rate time_out_of_year) (\<lambda>x.
         and_then (dec_add 18 18 (dec_one 18) x) (\<lambda>x.
         and_then (dec_mul 18 (mk_borrow_index m) x) (\<lambda>borrow_index.
         and_then (dec_mul 18 supply_rate time_out_of_year) (\<lambda>y.
         and_then (dec_add 18 18 (dec_one 18) y) (\<lambda>y.
         and_then (dec_mul 18 (mk_supply_index m) y) (\<lambda>supply_index.
         and_then (total_borrowed m) (\<lambda>previous_total_borrowed.
         (let new_market = m\<lparr>mk_borrow_index := borrow_index\<rparr> in
         and_then (total_borrowed new_market) (\<lambda>new_total_borrowed.
         and_then (checked_sub new_total_borrowed previous_total_borrowed) (\<lambda>borrow_interest.
         and_then (checked_mul_dec 18 borrow_interest (rm_reserve_factor (mk_model new_market))) (\<lambda>protocol_fee.
         and_then (checked_div_dec_floor 18 protocol_fee supply_index) (\<lambda>protocol_fee_scaled.
           add_pending_protocol_fee (new_market\<lparr>mk_supply_index := supply_index, mk_updated := current_time\<rparr>)
             protocol_fee_scaled)))))))))))))))))"

subsection \<open>State and messages\<close>

type_synonym scaled_debts = "(denom, u256) omap"

record lend_state =
  ls_markets :: "(denom, market) omap"
  ls_debts :: "(addr, scaled_debts) omap"

datatype lend_msg =
    LendUpdateMarkets "(denom, rate_model) omap"
  | LendDeposit
  | LendWithdraw
  | LendBorrow coins
  | LendRepay
  | LendClaimFees

text \<open>The messages sent to the bank.\<close>

datatype lend_out =
    LendMint addr coins
  | LendBurn addr coins
  | LendTransfer addr coins

datatype lend_event =
    LendBorrowed addr coins
  | LendRepaid addr coins coins scaled_debts

definition save_markets :: "(denom, market) omap \<Rightarrow> (denom, market) omap \<Rightarrow> (denom, market) omap" where
  "save_markets updates markets = fold (\<lambda>(d, m). om_insert d m) updates markets"

subsection \<open>The computations (core/)\<close>

definition deposit_one ::
    "lend_env \<Rightarrow> u128 \<Rightarrow> lend_state \<Rightarrow> coins \<times> (denom, market) omap \<Rightarrow> denom \<times> u128 \<Rightarrow>
     (coins \<times> (denom, market) omap) res" where
  "deposit_one env now st acc c =
     (let (lp_tokens, markets) = acc; (d, amount) = c in
      and_then (om_load (ls_markets st) d) (\<lambda>m.
      and_then (update_indices env now m) (\<lambda>m.
      and_then (into_scaled_collateral amount m) (\<lambda>amount_scaled.
      and_then (ensure (is_non_zero amount_scaled) (Bail ''deposit is too small'')) (\<lambda>_.
      and_then (coins_insert lp_tokens (mk_coin (mk_lp_denom m) amount_scaled)) (\<lambda>lp_tokens.
        Inr (lp_tokens, om_insert d m markets)))))))"

definition core_deposit :: "lend_env \<Rightarrow> u128 \<Rightarrow> lend_state \<Rightarrow> coins \<Rightarrow> (coins \<times> (denom, market) omap) res" where
  "core_deposit env now st cs = try_fold (deposit_one env now st) (coins_new, []) cs"

definition withdraw_one ::
    "lend_env \<Rightarrow> u128 \<Rightarrow> lend_state \<Rightarrow> coins \<times> (denom, market) omap \<Rightarrow> denom \<times> u128 \<Rightarrow>
     (coins \<times> (denom, market) omap) res" where
  "withdraw_one env now st acc c =
     (let (withdrawn, markets) = acc; (d, amount) = c in
      and_then (denom_strip d [lending_namespace, lending_subnamespace]) (\<lambda>stripped.
      and_then (ok_or (Bail ''not a lending pool token'') stripped) (\<lambda>underlying_denom.
      and_then (om_load (ls_markets st) underlying_denom) (\<lambda>m.
      and_then (update_indices env now m) (\<lambda>m.
      and_then (into_underlying_collateral amount m) (\<lambda>underlying_amount.
      and_then (coins_insert withdrawn (mk_coin underlying_denom underlying_amount)) (\<lambda>withdrawn.
        Inr (withdrawn, om_insert underlying_denom m markets))))))))"

definition core_withdraw :: "lend_env \<Rightarrow> u128 \<Rightarrow> lend_state \<Rightarrow> coins \<Rightarrow> (coins \<times> (denom, market) omap) res" where
  "core_withdraw env now st cs = try_fold (withdraw_one env now st) (coins_new, []) cs"

definition scaled_debt_of :: "scaled_debts \<Rightarrow> denom \<Rightarrow> u256" where
  "scaled_debt_of debts d = (case map_of debts d of None \<Rightarrow> 0 | Some x \<Rightarrow> x)"

definition debts_of :: "lend_state \<Rightarrow> addr \<Rightarrow> scaled_debts" where
  "debts_of st a = (case map_of (ls_debts st) a of None \<Rightarrow> [] | Some ds \<Rightarrow> ds)"

definition borrow_one ::
    "lend_env \<Rightarrow> u128 \<Rightarrow> lend_state \<Rightarrow> scaled_debts \<times> (denom \<times> market) list \<Rightarrow> denom \<times> u128 \<Rightarrow>
     (scaled_debts \<times> (denom \<times> market) list) res" where
  "borrow_one env now st acc c =
     (let (scaled_debts, markets) = acc; (d, amount) = c in
      and_then (om_load (ls_markets st) d) (\<lambda>m.
      and_then (update_indices env now m) (\<lambda>m.
      and_then (into_scaled_debt amount m) (\<lambda>new_scaled_debt.
      and_then (dec_add 18 18 (scaled_debt_of scaled_debts d) new_scaled_debt) (\<lambda>added_scaled_debt.
      and_then (add_borrowed m added_scaled_debt) (\<lambda>m.
        Inr (om_insert d added_scaled_debt scaled_debts, markets @ [(d, m)])))))))"

definition core_borrow ::
    "lend_env \<Rightarrow> u128 \<Rightarrow> lend_state \<Rightarrow> addr \<Rightarrow> coins \<Rightarrow> (scaled_debts \<times> (denom \<times> market) list) res" where
  "core_borrow env now st sender cs = try_fold (borrow_one env now st) (debts_of st sender, []) cs"

definition repay_one ::
    "lend_env \<Rightarrow> u128 \<Rightarrow> lend_state \<Rightarrow> scaled_debts \<times> (denom \<times> market) list \<times> coins \<Rightarrow> denom \<times> u128 \<Rightarrow>
     (scaled_debts \<times> (denom \<times> market) list \<times> coins) res" where
  "repay_one env now st acc c =
     (let (scaled_debts, markets, refunds) = acc; (d, amount) = c in
      and_then (om_load (ls_markets st) d) (\<lambda>m.
      and_then (update_indices env now m) (\<lambda>m.
      (let scaled_debt = scaled_debt_of scaled_debts d in
      and_then (into_underlying_debt scaled_debt m) (\<lambda>debt.
      and_then
        (if debt < amount then
           and_then (checked_sub amount debt) (\<lambda>refund_amount.
           and_then (coins_insert refunds (mk_coin d refund_amount)) (\<lambda>refunds. Inr (refunds, debt)))
         else Inr (refunds, amount)) (\<lambda>(refunds, repaid).
      and_then
        (if repaid = debt then Inr (om_remove d scaled_debts)
         else and_then (into_scaled_debt repaid m) (\<lambda>repaid_debt_scaled.
           Inr (om_insert d (dec_saturating_sub 18 18 scaled_debt repaid_debt_scaled) scaled_debts))) (\<lambda>scaled_debts.
      and_then (checked_sub debt repaid) (\<lambda>debt_after.
      and_then (into_scaled_debt debt_after m) (\<lambda>debt_after_scaled.
      and_then (dec_sub 18 18 scaled_debt debt_after_scaled) (\<lambda>scaled_debt_diff.
      and_then (deduct_borrowed m scaled_debt_diff) (\<lambda>m.
        Inr (scaled_debts, markets @ [(d, m)], refunds))))))))))))"

definition core_repay ::
    "lend_env \<Rightarrow> u128 \<Rightarrow> lend_state \<Rightarrow> addr \<Rightarrow> coins \<Rightarrow> (scaled_debts \<times> (denom \<times> market) list \<times> coins) res" where
  "core_repay env now st sender cs = try_fold (repay_one env now st) (debts_of st sender, [], coins_new) cs"

subsection \<open>Messages (execute.rs)\<close>

text \<open>A message returns the new state, the messages it asks for, and its events.\<close>

type_synonym lend_result = "(lend_state \<times> lend_out list \<times> lend_event list) res"

definition lend_update_market ::
    "lend_env \<Rightarrow> u128 \<Rightarrow> denom \<Rightarrow> rate_model \<Rightarrow> market option \<Rightarrow> market res" where
  "lend_update_market env now d model maybe_market =
     (case maybe_market of
        Some m \<Rightarrow> and_then (update_indices env now m) (\<lambda>m. Inr (m\<lparr>mk_model := model\<rparr>))
      | None \<Rightarrow> market_new d model)"

definition lend_instantiate :: "(denom, rate_model) omap \<Rightarrow> lend_state res" where
  "lend_instantiate models =
     and_then (try_fold (\<lambda>ms (d, model).
         and_then (market_new d model) (\<lambda>m. Inr (om_insert d m ms))) [] models) (\<lambda>markets.
       Inr \<lparr>ls_markets = markets, ls_debts = []\<rparr>)"

definition lend_update_markets :: "lend_env \<Rightarrow> ctx \<Rightarrow> lend_state \<Rightarrow> (denom, rate_model) omap \<Rightarrow> lend_result" where
  "lend_update_markets env cx st updates =
     and_then (ensure (ctx_sender cx = le_owner env) (Bail ''only the owner can whitelist denoms'')) (\<lambda>_.
     and_then (try_fold (\<lambda>ms (d, model).
         may_update d (lend_update_market env (ctx_time cx) d model) ms) (ls_markets st) updates) (\<lambda>markets.
       Inr (st\<lparr>ls_markets := markets\<rparr>, [], [])))"

definition lend_deposit :: "lend_env \<Rightarrow> ctx \<Rightarrow> lend_state \<Rightarrow> lend_result" where
  "lend_deposit env cx st =
     and_then (core_deposit env (ctx_time cx) st (ctx_funds cx)) (\<lambda>(lp_tokens, markets).
       Inr (st\<lparr>ls_markets := save_markets markets (ls_markets st)\<rparr>, [LendMint (ctx_sender cx) lp_tokens], []))"

definition lend_withdraw :: "lend_env \<Rightarrow> ctx \<Rightarrow> lend_state \<Rightarrow> lend_result" where
  "lend_withdraw env cx st =
     and_then (core_withdraw env (ctx_time cx) st (ctx_funds cx)) (\<lambda>(withdrawn, markets).
       Inr (st\<lparr>ls_markets := save_markets markets (ls_markets st)\<rparr>,
         [LendBurn (ctx_contract cx) (ctx_funds cx), LendTransfer (ctx_sender cx) withdrawn], []))"

definition lend_borrow :: "lend_env \<Rightarrow> ctx \<Rightarrow> lend_state \<Rightarrow> coins \<Rightarrow> lend_result" where
  "lend_borrow env cx st cs =
     and_then (le_is_margin env (ctx_sender cx)) (\<lambda>is_margin.
     and_then (ensure is_margin (Bail ''only margin accounts can borrow and repay'')) (\<lambda>_.
     and_then (core_borrow env (ctx_time cx) st (ctx_sender cx) cs) (\<lambda>(debts, markets).
       Inr (st\<lparr>ls_markets := save_markets markets (ls_markets st),
               ls_debts := om_insert (ctx_sender cx) debts (ls_debts st)\<rparr>,
         [LendTransfer (ctx_sender cx) cs], [LendBorrowed (ctx_sender cx) cs]))))"

definition lend_repay :: "lend_env \<Rightarrow> ctx \<Rightarrow> lend_state \<Rightarrow> lend_result" where
  "lend_repay env cx st =
     and_then (core_repay env (ctx_time cx) st (ctx_sender cx) (ctx_funds cx)) (\<lambda>(scaled_debts, markets, refunds).
       Inr (st\<lparr>ls_markets := save_markets markets (ls_markets st),
               ls_debts := (if scaled_debts = [] then om_remove (ctx_sender cx) (ls_debts st)
                            else om_insert (ctx_sender cx) scaled_debts (ls_debts st))\<rparr>,
         (if coins_is_non_empty refunds then [LendTransfer (ctx_sender cx) refunds] else []),
         [LendRepaid (ctx_sender cx) (ctx_funds cx) refunds scaled_debts]))"

definition lend_claim_fees :: "lend_env \<Rightarrow> ctx \<Rightarrow> lend_state \<Rightarrow> lend_result" where
  "lend_claim_fees env cx st =
     and_then (try_fold (\<lambda>(coins_to_mint, markets) (d, m).
         and_then (update_indices env (ctx_time cx) m) (\<lambda>m.
         and_then (coins_insert coins_to_mint (mk_coin (mk_lp_denom m) (mk_fee m))) (\<lambda>coins_to_mint.
           Inr (coins_to_mint, markets @ [(d, reset_pending_protocol_fee m)]))))
       (coins_new, []) (ls_markets st)) (\<lambda>(coins_to_mint, markets).
       Inr (st\<lparr>ls_markets := save_markets markets (ls_markets st)\<rparr>,
         [LendMint (le_owner env) coins_to_mint], []))"

fun lend_execute :: "lend_env \<Rightarrow> ctx \<Rightarrow> lend_state \<Rightarrow> lend_msg \<Rightarrow> lend_result" where
  "lend_execute env cx st (LendUpdateMarkets updates) = lend_update_markets env cx st updates"
| "lend_execute env cx st LendDeposit = lend_deposit env cx st"
| "lend_execute env cx st LendWithdraw = lend_withdraw env cx st"
| "lend_execute env cx st (LendBorrow cs) = lend_borrow env cx st cs"
| "lend_execute env cx st LendRepay = lend_repay env cx st"
| "lend_execute env cx st LendClaimFees = lend_claim_fees env cx st"

subsection \<open>Queries (query.rs)\<close>

definition query_market :: "lend_env \<Rightarrow> u128 \<Rightarrow> lend_state \<Rightarrow> denom \<Rightarrow> market res" where
  "query_market env now st d = and_then (om_load (ls_markets st) d) (update_indices env now)"

definition query_markets ::
    "lend_env \<Rightarrow> u128 \<Rightarrow> lend_state \<Rightarrow> denom option \<Rightarrow> u32 option \<Rightarrow> (denom, market) omap res" where
  "query_markets env now st start_after limit =
     try_map (\<lambda>(d, m). and_then (update_indices env now m) (\<lambda>m. Inr (d, m)))
       (page start_after limit (ls_markets st))"

definition underlying_debts :: "lend_env \<Rightarrow> u128 \<Rightarrow> lend_state \<Rightarrow> scaled_debts \<Rightarrow> coins res" where
  "underlying_debts env now st scaled_debts =
     try_map (\<lambda>(d, scaled_debt).
       and_then (query_market env now st d) (\<lambda>m.
       and_then (into_underlying_debt scaled_debt m) (\<lambda>debt. Inr (d, debt)))) scaled_debts"

definition query_debt :: "lend_env \<Rightarrow> u128 \<Rightarrow> lend_state \<Rightarrow> addr \<Rightarrow> coins res" where
  "query_debt env now st account =
     and_then (om_load (ls_debts st) account) (underlying_debts env now st)"

definition query_debts ::
    "lend_env \<Rightarrow> u128 \<Rightarrow> lend_state \<Rightarrow> addr option \<Rightarrow> u32 option \<Rightarrow> (addr, coins) omap res" where
  "query_debts env now st start_after limit =
     try_map (\<lambda>(account, scaled_debts).
       and_then (underlying_debts env now st scaled_debts) (\<lambda>debts. Inr (account, debts)))
       (page start_after limit (ls_debts st))"

definition simulate_deposit :: "lend_env \<Rightarrow> u128 \<Rightarrow> lend_state \<Rightarrow> coins \<Rightarrow> coins res" where
  "simulate_deposit env now st cs = and_then (core_deposit env now st cs) (\<lambda>(lp_tokens, _). Inr lp_tokens)"

definition simulate_withdraw :: "lend_env \<Rightarrow> u128 \<Rightarrow> lend_state \<Rightarrow> coins \<Rightarrow> coins res" where
  "simulate_withdraw env now st cs = and_then (core_withdraw env now st cs) (\<lambda>(withdrawn, _). Inr withdrawn)"

end
