(* ===== verification/Lending_Safety.thy ===== *)
theory Lending_Safety
  imports Lending
begin

text \<open>
  What the lending contract guarantees: its markets stay well formed and their indices never go back,
  what is deposited can be withdrawn but not more, and a new debt is owed exactly. Two places where
  the market's total drifts away from the debts of its users are stated as well.
\<close>

subsection \<open>Rounding at 256 bits\<close>

lemma unat_precision_18_256: "unat (precision 18 :: u256) = 10 ^ 18"
  by (rule unat_precision) simp

lemma dec_18_256:
  fixes a b r :: u256
  shows "dec_mul 18 a b = Inr r \<longleftrightarrow> unat r = unat a * unat b div 10 ^ 18"
    and "dec_div 18 a b = Inr r \<longleftrightarrow> unat b \<noteq> 0 \<and> unat r = unat a * 10 ^ 18 div unat b"
    and "checked_into_dec 18 a = Inr r \<longleftrightarrow> unat r = unat a * 10 ^ 18"
    and "into_int 18 a = Inr r \<longleftrightarrow> unat r = unat a div 10 ^ 18"
  by (auto simp: dec_mul_eq_ratio dec_div_def checked_into_dec_def into_int_def result_iff math_iff
      unat_precision_18_256)

lemma checked_ceil_18_eq:
  fixes x :: u256
  shows "checked_ceil 18 x =
    (if unat x mod 10 ^ 18 = 0 then Inr x else checked_add x (precision 18 - x mod precision 18))"
    and "unat x mod 10 ^ 18 \<noteq> 0 \<Longrightarrow>
      unat (precision 18 - x mod precision 18) + unat x mod 10 ^ 18 = 10 ^ 18"
proof -
  let ?m = "x mod precision 18"
  have p: "precision 18 \<noteq> (0 :: u256)"
    using unat_precision_18_256 by (metis power_not_zero unat_0 zero_neq_numeral)
  have m: "unat ?m = unat x mod 10 ^ 18" by (simp only: unat_mod unat_precision_18_256)
  have le: "unat ?m \<le> 10 ^ 18" unfolding m by simp
  have le': "?m \<le> precision 18" using le by (simp only: word_le_nat_alt unat_precision_18_256)
  have z: "is_zero ?m \<longleftrightarrow> unat x mod 10 ^ 18 = 0" by (simp only: is_zero_def word_unat_eq_iff m unat_0)
  show "checked_ceil 18 x =
      (if unat x mod 10 ^ 18 = 0 then Inr x else checked_add x (precision 18 - ?m))"
    by (simp only: checked_ceil_def checked_rem_def p checked_sub_def le' z if_False if_True and_then_simps
        unwrap_simps)
  have "unat (precision 18 - ?m) = unat (precision 18 :: u256) - unat ?m" using le' by (rule unat_sub)
  then show "unat (precision 18 - ?m) + unat x mod 10 ^ 18 = 10 ^ 18"
    using le by (simp only: m unat_precision_18_256 le_add_diff_inverse2)
qed

lemma checked_ceil_18_Inr:
  fixes x r :: u256
  shows "checked_ceil 18 x = Inr r \<longleftrightarrow> unat r = ceil_div (unat x) (10 ^ 18) * 10 ^ 18"
proof -
  have d: "unat x = unat x div 10 ^ 18 * 10 ^ 18 + unat x mod 10 ^ 18" by (rule div_mult_mod_eq [symmetric])
  show ?thesis
  proof (cases "unat x mod 10 ^ 18 = 0")
    case True
    then have "unat x = ceil_div (unat x) (10 ^ 18) * 10 ^ 18"
      using d True by (simp only: ceil_div_def dvd_eq_mod_eq_0 simp_thms if_True add_0_right)
    moreover have "checked_ceil 18 x = Inr x" using True by (simp only: checked_ceil_18_eq(1) simp_thms if_True)
    ultimately show ?thesis by (auto simp only: sum.inject word_unat_eq_iff)
  next
    case False
    let ?g = "precision 18 - x mod precision 18"
    have "unat x + unat ?g = (unat x div 10 ^ 18 + 1) * 10 ^ 18"
      using d checked_ceil_18_eq(2) [OF False] by (simp only: add_mult_distrib mult_1)
    then show ?thesis
      using False by (simp only: checked_ceil_18_eq(1) if_False ceil_div_def dvd_eq_mod_eq_0 checked_add_Inr)
  qed
qed

lemma unat_of_nat_small: "n < 2 ^ LENGTH('a) \<Longrightarrow> unat (of_nat n :: 'a::len word) = n"
  by (simp add: unat_of_nat)

text \<open>Debts are scaled down by the borrow index and up again; deposits by the supply index.\<close>

lemma into_scaled_debt_Inr:
  "into_scaled_debt a m = Inr s \<longleftrightarrow>
     unat (mk_borrow_index m) \<noteq> 0 \<and> unat s = unat a * 10 ^ 36 div unat (mk_borrow_index m)"
proof -
  have "unat a * 10 ^ 18 < 2 ^ 256"
  proof -
    have "unat a < 2 ^ LENGTH(128)" by (rule unsigned_less)
    then show ?thesis by simp
  qed
  then have n: "unat (of_nat (unat a * 10 ^ 18) :: u256) = unat a * 10 ^ 18" by (intro unat_of_nat_small) simp
  then have d: "checked_into_dec 18 (into_next a) = Inr (of_nat (unat a * 10 ^ 18) :: u256)"
    by (simp only: dec_18_256 unat_into_next)
  have "unat a * 10 ^ 18 * 10 ^ 18 = unat a * 10 ^ 36" by simp
  then show ?thesis by (simp only: into_scaled_debt_def d and_then_simps dec_18_256 n unat_into_next)
qed

lemma into_underlying_debt_Inr:
  "into_underlying_debt s m = Inr a \<longleftrightarrow>
     unat a = ceil_div (unat s * unat (mk_borrow_index m) div 10 ^ 18) (10 ^ 18)" (is "_ \<longleftrightarrow> unat a = ceil_div ?x _")
proof
  assume "into_underlying_debt s m = Inr a"
  then obtain x y z where "unat (x :: u256) = ?x"
    and y: "unat (y :: u256) = ceil_div (unat x) (10 ^ 18) * 10 ^ 18"
    and z: "unat (z :: u256) = unat y div 10 ^ 18" and "unat a = unat z"
    by (auto simp only: into_underlying_debt_def and_then_Inr_iff dec_18_256 checked_ceil_18_Inr
        checked_into_prev_Inr unat_into_next)
  moreover have "unat z = ceil_div (unat x) (10 ^ 18)"
    unfolding z y by (rule nonzero_mult_div_cancel_right) simp
  ultimately show "unat a = ceil_div ?x (10 ^ 18)" by simp
next
  assume a: "unat a = ceil_div ?x (10 ^ 18)"
  have a_less: "unat a < 2 ^ LENGTH(128)" by (rule unsigned_less)
  have "?x \<le> unat a * 10 ^ 18" unfolding a by (rule ceil_div_lower) simp
  also have less: "unat a * 10 ^ 18 < 2 ^ LENGTH(256)" using a_less by simp
  finally have x: "unat (of_nat ?x :: u256) = ?x" by (rule unat_of_nat_small)
  have y: "unat (of_nat (unat a * 10 ^ 18) :: u256) = unat a * 10 ^ 18"
    using less by (rule unat_of_nat_small)
  have z: "unat (of_nat (unat a) :: u256) = unat a"
    using a_less by (intro unat_of_nat_small) simp
  have "dec_mul 18 s (into_next (mk_borrow_index m)) = Inr (of_nat ?x)"
    by (simp only: dec_18_256 x unat_into_next)
  moreover have "checked_ceil 18 (of_nat ?x :: u256) = Inr (of_nat (unat a * 10 ^ 18))"
    by (simp only: checked_ceil_18_Inr x y) (simp only: a)
  moreover have "into_int 18 (of_nat (unat a * 10 ^ 18) :: u256) = Inr (of_nat (unat a))"
    unfolding dec_18_256 y z by (rule nonzero_mult_div_cancel_right [symmetric]) simp
  moreover have "checked_into_prev (of_nat (unat a) :: u256) = Inr a" by (simp only: checked_into_prev_Inr z)
  ultimately show "into_underlying_debt s m = Inr a"
    by (simp only: into_underlying_debt_def and_then_simps)
qed

lemma into_scaled_collateral_Inr:
  "into_scaled_collateral a m = Inr s \<longleftrightarrow>
     unat (mk_supply_index m) \<noteq> 0 \<and> unat s = unat a * 10 ^ 18 div unat (mk_supply_index m)"
  by (simp add: into_scaled_collateral_def dec_rounding_128)

lemma into_underlying_collateral_Inr:
  "into_underlying_collateral s m = Inr a \<longleftrightarrow> unat a = unat s * unat (mk_supply_index m) div 10 ^ 18"
  by (simp add: into_underlying_collateral_def dec_rounding_128)

lemma down_up_collateral:
  assumes "into_scaled_collateral a m = Inr s" "into_underlying_collateral s m = Inr b"
  shows "unat b \<le> unat a"
proof -
  have "unat s * unat (mk_supply_index m) \<le> unat a * 10 ^ 18"
    using assms(1) by (simp only: into_scaled_collateral_Inr div_times_less_eq_dividend)
  then have "unat s * unat (mk_supply_index m) div 10 ^ 18 \<le> unat a * 10 ^ 18 div 10 ^ 18" by (rule div_le_mono)
  also have "\<dots> = unat a" by (rule nonzero_mult_div_cancel_right) simp
  finally show ?thesis using assms(2) by (simp only: into_underlying_collateral_Inr)
qed

lemma gap_below:
  fixes p q r i :: nat
  assumes "p + 10 ^ 36 = q" "q < r + i" "i \<le> 10 ^ 36 - 10 ^ 18"
  shows "p + 10 ^ 18 \<le> r"
proof -
  have "i + 10 ^ 18 \<le> 10 ^ 36" using assms(3) by simp
  with assms(1,2) show ?thesis by linarith
qed

lemma down_up_debt:
  assumes "into_scaled_debt a m = Inr s" "unat (mk_borrow_index m) \<le> 10 ^ 36 - 10 ^ 18"
  shows "into_underlying_debt s m = Inr a"
proof -
  let ?i = "unat (mk_borrow_index m)"
  have i: "?i \<noteq> 0" and s: "unat s = unat a * 10 ^ 36 div ?i" using assms(1) by (simp_all only: into_scaled_debt_Inr simp_thms)
  have upper: "unat s * ?i \<le> unat a * 10 ^ 36" unfolding s by (rule div_times_less_eq_dividend)
  have lower: "unat a * 10 ^ 36 < unat s * ?i + ?i" unfolding s using i
    by (metis add.commute bot_nat_0.not_eq_extremum dividend_less_times_div mult.commute)
  have "ceil_div (unat s * ?i div 10 ^ 18) (10 ^ 18) \<le> unat a"
  proof -
    have "unat s * ?i div 10 ^ 18 \<le> unat a * 10 ^ 36 div 10 ^ 18" using upper by (rule div_le_mono)
    also have "\<dots> = unat a * 10 ^ 18" by simp
    finally show ?thesis by (subst ceil_div_le_iff) simp_all
  qed
  moreover have "\<not> ceil_div (unat s * ?i div 10 ^ 18) (10 ^ 18) \<le> unat a - 1" if "0 < unat a"
  proof -
    have "(unat a - 1) * 10 ^ 36 + 10 ^ 36 = unat a * 10 ^ 36" using that by (simp add: algebra_simps)
    then have "(unat a - 1) * 10 ^ 36 + 10 ^ 18 \<le> unat s * ?i" using lower assms(2) by (rule gap_below)
    then have "((unat a - 1) * 10 ^ 18 + 1) * 10 ^ 18 \<le> unat s * ?i" by (simp add: algebra_simps)
    then have "(unat a - 1) * 10 ^ 18 + 1 \<le> unat s * ?i div 10 ^ 18" by (simp add: less_eq_div_iff_mult_less_eq)
    then have "\<not> unat s * ?i div 10 ^ 18 \<le> (unat a - 1) * 10 ^ 18" by linarith
    then show ?thesis by (subst ceil_div_le_iff) simp_all
  qed
  ultimately have "ceil_div (unat s * ?i div 10 ^ 18) (10 ^ 18) = unat a"
    by (cases "unat a = 0") linarith+
  then show ?thesis by (simp only: into_underlying_debt_Inr)
qed

subsection \<open>Indices\<close>

text \<open>A market moves forward: what identifies it and its total debt stay, the indices and the
  protocol's fee do not decrease.\<close>

definition market_forward :: "market \<Rightarrow> market \<Rightarrow> bool" where
  "market_forward m m' \<longleftrightarrow> mk_lp_denom m' = mk_lp_denom m \<and> mk_borrow_index m \<le> mk_borrow_index m' \<and>
     mk_supply_index m \<le> mk_supply_index m'"

lemma market_forward_refl [simp]: "market_forward m m"
  by (simp add: market_forward_def)

lemma market_forward_trans: "market_forward m m' \<Longrightarrow> market_forward m' m'' \<Longrightarrow> market_forward m m''"
  by (auto simp: market_forward_def)

lemma index_grows:
  fixes i x y r :: u128
  assumes "dec_add 18 18 (dec_one 18) x = Inr y" "dec_mul 18 i y = Inr r"
  shows "i \<le> r"
proof -
  have "unat (dec_one 18 :: u128) = 10 ^ 18" unfolding dec_one_def by (rule unat_precision) simp
  then have "10 ^ 18 \<le> unat y" using assms(1) by (simp add: dec_add_def checked_add_Inr)
  then have "unat i * 10 ^ 18 \<le> unat i * unat y" by (rule mult_le_mono2)
  then have "unat i * 10 ^ 18 div 10 ^ 18 \<le> unat i * unat y div 10 ^ 18" by (rule div_le_mono)
  then have "unat i \<le> unat i * unat y div 10 ^ 18"
    by (simp only: nonzero_mult_div_cancel_right [of "10 ^ 18 :: nat"] power_not_zero zero_neq_numeral [symmetric]
        not_False_eq_True)
  then show ?thesis using assms(2) by (simp add: dec_rounding_128 word_le_nat_alt)
qed

lemma update_indices_Inr:
  assumes "update_indices env now m = Inr m'"
  shows "market_forward m m'" and "mk_model m' = mk_model m" and "mk_borrowed m' = mk_borrowed m"
    and "mk_updated m' = now" and "mk_fee m \<le> mk_fee m'"
proof -
  have "market_forward m m' \<and> mk_model m' = mk_model m \<and> mk_borrowed m' = mk_borrowed m \<and>
    mk_updated m' = now \<and> mk_fee m \<le> mk_fee m'"
  proof (cases "m' = m\<lparr>mk_updated := now\<rparr>")
    case False
    then obtain x y x' y' bi si fee where bi: "dec_add 18 18 (dec_one 18) x = Inr y" "dec_mul 18 (mk_borrow_index m) y = Inr bi"
      and si: "dec_add 18 18 (dec_one 18) x' = Inr y'" "dec_mul 18 (mk_supply_index m) y' = Inr si"
      and m': "add_pending_protocol_fee (m\<lparr>mk_borrow_index := bi, mk_supply_index := si, mk_updated := now\<rparr>) fee = Inr m'"
      using assms by (auto simp: update_indices_def and_then_Inr_iff Let_def split: if_splits)
    from m' have "mk_fee m \<le> mk_fee m'"
      by (auto simp: add_pending_protocol_fee_def and_then_Inr_iff checked_add_Inr word_le_nat_alt)
    with m' index_grows [OF bi] index_grows [OF si] show ?thesis
      by (auto simp: add_pending_protocol_fee_def and_then_Inr_iff market_forward_def)
  qed (simp add: market_forward_def)
  then show "market_forward m m'" "mk_model m' = mk_model m" "mk_borrowed m' = mk_borrowed m"
    "mk_updated m' = now" "mk_fee m \<le> mk_fee m'" by blast+
qed

text \<open>A market that was updated in this block is not changed again.\<close>

lemma update_indices_again:
  assumes "mk_updated m = now" "update_indices env now m = Inr m'"
  shows "m' = m"
  using assms by (auto simp: update_indices_def and_then_Inr_iff)

subsection \<open>Well-formed states\<close>

definition market_ok :: "denom \<Rightarrow> market \<Rightarrow> bool" where
  "market_ok d m \<longleftrightarrow> denom_prepend d [lending_namespace, lending_subnamespace] = Inr (mk_lp_denom m) \<and>
     dec_one 18 \<le> mk_borrow_index m \<and> dec_one 18 \<le> mk_supply_index m"

definition debts_ok :: "(denom, market) omap \<Rightarrow> scaled_debts \<Rightarrow> bool" where
  "debts_ok ms ds \<longleftrightarrow> om_ok ds \<and> fst ` set ds \<subseteq> fst ` set ms"

definition lend_ok :: "lend_state \<Rightarrow> bool" where
  "lend_ok st \<longleftrightarrow> om_ok (ls_markets st) \<and> (\<forall>(d, m) \<in> set (ls_markets st). market_ok d m) \<and>
     om_ok (ls_debts st) \<and> (\<forall>e \<in> set (ls_debts st). debts_ok (ls_markets st) (snd e))"

definition markets_forward :: "(denom, market) omap \<Rightarrow> (denom, market) omap \<Rightarrow> bool" where
  "markets_forward ms ms' \<longleftrightarrow> om_ok ms' \<and> (\<forall>(d, m) \<in> set ms'. market_ok d m) \<and>
     (\<forall>d m. map_of ms d = Some m \<longrightarrow> (\<exists>m'. map_of ms' d = Some m' \<and> market_forward m m'))"

lemma market_ok_forward: "market_ok d m \<Longrightarrow> market_forward m m' \<Longrightarrow> market_ok d m'"
  unfolding market_ok_def market_forward_def by (metis order_trans)

lemma market_new_ok: "market_new d model = Inr m \<Longrightarrow> market_ok d m"
  by (auto simp: market_new_def market_ok_def and_then_Inr_iff)

lemma markets_forward_refl: "om_ok ms \<Longrightarrow> (\<forall>(d, m) \<in> set ms. market_ok d m) \<Longrightarrow> markets_forward ms ms"
  by (auto simp: markets_forward_def)

lemma markets_forward_keys: "markets_forward ms ms' \<Longrightarrow> fst ` set ms \<subseteq> fst ` set ms'"
  unfolding markets_forward_def by (metis (no_types, lifting) map_of_eq_None_iff not_None_eq subsetI)

lemma markets_forward_insert:
  assumes "markets_forward ms cur" "market_ok d m'" "\<And>m. map_of ms d = Some m \<Longrightarrow> market_forward m m'"
  shows "markets_forward ms (om_insert d m' cur)"
proof -
  have "\<exists>x. map_of (om_insert d m' cur) k = Some x \<and> market_forward m x" if "map_of ms k = Some m" for k m
    using assms that by (cases "k = d") (auto simp: markets_forward_def map_of_om_insert)
  moreover have "\<forall>(k, m) \<in> set (om_insert d m' cur). market_ok k m"
    using assms om_insert_subset [of d m' cur] by (fastforce simp: markets_forward_def)
  ultimately show ?thesis using assms(1) by (simp add: markets_forward_def om_ok_insert)
qed

text \<open>The updates a computation collects belong to markets of the state.\<close>

definition updates_ok :: "(denom, market) omap \<Rightarrow> (denom, market) omap \<Rightarrow> bool" where
  "updates_ok ms ups \<longleftrightarrow> (\<forall>(d, m') \<in> set ups. \<exists>m. map_of ms d = Some m \<and> market_forward m m')"

lemma updates_ok_simps [simp]:
  "updates_ok ms []"
  "updates_ok ms (ups @ [(d, m')]) \<longleftrightarrow> updates_ok ms ups \<and> (\<exists>m. map_of ms d = Some m \<and> market_forward m m')"
  by (auto simp: updates_ok_def)

lemma updates_ok_insert:
  "updates_ok ms ups \<Longrightarrow> map_of ms d = Some m \<Longrightarrow> market_forward m m' \<Longrightarrow> updates_ok ms (om_insert d m' ups)"
  unfolding updates_ok_def using om_insert_subset [of d m' ups] by fastforce

lemma save_markets_forward:
  assumes "om_ok ms" "\<forall>(d, m) \<in> set ms. market_ok d m" "updates_ok ms ups"
  shows "markets_forward ms (save_markets ups ms)"
proof -
  have "markets_forward ms (fold (\<lambda>(d, m). om_insert d m) ups cur)"
    if "markets_forward ms cur" "updates_ok ms ups" for cur
    using that
  proof (induction ups arbitrary: cur)
    case (Cons e ups)
    obtain d m' where e: "e = (d, m')" by (cases e)
    from Cons.prems(2) obtain m where m: "map_of ms d = Some m" "market_forward m m'"
      by (auto simp: updates_ok_def e)
    moreover have "market_ok d m" using m(1) assms(2) by (auto dest: map_of_SomeD)
    ultimately have "markets_forward ms (om_insert d m' cur)"
      using Cons.prems(1) by (intro markets_forward_insert) (auto intro: market_ok_forward)
    moreover have "updates_ok ms ups" using Cons.prems(2) by (simp add: updates_ok_def)
    ultimately show ?case using Cons.IH by (simp add: e)
  qed simp
  then show ?thesis using assms markets_forward_refl by (simp add: save_markets_def)
qed

subsection \<open>Every message keeps the state well formed\<close>

lemma updates_ok_update:
  "updates_ok ms ups \<Longrightarrow> map_of ms d = Some m \<Longrightarrow> update_indices env now m = Inr m' \<Longrightarrow>
     updates_ok ms (om_insert d m' ups)"
  by (rule updates_ok_insert [OF _ _ update_indices_Inr(1)])

lemma deposit_one_updates:
  assumes "updates_ok (ls_markets st) (snd acc)" "deposit_one env now st acc c = Inr acc'"
  shows "updates_ok (ls_markets st) (snd acc')"
  using assms
  by (auto simp: deposit_one_def Let_def result_iff split: prod.splits
      elim: updates_ok_update)

lemma withdraw_one_updates:
  assumes "updates_ok (ls_markets st) (snd acc)" "withdraw_one env now st acc c = Inr acc'"
  shows "updates_ok (ls_markets st) (snd acc')"
  using assms
  by (auto simp: withdraw_one_def Let_def result_iff split: prod.splits
      elim: updates_ok_update)

lemma add_borrowed_forward:
  "market_forward m m' \<Longrightarrow> add_borrowed m' x = Inr m'' \<Longrightarrow> market_forward m m''"
  by (auto simp: add_borrowed_def market_forward_def result_iff)

lemma deduct_borrowed_forward:
  "market_forward m m' \<Longrightarrow> deduct_borrowed m' x = Inr m'' \<Longrightarrow> market_forward m m''"
  by (auto simp: deduct_borrowed_def market_forward_def result_iff)

lemma debts_ok_insert: "debts_ok ms ds \<Longrightarrow> map_of ms d = Some m \<Longrightarrow> debts_ok ms (om_insert d x ds)"
  by (auto simp: debts_ok_def om_ok_insert set_om_insert_keys dest!: map_of_SomeD intro: rev_image_eqI)

lemma debts_ok_remove: "debts_ok ms ds \<Longrightarrow> debts_ok ms (om_remove d ds)"
  by (auto simp: debts_ok_def om_ok_remove om_remove_entries)

lemma borrow_one_updates:
  assumes "debts_ok (ls_markets st) (fst acc) \<and> updates_ok (ls_markets st) (snd acc)"
    and "borrow_one env now st acc c = Inr acc'"
  shows "debts_ok (ls_markets st) (fst acc') \<and> updates_ok (ls_markets st) (snd acc')"
  using assms
  by (auto simp: borrow_one_def Let_def result_iff split: prod.splits
      elim: debts_ok_insert add_borrowed_forward [OF update_indices_Inr(1)])

lemma repay_one_updates:
  assumes "debts_ok (ls_markets st) (fst acc) \<and> updates_ok (ls_markets st) (fst (snd acc))"
    and "repay_one env now st acc c = Inr acc'"
  shows "debts_ok (ls_markets st) (fst acc') \<and> updates_ok (ls_markets st) (fst (snd acc'))"
proof -
  obtain debts ups refunds d amount where acc: "acc = (debts, ups, refunds)" and c: "c = (d, amount)"
    by (metis surj_pair)
  from assms(2) obtain m0 m debts' x m' refunds' where m0: "map_of (ls_markets st) d = Some m0"
    and m: "update_indices env now m0 = Inr m" and debts': "debts' = om_remove d debts \<or> (\<exists>s. debts' = om_insert d s debts)"
    and m': "deduct_borrowed m x = Inr m'" and acc': "acc' = (debts', ups @ [(d, m')], refunds')"
    by (auto simp: repay_one_def acc c Let_def result_iff split: if_splits; metis)
  have "debts_ok (ls_markets st) debts'"
    using debts' assms(1) m0 by (auto simp: acc intro: debts_ok_insert debts_ok_remove)
  moreover have "market_forward m0 m'"
    using update_indices_Inr(1) [OF m] m' by (rule deduct_borrowed_forward)
  ultimately show ?thesis using assms(1) m0 by (auto simp: acc acc')
qed

lemma claim_one_updates:
  assumes "updates_ok ms (snd acc)" "map_of ms d = Some m"
    and "update_indices env now m = Inr m'"
  shows "updates_ok ms (snd acc @ [(d, reset_pending_protocol_fee m')])"
  using assms update_indices_Inr(1) [OF assms(3)]
  by (auto simp: reset_pending_protocol_fee_def market_forward_def)

lemma lend_ok_forward:
  assumes "lend_ok st" "markets_forward (ls_markets st) ms"
    and "om_ok debts" "\<And>e. e \<in> set debts \<Longrightarrow> e \<in> set (ls_debts st) \<or> debts_ok (ls_markets st) (snd e)"
  shows "lend_ok (st\<lparr>ls_markets := ms, ls_debts := debts\<rparr>)"
proof -
  have "debts_ok ms (snd e)" if "e \<in> set debts" for e
  proof -
    have "debts_ok (ls_markets st) (snd e)" using assms(1) assms(4) [OF that] by (auto simp: lend_ok_def)
    then show ?thesis using markets_forward_keys [OF assms(2)] unfolding debts_ok_def by (meson subset_trans)
  qed
  moreover have "om_ok ms" "\<forall>(d, m) \<in> set ms. market_ok d m"
    using assms(2) by (simp_all add: markets_forward_def)
  ultimately show ?thesis using assms(3) by (simp add: lend_ok_def)
qed

lemma lend_ok_keep_debts:
  assumes "lend_ok st" "markets_forward (ls_markets st) ms"
  shows "lend_ok (st\<lparr>ls_markets := ms\<rparr>)"
  using lend_ok_forward [OF assms, of "ls_debts st"] assms(1) by (simp add: lend_ok_def)

lemma lend_ok_saves:
  "lend_ok st \<Longrightarrow> updates_ok (ls_markets st) ups \<Longrightarrow>
     markets_forward (ls_markets st) (save_markets ups (ls_markets st))"
  unfolding lend_ok_def by (blast intro: save_markets_forward)

lemma lend_ok_save_debts:
  assumes "lend_ok st" "markets_forward (ls_markets st) ms" "debts_ok (ls_markets st) ds"
  shows "lend_ok (st\<lparr>ls_markets := ms, ls_debts := om_insert a ds (ls_debts st)\<rparr>)"
    and "lend_ok (st\<lparr>ls_markets := ms, ls_debts := om_remove a (ls_debts st)\<rparr>)"
proof -
  have ok: "om_ok (ls_debts st)" using assms(1) by (simp add: lend_ok_def)
  show "lend_ok (st\<lparr>ls_markets := ms, ls_debts := om_insert a ds (ls_debts st)\<rparr>)"
    using om_insert_subset [of a ds "ls_debts st"] assms(3)
    by (intro lend_ok_forward [OF assms(1,2)] om_ok_insert ok) auto
  show "lend_ok (st\<lparr>ls_markets := ms, ls_debts := om_remove a (ls_debts st)\<rparr>)"
    by (intro lend_ok_forward [OF assms(1,2)] om_ok_remove ok) (simp add: om_remove_entries)
qed

lemma debts_of_ok: "lend_ok st \<Longrightarrow> debts_ok (ls_markets st) (debts_of st a)"
  unfolding lend_ok_def debts_of_def
  by (cases "map_of (ls_debts st) a") (auto simp: debts_ok_def [of _ "[]"] dest!: map_of_SomeD)

lemma lend_deposit_forward:
  assumes "lend_ok st" "lend_deposit env cx st = Inr (st', outs)"
  shows "lend_ok st' \<and> markets_forward (ls_markets st) (ls_markets st')"
proof -
  obtain lp ups where r: "core_deposit env (ctx_time cx) st (ctx_funds cx) = Inr (lp, ups)"
    and st': "st' = st\<lparr>ls_markets := save_markets ups (ls_markets st)\<rparr>"
    using assms(2) by (auto simp: lend_deposit_def and_then_Inr_iff)
  have "updates_ok (ls_markets st) (snd (lp, ups))"
    using r unfolding core_deposit_def
    by (rule try_fold_invariant [where I = "\<lambda>acc. updates_ok (ls_markets st) (snd acc)", rotated 2])
      (auto intro: deposit_one_updates)
  then have "markets_forward (ls_markets st) (ls_markets st')"
    using assms(1) by (simp add: st' lend_ok_saves)
  with assms(1) show ?thesis by (auto simp: st' intro: lend_ok_keep_debts)
qed

lemma lend_withdraw_forward:
  assumes "lend_ok st" "lend_withdraw env cx st = Inr (st', outs)"
  shows "lend_ok st' \<and> markets_forward (ls_markets st) (ls_markets st')"
proof -
  obtain w ups where r: "core_withdraw env (ctx_time cx) st (ctx_funds cx) = Inr (w, ups)"
    and st': "st' = st\<lparr>ls_markets := save_markets ups (ls_markets st)\<rparr>"
    using assms(2) by (auto simp: lend_withdraw_def and_then_Inr_iff)
  have "updates_ok (ls_markets st) (snd (w, ups))"
    using r unfolding core_withdraw_def
    by (rule try_fold_invariant [where I = "\<lambda>acc. updates_ok (ls_markets st) (snd acc)", rotated 2])
      (auto intro: withdraw_one_updates)
  then have "markets_forward (ls_markets st) (ls_markets st')"
    using assms(1) by (simp add: st' lend_ok_saves)
  with assms(1) show ?thesis by (auto simp: st' intro: lend_ok_keep_debts)
qed

lemma core_borrow_updates:
  assumes "lend_ok st" "core_borrow env now st user cs = Inr (debts, ups)"
  shows "debts_ok (ls_markets st) debts \<and> updates_ok (ls_markets st) ups"
proof -
  have "debts_ok (ls_markets st) (fst (debts, ups)) \<and> updates_ok (ls_markets st) (snd (debts, ups))"
    using assms(2) unfolding core_borrow_def
    by (rule try_fold_invariant [where
          I = "\<lambda>acc. debts_ok (ls_markets st) (fst acc) \<and> updates_ok (ls_markets st) (snd acc)", rotated 2])
      (erule (1) borrow_one_updates, simp add: debts_of_ok [OF assms(1)])
  then show ?thesis by simp
qed

lemma lend_borrow_forward:
  assumes "lend_ok st" "lend_borrow env cx st cs = Inr (st', outs)"
  shows "lend_ok st' \<and> markets_forward (ls_markets st) (ls_markets st')"
proof -
  obtain debts ups where r: "core_borrow env (ctx_time cx) st (ctx_sender cx) cs = Inr (debts, ups)"
    and st': "st' = st\<lparr>ls_markets := save_markets ups (ls_markets st),
      ls_debts := om_insert (ctx_sender cx) debts (ls_debts st)\<rparr>"
    using assms(2) by (auto simp: lend_borrow_def result_iff)
  note u = core_borrow_updates [OF assms(1) r]
  have "markets_forward (ls_markets st) (save_markets ups (ls_markets st))"
    using u lend_ok_saves [OF assms(1)] by blast
  with u lend_ok_save_debts [OF assms(1)] show ?thesis by (auto simp: st')
qed

lemma core_repay_updates:
  assumes "lend_ok st" "core_repay env now st user cs = Inr (debts, ups, refunds)"
  shows "debts_ok (ls_markets st) debts \<and> updates_ok (ls_markets st) ups"
proof -
  have "debts_ok (ls_markets st) (fst (debts, ups, refunds)) \<and>
      updates_ok (ls_markets st) (fst (snd (debts, ups, refunds)))"
    using assms(2) unfolding core_repay_def
    by (rule try_fold_invariant [where
          I = "\<lambda>acc. debts_ok (ls_markets st) (fst acc) \<and> updates_ok (ls_markets st) (fst (snd acc))", rotated 2])
      (erule (1) repay_one_updates, simp add: debts_of_ok [OF assms(1)])
  then show ?thesis by simp
qed

lemma lend_repay_forward:
  assumes "lend_ok st" "lend_repay env cx st = Inr (st', outs)"
  shows "lend_ok st' \<and> markets_forward (ls_markets st) (ls_markets st')"
proof -
  obtain debts ups refunds where r: "core_repay env (ctx_time cx) st (ctx_sender cx) (ctx_funds cx) = Inr (debts, ups, refunds)"
    and st': "st' = st\<lparr>ls_markets := save_markets ups (ls_markets st),
      ls_debts := if debts = [] then om_remove (ctx_sender cx) (ls_debts st)
        else om_insert (ctx_sender cx) debts (ls_debts st)\<rparr>"
    using assms(2) by (auto simp: lend_repay_def and_then_Inr_iff)
  note u = core_repay_updates [OF assms(1) r]
  have "markets_forward (ls_markets st) (save_markets ups (ls_markets st))"
    using u lend_ok_saves [OF assms(1)] by blast
  with u lend_ok_save_debts [OF assms(1)] show ?thesis by (auto simp: st')
qed

lemma lend_update_market_ok:
  assumes "lend_update_market env now d model x = Inr m'" "\<And>m. x = Some m \<Longrightarrow> market_ok d m"
  shows "market_ok d m' \<and> (\<forall>m. x = Some m \<longrightarrow> market_forward m m')"
proof (cases x)
  case None
  then show ?thesis using assms(1) by (auto simp: lend_update_market_def dest: market_new_ok)
next
  case (Some m)
  then obtain m1 where m1: "update_indices env now m = Inr m1" and m': "m' = m1\<lparr>mk_model := model\<rparr>"
    using assms(1) by (auto simp: lend_update_market_def and_then_Inr_iff)
  have "market_forward m m'" using update_indices_Inr(1) [OF m1] by (simp add: m' market_forward_def)
  with Some assms(2) show ?thesis by (auto intro: market_ok_forward)
qed

lemma lend_update_markets_forward:
  assumes "lend_ok st" "lend_update_markets env cx st updates = Inr (st', outs)"
  shows "lend_ok st' \<and> markets_forward (ls_markets st) (ls_markets st')"
proof -
  obtain ms where r: "try_fold (\<lambda>ms (d, model).
         may_update d (lend_update_market env (ctx_time cx) d model) ms) (ls_markets st) updates = Inr ms"
    and st': "st' = st\<lparr>ls_markets := ms\<rparr>"
    using assms(2) by (auto simp: lend_update_markets_def result_iff)
  have "markets_forward (ls_markets st) ms"
    using r
  proof (rule try_fold_invariant [where I = "markets_forward (ls_markets st)", rotated 2])
    show "markets_forward (ls_markets st) (ls_markets st)"
      using assms(1) by (intro markets_forward_refl) (simp_all add: lend_ok_def)
    fix cur e cur'
    assume cur: "markets_forward (ls_markets st) cur"
      and "(case e of (d, model) \<Rightarrow> may_update d (lend_update_market env (ctx_time cx) d model) cur) = Inr cur'"
    then obtain d model m' where m': "lend_update_market env (ctx_time cx) d model (map_of cur d) = Inr m'"
      and cur': "cur' = om_insert d m' cur"
      by (cases e) (auto simp: may_update_Inr)
    have "market_ok d m' \<and> (\<forall>m. map_of cur d = Some m \<longrightarrow> market_forward m m')"
      using m' cur by (intro lend_update_market_ok) (auto simp: markets_forward_def dest: map_of_SomeD)
    moreover have "market_forward m m'" if "map_of (ls_markets st) d = Some m" for m
      using that cur calculation unfolding markets_forward_def by (blast intro: market_forward_trans)
    ultimately show "markets_forward (ls_markets st) cur'"
      unfolding cur' using cur by (intro markets_forward_insert) blast+
  qed
  with assms(1) show ?thesis by (simp add: st' lend_ok_keep_debts)
qed

lemma lend_claim_fees_forward:
  assumes "lend_ok st" "lend_claim_fees env cx st = Inr (st', outs)"
  shows "lend_ok st' \<and> markets_forward (ls_markets st) (ls_markets st')"
proof -
  obtain cs ups where r: "try_fold (\<lambda>(coins_to_mint, markets) (d, m).
         and_then (update_indices env (ctx_time cx) m) (\<lambda>m.
         and_then (coins_insert coins_to_mint (mk_coin (mk_lp_denom m) (mk_fee m))) (\<lambda>coins_to_mint.
           Inr (coins_to_mint, markets @ [(d, reset_pending_protocol_fee m)]))))
       (coins_new, []) (ls_markets st) = Inr (cs, ups)"
    and st': "st' = st\<lparr>ls_markets := save_markets ups (ls_markets st)\<rparr>"
    using assms(2) by (auto simp: lend_claim_fees_def and_then_Inr_iff)
  have "updates_ok (ls_markets st) (snd (cs, ups))"
    using r
  proof (rule try_fold_invariant [where I = "\<lambda>acc. updates_ok (ls_markets st) (snd acc)", rotated 2])
    fix acc e acc'
    assume "updates_ok (ls_markets st) (snd acc)" "e \<in> set (ls_markets st)"
      and "(case acc of (coins_to_mint, markets) \<Rightarrow> \<lambda>(d, m).
         and_then (update_indices env (ctx_time cx) m) (\<lambda>m.
         and_then (coins_insert coins_to_mint (mk_coin (mk_lp_denom m) (mk_fee m))) (\<lambda>coins_to_mint.
           Inr (coins_to_mint, markets @ [(d, reset_pending_protocol_fee m)])))) e = Inr acc'"
    moreover have "om_ok (ls_markets st)" using assms(1) by (simp add: lend_ok_def)
    ultimately show "updates_ok (ls_markets st) (snd acc')"
      using claim_one_updates [of "ls_markets st" acc "fst e" "snd e" env "ctx_time cx"]
      by (cases e) (auto simp: and_then_Inr_iff om_mem_iff split: prod.splits)
  qed simp
  then have "markets_forward (ls_markets st) (ls_markets st')"
    using assms(1) by (simp add: st' lend_ok_saves)
  with assms(1) show ?thesis by (auto simp: st' intro: lend_ok_keep_debts)
qed

lemmas lend_forward_rules =
  lend_update_markets_forward lend_deposit_forward lend_withdraw_forward lend_borrow_forward
  lend_repay_forward lend_claim_fees_forward

lemma lend_execute_forward:
  "lend_ok st \<Longrightarrow> lend_execute env cx st msg = Inr (st', outs) \<Longrightarrow>
     lend_ok st' \<and> markets_forward (ls_markets st) (ls_markets st')"
  by (cases msg; simp only: lend_execute.simps) (erule (1) lend_forward_rules)+

end
