(* ===== verification/Lending_Deposits.thy ===== *)
theory Lending_Deposits
  imports Lending_Safety
begin

text \<open>
  Deposits and withdrawals of the lending contract together: what a depositor gets back in the same
  block is never more than what was put in, whatever the coins and whatever others deposited.
\<close>

definition coin_sum :: "denom \<Rightarrow> (denom \<times> u128) list \<Rightarrow> nat" where
  "coin_sum d cs = (\<Sum>(k, v) \<leftarrow> cs. if k = d then unat v else 0)"

lemma coin_sum_simps [simp]:
  "coin_sum d [] = 0" "coin_sum d ((k, v) # cs) = (if k = d then unat v else 0) + coin_sum d cs"
  by (simp_all add: coin_sum_def)

lemma coin_sum_amount_of: "om_ok cs \<Longrightarrow> coin_sum d cs = unat (amount_of cs d)"
  using sum_coins_iter [of cs d]
  by (simp add: coin_sum_def coins_iter_def comp_def case_prod_unfold mk_coin_def cong: if_cong)

definition pool_token :: "denom \<Rightarrow> denom" where
  "pool_token d = [lending_namespace, lending_subnamespace] @ d"

lemma market_ok_pool_token: "market_ok d m \<Longrightarrow> mk_lp_denom m = pool_token d"
  by (simp add: market_ok_def denom_prepend_strip pool_token_def)

lemma strip_pool_token:
  assumes "denom_strip k [lending_namespace, lending_subnamespace] = Inr (Some d)"
  shows "k = pool_token d"
proof -
  from assms have z: "list_all (\<lambda>(a, b). a = b) (zip k [lending_namespace, lending_subnamespace])"
    and l: "2 \<le> length k" and d: "d = drop 2 k"
    by (auto simp: denom_strip_def numeral_2_eq_2 split: if_splits)
  from l obtain x y k' where "k = x # y # k'" by (metis Suc_le_length_iff numeral_2_eq_2)
  with z d show ?thesis by (simp add: pool_token_def)
qed

text \<open>The supply index of a market at a time, as a number.\<close>

definition supply_index_at :: "lend_env \<Rightarrow> u128 \<Rightarrow> lend_state \<Rightarrow> denom \<Rightarrow> nat" where
  "supply_index_at env now st d =
     (case query_market env now st d of Inr m \<Rightarrow> unat (mk_supply_index m) | Inl _ \<Rightarrow> 0)"

lemma supply_index_at_eq:
  "map_of (ls_markets st) d = Some m \<Longrightarrow> update_indices env now m = Inr m' \<Longrightarrow>
     supply_index_at env now st d = unat (mk_supply_index m')"
  by (simp add: supply_index_at_def query_market_def om_load_def)

text \<open>While the deposit runs, the tokens minted so far are worth at most the coins read so far.\<close>

definition deposit_inv :: "lend_env \<Rightarrow> u128 \<Rightarrow> lend_state \<Rightarrow> coins \<times> (denom, market) omap \<Rightarrow> bool" where
  "deposit_inv env now st acc \<longleftrightarrow> coins_ok (fst acc) \<and> om_ok (snd acc) \<and>
     (\<forall>(d, m') \<in> set (snd acc). \<exists>m. map_of (ls_markets st) d = Some m \<and> update_indices env now m = Inr m') \<and>
     (\<forall>d. amount_of (fst acc) (pool_token d) \<noteq> 0 \<longrightarrow> d \<in> fst ` set (snd acc))"

lemma deposit_one_Inr:
  assumes "lend_ok st" "deposit_inv env now st acc" "deposit_one env now st acc (k, a) = Inr acc'"
  shows "deposit_inv env now st acc'"
    and "unat (amount_of (fst acc') (pool_token d)) * supply_index_at env now st d \<le>
      unat (amount_of (fst acc) (pool_token d)) * supply_index_at env now st d + coin_sum d [(k, a)] * 10 ^ 18"
proof -
  obtain lp ups where acc: "acc = (lp, ups)" by (cases acc)
  from assms(3) obtain m m' s lp' where m: "map_of (ls_markets st) k = Some m" "update_indices env now m = Inr m'"
    and s: "into_scaled_collateral a m' = Inr s" and lp': "coins_insert lp (mk_coin (mk_lp_denom m') s) = Inr lp'"
    and acc': "acc' = (lp', om_insert k m' ups)"
    by (auto simp: deposit_one_def acc result_iff)
  have "market_ok k m" using assms(1) m(1) by (auto simp: lend_ok_def dest: map_of_SomeD)
  then have lpd: "mk_lp_denom m' = pool_token k"
    using update_indices_Inr(1) [OF m(2)] market_ok_forward market_ok_pool_token by blast
  have lp_ok: "coins_ok lp" using assms(2) by (simp add: deposit_inv_def acc)
  note lp2 = coins_insert_Inr [OF lp_ok lp']
  have am: "unat (amount_of lp' (pool_token d)) =
      unat (amount_of lp (pool_token d)) + (if d = k then unat s else 0)" for d
    using lp2(2) [of "pool_token d"] by (simp add: lpd) (simp add: pool_token_def)
  have keys: "fst ` set (om_insert k m' ups) = insert k (fst ` set ups)" by (rule set_om_insert_keys)
  have "amount_of lp' (pool_token d) \<noteq> 0 \<longrightarrow> d \<in> fst ` set (om_insert k m' ups)" for d
    using am [of d] assms(2) unfolding keys
    by (cases "d = k") (auto simp: deposit_inv_def acc word_unat_eq_iff)
  moreover have "\<forall>(d, m') \<in> insert (k, m') (set ups).
      \<exists>m. map_of (ls_markets st) d = Some m \<and> update_indices env now m = Inr m'"
    using assms(2) m by (simp add: deposit_inv_def acc)
  then have "\<forall>(d, m') \<in> set (om_insert k m' ups).
      \<exists>m. map_of (ls_markets st) d = Some m \<and> update_indices env now m = Inr m'"
    using om_insert_subset [of k m' ups] by (meson subsetD)
  ultimately show "deposit_inv env now st acc'"
    using assms(2) lp2(1) by (simp add: deposit_inv_def acc acc' om_ok_insert)
  have "unat s * supply_index_at env now st k \<le> unat a * 10 ^ 18"
    using s by (simp only: supply_index_at_eq [OF m] into_scaled_collateral_Inr div_times_less_eq_dividend)
  then show "unat (amount_of (fst acc') (pool_token d)) * supply_index_at env now st d \<le>
      unat (amount_of (fst acc) (pool_token d)) * supply_index_at env now st d + coin_sum d [(k, a)] * 10 ^ 18"
    by (auto simp: acc acc' am add_mult_distrib)
qed

lemma core_deposit_Inr:
  assumes "lend_ok st" "core_deposit env now st cs = Inr (lp, ups)"
  shows "deposit_inv env now st (lp, ups)"
    and "unat (amount_of lp (pool_token d)) * supply_index_at env now st d \<le> coin_sum d cs * 10 ^ 18"
proof -
  let ?v = "\<lambda>acc. unat (amount_of (fst acc) (pool_token d)) * supply_index_at env now st d"
  have step: "deposit_inv env now st acc' \<and> ?v acc' \<le> ?v acc + coin_sum d cs * 10 ^ 18"
    if "deposit_inv env now st acc" "try_fold (deposit_one env now st) acc cs = Inr acc'" for acc acc'
    using that
  proof (induction cs arbitrary: acc)
    case (Cons c cs)
    obtain k a where c: "c = (k, a)" by (cases c)
    from Cons.prems(2) obtain acc1 where a1: "deposit_one env now st acc (k, a) = Inr acc1"
      and rest: "try_fold (deposit_one env now st) acc1 cs = Inr acc'"
      by (auto simp: c and_then_Inr_iff)
    note one = deposit_one_Inr [OF assms(1) Cons.prems(1) a1]
    from Cons.IH [OF one(1) rest] one(2) [of d] show ?case by (simp add: c add_mult_distrib)
  qed simp
  have "deposit_inv env now st (coins_new, [])"
    by (simp add: deposit_inv_def coins_new_def coins_ok_def amount_of_def)
  from step [OF this assms(2) [unfolded core_deposit_def]]
  show "deposit_inv env now st (lp, ups)"
    and "unat (amount_of lp (pool_token d)) * supply_index_at env now st d \<le> coin_sum d cs * 10 ^ 18"
    by (simp_all add: coins_new_def amount_of_def)
qed

text \<open>A withdrawal pays at most what the tokens it reads are worth.\<close>

lemma withdraw_one_Inr:
  assumes "coins_ok (fst acc)" "withdraw_one env now st acc (k, s) = Inr acc'"
  shows "coins_ok (fst acc')"
    and "unat (amount_of (fst acc') d) * 10 ^ 18 \<le>
      unat (amount_of (fst acc) d) * 10 ^ 18 + coin_sum (pool_token d) [(k, s)] * supply_index_at env now st d"
proof -
  obtain w ups where acc: "acc = (w, ups)" by (cases acc)
  from assms(2) obtain u m m' x w' where u: "denom_strip k [lending_namespace, lending_subnamespace] = Inr (Some u)"
    and m: "map_of (ls_markets st) u = Some m" "update_indices env now m = Inr m'"
    and x: "into_underlying_collateral s m' = Inr x" and w': "coins_insert w (mk_coin u x) = Inr w'"
    and acc': "acc' = (w', om_insert u m' ups)"
    by (auto simp: withdraw_one_def acc result_iff)
  have w_ok: "coins_ok w" using assms(1) by (simp add: acc)
  note w2 = coins_insert_Inr [OF w_ok w']
  show "coins_ok (fst acc')" using w2(1) by (simp add: acc')
  have "unat x * 10 ^ 18 \<le> unat s * supply_index_at env now st u"
    using x by (simp only: supply_index_at_eq [OF m] into_underlying_collateral_Inr div_times_less_eq_dividend)
  then show "unat (amount_of (fst acc') d) * 10 ^ 18 \<le>
      unat (amount_of (fst acc) d) * 10 ^ 18 + coin_sum (pool_token d) [(k, s)] * supply_index_at env now st d"
    by (auto simp: acc acc' w2(2) strip_pool_token [OF u] add_mult_distrib pool_token_def)
qed

lemma core_withdraw_Inr:
  assumes "core_withdraw env now st cs = Inr (w, ups)"
  shows "unat (amount_of w d) * 10 ^ 18 \<le> coin_sum (pool_token d) cs * supply_index_at env now st d"
proof -
  let ?v = "\<lambda>acc. unat (amount_of (fst acc) d) * 10 ^ 18"
  have "?v acc' \<le> ?v acc + coin_sum (pool_token d) cs * supply_index_at env now st d"
    if "coins_ok (fst acc)" "try_fold (withdraw_one env now st) acc cs = Inr acc'" for acc acc'
    using that
  proof (induction cs arbitrary: acc)
    case (Cons c cs)
    obtain k s where c: "c = (k, s)" by (cases c)
    from Cons.prems(2) obtain acc1 where a1: "withdraw_one env now st acc (k, s) = Inr acc1"
      and rest: "try_fold (withdraw_one env now st) acc1 cs = Inr acc'"
      by (auto simp: c and_then_Inr_iff)
    note one = withdraw_one_Inr [OF Cons.prems(1) a1]
    from Cons.IH [OF one(1) rest] one(2) [of d] show ?case by (simp add: c add_mult_distrib)
  qed simp
  from this [of "(coins_new, [])" "(w, ups)"] assms show ?thesis
    by (simp add: core_withdraw_def coins_new_def coins_ok_def amount_of_def)
qed

lemma save_markets_lookup:
  assumes "om_ok ups" "om_ok ms"
  shows "map_of (save_markets ups ms) d = (case map_of ups d of None \<Rightarrow> map_of ms d | Some m \<Rightarrow> Some m)"
  using assms
proof (induction ups arbitrary: ms)
  case (Cons e ups)
  obtain k m where e: "e = (k, m)" by (cases e)
  from Cons.prems(1) have ok: "om_ok ups" and none: "map_of ups k = None"
    by (auto simp: e om_ok_Cons intro!: map_of_notin)
  from Cons.IH [OF ok, of "om_insert k m ms"] none Cons.prems(2) show ?case
    by (auto simp: e save_markets_def map_of_om_insert om_ok_insert split: option.splits)
qed (simp add: save_markets_def)

lemma deposit_then_withdraw:
  assumes st: "lend_ok st" and dep: "core_deposit env now st cs = Inr (lp, ups)"
    and st1: "st1 = st\<lparr>ls_markets := save_markets ups (ls_markets st)\<rparr>"
    and wd: "core_withdraw env' now st1 lp = Inr (w, ups')" and cs: "coins_ok cs"
  shows "unat (amount_of w d) \<le> unat (amount_of cs d)"
proof -
  note inv = core_deposit_Inr(1) [OF st dep]
  have lp_ok: "coins_ok lp" and ups_ok: "om_ok ups" using inv by (simp_all add: deposit_inv_def)
  have ms_ok: "om_ok (ls_markets st)" using st by (simp add: lend_ok_def)
  let ?a = "unat (amount_of lp (pool_token d))"
  have "?a * supply_index_at env' now st1 d \<le> ?a * supply_index_at env now st d"
  proof (cases "amount_of lp (pool_token d) = 0")
    case False
    then obtain m' where m': "(d, m') \<in> set ups" using inv by (auto simp: deposit_inv_def)
    then obtain m where m: "map_of (ls_markets st) d = Some m" "update_indices env now m = Inr m'"
      using inv by (auto simp: deposit_inv_def)
    have "map_of ups d = Some m'" using m' ups_ok by (simp add: om_mem_iff)
    then have st1_m: "map_of (ls_markets st1) d = Some m'"
      using ups_ok ms_ok by (simp add: st1 save_markets_lookup)
    have "supply_index_at env' now st1 d \<le> unat (mk_supply_index m')"
    proof (cases "update_indices env' now m'")
      case (Inr m'')
      then have "m'' = m'" using update_indices_Inr(4) [OF m(2)] by (intro update_indices_again)
      with supply_index_at_eq [OF st1_m Inr] show ?thesis by simp
    qed (simp add: supply_index_at_def query_market_def om_load_def st1_m)
    then show ?thesis by (simp add: supply_index_at_eq [OF m])
  qed simp
  also have "\<dots> \<le> coin_sum d cs * 10 ^ 18" by (rule core_deposit_Inr(2) [OF st dep])
  finally have "unat (amount_of w d) * 10 ^ 18 \<le> coin_sum d cs * 10 ^ 18"
    using core_withdraw_Inr [OF wd, of d] lp_ok by (simp add: coin_sum_amount_of coins_ok_def)
  then show ?thesis using cs by (simp add: coin_sum_amount_of coins_ok_def)
qed

subsection \<open>A worked example\<close>

text \<open>One market, four coins supplied by others, and a rate of a half at half utilization: two coins are
  borrowed, a year later one is repaid, and then the rest.\<close>

definition ex_model :: rate_model where
  "ex_model = \<lparr>rm_base_rate = 250000000000000000, rm_optimal_utilization = 500000000000000000,
     rm_first_slope = 250000000000000000, rm_second_slope = 250000000000000000, rm_reserve_factor = 0\<rparr>"

definition ex_lend_env :: lend_env where
  "ex_lend_env = \<lparr>le_owner = 1, le_supply = \<lambda>_. Inr 4, le_is_margin = \<lambda>_. Inr True\<rparr>"

definition ex_lend_ctx :: "coins \<Rightarrow> u128 \<Rightarrow> ctx" where
  "ex_lend_ctx funds time =
     \<lparr>ctx_contract = 5, ctx_sender = 7, ctx_funds = funds, ctx_time = time, ctx_height = 1\<rparr>"

definition ex_market :: "u256 \<Rightarrow> udec \<Rightarrow> udec \<Rightarrow> u128 \<Rightarrow> market" where
  "ex_market borrowed bi si time =
     \<lparr>mk_lp_denom = [''lending'', ''pool'', ''d''], mk_model = ex_model, mk_borrowed = borrowed,
       mk_borrow_index = bi, mk_supply_index = si, mk_updated = time, mk_fee = 0\<rparr>"

definition ex_lend_state :: "market \<Rightarrow> (addr, scaled_debts) omap \<Rightarrow> lend_state" where
  "ex_lend_state m debts = \<lparr>ls_markets = [([''d''], m)], ls_debts = debts\<rparr>"

lemmas ex_lend_simps = ex_model_def ex_lend_env_def ex_lend_ctx_def ex_market_def ex_lend_state_def

lemmas lend_eval =
  om_load_def update_indices_def total_supplied_def total_borrowed_def utilization_rate_def calculate_rates_def
  into_underlying_collateral_def into_scaled_collateral_def into_scaled_debt_def into_underlying_debt_def
  checked_into_dec_def debts_of_def scaled_debt_of_def add_borrowed_def deduct_borrowed_def
  add_pending_protocol_fee_def dec_add_def dec_sub_def dec_saturating_sub_def save_markets_def duration_sub_def
  into_seconds_def seconds_per_year_def dec_eval dec_div_def dec_mul_eq_ratio Let_def into_next_def
  checked_mul_def checked_div_def checked_rem_def checked_ceil_def into_int_def checked_into_prev_def

subsection \<open>Properties\<close>

text \<open>C19: Depositing and withdrawing in the same block is never profitable: whoever gives the lending
  contract coins and hands back all the liquidity tokens minted for them, in the state the deposit
  left and whatever the token supplies are reported to be, receives of every denom at most what was
  deposited, and the deposit keeps the state well formed.\<close>

theorem lending_deposit_not_profitable:
  assumes "lend_ok st" "coins_ok (ctx_funds cx)"
    and "lend_deposit env cx st = Inr (st1, [LendMint user lp], evs)"
    and "lend_withdraw env' cx' st1 = Inr (st2, [LendBurn self burned, LendTransfer user' withdrawn], evs')"
    and "ctx_funds cx' = lp" "ctx_time cx' = ctx_time cx"
  shows "lend_ok st1 \<and> user = ctx_sender cx \<and> user' = ctx_sender cx' \<and> burned = lp \<and>
    unat (amount_of withdrawn d) \<le> unat (amount_of (ctx_funds cx) d)"
proof -
  from assms(3) obtain ups where dep: "core_deposit env (ctx_time cx) st (ctx_funds cx) = Inr (lp, ups)"
    and st1: "st1 = st\<lparr>ls_markets := save_markets ups (ls_markets st)\<rparr>" and u: "user = ctx_sender cx"
    by (auto simp: lend_deposit_def and_then_Inr_iff)
  from assms(4-6) obtain ups' where wd: "core_withdraw env' (ctx_time cx) st1 lp = Inr (withdrawn, ups')"
    and u': "user' = ctx_sender cx'" "burned = lp"
    by (auto simp: lend_withdraw_def and_then_Inr_iff)
  from deposit_then_withdraw [OF assms(1) dep st1 wd assms(2)] lend_deposit_forward [OF assms(1,3)] u u'
  show ?thesis by blast
qed

text \<open>At a supply index of one and a quarter, seven coins become five tokens, which are worth six.\<close>

theorem lending_deposit_not_profitable_witness:
  "\<exists>st1 st2 w.
     lend_deposit ex_lend_env (ex_lend_ctx [([''d''], 7)] 1000)
         (ex_lend_state (ex_market 0 1000000000000000000 1250000000000000000 1000) []) =
       Inr (st1, [LendMint 7 [([''lending'', ''pool'', ''d''], 5)]], []) \<and>
     lend_withdraw ex_lend_env (ex_lend_ctx [([''lending'', ''pool'', ''d''], 5)] 1000) st1 =
       Inr (st2, [LendBurn 5 [([''lending'', ''pool'', ''d''], 5)], LendTransfer 7 w], []) \<and>
     w = [([''d''], 6)] \<and> unat (amount_of w [''d'']) \<le> 7"
proof -
  let ?st = "ex_lend_state (ex_market 0 1000000000000000000 1250000000000000000 1000) []"
  have "denom_prepend [''d''] [lending_namespace, lending_subnamespace] = Inr [''lending'', ''pool'', ''d'']"
    by (simp add: denom_prepend_strip lending_namespace_def lending_subnamespace_def valid_denom_def valid_part_def
        denom_len_def is_ascii_alphanumeric_def)
  then have ok: "lend_ok ?st"
    by (simp add: lend_ok_def market_ok_def ex_lend_state_def ex_market_def om_ok_def dec_eval)
  have strip: "denom_strip [''lending'', ''pool'', ''d''] [lending_namespace, lending_subnamespace] = Inr (Some [''d''])"
    by (simp add: denom_strip_def lending_namespace_def lending_subnamespace_def)
  have dep: "lend_deposit ex_lend_env (ex_lend_ctx [([''d''], 7)] 1000) ?st =
      Inr (?st, [LendMint 7 [([''lending'', ''pool'', ''d''], 5)]], [])"
    by (simp add: lend_deposit_def core_deposit_def deposit_one_def ex_lend_simps lend_eval coins_insert_def coins_new_def)
  have wd: "lend_withdraw ex_lend_env (ex_lend_ctx [([''lending'', ''pool'', ''d''], 5)] 1000) ?st =
      Inr (?st, [LendBurn 5 [([''lending'', ''pool'', ''d''], 5)], LendTransfer 7 [([''d''], 6)]], [])"
    by (simp add: lend_withdraw_def core_withdraw_def withdraw_one_def strip ex_lend_simps lend_eval
        coins_insert_def coins_new_def)
  have "coins_ok (ctx_funds (ex_lend_ctx [([''d''], 7)] 1000))"
    by (simp add: ex_lend_ctx_def coins_ok_def om_ok_def)
  from lending_deposit_not_profitable [OF ok this dep wd, of "[''d'']"]
  have "unat (amount_of [([''d''], 6)] [''d'']) \<le> unat (amount_of [([''d''], 7)] [''d''])"
    by (simp add: ex_lend_ctx_def)
  with dep wd show ?thesis by (auto simp: amount_of_def)
qed

end
