(* ===== verification/Lending_Debts.thy ===== *)
theory Lending_Debts
  imports Lending_Deposits
begin

text \<open>
  Borrowing and repaying: what one coin borrowed adds to the account's debt and to the market's total,
  when a debt can be repaid in full, and runs of messages from a fresh contract.
\<close>

subsection \<open>Borrowing\<close>

lemma save_one_market: "om_ok ms \<Longrightarrow> map_of (save_markets [(d, m)] ms) d = Some m"
  by (simp add: save_markets_def map_of_om_insert)

lemma lend_borrow_one:
  assumes "lend_ok st" "lend_borrow env cx st [(d, a)] = Inr (st', outs, evs)"
  obtains m m1 m' new where "map_of (ls_markets st) d = Some m" "update_indices env (ctx_time cx) m = Inr m1"
    and "into_scaled_debt a m1 = Inr new" "map_of (ls_markets st') d = Some m'"
    and "unat (scaled_debt_of (debts_of st' (ctx_sender cx)) d) =
      unat (scaled_debt_of (debts_of st (ctx_sender cx)) d) + unat new"
    and "unat (mk_borrowed m') = unat (mk_borrowed m) +
      (unat (scaled_debt_of (debts_of st (ctx_sender cx)) d) + unat new)"
    and "mk_borrow_index m' = mk_borrow_index m1" "outs = [LendTransfer (ctx_sender cx) [(d, a)]]"
proof -
  let ?u = "ctx_sender cx"
  let ?prev = "scaled_debt_of (debts_of st ?u) d"
  from assms(2) obtain m m1 new s m' where m: "map_of (ls_markets st) d = Some m"
    and m1: "update_indices env (ctx_time cx) m = Inr m1" and new: "into_scaled_debt a m1 = Inr new"
    and s: "dec_add 18 18 ?prev new = Inr s" and m': "add_borrowed m1 s = Inr m'"
    and st': "st' = st\<lparr>ls_markets := save_markets [(d, m')] (ls_markets st),
      ls_debts := om_insert ?u (om_insert d s (debts_of st ?u)) (ls_debts st)\<rparr>"
    and outs: "outs = [LendTransfer ?u [(d, a)]]"
    by (auto simp: lend_borrow_def core_borrow_def borrow_one_def result_iff)
  have ok: "om_ok (ls_markets st)" "om_ok (ls_debts st)" "om_ok (debts_of st ?u)"
    using assms(1) debts_of_ok [OF assms(1)] by (simp_all add: lend_ok_def debts_ok_def)
  have s': "unat s = unat ?prev + unat new" using s by (simp add: dec_add_def checked_add_Inr)
  have "scaled_debt_of (debts_of st' ?u) d = s"
    using ok by (simp add: st' debts_of_def scaled_debt_of_def map_of_om_insert)
  moreover have "map_of (ls_markets st') d = Some m'" using ok by (simp add: st' save_one_market)
  moreover have "unat (mk_borrowed m') = unat (mk_borrowed m) + unat s" "mk_borrow_index m' = mk_borrow_index m1"
    using m' update_indices_Inr(3) [OF m1]
    by (auto simp: add_borrowed_def dec_add_def and_then_Inr_iff checked_add_Inr)
  ultimately show thesis using that m m1 new s' outs by simp
qed

subsection \<open>Repaying\<close>

lemma into_scaled_debt_0: "unat (mk_borrow_index m) \<noteq> 0 \<Longrightarrow> into_scaled_debt 0 m = Inr 0"
  by (simp add: into_scaled_debt_Inr)

lemma lend_repay_all:
  assumes "lend_ok st" "map_of (ls_markets st) d = Some m" "update_indices env (ctx_time cx) m = Inr m1"
    and "ctx_funds cx = [(d, a)]" "into_underlying_debt (scaled_debt_of (debts_of st (ctx_sender cx)) d) m1 = Inr debt"
    and "debt \<le> a"
  shows "is_ok (lend_repay env cx st) \<longleftrightarrow> scaled_debt_of (debts_of st (ctx_sender cx)) d \<le> mk_borrowed m"
proof -
  let ?s = "scaled_debt_of (debts_of st (ctx_sender cx)) d"
  have "market_ok d m" using assms(1,2) by (auto simp: lend_ok_def dest: map_of_SomeD)
  then have "market_ok d m1" using update_indices_Inr(1) [OF assms(3)] by (rule market_ok_forward)
  moreover have "unat (dec_one 18 :: u128) = 10 ^ 18" unfolding dec_one_def by (rule unat_precision) simp
  ultimately have i: "unat (mk_borrow_index m1) \<noteq> 0"
    unfolding market_ok_def by (metis le_zero_eq power_not_zero word_le_nat_alt zero_neq_numeral)
  have s: "dec_sub 18 18 ?s 0 = Inr ?s" by (simp add: dec_sub_def checked_sub_def)
  have d0: "checked_sub debt debt = Inr 0" by (simp add: checked_sub_def)
  have "\<exists>refunds. repay_one env (ctx_time cx) st (debts_of st (ctx_sender cx), [], coins_new) (d, a) =
      and_then (deduct_borrowed m1 ?s) (\<lambda>m. Inr (om_remove d (debts_of st (ctx_sender cx)), [(d, m)], refunds))"
  proof (cases "debt < a")
    case True
    then have "checked_sub a debt = Inr (a - debt)" by (simp add: checked_sub_def)
    moreover obtain refunds where "coins_insert coins_new (mk_coin d (a - debt)) = Inr refunds"
      by (cases "is_non_zero (a - debt)") (auto simp: coins_insert_def coins_new_def)
    ultimately show ?thesis
      using True by (simp add: repay_one_def Let_def om_load_def assms(2,3,5) d0 into_scaled_debt_0 [OF i] s) blast
  next
    case False
    then have "a = debt" using assms(6) by simp
    then show ?thesis
      by (simp add: repay_one_def Let_def om_load_def assms(2,3,5) d0 into_scaled_debt_0 [OF i] s) blast
  qed
  then have "is_ok (lend_repay env cx st) \<longleftrightarrow> is_ok (deduct_borrowed m1 ?s)"
    by (cases "deduct_borrowed m1 ?s") (auto simp: lend_repay_def core_repay_def assms(4))
  moreover have "is_ok (deduct_borrowed m1 ?s) \<longleftrightarrow> ?s \<le> mk_borrowed m"
    using update_indices_Inr(3) [OF assms(3)]
    by (auto simp: deduct_borrowed_def dec_sub_def checked_sub_def)
  ultimately show ?thesis by simp
qed

lemma markets_forwardD:
  "markets_forward ms ms' \<Longrightarrow> map_of ms d = Some m \<Longrightarrow>
     \<exists>m'. map_of ms' d = Some m' \<and> market_forward m m'"
  by (simp add: markets_forward_def)

subsection \<open>Runs\<close>

type_synonym lend_call = "lend_env \<times> ctx \<times> lend_msg"

definition lend_run :: "lend_state \<Rightarrow> lend_call list \<Rightarrow> lend_state res" where
  "lend_run st calls =
     try_fold (\<lambda>st (env, cx, msg). and_then (lend_execute env cx st msg) (\<lambda>(st', _). Inr st')) st calls"

lemma lend_instantiate_ok:
  assumes "lend_instantiate models = Inr st"
  shows "lend_ok st"
proof -
  from assms obtain ms where r: "try_fold (\<lambda>ms (d, model).
      and_then (market_new d model) (\<lambda>m. Inr (om_insert d m ms))) [] models = Inr ms"
    and st: "st = \<lparr>ls_markets = ms, ls_debts = []\<rparr>"
    by (auto simp: lend_instantiate_def and_then_Inr_iff)
  have "markets_forward [] ms" using r
  proof (rule try_fold_invariant [where I = "markets_forward []", rotated 2])
    fix cur e cur'
    assume "markets_forward [] cur" "(case e of (d, model) \<Rightarrow>
      and_then (market_new d model) (\<lambda>m. Inr (om_insert d m cur))) = Inr cur'"
    then show "markets_forward [] cur'"
      by (cases e) (auto simp: and_then_Inr_iff intro: markets_forward_insert market_new_ok)
  qed (simp add: markets_forward_def)
  then show ?thesis by (simp add: st lend_ok_def markets_forward_def)
qed

lemma markets_forward_trans:
  assumes "markets_forward ms ms'" "markets_forward ms' ms''"
  shows "markets_forward ms ms''"
proof -
  have "\<exists>x. map_of ms'' d = Some x \<and> market_forward m x" if m: "map_of ms d = Some m" for d m
  proof -
    obtain m' where "map_of ms' d = Some m'" "market_forward m m'"
      using markets_forwardD [OF assms(1) m] by blast
    moreover then obtain x where "map_of ms'' d = Some x" "market_forward m' x"
      using markets_forwardD [OF assms(2)] by blast
    ultimately show ?thesis by (blast intro: market_forward_trans)
  qed
  with assms(2) show ?thesis by (simp add: markets_forward_def)
qed

lemma lend_run_forward:
  assumes "lend_ok st" "lend_run st calls = Inr st'"
  shows "lend_ok st' \<and> markets_forward (ls_markets st) (ls_markets st')"
  using assms(2) unfolding lend_run_def
proof (rule try_fold_invariant [where I = "\<lambda>s. lend_ok s \<and> markets_forward (ls_markets st) (ls_markets s)", rotated 2])
  show "lend_ok st \<and> markets_forward (ls_markets st) (ls_markets st)"
    using assms(1) by (auto simp: lend_ok_def intro: markets_forward_refl)
  fix s c s'
  assume s: "lend_ok s \<and> markets_forward (ls_markets st) (ls_markets s)"
    and "(case c of (env, cx, msg) \<Rightarrow> and_then (lend_execute env cx s msg) (\<lambda>(st', _). Inr st')) = Inr s'"
  then obtain env cx msg outs where "lend_execute env cx s msg = Inr (s', outs)"
    by (cases c) (auto simp: and_then_Inr_iff)
  with s lend_execute_forward show "lend_ok s' \<and> markets_forward (ls_markets st) (ls_markets s')"
    by (blast intro: markets_forward_trans)
qed

subsection \<open>A worked example: borrowing and repaying\<close>

definition ex_S0 :: lend_state where
  "ex_S0 = ex_lend_state (ex_market 0 1000000000000000000 1000000000000000000 0) []"

definition ex_S1 :: lend_state where
  "ex_S1 = ex_lend_state (ex_market 2000000000000000000 1000000000000000000 1000000000000000000 1000000000)
     [(7, [([''d''], 2000000000000000000)])]"

definition ex_S1' :: lend_state where
  "ex_S1' = ex_lend_state (ex_market 5000000000000000000 1000000000000000000 1000000000000000000 1000000000)
     [(7, [([''d''], 3000000000000000000)])]"

definition ex_S2 :: lend_state where
  "ex_S2 = ex_lend_state
     (ex_market 1333333333333333333 1500000000000000000 1250000000000000000 31536001000000000)
     [(7, [([''d''], 1333333333333333334)])]"

lemma ex_pool_denom:
  "denom_prepend [''d''] [lending_namespace, lending_subnamespace] = Inr [''lending'', ''pool'', ''d'']"
  by (simp add: denom_prepend_strip lending_namespace_def lending_subnamespace_def valid_denom_def valid_part_def
      denom_len_def is_ascii_alphanumeric_def)

lemma ex_instantiate: "lend_instantiate [([''d''], ex_model)] = Inr ex_S0"
  by (simp add: lend_instantiate_def market_new_def ex_pool_denom ex_S0_def ex_lend_simps dec_eval)

lemma ex_borrow:
  "lend_borrow ex_lend_env (ex_lend_ctx [] 1000000000) ex_S0 [([''d''], 2)] =
     Inr (ex_S1, [LendTransfer 7 [([''d''], 2)]], [LendBorrowed 7 [([''d''], 2)]])"
  by (simp add: ex_S0_def ex_S1_def ex_lend_simps lend_borrow_def core_borrow_def borrow_one_def lend_eval)

lemma ex_borrow_again:
  "lend_borrow ex_lend_env (ex_lend_ctx [] 1000000000) ex_S1 [([''d''], 1)] =
     Inr (ex_S1', [LendTransfer 7 [([''d''], 1)]], [LendBorrowed 7 [([''d''], 1)]])"
  by (simp add: ex_S1_def ex_S1'_def ex_lend_simps lend_borrow_def core_borrow_def borrow_one_def lend_eval)

lemma ex_repay:
  "lend_repay ex_lend_env (ex_lend_ctx [([''d''], 1)] 31536001000000000) ex_S1 =
     Inr (ex_S2, [], [LendRepaid 7 [([''d''], 1)] [] [([''d''], 1333333333333333334)]])"
  by (simp add: ex_S1_def ex_S2_def ex_lend_simps lend_repay_def core_repay_def repay_one_def coins_new_def
      coins_is_non_empty_def coins_is_empty_def lend_eval)

lemma ex_run_1: "lend_run ex_S0 [(ex_lend_env, ex_lend_ctx [] 1000000000, LendBorrow [([''d''], 2)])] = Inr ex_S1"
  by (simp add: lend_run_def ex_borrow)

lemma ex_run_2:
  "lend_run ex_S1 [(ex_lend_env, ex_lend_ctx [([''d''], 1)] 31536001000000000, LendRepay)] = Inr ex_S2"
  by (simp add: lend_run_def ex_repay)

lemma ex_S1_ok: "lend_ok ex_S1"
  using lend_run_forward [OF lend_instantiate_ok [OF ex_instantiate] ex_run_1] by blast

lemma ex_S2_ok: "lend_ok ex_S2"
  using lend_run_forward [OF ex_S1_ok ex_run_2] by blast

subsection \<open>Properties\<close>

text \<open>C20: After any sequence of messages, from any accounts and with any answers of the other
  contracts, a lending contract that was instantiated is well formed: every market's liquidity token is
  its denom under the prefix of the lending pool, both indices are at least one, and debts are held in
  denoms that have a market. No market ever disappears and no index ever goes back.\<close>

theorem lending_markets_go_forward:
  assumes "lend_instantiate models = Inr st0" "lend_run st0 calls = Inr st" "lend_run st calls' = Inr st'"
  shows "lend_ok st' \<and> (map_of (ls_markets st) d = Some m \<longrightarrow> (\<exists>m'. map_of (ls_markets st') d = Some m' \<and>
      mk_lp_denom m = [lending_namespace, lending_subnamespace] @ d \<and> mk_lp_denom m' = mk_lp_denom m \<and>
      dec_one 18 \<le> mk_borrow_index m \<and> mk_borrow_index m \<le> mk_borrow_index m' \<and>
      dec_one 18 \<le> mk_supply_index m \<and> mk_supply_index m \<le> mk_supply_index m'))"
proof -
  have st: "lend_ok st" using lend_run_forward [OF lend_instantiate_ok] assms(1,2) by blast
  note f = lend_run_forward [OF st assms(3)]
  have "\<exists>m'. map_of (ls_markets st') d = Some m' \<and>
      mk_lp_denom m = [lending_namespace, lending_subnamespace] @ d \<and> mk_lp_denom m' = mk_lp_denom m \<and>
      dec_one 18 \<le> mk_borrow_index m \<and> mk_borrow_index m \<le> mk_borrow_index m' \<and>
      dec_one 18 \<le> mk_supply_index m \<and> mk_supply_index m \<le> mk_supply_index m'"
    if m: "map_of (ls_markets st) d = Some m"
  proof -
    obtain m' where m': "map_of (ls_markets st') d = Some m'" "market_forward m m'"
      using f m markets_forwardD by blast
    have "market_ok d m" using st m by (auto simp: lend_ok_def dest: map_of_SomeD)
    with m' show ?thesis
      using market_ok_pool_token [of d m] by (auto simp: market_ok_def market_forward_def pool_token_def)
  qed
  with f show ?thesis by blast
qed

theorem lending_markets_go_forward_witness:
  "lend_ok ex_S2 \<and> (\<exists>m'. map_of (ls_markets ex_S2) [''d''] = Some m' \<and>
     mk_lp_denom m' = [''lending'', ''pool'', ''d''] \<and> 1000000000000000000 \<le> mk_borrow_index m')"
  using lending_markets_go_forward [OF ex_instantiate ex_run_1 ex_run_2, of "[''d'']"
      "ex_market 2000000000000000000 1000000000000000000 1000000000000000000 1000000000"]
  by (simp add: ex_S1_def ex_lend_simps dec_eval lending_namespace_def lending_subnamespace_def) blast

text \<open>C21: Borrowing one coin adds its scaled amount to the account's debt, and while the borrow index is at
  most \<open>10 ^ 35\<close> raw (an index of \<open>10 ^ 17\<close>) a first debt is owed exactly, however the division by the
  index rounds. The market's total, however, grows by the whole new debt of the account, so that a
  second loan counts what was already owed once more.\<close>

theorem borrow_counts_whole_debt:
  assumes "lend_ok st" "lend_borrow env cx st [(d, a)] = Inr (st', outs, evs)"
  shows "\<exists>m m' new. map_of (ls_markets st) d = Some m \<and> map_of (ls_markets st') d = Some m' \<and>
    into_scaled_debt a m' = Inr new \<and> outs = [LendTransfer (ctx_sender cx) [(d, a)]] \<and>
    (let before = unat (scaled_debt_of (debts_of st (ctx_sender cx)) d);
         after = unat (scaled_debt_of (debts_of st' (ctx_sender cx)) d)
     in after = before + unat new \<and>
        unat (mk_borrowed m') = unat (mk_borrowed m) + after \<and>
        (before = 0 \<and> unat (mk_borrow_index m') \<le> 10 ^ 35 \<longrightarrow>
          into_underlying_debt (scaled_debt_of (debts_of st' (ctx_sender cx)) d) m' = Inr a))"
proof -
  obtain m m1 m' new where m: "map_of (ls_markets st) d = Some m" "map_of (ls_markets st') d = Some m'"
    and new: "into_scaled_debt a m1 = Inr new" and i: "mk_borrow_index m' = mk_borrow_index m1"
    and debt: "unat (scaled_debt_of (debts_of st' (ctx_sender cx)) d) =
      unat (scaled_debt_of (debts_of st (ctx_sender cx)) d) + unat new"
    and tot: "unat (mk_borrowed m') = unat (mk_borrowed m) +
      (unat (scaled_debt_of (debts_of st (ctx_sender cx)) d) + unat new)"
    and outs: "outs = [LendTransfer (ctx_sender cx) [(d, a)]]"
    using lend_borrow_one [OF assms] by metis
  have new': "into_scaled_debt a m' = Inr new" using new by (simp add: into_scaled_debt_def i)
  have "into_underlying_debt (scaled_debt_of (debts_of st' (ctx_sender cx)) d) m' = Inr a"
    if "unat (scaled_debt_of (debts_of st (ctx_sender cx)) d) = 0" "unat (mk_borrow_index m') \<le> 10 ^ 35"
  proof -
    have "scaled_debt_of (debts_of st' (ctx_sender cx)) d = new" using debt that(1) by (simp add: word_unat_eq_iff)
    moreover have "unat (mk_borrow_index m') \<le> 10 ^ 36 - 10 ^ 18" using that(2) by simp
    ultimately show ?thesis using down_up_debt [OF new'] by simp
  qed
  with m new' outs debt tot show ?thesis by (auto simp: Let_def)
qed

theorem borrow_counts_whole_debt_witness:
  "\<exists>m m' new. map_of (ls_markets ex_S1) [''d''] = Some m \<and> map_of (ls_markets ex_S1') [''d''] = Some m' \<and>
     into_scaled_debt 1 m' = Inr new \<and> unat new = 10 ^ 18 \<and>
     unat (mk_borrowed m') = unat (mk_borrowed m) + 3 * 10 ^ 18"
  using borrow_counts_whole_debt [OF ex_S1_ok ex_borrow_again]
  by (simp add: ex_S1_def ex_S1'_def ex_lend_simps lend_eval) 

text \<open>C22: An account that pays at least what it owes of one coin can only repay its debt in full while the
  market's total is not below the account's scaled debt: otherwise the message fails.\<close>

theorem full_repayment_needs_market_total:
  assumes "lend_ok st" "map_of (ls_markets st) d = Some m" "query_market env (ctx_time cx) st d = Inr m1"
    and "ctx_funds cx = [(d, a)]" "into_underlying_debt (scaled_debt_of (debts_of st (ctx_sender cx)) d) m1 = Inr debt"
    and "debt \<le> a"
  shows "is_ok (lend_execute env cx st LendRepay) \<longleftrightarrow>
    scaled_debt_of (debts_of st (ctx_sender cx)) d \<le> mk_borrowed m"
proof -
  have "update_indices env (ctx_time cx) m = Inr m1" using assms(2,3) by (simp add: query_market_def om_load_def)
  from lend_repay_all [OF assms(1,2) this assms(4-6)] show ?thesis by simp
qed

text \<open>The rounding of repayments makes this happen: at the index of one and a half, one coin repaid of
  three owed leaves the market's total one unit below the account's debt, and the three coins still owed
  are refused.\<close>

theorem full_repayment_needs_market_total_witness:
  "query_debt ex_lend_env 31536001000000000 ex_S2 7 = Inr [([''d''], 3)] \<and>
   \<not> is_ok (lend_execute ex_lend_env (ex_lend_ctx [([''d''], 3)] 31536001000000000) ex_S2 LendRepay)"
proof -
  let ?m = "ex_market 1333333333333333333 1500000000000000000 1250000000000000000 31536001000000000"
  have q: "query_market ex_lend_env 31536001000000000 ex_S2 [''d''] = Inr ?m"
    by (simp add: query_market_def ex_S2_def ex_lend_simps lend_eval)
  have u: "into_underlying_debt 1333333333333333334 ?m = Inr 3"
    by (simp add: ex_lend_simps lend_eval)
  have s: "scaled_debt_of (debts_of ex_S2 7) [''d''] = 1333333333333333334"
    by (simp add: ex_S2_def ex_lend_simps lend_eval)
  have d: "om_load (ls_debts ex_S2) 7 = Inr [([''d''], 1333333333333333334)]"
    by (simp add: ex_S2_def ex_lend_state_def om_load_def)
  have "query_debt ex_lend_env 31536001000000000 ex_S2 7 = Inr [([''d''], 3)]"
    by (simp add: query_debt_def d underlying_debts_def q u)
  moreover have "\<not> is_ok (lend_execute ex_lend_env (ex_lend_ctx [([''d''], 3)] 31536001000000000) ex_S2 LendRepay)"
    using full_repayment_needs_market_total [OF ex_S2_ok, of "[''d'']" ?m ex_lend_env
        "ex_lend_ctx [([''d''], 3)] 31536001000000000" ?m 3 3] q u s
    by (simp add: ex_S2_def ex_lend_simps)
  ultimately show ?thesis by blast
qed

end
