(* ===== verification/Bit_Array.thy ===== *)
theory Bit_Array
  imports Context
begin

unbundle bit_operations_syntax

text \<open>
  Bit paths, \<^verbatim>\<open>grug/jellyfish-merkle/src/bitarray.rs\<close>. A bit array is a number of bits and 32 bytes,
  the first bit being the most significant of the first byte. A 32-byte hash is a word of 256 bits; its
  bytes are those of the word, the most significant first, so that the byte-wise order of hashes is
  the order of words. An index beyond the 32 bytes panics; debug assertions are left out, as in a
  release build. The positions of an iterator are numbers; the code keeps them as quotient and
  remainder by eight. The lemmas: a bit pushed is the bit read back, and iterating over a range yields
  its bits in order.
\<close>

type_synonym hash256 = u256

subsection \<open>Bits of hashes\<close>

definition hash_bytes :: "hash256 \<Rightarrow> u8 list" where
  "hash_bytes x = map (\<lambda>i. ucast (drop_bit (8 * (31 - i)) x)) [0..<32]"

definition byte_bit :: "u8 \<Rightarrow> nat \<Rightarrow> u8" where
  "byte_bit byte remainder = drop_bit (7 - remainder) byte AND 1"

text \<open>The function \<^verbatim>\<open>bit_at_index\<close> of \<^verbatim>\<open>tree.rs\<close>, and the method of the same name.\<close>

definition bit_at_index :: "u8 list \<Rightarrow> nat \<Rightarrow> u8 res" where
  "bit_at_index bs index =
     (if index div 8 < length bs then Inr (byte_bit (bs ! (index div 8)) (index mod 8)) else Inl Panic)"

subsection \<open>Bit arrays\<close>

definition max_byte_length :: nat where
  "max_byte_length = 32"

definition max_bit_length :: nat where
  "max_bit_length = max_byte_length * 8"

record bitarray =
  ba_num_bits :: nat
  ba_bytes :: "u8 list"

definition bitarray_empty :: bitarray where
  "bitarray_empty = \<lparr>ba_num_bits = 0, ba_bytes = replicate max_byte_length 0\<rparr>"

definition bitarray_push :: "bitarray \<Rightarrow> u8 \<Rightarrow> bitarray res" where
  "bitarray_push ba b =
     (let quotient = ba_num_bits ba div 8; remainder = ba_num_bits ba mod 8 in
      if quotient < length (ba_bytes ba)
      then (let byte = ba_bytes ba ! quotient;
                byte' = (if b = 1 then byte OR push_bit (7 - remainder) 1
                         else byte AND NOT (push_bit (7 - remainder) 1)) in
            Inr \<lparr>ba_num_bits = ba_num_bits ba + 1, ba_bytes = (ba_bytes ba)[quotient := byte']\<rparr>)
      else Inl Panic)"

definition extend_one_bit :: "bitarray \<Rightarrow> bool \<Rightarrow> bitarray res" where
  "extend_one_bit ba is_left = bitarray_push ba (if is_left then 0 else 1)"

definition bitarray_from_bytes :: "u8 list \<Rightarrow> bitarray res" where
  "bitarray_from_bytes bs =
     and_then (ensure (length bs \<le> max_byte_length) Panic) (\<lambda>_.
       Inr \<lparr>ba_num_bits = length bs * 8, ba_bytes = bs @ replicate (max_byte_length - length bs) 0\<rparr>)"

definition bitarray_of_hash :: "hash256 \<Rightarrow> bitarray" where
  "bitarray_of_hash hash = \<lparr>ba_num_bits = max_bit_length, ba_bytes = hash_bytes hash\<rparr>"

definition bitarray_bit :: "bitarray \<Rightarrow> nat \<Rightarrow> u8 res" where
  "bitarray_bit ba index = bit_at_index (ba_bytes ba) index"

subsection \<open>Iterators\<close>

record bit_iterator =
  bi_bytes :: "u8 list"
  bi_current :: "nat option"
  bi_min :: nat
  bi_max :: nat
  bi_ascending :: bool

definition bitarray_range :: "bitarray \<Rightarrow> nat option \<Rightarrow> nat option \<Rightarrow> bool \<Rightarrow> bit_iterator" where
  "bitarray_range ba minimum maximum ascending =
     \<lparr>bi_bytes = ba_bytes ba, bi_current = None,
      bi_min = (case minimum of None \<Rightarrow> 0 | Some m \<Rightarrow> m),
      bi_max = (case maximum of None \<Rightarrow> ba_num_bits ba | Some m \<Rightarrow> m),
      bi_ascending = ascending\<rparr>"

definition bit_increment :: "bit_iterator \<Rightarrow> nat option \<times> bit_iterator" where
  "bit_increment it =
     (case bi_current it of
        None \<Rightarrow> if bi_min it < bi_max it then (Some (bi_min it), it\<lparr>bi_current := Some (bi_min it)\<rparr>) else (None, it)
      | Some i \<Rightarrow> (if i + 1 < bi_max it then Some (i + 1) else None, it\<lparr>bi_current := Some (i + 1)\<rparr>))"

definition bit_decrement :: "bit_iterator \<Rightarrow> nat option \<times> bit_iterator" where
  "bit_decrement it =
     (let i = (case bi_current it of None \<Rightarrow> bi_max it | Some i \<Rightarrow> i) in
      if i = 0 then (None, it\<lparr>bi_current := Some 0\<rparr>)
      else (if bi_min it \<le> i - 1 then Some (i - 1) else None, it\<lparr>bi_current := Some (i - 1)\<rparr>))"

definition bit_next :: "bit_iterator \<Rightarrow> (u8 option \<times> bit_iterator) res" where
  "bit_next it =
     (let (position, it') = (if bi_ascending it then bit_increment it else bit_decrement it) in
      (case position of
         None \<Rightarrow> Inr (None, it')
       | Some i \<Rightarrow> and_then (bit_at_index (bi_bytes it) i) (\<lambda>b. Inr (Some b, it'))))"

text \<open>What an iterator has still to return, an upper bound.\<close>

definition bits_left :: "bit_iterator \<Rightarrow> nat" where
  "bits_left it =
     (if bi_ascending it
      then (case bi_current it of None \<Rightarrow> bi_max it + 1 | Some i \<Rightarrow> bi_max it - i)
      else (case bi_current it of None \<Rightarrow> bi_max it + 1 | Some i \<Rightarrow> i))"

lemma bit_next_left: "bit_next it = Inr (Some b, it') \<Longrightarrow> bits_left it' < bits_left it"
  by (auto simp: bit_next_def bit_increment_def bit_decrement_def bits_left_def result_iff Let_def
      split: if_splits option.splits prod.splits)

subsection \<open>The bit of a hash\<close>

text \<open>Bit \<open>i\<close> of a hash, counted from the most significant.\<close>

definition hash_bit :: "hash256 \<Rightarrow> nat \<Rightarrow> bool" where
  "hash_bit x i = bit x (255 - i)"

definition bit_of_bool :: "bool \<Rightarrow> u8" where
  "bit_of_bool b = (if b then 1 else 0)"

lemma bit_of_bool_simps [simp]:
  "bit_of_bool b = 0 \<longleftrightarrow> \<not> b" "bit_of_bool b = 1 \<longleftrightarrow> b" "bit_of_bool b = bit_of_bool b' \<longleftrightarrow> b = b'"
  by (auto simp: bit_of_bool_def)

lemma byte_bit_eq: "i < 8 \<Longrightarrow> byte_bit byte i = bit_of_bool (bit byte (7 - i))"
  by (auto simp: byte_bit_def bit_of_bool_def bit_and_iff bit_drop_bit_eq bit_1_iff intro!: bit_word_eqI)

lemma length_hash_bytes [simp]: "length (hash_bytes x) = 32"
  by (simp add: hash_bytes_def)

lemma bit_at_index_hash:
  assumes "i < 256"
  shows "bit_at_index (hash_bytes x) i = Inr (bit_of_bool (hash_bit x i))"
proof -
  have "i div 8 < 32" "i mod 8 < 8" "7 - i mod 8 < 8" using assms by auto
  moreover have "8 * (31 - i div 8) + (7 - i mod 8) = 255 - i" using assms by (simp add: algebra_simps)
  ultimately show ?thesis
    by (simp add: bit_at_index_def byte_bit_eq hash_bytes_def bit_ucast_iff bit_drop_bit_eq hash_bit_def)
qed

lemma bit_at_index_beyond: "256 \<le> i \<Longrightarrow> bit_at_index (hash_bytes x) i = Inl Panic"
  by (simp add: bit_at_index_def)

lemma hash_eqI:
  assumes "\<And>i. i < 256 \<Longrightarrow> hash_bit x i = hash_bit y i"
  shows "x = y"
proof (rule bit_word_eqI)
  fix n assume "n < LENGTH(256)"
  then show "bit x n = bit y n" using assms [of "255 - n"] by (simp add: hash_bit_def)
qed

text \<open>The order of hashes is that of their first differing bit: with a common prefix, the next bits of
  increasing hashes increase.\<close>

lemma hash_bit_mono:
  assumes "x \<le> y" and "n < 256" and "\<And>i. i < n \<Longrightarrow> hash_bit x i = hash_bit y i"
  shows "hash_bit x n \<longrightarrow> hash_bit y n"
proof -
  let ?d = "\<lambda>z. drop_bit (255 - n) z"
  have eq: "drop_bit (256 - n) x = drop_bit (256 - n) y"
  proof (rule bit_word_eqI)
    fix k assume "k < LENGTH(256)"
    show "bit (drop_bit (256 - n) x) k = bit (drop_bit (256 - n) y) k"
    proof (cases "256 - n + k < 256")
      case True
      then have "n - 1 - k < n" "255 - (n - 1 - k) = 256 - n + k" using assms(2) by auto
      then show ?thesis using assms(3) [of "n - 1 - k"] by (simp add: bit_drop_bit_eq hash_bit_def)
    next
      case False
      then show ?thesis using bit_imp_le_length [of x] bit_imp_le_length [of y] by (force simp: bit_drop_bit_eq)
    qed
  qed
  have split: "unat (?d z) = 2 * unat (drop_bit (256 - n) z) + of_bool (hash_bit z n)" for z
  proof -
    have "256 - n = Suc (255 - n)" using assms(2) by simp
    then have "drop_bit (256 - n) z = drop_bit 1 (?d z)" by simp
    then have "unat (drop_bit (256 - n) z) = drop_bit 1 (unat (?d z))" by (simp only: unat_drop_bit_eq)
    then have "unat (drop_bit (256 - n) z) = unat (?d z) div 2" by (simp add: drop_bit_eq_div)
    moreover have "hash_bit z n = bit (unat z) (255 - n)" by (simp add: hash_bit_def bit_unsigned_iff)
    then have "hash_bit z n = odd (unat (?d z))" by (simp only: bit_iff_odd_drop_bit unat_drop_bit_eq)
    ultimately show ?thesis by (simp add: odd_iff_mod_2_eq_one) presburger
  qed
  have "unat (?d x) \<le> unat (?d y)"
    using assms(1) by (simp only: unat_drop_bit_eq word_le_nat_alt) (simp add: drop_bit_eq_div div_le_mono)
  then show ?thesis using split [of x] split [of y] eq by (auto simp: of_bool_def split: if_splits)
qed

subsection \<open>Paths\<close>

text \<open>The bit array of a path is built by pushing its bits.\<close>

definition bits_of :: "bool list \<Rightarrow> bitarray" where
  "bits_of p = foldl (\<lambda>ba b. projr (bitarray_push ba (bit_of_bool b))) bitarray_empty p"

lemma bit_mask_at: "r < 8 \<Longrightarrow> s < 8 \<Longrightarrow> bit ((2 :: u8) ^ (7 - r)) (7 - s) \<longleftrightarrow> s = r"
  by (auto simp: bit_exp_iff)

lemma byte_bit_push:
  assumes "r < 8" and "s < 8"
  shows "byte_bit (byte OR 2 ^ (7 - r)) s = (if s = r then 1 else byte_bit byte s)"
    and "byte_bit (byte AND NOT (2 ^ (7 - r))) s = (if s = r then 0 else byte_bit byte s)"
  using assms by (simp_all add: byte_bit_eq bit_or_iff bit_and_iff bit_not_iff bit_mask_at bit_of_bool_def less_imp_diff_less)

lemma bitarray_push_Inr:
  assumes "bitarray_push ba (bit_of_bool b) = Inr ba'"
  shows "ba_num_bits ba' = ba_num_bits ba + 1" and "length (ba_bytes ba') = length (ba_bytes ba)"
    and "bitarray_bit ba' i = (if i = ba_num_bits ba then Inr (bit_of_bool b) else bitarray_bit ba i)"
proof -
  let ?q = "ba_num_bits ba div 8" and ?r = "ba_num_bits ba mod 8"
  have q: "?q < length (ba_bytes ba)" and num: "ba_num_bits ba' = ba_num_bits ba + 1"
    and bytes: "ba_bytes ba' = (ba_bytes ba)[?q := (if b then ba_bytes ba ! ?q OR push_bit (7 - ?r) 1
      else ba_bytes ba ! ?q AND NOT (push_bit (7 - ?r) 1))]"
    using assms by (auto simp: bitarray_push_def Let_def split: if_splits)
  show "ba_num_bits ba' = ba_num_bits ba + 1" by (rule num)
  show "length (ba_bytes ba') = length (ba_bytes ba)" by (simp add: bytes)
  have "i = ba_num_bits ba \<longleftrightarrow> i div 8 = ?q \<and> i mod 8 = ?r" by (metis div_mult_mod_eq)
  then show "bitarray_bit ba' i = (if i = ba_num_bits ba then Inr (bit_of_bool b) else bitarray_bit ba i)"
    using q by (auto simp: bitarray_bit_def bit_at_index_def bytes nth_list_update byte_bit_push bit_of_bool_def)
qed

lemma bits_of_Nil: "bits_of [] = bitarray_empty"
  by (simp add: bits_of_def)

lemma bits_of_num: "length p \<le> 256 \<Longrightarrow> ba_num_bits (bits_of p) = length p \<and> length (ba_bytes (bits_of p)) = 32"
proof (induction p rule: rev_induct)
  case (snoc b p)
  then have n: "ba_num_bits (bits_of p) = length p" "length (ba_bytes (bits_of p)) = 32" by simp_all
  have "length p div 8 < 32" using snoc.prems by auto
  then obtain ba where "bitarray_push (bits_of p) (bit_of_bool b) = Inr ba"
    using n by (simp add: bitarray_push_def Let_def)
  with bitarray_push_Inr [OF this] n show ?case by (simp add: bits_of_def)
qed (simp add: bits_of_Nil bitarray_empty_def max_byte_length_def)

lemma push_bits_of:
  assumes "length p < 256"
  shows "bitarray_push (bits_of p) (bit_of_bool b) = Inr (bits_of (p @ [b]))"
proof -
  have "length p div 8 < 32" using assms by auto
  then obtain ba where "bitarray_push (bits_of p) (bit_of_bool b) = Inr ba"
    using bits_of_num [of p] assms by (simp add: bitarray_push_def Let_def)
  then show ?thesis by (simp add: bits_of_def)
qed

lemma push_bits_full: "length p = 256 \<Longrightarrow> bitarray_push (bits_of p) b = Inl Panic"
  using bits_of_num [of p] by (simp add: bitarray_push_def Let_def)

lemma extend_bits_of:
  assumes "length p < 256"
  shows "extend_one_bit (bits_of p) left = Inr (bits_of (p @ [\<not> left]))"
  using push_bits_of [OF assms, of "\<not> left"] by (simp add: extend_one_bit_def bit_of_bool_def split: if_splits)

lemma bitarray_bit_of: "length p \<le> 256 \<Longrightarrow> i < length p \<Longrightarrow> bitarray_bit (bits_of p) i = Inr (bit_of_bool (p ! i))"
proof (induction p rule: rev_induct)
  case (snoc b p)
  then show ?case
    using bitarray_push_Inr(3) [OF push_bits_of, of p b i] bits_of_num [of p] by (simp add: nth_append)
qed simp

lemma bits_of_inj:
  assumes "bits_of p = bits_of q" and "length p \<le> 256" and "length q \<le> 256"
  shows "p = q"
proof (rule nth_equalityI)
  show "length p = length q" using bits_of_num [OF assms(2)] bits_of_num [OF assms(3)] assms(1) by simp
  then show "p ! i = q ! i" if "i < length p" for i
    using bitarray_bit_of [of p i] bitarray_bit_of [of q i] that assms by simp
qed

subsection \<open>Iterating\<close>

text \<open>The state of an iterator after \<open>n\<close> bits were taken.\<close>

definition taken :: "bit_iterator \<Rightarrow> nat \<Rightarrow> bit_iterator" where
  "taken it n = it\<lparr>bi_current := (if n = 0 then None
     else Some (if bi_ascending it then bi_min it + n - 1 else bi_max it - n))\<rparr>"

lemma next_ascending:
  assumes "bi_ascending it" and "bi_current it = None" and "bi_min it + n < bi_max it"
    and "bit_at_index (bi_bytes it) (bi_min it + n) = Inr b"
  shows "bit_next (taken it n) = Inr (Some b, taken it (n + 1))"
  using assms by (cases n) (simp_all add: bit_next_def bit_increment_def taken_def)

lemma next_descending:
  assumes "\<not> bi_ascending it" and "bi_current it = None" and "bi_min it + n < bi_max it"
    and "bit_at_index (bi_bytes it) (bi_max it - n - 1) = Inr b"
  shows "bit_next (taken it n) = Inr (Some b, taken it (n + 1))"
  using assms by (cases n) (simp_all add: bit_next_def bit_decrement_def taken_def Let_def)

lemma next_descending_end:
  assumes "\<not> bi_ascending it" and "bi_current it = None" and "bi_max it \<le> bi_min it + n"
  shows "\<exists>it'. bit_next (taken it n) = Inr (None, it')"
  using assms by (cases n) (auto simp: bit_next_def bit_decrement_def taken_def Let_def)

lemma taken_0: "bi_current it = None \<Longrightarrow> taken it 0 = it"
  by (simp add: taken_def)

end
