(* ===== verification/Merkle_Tree.thy ===== *)
theory Merkle_Tree
  imports Bit_Array
begin

text \<open>
  The Jellyfish Merkle tree that commits to the state of the chain, \<^verbatim>\<open>grug/jellyfish-merkle/src\<close>:
  nodes and their hashes (\<^verbatim>\<open>node.rs\<close>), the tree in storage with the application of batches,
  proofs and pruning (\<^verbatim>\<open>tree.rs\<close>), the ICS-23 paths (\<^verbatim>\<open>ics23.rs\<close>), and the verification of
  proofs (\<^verbatim>\<open>proof.rs\<close>). The hash function (SHA-256) is the parameter \<open>h\<close>. The storage is a record of
  the two maps of the tree: the nodes by version and path, and the orphan records.
\<close>

type_synonym hash_fun = "u8 list \<Rightarrow> hash256"

subsection \<open>Nodes (node.rs)\<close>

record child =
  ch_version :: u64
  ch_hash :: hash256

record internal_node =
  in_left :: "child option"
  in_right :: "child option"

record leaf_node =
  lf_key_hash :: hash256
  lf_value_hash :: hash256

datatype node = Internal internal_node | Leaf leaf_node

fun is_leaf :: "node \<Rightarrow> bool" where
  "is_leaf (Internal _) \<longleftrightarrow> False"
| "is_leaf (Leaf _) \<longleftrightarrow> True"

definition hash_or_zero :: "hash256 option \<Rightarrow> hash256" where
  "hash_or_zero x = (case x of None \<Rightarrow> 0 | Some y \<Rightarrow> y)"

definition hash_internal_node :: "hash_fun \<Rightarrow> hash256 option \<Rightarrow> hash256 option \<Rightarrow> hash256" where
  "hash_internal_node h left_hash right_hash =
     h ([0] @ hash_bytes (hash_or_zero left_hash) @ hash_bytes (hash_or_zero right_hash))"

definition hash_leaf_node :: "hash_fun \<Rightarrow> hash256 \<Rightarrow> hash256 \<Rightarrow> hash256" where
  "hash_leaf_node h key_hash value_hash = h ([1] @ hash_bytes key_hash @ hash_bytes value_hash)"

definition hash_of :: "child option \<Rightarrow> hash256 option" where
  "hash_of c = map_option ch_hash c"

fun node_hash :: "hash_fun \<Rightarrow> node \<Rightarrow> hash256" where
  "node_hash h (Internal n) = hash_internal_node h (hash_of (in_left n)) (hash_of (in_right n))"
| "node_hash h (Leaf l) = hash_leaf_node h (lf_key_hash l) (lf_value_hash l)"

subsection \<open>The tree in storage (tree.rs)\<close>

record merkle_store =
  tr_nodes :: "u64 \<times> bitarray \<Rightarrow> node option"
  tr_orphans :: "(u64 \<times> u64 \<times> bitarray) list"

datatype 'v batch_op = OpInsert 'v | OpDelete

datatype outcome = Unchanged "node option" | Updated node | Deleted

definition root_bits :: bitarray where
  "root_bits = bitarray_empty"

definition node_load :: "merkle_store \<Rightarrow> u64 \<Rightarrow> bitarray \<Rightarrow> node res" where
  "node_load st version bits = ok_or DataNotFound (tr_nodes st (version, bits))"

definition save_node :: "merkle_store \<Rightarrow> u64 \<Rightarrow> bitarray \<Rightarrow> node \<Rightarrow> merkle_store" where
  "save_node st version bits n = st\<lparr>tr_nodes := (tr_nodes st)((version, bits) \<mapsto> n)\<rparr>"

definition mark_node_as_orphaned :: "merkle_store \<Rightarrow> u64 \<Rightarrow> u64 \<Rightarrow> bitarray \<Rightarrow> merkle_store" where
  "mark_node_as_orphaned st since version bits =
     st\<lparr>tr_orphans := List.insert (since, version, bits) (tr_orphans st)\<rparr>"

definition merkle_root_hash :: "hash_fun \<Rightarrow> merkle_store \<Rightarrow> u64 \<Rightarrow> hash256 option" where
  "merkle_root_hash h st version = map_option (node_hash h) (tr_nodes st (version, root_bits))"

text \<open>The partition point is found by a binary search, which on a sorted batch is the first key whose bit
  is not zero. It looks at no key when the batch is empty, and panics beyond the 256 bits.\<close>

definition partition_batch :: "(hash256 \<times> 'a) list \<Rightarrow> bitarray \<Rightarrow> ((hash256 \<times> 'a) list \<times> (hash256 \<times> 'a) list) res" where
  "partition_batch batch bits =
     (let bit_of = (\<lambda>e. bit_at_index (hash_bytes (fst e)) (ba_num_bits bits)) in
     and_then (case batch of [] \<Rightarrow> Inr 0 | e # _ \<Rightarrow> bit_of e) (\<lambda>_.
       Inr (takeWhile (\<lambda>e. bit_of e = Inr 0) batch, dropWhile (\<lambda>e. bit_of e = Inr 0) batch)))"

definition partition_leaf :: "leaf_node option \<Rightarrow> bitarray \<Rightarrow> (leaf_node option \<times> leaf_node option) res" where
  "partition_leaf leaf bits =
     (case leaf of
        None \<Rightarrow> Inr (None, None)
      | Some l \<Rightarrow>
          and_then (bit_at_index (hash_bytes (lf_key_hash l)) (ba_num_bits bits)) (\<lambda>b.
            Inr (if b = 0 then (Some l, None) else (None, Some l))))"

text \<open>The operation on the leaf itself, and the inserts among the others.\<close>

definition prepare_batch_for_subtree ::
    "(hash256 \<times> hash256 batch_op) list \<Rightarrow> leaf_node option \<Rightarrow>
     (hash256 \<times> hash256) list \<times> hash256 batch_op option" where
  "prepare_batch_for_subtree batch existing_leaf =
     (let on_leaf = (\<lambda>key_hash. case existing_leaf of None \<Rightarrow> False | Some leaf \<Rightarrow> key_hash = lf_key_hash leaf) in
      (List.map_filter (\<lambda>(key_hash, op).
         if on_leaf key_hash then None
         else (case op of OpInsert value_hash \<Rightarrow> Some (key_hash, value_hash) | OpDelete \<Rightarrow> None)) batch,
       (case rev (filter (\<lambda>e. on_leaf (fst e)) batch) of [] \<Rightarrow> None | e # _ \<Rightarrow> Some (snd e))))"

fun into_child :: "hash_fun \<Rightarrow> u64 \<Rightarrow> outcome \<Rightarrow> child option res" where
  "into_child h version (Updated n) = Inr (Some \<lparr>ch_version = version, ch_hash = node_hash h n\<rparr>)"
| "into_child h version (Unchanged (Some n)) = Inr (Some \<lparr>ch_version = version, ch_hash = node_hash h n\<rparr>)"
| "into_child h version (Unchanged None) = Inr None"
| "into_child h version Deleted = Inl Panic"

fun save_outcome :: "merkle_store \<Rightarrow> u64 \<Rightarrow> bitarray \<Rightarrow> outcome \<Rightarrow> merkle_store" where
  "save_outcome st version bits (Updated n) = save_node st version bits n"
| "save_outcome st version bits (Unchanged (Some n)) = save_node st version bits n"
| "save_outcome st version bits _ = st"

text \<open>What is left of a bit array's capacity.\<close>

definition room :: "bitarray \<Rightarrow> nat" where
  "room ba = 8 * length (ba_bytes ba) - ba_num_bits ba"

lemma extend_room: "extend_one_bit ba left = Inr ba' \<Longrightarrow> room ba' < room ba"
  by (auto simp: extend_one_bit_def bitarray_push_def Let_def room_def split: if_splits)

function create_subtree ::
    "hash_fun \<Rightarrow> u64 \<Rightarrow> merkle_store \<Rightarrow> bitarray \<Rightarrow> (hash256 \<times> hash256) list \<Rightarrow> leaf_node option \<Rightarrow>
     (merkle_store \<times> outcome) res" where
  "create_subtree h version st bits batch existing_leaf =
     (if batch = [] \<and> existing_leaf = None then Inr (st, Unchanged None)
      else if batch = [] then Inr (st, Unchanged (map_option Leaf existing_leaf))
      else if length batch = 1 \<and> existing_leaf = None
      then Inr (st, Updated (Leaf \<lparr>lf_key_hash = fst (last batch), lf_value_hash = snd (last batch)\<rparr>))
      else
        and_then (partition_batch batch bits) (\<lambda>(batch_for_left, batch_for_right).
        and_then (partition_leaf existing_leaf bits) (\<lambda>(leaf_for_left, leaf_for_right).
        and_then (extend_one_bit bits True) (\<lambda>left_bits.
        and_then (create_subtree h version st left_bits batch_for_left leaf_for_left) (\<lambda>(st1, left_outcome).
        and_then (extend_one_bit bits False) (\<lambda>right_bits.
        and_then (create_subtree h version st1 right_bits batch_for_right leaf_for_right) (\<lambda>(st2, right_outcome).
        (let st3 = save_outcome st2 version left_bits left_outcome;
             st4 = save_outcome st3 version right_bits right_outcome in
        and_then (into_child h version left_outcome) (\<lambda>left_child.
        and_then (into_child h version right_outcome) (\<lambda>right_child.
          Inr (st4, Updated (Internal \<lparr>in_left = left_child, in_right = right_child\<rparr>))))))))))))"
  by pat_completeness auto
termination
  by (relation "measure (\<lambda>(_, _, _, bits, _). room bits)") (auto dest: extend_room)

declare create_subtree.simps [simp del]

definition apply_at_leaf ::
    "hash_fun \<Rightarrow> u64 \<Rightarrow> merkle_store \<Rightarrow> bitarray \<Rightarrow> leaf_node \<Rightarrow> (hash256 \<times> hash256 batch_op) list \<Rightarrow>
     (merkle_store \<times> outcome) res" where
  "apply_at_leaf h new_version st bits leaf_node ops =
     (let (batch, op) = prepare_batch_for_subtree ops (Some leaf_node) in
      case (batch, op) of
        ([], Some (OpInsert value_hash)) \<Rightarrow>
          if value_hash = lf_value_hash leaf_node then Inr (st, Unchanged (Some (Leaf leaf_node)))
          else Inr (st, Updated (Leaf (leaf_node\<lparr>lf_value_hash := value_hash\<rparr>)))
      | ([], Some OpDelete) \<Rightarrow> Inr (st, Deleted)
      | ([], None) \<Rightarrow> Inr (st, Unchanged (Some (Leaf leaf_node)))
      | (_, Some (OpInsert value_hash)) \<Rightarrow>
          create_subtree h new_version st bits batch (Some (leaf_node\<lparr>lf_value_hash := value_hash\<rparr>))
      | (_, Some OpDelete) \<Rightarrow> create_subtree h new_version st bits batch None
      | (_, None) \<Rightarrow> create_subtree h new_version st bits batch (Some leaf_node))"

text \<open>What becomes of an internal node once both children have been dealt with.\<close>

fun orphan_child :: "u64 \<Rightarrow> bitarray \<Rightarrow> outcome \<Rightarrow> child option \<Rightarrow> merkle_store \<Rightarrow> merkle_store" where
  "orphan_child since bits (Unchanged _) c st = st"
| "orphan_child since bits _ None st = st"
| "orphan_child since bits _ (Some c) st = mark_node_as_orphaned st since (ch_version c) bits"

fun updated_child :: "hash_fun \<Rightarrow> u64 \<Rightarrow> bitarray \<Rightarrow> outcome \<Rightarrow> child option \<Rightarrow> merkle_store \<Rightarrow> merkle_store \<times> child option" where
  "updated_child h version bits (Updated n) c st =
     (save_node st version bits n, Some \<lparr>ch_version = version, ch_hash = node_hash h n\<rparr>)"
| "updated_child h version bits Deleted c st = (st, None)"
| "updated_child h version bits (Unchanged _) c st = (st, c)"

definition update_both ::
    "hash_fun \<Rightarrow> u64 \<Rightarrow> bitarray \<Rightarrow> bitarray \<Rightarrow> internal_node \<Rightarrow> outcome \<Rightarrow> outcome \<Rightarrow> merkle_store \<Rightarrow>
     merkle_store \<times> outcome" where
  "update_both h version left_bits right_bits n left right st =
     (let (st1, left_child) = updated_child h version left_bits left (in_left n) st;
          (st2, right_child) = updated_child h version right_bits right (in_right n) st1 in
      (st2, Updated (Internal \<lparr>in_left = left_child, in_right = right_child\<rparr>)))"

definition move_up :: "u64 \<Rightarrow> bitarray \<Rightarrow> child option \<Rightarrow> node \<Rightarrow> merkle_store \<Rightarrow> (merkle_store \<times> outcome) res" where
  "move_up since bits c n st =
     and_then (ok_or Panic c) (\<lambda>c'. Inr (mark_node_as_orphaned st since (ch_version c') bits, Updated n))"

fun combine_children ::
    "hash_fun \<Rightarrow> u64 \<Rightarrow> bitarray \<Rightarrow> bitarray \<Rightarrow> internal_node \<Rightarrow> outcome \<Rightarrow> outcome \<Rightarrow> merkle_store \<Rightarrow>
     (merkle_store \<times> outcome) res" where
  "combine_children h v lb rb n (Unchanged _) (Unchanged _) st = Inr (st, Unchanged (Some (Internal n)))"
| "combine_children h v lb rb n Deleted Deleted st = Inr (st, Deleted)"
| "combine_children h v lb rb n Deleted (Unchanged None) st = Inr (st, Deleted)"
| "combine_children h v lb rb n (Unchanged None) Deleted st = Inr (st, Deleted)"
| "combine_children h v lb rb n (Updated left) Deleted st =
     Inr (if is_leaf left then (st, Updated left) else update_both h v lb rb n (Updated left) Deleted st)"
| "combine_children h v lb rb n (Updated left) (Unchanged None) st =
     Inr (if is_leaf left then (st, Updated left) else update_both h v lb rb n (Updated left) (Unchanged None) st)"
| "combine_children h v lb rb n (Unchanged (Some left)) Deleted st =
     (if is_leaf left then move_up v lb (in_left n) left st
      else Inr (update_both h v lb rb n (Unchanged (Some left)) Deleted st))"
| "combine_children h v lb rb n Deleted (Updated right) st =
     Inr (if is_leaf right then (st, Updated right) else update_both h v lb rb n Deleted (Updated right) st)"
| "combine_children h v lb rb n (Unchanged None) (Updated right) st =
     Inr (if is_leaf right then (st, Updated right) else update_both h v lb rb n (Unchanged None) (Updated right) st)"
| "combine_children h v lb rb n Deleted (Unchanged (Some right)) st =
     (if is_leaf right then move_up v rb (in_right n) right st
      else Inr (update_both h v lb rb n Deleted (Unchanged (Some right)) st))"
| "combine_children h v lb rb n left right st = Inr (update_both h v lb rb n left right st)"

function
  apply_at :: "hash_fun \<Rightarrow> u64 \<Rightarrow> merkle_store \<Rightarrow> u64 \<Rightarrow> bitarray \<Rightarrow> (hash256 \<times> hash256 batch_op) list \<Rightarrow>
    (merkle_store \<times> outcome) res" and
  apply_at_internal :: "hash_fun \<Rightarrow> u64 \<Rightarrow> merkle_store \<Rightarrow> bitarray \<Rightarrow> internal_node \<Rightarrow>
    (hash256 \<times> hash256 batch_op) list \<Rightarrow> (merkle_store \<times> outcome) res" and
  apply_at_child :: "hash_fun \<Rightarrow> u64 \<Rightarrow> merkle_store \<Rightarrow> bitarray \<Rightarrow> child option \<Rightarrow>
    (hash256 \<times> hash256 batch_op) list \<Rightarrow> (merkle_store \<times> outcome) res"
where
  "apply_at h new_version st old_version bits batch =
     (case tr_nodes st (old_version, bits) of
        Some (Leaf leaf_node) \<Rightarrow> apply_at_leaf h new_version st bits leaf_node batch
      | Some (Internal internal_node) \<Rightarrow> apply_at_internal h new_version st bits internal_node batch
      | None \<Rightarrow> create_subtree h new_version st bits (fst (prepare_batch_for_subtree batch None)) None)"
| "apply_at_internal h new_version st bits internal_node batch =
     and_then (partition_batch batch bits) (\<lambda>(batch_for_left, batch_for_right).
     and_then (extend_one_bit bits True) (\<lambda>left_bits.
     and_then (apply_at_child h new_version st left_bits (in_left internal_node) batch_for_left)
       (\<lambda>(st1, left_outcome).
     and_then (extend_one_bit bits False) (\<lambda>right_bits.
     and_then (apply_at_child h new_version st1 right_bits (in_right internal_node) batch_for_right)
       (\<lambda>(st2, right_outcome).
     (let st3 = orphan_child new_version left_bits left_outcome (in_left internal_node) st2;
          st4 = orphan_child new_version right_bits right_outcome (in_right internal_node) st3 in
      combine_children h new_version left_bits right_bits internal_node left_outcome right_outcome st4))))))"
| "apply_at_child h new_version st child_bits child batch =
     (case child of
        None \<Rightarrow>
          if batch = [] then Inr (st, Unchanged None)
          else create_subtree h new_version st child_bits (fst (prepare_batch_for_subtree batch None)) None
      | Some c \<Rightarrow>
          if batch = [] then and_then (node_load st (ch_version c) child_bits) (\<lambda>n. Inr (st, Unchanged (Some n)))
          else apply_at h new_version st (ch_version c) child_bits batch)"
  by pat_completeness auto
termination
  by (relation "measure (\<lambda>x. case x of
        Inl (_, _, _, _, bits, _) \<Rightarrow> 3 * room bits + 2
      | Inr (Inl (_, _, _, bits, _, _)) \<Rightarrow> 3 * room bits + 1
      | Inr (Inr (_, _, _, bits, _, _)) \<Rightarrow> 3 * room bits + 3)")
    (auto dest: extend_room)

declare apply_at.simps [simp del] apply_at_internal.simps [simp del] apply_at_child.simps [simp del]

definition merkle_apply ::
    "hash_fun \<Rightarrow> merkle_store \<Rightarrow> u64 \<Rightarrow> u64 \<Rightarrow> (hash256 \<times> hash256 batch_op) list \<Rightarrow>
     (merkle_store \<times> hash256 option) res" where
  "merkle_apply h st old_version new_version batch =
     (let st1 = (if tr_nodes st (old_version, root_bits) \<noteq> None
                 then mark_node_as_orphaned st new_version old_version root_bits else st) in
     and_then (apply_at h new_version st1 old_version root_bits batch) (\<lambda>(st2, outcome).
       (case outcome of
          Updated new_root_node \<Rightarrow>
            Inr (save_node st2 new_version root_bits new_root_node, Some (node_hash h new_root_node))
        | Unchanged (Some new_root_node) \<Rightarrow>
            Inr (save_node st2 new_version root_bits new_root_node, Some (node_hash h new_root_node))
        | _ \<Rightarrow> Inr (st2, None))))"

fun map_op :: "('a \<Rightarrow> 'b) \<Rightarrow> 'a batch_op \<Rightarrow> 'b batch_op" where
  "map_op f (OpInsert v) = OpInsert (f v)"
| "map_op f OpDelete = OpDelete"

definition merkle_apply_raw ::
    "hash_fun \<Rightarrow> merkle_store \<Rightarrow> u64 \<Rightarrow> u64 \<Rightarrow> (u8 list \<times> u8 list batch_op) list \<Rightarrow>
     (merkle_store \<times> hash256 option) res" where
  "merkle_apply_raw h st old_version new_version batch =
     merkle_apply h st old_version new_version (sort_key fst (map (\<lambda>(k, op). (h k, map_op h op)) batch))"

definition merkle_prune :: "merkle_store \<Rightarrow> u64 \<Rightarrow> merkle_store" where
  "merkle_prune st up_to_version =
     (let orphans = filter (\<lambda>(since, _, _). since \<le> up_to_version) (tr_orphans st) in
      \<lparr>tr_nodes = fold (\<lambda>(_, version, bits) nodes. nodes((version, bits) := None)) orphans (tr_nodes st),
       tr_orphans = filter (\<lambda>(since, _, _). \<not> since \<le> up_to_version) (tr_orphans st)\<rparr>)"

end
