(* ===== verification/Versioned_Map.thy ===== *)
theory Versioned_Map
  imports Merkle_Tree Uints
begin

text \<open>
  The versioned map behind the memory database, \<^verbatim>\<open>grug/db/memory/src/versioned_map.rs\<close>: for every
  key the operations by version. Reading at a version finds the last operation up to it; iterating at a
  version visits the keys of a range in order and skips those without a value. The lemmas: a batch
  changes the newest version as its operations say and no older one (\<open>value_after_batch\<close>), and
  collecting an iterator gives exactly the values one reads (\<open>collect_values\<close>).
\<close>

record ('k, 'v) versioned_map =
  vm_latest :: "u64 option"
  vm_nested :: "('k, (u64, 'v batch_op) omap) omap"

definition vm_new :: "('k, 'v) versioned_map" where
  "vm_new = \<lparr>vm_latest = None, vm_nested = []\<rparr>"

fun into_option :: "'v batch_op \<Rightarrow> 'v option" where
  "into_option (OpInsert v) = Some v"
| "into_option OpDelete = None"

definition vm_insert_op ::
    "u64 \<Rightarrow> 'k::linorder \<times> 'v batch_op \<Rightarrow> ('k, (u64, 'v batch_op) omap) omap \<Rightarrow> ('k, (u64, 'v batch_op) omap) omap" where
  "vm_insert_op version e m =
     (let inner = (case map_of m (fst e) of None \<Rightarrow> [] | Some inner \<Rightarrow> inner) in
      om_insert (fst e) (om_insert version (snd e) inner) m)"

definition vm_write_batch ::
    "('k::linorder \<times> 'v batch_op) list \<Rightarrow> ('k, 'v) versioned_map \<Rightarrow> ('k, 'v) versioned_map res" where
  "vm_write_batch batch vm =
     and_then (case vm_latest vm of None \<Rightarrow> Inr 0 | Some version \<Rightarrow> unwrap (checked_add version 1)) (\<lambda>version.
       Inr \<lparr>vm_latest = Some version, vm_nested = fold (vm_insert_op version) batch (vm_nested vm)\<rparr>)"

definition last_up_to :: "u64 \<Rightarrow> (u64, 'v batch_op) omap \<Rightarrow> 'v batch_op option" where
  "last_up_to version inner =
     (case rev (filter (\<lambda>e. fst e \<le> version) inner) of [] \<Rightarrow> None | e # _ \<Rightarrow> Some (snd e))"

definition vm_get :: "'k \<Rightarrow> u64 \<Rightarrow> ('k, 'v) versioned_map \<Rightarrow> 'v option res" where
  "vm_get key version vm =
     (case vm_latest vm of
        None \<Rightarrow> Inr None
      | Some latest_version \<Rightarrow>
          if latest_version < version then Inl Panic
          else Inr (case map_of (vm_nested vm) key of
              None \<Rightarrow> None
            | Some inner \<Rightarrow> (case last_up_to version inner of None \<Rightarrow> None | Some op \<Rightarrow> into_option op)))"

subsection \<open>Ranges\<close>

datatype 'k bound = Unbounded | Included 'k | Excluded 'k

fun above :: "'k::linorder bound \<Rightarrow> 'k \<Rightarrow> bool" where
  "above Unbounded k \<longleftrightarrow> True"
| "above (Included a) k \<longleftrightarrow> a \<le> k"
| "above (Excluded a) k \<longleftrightarrow> a < k"

fun beneath :: "'k::linorder bound \<Rightarrow> 'k \<Rightarrow> bool" where
  "beneath Unbounded k \<longleftrightarrow> True"
| "beneath (Included b) k \<longleftrightarrow> k \<le> b"
| "beneath (Excluded b) k \<longleftrightarrow> k < b"

text \<open>The range of a \<^verbatim>\<open>BTreeMap\<close> panics when it starts after its end, or at it with both bounds
  excluded.\<close>

fun range_panics :: "'k::linorder bound \<Rightarrow> 'k bound \<Rightarrow> bool" where
  "range_panics (Included a) (Included b) \<longleftrightarrow> b < a"
| "range_panics (Included a) (Excluded b) \<longleftrightarrow> b < a"
| "range_panics (Excluded a) (Included b) \<longleftrightarrow> b < a"
| "range_panics (Excluded a) (Excluded b) \<longleftrightarrow> b \<le> a"
| "range_panics _ _ \<longleftrightarrow> False"

definition btree_range :: "'k::linorder bound \<Rightarrow> 'k bound \<Rightarrow> ('k, 'v) omap \<Rightarrow> ('k, 'v) omap res" where
  "btree_range start_bound end_bound m =
     and_then (ensure (\<not> range_panics start_bound end_bound) Panic) (\<lambda>_.
       Inr (filter (\<lambda>e. above start_bound (fst e) \<and> beneath end_bound (fst e)) m))"

subsection \<open>Iterating at a version\<close>

record ('k, 'v) versioned_iterator =
  vi_nested :: "('k, (u64, 'v batch_op) omap) omap"
  vi_start :: "'k bound"
  vi_end :: "'k bound"
  vi_version :: u64
  vi_last :: "'k option"

definition vm_range :: "'k bound \<Rightarrow> 'k bound \<Rightarrow> u64 \<Rightarrow> ('k, 'v) versioned_map \<Rightarrow> ('k, 'v) versioned_iterator res" where
  "vm_range start_bound end_bound version vm =
     and_then (ensure (case vm_latest vm of None \<Rightarrow> True | Some latest_version \<Rightarrow> version \<le> latest_version) Panic) (\<lambda>_.
       Inr \<lparr>vi_nested = vm_nested vm, vi_start = start_bound, vi_end = end_bound, vi_version = version, vi_last = None\<rparr>)"

fun first_insert :: "u64 \<Rightarrow> ('k, (u64, 'v batch_op) omap) omap \<Rightarrow> ('k \<times> 'v) option" where
  "first_insert version [] = None"
| "first_insert version ((key, inner) # rest) =
     (case last_up_to version inner of
        Some (OpInsert value) \<Rightarrow> Some (key, value)
      | _ \<Rightarrow> first_insert version rest)"

definition visited :: "('k, 'v) versioned_iterator \<Rightarrow> ('k \<times> 'v) option \<Rightarrow> ('k, 'v) versioned_iterator" where
  "visited it found = (case found of None \<Rightarrow> it | Some (key, _) \<Rightarrow> it\<lparr>vi_last := Some key\<rparr>)"

definition vi_next :: "('k::linorder, 'v) versioned_iterator \<Rightarrow> (('k \<times> 'v) option \<times> ('k, 'v) versioned_iterator) res" where
  "vi_next it =
     (let start_bound = (case vi_last it of Some key \<Rightarrow> Excluded key | None \<Rightarrow> vi_start it) in
      and_then (btree_range start_bound (vi_end it) (vi_nested it)) (\<lambda>entries.
        (let found = first_insert (vi_version it) entries in Inr (found, visited it found))))"

text \<open>Iterating from the back also takes the first entry of the remaining range.\<close>

definition vi_next_back ::
    "('k::linorder, 'v) versioned_iterator \<Rightarrow> (('k \<times> 'v) option \<times> ('k, 'v) versioned_iterator) res" where
  "vi_next_back it =
     (let end_bound = (case vi_last it of Some key \<Rightarrow> Excluded key | None \<Rightarrow> vi_end it) in
      and_then (btree_range (vi_start it) end_bound (vi_nested it)) (\<lambda>entries.
        (let found = first_insert (vi_version it) entries in Inr (found, visited it found))))"

lemma first_insert_mem: "first_insert version es = Some (k, v) \<Longrightarrow> k \<in> fst ` set es"
  by (induction version es rule: first_insert.induct) (auto split: option.splits batch_op.splits)

definition in_reach :: "('k::linorder, 'v) versioned_iterator \<Rightarrow> 'k \<Rightarrow> bool" where
  "in_reach it k \<longleftrightarrow>
     above (case vi_last it of Some key \<Rightarrow> Excluded key | None \<Rightarrow> vi_start it) k \<and> beneath (vi_end it) k"

lemma next_shrinks:
  assumes "vi_next it = Inr (Some (k, v), it')"
  shows "length (filter (\<lambda>e. in_reach it' (fst e)) (vi_nested it')) < length (filter (\<lambda>e. in_reach it (fst e)) (vi_nested it))"
proof -
  let ?es = "filter (\<lambda>e. in_reach it (fst e)) (vi_nested it)"
  have f: "first_insert (vi_version it) ?es = Some (k, v)" and it': "it' = it\<lparr>vi_last := Some k\<rparr>"
    using assms by (auto simp: vi_next_def btree_range_def Let_def in_reach_def ensure_def visited_def split: if_splits)
  from first_insert_mem [OF f] obtain e where e: "e \<in> set ?es" "fst e = k" by auto
  have "above (case vi_last it of Some key \<Rightarrow> Excluded key | None \<Rightarrow> vi_start it) x" if "k < x" for x
    using e that by (cases "case vi_last it of Some key \<Rightarrow> Excluded key | None \<Rightarrow> vi_start it") (auto simp: in_reach_def)
  then have sub: "in_reach it' x \<Longrightarrow> in_reach it x \<and> x \<noteq> k" for x by (auto simp: in_reach_def it')
  have "filter (\<lambda>e. in_reach it' (fst e)) (vi_nested it) = filter (\<lambda>e. in_reach it' (fst e)) ?es"
    using sub by (simp add: filter_filter) (metis (mono_tags, lifting))
  moreover have "length (filter (\<lambda>e. in_reach it' (fst e)) ?es) < length ?es"
    using sub e by (intro length_filter_less [OF e(1)]) auto
  ultimately show ?thesis by (simp add: it')
qed

function vi_collect :: "('k::linorder, 'v) versioned_iterator \<Rightarrow> ('k \<times> 'v) list res" where
  "vi_collect it =
     and_then (vi_next it) (\<lambda>(found, it').
       (case found of None \<Rightarrow> Inr [] | Some entry \<Rightarrow> and_then (vi_collect it') (\<lambda>rest. Inr (entry # rest))))"
  by pat_completeness auto
termination
  by (relation "measure (\<lambda>it. length (filter (\<lambda>e. in_reach it (fst e)) (vi_nested it)))") (auto dest: next_shrinks)

declare vi_collect.simps [simp del]

subsection \<open>Values\<close>

definition value_in :: "u64 \<Rightarrow> (u64, 'v batch_op) omap \<Rightarrow> 'v option" where
  "value_in version inner = (case last_up_to version inner of None \<Rightarrow> None | Some op \<Rightarrow> into_option op)"

definition vm_value :: "('k, 'v) versioned_map \<Rightarrow> u64 \<Rightarrow> 'k \<Rightarrow> 'v option" where
  "vm_value vm version k = (case map_of (vm_nested vm) k of None \<Rightarrow> None | Some inner \<Rightarrow> value_in version inner)"

definition vm_ok :: "('k::linorder, 'v) versioned_map \<Rightarrow> bool" where
  "vm_ok vm \<longleftrightarrow> om_ok (vm_nested vm) \<and> (\<forall>k inner. map_of (vm_nested vm) k = Some inner \<longrightarrow>
     om_ok inner \<and> (\<forall>e \<in> set inner. \<exists>l. vm_latest vm = Some l \<and> fst e \<le> l))"

lemma vm_ok_new: "vm_ok vm_new"
  by (simp add: vm_ok_def vm_new_def)

lemma vm_get_value:
  "vm_latest vm = Some l \<Longrightarrow> vm_get k version vm = (if version \<le> l then Inr (vm_value vm version k) else Inl Panic)"
  by (auto simp: vm_get_def vm_value_def value_in_def split: option.split)

lemma value_in_snoc:
  assumes "\<forall>e \<in> set inner. fst e < w"
  shows "value_in version (inner @ [(w, op)]) = (if w \<le> version then into_option op else value_in version inner)"
  by (simp add: value_in_def last_up_to_def)

lemma value_in_Nil [simp]: "value_in version [] = None"
  by (simp add: value_in_def last_up_to_def)

lemma fold_insert_map_of:
  assumes "distinct (map fst batch)" and "om_ok m"
  shows "om_ok (fold (vm_insert_op w) batch m) \<and> map_of (fold (vm_insert_op w) batch m) k =
    (case map_of batch k of None \<Rightarrow> map_of m k
     | Some op \<Rightarrow> Some (om_insert w op (case map_of m k of None \<Rightarrow> [] | Some inner \<Rightarrow> inner)))"
  using assms
proof (induction batch arbitrary: m)
  case (Cons e batch)
  let ?m = "vm_insert_op w e m"
  have m: "om_ok ?m" "map_of ?m k = (if k = fst e then Some (om_insert w (snd e) (case map_of m k of None \<Rightarrow> [] | Some inner \<Rightarrow> inner))
      else map_of m k)"
    using Cons.prems(2) by (simp_all add: vm_insert_op_def Let_def om_ok_insert map_of_om_insert)
  have "map_of batch (fst e) = None" using Cons.prems(1) by (simp add: map_of_eq_None_iff)
  with Cons.IH [OF _ m(1)] Cons.prems m(2) show ?case by (cases e) (auto split: option.split)
qed simp

lemma value_after_batch:
  assumes ok: "vm_ok vm" and d: "distinct (map fst batch)" and w: "vm_write_batch batch vm = Inr vm'"
    and new: "vm_latest vm' = Some new"
  shows "vm_ok vm'" and "vm_value vm' new k = (case map_of batch k of None \<Rightarrow> vm_value vm new k | Some op \<Rightarrow> into_option op)"
    and "u < new \<Longrightarrow> vm_value vm' u k = vm_value vm u k"
proof -
  have vm': "vm_nested vm' = fold (vm_insert_op new) batch (vm_nested vm)"
    and l: "vm_latest vm = Some l \<Longrightarrow> l < new" for l
    using w new
    by (auto simp: vm_write_batch_def result_iff unwrap_def checked_add_def word_less_nat_alt unat_word_ariths
        split: option.splits sum.splits if_splits)
  have inner: "om_ok (case map_of (vm_nested vm) k of None \<Rightarrow> [] | Some inner \<Rightarrow> inner) \<and>
      (\<forall>e \<in> set (case map_of (vm_nested vm) k of None \<Rightarrow> [] | Some inner \<Rightarrow> inner). fst e < new)" for k
  proof (cases "map_of (vm_nested vm) k")
    case (Some inner)
    with ok have "om_ok inner" "\<forall>e \<in> set inner. \<exists>l. vm_latest vm = Some l \<and> fst e \<le> l" by (simp_all add: vm_ok_def)
    with l show ?thesis by (auto simp: Some intro: order.strict_trans1)
  qed simp
  note f = fold_insert_map_of [OF d, of "vm_nested vm" new, folded vm']
  have om: "om_ok (vm_nested vm)" using ok by (simp add: vm_ok_def)
  have last: "om_insert new x (case map_of (vm_nested vm) k of None \<Rightarrow> [] | Some inner \<Rightarrow> inner) =
      (case map_of (vm_nested vm) k of None \<Rightarrow> [] | Some inner \<Rightarrow> inner) @ [(new, x)]" for k x
    using inner [of k] by (intro om_insert_last) blast
  have get: "map_of (vm_nested vm') k = (case map_of batch k of None \<Rightarrow> map_of (vm_nested vm) k
     | Some op \<Rightarrow> Some ((case map_of (vm_nested vm) k of None \<Rightarrow> [] | Some inner \<Rightarrow> inner) @ [(new, op)]))" for k
    using f [OF om, of k] last [of _ k] by (cases "map_of batch k") simp_all
  show "vm_ok vm'"
    unfolding vm_ok_def
  proof (intro conjI allI impI)
    show "om_ok (vm_nested vm')" using f [OF om] by simp
    fix k inner' assume k: "map_of (vm_nested vm') k = Some inner'"
    have "om_ok inner' \<and> (\<forall>e \<in> set inner'. fst e \<le> new)"
    proof -
      define i where "i = (case map_of (vm_nested vm) k of None \<Rightarrow> [] | Some inner \<Rightarrow> inner)"
      have i: "om_ok i" "\<forall>e \<in> set i. fst e < new" using inner [of k] by (simp_all add: i_def)
      have "inner' = i \<or> (\<exists>op. inner' = i @ [(new, op)])"
        using k get [of k] by (cases "map_of batch k") (auto simp: i_def)
      with i show ?thesis by (auto simp: om_ok_def sorted_wrt_append intro: less_imp_le)
    qed
    then show "om_ok inner'" "\<forall>e \<in> set inner'. \<exists>l. vm_latest vm' = Some l \<and> fst e \<le> l" using new by auto
  qed
  have v: "vm_value vm' x k = (case map_of batch k of None \<Rightarrow> vm_value vm x k
      | Some op \<Rightarrow> if new \<le> x then into_option op else vm_value vm x k)" for x
    using value_in_snoc [OF inner [of k, THEN conjunct2]]
    by (simp add: vm_value_def get split: option.split)
  show "vm_value vm' new k = (case map_of batch k of None \<Rightarrow> vm_value vm new k | Some op \<Rightarrow> into_option op)"
    unfolding v by (simp split: option.split)
  show "u < new \<Longrightarrow> vm_value vm' u k = vm_value vm u k"
    using v [of u] by (cases "map_of batch k") auto
qed

lemma value_beyond:
  assumes "vm_ok vm" and "vm_latest vm = Some l" and "l \<le> u"
  shows "vm_value vm u k = vm_value vm l k"
proof (cases "map_of (vm_nested vm) k")
  case (Some inner)
  have "\<forall>e \<in> set inner. fst e \<le> l" using assms(1,2) Some by (auto simp: vm_ok_def)
  then have "filter (\<lambda>e. fst e \<le> l) inner = inner" "filter (\<lambda>e. fst e \<le> u) inner = inner"
    using assms(3) by (auto intro: filter_True order_trans)
  then show ?thesis by (simp add: vm_value_def Some value_in_def last_up_to_def)
qed (simp add: vm_value_def)

subsection \<open>Iterating yields the values\<close>

definition value_entries :: "u64 \<Rightarrow> ('k, (u64, 'v batch_op) omap) omap \<Rightarrow> ('k \<times> 'v) list" where
  "value_entries version m = List.map_filter (\<lambda>(k, inner). map_option (Pair k) (value_in version inner)) m"

lemma first_insert_entries:
  "first_insert version m = (case value_entries version m of [] \<Rightarrow> None | e # _ \<Rightarrow> Some e)"
  by (induction version m rule: first_insert.induct)
    (auto simp: value_entries_def map_filter_simps value_in_def split: option.split batch_op.split)

lemma entries_after:
  assumes "om_ok m" and "value_entries version m = (k, v) # rest"
  shows "value_entries version (filter (\<lambda>e. k < fst e) m) = rest"
  using assms
proof (induction m)
  case (Cons e m)
  obtain k' inner where e: "e = (k', inner)" by (cases e)
  have ok: "om_ok m" and lt: "\<forall>e \<in> set m. k' < fst e" using Cons.prems(1) by (auto simp: om_ok_Cons e)
  show ?case
  proof (cases "value_in version inner")
    case None
    then have r: "value_entries version m = (k, v) # rest" using Cons.prems(2) by (simp add: value_entries_def e map_filter_simps)
    have "k \<in> fst ` set m"
    proof -
      have "(k, v) \<in> set (value_entries version m)" using r by simp
      then show ?thesis by (force simp: value_entries_def map_filter_def)
    qed
    then have "\<not> k < k'" using lt by force
    with Cons.IH [OF ok r] show ?thesis by (simp add: e)
  next
    case (Some x)
    then have "k = k'" "value_entries version m = rest" using Cons.prems(2) by (simp_all add: value_entries_def e map_filter_simps)
    moreover from this lt have "filter (\<lambda>e. k < fst e) m = m" by (auto intro: filter_True)
    ultimately show ?thesis by (simp add: e)
  qed
qed (simp add: value_entries_def map_filter_simps)

lemma value_entries_mem: "(k, x) \<in> set (value_entries version m) \<longleftrightarrow> (\<exists>inner. (k, inner) \<in> set m \<and> value_in version inner = Some x)"
  by (induction m) (auto simp: value_entries_def map_filter_simps split: option.splits)

lemma value_entries_sorted: "om_ok m \<Longrightarrow> sorted_wrt (<) (map fst (value_entries version m))"
proof (induction m)
  case (Cons e m)
  obtain k inner where e: "e = (k, inner)" by (cases e)
  have "k < fst e'" if "e' \<in> set (value_entries version m)" for e'
  proof -
    obtain k' x where e': "e' = (k', x)" by (cases e')
    with that obtain inner' where "(k', inner') \<in> set m" by (auto simp: value_entries_mem)
    with Cons.prems show ?thesis by (auto simp: om_ok_Cons e e')
  qed
  with Cons show ?case
    by (cases "value_in version inner") (simp_all add: value_entries_def map_filter_simps om_ok_Cons e)
qed (simp add: value_entries_def map_filter_simps)

lemma collect_values:
  assumes "om_ok (vi_nested it)"
    and "\<not> range_panics (case vi_last it of Some key \<Rightarrow> Excluded key | None \<Rightarrow> vi_start it) (vi_end it)"
  shows "vi_collect it = Inr (value_entries (vi_version it) (filter (\<lambda>e. in_reach it (fst e)) (vi_nested it)))"
  using assms
proof (induction it rule: vi_collect.induct)
  case (1 it)
  let ?es = "filter (\<lambda>e. in_reach it (fst e)) (vi_nested it)"
  let ?found = "first_insert (vi_version it) ?es"
  have n: "vi_next it = Inr (?found, visited it ?found)"
    using "1.prems"(2) by (simp add: vi_next_def btree_range_def ensure_def Let_def in_reach_def)
  show ?case
  proof (cases ?found)
    case None
    then have "value_entries (vi_version it) ?es = []" by (simp add: first_insert_entries split: list.splits)
    with n None show ?thesis by (simp add: vi_collect.simps)
  next
    case (Some e)
    obtain k v where e: "e = (k, v)" by (cases e)
    let ?it = "it\<lparr>vi_last := Some k\<rparr>"
    have it: "vi_next it = Inr (Some (k, v), ?it)" using n Some by (simp add: e visited_def)
    obtain rest where r: "value_entries (vi_version it) ?es = (k, v) # rest"
      using Some by (auto simp: first_insert_entries e split: list.splits)
    have k: "in_reach it k" using first_insert_mem [of "vi_version it" ?es k v] Some by (auto simp: e)
    then have np: "\<not> range_panics (Excluded k) (vi_end it)"
      by (cases "vi_end it") (auto simp: in_reach_def)
    have "in_reach ?it x \<longleftrightarrow> in_reach it x \<and> k < x" for x
    proof -
      have "above b k \<Longrightarrow> k < x \<Longrightarrow> above b x" for b by (cases b) auto
      then show ?thesis using k by (auto simp: in_reach_def)
    qed
    then have "filter (\<lambda>e. in_reach ?it (fst e)) (vi_nested it) = filter (\<lambda>e. k < fst e) ?es"
      by (simp add: filter_filter conj_commute)
    then have "value_entries (vi_version it) (filter (\<lambda>e. in_reach ?it (fst e)) (vi_nested it)) = rest"
      using entries_after [OF om_ok_filter [OF "1.prems"(1)] r] by simp
    with "1.IH" [OF it refl refl] "1.prems"(1) np it r show ?thesis by (simp add: vi_collect.simps [of it])
  qed
qed

text \<open>Iterating from the back starts at the smallest key, as iterating from the front does.\<close>

lemma next_back_is_next: "vi_last it = None \<Longrightarrow> vi_next_back it = vi_next it"
  by (simp add: vi_next_back_def vi_next_def)

end
