(* ===== verification/Merkle_Proof.thy ===== *)
theory Merkle_Proof
  imports Merkle_Tree
begin

text \<open>
  Proving and verifying membership in the Jellyfish Merkle tree: \<^verbatim>\<open>prove\<close> of \<^verbatim>\<open>tree.rs\<close>,
  \<^verbatim>\<open>ics23.rs\<close>, \<^verbatim>\<open>proof.rs\<close> and the proof types of \<^verbatim>\<open>grug/types/src/jellyfish_merkle.rs\<close>.
\<close>

subsection \<open>Proofs (jellyfish_merkle.rs)\<close>

datatype proof_node =
    ProofInternal "hash256 option" "hash256 option"
  | ProofLeaf hash256 hash256

datatype merkle_proof =
    Membership "hash256 option list"
  | NonMembership proof_node "hash256 option list"

subsection \<open>Proving (tree.rs)\<close>

text \<open>The loop: the iterator over the bits of the key, the path so far, the node reached and the sibling
  hashes collected; it returns the node of a non-membership proof, if any, and the sibling hashes.\<close>

function prove_loop ::
    "merkle_store \<Rightarrow> hash256 \<Rightarrow> bit_iterator \<Rightarrow> bitarray \<Rightarrow> node \<Rightarrow> hash256 option list \<Rightarrow>
     (proof_node option \<times> hash256 option list) res" where
  "prove_loop st key_hash it bits n sibling_hashes =
     (case n of
        Leaf leaf \<Rightarrow>
          Inr (if key_hash \<noteq> lf_key_hash leaf
               then Some (ProofLeaf (lf_key_hash leaf) (lf_value_hash leaf)) else None, sibling_hashes)
      | Internal i \<Rightarrow>
          and_then (bit_next it) (\<lambda>(b, it').
            if b = Some 0 then
              (case in_left i of
                 Some child \<Rightarrow>
                   and_then (bitarray_push bits 0) (\<lambda>bits'.
                   and_then (node_load st (ch_version child) bits') (\<lambda>n'.
                     prove_loop st key_hash it' bits' n' (sibling_hashes @ [hash_of (in_right i)])))
               | None \<Rightarrow> Inr (Some (ProofInternal None (hash_of (in_right i))), sibling_hashes))
            else if b = Some 1 then
              (case in_right i of
                 Some child \<Rightarrow>
                   and_then (bitarray_push bits 1) (\<lambda>bits'.
                   and_then (node_load st (ch_version child) bits') (\<lambda>n'.
                     prove_loop st key_hash it' bits' n' (sibling_hashes @ [hash_of (in_left i)])))
               | None \<Rightarrow> Inr (Some (ProofInternal (hash_of (in_left i)) None), sibling_hashes))
            else Inl Panic))"
  by pat_completeness auto

lemma push_room: "bitarray_push ba b = Inr ba' \<Longrightarrow> room ba' < room ba"
  by (auto simp: bitarray_push_def Let_def room_def split: if_splits)

termination prove_loop
  by (relation "measure (\<lambda>(_, _, _, bits, _, _). room bits)") (auto dest: push_room)

declare prove_loop.simps [simp del]

definition merkle_prove :: "merkle_store \<Rightarrow> hash256 \<Rightarrow> u64 \<Rightarrow> merkle_proof res" where
  "merkle_prove st key_hash version =
     and_then (bitarray_from_bytes (hash_bytes key_hash)) (\<lambda>ba.
     and_then (node_load st version root_bits) (\<lambda>n.
     and_then (prove_loop st key_hash (bitarray_range ba None None True) root_bits n []) (\<lambda>(proof_node, sibling_hashes).
       Inr (case proof_node of
          Some pn \<Rightarrow> NonMembership pn (rev sibling_hashes)
        | None \<Rightarrow> Membership (rev sibling_hashes)))))"

subsection \<open>Verifying (proof.rs)\<close>

text \<open>The zip of an iterator over bits with the sibling hashes asks the iterator first.\<close>

fun compute_root ::
    "hash_fun \<Rightarrow> bit_iterator \<Rightarrow> hash256 option list \<Rightarrow> hash256 \<Rightarrow> hash256 res" where
  "compute_root h it [] hash = and_then (bit_next it) (\<lambda>_. Inr hash)"
| "compute_root h it (sibling_hash # sibling_hashes) hash =
     and_then (bit_next it) (\<lambda>(b, it').
       (case b of
          None \<Rightarrow> Inr hash
        | Some x \<Rightarrow>
            compute_root h it' sibling_hashes
              (if x = 0 then hash_internal_node h (Some hash) sibling_hash
               else hash_internal_node h sibling_hash (Some hash))))"

definition compute_and_compare_root_hash ::
    "hash_fun \<Rightarrow> hash256 \<Rightarrow> bitarray \<Rightarrow> hash256 option list \<Rightarrow> hash256 \<Rightarrow> unit res" where
  "compute_and_compare_root_hash h root_hash ba sibling_hashes hash =
     and_then (compute_root h (bitarray_range ba None (Some (length sibling_hashes)) False) sibling_hashes hash)
       (\<lambda>computed. ensure (computed = root_hash) (Bail ''root hash mismatch''))"

definition verify_membership_proof ::
    "hash_fun \<Rightarrow> hash256 \<Rightarrow> hash256 \<Rightarrow> hash256 \<Rightarrow> hash256 option list \<Rightarrow> unit res" where
  "verify_membership_proof h root_hash key_hash value_hash sibling_hashes =
     and_then (bitarray_from_bytes (hash_bytes key_hash)) (\<lambda>ba.
       compute_and_compare_root_hash h root_hash ba sibling_hashes (hash_leaf_node h key_hash value_hash))"

text \<open>Whether the bits of two iterators differ at some common position.\<close>

function any_differs :: "bit_iterator \<Rightarrow> bit_iterator \<Rightarrow> bool res" where
  "any_differs it it' =
     and_then (bit_next it) (\<lambda>(b, it1).
       (case b of
          None \<Rightarrow> Inr False
        | Some x \<Rightarrow>
            and_then (bit_next it') (\<lambda>(b', it1').
              (case b' of
                 None \<Rightarrow> Inr False
               | Some y \<Rightarrow> if x \<noteq> y then Inr True else any_differs it1 it1'))))"
  by pat_completeness auto
termination
  by (relation "measure (\<lambda>(it, _). bits_left it)") (auto dest: bit_next_left)

declare any_differs.simps [simp del]

definition non_membership_hash ::
    "hash_fun \<Rightarrow> bitarray \<Rightarrow> proof_node \<Rightarrow> hash256 option list \<Rightarrow> hash256 res" where
  "non_membership_hash h ba pn sibling_hashes =
     (case pn of
        ProofInternal left_hash right_hash \<Rightarrow>
          and_then (bitarray_bit ba (length sibling_hashes)) (\<lambda>b.
            if (b = 0 \<and> left_hash \<noteq> None) \<or> (b = 1 \<and> right_hash \<noteq> None)
            then Inl (Bail ''unexpected child'')
            else Inr (hash_internal_node h left_hash right_hash))
      | ProofLeaf leaf_key leaf_value \<Rightarrow>
          and_then (bitarray_from_bytes (hash_bytes leaf_key)) (\<lambda>non_exist_bitarray.
          and_then (any_differs (bitarray_range ba None (Some (length sibling_hashes)) False)
              (bitarray_range non_exist_bitarray None (Some (length sibling_hashes)) False)) (\<lambda>differs.
          and_then (ensure (\<not> differs) (Bail ''not a common prefix'')) (\<lambda>_.
            Inr (hash_leaf_node h leaf_key leaf_value)))))"

definition verify_non_membership_proof ::
    "hash_fun \<Rightarrow> hash256 \<Rightarrow> hash256 \<Rightarrow> proof_node \<Rightarrow> hash256 option list \<Rightarrow> unit res" where
  "verify_non_membership_proof h root_hash key_hash pn sibling_hashes =
     and_then (bitarray_from_bytes (hash_bytes key_hash)) (\<lambda>ba.
     and_then (non_membership_hash h ba pn sibling_hashes) (\<lambda>hash.
       compute_and_compare_root_hash h root_hash ba sibling_hashes hash))"

fun verify_proof :: "hash_fun \<Rightarrow> hash256 \<Rightarrow> hash256 \<Rightarrow> hash256 option \<Rightarrow> merkle_proof \<Rightarrow> unit res" where
  "verify_proof h root_hash key_hash (Some value_hash) (Membership sibling_hashes) =
     verify_membership_proof h root_hash key_hash value_hash sibling_hashes"
| "verify_proof h root_hash key_hash None (NonMembership pn sibling_hashes) =
     verify_non_membership_proof h root_hash key_hash pn sibling_hashes"
| "verify_proof h root_hash key_hash (Some _) (NonMembership _ _) = Inl (Bail ''expect membership proof'')"
| "verify_proof h root_hash key_hash None (Membership _) = Inl (Bail ''expect non-membership proof'')"

subsection \<open>ICS-23 paths (ics23.rs)\<close>

record inner_op =
  io_prefix :: "u8 list"
  io_suffix :: "u8 list"

function ics23_loop ::
    "merkle_store \<Rightarrow> hash256 \<Rightarrow> bit_iterator \<Rightarrow> bitarray \<Rightarrow> node \<Rightarrow> inner_op list \<Rightarrow> inner_op list res" where
  "ics23_loop st key_hash it bits n path =
     (case n of
        Leaf leaf \<Rightarrow> and_then (ensure (lf_key_hash leaf = key_hash) Panic) (\<lambda>_. Inr path)
      | Internal i \<Rightarrow>
          and_then (bit_next it) (\<lambda>(b, it').
            (case (if b = Some 0 then in_left i else if b = Some 1 then in_right i else None) of
               None \<Rightarrow> Inl Panic
             | Some child \<Rightarrow>
                 and_then (bitarray_push bits (if b = Some 0 then 0 else 1)) (\<lambda>bits'.
                 and_then (node_load st (ch_version child) bits') (\<lambda>n'.
                   ics23_loop st key_hash it' bits' n' (path @
                     [if b = Some 0
                      then \<lparr>io_prefix = [0], io_suffix = hash_bytes (hash_or_zero (hash_of (in_right i)))\<rparr>
                      else \<lparr>io_prefix = [0] @ hash_bytes (hash_or_zero (hash_of (in_left i))), io_suffix = []\<rparr>]))))))"
  by pat_completeness auto
termination
  by (relation "measure (\<lambda>(_, _, _, bits, _, _). room bits)") (auto dest: push_room)

declare ics23_loop.simps [simp del]

definition ics23_prove_existence :: "merkle_store \<Rightarrow> u64 \<Rightarrow> hash256 \<Rightarrow> inner_op list res" where
  "ics23_prove_existence st version key_hash =
     and_then (bitarray_from_bytes (hash_bytes key_hash)) (\<lambda>ba.
     and_then (node_load st version root_bits) (\<lambda>n.
     and_then (ics23_loop st key_hash (bitarray_range ba None None True) root_bits n []) (\<lambda>path.
       Inr (rev path))))"

end
