(* ===== verification/Merkle_Spec.thy ===== *)
theory Merkle_Spec
  imports Merkle_Proof
begin

text \<open>
  What the Jellyfish Merkle tree stands for. The specification is a binary tree of key hashes and value
  hashes (\<open>mtree\<close>); a tree is well-formed (\<open>mtree_ok\<close>) when every key lies under the path of its leaf
  and no inner node could be collapsed. A well-formed tree is determined by its contents, so its hash
  is a function of the contents alone. \<open>represents\<close> relates the nodes in storage to such a tree.
\<close>

subsection \<open>Paths\<close>

definition on_path :: "bool list \<Rightarrow> hash256 \<Rightarrow> bool" where
  "on_path p k \<longleftrightarrow> length p \<le> 256 \<and> (\<forall>i < length p. hash_bit k i = p ! i)"

lemma on_path_Nil [simp]: "on_path [] k"
  by (simp add: on_path_def)

lemma on_path_snoc: "on_path (p @ [b]) k \<longleftrightarrow> on_path p k \<and> length p < 256 \<and> hash_bit k (length p) = b"
  by (auto simp: on_path_def nth_append less_Suc_eq)

lemma on_path_unique: "on_path p k \<Longrightarrow> on_path p k' \<Longrightarrow> length p = 256 \<Longrightarrow> k = k'"
  by (auto simp: on_path_def intro: hash_eqI)

definition below :: "bool list \<Rightarrow> bool list \<Rightarrow> bool" where
  "below p q \<longleftrightarrow> (\<exists>s. s \<noteq> [] \<and> q = p @ s) \<and> length q \<le> 256"

lemma below_snoc: "below (p @ [b]) q \<Longrightarrow> below p q"
  by (auto simp: below_def)

lemma below_child: "length p < 256 \<Longrightarrow> below p (p @ [b])"
  by (simp add: below_def)

lemma below_disjoint: "below (p @ [b]) q \<Longrightarrow> \<not> below (p @ [\<not> b]) q"
  by (auto simp: below_def)

lemma below_not_self: "below p q \<Longrightarrow> q \<noteq> p" "below (p @ [b]) q \<Longrightarrow> q \<noteq> p @ [b']"
  by (auto simp: below_def)

lemma below_length: "below p q \<Longrightarrow> length q \<le> 256"
  by (simp add: below_def)

subsection \<open>Trees\<close>

datatype mtree = Empty | Tip hash256 hash256 | Fork mtree mtree

fun contents :: "mtree \<Rightarrow> (hash256 \<rightharpoonup> hash256)" where
  "contents Empty = Map.empty"
| "contents (Tip k v) = [k \<mapsto> v]"
| "contents (Fork l r) = contents l ++ contents r"

fun light :: "mtree \<Rightarrow> bool" where
  "light (Fork _ _) \<longleftrightarrow> False"
| "light _ \<longleftrightarrow> True"

fun mtree_ok :: "bool list \<Rightarrow> mtree \<Rightarrow> bool" where
  "mtree_ok p Empty \<longleftrightarrow> True"
| "mtree_ok p (Tip k v) \<longleftrightarrow> on_path p k"
| "mtree_ok p (Fork l r) \<longleftrightarrow> length p < 256 \<and> mtree_ok (p @ [False]) l \<and> mtree_ok (p @ [True]) r \<and>
     \<not> (l = Empty \<and> light r) \<and> \<not> (r = Empty \<and> light l)"

fun tree_hash :: "hash_fun \<Rightarrow> mtree \<Rightarrow> hash256 option" where
  "tree_hash h Empty = None"
| "tree_hash h (Tip k v) = Some (hash_leaf_node h k v)"
| "tree_hash h (Fork l r) = Some (hash_internal_node h (tree_hash h l) (tree_hash h r))"

lemma contents_on_path: "mtree_ok p t \<Longrightarrow> contents t k = Some v \<Longrightarrow> on_path p k"
proof (induction t arbitrary: p)
  case (Fork l r)
  then have "on_path (p @ [True]) k \<or> on_path (p @ [False]) k" by (auto simp: map_add_Some_iff)
  then show ?case by (auto simp: on_path_snoc)
qed (auto split: if_splits)

lemma contents_left:
  assumes "mtree_ok p (Fork l r)"
  shows "contents l k = (if hash_bit k (length p) then None else contents (Fork l r) k)"
    and "contents r k = (if hash_bit k (length p) then contents (Fork l r) k else None)"
proof -
  have "contents l k = None" if "hash_bit k (length p)"
    using contents_on_path [of "p @ [False]" l k] assms that by (cases "contents l k") (auto simp: on_path_snoc)
  moreover have "contents r k = None" if "\<not> hash_bit k (length p)"
    using contents_on_path [of "p @ [True]" r k] assms that by (cases "contents r k") (auto simp: on_path_snoc)
  ultimately show "contents l k = (if hash_bit k (length p) then None else contents (Fork l r) k)"
    "contents r k = (if hash_bit k (length p) then contents (Fork l r) k else None)"
    by (auto simp: map_add_def split: option.splits)
qed

lemma nonempty_contents: "mtree_ok p t \<Longrightarrow> t \<noteq> Empty \<Longrightarrow> \<exists>k v. contents t k = Some v"
proof (induction t arbitrary: p)
  case (Fork l r)
  then have "l \<noteq> Empty \<or> r \<noteq> Empty" by auto
  with Fork show ?case by (fastforce simp: map_add_Some_iff)
qed auto

lemma fork_contents:
  assumes "mtree_ok p t" and "\<not> light t"
  shows "\<exists>k k' v v'. k \<noteq> k' \<and> contents t k = Some v \<and> contents t k' = Some v'"
  using assms
proof (induction t arbitrary: p)
  case (Fork l r)
  consider "\<not> light l" "r = Empty" | "\<not> light r" "l = Empty" | "l \<noteq> Empty" "r \<noteq> Empty"
    using Fork.prems(1) by (cases "l = Empty"; cases "r = Empty"; cases l; cases r) auto
  then show ?case
  proof cases
    case 1
    with Fork.IH(1) [of "p @ [False]"] Fork.prems(1) show ?thesis by (simp add: map_add_def)
  next
    case 2
    with Fork.IH(2) [of "p @ [True]"] Fork.prems(1) show ?thesis by (simp add: map_add_def)
  next
    case 3
    then obtain k v k' v' where k: "contents l k = Some v" "contents r k' = Some v'"
      using Fork.prems nonempty_contents by (metis mtree_ok.simps(3))
    then have u: "on_path (p @ [False]) k" "on_path (p @ [True]) k'" using Fork.prems contents_on_path by auto
    then have b: "\<not> hash_bit k (length p)" "hash_bit k' (length p)" by (simp_all add: on_path_snoc)
    then have "contents (Fork l r) k = Some v" "contents (Fork l r) k' = Some v'"
      using contents_left(1) [OF Fork.prems(1), of k] contents_left(2) [OF Fork.prems(1), of k'] k
      by (simp_all del: contents.simps)
    moreover have "k \<noteq> k'" using b by auto
    ultimately show ?thesis by blast
  qed
qed auto

lemma light_contents: "light t \<Longrightarrow> contents t k = Some v \<Longrightarrow> contents t k' = Some v' \<Longrightarrow> k = k'"
  by (cases t) (auto split: if_splits)

lemma tip_not_fork:
  assumes "mtree_ok p (Fork l r)"
  shows "contents (Fork l r) \<noteq> contents (Tip k v)"
proof
  assume eq: "contents (Fork l r) = contents (Tip k v)"
  have "\<not> light (Fork l r)" by simp
  from fork_contents [OF assms this] obtain x x' y y' where
    "x \<noteq> x'" "contents (Tip k v) x = Some y" "contents (Tip k v) x' = Some y'" unfolding eq by blast
  then show False using light_contents [of "Tip k v" x y x' y'] by simp
qed

text \<open>A well-formed tree is determined by its contents.\<close>

lemma mtree_canonical: "mtree_ok p t \<Longrightarrow> mtree_ok p t' \<Longrightarrow> contents t = contents t' \<Longrightarrow> t = t'"
proof (induction t arbitrary: p t')
  case Empty
  then show ?case using nonempty_contents [of p t'] by (metis contents.simps(1) option.distinct(1))
next
  case (Tip k v)
  show ?case
  proof (cases t')
    case Empty
    with Tip show ?thesis by (metis contents.simps(1,2) map_upd_nonempty)
  next
    case (Tip k' v')
    with \<open>contents (Tip k v) = contents t'\<close> have "[k \<mapsto> v] = [k' \<mapsto> v']" by simp
    then show ?thesis using Tip by (metis (mono_tags) fun_upd_def option.discI option.inject)
  next
    case (Fork l r)
    then show ?thesis using tip_not_fork [of p l r k v] Tip.prems by metis
  qed
next
  case (Fork l r)
  show ?case
  proof (cases t')
    case Empty
    with Fork show ?thesis using nonempty_contents [of p "Fork l r"] by auto
  next
    case (Tip k v)
    then show ?thesis using tip_not_fork [of p l r k v] Fork.prems by metis
  next
    case t': (Fork l' r')
    have eq: "contents (Fork l r) = contents (Fork l' r')" using Fork.prems(3) by (simp only: t')
    note left = contents_left [OF Fork.prems(1)] and left' = contents_left [OF Fork.prems(2) [unfolded t']]
    have "contents l x = contents l' x" for x
      by (simp only: left(1) [of x] left'(1) [of x] eq)
    moreover have "contents r x = contents r' x" for x
      by (simp only: left(2) [of x] left'(2) [of x] eq)
    ultimately have "contents l = contents l'" "contents r = contents r'" by (simp_all add: fun_eq_iff)
    with Fork show ?thesis by (auto simp: t')
  qed
qed

subsection \<open>Applying operations\<close>

definition apply_ops :: "(hash256 \<times> hash256 batch_op) list \<Rightarrow> (hash256 \<rightharpoonup> hash256) \<Rightarrow> (hash256 \<rightharpoonup> hash256)" where
  "apply_ops batch m = (\<lambda>k. case map_of batch k of
     None \<Rightarrow> m k | Some (OpInsert v) \<Rightarrow> Some v | Some OpDelete \<Rightarrow> None)"

text \<open>A batch is sorted by key hash, without duplicates, and all its keys are under the path.\<close>

definition batch_ok :: "bool list \<Rightarrow> (hash256 \<times> 'a) list \<Rightarrow> bool" where
  "batch_ok p batch \<longleftrightarrow> sorted_wrt (<) (map fst batch) \<and> (\<forall>e \<in> set batch. on_path p (fst e))"

lemma batch_ok_filter: "batch_ok p batch \<Longrightarrow> batch_ok p (filter P batch)"
  by (auto simp: batch_ok_def sorted_wrt_map intro: sorted_wrt_filter)

lemma batch_ok_distinct: "batch_ok p batch \<Longrightarrow> distinct (map fst batch)"
  by (auto simp: batch_ok_def strict_sorted_iff)

lemma hash_bit_at: "n < 256 \<Longrightarrow> bit_at_index (hash_bytes k) n = Inr 0 \<longleftrightarrow> \<not> hash_bit k n"
  by (simp add: bit_at_index_hash)

lemma takeWhile_filter_sorted:
  assumes "batch_ok p batch" and "length p < 256"
  shows "takeWhile (\<lambda>e. \<not> hash_bit (fst e) (length p)) batch = filter (\<lambda>e. \<not> hash_bit (fst e) (length p)) batch \<and>
    dropWhile (\<lambda>e. \<not> hash_bit (fst e) (length p)) batch = filter (\<lambda>e. hash_bit (fst e) (length p)) batch"
  using assms(1)
proof (induction batch)
  case (Cons e batch)
  have b: "batch_ok p batch" using Cons.prems by (auto simp: batch_ok_def)
  show ?case
  proof (cases "hash_bit (fst e) (length p)")
    case True
    have "hash_bit (fst e') (length p)" if "e' \<in> set batch" for e'
    proof -
      have "fst e \<le> fst e'" "on_path p (fst e)" "on_path p (fst e')"
        using Cons.prems that by (auto simp: batch_ok_def less_imp_le)
      with True show ?thesis using hash_bit_mono [of "fst e" "fst e'" "length p"] assms(2) by (auto simp: on_path_def)
    qed
    then have "filter (\<lambda>e. \<not> hash_bit (fst e) (length p)) batch = []"
      "filter (\<lambda>e. hash_bit (fst e) (length p)) batch = batch"
      by (auto simp: filter_empty_conv intro: filter_True)
    with True show ?thesis by simp
  next
    case False
    with Cons.IH [OF b] show ?thesis by simp
  qed
qed simp

lemma partition_batch_ok:
  assumes "batch_ok p batch" and "length p < 256"
  obtains bl br where "partition_batch batch (bits_of p) = Inr (bl, br)"
    and "bl = filter (\<lambda>e. \<not> hash_bit (fst e) (length p)) batch"
    and "br = filter (\<lambda>e. hash_bit (fst e) (length p)) batch"
    and "batch_ok (p @ [False]) bl" and "batch_ok (p @ [True]) br"
proof -
  have n: "ba_num_bits (bits_of p) = length p" using bits_of_num [of p] assms(2) by simp
  have P: "(\<lambda>e. bit_at_index (hash_bytes (fst e)) (length p) = Inr 0) = (\<lambda>e. \<not> hash_bit (fst e) (length p))"
    by (simp add: hash_bit_at [OF assms(2)])
  have "partition_batch batch (bits_of p) =
      Inr (filter (\<lambda>e. \<not> hash_bit (fst e) (length p)) batch, filter (\<lambda>e. hash_bit (fst e) (length p)) batch)"
    using takeWhile_filter_sorted [OF assms]
    by (simp only: partition_batch_def Let_def n P) (simp add: bit_at_index_hash [OF assms(2)] split: list.split)
  moreover have "batch_ok (p @ [False]) (filter (\<lambda>e. \<not> hash_bit (fst e) (length p)) batch)"
    "batch_ok (p @ [True]) (filter (\<lambda>e. hash_bit (fst e) (length p)) batch)"
    using batch_ok_filter [OF assms(1)] assms by (auto simp: batch_ok_def on_path_snoc)
  ultimately show thesis using that by blast
qed

end
