(* ===== verification/Merkle_Store.thy ===== *)
theory Merkle_Store
  imports Merkle_Spec
begin

text \<open>
  Applying a batch to the tree in storage does to the tree it represents what the operations do to its
  contents. The writes of a step stay strictly below the path it is applied at and at the new version
  (\<open>writes_below\<close>), so the two halves of a node do not disturb each other, nor older versions.
\<close>

subsection \<open>Nodes that represent a tree\<close>

type_synonym nodes = "u64 \<times> bitarray \<Rightarrow> node option"

text \<open>A child link, at the child's path: the hash and the version are those of the child's tree and node.\<close>

definition link_ok :: "hash_fun \<Rightarrow> nodes \<Rightarrow> u64 \<Rightarrow> bool list \<Rightarrow> mtree \<Rightarrow> (node \<Rightarrow> bool) \<Rightarrow> child option \<Rightarrow> bool" where
  "link_ok h nodes m p t rep c \<longleftrightarrow> (case c of
     None \<Rightarrow> t = Empty
   | Some c \<Rightarrow> tree_hash h t = Some (ch_hash c) \<and> ch_version c \<le> m \<and>
       (\<exists>n. nodes (ch_version c, bits_of p) = Some n \<and> rep n))"

fun represents :: "hash_fun \<Rightarrow> nodes \<Rightarrow> u64 \<Rightarrow> bool list \<Rightarrow> mtree \<Rightarrow> node \<Rightarrow> bool" where
  "represents h nodes m p Empty n \<longleftrightarrow> False"
| "represents h nodes m p (Tip k v) n \<longleftrightarrow> n = Leaf \<lparr>lf_key_hash = k, lf_value_hash = v\<rparr>"
| "represents h nodes m p (Fork l r) n \<longleftrightarrow> (\<exists>i. n = Internal i \<and>
     link_ok h nodes m (p @ [False]) l (\<lambda>n. represents h nodes m (p @ [False]) l n) (in_left i) \<and>
     link_ok h nodes m (p @ [True]) r (\<lambda>n. represents h nodes m (p @ [True]) r n) (in_right i))"

abbreviation link :: "hash_fun \<Rightarrow> nodes \<Rightarrow> u64 \<Rightarrow> bool list \<Rightarrow> mtree \<Rightarrow> child option \<Rightarrow> bool" where
  "link h nodes m p t c \<equiv> link_ok h nodes m p t (\<lambda>n. represents h nodes m p t n) c"

lemma link_hash: "link_ok h nodes m p t rep c \<Longrightarrow> hash_of c = tree_hash h t"
  by (auto simp: link_ok_def hash_of_def split: option.splits)

lemma represents_hash: "represents h nodes m p t n \<Longrightarrow> tree_hash h t = Some (node_hash h n)"
  by (cases t) (auto simp: link_hash)

lemma represents_Leaf: "represents h nodes m p t n \<Longrightarrow> is_leaf n \<longleftrightarrow> (\<exists>k v. t = Tip k v)"
  by (cases t) auto

lemma represents_leaf_light: "represents h nodes m p t n \<Longrightarrow> is_leaf n \<longleftrightarrow> light t"
  by (cases t) auto

lemma represents_cong:
  assumes "mtree_ok p t" and "\<And>w q. below p q \<Longrightarrow> nodes' (w, bits_of q) = nodes (w, bits_of q)"
  shows "represents h nodes' m p t n \<longleftrightarrow> represents h nodes m p t n"
  using assms
proof (induction t arbitrary: p n)
  case (Fork l r)
  have p: "length p < 256" using Fork.prems(1) by simp
  have "link h nodes' m (p @ [False]) l c = link h nodes m (p @ [False]) l c" for c
    using Fork.IH(1) [of "p @ [False]"] Fork.prems below_snoc [of p False] below_child [OF p, of False]
    by (cases c) (simp_all add: link_ok_def)
  moreover have "link h nodes' m (p @ [True]) r c = link h nodes m (p @ [True]) r c" for c
    using Fork.IH(2) [of "p @ [True]"] Fork.prems below_snoc [of p True] below_child [OF p, of True]
    by (cases c) (simp_all add: link_ok_def)
  ultimately show ?case by simp
qed simp_all

lemma represents_mono: "represents h nodes m p t n \<Longrightarrow> m \<le> m' \<Longrightarrow> represents h nodes m' p t n"
proof (induction t arbitrary: p n)
  case (Fork l r)
  have "link h nodes m' (p @ [False]) l c" if "link h nodes m (p @ [False]) l c" for c
    using that Fork.IH(1) Fork.prems(2) by (fastforce simp: link_ok_def split: option.splits)
  moreover have "link h nodes m' (p @ [True]) r c" if "link h nodes m (p @ [True]) r c" for c
    using that Fork.IH(2) Fork.prems(2) by (fastforce simp: link_ok_def split: option.splits)
  ultimately show ?case using Fork.prems(1) by fastforce
qed simp_all

lemma link_mono: "link h nodes m p t c \<Longrightarrow> m \<le> m' \<Longrightarrow> link h nodes m' p t c"
  using represents_mono by (fastforce simp: link_ok_def split: option.splits)

subsection \<open>Writes\<close>

definition writes_below :: "u64 \<Rightarrow> bool list \<Rightarrow> merkle_store \<Rightarrow> merkle_store \<Rightarrow> bool" where
  "writes_below v p st st' \<longleftrightarrow> (\<forall>w b. tr_nodes st' (w, b) \<noteq> tr_nodes st (w, b) \<longrightarrow>
     w = v \<and> (\<exists>q. below p q \<and> b = bits_of q))"

lemma writes_below_refl: "writes_below v p st st"
  by (simp add: writes_below_def)

lemma writes_below_trans:
  "writes_below v p st st1 \<Longrightarrow> writes_below v p st1 st2 \<Longrightarrow> writes_below v p st st2"
  unfolding writes_below_def by metis

lemma writes_below_child: "writes_below v (p @ [b]) st st' \<Longrightarrow> writes_below v p st st'"
  unfolding writes_below_def using below_snoc by blast

lemma writes_below_save:
  "length p < 256 \<Longrightarrow> writes_below v p st (save_node st v (bits_of (p @ [b])) n)"
  using below_child by (auto simp: writes_below_def save_node_def)

lemma writes_below_orphan: "writes_below v p st (mark_node_as_orphaned st since w b)"
  by (simp add: writes_below_def mark_node_as_orphaned_def)

lemma unwritten:
  assumes "writes_below v p st st'" and "length q \<le> 256" and "\<not> below p q"
  shows "tr_nodes st' (w, bits_of q) = tr_nodes st (w, bits_of q)"
proof (rule ccontr)
  assume "tr_nodes st' (w, bits_of q) \<noteq> tr_nodes st (w, bits_of q)"
  then obtain q' where "below p q'" "bits_of q = bits_of q'" using assms(1) by (auto simp: writes_below_def)
  with bits_of_inj [of q q'] assms(2,3) below_length show False by blast
qed

text \<open>A step in one half leaves the other half as it is.\<close>

lemma other_half:
  assumes "writes_below v (p @ [b]) st st'" and "length p < 256"
  shows "tr_nodes st' (w, bits_of (p @ [\<not> b])) = tr_nodes st (w, bits_of (p @ [\<not> b]))"
    and "mtree_ok (p @ [\<not> b]) t \<Longrightarrow>
      represents h (tr_nodes st') m (p @ [\<not> b]) t n = represents h (tr_nodes st) m (p @ [\<not> b]) t n"
proof -
  show "tr_nodes st' (w, bits_of (p @ [\<not> b])) = tr_nodes st (w, bits_of (p @ [\<not> b]))"
    using assms(2) by (intro unwritten [OF assms(1)]) (auto simp: below_def)
  have "tr_nodes st' (w, bits_of q) = tr_nodes st (w, bits_of q)" if "below (p @ [\<not> b]) q" for w q
    using below_disjoint [OF that] below_length [OF that] by (intro unwritten [OF assms(1)]) simp_all
  then show "mtree_ok (p @ [\<not> b]) t \<Longrightarrow>
      represents h (tr_nodes st') m (p @ [\<not> b]) t n = represents h (tr_nodes st) m (p @ [\<not> b]) t n"
    by (intro represents_cong)
qed

text \<open>Saving a child's node does not change what lies below either child.\<close>

lemma represents_save:
  assumes "mtree_ok (p @ [b]) t" and "length p < 256"
  shows "represents h (tr_nodes (save_node st v (bits_of (p @ [b'])) n')) m (p @ [b]) t n
    = represents h (tr_nodes st) m (p @ [b]) t n"
proof (rule represents_cong [OF assms(1)])
  fix w q assume q: "below (p @ [b]) q"
  then have "bits_of q \<noteq> bits_of (p @ [b'])"
    using bits_of_inj [of q "p @ [b']"] below_length [OF q] below_not_self(2) [OF q] assms(2) by auto
  then show "tr_nodes (save_node st v (bits_of (p @ [b'])) n') (w, bits_of q) = tr_nodes st (w, bits_of q)"
    by (simp add: save_node_def)
qed

lemma represents_orphan [simp]:
  "represents h (tr_nodes (mark_node_as_orphaned st since w b)) m p t n = represents h (tr_nodes st) m p t n"
  "link_ok h (tr_nodes (mark_node_as_orphaned st since w b)) m p t rep c = link_ok h (tr_nodes st) m p t rep c"
  "tr_nodes (mark_node_as_orphaned st since w b) = tr_nodes st"
  by (simp_all add: mark_node_as_orphaned_def)

lemma child_bits_neq:
  "length p < 256 \<Longrightarrow> bits_of (p @ [b]) = bits_of (p @ [b']) \<longleftrightarrow> b = b'"
  using bits_of_inj [of "p @ [b]" "p @ [b']"] by auto

subsection \<open>The nodes a tree uses\<close>

text \<open>The version and the path of a node linked, directly or not, from a node at a path.\<close>

fun uses :: "nodes \<Rightarrow> bool list \<Rightarrow> mtree \<Rightarrow> node \<Rightarrow> u64 \<Rightarrow> bool list \<Rightarrow> bool" where
  "uses nodes p (Fork l r) n w q \<longleftrightarrow> (\<exists>i. n = Internal i \<and>
     ((\<exists>c. in_left i = Some c \<and> (w = ch_version c \<and> q = p @ [False] \<or>
        (\<exists>n'. nodes (ch_version c, bits_of (p @ [False])) = Some n' \<and> uses nodes (p @ [False]) l n' w q))) \<or>
      (\<exists>c. in_right i = Some c \<and> (w = ch_version c \<and> q = p @ [True] \<or>
        (\<exists>n'. nodes (ch_version c, bits_of (p @ [True])) = Some n' \<and> uses nodes (p @ [True]) r n' w q)))))"
| "uses nodes p t n w q \<longleftrightarrow> False"

lemma uses_below: "mtree_ok p t \<Longrightarrow> uses nodes p t n w q \<Longrightarrow> below p q"
proof (induction t arbitrary: p n)
  case (Fork l r)
  then show ?case using below_child [of p] below_snoc [of p] by fastforce
qed simp_all

lemma uses_cong:
  assumes "mtree_ok p t" and "\<And>w q. below p q \<Longrightarrow> nodes' (w, bits_of q) = nodes (w, bits_of q)"
  shows "uses nodes' p t n w q \<longleftrightarrow> uses nodes p t n w q"
  using assms
proof (induction t arbitrary: p n)
  case (Fork l r)
  have p: "length p < 256" using Fork.prems(1) by simp
  have "uses nodes' (p @ [False]) l n w q = uses nodes (p @ [False]) l n w q" for n
    using Fork.IH(1) [of "p @ [False]"] Fork.prems below_snoc [of p False] by simp
  moreover have "uses nodes' (p @ [True]) r n w q = uses nodes (p @ [True]) r n w q" for n
    using Fork.IH(2) [of "p @ [True]"] Fork.prems below_snoc [of p True] by simp
  ultimately show ?case using Fork.prems(2) below_child [OF p] by simp
qed simp_all

lemma uses_old:
  "represents h nodes m p t n \<Longrightarrow> uses nodes p t n w q \<Longrightarrow> w \<le> m \<and> nodes (w, bits_of q) \<noteq> None"
proof (induction t arbitrary: p n)
  case (Fork l r)
  then show ?case by (fastforce simp: link_ok_def)
qed simp_all

subsection \<open>Outcomes\<close>

fun node_of :: "outcome \<Rightarrow> node option" where
  "node_of (Unchanged x) = x"
| "node_of (Updated n) = Some n"
| "node_of Deleted = None"

definition stands :: "hash_fun \<Rightarrow> nodes \<Rightarrow> u64 \<Rightarrow> bool list \<Rightarrow> mtree \<Rightarrow> outcome \<Rightarrow> bool" where
  "stands h nodes m p t out \<longleftrightarrow> (case node_of out of None \<Rightarrow> t = Empty | Some n \<Rightarrow> represents h nodes m p t n)"

definition out_uses :: "nodes \<Rightarrow> bool list \<Rightarrow> mtree \<Rightarrow> outcome \<Rightarrow> u64 \<Rightarrow> bool list \<Rightarrow> bool" where
  "out_uses nodes p t out w q \<longleftrightarrow> (\<exists>n. node_of out = Some n \<and> uses nodes p t n w q)"

lemma stands_cong:
  assumes "mtree_ok p t" and "\<And>w q. below p q \<Longrightarrow> nodes' (w, bits_of q) = nodes (w, bits_of q)"
  shows "stands h nodes' m p t out \<longleftrightarrow> stands h nodes m p t out"
    and "out_uses nodes' p t out w q \<longleftrightarrow> out_uses nodes p t out w q"
  using represents_cong [where nodes' = nodes' and nodes = nodes, OF assms]
    uses_cong [where nodes' = nodes' and nodes = nodes, OF assms]
  by (auto simp: stands_def out_uses_def split: option.splits)

lemma stands_other_half:
  assumes "writes_below v (p @ [b]) st st'" and "length p < 256" and "mtree_ok (p @ [\<not> b]) t"
  shows "stands h (tr_nodes st') m (p @ [\<not> b]) t out \<longleftrightarrow> stands h (tr_nodes st) m (p @ [\<not> b]) t out"
    and "out_uses (tr_nodes st') (p @ [\<not> b]) t out w q \<longleftrightarrow> out_uses (tr_nodes st) (p @ [\<not> b]) t out w q"
proof -
  have "tr_nodes st' (w, bits_of q) = tr_nodes st (w, bits_of q)" if "below (p @ [\<not> b]) q" for w q
    using below_disjoint [OF that] below_length [OF that] by (intro unwritten [OF assms(1)]) simp_all
  from stands_cong [where nodes' = "tr_nodes st'" and nodes = "tr_nodes st", OF assms(3) this] show
    "stands h (tr_nodes st') m (p @ [\<not> b]) t out \<longleftrightarrow> stands h (tr_nodes st) m (p @ [\<not> b]) t out"
    "out_uses (tr_nodes st') (p @ [\<not> b]) t out w q \<longleftrightarrow> out_uses (tr_nodes st) (p @ [\<not> b]) t out w q" by simp_all
qed

lemma stands_light: "stands h nodes m p t out \<Longrightarrow> light t \<longleftrightarrow> (case node_of out of None \<Rightarrow> True | Some n \<Rightarrow> is_leaf n)"
  by (auto simp: stands_def represents_leaf_light split: option.splits)

subsection \<open>Creating a subtree\<close>

text \<open>The new link to a child whose node is saved at the new version.\<close>

definition new_link :: "hash_fun \<Rightarrow> u64 \<Rightarrow> outcome \<Rightarrow> child option" where
  "new_link h v out = map_option (\<lambda>n. \<lparr>ch_version = v, ch_hash = node_hash h n\<rparr>) (node_of out)"

lemma into_child_eq: "out \<noteq> Deleted \<Longrightarrow> into_child h v out = Inr (new_link h v out)"
  by (cases "(h, v, out)" rule: into_child.cases) (simp_all add: new_link_def)

lemma save_outcome_eq:
  "save_outcome st v b out = (case node_of out of None \<Rightarrow> st | Some n \<Rightarrow> save_node st v b n)"
  by (cases "(st, v, b, out)" rule: save_outcome.cases) simp_all

text \<open>Both outcomes saved, the pair of new links stands for the fork.\<close>

lemma save_both:
  assumes "length p < 256" and "mtree_ok (p @ [False]) l" and "mtree_ok (p @ [True]) r"
    and "stands h (tr_nodes st) v (p @ [False]) l lo" and "stands h (tr_nodes st) v (p @ [True]) r ro"
    and st': "st' = save_outcome (save_outcome st v (bits_of (p @ [False])) lo) v (bits_of (p @ [True])) ro"
  shows "represents h (tr_nodes st') v p (Fork l r) (Internal \<lparr>in_left = new_link h v lo, in_right = new_link h v ro\<rparr>)"
    and "writes_below v p st st'" and "tr_orphans st' = tr_orphans st"
    and "uses (tr_nodes st') p (Fork l r) (Internal \<lparr>in_left = new_link h v lo, in_right = new_link h v ro\<rparr>) w q \<Longrightarrow>
      w = v \<or> out_uses (tr_nodes st) (p @ [False]) l lo w q \<or> out_uses (tr_nodes st) (p @ [True]) r ro w q"
proof -
  note neq = child_bits_neq [OF assms(1)]
  have same: "tr_nodes st' (w, bits_of q) = tr_nodes st (w, bits_of q)" if "below (p @ [b]) q" for b w q
  proof -
    have "bits_of q \<noteq> bits_of (p @ [b'])" for b'
      using bits_of_inj [of q "p @ [b']"] below_length [OF that] below_not_self(2) [OF that] assms(1) by auto
    then show ?thesis by (simp add: st' save_outcome_eq save_node_def split: option.split)
  qed
  have l: "represents h (tr_nodes st') v (p @ [False]) l n = represents h (tr_nodes st) v (p @ [False]) l n"
    "uses (tr_nodes st') (p @ [False]) l n w q = uses (tr_nodes st) (p @ [False]) l n w q" for n w q
    by (rule represents_cong uses_cong, rule assms(2), rule same, assumption)+
  have r: "represents h (tr_nodes st') v (p @ [True]) r n = represents h (tr_nodes st) v (p @ [True]) r n"
    "uses (tr_nodes st') (p @ [True]) r n w q = uses (tr_nodes st) (p @ [True]) r n w q" for n w q
    by (rule represents_cong uses_cong, rule assms(3), rule same, assumption)+
  have saved: "node_of lo = Some n \<Longrightarrow> tr_nodes st' (v, bits_of (p @ [False])) = Some n"
    "node_of ro = Some n \<Longrightarrow> tr_nodes st' (v, bits_of (p @ [True])) = Some n" for n
    using neq by (simp_all add: st' save_outcome_eq save_node_def split: option.split)
  have "link h (tr_nodes st') v (p @ [False]) l (new_link h v lo)"
    using assms(4) saved(1) by (cases "node_of lo") (auto simp: link_ok_def new_link_def stands_def l(1) represents_hash)
  moreover have "link h (tr_nodes st') v (p @ [True]) r (new_link h v ro)"
    using assms(5) saved(2) by (cases "node_of ro") (auto simp: link_ok_def new_link_def stands_def r(1) represents_hash)
  ultimately show "represents h (tr_nodes st') v p (Fork l r)
      (Internal \<lparr>in_left = new_link h v lo, in_right = new_link h v ro\<rparr>)" by simp
  show "tr_orphans st' = tr_orphans st" by (simp add: st' save_outcome_eq save_node_def split: option.split)
  show "writes_below v p st st'"
    unfolding st' save_outcome_eq
    by (cases "node_of lo"; cases "node_of ro") (simp_all add: writes_below_refl writes_below_save [OF assms(1)]
        writes_below_trans [OF writes_below_save [OF assms(1)] writes_below_save [OF assms(1)]])
  assume "uses (tr_nodes st') p (Fork l r) (Internal \<lparr>in_left = new_link h v lo, in_right = new_link h v ro\<rparr>) w q"
  then show "w = v \<or> out_uses (tr_nodes st) (p @ [False]) l lo w q \<or> out_uses (tr_nodes st) (p @ [True]) r ro w q"
    using saved by (auto simp: new_link_def out_uses_def l(2) r(2))
qed

end
