(* ===== verification/Merkle_Apply.thy ===== *)
theory Merkle_Apply
  imports Merkle_Store
begin

text \<open>
  What \<open>create_subtree\<close>, \<open>apply_at\<close> and \<open>merkle_apply\<close> do to the tree in storage.
\<close>

subsection \<open>Creating a subtree\<close>

definition leaf_contents :: "leaf_node option \<Rightarrow> (hash256 \<rightharpoonup> hash256)" where
  "leaf_contents leaf = (case leaf of None \<Rightarrow> Map.empty | Some l \<Rightarrow> [lf_key_hash l \<mapsto> lf_value_hash l])"

definition leaf_ok :: "bool list \<Rightarrow> (hash256 \<times> 'a) list \<Rightarrow> leaf_node option \<Rightarrow> bool" where
  "leaf_ok p batch leaf \<longleftrightarrow> (case leaf of None \<Rightarrow> True
     | Some l \<Rightarrow> on_path p (lf_key_hash l) \<and> lf_key_hash l \<notin> fst ` set batch)"

lemma partition_leaf_ok:
  assumes "leaf_ok p batch leaf" and "length p < 256" 
    and bl: "bl = filter (\<lambda>e. \<not> hash_bit (fst e) (length p)) batch" and br: "br = filter (\<lambda>e. hash_bit (fst e) (length p)) batch"
  obtains ll lr where "partition_leaf leaf (bits_of p) = Inr (ll, lr)" and "leaf_ok (p @ [False]) bl ll"
    and "leaf_ok (p @ [True]) br lr" and "leaf_contents leaf = leaf_contents ll ++ leaf_contents lr"
    and "\<forall>k v. (leaf_contents ll k = Some v \<longrightarrow> \<not> hash_bit k (length p)) \<and>
      (leaf_contents lr k = Some v \<longrightarrow> hash_bit k (length p))"
proof (cases leaf)
  case None
  show ?thesis
    by (rule that [of None None]) (simp_all add: None partition_leaf_def leaf_ok_def leaf_contents_def)
next
  case (Some l)
  have n: "ba_num_bits (bits_of p) = length p" using bits_of_num [of p] assms(2) by simp
  have k: "on_path p (lf_key_hash l)" "lf_key_hash l \<notin> fst ` set batch" using assms(1) by (simp_all add: leaf_ok_def Some)
  show ?thesis
  proof (cases "hash_bit (lf_key_hash l) (length p)")
    case True
    show ?thesis
      by (rule that [of None "Some l"]) (use True k assms(2) in \<open>auto simp: Some partition_leaf_def leaf_ok_def n
        leaf_contents_def bit_at_index_hash on_path_snoc br split: if_splits\<close>)
  next
    case False
    show ?thesis
      by (rule that [of "Some l" None]) (use False k assms(2) in \<open>auto simp: Some partition_leaf_def leaf_ok_def n
        leaf_contents_def bit_at_index_hash on_path_snoc bl split: if_splits\<close>)
  qed
qed

lemma map_of_filter: "map_of (filter (\<lambda>e. P (fst e)) xs) k = (if P k then map_of xs k else None)"
  by (induction xs) auto

definition created :: "hash_fun \<Rightarrow> u64 \<Rightarrow> bool list \<Rightarrow> merkle_store \<Rightarrow> merkle_store \<Rightarrow> mtree \<Rightarrow> outcome \<Rightarrow> bool" where
  "created h v p st st' t out \<longleftrightarrow> writes_below v p st st' \<and> tr_orphans st' = tr_orphans st \<and> mtree_ok p t \<and>
     stands h (tr_nodes st') v p t out \<and> out \<noteq> Deleted \<and>
     (\<forall>w q. out_uses (tr_nodes st') p t out w q \<longrightarrow> w = v)"

lemma created_leaf:
  assumes "on_path p (lf_key_hash l)"
  shows "created h v p st st (Tip (lf_key_hash l) (lf_value_hash l)) (Updated (Leaf l))"
    and "created h v p st st (Tip (lf_key_hash l) (lf_value_hash l)) (Unchanged (Some (Leaf l)))"
  using assms by (simp_all add: created_def writes_below_refl stands_def out_uses_def)

lemma two_entries:
  assumes "length batch + (if leaf = None then 0 else 1) \<ge> 2" and "distinct (map fst batch)" and "leaf_ok p batch leaf"
  shows "\<exists>k k' v v'. k \<noteq> k' \<and> (leaf_contents leaf ++ map_of batch) k = Some v \<and>
    (leaf_contents leaf ++ map_of batch) k' = Some v'"
proof (cases leaf)
  case None
  with assms(1) obtain e e' rest where b: "batch = e # e' # rest" by (cases batch; cases "tl batch") auto
  then have "map_of batch (fst e) = Some (snd e)" "map_of batch (fst e') = Some (snd e')" "fst e \<noteq> fst e'"
    using assms(2) by (cases e; cases e'; auto)+
  then show ?thesis by (fastforce simp: map_add_Some_iff)
next
  case (Some l)
  with assms(1) obtain e rest where b: "batch = e # rest" by (cases batch) auto
  have "map_of batch (lf_key_hash l) = None" "lf_key_hash l \<noteq> fst e"
    using assms(3) by (auto simp: Some leaf_ok_def b map_of_eq_None_iff)
  moreover have "map_of batch (fst e) = Some (snd e)" by (cases e) (simp add: b)
  ultimately have "(leaf_contents leaf ++ map_of batch) (lf_key_hash l) = Some (lf_value_hash l)"
    "(leaf_contents leaf ++ map_of batch) (fst e) = Some (snd e)"
    by (simp_all add: Some leaf_contents_def map_add_Some_iff)
  with \<open>lf_key_hash l \<noteq> fst e\<close> show ?thesis by metis
qed

lemma create_subtree_ok:
  assumes "batch_ok p batch" and "length p \<le> 256" and "leaf_ok p batch leaf"
  shows "\<exists>st' out t. create_subtree h v st (bits_of p) batch leaf = Inr (st', out) \<and> created h v p st st' t out \<and>
    contents t = leaf_contents leaf ++ map_of batch \<and> (batch \<noteq> [] \<longrightarrow> (\<exists>n. out = Updated n))"
  using assms
proof (induction "256 - length p" arbitrary: p batch leaf st rule: less_induct)
  case less
  show ?case
  proof (cases "length batch + (if leaf = None then 0 else 1) < 2")
    case True
    then consider "batch = []" "leaf = None" | l where "batch = []" "leaf = Some l" | e where "batch = [e]" "leaf = None"
      by (cases leaf; cases batch; cases "tl batch") auto
    then show ?thesis
    proof cases
      case 1
      then show ?thesis
        by (intro exI [of _ st] exI [of _ "Unchanged None"] exI [of _ Empty])
          (simp add: create_subtree.simps created_def writes_below_refl stands_def out_uses_def leaf_contents_def)
    next
      case (2 l)
      with less.prems(3) have "on_path p (lf_key_hash l)" by (simp add: leaf_ok_def)
      from created_leaf(2) [OF this] 2 show ?thesis
        by (intro exI [of _ st] exI [of _ "Unchanged (Some (Leaf l))"] exI [of _ "Tip (lf_key_hash l) (lf_value_hash l)"])
          (simp add: create_subtree.simps leaf_contents_def)
    next
      case (3 e)
      let ?l = "\<lparr>lf_key_hash = fst e, lf_value_hash = snd e\<rparr>"
      from 3 less.prems(1) have "on_path p (lf_key_hash ?l)" by (simp add: batch_ok_def)
      from created_leaf(1) [OF this] 3 show ?thesis
        by (intro exI [of _ st] exI [of _ "Updated (Leaf ?l)"] exI [of _ "Tip (fst e) (snd e)"])
          (cases e, simp add: create_subtree.simps leaf_contents_def)
    qed
  next
    case False
    then have two: "length batch + (if leaf = None then 0 else 1) \<ge> 2" by simp
    from two_entries [OF this batch_ok_distinct [OF less.prems(1)] less.prems(3)] obtain k k' v1 v2 where
      kk: "k \<noteq> k'" "(leaf_contents leaf ++ map_of batch) k = Some v1" "(leaf_contents leaf ++ map_of batch) k' = Some v2" by metis
    have on: "on_path p x" if "(leaf_contents leaf ++ map_of batch) x = Some y" for x y
      using that less.prems(1,3) by (auto simp: map_add_Some_iff leaf_contents_def leaf_ok_def batch_ok_def
          split: option.splits if_splits dest!: map_of_SomeD)
    have len: "length p < 256"
      using on_path_unique [OF on [OF kk(2)] on [OF kk(3)]] kk(1) less.prems(2) by fastforce
    obtain bl br where pb: "partition_batch batch (bits_of p) = Inr (bl, br)"
      and bl: "bl = filter (\<lambda>e. \<not> hash_bit (fst e) (length p)) batch"
      and br: "br = filter (\<lambda>e. hash_bit (fst e) (length p)) batch"
      and bok: "batch_ok (p @ [False]) bl" "batch_ok (p @ [True]) br"
      by (rule partition_batch_ok [OF less.prems(1) len])
    obtain ll lr where pl: "partition_leaf leaf (bits_of p) = Inr (ll, lr)" and lok: "leaf_ok (p @ [False]) bl ll" "leaf_ok (p @ [True]) br lr"
      and lc: "leaf_contents leaf = leaf_contents ll ++ leaf_contents lr"
      and lb: "\<forall>k v. (leaf_contents ll k = Some v \<longrightarrow> \<not> hash_bit k (length p)) \<and>
        (leaf_contents lr k = Some v \<longrightarrow> hash_bit k (length p))"
      by (rule partition_leaf_ok [OF less.prems(3) len bl br])
    from less.hyps [of "p @ [False]", OF _ bok(1) _ lok(1)] len obtain st1 lo l where
      L: "create_subtree h v st (bits_of (p @ [False])) bl ll = Inr (st1, lo)" "created h v (p @ [False]) st st1 l lo"
        "contents l = leaf_contents ll ++ map_of bl" by fastforce
    from less.hyps [of "p @ [True]", OF _ bok(2) _ lok(2)] len obtain st2 ro r where
      R: "create_subtree h v st1 (bits_of (p @ [True])) br lr = Inr (st2, ro)" "created h v (p @ [True]) st1 st2 r ro"
        "contents r = leaf_contents lr ++ map_of br" by fastforce
    let ?st4 = "save_outcome (save_outcome st2 v (bits_of (p @ [False])) lo) v (bits_of (p @ [True])) ro"
    let ?n = "Internal \<lparr>in_left = new_link h v lo, in_right = new_link h v ro\<rparr>"
    note Lc = L(2) [unfolded created_def] and Rc = R(2) [unfolded created_def]
    have "batch \<noteq> []" "\<not> (length batch = 1 \<and> leaf = None)" using two by (auto split: if_splits)
    with Lc Rc have cs: "create_subtree h v st (bits_of p) batch leaf = Inr (?st4, Updated ?n)"
      unfolding create_subtree.simps [of h v st "bits_of p"]
      by (simp add: pb pl extend_bits_of len L(1) R(1) Let_def into_child_eq)
    have ok: "mtree_ok (p @ [False]) l" "mtree_ok (p @ [True]) r" using Lc Rc by simp_all
    have lo: "stands h (tr_nodes st2) v (p @ [False]) l lo"
      "\<And>w q. out_uses (tr_nodes st2) (p @ [False]) l lo w q = out_uses (tr_nodes st1) (p @ [False]) l lo w q"
      using stands_other_half [of v p True st1 st2 l] Lc Rc len by simp_all
    have ro: "stands h (tr_nodes st2) v (p @ [True]) r ro" using Rc by simp
    note S = save_both [OF len ok lo(1) ro refl]
    have cont: "contents (Fork l r) = leaf_contents leaf ++ map_of batch"
    proof
      fix x
      show "contents (Fork l r) x = (leaf_contents leaf ++ map_of batch) x"
        using lb [THEN spec, of x] by (cases "leaf_contents ll x"; cases "leaf_contents lr x")
          (auto simp: L(3) R(3) bl br lc map_add_def map_of_filter [where P = "\<lambda>k. hash_bit k (length p)"]
            map_of_filter [where P = "\<lambda>k. \<not> hash_bit k (length p)"] split: option.split)
    qed
    have heavy: "\<not> (l = Empty \<and> light r) \<and> \<not> (r = Empty \<and> light l)"
    proof -
      have f: "contents (Fork l r) k = Some v1" "contents (Fork l r) k' = Some v2" unfolding cont by (rule kk)+
      have "contents (Fork l r) = contents r" if "l = Empty" using that by simp
      moreover have "contents (Fork l r) = contents l" if "r = Empty" using that by simp
      ultimately show ?thesis using f kk(1) light_contents [of l k v1 k' v2] light_contents [of r k v1 k' v2] by metis
    qed
    have "created h v p st ?st4 (Fork l r) (Updated ?n)"
      unfolding created_def
    proof (intro conjI allI impI)
      have "writes_below v (p @ [False]) st st1" "writes_below v (p @ [True]) st1 st2" using Lc Rc by simp_all
      then have "writes_below v p st st2" by (rule writes_below_trans [OF writes_below_child writes_below_child])
      with S(2) show "writes_below v p st ?st4" by (rule writes_below_trans [rotated])
      show "tr_orphans ?st4 = tr_orphans st" using S(3) Lc Rc by simp
      show "mtree_ok p (Fork l r)" using ok heavy len by simp
      show "stands h (tr_nodes ?st4) v p (Fork l r) (Updated ?n)" using S(1) by (simp only: stands_def node_of.simps option.case)
      fix w q assume "out_uses (tr_nodes ?st4) p (Fork l r) (Updated ?n) w q"
      then have "uses (tr_nodes ?st4) p (Fork l r) ?n w q" by (simp only: out_uses_def node_of.simps option.inject ex_simps simp_thms)
      from S(4) [OF this] show "w = v" using lo(2) Lc Rc by blast
    qed simp
    with cs cont show ?thesis by blast
  qed
qed

subsection \<open>One step\<close>

text \<open>What a step at a path promises, given the old tree there and its node: the writes and the new tree,
  that an unchanged outcome is the old tree and node, that the nodes of the new tree are new or were
  used before, and that an orphaned node is of an old version and not used by the new tree.\<close>

definition orphans_ok :: "u64 \<Rightarrow> u64 \<Rightarrow> bool list \<Rightarrow> merkle_store \<Rightarrow> merkle_store \<Rightarrow> (u64 \<Rightarrow> bool list \<Rightarrow> bool) \<Rightarrow> bool" where
  "orphans_ok v m p st st' used \<longleftrightarrow> set (tr_orphans st) \<subseteq> set (tr_orphans st') \<and>
     (\<forall>(s, w, b) \<in> set (tr_orphans st') - set (tr_orphans st). s = v \<and> w \<le> m \<and>
       (\<exists>q. below p q \<and> b = bits_of q \<and> (\<forall>u. used u q \<longrightarrow> u = v)))"

definition applied ::
    "hash_fun \<Rightarrow> u64 \<Rightarrow> u64 \<Rightarrow> bool list \<Rightarrow> merkle_store \<Rightarrow> merkle_store \<Rightarrow> mtree \<Rightarrow> node option \<Rightarrow> mtree \<Rightarrow> outcome \<Rightarrow> bool" where
  "applied h v m p st st' old old_node t out \<longleftrightarrow> writes_below v p st st' \<and> mtree_ok p t \<and>
     stands h (tr_nodes st') v p t out \<and> (\<forall>x. out = Unchanged x \<longrightarrow> t = old \<and> x = old_node) \<and>
     orphans_ok v m p st st' (out_uses (tr_nodes st') p t out) \<and>
     (\<forall>w q. out_uses (tr_nodes st') p t out w q \<longrightarrow> w = v \<or> out_uses (tr_nodes st) p old (Unchanged old_node) w q)"

lemma orphans_ok_same: "tr_orphans st' = tr_orphans st \<Longrightarrow> orphans_ok v m p st st' used"
  by (simp add: orphans_ok_def)

lemma created_applied:
  assumes "created h v p st st' t out" and "\<And>x. out = Unchanged x \<Longrightarrow> t = old \<and> x = old_node"
  shows "applied h v m p st st' old old_node t out"
  using assms unfolding created_def applied_def by (blast intro: orphans_ok_same)

subsection \<open>Preparing a batch\<close>

definition inserted :: "hash256 batch_op option \<Rightarrow> hash256 option" where
  "inserted op = (case op of Some (OpInsert v) \<Rightarrow> Some v | _ \<Rightarrow> None)"

lemma map_filter_inserts:
  assumes "batch_ok p ops"
  shows "batch_ok p (List.map_filter (\<lambda>(k, op). if P k then None
      else (case op of OpInsert v \<Rightarrow> Some (k, v) | OpDelete \<Rightarrow> None)) ops) \<and>
    map_of (List.map_filter (\<lambda>(k, op). if P k then None
      else (case op of OpInsert v \<Rightarrow> Some (k, v) | OpDelete \<Rightarrow> None)) ops) x =
      (if P x then None else inserted (map_of ops x))"
  (is "batch_ok p (?f ops) \<and> map_of (?f ops) x = ?r ops")
proof -
  have keys: "fst ` set (?f xs) \<subseteq> fst ` set xs" for xs
    by (auto simp: map_filter_def image_iff split: batch_op.splits if_splits; force)
  show ?thesis using assms
  proof (induction ops)
    case (Cons e ops)
    obtain k op where e: "e = (k, op)" by (cases e)
    have b: "batch_ok p ops" "on_path p k" "\<And>k'. k' \<in> fst ` set ops \<Longrightarrow> k < k'"
      using Cons.prems by (auto simp: batch_ok_def e)
    have no: "map_of ops k = None" using b(3) by (force simp: map_of_eq_None_iff)
    have f: "?f (e # ops) = (if P k then ?f ops else (case op of OpInsert v \<Rightarrow> (k, v) # ?f ops | OpDelete \<Rightarrow> ?f ops))"
      by (simp add: e map_filter_simps split: batch_op.split)
    have "batch_ok p ((k, v) # ?f ops)" for v
      using Cons.IH [OF b(1)] b(2) keys [of ops] b(3) by (auto simp: batch_ok_def)
    with Cons.IH [OF b(1)] no show ?case
      unfolding f by (auto simp: e inserted_def split: batch_op.splits option.splits)
  qed (simp add: batch_ok_def map_filter_simps inserted_def)
qed

lemma prepare_none:
  assumes "batch_ok p ops"
  shows "batch_ok p (fst (prepare_batch_for_subtree ops None))"
    and "map_of (fst (prepare_batch_for_subtree ops None)) = apply_ops ops Map.empty"
  using map_filter_inserts [OF assms, of "\<lambda>_. False"]
  by (auto simp: prepare_batch_for_subtree_def apply_ops_def inserted_def fun_eq_iff split: option.splits batch_op.splits)

lemma filter_key_last:
  assumes "distinct (map fst ops)"
  shows "(case rev (filter (\<lambda>e. fst e = k) ops) of [] \<Rightarrow> None | e # _ \<Rightarrow> Some (snd e)) = map_of ops k"
proof -
  have "filter (\<lambda>e. fst e = k) ops = (case map_of ops k of None \<Rightarrow> [] | Some op \<Rightarrow> [(k, op)])"
    using assms
  proof (induction ops)
    case (Cons e ops)
    show ?case
    proof (cases "fst e = k")
      case True
      have "k \<notin> fst ` set ops" using Cons.prems True by simp
      then have "filter (\<lambda>e. fst e = k) ops = []" unfolding filter_empty_conv by (metis image_eqI)
      with True show ?thesis by (cases e) simp
    next
      case False
      with Cons show ?thesis by (cases e) simp
    qed
  qed simp
  then show ?thesis by (auto split: option.split)
qed

lemma prepare_leaf:
  assumes "batch_ok p ops" and "prepare_batch_for_subtree ops (Some leaf) = (batch, op)"
  shows "batch_ok p batch" and "op = map_of ops (lf_key_hash leaf)" and "lf_key_hash leaf \<notin> fst ` set batch"
    and "map_of batch x = (if x = lf_key_hash leaf then None else inserted (map_of ops x))"
proof -
  note m = map_filter_inserts [OF assms(1), of "\<lambda>k. k = lf_key_hash leaf"]
  have b: "batch = List.map_filter (\<lambda>(k, op). if k = lf_key_hash leaf then None
      else (case op of OpInsert v \<Rightarrow> Some (k, v) | OpDelete \<Rightarrow> None)) ops"
    using assms(2) by (simp add: prepare_batch_for_subtree_def)
  show "batch_ok p batch" using m by (simp add: b)
  show x: "map_of batch x = (if x = lf_key_hash leaf then None else inserted (map_of ops x))" for x using m by (simp add: b)
  show "lf_key_hash leaf \<notin> fst ` set batch" using x [of "lf_key_hash leaf"] by (simp add: map_of_eq_None_iff)
  show "op = map_of ops (lf_key_hash leaf)"
    using assms(2) filter_key_last [OF batch_ok_distinct [OF assms(1)]] by (simp add: prepare_batch_for_subtree_def)
qed

subsection \<open>At a leaf, and where there is no node\<close>

lemma apply_at_none:
  assumes "batch_ok p ops" and "length p \<le> 256"
  shows "\<exists>st' out t. create_subtree h v st (bits_of p) (fst (prepare_batch_for_subtree ops None)) None = Inr (st', out) \<and>
    applied h v m p st st' Empty None t out \<and> contents t = apply_ops ops (contents Empty) \<and>
    tr_orphans st' = tr_orphans st"
proof -
  let ?b = "fst (prepare_batch_for_subtree ops None)"
  have "leaf_ok p ?b None" by (simp add: leaf_ok_def)
  from create_subtree_ok [OF prepare_none(1) [OF assms(1)] assms(2) this] obtain st' out t where
    c: "create_subtree h v st (bits_of p) ?b None = Inr (st', out)" "created h v p st st' t out"
      "contents t = leaf_contents None ++ map_of ?b" "?b \<noteq> [] \<longrightarrow> (\<exists>n. out = Updated n)" by blast
  have "t = Empty \<and> x = None" if "out = Unchanged x" for x
  proof -
    have "?b = []" using c(4) that by auto
    then have "out = Unchanged None" using c(1) by (simp add: create_subtree.simps)
    with c(2) that show ?thesis by (auto simp: created_def stands_def)
  qed
  from created_applied [OF c(2) this] c(1,3) show ?thesis
    using c(2) by (auto simp: leaf_contents_def prepare_none(2) [OF assms(1)] created_def)
qed

lemma apply_at_leaf_ok:
  assumes "batch_ok p ops" and "on_path p k"
  shows "\<exists>st' out t. apply_at_leaf h v st (bits_of p) \<lparr>lf_key_hash = k, lf_value_hash = x\<rparr> ops = Inr (st', out) \<and>
    applied h v m p st st' (Tip k x) (Some (Leaf \<lparr>lf_key_hash = k, lf_value_hash = x\<rparr>)) t out \<and>
    contents t = apply_ops ops (contents (Tip k x))"
proof -
  let ?leaf = "\<lparr>lf_key_hash = k, lf_value_hash = x\<rparr>"
  obtain batch op where pb: "prepare_batch_for_subtree ops (Some ?leaf) = (batch, op)" by (cases "prepare_batch_for_subtree ops (Some ?leaf)")
  note P = prepare_leaf [OF assms(1) pb, simplified]
  have len: "length p \<le> 256" using assms(2) by (simp add: on_path_def)
  have cont: "apply_ops ops [k \<mapsto> x] y = (if y = k then (case op of None \<Rightarrow> Some x | Some o' \<Rightarrow> inserted op) else map_of batch y)" for y
    by (auto simp: apply_ops_def P(2,4) inserted_def split: option.splits batch_op.splits)
  show ?thesis
  proof (cases "batch = []")
    case True
    have al: "apply_at_leaf h v st (bits_of p) ?leaf ops = (case op of
        None \<Rightarrow> Inr (st, Unchanged (Some (Leaf ?leaf)))
      | Some (OpInsert y) \<Rightarrow> if y = x then Inr (st, Unchanged (Some (Leaf ?leaf))) else Inr (st, Updated (Leaf \<lparr>lf_key_hash = k, lf_value_hash = y\<rparr>))
      | Some OpDelete \<Rightarrow> Inr (st, Deleted))"
      by (simp add: apply_at_leaf_def pb True split: option.split batch_op.split)
    have tip: "created h v p st st (Tip k y) (Updated (Leaf \<lparr>lf_key_hash = k, lf_value_hash = y\<rparr>))"
      "created h v p st st (Tip k y) (Unchanged (Some (Leaf \<lparr>lf_key_hash = k, lf_value_hash = y\<rparr>)))" for y
      using created_leaf [of p "\<lparr>lf_key_hash = k, lf_value_hash = y\<rparr>"] assms(2) by simp_all
    have same: "applied h v m p st st (Tip k x) (Some (Leaf ?leaf)) (Tip k x) (Unchanged (Some (Leaf ?leaf)))"
      by (rule created_applied [OF tip(2)]) simp
    have upd: "applied h v m p st st (Tip k x) (Some (Leaf ?leaf)) (Tip k y) (Updated (Leaf \<lparr>lf_key_hash = k, lf_value_hash = y\<rparr>))" for y
      by (rule created_applied [OF tip(1)]) simp
    have del: "applied h v m p st st (Tip k x) (Some (Leaf ?leaf)) Empty Deleted"
      by (simp add: applied_def writes_below_refl stands_def orphans_ok_same out_uses_def)
    consider "op = None \<or> op = Some (OpInsert x)" | y where "op = Some (OpInsert y)" "y \<noteq> x" | "op = Some OpDelete"
      by (cases op; cases "the op") auto
    then show ?thesis
    proof cases
      case 1
      then have "contents (Tip k x) = apply_ops ops (contents (Tip k x))"
        using cont True by (auto simp: inserted_def fun_eq_iff)
      with 1 same show ?thesis
        unfolding al by (intro exI [of _ st] exI [of _ "Unchanged (Some (Leaf ?leaf))"] exI [of _ "Tip k x"]) auto
    next
      case (2 y)
      then have "contents (Tip k y) = apply_ops ops (contents (Tip k x))"
        using cont True by (auto simp: inserted_def fun_eq_iff)
      with 2 upd [of y] show ?thesis unfolding al
        by (intro exI [of _ st] exI [of _ "Updated (Leaf \<lparr>lf_key_hash = k, lf_value_hash = y\<rparr>)"] exI [of _ "Tip k y"]) auto
    next
      case 3
      then have "contents Empty = apply_ops ops (contents (Tip k x))"
        using cont True by (auto simp: inserted_def fun_eq_iff)
      with 3 del show ?thesis unfolding al
        by (intro exI [of _ st] exI [of _ Deleted] exI [of _ Empty]) auto
    qed
  next
    case False
    define leaf' where "leaf' = (case op of None \<Rightarrow> Some ?leaf
      | Some (OpInsert y) \<Rightarrow> Some \<lparr>lf_key_hash = k, lf_value_hash = y\<rparr> | Some OpDelete \<Rightarrow> None)"
    have al: "apply_at_leaf h v st (bits_of p) ?leaf ops = create_subtree h v st (bits_of p) batch leaf'"
      using False by (cases batch) (simp_all add: apply_at_leaf_def pb leaf'_def split: option.split batch_op.split)
    have "leaf_ok p batch leaf'"
      using assms(2) P(3) by (auto simp: leaf'_def leaf_ok_def split: option.split batch_op.split)
    from create_subtree_ok [OF P(1) len this] obtain st' out t where
      c: "create_subtree h v st (bits_of p) batch leaf' = Inr (st', out)" "created h v p st st' t out"
        "contents t = leaf_contents leaf' ++ map_of batch" "batch \<noteq> [] \<longrightarrow> (\<exists>n. out = Updated n)" by blast
    have "applied h v m p st st' (Tip k x) (Some (Leaf ?leaf)) t out"
      by (rule created_applied [OF c(2)]) (use c(4) False in auto)
    moreover have "contents t y = apply_ops ops (contents (Tip k x)) y" for y
    proof -
      have "map_of batch k = None" using P(3) by (simp add: map_of_eq_None_iff)
      moreover have "leaf_contents leaf' y = (if y = k then (case op of None \<Rightarrow> Some x | Some _ \<Rightarrow> inserted op) else None)"
      proof -
        have some: "leaf_contents (Some l) = [lf_key_hash l \<mapsto> lf_value_hash l]" "leaf_contents None = Map.empty" for l
          by (simp_all add: leaf_contents_def)
        show ?thesis by (cases op; cases "the op") (simp_all add: leaf'_def some inserted_def)
      qed
      ultimately show ?thesis
        using cont [of y] by (cases "y = k") (simp_all add: c(3) map_add_def split: option.split)
    qed
    ultimately show ?thesis using c(1) unfolding al by blast
  qed
qed

end
