(* ===== verification/Merkle_Step.thy ===== *)
theory Merkle_Step
  imports Merkle_Apply
begin

text \<open>
  A batch applied at an internal node: both children are dealt with, and their outcomes are combined into
  the outcome of the node, which collapses when one leaf is all that is left.
\<close>

subsection \<open>Combining the children\<close>

fun unchanged :: "outcome \<Rightarrow> bool" where
  "unchanged (Unchanged _) \<longleftrightarrow> True"
| "unchanged _ \<longleftrightarrow> False"

definition collapse :: "mtree \<Rightarrow> mtree \<Rightarrow> mtree" where
  "collapse l r = (if l = Empty \<and> light r then r else if r = Empty \<and> light l then l else Fork l r)"

lemma collapse_contents: "contents (collapse l r) = contents (Fork l r)"
  by (simp add: collapse_def)

lemma on_path_shorten: "on_path (p @ [b]) k \<Longrightarrow> on_path p k"
  by (simp add: on_path_snoc)

lemma collapse_ok:
  assumes "mtree_ok (p @ [False]) l" and "mtree_ok (p @ [True]) r" and "length p < 256"
  shows "mtree_ok p (collapse l r)"
  using assms by (cases l; cases r) (auto simp: collapse_def dest: on_path_shorten)

text \<open>The combination as one case distinction over what the children have become.\<close>

lemma combine_eq:
  "combine_children h v lb rb n lo ro st =
    (if unchanged lo \<and> unchanged ro then Inr (st, Unchanged (Some (Internal n)))
     else case (node_of lo, node_of ro) of
       (None, None) \<Rightarrow> Inr (st, Deleted)
     | (Some x, None) \<Rightarrow>
         if is_leaf x then (if unchanged lo then move_up v lb (in_left n) x st else Inr (st, Updated x))
         else Inr (update_both h v lb rb n lo ro st)
     | (None, Some y) \<Rightarrow>
         if is_leaf y then (if unchanged ro then move_up v rb (in_right n) y st else Inr (st, Updated y))
         else Inr (update_both h v lb rb n lo ro st)
     | _ \<Rightarrow> Inr (update_both h v lb rb n lo ro st))"
  by (cases "(h, v, lb, rb, n, lo, ro, st)" rule: combine_children.cases) auto

subsection \<open>Links to the children\<close>

text \<open>The link of the new node to a child, at the child's path.\<close>

definition fits :: "hash_fun \<Rightarrow> nodes \<Rightarrow> u64 \<Rightarrow> bool list \<Rightarrow> outcome \<Rightarrow> child option \<Rightarrow> bool" where
  "fits h nodes v p out c \<longleftrightarrow> (case node_of out of
     None \<Rightarrow> c = None
   | Some n \<Rightarrow> \<exists>ch. c = Some ch \<and> nodes (ch_version ch, bits_of p) = Some n \<and> ch_hash ch = node_hash h n \<and>
       ch_version ch \<le> v)"

lemma fits_link:
  assumes "fits h nodes v p out c" and "stands h nodes v p t out"
  shows "link h nodes v p t c"
  using assms by (auto simp: fits_def stands_def link_ok_def represents_hash split: option.splits)

definition at_link :: "child option \<Rightarrow> u64 \<Rightarrow> bool" where
  "at_link c w \<longleftrightarrow> (\<exists>ch. c = Some ch \<and> w = ch_version ch)"

lemma fits_uses:
  assumes "fits h nodes v (p @ [False]) lo cl" and "fits h nodes v (p @ [True]) ro cr"
    and "uses nodes p (Fork l r) (Internal \<lparr>in_left = cl, in_right = cr\<rparr>) w q"
  shows "q = p @ [False] \<and> at_link cl w \<or> q = p @ [True] \<and> at_link cr w \<or>
    out_uses nodes (p @ [False]) l lo w q \<or> out_uses nodes (p @ [True]) r ro w q"
  using assms by (auto simp: fits_def out_uses_def at_link_def split: option.splits)

lemma fits_fork:
  assumes "fits h nodes v (p @ [False]) lo cl" and "fits h nodes v (p @ [True]) ro cr"
    and "stands h nodes v (p @ [False]) l lo" and "stands h nodes v (p @ [True]) r ro"
  shows "represents h nodes v p (Fork l r) (Internal \<lparr>in_left = cl, in_right = cr\<rparr>)"
  using fits_link [OF assms(1,3)] fits_link [OF assms(2,4)] by simp

subsection \<open>Orphans\<close>

lemma orphans_ok_join:
  assumes "orphans_ok v m (p @ [False]) st st1 ul" and "orphans_ok v m (p @ [True]) st1 st2 ur"
    and "set (tr_orphans st') = set (tr_orphans st2) \<union> X"
    and X: "\<forall>x \<in> X. \<exists>b w. x = (v, w, bits_of (p @ [b])) \<and> w \<le> m \<and> (\<forall>u. used u (p @ [b]) \<longrightarrow> u = v)"
    and ul: "\<forall>u q. used u q \<and> below (p @ [False]) q \<longrightarrow> ul u q"
    and ur: "\<forall>u q. used u q \<and> below (p @ [True]) q \<longrightarrow> ur u q"
    and "length p < 256"
  shows "orphans_ok v m p st st' used"
  unfolding orphans_ok_def
proof (intro conjI ballI)
  show "set (tr_orphans st) \<subseteq> set (tr_orphans st')" using assms(1-3) by (auto simp: orphans_ok_def)
  fix x assume x: "x \<in> set (tr_orphans st') - set (tr_orphans st)"
  obtain s w b where e: "x = (s, w, b)" by (cases x)
  have *: "s = v \<and> w \<le> m \<and> (\<exists>q. below p q \<and> b = bits_of q \<and> (\<forall>u. used u q \<longrightarrow> u = v))"
  proof -
    consider "x \<in> X" | "x \<in> set (tr_orphans st1) - set (tr_orphans st)" | "x \<in> set (tr_orphans st2) - set (tr_orphans st1)"
      using x assms(3) by blast
    then show ?thesis
    proof cases
      case 1
      with X below_child [OF assms(7)] show ?thesis unfolding e by blast
    next
      case 2
      with assms(1) obtain q where "s = v" "w \<le> m" "below (p @ [False]) q" "b = bits_of q" "\<forall>u. ul u q \<longrightarrow> u = v"
        unfolding orphans_ok_def e by blast
      with ul below_snoc show ?thesis by metis
    next
      case 3
      with assms(2) obtain q where "s = v" "w \<le> m" "below (p @ [True]) q" "b = bits_of q" "\<forall>u. ur u q \<longrightarrow> u = v"
        unfolding orphans_ok_def e by blast
      with ur below_snoc show ?thesis by metis
    qed
  qed
  show "case x of (s, w, b) \<Rightarrow> s = v \<and> w \<le> m \<and> (\<exists>q. below p q \<and> b = bits_of q \<and> (\<forall>u. used u q \<longrightarrow> u = v))"
    using * by (simp add: e)
qed

text \<open>The orphan records made for the children that have changed.\<close>

definition changed_link :: "u64 \<Rightarrow> bitarray \<Rightarrow> outcome \<Rightarrow> child option \<Rightarrow> (u64 \<times> u64 \<times> bitarray) set" where
  "changed_link v b out c = (if unchanged out then {} else (\<lambda>ch. (v, ch_version ch, b)) ` set_option c)"

lemma orphan_child_eq:
  "tr_nodes (orphan_child v b out c st) = tr_nodes st"
  "set (tr_orphans (orphan_child v b out c st)) = set (tr_orphans st) \<union> changed_link v b out c"
  by (cases "(v, b, out, c, st)" rule: orphan_child.cases;
      auto simp: changed_link_def mark_node_as_orphaned_def)+

subsection \<open>A node with both children updated\<close>

definition next_link :: "hash_fun \<Rightarrow> u64 \<Rightarrow> outcome \<Rightarrow> child option \<Rightarrow> child option" where
  "next_link h v out c = (if unchanged out then c else new_link h v out)"

definition save_changed :: "merkle_store \<Rightarrow> u64 \<Rightarrow> bitarray \<Rightarrow> outcome \<Rightarrow> merkle_store" where
  "save_changed st v b out = (if unchanged out then st else save_outcome st v b out)"

lemma updated_child_eq: "updated_child h v b out c st = (save_changed st v b out, next_link h v out c)"
  by (cases "(h, v, b, out, c, st)" rule: updated_child.cases)
    (simp_all add: save_changed_def next_link_def new_link_def)

lemma update_both_eq:
  "update_both h v lb rb i lo ro st = (save_changed (save_changed st v lb lo) v rb ro,
     Updated (Internal \<lparr>in_left = next_link h v lo (in_left i), in_right = next_link h v ro (in_right i)\<rparr>))"
  by (simp add: update_both_def updated_child_eq)

lemma save_changed_node:
  "tr_nodes (save_changed st v b out) = (if unchanged out then tr_nodes st
     else case node_of out of None \<Rightarrow> tr_nodes st | Some n \<Rightarrow> (tr_nodes st)((v, b) \<mapsto> n))"
  by (simp add: save_changed_def save_outcome_eq save_node_def split: option.split)

lemma save_changed_orphans [simp]: "tr_orphans (save_changed st v b out) = tr_orphans st"
  by (simp add: save_changed_def save_outcome_eq save_node_def split: option.split)

lemma save_changed_writes: "length p < 256 \<Longrightarrow> writes_below v p st (save_changed st v (bits_of (p @ [b])) out)"
  by (simp add: save_changed_def save_outcome_eq writes_below_refl writes_below_save split: option.split)

lemma save_changed_fits:
  assumes "unchanged out \<Longrightarrow> fits h nodes v p out c" and "\<And>w. tr_nodes st (w, bits_of p) = nodes (w, bits_of p)"
  shows "fits h (tr_nodes (save_changed st v (bits_of p) out)) v p out (next_link h v out c)"
  using assms by (cases out) (auto simp: next_link_def save_changed_node fits_def new_link_def split: option.splits)

text \<open>The node of the new children stands for the fork of their trees.\<close>

lemma update_both_ok:
  assumes "length p < 256" and "mtree_ok (p @ [False]) l" and "mtree_ok (p @ [True]) r"
    and l: "stands h (tr_nodes st) v (p @ [False]) l lo" "unchanged lo \<Longrightarrow> fits h (tr_nodes st) v (p @ [False]) lo (in_left i)"
    and r: "stands h (tr_nodes st) v (p @ [True]) r ro" "unchanged ro \<Longrightarrow> fits h (tr_nodes st) v (p @ [True]) ro (in_right i)"
    and e: "update_both h v (bits_of (p @ [False])) (bits_of (p @ [True])) i lo ro st = (st', out)"
  shows "stands h (tr_nodes st') v p (Fork l r) out" and "writes_below v p st st'" and "tr_orphans st' = tr_orphans st"
    and "out_uses (tr_nodes st') p (Fork l r) out w q \<Longrightarrow>
      q = p @ [False] \<and> at_link (next_link h v lo (in_left i)) w \<or>
      q = p @ [True] \<and> at_link (next_link h v ro (in_right i)) w \<or>
      out_uses (tr_nodes st) (p @ [False]) l lo w q \<or> out_uses (tr_nodes st) (p @ [True]) r ro w q"
proof -
  let ?lb = "bits_of (p @ [False])" and ?rb = "bits_of (p @ [True])"
  let ?cl = "next_link h v lo (in_left i)" and ?cr = "next_link h v ro (in_right i)"
  define st1 where "st1 = save_changed st v ?lb lo"
  have st': "st' = save_changed st1 v ?rb ro" and out: "out = Updated (Internal \<lparr>in_left = ?cl, in_right = ?cr\<rparr>)"
    using e by (simp_all add: update_both_eq st1_def)
  note neq = child_bits_neq [OF assms(1)]
  have same: "tr_nodes st' (w, bits_of q) = tr_nodes st (w, bits_of q)" if "below (p @ [b]) q" for b w q
  proof -
    have "bits_of q \<noteq> bits_of (p @ [b'])" for b'
      using bits_of_inj [of q "p @ [b']"] below_length [OF that] below_not_self(2) [OF that] assms(1) by auto
    then show ?thesis by (simp add: st' st1_def save_changed_node split: option.split)
  qed
  note L = stands_cong [where nodes' = "tr_nodes st'" and nodes = "tr_nodes st", OF assms(2) same]
  note R = stands_cong [where nodes' = "tr_nodes st'" and nodes = "tr_nodes st", OF assms(3) same]
  have "fits h (tr_nodes st1) v (p @ [False]) lo ?cl"
    unfolding st1_def by (rule save_changed_fits [where nodes = "tr_nodes st", OF l(2) refl])
  then have fl: "fits h (tr_nodes st') v (p @ [False]) lo ?cl"
    using neq by (simp add: fits_def st' save_changed_node split: option.splits)
  have fr: "fits h (tr_nodes st') v (p @ [True]) ro ?cr"
    unfolding st' by (rule save_changed_fits [where nodes = "tr_nodes st", OF r(2)])
      (use neq in \<open>simp_all add: st1_def save_changed_node split: option.split\<close>)
  show "stands h (tr_nodes st') v p (Fork l r) out"
    using fits_fork [OF fl fr iffD2 [OF L(1) l(1)] iffD2 [OF R(1) r(1)]]
    by (simp only: stands_def out node_of.simps option.case)
  show "writes_below v p st st'" unfolding st' st1_def
    by (rule writes_below_trans [OF save_changed_writes [OF assms(1)] save_changed_writes [OF assms(1)]])
  show "tr_orphans st' = tr_orphans st" by (simp add: st' st1_def)
  assume "out_uses (tr_nodes st') p (Fork l r) out w q"
  then have "uses (tr_nodes st') p (Fork l r) (Internal \<lparr>in_left = ?cl, in_right = ?cr\<rparr>) w q"
    by (simp only: out out_uses_def node_of.simps option.inject ex_simps simp_thms)
  from fits_uses [OF fl fr this] show "q = p @ [False] \<and> at_link ?cl w \<or> q = p @ [True] \<and> at_link ?cr w \<or>
      out_uses (tr_nodes st) (p @ [False]) l lo w q \<or> out_uses (tr_nodes st) (p @ [True]) r ro w q"
    by (simp only: L(2) R(2))
qed

subsection \<open>The step\<close>

definition child_node :: "nodes \<Rightarrow> bool list \<Rightarrow> child option \<Rightarrow> node option" where
  "child_node nodes p c = (case c of None \<Rightarrow> None | Some ch \<Rightarrow> nodes (ch_version ch, bits_of p))"

lemma kept_fits:
  assumes "link h nodes m p t c" and "m \<le> v" and "\<And>x. out = Unchanged x \<Longrightarrow> x = child_node nodes p c"
    and "\<And>w. nodes' (w, bits_of p) = nodes (w, bits_of p)" and "unchanged out"
  shows "fits h nodes' v p out c"
  using assms by (cases out) (auto simp: link_ok_def fits_def child_node_def dest: represents_hash split: option.splits)

lemma at_link_uses:
  "at_link (in_left i) w \<Longrightarrow> out_uses nodes p (Fork l r) (Unchanged (Some (Internal i))) w (p @ [False])"
  "at_link (in_right i) w \<Longrightarrow> out_uses nodes p (Fork l r) (Unchanged (Some (Internal i))) w (p @ [True])"
  by (auto simp: at_link_def out_uses_def)

lemma child_uses:
  "out_uses nodes (p @ [False]) l (Unchanged (child_node nodes (p @ [False]) (in_left i))) w q \<Longrightarrow>
    out_uses nodes p (Fork l r) (Unchanged (Some (Internal i))) w q"
  "out_uses nodes (p @ [True]) r (Unchanged (child_node nodes (p @ [True]) (in_right i))) w q \<Longrightarrow>
    out_uses nodes p (Fork l r) (Unchanged (Some (Internal i))) w q"
  by (auto simp: out_uses_def child_node_def split: option.splits)

lemma next_link_old: "at_link (next_link h v out c) w \<Longrightarrow> w = v \<or> at_link c w"
  by (auto simp: next_link_def new_link_def at_link_def split: if_splits)

lemma next_link_changed: "at_link (next_link h v out c) w \<Longrightarrow> \<not> unchanged out \<Longrightarrow> w = v"
  by (auto simp: next_link_def new_link_def at_link_def)

lemma out_uses_below: "mtree_ok p t \<Longrightarrow> out_uses nodes p t out w q \<Longrightarrow> below p q"
  by (auto simp: out_uses_def dest: uses_below)

text \<open>Both children dealt with: the situation in which they are combined.\<close>

definition joining ::
    "hash_fun \<Rightarrow> u64 \<Rightarrow> u64 \<Rightarrow> bool list \<Rightarrow> merkle_store \<Rightarrow> merkle_store \<Rightarrow> merkle_store \<Rightarrow> mtree \<Rightarrow> mtree \<Rightarrow>
     internal_node \<Rightarrow> mtree \<Rightarrow> mtree \<Rightarrow> outcome \<Rightarrow> outcome \<Rightarrow> bool" where
  "joining h v m p st st1 st2 l r i l' r' lo ro \<longleftrightarrow> m \<le> v \<and> mtree_ok p (Fork l r) \<and>
     link h (tr_nodes st) m (p @ [False]) l (in_left i) \<and> link h (tr_nodes st) m (p @ [True]) r (in_right i) \<and>
     applied h v m (p @ [False]) st st1 l (child_node (tr_nodes st) (p @ [False]) (in_left i)) l' lo \<and>
     applied h v m (p @ [True]) st1 st2 r (child_node (tr_nodes st1) (p @ [True]) (in_right i)) r' ro"

lemma joining_facts:
  assumes J: "joining h v m p st st1 st2 l r i l' r' lo ro"
  shows "length p < 256" and "mtree_ok (p @ [False]) l'" and "mtree_ok (p @ [True]) r'" and "writes_below v p st st2"
    and "stands h (tr_nodes st2) v (p @ [False]) l' lo" and "stands h (tr_nodes st2) v (p @ [True]) r' ro"
    and "unchanged lo \<Longrightarrow> fits h (tr_nodes st2) v (p @ [False]) lo (in_left i) \<and> l' = l"
    and "unchanged ro \<Longrightarrow> fits h (tr_nodes st2) v (p @ [True]) ro (in_right i) \<and> r' = r"
    and "out_uses (tr_nodes st2) (p @ [False]) l' lo w q \<longleftrightarrow> out_uses (tr_nodes st1) (p @ [False]) l' lo w q"
    and "out_uses (tr_nodes st2) (p @ [False]) l' lo w q \<or> out_uses (tr_nodes st2) (p @ [True]) r' ro w q \<Longrightarrow>
      w = v \<or> out_uses (tr_nodes st) p (Fork l r) (Unchanged (Some (Internal i))) w q"
proof -
  note L = J [unfolded joining_def applied_def, THEN conjunct2, THEN conjunct2, THEN conjunct2, THEN conjunct2, THEN conjunct1]
  note R = J [unfolded joining_def applied_def, THEN conjunct2, THEN conjunct2, THEN conjunct2, THEN conjunct2, THEN conjunct2]
  show p: "length p < 256" using J by (simp add: joining_def)
  show l': "mtree_ok (p @ [False]) l'" using L by simp
  show r': "mtree_ok (p @ [True]) r'" using R by simp
  have wl: "writes_below v (p @ [False]) st st1" using L by simp
  have wr: "writes_below v (p @ [True]) st1 st2" using R by simp
  show "writes_below v p st st2" by (rule writes_below_trans [OF writes_below_child [OF wl] writes_below_child [OF wr]])
  note H = stands_other_half [OF wr p, simplified, OF l']
  show "stands h (tr_nodes st2) v (p @ [False]) l' lo" using L H(1) by simp
  show "stands h (tr_nodes st2) v (p @ [True]) r' ro" using R by simp
  show H2: "out_uses (tr_nodes st2) (p @ [False]) l' lo w q \<longleftrightarrow> out_uses (tr_nodes st1) (p @ [False]) l' lo w q" for w q
    by (rule H(2))
  have rn: "child_node (tr_nodes st1) (p @ [True]) (in_right i) = child_node (tr_nodes st) (p @ [True]) (in_right i)"
    using other_half(1) [OF wl p] by (simp add: child_node_def split: option.split)
  have at: "tr_nodes st2 (w, bits_of (p @ [b])) = tr_nodes st (w, bits_of (p @ [b]))" for w b
    using unwritten [OF wl, of "p @ [b]"] unwritten [OF wr, of "p @ [b]"] p by (auto simp: below_def)
  show "unchanged lo \<Longrightarrow> fits h (tr_nodes st2) v (p @ [False]) lo (in_left i) \<and> l' = l"
    using J L by (intro conjI kept_fits [where nodes = "tr_nodes st", OF _ _ _ at]) (auto simp: joining_def elim: unchanged.elims)
  show "unchanged ro \<Longrightarrow> fits h (tr_nodes st2) v (p @ [True]) ro (in_right i) \<and> r' = r"
    using J R rn by (intro conjI kept_fits [where nodes = "tr_nodes st", OF _ _ _ at]) (auto simp: joining_def elim: unchanged.elims)
  have r: "mtree_ok (p @ [True]) r" using J by (simp add: joining_def)
  have "out_uses (tr_nodes st1) (p @ [True]) r (Unchanged (child_node (tr_nodes st) (p @ [True]) (in_right i))) w q =
      out_uses (tr_nodes st) (p @ [True]) r (Unchanged (child_node (tr_nodes st) (p @ [True]) (in_right i))) w q"
    using stands_other_half(2) [OF wl p, simplified, OF r] by simp
  then show "out_uses (tr_nodes st2) (p @ [False]) l' lo w q \<or> out_uses (tr_nodes st2) (p @ [True]) r' ro w q \<Longrightarrow>
      w = v \<or> out_uses (tr_nodes st) p (Fork l r) (Unchanged (Some (Internal i))) w q"
    using L R H2 child_uses unfolding rn by metis
qed

text \<open>The uses of the joined tree: the links of the new node, and what the children's trees use.\<close>

definition joined_uses ::
    "hash_fun \<Rightarrow> u64 \<Rightarrow> bool list \<Rightarrow> nodes \<Rightarrow> internal_node \<Rightarrow> mtree \<Rightarrow> mtree \<Rightarrow> outcome \<Rightarrow> outcome \<Rightarrow> u64 \<Rightarrow> bool list \<Rightarrow> bool" where
  "joined_uses h v p nodes i l' r' lo ro w q \<longleftrightarrow>
     q = p @ [False] \<and> at_link (next_link h v lo (in_left i)) w \<or>
     q = p @ [True] \<and> at_link (next_link h v ro (in_right i)) w \<or>
     out_uses nodes (p @ [False]) l' lo w q \<or> out_uses nodes (p @ [True]) r' ro w q"

lemma joined_old:
  assumes J: "joining h v m p st st1 st2 l r i l' r' lo ro" and "joined_uses h v p (tr_nodes st2) i l' r' lo ro w q"
  shows "w = v \<or> out_uses (tr_nodes st) p (Fork l r) (Unchanged (Some (Internal i))) w q"
  using assms(2) next_link_old at_link_uses joining_facts(10) [OF J] unfolding joined_uses_def by metis

lemma joined_below:
  assumes J: "joining h v m p st st1 st2 l r i l' r' lo ro" and U: "joined_uses h v p (tr_nodes st2) i l' r' lo ro w q"
  shows "below (p @ [False]) q \<Longrightarrow> out_uses (tr_nodes st1) (p @ [False]) l' lo w q"
    and "below (p @ [True]) q \<Longrightarrow> out_uses (tr_nodes st2) (p @ [True]) r' ro w q"
    and "q = p @ [False] \<Longrightarrow> at_link (next_link h v lo (in_left i)) w"
    and "q = p @ [True] \<Longrightarrow> at_link (next_link h v ro (in_right i)) w"
proof -
  note l' = out_uses_below [OF joining_facts(2) [OF J]] and r' = out_uses_below [OF joining_facts(3) [OF J]]
  note disj = below_disjoint [of p False, simplified] below_disjoint [of p True, simplified]
  note self = below_not_self(2)
  show "below (p @ [False]) q \<Longrightarrow> out_uses (tr_nodes st1) (p @ [False]) l' lo w q"
    using U l' r' disj self joining_facts(9) [OF J] unfolding joined_uses_def by metis
  show "below (p @ [True]) q \<Longrightarrow> out_uses (tr_nodes st2) (p @ [True]) r' ro w q"
    using U l' r' disj self unfolding joined_uses_def by metis
  show "q = p @ [False] \<Longrightarrow> at_link (next_link h v lo (in_left i)) w"
    using U l' r' self unfolding joined_uses_def by blast
  show "q = p @ [True] \<Longrightarrow> at_link (next_link h v ro (in_right i)) w"
    using U l' r' self unfolding joined_uses_def by blast
qed

definition old_links :: "u64 \<Rightarrow> bool list \<Rightarrow> internal_node \<Rightarrow> (u64 \<times> u64 \<times> bitarray) set" where
  "old_links v p i = {(v, ch_version c, bits_of (p @ [False])) |c. in_left i = Some c} \<union>
     {(v, ch_version c, bits_of (p @ [True])) |c. in_right i = Some c}"

lemma old_links_version:
  assumes "joining h v m p st st1 st2 l r i l' r' lo ro" and "x \<in> old_links v p i"
  shows "\<exists>b w. x = (v, w, bits_of (p @ [b])) \<and> w \<le> m"
  using assms by (auto simp: joining_def old_links_def link_ok_def)

text \<open>What has to be seen of the combined outcome for the step to be applied.\<close>

lemma join:
  assumes J: "joining h v m p st st1 st2 l r i l' r' lo ro"
    and "writes_below v p st2 st'" and "mtree_ok p t" and "stands h (tr_nodes st') v p t out"
    and "\<And>x. out = Unchanged x \<Longrightarrow> t = Fork l r \<and> x = Some (Internal i)"
    and U: "\<And>w q. out_uses (tr_nodes st') p t out w q \<Longrightarrow> joined_uses h v p (tr_nodes st2) i l' r' lo ro w q"
    and X: "set (tr_orphans st') = set (tr_orphans st2) \<union> X"
    and X': "\<And>x. x \<in> X \<Longrightarrow> \<exists>b w. x = (v, w, bits_of (p @ [b])) \<and> w \<le> m \<and>
      (\<forall>u. out_uses (tr_nodes st') p t out u (p @ [b]) \<longrightarrow> u = v)"
  shows "applied h v m p st st' (Fork l r) (Some (Internal i)) t out"
proof -
  have L: "orphans_ok v m (p @ [False]) st st1 (out_uses (tr_nodes st1) (p @ [False]) l' lo)"
    and R: "orphans_ok v m (p @ [True]) st1 st2 (out_uses (tr_nodes st2) (p @ [True]) r' ro)"
    using J by (simp_all add: joining_def applied_def)
  have "orphans_ok v m p st st' (out_uses (tr_nodes st') p t out)"
    by (rule orphans_ok_join [OF L R X _ _ _ joining_facts(1) [OF J]]) (use X' U joined_below [OF J] in blast)+
  moreover have "w = v \<or> out_uses (tr_nodes st) p (Fork l r) (Unchanged (Some (Internal i))) w q"
    if "out_uses (tr_nodes st') p t out w q" for w q
    by (rule joined_old [OF J U [OF that]])
  moreover have "writes_below v p st st'" by (rule writes_below_trans [OF joining_facts(4) [OF J] assms(2)])
  ultimately show ?thesis using assms(3-5) unfolding applied_def by blast
qed

lemma join_light:
  assumes J: "joining h v m p st st1 st2 l r i l' r' lo ro" and "light t" and "mtree_ok p t"
    and "tr_nodes st' = tr_nodes st2" and "stands h (tr_nodes st2) v p t out" and "\<not> unchanged out"
    and "set (tr_orphans st') = set (tr_orphans st2) \<union> X" and "X \<subseteq> old_links v p i"
  shows "applied h v m p st st' (Fork l r) (Some (Internal i)) t out"
proof (rule join [OF J])
  have none: "\<not> out_uses nodes p t out w q" for nodes w q
    using assms(2) by (cases t) (simp_all add: out_uses_def)
  show "writes_below v p st2 st'" using assms(4) by (simp add: writes_below_def)
  show "\<exists>b w. x = (v, w, bits_of (p @ [b])) \<and> w \<le> m \<and> (\<forall>u. out_uses (tr_nodes st') p t out u (p @ [b]) \<longrightarrow> u = v)"
    if "x \<in> X" for x
    using old_links_version [OF J] that assms(8) none by blast
  show "out_uses (tr_nodes st') p t out w q \<Longrightarrow> joined_uses h v p (tr_nodes st2) i l' r' lo ro w q" for w q
    using none by blast
  show "stands h (tr_nodes st') v p t out" using assms(4,5) by simp
qed (use assms in auto)

lemma join_both:
  assumes J: "joining h v m p st st1 st2 l r i l' r' lo ro"
    and heavy: "\<not> (l' = Empty \<and> light r')" "\<not> (r' = Empty \<and> light l')"
    and "tr_nodes st3 = tr_nodes st2"
    and X: "set (tr_orphans st3) = set (tr_orphans st2) \<union>
      (changed_link v (bits_of (p @ [False])) lo (in_left i) \<union> changed_link v (bits_of (p @ [True])) ro (in_right i))"
    and e: "update_both h v (bits_of (p @ [False])) (bits_of (p @ [True])) i lo ro st3 = (st', out)"
  shows "applied h v m p st st' (Fork l r) (Some (Internal i)) (Fork l' r') out"
proof (rule join [OF J])
  note F = joining_facts [OF J]
  note B = update_both_ok [OF F(1-3), where st = st3 and i = i and st' = st' and out = out and lo = lo and ro = ro and h = h and v = v,
      unfolded assms(4), OF F(5) F(7) [THEN conjunct1] F(6) F(8) [THEN conjunct1] e]
  show "mtree_ok p (Fork l' r')" using F(1-3) heavy by simp
  show "stands h (tr_nodes st') v p (Fork l' r') out" by (rule B(1))
  show "writes_below v p st2 st'" using B(2) by (simp add: writes_below_def assms(4))
  show "out = Unchanged x \<Longrightarrow> Fork l' r' = Fork l r \<and> x = Some (Internal i)" for x
    using e by (simp add: update_both_eq)
  show U: "joined_uses h v p (tr_nodes st2) i l' r' lo ro w q" if "out_uses (tr_nodes st') p (Fork l' r') out w q" for w q
    using B(4) [OF _ _ that] unfolding joined_uses_def by blast
  show "set (tr_orphans st') = set (tr_orphans st2) \<union>
      (changed_link v (bits_of (p @ [False])) lo (in_left i) \<union> changed_link v (bits_of (p @ [True])) ro (in_right i))"
    using B(3) X by simp
  fix x assume x: "x \<in> changed_link v (bits_of (p @ [False])) lo (in_left i) \<union> changed_link v (bits_of (p @ [True])) ro (in_right i)"
  from x consider c where "\<not> unchanged lo" "in_left i = Some c" "x = (v, ch_version c, bits_of (p @ [False]))"
    | c where "\<not> unchanged ro" "in_right i = Some c" "x = (v, ch_version c, bits_of (p @ [True]))"
    by (auto simp: changed_link_def split: if_splits)
  then show "\<exists>b w. x = (v, w, bits_of (p @ [b])) \<and> w \<le> m \<and>
      (\<forall>u. out_uses (tr_nodes st') p (Fork l' r') out u (p @ [b]) \<longrightarrow> u = v)"
  proof cases
    case (1 c)
    have "ch_version c \<le> m" using J 1(2) by (simp add: joining_def link_ok_def)
    with 1 show ?thesis using next_link_changed joined_below(3) [OF J U] by metis
  next
    case (2 c)
    have "ch_version c \<le> m" using J 2(2) by (simp add: joining_def link_ok_def)
    with 2 show ?thesis using next_link_changed joined_below(4) [OF J U] by metis
  qed
qed

lemma changed_links_old:
  "changed_link v (bits_of (p @ [False])) lo (in_left i) \<union> changed_link v (bits_of (p @ [True])) ro (in_right i)
    \<subseteq> old_links v p i"
  by (auto simp: changed_link_def old_links_def)

lemma stands_leaf:
  assumes "stands h nodes m p t out" and "node_of out = Some n" and "is_leaf n" and "mtree_ok (p' @ [b]) t"
  shows "light t \<and> mtree_ok p' t \<and> t \<noteq> Empty \<and> stands h nodes m p'' t (Updated n)"
  using assms on_path_shorten by (cases t) (auto simp: stands_def)

lemma move_up_ok:
  assumes J: "joining h v m p st st1 st2 l r i l' r' lo ro" and "unchanged out"
    and "out = lo \<and> c = in_left i \<and> b = False \<or> out = ro \<and> c = in_right i \<and> b = True" and "node_of out = Some x"
  obtains st' ch where "move_up v (bits_of (p @ [b])) c x st3 = Inr (st', Updated x)"
    and "tr_nodes st' = tr_nodes st3" and "set (tr_orphans st') = set (tr_orphans st3) \<union> {(v, ch, bits_of (p @ [b]))}"
    and "(v, ch, bits_of (p @ [b])) \<in> old_links v p i"
proof -
  have "fits h (tr_nodes st2) v (p @ [b]) out c" using joining_facts(7,8) [OF J] assms(2,3) by auto
  then obtain ch where c: "c = Some ch" using assms(4) by (auto simp: fits_def)
  show thesis
    by (rule that [of "mark_node_as_orphaned st3 v (ch_version ch) (bits_of (p @ [b]))" "ch_version ch"])
      (use assms(3) c in \<open>auto simp: move_up_def mark_node_as_orphaned_def old_links_def\<close>)
qed

text \<open>One leaf is left: it takes the place of the node.\<close>

lemma step_collapse:
  assumes J: "joining h v m p st st1 st2 l r i l' r' lo ro"
    and side: "out = lo \<and> c = in_left i \<and> b = False \<and> t = l' \<or> out = ro \<and> c = in_right i \<and> b = True \<and> t = r'"
    and "node_of out = Some x" and "is_leaf x" and "tr_nodes st3 = tr_nodes st2"
    and X: "set (tr_orphans st3) = set (tr_orphans st2) \<union> X" "X \<subseteq> old_links v p i"
  shows "\<exists>st'. (if unchanged out then move_up v (bits_of (p @ [b])) c x st3 else Inr (st3, Updated x)) =
      Inr (st', Updated x) \<and> applied h v m p st st' (Fork l r) (Some (Internal i)) t (Updated x)"
proof -
  note F = joining_facts [OF J]
  have t: "light t" "mtree_ok p t" "stands h (tr_nodes st2) v p t (Updated x)"
    using side stands_leaf [OF F(5) _ assms(4) F(2)] stands_leaf [OF F(6) _ assms(4) F(3)] assms(3) by auto
  note light = join_light [OF J t(1,2) _ t(3)]
  show ?thesis
  proof (cases "unchanged out")
    case True
    from side have s: "out = lo \<and> c = in_left i \<and> b = False \<or> out = ro \<and> c = in_right i \<and> b = True" by blast
    from move_up_ok [OF J True s assms(3), of st3] obtain st' ch where
      "move_up v (bits_of (p @ [b])) c x st3 = Inr (st', Updated x)" "tr_nodes st' = tr_nodes st3"
      "set (tr_orphans st') = set (tr_orphans st3) \<union> {(v, ch, bits_of (p @ [b]))}"
      "(v, ch, bits_of (p @ [b])) \<in> old_links v p i" by blast
    with True light [of st' "X \<union> {(v, ch, bits_of (p @ [b]))}"] assms(5) X show ?thesis by auto
  next
    case False
    with light [of st3 X] assms(5) X show ?thesis by auto
  qed
qed

lemma step_unchanged:
  assumes J: "joining h v m p st st1 st2 l r i l' r' lo ro" and "unchanged lo" and "unchanged ro"
  shows "applied h v m p st st2 (Fork l r) (Some (Internal i)) (Fork l r) (Unchanged (Some (Internal i)))"
proof (rule join [OF J, where X = "{}"])
  note F = joining_facts [OF J]
  have lr: "l' = l" "r' = r" using F(7,8) assms by simp_all
  have e: "update_both h v (bits_of (p @ [False])) (bits_of (p @ [True])) i lo ro st2 = (st2, Updated (Internal i))"
    using assms by (simp add: update_both_eq save_changed_def next_link_def)
  note B = update_both_ok [OF F(1-3), where st = st2 and i = i and st' = st2 and lo = lo and ro = ro and h = h and v = v,
      OF F(5) F(7) [THEN conjunct1] F(6) F(8) [THEN conjunct1] e, unfolded lr]
  show "mtree_ok p (Fork l r)" using J by (simp add: joining_def)
  show "writes_below v p st2 st2" by (rule writes_below_refl)
  show "stands h (tr_nodes st2) v p (Fork l r) (Unchanged (Some (Internal i)))"
    using B(1) by (simp only: stands_def node_of.simps simp_thms)
  show "joined_uses h v p (tr_nodes st2) i l' r' lo ro w q"
    if "out_uses (tr_nodes st2) p (Fork l r) (Unchanged (Some (Internal i))) w q" for w q
  proof -
    have "out_uses (tr_nodes st2) p (Fork l r) (Updated (Internal i)) w q"
      using that by (simp only: out_uses_def node_of.simps)
    from B(4) [OF _ _ this] show ?thesis unfolding joined_uses_def lr by blast
  qed
qed auto

lemma step_ok:
  assumes J: "joining h v m p st st1 st2 l r i l' r' lo ro"
    and st3: "st3 = orphan_child v (bits_of (p @ [True])) ro (in_right i)
      (orphan_child v (bits_of (p @ [False])) lo (in_left i) st2)"
  shows "\<exists>st' out t. combine_children h v (bits_of (p @ [False])) (bits_of (p @ [True])) i lo ro st3 = Inr (st', out) \<and>
    applied h v m p st st' (Fork l r) (Some (Internal i)) t out \<and> contents t = contents (Fork l' r')"
proof -
  note F = joining_facts [OF J]
  let ?X = "changed_link v (bits_of (p @ [False])) lo (in_left i) \<union> changed_link v (bits_of (p @ [True])) ro (in_right i)"
  have nodes: "tr_nodes st3 = tr_nodes st2" by (simp add: st3 orphan_child_eq)
  have orph: "set (tr_orphans st3) = set (tr_orphans st2) \<union> ?X" by (simp add: st3 orphan_child_eq Un_assoc)
  note old = changed_links_old [of v p lo i ro]
  have el: "l' = Empty \<longleftrightarrow> node_of lo = None" and er: "r' = Empty \<longleftrightarrow> node_of ro = None"
    using F(5,6) by (auto simp: stands_def split: option.splits)
  have ll: "light l' \<longleftrightarrow> (case node_of lo of None \<Rightarrow> True | Some n \<Rightarrow> is_leaf n)"
    and lr: "light r' \<longleftrightarrow> (case node_of ro of None \<Rightarrow> True | Some n \<Rightarrow> is_leaf n)"
    using stands_light [OF F(5)] stands_light [OF F(6)] by simp_all
  consider "unchanged lo" "unchanged ro" | "\<not> (unchanged lo \<and> unchanged ro)" "node_of lo = None" "node_of ro = None"
    | x where "\<not> (unchanged lo \<and> unchanged ro)" "node_of lo = Some x" "node_of ro = None" "is_leaf x"
    | y where "\<not> (unchanged lo \<and> unchanged ro)" "node_of lo = None" "node_of ro = Some y" "is_leaf y"
    | "\<not> (unchanged lo \<and> unchanged ro)" "\<not> (l' = Empty \<and> light r')" "\<not> (r' = Empty \<and> light l')"
    unfolding el er ll lr by (cases "node_of lo"; cases "node_of ro"; fastforce)
  then show ?thesis
  proof cases
    case 1
    then have "st3 = st2" "l' = l" "r' = r" using F(7,8) by (auto simp: st3 elim!: unchanged.elims)
    with 1 step_unchanged [OF J] show ?thesis by (auto simp: combine_eq)
  next
    case 2
    have "applied h v m p st st3 (Fork l r) (Some (Internal i)) Empty Deleted"
      by (rule join_light [OF J _ _ nodes _ _ orph old]) (simp_all add: stands_def)
    with 2 el er show ?thesis
      by (intro exI [of _ st3] exI [of _ Deleted] exI [of _ Empty]) (auto simp: combine_eq)
  next
    case (3 x)
    then have "contents l' = contents (Fork l' r')" using er by simp
    with 3 step_collapse [OF J _ 3(2,4) nodes orph old, of "in_left i" False l'] show ?thesis
      unfolding combine_eq by auto
  next
    case (4 y)
    then have "contents r' = contents (Fork l' r')" using el by simp
    with 4 step_collapse [OF J _ 4(3,4) nodes orph old, of "in_right i" True r'] show ?thesis
      unfolding combine_eq by auto
  next
    case 5
    obtain st' out where e: "update_both h v (bits_of (p @ [False])) (bits_of (p @ [True])) i lo ro st3 = (st', out)"
      by (metis surj_pair)
    have "combine_children h v (bits_of (p @ [False])) (bits_of (p @ [True])) i lo ro st3 = Inr (st', out)"
      using 5 unfolding combine_eq e el er ll lr by (cases "node_of lo"; cases "node_of ro") auto
    with join_both [OF J 5(2,3) nodes orph e] show ?thesis by blast
  qed
qed

subsection \<open>Applying a batch\<close>

lemma contents_split:
  assumes "mtree_ok p (Fork l r)" and "contents l' = apply_ops (filter (\<lambda>e. \<not> hash_bit (fst e) (length p)) ops) (contents l)"
    and "contents r' = apply_ops (filter (\<lambda>e. hash_bit (fst e) (length p)) ops) (contents r)"
  shows "contents (Fork l' r') = apply_ops ops (contents (Fork l r))"
proof
  fix k
  note old = contents_left [OF assms(1), of k]
  have ml: "map_of (filter (\<lambda>e. \<not> hash_bit (fst e) (length p)) ops) k = (if \<not> hash_bit k (length p) then map_of ops k else None)"
    by (rule map_of_filter)
  have mr: "map_of (filter (\<lambda>e. hash_bit (fst e) (length p)) ops) k = (if hash_bit k (length p) then map_of ops k else None)"
    by (rule map_of_filter)
  have l: "contents l' k = (if hash_bit k (length p) then None else apply_ops ops (contents (Fork l r)) k)"
    unfolding assms(2) apply_ops_def ml using old(1) by (simp del: contents.simps split: option.split batch_op.split)
  have r: "contents r' k = (if hash_bit k (length p) then apply_ops ops (contents (Fork l r)) k else None)"
    unfolding assms(3) apply_ops_def mr using old(2) by (simp del: contents.simps split: option.split batch_op.split)
  have "contents (Fork l' r') k = (contents l' ++ contents r') k" by simp
  also have "\<dots> = apply_ops ops (contents (Fork l r)) k"
    by (cases "hash_bit k (length p)") (simp_all add: map_add_def l r del: contents.simps split: option.split)
  finally show "contents (Fork l' r') k = apply_ops ops (contents (Fork l r)) k" .
qed

definition applies ::
    "hash_fun \<Rightarrow> u64 \<Rightarrow> u64 \<Rightarrow> bool list \<Rightarrow> merkle_store \<Rightarrow> mtree \<Rightarrow> node option \<Rightarrow> (hash256 \<times> hash256 batch_op) list \<Rightarrow>
     (merkle_store \<times> outcome) res \<Rightarrow> bool" where
  "applies h v m p st old old_node ops res \<longleftrightarrow> (\<exists>st' out t. res = Inr (st', out) \<and>
     applied h v m p st st' old old_node t out \<and> contents t = apply_ops ops (contents old))"

lemma apply_ops_Nil [simp]: "apply_ops [] m = m"
  by (simp add: apply_ops_def)

lemma applied_same:
  assumes "mtree_ok p t" and "\<And>n. old_node = Some n \<Longrightarrow> represents h (tr_nodes st) v p t n" and "old_node = None \<Longrightarrow> t = Empty"
  shows "applied h v m p st st t old_node t (Unchanged old_node)"
  using assms by (auto simp: applied_def writes_below_refl stands_def orphans_ok_same split: option.split)

lemma apply_at_child_ok:
  assumes IH: "\<And>n w. tr_nodes st (w, bits_of q) = Some n \<Longrightarrow> represents h (tr_nodes st) m q t n \<Longrightarrow>
      applies h v m q st t (Some n) ops (apply_at h v st w (bits_of q) ops)"
    and "mtree_ok q t" and "link h (tr_nodes st) m q t c" and "batch_ok q ops" and "length q \<le> 256" and "m \<le> v"
  shows "applies h v m q st t (child_node (tr_nodes st) q c) ops (apply_at_child h v st (bits_of q) c ops)"
proof (cases c)
  case None
  then have t: "t = Empty" using assms(3) by (simp add: link_ok_def)
  show ?thesis
  proof (cases "ops = []")
    case True
    with None t applied_same [of q Empty None] show ?thesis
      by (auto simp: applies_def apply_at_child.simps child_node_def intro!: exI [of _ Empty])
  next
    case False
    with None t apply_at_none [OF assms(4,5), of h v st m] show ?thesis
      by (simp add: applies_def apply_at_child.simps child_node_def) blast
  qed
next
  case (Some ch)
  then obtain n where n: "tr_nodes st (ch_version ch, bits_of q) = Some n" "represents h (tr_nodes st) m q t n"
    using assms(3) by (auto simp: link_ok_def)
  show ?thesis
  proof (cases "ops = []")
    case True
    with Some n applied_same [of q t "Some n" h st v m, OF assms(2)] represents_mono [OF n(2) assms(6)] show ?thesis
      by (auto simp: applies_def apply_at_child.simps child_node_def node_load_def ok_or_def)
  next
    case False
    with Some n IH [OF n] show ?thesis by (simp add: apply_at_child.simps child_node_def)
  qed
qed

lemma apply_at_ok:
  assumes "mtree_ok p t" and "tr_nodes st (w, bits_of p) = Some n" and "represents h (tr_nodes st) m p t n"
    and "batch_ok p ops" and "m \<le> v"
  shows "applies h v m p st t (Some n) ops (apply_at h v st w (bits_of p) ops)"
  using assms
proof (induction t arbitrary: p st w n ops)
  case (Tip k x)
  then have n: "n = Leaf \<lparr>lf_key_hash = k, lf_value_hash = x\<rparr>" and k: "on_path p k" by simp_all
  from apply_at_leaf_ok [OF Tip.prems(4) k] Tip.prems(2) show ?case
    by (simp add: applies_def apply_at.simps [of h v st w] n)
next
  case (Fork l r)
  from Fork.prems(3) obtain i where n: "n = Internal i"
    and i: "link h (tr_nodes st) m (p @ [False]) l (in_left i)" "link h (tr_nodes st) m (p @ [True]) r (in_right i)" by auto
  have p: "length p < 256" and l: "mtree_ok (p @ [False]) l" and r: "mtree_ok (p @ [True]) r" using Fork.prems(1) by simp_all
  have q: "length (p @ [b]) \<le> 256" for b using p by simp
  from partition_batch_ok [OF Fork.prems(4) p] obtain bl br where
    pb: "partition_batch ops (bits_of p) = Inr (bl, br)" "batch_ok (p @ [False]) bl" "batch_ok (p @ [True]) br"
    and f: "bl = filter (\<lambda>e. \<not> hash_bit (fst e) (length p)) ops" "br = filter (\<lambda>e. hash_bit (fst e) (length p)) ops" by metis
  have "applies h v m (p @ [False]) st l (child_node (tr_nodes st) (p @ [False]) (in_left i)) bl
      (apply_at_child h v st (bits_of (p @ [False])) (in_left i) bl)"
    by (rule apply_at_child_ok [OF Fork.IH(1) l i(1) pb(2) q Fork.prems(5)]) (use l pb(2) Fork.prems(5) in auto)
  then obtain st1 lo l' where L: "apply_at_child h v st (bits_of (p @ [False])) (in_left i) bl = Inr (st1, lo)"
    "applied h v m (p @ [False]) st st1 l (child_node (tr_nodes st) (p @ [False]) (in_left i)) l' lo"
    "contents l' = apply_ops bl (contents l)" unfolding applies_def by blast
  have wl: "writes_below v (p @ [False]) st st1" using L(2) by (simp add: applied_def)
  have i2: "link h (tr_nodes st1) m (p @ [True]) r (in_right i)"
    using i(2) other_half [OF wl p, simplified] r by (simp add: link_ok_def split: option.splits)
  have "applies h v m (p @ [True]) st1 r (child_node (tr_nodes st1) (p @ [True]) (in_right i)) br
      (apply_at_child h v st1 (bits_of (p @ [True])) (in_right i) br)"
    by (rule apply_at_child_ok [OF Fork.IH(2) r i2 pb(3) q Fork.prems(5)]) (use r pb(3) Fork.prems(5) in auto)
  then obtain st2 ro r' where R: "apply_at_child h v st1 (bits_of (p @ [True])) (in_right i) br = Inr (st2, ro)"
    "applied h v m (p @ [True]) st1 st2 r (child_node (tr_nodes st1) (p @ [True]) (in_right i)) r' ro"
    "contents r' = apply_ops br (contents r)" unfolding applies_def by blast
  have J: "joining h v m p st st1 st2 l r i l' r' lo ro"
    unfolding joining_def using Fork.prems(1,5) i L(2) R(2) by blast
  have "contents (Fork l' r') = apply_ops ops (contents (Fork l r))"
    using contents_split [OF Fork.prems(1)] L(3) R(3) f by blast
  moreover have "apply_at h v st w (bits_of p) ops = combine_children h v (bits_of (p @ [False])) (bits_of (p @ [True])) i lo ro
      (orphan_child v (bits_of (p @ [True])) ro (in_right i) (orphan_child v (bits_of (p @ [False])) lo (in_left i) st2))"
    using Fork.prems(2) by (simp add: apply_at.simps [of h v st w] n apply_at_internal.simps pb extend_bits_of p L(1) R(1) Let_def)
  ultimately show ?case using step_ok [OF J refl] by (simp only: applies_def n)
qed simp

end
