(* ===== verification/Merkle_History.thy ===== *)
theory Merkle_History
  imports Merkle_Step
begin

text \<open>
  Whole versions of the tree: what \<open>merkle_apply\<close> does to the tree of a version, and that neither
  applying batches nor pruning disturbs the versions that are kept.
\<close>

subsection \<open>The tree of a version\<close>

text \<open>\<open>tree_at h st v t\<close>: the tree of version \<open>v\<close>, as the nodes of the storage make it up, is \<open>t\<close>.\<close>

definition tree_at :: "hash_fun \<Rightarrow> merkle_store \<Rightarrow> u64 \<Rightarrow> mtree \<Rightarrow> bool" where
  "tree_at h st v t \<longleftrightarrow> mtree_ok [] t \<and> (case tr_nodes st (v, root_bits) of
     None \<Rightarrow> t = Empty | Some n \<Rightarrow> represents h (tr_nodes st) v [] t n)"

definition version_uses :: "merkle_store \<Rightarrow> u64 \<Rightarrow> mtree \<Rightarrow> u64 \<Rightarrow> bool list \<Rightarrow> bool" where
  "version_uses st v t w q \<longleftrightarrow> w = v \<and> q = [] \<or> (\<exists>n. tr_nodes st (v, root_bits) = Some n \<and> uses (tr_nodes st) [] t n w q)"

lemma root_bits_of: "root_bits = bits_of []"
  by (simp add: root_bits_def bits_of_def)

lemma tree_at_root: "tree_at h st v t \<Longrightarrow> merkle_root_hash h st v = tree_hash h t"
  by (auto simp: tree_at_def merkle_root_hash_def represents_hash split: option.splits)

text \<open>The nodes at a path that a version does not use may change.\<close>

definition link_uses :: "nodes \<Rightarrow> bool list \<Rightarrow> mtree \<Rightarrow> child option \<Rightarrow> u64 \<Rightarrow> bool list \<Rightarrow> bool" where
  "link_uses nodes q t c w q' \<longleftrightarrow> (case c of None \<Rightarrow> False
     | Some c \<Rightarrow> w = ch_version c \<and> q' = q \<or> (\<exists>n. nodes (ch_version c, bits_of q) = Some n \<and> uses nodes q t n w q'))"

lemma uses_links:
  "uses nodes p (Fork l r) (Internal i) w q \<longleftrightarrow>
     link_uses nodes (p @ [False]) l (in_left i) w q \<or> link_uses nodes (p @ [True]) r (in_right i) w q"
  by (auto simp: link_uses_def split: option.splits)

lemma link_used:
  assumes IH: "\<And>n. represents h nodes m q t n \<Longrightarrow>
      (\<And>w q'. uses nodes q t n w q' \<Longrightarrow> nodes' (w, bits_of q') = nodes (w, bits_of q')) \<Longrightarrow>
      represents h nodes' m q t n \<and> (\<forall>w q'. uses nodes' q t n w q' \<longleftrightarrow> uses nodes q t n w q')"
    and "link h nodes m q t c" and "\<And>w q'. link_uses nodes q t c w q' \<Longrightarrow> nodes' (w, bits_of q') = nodes (w, bits_of q')"
  shows "link h nodes' m q t c \<and> (\<forall>w q'. link_uses nodes' q t c w q' \<longleftrightarrow> link_uses nodes q t c w q')"
proof (cases c)
  case (Some ch)
  with assms(2) obtain n where n: "nodes (ch_version ch, bits_of q) = Some n" "represents h nodes m q t n"
    by (auto simp: link_ok_def)
  have "nodes' (ch_version ch, bits_of q) = Some n"
    using assms(3) [of "ch_version ch" q] Some n by (simp add: link_uses_def)
  moreover have "represents h nodes' m q t n \<and> (\<forall>w q'. uses nodes' q t n w q' \<longleftrightarrow> uses nodes q t n w q')"
    by (rule IH [OF n(2) assms(3)]) (simp add: link_uses_def Some n)
  ultimately show ?thesis using assms(2) Some n by (simp add: link_ok_def link_uses_def)
qed (use assms(2) in \<open>simp add: link_ok_def link_uses_def\<close>)

lemma represents_used:
  assumes "mtree_ok p t" and "represents h nodes m p t n"
    and "\<And>w q. uses nodes p t n w q \<Longrightarrow> nodes' (w, bits_of q) = nodes (w, bits_of q)"
  shows "represents h nodes' m p t n \<and> (\<forall>w q. uses nodes' p t n w q \<longleftrightarrow> uses nodes p t n w q)"
  using assms
proof (induction t arbitrary: p n)
  case (Fork l r)
  from Fork.prems(2) obtain i where n: "n = Internal i"
    and i: "link h nodes m (p @ [False]) l (in_left i)" "link h nodes m (p @ [True]) r (in_right i)" by auto
  have ok: "mtree_ok (p @ [False]) l" "mtree_ok (p @ [True]) r" using Fork.prems(1) by simp_all
  have "link h nodes' m (p @ [False]) l (in_left i) \<and>
      (\<forall>w q. link_uses nodes' (p @ [False]) l (in_left i) w q \<longleftrightarrow> link_uses nodes (p @ [False]) l (in_left i) w q)"
    by (rule link_used [OF Fork.IH(1) [OF ok(1)] i(1)]) (use Fork.prems(3) in \<open>auto simp: n uses_links simp del: uses.simps\<close>)
  moreover have "link h nodes' m (p @ [True]) r (in_right i) \<and>
      (\<forall>w q. link_uses nodes' (p @ [True]) r (in_right i) w q \<longleftrightarrow> link_uses nodes (p @ [True]) r (in_right i) w q)"
    by (rule link_used [OF Fork.IH(2) [OF ok(2)] i(2)]) (use Fork.prems(3) in \<open>auto simp: n uses_links simp del: uses.simps\<close>)
  ultimately show ?case unfolding n by (simp add: uses_links del: uses.simps)
qed simp_all

lemma tree_at_used:
  assumes "tree_at h st v t" and "\<And>w q. version_uses st v t w q \<Longrightarrow> tr_nodes st' (w, bits_of q) = tr_nodes st (w, bits_of q)"
  shows "tree_at h st' v t \<and> (\<forall>w q. version_uses st' v t w q \<longleftrightarrow> version_uses st v t w q)"
proof -
  have root: "tr_nodes st' (v, root_bits) = tr_nodes st (v, root_bits)"
    using assms(2) [of v "[]"] by (simp add: version_uses_def root_bits_of)
  show ?thesis
  proof (cases "tr_nodes st (v, root_bits)")
    case None
    with root assms(1) show ?thesis by (simp add: tree_at_def version_uses_def)
  next
    case (Some n)
    have "represents h (tr_nodes st') v [] t n \<and> (\<forall>w q. uses (tr_nodes st') [] t n w q \<longleftrightarrow> uses (tr_nodes st) [] t n w q)"
      by (rule represents_used) (use assms Some in \<open>auto simp: tree_at_def version_uses_def\<close>)
    with Some root assms(1) show ?thesis by (simp add: tree_at_def version_uses_def)
  qed
qed

lemma version_uses_old:
  assumes "tree_at h st v t" and "version_uses st v t w q"
  shows "w \<le> v" and "length q \<le> 256"
proof -
  have "(w = v \<and> q = []) \<or> (w \<le> v \<and> below [] q)"
    using assms uses_old [of h "tr_nodes st" v "[]" t _ w q] uses_below [of "[]" t "tr_nodes st" _ w q]
    by (auto simp: tree_at_def version_uses_def split: option.splits)
  then show "w \<le> v" "length q \<le> 256" by (auto dest: below_length)
qed

subsection \<open>Applying a batch to a version\<close>

text \<open>What \<open>merkle_apply\<close> promises about the tree of the new version, the writes and the orphan records.\<close>

definition tree_applied ::
    "hash_fun \<Rightarrow> merkle_store \<Rightarrow> u64 \<Rightarrow> u64 \<Rightarrow> mtree \<Rightarrow> merkle_store \<Rightarrow> mtree \<Rightarrow> bool" where
  "tree_applied h st w v t st' t' \<longleftrightarrow> tree_at h st' v t' \<and>
     (\<forall>u b. u \<noteq> v \<longrightarrow> tr_nodes st' (u, b) = tr_nodes st (u, b)) \<and>
     (\<forall>u q. version_uses st' v t' u q \<longrightarrow> u = v \<or> version_uses st w t u q) \<and>
     set (tr_orphans st) \<subseteq> set (tr_orphans st') \<and>
     (\<forall>(s, u, b) \<in> set (tr_orphans st') - set (tr_orphans st). s = v \<and> u \<le> w \<and> u < v \<and>
       (\<forall>q. version_uses st' v t' u q \<longrightarrow> b \<noteq> bits_of q))"

lemma version_uses_bits:
  assumes "tree_at h st v t" and "version_uses st v t u q'" and "bits_of q = bits_of q'" and "length q \<le> 256"
  shows "q = q'"
  using bits_of_inj [of q q'] assms version_uses_old(2) by blast

lemma root_saved:
  assumes "applied h v m [] st st2 old old_node t out" and "\<And>b. tr_nodes st (v, b) = None"
    and st': "st' = (case node_of out of None \<Rightarrow> st2 | Some n \<Rightarrow> save_node st2 v root_bits n)"
  shows "tree_at h st' v t" and "\<And>u b. u \<noteq> v \<Longrightarrow> tr_nodes st' (u, b) = tr_nodes st (u, b)"
    and "\<And>u q. version_uses st' v t u q \<longleftrightarrow> u = v \<and> q = [] \<or> out_uses (tr_nodes st2) [] t out u q"
proof -
  have ok: "mtree_ok [] t" and W: "writes_below v [] st st2" and S: "stands h (tr_nodes st2) v [] t out"
    using assms(1) by (simp_all add: applied_def)
  have "tr_nodes st2 (v, root_bits) = None"
    using unwritten [OF W, of "[]" v] assms(2) by (simp add: root_bits_of below_def)
  then have root: "tr_nodes st' (v, root_bits) = node_of out" by (simp add: st' save_node_def split: option.split)
  have same: "tr_nodes st' (u, bits_of q) = tr_nodes st2 (u, bits_of q)" if "below [] q" for u q
    using bits_of_inj [of q "[]"] below_length [OF that] below_not_self(1) [OF that]
    by (auto simp: st' save_node_def root_bits_of split: option.split)
  note C = stands_cong [where nodes' = "tr_nodes st'" and nodes = "tr_nodes st2", OF ok same]
  show "tree_at h st' v t" using C(1) S ok by (simp add: tree_at_def root stands_def)
  show "tr_nodes st' (u, b) = tr_nodes st (u, b)" if "u \<noteq> v" for u b
    using W that by (auto simp: st' writes_below_def save_node_def split: option.split)
  show "version_uses st' v t u q \<longleftrightarrow> u = v \<and> q = [] \<or> out_uses (tr_nodes st2) [] t out u q" for u q
    using C(2) by (simp add: version_uses_def root out_uses_def)
qed

lemma merkle_apply_ok:
  assumes "tree_at h st w t" and "batch_ok [] ops" and "w \<le> v" and "\<And>b. tr_nodes st (v, b) = None"
  shows "\<exists>st' t'. merkle_apply h st w v ops = Inr (st', tree_hash h t') \<and> tree_applied h st w v t st' t' \<and>
    contents t' = apply_ops ops (contents t)"
proof -
  define rn where "rn = tr_nodes st (w, root_bits)"
  define st1 where "st1 = (if rn \<noteq> None then mark_node_as_orphaned st v w root_bits else st)"
  have n1: "tr_nodes st1 = tr_nodes st" by (simp add: st1_def)
  have "\<exists>st2 out t'. apply_at h v st1 w root_bits ops = Inr (st2, out) \<and> applied h v w [] st1 st2 t rn t' out \<and>
      contents t' = apply_ops ops (contents t) \<and> (rn = None \<longrightarrow> tr_orphans st2 = tr_orphans st1)"
  proof (cases rn)
    case None
    with assms(1) have "t = Empty" by (simp add: tree_at_def rn_def)
    with None apply_at_none [OF assms(2), of h v st1 w] n1 show ?thesis
      by (simp add: apply_at.simps [of h v st1 w] rn_def root_bits_of)
  next
    case (Some n)
    with assms(1) have "mtree_ok [] t" "represents h (tr_nodes st1) w [] t n" "tr_nodes st1 (w, bits_of []) = Some n"
      by (simp_all add: tree_at_def rn_def n1 root_bits_of)
    from apply_at_ok [OF this(1,3,2) assms(2,3)] show ?thesis by (simp add: applies_def root_bits_of Some)
  qed
  then obtain st2 out t' where A: "apply_at h v st1 w root_bits ops = Inr (st2, out)" "applied h v w [] st1 st2 t rn t' out"
    "contents t' = apply_ops ops (contents t)" "rn = None \<longrightarrow> tr_orphans st2 = tr_orphans st1" by blast
  define st' where "st' = (case node_of out of None \<Rightarrow> st2 | Some n \<Rightarrow> save_node st2 v root_bits n)"
  note S = root_saved [OF A(2) _ st'_def, unfolded n1, OF assms(4)]
  have "merkle_apply h st w v ops = Inr (st', map_option (node_hash h) (node_of out))"
    using A(1) by (cases out) (auto simp: merkle_apply_def st1_def rn_def st'_def split: option.split)
  moreover have "tree_hash h t' = map_option (node_hash h) (node_of out)"
    using A(2) by (auto simp: applied_def stands_def represents_hash split: option.splits)
  moreover have "tree_applied h st w v t st' t'"
    unfolding tree_applied_def
  proof (intro conjI allI impI ballI)
    show "tree_at h st' v t'" by (rule S(1))
    show "tr_nodes st' (u, b) = tr_nodes st (u, b)" if "u \<noteq> v" for u b by (rule S(2) [OF that])
    show "u = v \<or> version_uses st w t u q" if "version_uses st' v t' u q" for u q
    proof -
      have "u = v \<or> out_uses (tr_nodes st2) [] t' out u q" using that unfolding S(3) by blast
      moreover have "version_uses st w t u q" if "out_uses (tr_nodes st) [] t (Unchanged rn) u q"
        using that by (auto simp: version_uses_def out_uses_def rn_def)
      ultimately show ?thesis using A(2) unfolding applied_def n1 by blast
    qed
    have o': "tr_orphans st' = tr_orphans st2" by (simp add: st'_def save_node_def split: option.split)
    have O: "orphans_ok v w [] st1 st2 (out_uses (tr_nodes st2) [] t' out)" using A(2) by (simp add: applied_def)
    have o1: "set (tr_orphans st1) = set (tr_orphans st) \<union> (if rn \<noteq> None then {(v, w, root_bits)} else {})"
      by (simp add: st1_def mark_node_as_orphaned_def)
    show "set (tr_orphans st) \<subseteq> set (tr_orphans st')" using O o1 unfolding o' orphans_ok_def by blast
    fix x assume x: "x \<in> set (tr_orphans st') - set (tr_orphans st)"
    obtain s u b where e: "x = (s, u, b)" by (cases x)
    have rn: "rn \<noteq> None" using x A(4) o1 o' by (cases "rn = None") auto
    then have "w \<noteq> v" using assms(4) [of root_bits] by (auto simp: rn_def)
    then have wv: "w < v" using assms(3) by simp
    from x o1 rn consider "x = (v, w, root_bits)" | "x \<in> set (tr_orphans st2) - set (tr_orphans st1)" unfolding o' by auto
    then have "s = v \<and> u \<le> w \<and> (\<forall>q. version_uses st' v t' u q \<longrightarrow> b \<noteq> bits_of q)"
    proof cases
      case 1
      have "q \<noteq> []" if "version_uses st' v t' w q" for q
        using that wv A(2) out_uses_below [of "[]" t' "tr_nodes st2" out w q] below_not_self(1) [of "[]" q]
        unfolding S(3) applied_def by auto
      moreover have "q = []" if "version_uses st' v t' w q" "root_bits = bits_of q" for q
        using version_uses_bits [OF S(1) that(1), of "[]"] that(2) by (simp add: root_bits_of)
      moreover have "s = v" "u = w" "b = root_bits" using 1 e by simp_all
      ultimately show ?thesis by auto
    next
      case 2
      with O obtain q where q: "s = v" "u \<le> w" "below [] q" "b = bits_of q" "\<forall>u. out_uses (tr_nodes st2) [] t' out u q \<longrightarrow> u = v"
        unfolding orphans_ok_def e by blast
      have "u \<noteq> v" using q(2) wv by simp
      then have "\<not> version_uses st' v t' u q" using q(5) unfolding S(3) by blast
      with q version_uses_bits [OF S(1) _ _ below_length [OF q(3)]] show ?thesis by metis
    qed
    moreover from this wv have "u < v" by (meson order.strict_trans1)
    ultimately show "case x of (s, u, b) \<Rightarrow> s = v \<and> u \<le> w \<and> u < v \<and> (\<forall>q. version_uses st' v t' u q \<longrightarrow> b \<noteq> bits_of q)"
      by (simp add: e)
  qed
  ultimately show ?thesis using A(3) by (intro exI [of _ st'] exI [of _ t']) simp
qed

subsection \<open>The versions that are kept\<close>

text \<open>A storage with the trees of some versions below \<open>n\<close>: each is there, and a node recorded as orphaned
  since some version is used by no kept version from then on.\<close>

definition history :: "hash_fun \<Rightarrow> merkle_store \<Rightarrow> (u64 \<rightharpoonup> mtree) \<Rightarrow> nat \<Rightarrow> bool" where
  "history h st hist n \<longleftrightarrow> (\<forall>u t. hist u = Some t \<longrightarrow> unat u < n \<and> tree_at h st u t) \<and>
     (\<forall>u b. tr_nodes st (u, b) \<noteq> None \<longrightarrow> unat u < n) \<and>
     (\<forall>(s, u, b) \<in> set (tr_orphans st). unat s < n \<and> unat u < n \<and>
       (\<forall>x t q. hist x = Some t \<and> s \<le> x \<and> version_uses st x t u q \<longrightarrow> b \<noteq> bits_of q))"

definition empty_store :: merkle_store where
  "empty_store = \<lparr>tr_nodes = Map.empty, tr_orphans = []\<rparr>"

lemma history_empty: "history h empty_store Map.empty 0"
  by (simp add: history_def empty_store_def)

lemma history_apply:
  assumes H: "history h st hist n" and v: "unat v = n" and ops: "batch_ok [] ops"
    and old: "hist w = Some t \<and> unat w + 1 = n \<or> n = 0 \<and> w = v \<and> t = Empty"
  shows "\<exists>st' t'. merkle_apply h st w v ops = Inr (st', tree_hash h t') \<and> contents t' = apply_ops ops (contents t) \<and>
    history h st' (hist(v \<mapsto> t')) (n + 1)"
proof -
  have H1: "hist u = Some t \<Longrightarrow> unat u < n \<and> tree_at h st u t" for u t using H by (simp add: history_def)
  have H2: "tr_nodes st (u, b) \<noteq> None \<Longrightarrow> unat u < n" for u b using H unfolding history_def by blast
  have H3: "unat s < n \<and> unat u < n \<and> (\<forall>x t q. hist x = Some t \<and> s \<le> x \<and> version_uses st x t u q \<longrightarrow> b \<noteq> bits_of q)"
    if "(s, u, b) \<in> set (tr_orphans st)" for s u b using H that unfolding history_def by blast
  have fresh: "tr_nodes st (v, b) = None" for b using H2 [of v b] v by (cases "tr_nodes st (v, b)") auto
  have wt: "tree_at h st w t" using old H1 fresh by (auto simp: tree_at_def)
  have "w \<le> v" using old v by (auto simp: word_le_nat_alt)
  from merkle_apply_ok [OF wt ops this fresh] obtain st' t' where
    A: "merkle_apply h st w v ops = Inr (st', tree_hash h t')" "contents t' = apply_ops ops (contents t)"
    and T: "tree_applied h st w v t st' t'" by blast
  have kept: "tree_at h st' u x \<and> (\<forall>z q. version_uses st' u x z q \<longleftrightarrow> version_uses st u x z q)" if "hist u = Some x" for u x
  proof (rule tree_at_used)
    show "tree_at h st u x" using H1 [OF that] by blast
    fix z q assume "version_uses st u x z q"
    with version_uses_old(1) H1 [OF that] have "z \<le> u" "unat u < n" by blast+
    then have "z \<noteq> v" using v by (auto simp: word_le_nat_alt)
    then show "tr_nodes st' (z, bits_of q) = tr_nodes st (z, bits_of q)" using T by (simp add: tree_applied_def)
  qed
  have "history h st' (hist(v \<mapsto> t')) (n + 1)"
    unfolding history_def
  proof (intro conjI allI impI ballI)
    fix u x assume u: "(hist(v \<mapsto> t')) u = Some x"
    show "unat u < n + 1" using u v H1 [of u x] by (cases "u = v") auto
    show "tree_at h st' u x" using u kept [of u x] T by (cases "u = v") (auto simp: tree_applied_def)
  next
    show "unat u < n + 1" if "tr_nodes st' (u, b) \<noteq> None" for u b
      using that T H2 [of u b] v by (cases "u = v") (auto simp: tree_applied_def)
  next
    fix x assume x: "x \<in> set (tr_orphans st')"
    obtain s u b where e: "x = (s, u, b)" by (cases x)
    have "unat s < n + 1 \<and> unat u < n + 1 \<and> (\<forall>x t q. (hist(v \<mapsto> t')) x = Some t \<and> s \<le> x \<and> version_uses st' x t u q \<longrightarrow> b \<noteq> bits_of q)"
    proof (cases "x \<in> set (tr_orphans st)")
      case True
      note o = H3 [of s u b, OF True [unfolded e]]
      have "b \<noteq> bits_of q" if "version_uses st' v t' u q" for q
      proof -
        have "u \<noteq> v" using o v by auto
        with that T have "version_uses st w t u q" unfolding tree_applied_def by blast
        moreover have "hist w = Some t \<and> s \<le> w" using old o by (auto simp: word_le_nat_alt)
        ultimately show ?thesis using o by blast
      qed
      moreover have "b \<noteq> bits_of q" if "hist x = Some t" "s \<le> x" "version_uses st' x t u q" for x t q
        using o kept [OF that(1)] that by blast
      ultimately show ?thesis using o by (simp add: less_Suc_eq) metis
    next
      case False
      with x have "x \<in> set (tr_orphans st') - set (tr_orphans st)" by simp
      from bspec [OF T [unfolded tree_applied_def, THEN conjunct2, THEN conjunct2, THEN conjunct2, THEN conjunct2] this]
      have o: "s = v" "u < v" "\<forall>q. version_uses st' v t' u q \<longrightarrow> b \<noteq> bits_of q" by (simp_all add: e)
      have old: "\<not> v \<le> x" if "hist x = Some t" for x t using H1 [OF that] v by (simp add: word_le_nat_alt)
      have "b \<noteq> bits_of q" if "(hist(v \<mapsto> t')) x = Some t" "s \<le> x" "version_uses st' x t u q" for x t q
        using that o(1,3) old [of x t] by (cases "x = v") simp_all
      moreover have "unat s < n + 1" "unat u < n + 1" using o(1,2) v by (simp_all add: word_less_nat_alt)
      ultimately show ?thesis by blast
    qed
    then show "case x of (s, u, b) \<Rightarrow> unat s < n + 1 \<and> unat u < n + 1 \<and>
        (\<forall>x t q. (hist(v \<mapsto> t')) x = Some t \<and> s \<le> x \<and> version_uses st' x t u q \<longrightarrow> b \<noteq> bits_of q)"
      by (simp add: e del: fun_upd_apply)
  qed
  with A show ?thesis by blast
qed

text \<open>Pruning removes the nodes recorded as orphaned since at most the given version.\<close>

lemma fold_remove:
  "fold (\<lambda>(_, version, bits) nodes. nodes((version, bits) := None)) xs m (w, b) =
    (if (\<exists>s. (s, w, b) \<in> set xs) then None else m (w, b))"
  by (induction xs arbitrary: m) auto

lemma history_prune:
  assumes "history h st hist n"
  shows "history h (merkle_prune st k) (hist |` {u. k \<le> u}) n"
proof -
  have nodes: "tr_nodes (merkle_prune st k) (w, b) =
      (if (\<exists>s. (s, w, b) \<in> set (tr_orphans st) \<and> s \<le> k) then None else tr_nodes st (w, b))" for w b
    by (simp add: merkle_prune_def Let_def fold_remove)
  have orph: "tr_orphans (merkle_prune st k) = filter (\<lambda>(s, _, _). \<not> s \<le> k) (tr_orphans st)"
    by (simp add: merkle_prune_def Let_def)
  have kept: "tree_at h (merkle_prune st k) u t \<and> (\<forall>z q. version_uses (merkle_prune st k) u t z q \<longleftrightarrow> version_uses st u t z q)"
    if "hist u = Some t" "k \<le> u" for u t
  proof (rule tree_at_used)
    show "tree_at h st u t" using assms that by (simp add: history_def)
    fix z q assume "version_uses st u t z q"
    then have "\<not> (s \<le> k \<and> (s, z, bits_of q) \<in> set (tr_orphans st))" for s
      using assms that order_trans [of s k u] unfolding history_def by blast
    then show "tr_nodes (merkle_prune st k) (z, bits_of q) = tr_nodes st (z, bits_of q)" unfolding nodes by auto
  qed
  show ?thesis
    unfolding history_def
  proof (intro conjI allI impI ballI)
    fix u t assume "(hist |` {u. k \<le> u}) u = Some t"
    then have u: "hist u = Some t" "k \<le> u" by (auto simp: restrict_map_def split: if_splits)
    show "unat u < n" using assms u(1) by (simp add: history_def)
    show "tree_at h (merkle_prune st k) u t" using kept [OF u] by blast
  next
    fix u b assume "tr_nodes (merkle_prune st k) (u, b) \<noteq> None"
    then have "tr_nodes st (u, b) \<noteq> None" unfolding nodes by (auto split: if_splits)
    with assms show "unat u < n" unfolding history_def by blast
  next
    fix x assume "x \<in> set (tr_orphans (merkle_prune st k))"
    then have x: "x \<in> set (tr_orphans st)" by (simp add: orph)
    obtain s u b where e: "x = (s, u, b)" by (cases x)
    have "b \<noteq> bits_of q" if "(hist |` {u. k \<le> u}) y = Some t" "s \<le> y" "version_uses (merkle_prune st k) y t u q" for y t q
    proof -
      have y: "hist y = Some t" "k \<le> y" using that(1) by (auto simp: restrict_map_def split: if_splits)
      with kept that(3) have "version_uses st y t u q" by blast
      with assms x y that(2) show ?thesis unfolding history_def e by blast
    qed
    with assms x show "case x of (s, u, b) \<Rightarrow> unat s < n \<and> unat u < n \<and>
        (\<forall>x t q. (hist |` {u. k \<le> u}) x = Some t \<and> s \<le> x \<and> version_uses (merkle_prune st k) x t u q \<longrightarrow> b \<noteq> bits_of q)"
      unfolding history_def e by blast
  qed
qed

end
