(* ===== verification/Merkle_Verify.thy ===== *)
theory Merkle_Verify
  imports Merkle_History
begin

text \<open>
  Proofs against the tree they are about: the proof of a key from a version verifies against its root, and
  a proof that verifies tells the truth as long as no two of the hashed byte strings collide.
\<close>

subsection \<open>The proof of a key in a tree\<close>

text \<open>The siblings along the path of a key, from the top, and the node where it ends.\<close>

fun walk :: "hash_fun \<Rightarrow> hash256 \<Rightarrow> nat \<Rightarrow> mtree \<Rightarrow> proof_node option \<times> hash256 option list" where
  "walk h k d Empty = (None, [])"
| "walk h k d (Tip k' v) = ((if k \<noteq> k' then Some (ProofLeaf k' v) else None), [])"
| "walk h k d (Fork l r) =
     (if hash_bit k d
      then (if r = Empty then (Some (ProofInternal (tree_hash h l) None), [])
            else (fst (walk h k (d + 1) r), tree_hash h l # snd (walk h k (d + 1) r)))
      else (if l = Empty then (Some (ProofInternal None (tree_hash h r)), [])
            else (fst (walk h k (d + 1) l), tree_hash h r # snd (walk h k (d + 1) l))))"

text \<open>The hash computed up from the end of the path.\<close>

fun climb :: "hash_fun \<Rightarrow> hash256 \<Rightarrow> nat \<Rightarrow> hash256 option list \<Rightarrow> hash256 \<Rightarrow> hash256" where
  "climb h k d [] x = x"
| "climb h k d (s # ss) x =
     (if hash_bit k d then hash_internal_node h s (Some (climb h k (d + 1) ss x))
      else hash_internal_node h (Some (climb h k (d + 1) ss x)) s)"

definition end_hash :: "hash_fun \<Rightarrow> hash256 \<Rightarrow> hash256 option \<Rightarrow> proof_node option \<Rightarrow> hash256" where
  "end_hash h k v x = (case x of
     None \<Rightarrow> hash_leaf_node h k (hash_or_zero v)
   | Some (ProofLeaf k' v') \<Rightarrow> hash_leaf_node h k' v'
   | Some (ProofInternal l r) \<Rightarrow> hash_internal_node h l r)"

lemma contents_side:
  assumes "mtree_ok p (Fork l r)"
  shows "contents (Fork l r) k = (if hash_bit k (length p) then contents r k else contents l k)"
  using contents_left [OF assms, of k] by metis

lemma walk_climb:
  "mtree_ok p t \<Longrightarrow> t \<noteq> Empty \<Longrightarrow> on_path p k \<Longrightarrow>
    tree_hash h t = Some (climb h k (length p) (snd (walk h k (length p) t))
      (end_hash h k (contents t k) (fst (walk h k (length p) t))))"
proof (induction t arbitrary: p)
  case (Fork l r)
  have p: "length p < 256" and ok: "mtree_ok (p @ [False]) l" "mtree_ok (p @ [True]) r" using Fork.prems(1) by simp_all
  note c = contents_side [OF Fork.prems(1), of k]
  have on: "on_path (p @ [hash_bit k (length p)]) k" using Fork.prems(3) p by (simp add: on_path_snoc)
  show ?case
  proof (cases "hash_bit k (length p)")
    case True
    then have "contents (Fork l r) k = contents r k" by (simp only: c if_True)
    with True Fork.IH(2) [OF ok(2)] on show ?thesis
      by (cases "r = Empty") (simp_all add: end_hash_def del: contents.simps)
  next
    case False
    then have "contents (Fork l r) k = contents l k" by (simp only: c if_False)
    with False Fork.IH(1) [OF ok(1)] on show ?thesis
      by (cases "l = Empty") (simp_all add: end_hash_def del: contents.simps)
  qed
qed (auto simp: end_hash_def hash_or_zero_def)

lemma walk_length: "mtree_ok p t \<Longrightarrow> length p + length (snd (walk h k (length p) t)) \<le> (if t = Empty then length p else 256)"
proof (induction t arbitrary: p)
  case (Fork l r)
  then show ?case using Fork.IH(1) [of "p @ [False]"] Fork.IH(2) [of "p @ [True]"] by auto
qed (auto simp: on_path_def)

lemma walk_member: "mtree_ok p t \<Longrightarrow> t \<noteq> Empty \<Longrightarrow> on_path p k \<Longrightarrow>
    fst (walk h k (length p) t) = None \<longleftrightarrow> contents t k \<noteq> None"
proof (induction t arbitrary: p)
  case (Fork l r)
  have p: "length p < 256" and ok: "mtree_ok (p @ [False]) l" "mtree_ok (p @ [True]) r" using Fork.prems(1) by simp_all
  note c = contents_side [OF Fork.prems(1), of k]
  have on: "on_path (p @ [hash_bit k (length p)]) k" using Fork.prems(3) p by (simp add: on_path_snoc)
  show ?case
  proof (cases "hash_bit k (length p)")
    case True
    then have "contents (Fork l r) k = contents r k" by (simp only: c if_True)
    with True Fork.IH(2) [OF ok(2)] on show ?thesis by (cases "r = Empty") (simp_all del: contents.simps(3))
  next
    case False
    then have "contents (Fork l r) k = contents l k" by (simp only: c if_False)
    with False Fork.IH(1) [OF ok(1)] on show ?thesis by (cases "l = Empty") (simp_all del: contents.simps(3))
  qed
qed auto

text \<open>At the end of the path: the leaf there agrees with the key up to its depth, and an internal node has
  no child on the key's side.\<close>

lemma walk_leaf: "mtree_ok p t \<Longrightarrow> on_path p k \<Longrightarrow> fst (walk h k (length p) t) = Some (ProofLeaf k' v') \<Longrightarrow>
    contents t k' = Some v' \<and> (\<forall>i < length p + length (snd (walk h k (length p) t)). hash_bit k' i = hash_bit k i)"
proof (induction t arbitrary: p)
  case (Fork l r)
  have p: "length p < 256" and ok: "mtree_ok (p @ [False]) l" "mtree_ok (p @ [True]) r" using Fork.prems(1) by simp_all
  have on: "on_path (p @ [hash_bit k (length p)]) k" using Fork.prems(2) p by (simp add: on_path_snoc)
  show ?case
  proof (cases "hash_bit k (length p)")
    case True
    with Fork.prems(3) have r: "r \<noteq> Empty" "fst (walk h k (length (p @ [True])) r) = Some (ProofLeaf k' v')"
      by (auto split: if_splits)
    from Fork.IH(2) [OF ok(2) _ r(2)] on True have "contents r k' = Some v'"
      "\<forall>i < length p + 1 + length (snd (walk h k (length p + 1) r)). hash_bit k' i = hash_bit k i" by simp_all
    moreover from this on ok p have "hash_bit k' (length p)" using contents_on_path [OF ok(2)] by (simp add: on_path_snoc)
    ultimately show ?thesis using True r by (simp add: contents_side [OF Fork.prems(1)] del: contents.simps)
  next
    case False
    with Fork.prems(3) have r: "l \<noteq> Empty" "fst (walk h k (length (p @ [False])) l) = Some (ProofLeaf k' v')"
      by (auto split: if_splits)
    from Fork.IH(1) [OF ok(1) _ r(2)] on False have "contents l k' = Some v'"
      "\<forall>i < length p + 1 + length (snd (walk h k (length p + 1) l)). hash_bit k' i = hash_bit k i" by simp_all
    moreover from this on ok p have "\<not> hash_bit k' (length p)" using contents_on_path [OF ok(1)] by (simp add: on_path_snoc)
    ultimately show ?thesis using False r by (simp add: contents_side [OF Fork.prems(1)] del: contents.simps)
  qed
qed (auto simp: on_path_def split: if_splits)

lemma walk_internal: "mtree_ok p t \<Longrightarrow> fst (walk h k (length p) t) = Some (ProofInternal lh rh) \<Longrightarrow>
    length p + length (snd (walk h k (length p) t)) < 256 \<and>
    (if hash_bit k (length p + length (snd (walk h k (length p) t))) then rh = None else lh = None)"
proof (induction t arbitrary: p)
  case (Fork l r)
  then show ?case using Fork.IH(1) [of "p @ [False]"] Fork.IH(2) [of "p @ [True]"] by (auto split: if_splits)
qed (auto split: if_splits)

subsection \<open>Proving\<close>

lemma from_bytes_hash: "bitarray_from_bytes (hash_bytes k) = Inr (bitarray_of_hash k)"
  by (simp add: bitarray_from_bytes_def bitarray_of_hash_def max_byte_length_def max_bit_length_def ensure_def)

lemma next_bit_of_hash:
  assumes "n < 256"
  shows "bit_next (taken (bitarray_range (bitarray_of_hash k) None None True) n) =
    Inr (Some (bit_of_bool (hash_bit k n)), taken (bitarray_range (bitarray_of_hash k) None None True) (n + 1))"
  using assms by (intro next_ascending)
    (simp_all add: bitarray_range_def bitarray_of_hash_def max_bit_length_def max_byte_length_def bit_at_index_hash)

lemma prove_loop_ok:
  assumes "mtree_ok p t" and "represents h (tr_nodes st) m p t n" and "on_path p k"
  shows "prove_loop st k (taken (bitarray_range (bitarray_of_hash k) None None True) (length p)) (bits_of p) n ss =
    Inr (fst (walk h k (length p) t), ss @ snd (walk h k (length p) t))"
  using assms
proof (induction t arbitrary: p n ss)
  case (Fork l r)
  have p: "length p < 256" and ok: "mtree_ok (p @ [False]) l" "mtree_ok (p @ [True]) r" using Fork.prems(1) by simp_all
  from Fork.prems(2) obtain i where n: "n = Internal i"
    and i: "link h (tr_nodes st) m (p @ [False]) l (in_left i)" "link h (tr_nodes st) m (p @ [True]) r (in_right i)" by auto
  have on: "on_path (p @ [hash_bit k (length p)]) k" using Fork.prems(3) p by (simp add: on_path_snoc)
  note push = push_bits_of [OF p, of False] push_bits_of [OF p, of True]
  note step = prove_loop.simps [of st k "taken (bitarray_range (bitarray_of_hash k) None None True) (length p)"]
  show ?case
  proof (cases "hash_bit k (length p)")
    case True
    show ?thesis
    proof (cases "in_right i")
      case None
      with i(2) have "r = Empty" by (simp add: link_ok_def)
      with True None show ?thesis by (simp add: step n next_bit_of_hash p link_hash [OF i(1)] bit_of_bool_def)
    next
      case (Some c)
      with i(2) obtain n' where n': "tr_nodes st (ch_version c, bits_of (p @ [True])) = Some n'"
        "represents h (tr_nodes st) m (p @ [True]) r n'" by (auto simp: link_ok_def)
      from n'(2) have "r \<noteq> Empty" by auto
      with n'(1) True Some Fork.IH(2) [OF ok(2) n'(2), of "ss @ [tree_hash h l]"] on push(2) show ?thesis
        by (simp add: step n next_bit_of_hash p link_hash [OF i(1)] bit_of_bool_def node_load_def ok_or_def)
    qed
  next
    case False
    show ?thesis
    proof (cases "in_left i")
      case None
      with i(1) have "l = Empty" by (simp add: link_ok_def)
      with False None show ?thesis by (simp add: step n next_bit_of_hash p link_hash [OF i(2)] bit_of_bool_def)
    next
      case (Some c)
      with i(1) obtain n' where n': "tr_nodes st (ch_version c, bits_of (p @ [False])) = Some n'"
        "represents h (tr_nodes st) m (p @ [False]) l n'" by (auto simp: link_ok_def)
      from n'(2) have "l \<noteq> Empty" by auto
      with n'(1) False Some Fork.IH(1) [OF ok(1) n'(2), of "ss @ [tree_hash h r]"] on push(1) show ?thesis
        by (simp add: step n next_bit_of_hash p link_hash [OF i(2)] bit_of_bool_def node_load_def ok_or_def)
    qed
  qed
qed (simp_all add: prove_loop.simps)

lemma prove_ok:
  assumes "tree_at h st v t" and "t \<noteq> Empty"
  shows "merkle_prove st k v = Inr (case fst (walk h k 0 t) of
      Some pn \<Rightarrow> NonMembership pn (rev (snd (walk h k 0 t)))
    | None \<Rightarrow> Membership (rev (snd (walk h k 0 t))))"
proof -
  from assms obtain n where n: "tr_nodes st (v, root_bits) = Some n" "mtree_ok [] t" "represents h (tr_nodes st) v [] t n"
    by (auto simp: tree_at_def split: option.splits)
  have "prove_loop st k (bitarray_range (bitarray_of_hash k) None None True) root_bits n [] =
      Inr (fst (walk h k 0 t), snd (walk h k 0 t))"
    using prove_loop_ok [OF n(2,3), of k "[]"] by (simp add: taken_0 bitarray_range_def root_bits_of)
  with n(1) show ?thesis
    by (simp add: merkle_prove_def from_bytes_hash node_load_def ok_or_def split: prod.split option.split)
qed

subsection \<open>Verifying\<close>

lemma climb_snoc: "climb h k d (ss @ [s]) x = climb h k d ss (climb h k (d + length ss) [s] x)"
  by (induction ss arbitrary: d) simp_all

lemma compute_root_ok:
  assumes "j + length ss \<le> 256"
  shows "compute_root h (taken (bitarray_range (bitarray_of_hash k) None (Some (j + length ss)) False) j) (rev ss) x =
    Inr (climb h k 0 ss x)"
  using assms
proof (induction ss arbitrary: j x rule: rev_induct)
  case Nil
  obtain it where "bit_next (taken (bitarray_range (bitarray_of_hash k) None (Some j) False) j) = Inr (None, it)"
    using next_descending_end [of "bitarray_range (bitarray_of_hash k) None (Some j) False" j] by (auto simp: bitarray_range_def)
  then show ?case by simp
next
  case (snoc s ss)
  let ?it = "bitarray_range (bitarray_of_hash k) None (Some (j + length (ss @ [s]))) False"
  have "bit_next (taken ?it j) = Inr (Some (bit_of_bool (hash_bit k (length ss))), taken ?it (j + 1))"
    using snoc.prems by (intro next_descending)
      (simp_all add: bitarray_range_def bitarray_of_hash_def bit_at_index_hash)
  with snoc.IH [of "j + 1"] snoc.prems show ?case by (simp add: climb_snoc)
qed

lemma compare_ok:
  assumes "length ss \<le> 256"
  shows "compute_and_compare_root_hash h root_hash (bitarray_of_hash k) (rev ss) x =
    (if climb h k 0 ss x = root_hash then Inr () else Inl (Bail ''root hash mismatch''))"
proof -
  have "compute_root h (bitarray_range (bitarray_of_hash k) None (Some (length ss)) False) (rev ss) x = Inr (climb h k 0 ss x)"
    using compute_root_ok [of 0 ss h k x] assms by (simp add: taken_0 bitarray_range_def)
  then show ?thesis by (simp add: compute_and_compare_root_hash_def ensure_def)
qed

lemma compare_long:
  assumes "256 < length ss"
  shows "compute_and_compare_root_hash h root_hash (bitarray_of_hash k) ss x = Inl Panic"
proof -
  have "bit_next (bitarray_range (bitarray_of_hash k) None (Some (length ss)) False) = Inl Panic"
    using assms by (auto simp: bit_next_def bit_decrement_def Let_def bitarray_range_def bitarray_of_hash_def bit_at_index_beyond)
  then show ?thesis using assms by (cases ss) (simp_all add: compute_and_compare_root_hash_def)
qed

lemma any_differs_ok:
  assumes "j + n \<le> 256"
  shows "any_differs (taken (bitarray_range (bitarray_of_hash k) None (Some (j + n)) False) j)
      (taken (bitarray_range (bitarray_of_hash k') None (Some (j + n)) False) j) =
    Inr (\<exists>i < n. hash_bit k i \<noteq> hash_bit k' i)"
  using assms
proof (induction n arbitrary: j)
  case 0
  obtain it where "bit_next (taken (bitarray_range (bitarray_of_hash k) None (Some j) False) j) = Inr (None, it)"
    using next_descending_end [of "bitarray_range (bitarray_of_hash k) None (Some j) False" j] by (auto simp: bitarray_range_def)
  then show ?case by (simp add: any_differs.simps)
next
  case (Suc n)
  have "bit_next (taken (bitarray_range (bitarray_of_hash x) None (Some (j + Suc n)) False) j) =
      Inr (Some (bit_of_bool (hash_bit x n)), taken (bitarray_range (bitarray_of_hash x) None (Some (j + Suc n)) False) (j + 1))" for x
    using Suc.prems by (intro next_descending) (simp_all add: bitarray_range_def bitarray_of_hash_def bit_at_index_hash)
  with Suc.IH [of "j + 1"] Suc.prems show ?case by (auto simp: any_differs.simps less_Suc_eq)
qed

lemma non_membership_hash_ok:
  assumes "length ss \<le> 256"
  shows "non_membership_hash h (bitarray_of_hash k) (ProofLeaf k' v') ss =
    (if \<exists>i < length ss. hash_bit k i \<noteq> hash_bit k' i then Inl (Bail ''not a common prefix'') else Inr (hash_leaf_node h k' v'))"
  using any_differs_ok [of 0 "length ss" k k'] assms
  by (auto simp: non_membership_hash_def from_bytes_hash ensure_def taken_0 bitarray_range_def)

lemma non_membership_hash_internal:
  assumes "length ss < 256"
  shows "non_membership_hash h (bitarray_of_hash k) (ProofInternal lh rh) ss =
    (if (if hash_bit k (length ss) then rh else lh) \<noteq> None then Inl (Bail ''unexpected child'') else Inr (hash_internal_node h lh rh))"
  using assms by (simp add: non_membership_hash_def bitarray_bit_def bitarray_of_hash_def bit_at_index_hash)

text \<open>A proof from a version verifies against its root.\<close>

lemma prove_verifies:
  assumes "tree_at h st v t" and "tree_hash h t = Some root_hash"
  shows "\<exists>pf. merkle_prove st k v = Inr pf \<and> verify_proof h root_hash k (contents t k) pf = Inr ()"
proof -
  have t: "t \<noteq> Empty" "mtree_ok [] t" using assms by (auto simp: tree_at_def)
  let ?w = "walk h k 0 t"
  have len: "length (snd ?w) \<le> 256" using walk_length [OF t(2), of h k] t(1) by simp
  have root: "climb h k 0 (snd ?w) (end_hash h k (contents t k) (fst ?w)) = root_hash"
    using walk_climb [OF t(2,1), of k h] assms(2) by simp
  have mem: "fst ?w = None \<longleftrightarrow> contents t k \<noteq> None" using walk_member [OF t(2,1), of k h] by simp
  note P = prove_ok [OF assms(1) t(1), of k]
  show ?thesis
  proof (cases "fst ?w")
    case None
    with mem obtain v where "contents t k = Some v" by auto
    with P None root len show ?thesis
      by (auto simp: verify_membership_proof_def from_bytes_hash compare_ok end_hash_def hash_or_zero_def)
  next
    case (Some pn)
    then have none: "contents t k = None" using mem by auto
    have "non_membership_hash h (bitarray_of_hash k) pn (rev (snd ?w)) = Inr (end_hash h k None (Some pn))"
    proof (cases pn)
      case (ProofInternal lh rh)
      with Some walk_internal [OF t(2), of h k lh rh] show ?thesis
        by (simp add: non_membership_hash_internal end_hash_def split: if_splits)
    next
      case (ProofLeaf k' v')
      with Some walk_leaf [OF t(2) on_path_Nil, of h k k' v'] len show ?thesis
        by (auto simp: non_membership_hash_ok end_hash_def)
    qed
    with P Some none root len show ?thesis
      by (simp add: verify_non_membership_proof_def from_bytes_hash compare_ok)
  qed
qed

subsection \<open>Soundness\<close>

text \<open>The byte strings that are hashed, in the tree and in the verification of a proof.\<close>

definition internal_image :: "hash256 option \<Rightarrow> hash256 option \<Rightarrow> u8 list" where
  "internal_image l r = [0] @ hash_bytes (hash_or_zero l) @ hash_bytes (hash_or_zero r)"

definition leaf_image :: "hash256 \<Rightarrow> hash256 \<Rightarrow> u8 list" where
  "leaf_image k v = [1] @ hash_bytes k @ hash_bytes v"

fun tree_images :: "hash_fun \<Rightarrow> mtree \<Rightarrow> u8 list list" where
  "tree_images h Empty = []"
| "tree_images h (Tip k v) = [leaf_image k v]"
| "tree_images h (Fork l r) = internal_image (tree_hash h l) (tree_hash h r) # tree_images h l @ tree_images h r"

fun climb_images :: "hash_fun \<Rightarrow> hash256 \<Rightarrow> nat \<Rightarrow> hash256 option list \<Rightarrow> u8 list \<Rightarrow> u8 list list" where
  "climb_images h k d [] img = [img]"
| "climb_images h k d (s # ss) img =
     (if hash_bit k d then internal_image s (Some (climb h k (d + 1) ss (h img)))
      else internal_image (Some (climb h k (d + 1) ss (h img))) s) # climb_images h k (d + 1) ss img"

fun end_image :: "hash256 \<Rightarrow> hash256 option \<Rightarrow> merkle_proof \<Rightarrow> u8 list" where
  "end_image k x (Membership ss) = leaf_image k (hash_or_zero x)"
| "end_image k x (NonMembership (ProofLeaf k' v') ss) = leaf_image k' v'"
| "end_image k x (NonMembership (ProofInternal l r) ss) = internal_image l r"

fun siblings_of :: "merkle_proof \<Rightarrow> hash256 option list" where
  "siblings_of (Membership ss) = ss"
| "siblings_of (NonMembership pn ss) = ss"

definition proof_images :: "hash_fun \<Rightarrow> hash256 \<Rightarrow> hash256 option \<Rightarrow> merkle_proof \<Rightarrow> u8 list list" where
  "proof_images h k x pf = climb_images h k 0 (rev (siblings_of pf)) (end_image k x pf)"

text \<open>Among some byte strings, the hash function has no collision, and no value zero (which is the hash
  that stands for a missing child).\<close>

definition collision_free :: "hash_fun \<Rightarrow> u8 list list \<Rightarrow> bool" where
  "collision_free h imgs \<longleftrightarrow> (\<forall>x \<in> set imgs. h x \<noteq> 0 \<and> (\<forall>y \<in> set imgs. h x = h y \<longrightarrow> x = y))"

lemma collision_free_mono: "collision_free h xs \<Longrightarrow> set ys \<subseteq> set xs \<Longrightarrow> collision_free h ys"
  unfolding collision_free_def by blast

lemma hash_node_images:
  "hash_internal_node h l r = h (internal_image l r)" "hash_leaf_node h k v = h (leaf_image k v)"
  by (simp_all add: hash_internal_node_def internal_image_def hash_leaf_node_def leaf_image_def)

lemma hash_bytes_inj: "hash_bytes x = hash_bytes y \<Longrightarrow> x = y"
  using bit_at_index_hash [of _ x] bit_at_index_hash [of _ y] by (intro hash_eqI) simp

lemma image_inj:
  "internal_image l r = internal_image l' r' \<longleftrightarrow> hash_or_zero l = hash_or_zero l' \<and> hash_or_zero r = hash_or_zero r'"
  "leaf_image k v = leaf_image k' v' \<longleftrightarrow> k = k' \<and> v = v'"
  "internal_image l r \<noteq> leaf_image k v" "leaf_image k v \<noteq> internal_image l r"
  by (auto simp: internal_image_def leaf_image_def dest: hash_bytes_inj)

fun subtree_at :: "hash256 \<Rightarrow> nat \<Rightarrow> mtree \<Rightarrow> nat \<Rightarrow> mtree" where
  "subtree_at k d t 0 = t"
| "subtree_at k d (Fork l r) (Suc n) = subtree_at k (d + 1) (if hash_bit k d then r else l) n"
| "subtree_at k d t (Suc n) = Empty"

lemma subtree_contents:
  "mtree_ok p t \<Longrightarrow> subtree_at k (length p) t n \<noteq> Empty \<Longrightarrow>
    contents t k = contents (subtree_at k (length p) t n) k \<and>
    mtree_ok (p @ map (\<lambda>i. hash_bit k (length p + i)) [0..<n]) (subtree_at k (length p) t n)"
proof (induction n arbitrary: p t)
  case (Suc n)
  from Suc.prems(2) obtain l r where t: "t = Fork l r" by (cases t) auto
  let ?b = "hash_bit k (length p)" and ?c = "if hash_bit k (length p) then r else l"
  have "mtree_ok (p @ [?b]) ?c" using Suc.prems(1) by (simp add: t)
  from Suc.IH [OF this] Suc.prems(2) have IH: "contents ?c k = contents (subtree_at k (length p + 1) ?c n) k"
    "mtree_ok ((p @ [?b]) @ map (\<lambda>i. hash_bit k (length p + 1 + i)) [0..<n]) (subtree_at k (length p + 1) ?c n)"
    by (simp_all add: t)
  have path: "p @ map (\<lambda>i. hash_bit k (length p + i)) [0..<Suc n] = (p @ [?b]) @ map (\<lambda>i. hash_bit k (length p + 1 + i)) [0..<n]"
    by (simp add: map_upt_Suc del: upt_Suc)
  have "contents t k = contents ?c k"
    using contents_side [OF Suc.prems(1) [unfolded t], of k] by (simp add: t del: contents.simps)
  with IH path show ?case by (simp add: t del: upt_Suc contents.simps)
qed simp

text \<open>A hash computed up from an end and found at the top of a tree is that of a node on the way down.\<close>

lemma climb_sound:
  assumes "tree_hash h t = Some (climb h k d ss (h img))"
    and "collision_free h (tree_images h t @ climb_images h k d ss img)"
  shows "tree_hash h (subtree_at k d t (length ss)) = Some (h img) \<and>
    set (tree_images h (subtree_at k d t (length ss))) \<subseteq> set (tree_images h t)"
  using assms
proof (induction ss arbitrary: d t)
  case (Cons s ss)
  let ?y = "climb h k (d + 1) ss (h img)"
  let ?i = "if hash_bit k d then internal_image s (Some ?y) else internal_image (Some ?y) s"
  have top: "tree_hash h t = Some (h ?i)" using Cons.prems(1) by (simp add: hash_node_images)
  have free: "x \<in> set (tree_images h t) \<Longrightarrow> h x = h ?i \<Longrightarrow> x = ?i" for x
    using Cons.prems(2) by (simp add: collision_free_def)
  obtain l r where t: "t = Fork l r"
  proof (cases t)
    case (Tip k' v')
    with top free [of "leaf_image k' v'"] show ?thesis by (simp add: hash_node_images image_inj split: if_splits)
  qed (use top in auto)
  have "internal_image (tree_hash h l) (tree_hash h r) = ?i"
    using top by (intro free) (simp_all add: t hash_node_images)
  then have side: "hash_or_zero (tree_hash h (if hash_bit k d then r else l)) = ?y"
    by (auto simp: image_inj hash_or_zero_def split: if_splits)
  have "?y = h (hd (climb_images h k (d + 1) ss img))" "hd (climb_images h k (d + 1) ss img) \<in> set (climb_images h k (d + 1) ss img)"
    by (cases ss; simp add: hash_node_images)+
  then have "?y \<noteq> 0" using Cons.prems(2) by (auto simp: collision_free_def)
  with side have "tree_hash h (if hash_bit k d then r else l) = Some ?y"
    by (cases "tree_hash h (if hash_bit k d then r else l)") (simp_all add: hash_or_zero_def)
  moreover have "collision_free h (tree_images h (if hash_bit k d then r else l) @ climb_images h k (d + 1) ss img)"
    by (rule collision_free_mono [OF Cons.prems(2)]) (auto simp: t)
  ultimately have "tree_hash h (subtree_at k (d + 1) (if hash_bit k d then r else l) (length ss)) = Some (h img) \<and>
      set (tree_images h (subtree_at k (d + 1) (if hash_bit k d then r else l) (length ss))) \<subseteq>
      set (tree_images h (if hash_bit k d then r else l))" by (rule Cons.IH)
  then show ?case by (auto simp: t)
qed simp

text \<open>What a verified proof says of the key, when its leaf is not the key's own.\<close>

fun honest :: "hash256 \<Rightarrow> merkle_proof \<Rightarrow> bool" where
  "honest k (NonMembership (ProofLeaf k' v') ss) \<longleftrightarrow> k' \<noteq> k"
| "honest k _ \<longleftrightarrow> True"

lemma verified_climb:
  assumes "verify_proof h root_hash k x pf = Inr ()"
  shows "climb h k 0 (rev (siblings_of pf)) (h (end_image k x pf)) = root_hash" and "length (siblings_of pf) \<le> 256"
    and "x = None \<longleftrightarrow> (\<exists>pn ss. pf = NonMembership pn ss)"
    and "pf = NonMembership (ProofInternal lh rh) ss \<Longrightarrow> length ss < 256 \<and> (if hash_bit k (length ss) then rh else lh) = None"
proof -
  have long: "compute_and_compare_root_hash h root_hash (bitarray_of_hash k) (siblings_of pf) y = Inr () \<Longrightarrow>
      length (siblings_of pf) \<le> 256 \<and> climb h k 0 (rev (siblings_of pf)) y = root_hash" for y
    using compare_long [of "siblings_of pf" h root_hash k y] compare_ok [of "rev (siblings_of pf)" h root_hash k y]
    by (cases "length (siblings_of pf) \<le> 256") (auto split: if_splits)
  have nm: "non_membership_hash h (bitarray_of_hash k) pn ss = Inr y \<Longrightarrow> y = h (end_image k None (NonMembership pn ss))" for pn ss y
    by (cases pn) (auto simp: non_membership_hash_def hash_node_images ensure_def result_iff split: if_splits)
  have "climb h k 0 (rev (siblings_of pf)) (h (end_image k x pf)) = root_hash \<and> length (siblings_of pf) \<le> 256"
    using assms long nm by (cases "(h, root_hash, k, x, pf)" rule: verify_proof.cases)
      (auto simp: verify_membership_proof_def verify_non_membership_proof_def from_bytes_hash hash_node_images hash_or_zero_def result_iff)
  then show "climb h k 0 (rev (siblings_of pf)) (h (end_image k x pf)) = root_hash" and "length (siblings_of pf) \<le> 256" by simp_all
  show "x = None \<longleftrightarrow> (\<exists>pn ss. pf = NonMembership pn ss)"
    using assms by (cases "(h, root_hash, k, x, pf)" rule: verify_proof.cases) auto
  assume pf: "pf = NonMembership (ProofInternal lh rh) ss"
  show "length ss < 256 \<and> (if hash_bit k (length ss) then rh else lh) = None"
  proof (cases "length ss < 256")
    case True
    with assms pf show ?thesis by (cases x)
        (auto simp: verify_non_membership_proof_def from_bytes_hash non_membership_hash_internal split: if_splits)
  next
    case False
    then have "bitarray_bit (bitarray_of_hash k) (length ss) = Inl Panic"
      by (simp add: bitarray_bit_def bitarray_of_hash_def bit_at_index_beyond)
    with assms pf show ?thesis by (cases x) (auto simp: verify_non_membership_proof_def from_bytes_hash non_membership_hash_def)
  qed
qed

lemma proof_sound:
  assumes "mtree_ok [] t" and "tree_hash h t = Some root_hash" and V: "verify_proof h root_hash k x pf = Inr ()"
    and "honest k pf" and F: "collision_free h (tree_images h t @ proof_images h k x pf)"
  shows "contents t k = x"
proof -
  let ?ss = "rev (siblings_of pf)" and ?img = "end_image k x pf"
  let ?s = "subtree_at k 0 t (length (siblings_of pf))"
  note C = verified_climb [OF V]
  have top: "tree_hash h t = Some (climb h k 0 ?ss (h ?img))" using assms(2) C(1) by simp
  from climb_sound [OF top] F have s: "tree_hash h ?s = Some (h ?img)" "set (tree_images h ?s) \<subseteq> set (tree_images h t)"
    by (simp_all add: proof_images_def)
  then have ne: "?s \<noteq> Empty" by auto
  from subtree_contents [of "[]" t k "length (siblings_of pf)"] assms(1) ne
  have c: "contents t k = contents ?s k" and ok: "mtree_ok (map (hash_bit k) [0..<length (siblings_of pf)]) ?s" by simp_all
  have img: "?img \<in> set (proof_images h k x pf)"
  proof -
    have "?img \<in> set (climb_images h k d ss ?img)" for d ss by (induction ss arbitrary: d) simp_all
    then show ?thesis by (simp add: proof_images_def)
  qed
  have free: "h y = h ?img \<Longrightarrow> y = ?img" if "y \<in> set (tree_images h ?s)" for y
    using F s(2) that img unfolding collision_free_def by (auto simp: subset_iff)
  have nz: "h y \<noteq> 0" if "y \<in> set (tree_images h ?s)" for y using F s(2) that unfolding collision_free_def by auto
  have zero: "hash_or_zero (tree_hash h u) \<noteq> 0" if "u \<noteq> Empty" "set (tree_images h u) \<subseteq> set (tree_images h ?s)" for u
    using that nz by (cases u) (auto simp: hash_or_zero_def hash_node_images)
  show ?thesis
  proof (cases ?s)
    case (Tip k' v')
    with s(1) free [of "leaf_image k' v'"] have "leaf_image k' v' = ?img" by (simp add: hash_node_images)
    with assms(4) C(3) have "contents (Tip k' v') k = x"
      by (cases "(k, x, pf)" rule: end_image.cases) (auto simp: image_inj hash_or_zero_def)
    with c show ?thesis unfolding Tip by simp
  next
    case (Fork l r)
    with s(1) free [of "internal_image (tree_hash h l) (tree_hash h r)"]
    have "internal_image (tree_hash h l) (tree_hash h r) = ?img" by (simp add: hash_node_images)
    then obtain lh rh ss where pf: "pf = NonMembership (ProofInternal lh rh) ss"
      and lr: "hash_or_zero (tree_hash h l) = hash_or_zero lh" "hash_or_zero (tree_hash h r) = hash_or_zero rh"
      by (cases "(k, x, pf)" rule: end_image.cases) (auto simp: image_inj)
    with C(3,4) have b: "x = None" "length ss < 256" "(if hash_bit k (length ss) then rh else lh) = None" by auto
    have "(if hash_bit k (length ss) then r else l) = Empty"
      using b(3) lr zero [of r] zero [of l] by (auto simp: Fork hash_or_zero_def split: if_splits)
    then have "contents (Fork l r) k = None"
      using contents_side [OF ok [unfolded Fork], of k] by (simp add: pf del: contents.simps(3) split: if_splits)
    with b(1) show ?thesis unfolding c Fork by simp
  qed (use ne in simp)
qed

end
