(* ===== verification/Merkle_Safety.thy ===== *)
theory Merkle_Safety
  imports Merkle_Verify
begin

text \<open>
  The properties of the Merkle tree: applying batches refines the updates of a map and keeps every version,
  pruning keeps the versions from the pruned one on, proofs are complete and sound, and what a verified
  non-membership proof does not show.
\<close>

subsection \<open>Batches of raw keys\<close>

definition hashed_ops :: "hash_fun \<Rightarrow> (u8 list \<times> u8 list batch_op) list \<Rightarrow> (hash256 \<times> hash256 batch_op) list" where
  "hashed_ops h batch = map (\<lambda>(k, op). (h k, map_op h op)) batch"

lemma hashed_ops_keys: "map fst (hashed_ops h batch) = map (\<lambda>e. h (fst e)) batch"
  by (simp add: hashed_ops_def comp_def case_prod_beta)

lemma sort_key_map_of:
  assumes "distinct (map fst xs)"
  shows "map_of (sort_key fst xs) = map_of xs" and "batch_ok [] (sort_key fst xs)"
proof -
  have d: "distinct (map fst (sort_key fst xs))" using assms by (simp add: distinct_map)
  show "map_of (sort_key fst xs) = map_of xs"
    using map_of_inject_set [OF d assms] by simp
  show "batch_ok [] (sort_key fst xs)"
    using d by (simp add: batch_ok_def strict_sorted_iff)
qed

lemma raw_apply:
  assumes "history h st hist n" and "unat v = n" and "distinct (map (\<lambda>e. h (fst e)) batch)"
    and "hist w = Some t \<and> unat w + 1 = n \<or> n = 0 \<and> w = v \<and> t = Empty"
  shows "\<exists>st' t'. merkle_apply_raw h st w v batch = Inr (st', tree_hash h t') \<and>
    contents t' = apply_ops (hashed_ops h batch) (contents t) \<and> history h st' (hist(v \<mapsto> t')) (n + 1)"
proof -
  have d: "distinct (map fst (hashed_ops h batch))" using assms(3) by (simp add: hashed_ops_keys)
  have "apply_ops (sort_key fst (hashed_ops h batch)) m = apply_ops (hashed_ops h batch) m" for m
    by (simp add: apply_ops_def sort_key_map_of(1) [OF d])
  with history_apply [OF assms(1,2) sort_key_map_of(2) [OF d] assms(4)] show ?thesis
    by (simp add: merkle_apply_raw_def hashed_ops_def)
qed

lemma history_root: "history h st hist n \<Longrightarrow> hist v = Some t \<Longrightarrow> merkle_root_hash h st v = tree_hash h t"
  by (rule tree_at_root) (simp add: history_def)

subsection \<open>Properties\<close>

text \<open>C7: Applying a batch to the tree of the latest version succeeds, gives the tree whose contents are the
  old ones updated by the operations of the batch, returns its root hash, which is then the root hash of the
  new version, and keeps the trees of all the other versions.\<close>

theorem merkle_apply_refines:
  assumes "history h st hist n" and "unat v = n" and "distinct (map (\<lambda>e. h (fst e)) batch)"
    and "hist w = Some t \<and> unat w + 1 = n \<or> n = 0 \<and> w = v \<and> t = Empty"
  shows "\<exists>st' t'. merkle_apply_raw h st w v batch = Inr (st', tree_hash h t') \<and>
    contents t' = apply_ops (hashed_ops h batch) (contents t) \<and> merkle_root_hash h st' v = tree_hash h t' \<and>
    history h st' (hist(v \<mapsto> t')) (n + 1)"
  using raw_apply [OF assms] history_root by (metis fun_upd_same)

definition length_hash :: hash_fun where
  "length_hash bs = of_nat (length bs)"

definition sample_batch :: "(u8 list \<times> u8 list batch_op) list" where
  "sample_batch = [([1], OpInsert [2, 3]), ([1, 1], OpInsert []), ([1, 2, 3], OpDelete)]"

lemma merkle_apply_refines_witness:
  "\<exists>st' t'. merkle_apply_raw length_hash empty_store 0 0 sample_batch = Inr (st', tree_hash length_hash t') \<and>
    contents t' = apply_ops (hashed_ops length_hash sample_batch) (contents Empty) \<and>
    merkle_root_hash length_hash st' 0 = tree_hash length_hash t' \<and> history length_hash st' (Map.empty(0 \<mapsto> t')) (0 + 1)"
  by (rule merkle_apply_refines [OF history_empty]) (simp_all add: sample_batch_def length_hash_def)

text \<open>C8: Pruning up to a version keeps the trees of that version and of all later ones: their root hashes and
  the proofs of all keys stay the same.\<close>

theorem merkle_prune_keeps:
  assumes "history h st hist n" and "hist u = Some t" and "k \<le> u"
  shows "tree_at h (merkle_prune st k) u t \<and> merkle_root_hash h (merkle_prune st k) u = merkle_root_hash h st u \<and>
    merkle_prove (merkle_prune st k) key u = merkle_prove st key u"
proof -
  have old: "tree_at h st u t" using assms by (simp add: history_def)
  have new: "tree_at h (merkle_prune st k) u t"
    using history_prune [OF assms(1), of k] assms by (simp add: history_def restrict_map_def)
  have "merkle_prove (merkle_prune st k) key u = merkle_prove st key u"
  proof (cases "t = Empty")
    case True
    with old new show ?thesis
      by (auto simp: tree_at_def merkle_prove_def from_bytes_hash node_load_def ok_or_def split: option.splits)
  qed (simp add: prove_ok [OF old] prove_ok [OF new])
  with tree_at_root [OF old] tree_at_root [OF new] new show ?thesis by simp
qed

lemma merkle_prune_keeps_witness:
  "\<exists>st t. merkle_apply_raw length_hash empty_store 0 0 sample_batch = Inr (st, tree_hash length_hash t) \<and>
    tree_at length_hash (merkle_prune st 0) 0 t \<and>
    merkle_root_hash length_hash (merkle_prune st 0) 0 = merkle_root_hash length_hash st 0 \<and>
    merkle_prove (merkle_prune st 0) 7 0 = merkle_prove st 7 0"
proof -
  have "distinct (map (\<lambda>e. length_hash (fst e)) sample_batch)" by (simp add: sample_batch_def length_hash_def)
  from raw_apply [OF history_empty _ this, where v = 0 and w = 0 and t = Empty] obtain st t where
    r: "merkle_apply_raw length_hash empty_store 0 0 sample_batch = Inr (st, tree_hash length_hash t)"
    and hist: "history length_hash st (Map.empty(0 \<mapsto> t)) (0 + 1)" by auto
  from merkle_prune_keeps [OF hist, of 0 t 0 7] r show ?thesis by simp blast
qed

text \<open>C10: The proof of any key from a version that is not empty verifies, against the root hash of the
  version, for the value hash the tree has for the key, or for its absence.\<close>

theorem merkle_prove_complete:
  assumes "tree_at h st v t" and "merkle_root_hash h st v = Some root_hash"
  shows "\<exists>pf. merkle_prove st k v = Inr pf \<and> verify_proof h root_hash k (contents t k) pf = Inr ()"
  by (rule prove_verifies [OF assms(1)]) (use assms tree_at_root in metis)

text \<open>A tree of two leaves, whose keys differ in the first bit, and a hash function for it.\<close>

definition high_key :: hash256 where
  "high_key = push_bit 255 1"

definition fork_hash :: hash_fun where
  "fork_hash bs = (if bs ! 0 = 0 then 3 else if bs ! 1 = 0 then 1 else 2)"

definition fork_store :: merkle_store where
  "fork_store = \<lparr>tr_nodes = [(0, root_bits) \<mapsto> Internal \<lparr>in_left = Some \<lparr>ch_version = 0, ch_hash = 1\<rparr>,
        in_right = Some \<lparr>ch_version = 0, ch_hash = 2\<rparr>\<rparr>,
      (0, bits_of [False]) \<mapsto> Leaf \<lparr>lf_key_hash = 0, lf_value_hash = 5\<rparr>,
      (0, bits_of [True]) \<mapsto> Leaf \<lparr>lf_key_hash = high_key, lf_value_hash = 6\<rparr>],
    tr_orphans = []\<rparr>"

definition fork_tree :: mtree where
  "fork_tree = Fork (Tip 0 5) (Tip high_key 6)"

lemma fork_images:
  "fork_hash (leaf_image 0 v) = 1" "fork_hash (leaf_image high_key v) = 2" "fork_hash (internal_image l r) = 3"
proof -
  have "hash_bytes x ! 0 = ucast (drop_bit 248 x)" for x by (simp add: hash_bytes_def)
  moreover have "(hash_bytes x @ ys) ! 0 = hash_bytes x ! 0" for x ys by (simp add: nth_append)
  ultimately have n: "leaf_image k v ! 0 = 1" "leaf_image k v ! Suc 0 = ucast (drop_bit 248 k)" "internal_image l r ! 0 = 0" for k v l r
    by (simp_all add: leaf_image_def internal_image_def)
  show "fork_hash (internal_image l r) = 3" "fork_hash (leaf_image 0 v) = 1" by (simp_all add: fork_hash_def n)
  have "drop_bit 248 high_key = 128" by (simp add: high_key_def drop_bit_push_bit)
  then show "fork_hash (leaf_image high_key v) = 2" by (simp add: fork_hash_def n)
qed

lemma fork_tree_hash: "tree_hash fork_hash fork_tree = Some 3"
  by (simp add: fork_tree_def hash_node_images fork_images)

lemma fork_tree_ok: "mtree_ok [] fork_tree"
  by (auto simp: fork_tree_def on_path_def high_key_def hash_bit_def bit_push_bit_iff)

lemma fork_tree_at: "tree_at fork_hash fork_store 0 fork_tree"
proof -
  have "bits_of [False] \<noteq> root_bits" "bits_of [True] \<noteq> root_bits" "bits_of [False] \<noteq> bits_of [True]"
    using bits_of_inj [of "[False]" "[]"] bits_of_inj [of "[True]" "[]"] bits_of_inj [of "[False]" "[True]"]
    by (auto simp: root_bits_of)
  then show ?thesis
    using fork_tree_ok by (simp add: tree_at_def fork_store_def fork_tree_def link_ok_def hash_node_images fork_images)
qed

lemma merkle_prove_complete_witness:
  "\<exists>pf. merkle_prove fork_store high_key 0 = Inr pf \<and>
    verify_proof fork_hash 3 high_key (contents fork_tree high_key) pf = Inr ()"
  by (rule merkle_prove_complete [OF fork_tree_at]) (simp add: tree_at_root [OF fork_tree_at] fork_tree_hash)

text \<open>C9: When none of the byte strings hashed for the tree and for the proof collide, or hash to zero, a
  proof that verifies tells the truth about the key: the value hash it shows is the one the tree has, and a
  key shown absent is absent, if the proof does not give the key's own leaf as the one in its place.\<close>

theorem merkle_verify_sound:
  assumes "tree_at h st v t" and "merkle_root_hash h st v = Some root_hash"
    and "verify_proof h root_hash k x pf = Inr ()" and "honest k pf"
    and "collision_free h (tree_images h t @ proof_images h k x pf)"
  shows "contents t k = x"
  by (rule proof_sound [OF _ _ assms(3-5)]) (use assms(1,2) tree_at_root in \<open>simp_all add: tree_at_def\<close>)

lemma merkle_verify_sound_witness: "contents fork_tree high_key = Some 6"
proof (rule merkle_verify_sound [OF fork_tree_at])
  have b: "hash_bit high_key 0" by (simp add: high_key_def hash_bit_def bit_push_bit_iff)
  show "merkle_root_hash fork_hash fork_store 0 = Some 3" by (simp add: tree_at_root [OF fork_tree_at] fork_tree_hash)
  show "verify_proof fork_hash 3 high_key (Some 6) (Membership [Some 1]) = Inr ()"
    using compare_ok [of "[Some 1]" fork_hash 3 high_key 2]
    by (simp add: verify_membership_proof_def from_bytes_hash hash_node_images fork_images b)
  show "honest high_key (Membership [Some 1])" by simp
  show "collision_free fork_hash (tree_images fork_hash fork_tree @ proof_images fork_hash high_key (Some 6) (Membership [Some 1]))"
    by (simp add: collision_free_def fork_tree_def proof_images_def b hash_node_images fork_images image_inj hash_or_zero_def)
qed

text \<open>C11: Every membership proof that verifies gives a non-membership proof of the same key that verifies too:
  the leaf of the key itself is accepted as the one in its place, since the verification does not compare
  the two keys.\<close>

theorem forged_non_membership:
  assumes "verify_proof h root_hash k (Some x) (Membership ss) = Inr ()"
  shows "verify_proof h root_hash k None (NonMembership (ProofLeaf k x) ss) = Inr ()"
proof -
  have "length ss \<le> 256" using verified_climb(2) [OF assms] by simp
  then show ?thesis
    using assms by (simp add: verify_membership_proof_def verify_non_membership_proof_def from_bytes_hash non_membership_hash_ok)
qed

lemma forged_non_membership_witness:
  "verify_proof fork_hash 3 high_key None (NonMembership (ProofLeaf high_key 6) [Some 1]) = Inr ()"
proof (rule forged_non_membership)
  have "hash_bit high_key 0" by (simp add: high_key_def hash_bit_def bit_push_bit_iff)
  then show "verify_proof fork_hash 3 high_key (Some 6) (Membership [Some 1]) = Inr ()"
    using compare_ok [of "[Some 1]" fork_hash 3 high_key 2]
    by (simp add: verify_membership_proof_def from_bytes_hash hash_node_images fork_images)
qed

end
