(* ===== verification/Memory_Db.thy ===== *)
theory Memory_Db
  imports Versioned_Map Merkle_Safety
begin

text \<open>
  The memory database, \<^verbatim>\<open>grug/db/memory/src/db.rs\<close>: a versioned key-value store of the state and the
  Merkle tree that commits to it, written in two phases (flush a batch, then commit it). The
  uncommitted changes hold the whole changed tree where the code holds the difference. The
  invariant: the tree of every version commits to the values of that version.
\<close>

subsection \<open>Operations\<close>

type_synonym state_batch = "(u8 list \<times> u8 list batch_op) list"

record change_set =
  cs_version :: u64
  cs_commitment :: merkle_store
  cs_storage :: state_batch

record memdb =
  md_latest :: "u64 option"
  md_commitment :: merkle_store
  md_storage :: "(u8 list, u8 list) versioned_map"
  md_changeset :: "change_set option"

definition memdb_new :: memdb where
  "memdb_new = \<lparr>md_latest = None, md_commitment = empty_store, md_storage = vm_new, md_changeset = None\<rparr>"

definition version_or_latest :: "memdb \<Rightarrow> u64 option \<Rightarrow> u64" where
  "version_or_latest db version =
     (case version of Some v \<Rightarrow> v | None \<Rightarrow> (case md_latest db of Some v \<Rightarrow> v | None \<Rightarrow> 0))"

definition memdb_root_hash :: "hash_fun \<Rightarrow> memdb \<Rightarrow> u64 option \<Rightarrow> hash256 option" where
  "memdb_root_hash h db version = merkle_root_hash h (md_commitment db) (version_or_latest db version)"

definition memdb_prove :: "hash_fun \<Rightarrow> memdb \<Rightarrow> u8 list \<Rightarrow> u64 option \<Rightarrow> merkle_proof res" where
  "memdb_prove h db key version = merkle_prove (md_commitment db) (h key) (version_or_latest db version)"

definition memdb_flush :: "hash_fun \<Rightarrow> memdb \<Rightarrow> state_batch \<Rightarrow> (memdb \<times> u64 \<times> hash256 option) res" where
  "memdb_flush h db batch =
     and_then (ensure (md_changeset db = None) (Bail ''change set is already set'')) (\<lambda>_.
     and_then (case md_latest db of
         Some v \<Rightarrow> and_then (unwrap (checked_add v 1)) (\<lambda>v'. Inr (v, v'))
       | None \<Rightarrow> Inr (0, 0)) (\<lambda>(old_version, new_version).
     and_then (merkle_apply_raw h (md_commitment db) old_version new_version batch) (\<lambda>(commitment, root_hash).
       Inr (db\<lparr>md_changeset := Some \<lparr>cs_version = new_version, cs_commitment = commitment, cs_storage = batch\<rparr>\<rparr>,
         new_version, root_hash))))"

definition memdb_commit :: "memdb \<Rightarrow> memdb res" where
  "memdb_commit db =
     and_then (ok_or (Bail ''change set is not set'') (md_changeset db)) (\<lambda>cs.
     and_then (vm_write_batch (cs_storage cs) (md_storage db)) (\<lambda>storage.
       Inr \<lparr>md_latest = Some (cs_version cs), md_commitment = cs_commitment cs, md_storage = storage, md_changeset = None\<rparr>))"

text \<open>The state storage at a version.\<close>

definition memdb_read :: "memdb \<Rightarrow> u64 \<Rightarrow> u8 list \<Rightarrow> u8 list option res" where
  "memdb_read db version key = vm_get key version (md_storage db)"

definition memdb_scan ::
    "memdb \<Rightarrow> u64 \<Rightarrow> u8 list option \<Rightarrow> u8 list option \<Rightarrow> bool \<Rightarrow> (u8 list \<times> u8 list) list res" where
  "memdb_scan db version minimum maximum ascending =
     (let min_bound = (case minimum of None \<Rightarrow> Unbounded | Some k \<Rightarrow> Included k);
          max_bound = (case maximum of None \<Rightarrow> Unbounded | Some k \<Rightarrow> Excluded k) in
      and_then (vm_range min_bound max_bound version (md_storage db)) (\<lambda>it.
      and_then (vi_collect it) (\<lambda>entries.
        Inr (if ascending then entries else rev entries))))"

definition memdb_scan_keys ::
    "memdb \<Rightarrow> u64 \<Rightarrow> u8 list option \<Rightarrow> u8 list option \<Rightarrow> bool \<Rightarrow> u8 list list res" where
  "memdb_scan_keys db version minimum maximum ascending =
     and_then (memdb_scan db version minimum maximum ascending) (\<lambda>entries. Inr (map fst entries))"

definition memdb_scan_values ::
    "memdb \<Rightarrow> u64 \<Rightarrow> u8 list option \<Rightarrow> u8 list option \<Rightarrow> bool \<Rightarrow> u8 list list res" where
  "memdb_scan_values db version minimum maximum ascending =
     and_then (memdb_scan db version minimum maximum ascending) (\<lambda>entries. Inr (map snd entries))"

subsection \<open>Runs\<close>

text \<open>The batches write keys of a set \<open>K\<close>; a batch is ordered by its keys.\<close>

definition batch_in :: "u8 list set \<Rightarrow> state_batch \<Rightarrow> bool" where
  "batch_in K batch \<longleftrightarrow> om_ok batch \<and> fst ` set batch \<subseteq> K"

inductive memdb_run :: "hash_fun \<Rightarrow> u8 list set \<Rightarrow> memdb \<Rightarrow> bool" for h K where
  new: "memdb_run h K memdb_new"
| flush: "memdb_run h K db \<Longrightarrow> batch_in K batch \<Longrightarrow> memdb_flush h db batch = Inr (db', v, r) \<Longrightarrow> memdb_run h K db'"
| commit: "memdb_run h K db \<Longrightarrow> memdb_commit db = Inr db' \<Longrightarrow> memdb_run h K db'"

text \<open>The tree commits to the values of a version.\<close>

definition commits :: "hash_fun \<Rightarrow> u8 list set \<Rightarrow> (u8 list, u8 list) versioned_map \<Rightarrow> u64 \<Rightarrow> mtree \<Rightarrow> bool" where
  "commits h K vm v t \<longleftrightarrow> (\<forall>k \<in> K. contents t (h k) = map_option h (vm_value vm v k)) \<and>
     (\<forall>x. x \<notin> h ` K \<longrightarrow> contents t x = None)"

definition versions :: "u64 option \<Rightarrow> nat" where
  "versions latest = (case latest of None \<Rightarrow> 0 | Some v \<Rightarrow> unat v + 1)"

definition latest_tree :: "(u64 \<rightharpoonup> mtree) \<Rightarrow> u64 option \<Rightarrow> mtree" where
  "latest_tree hist latest = (case latest of None \<Rightarrow> Empty | Some v \<Rightarrow> (case hist v of None \<Rightarrow> Empty | Some t \<Rightarrow> t))"

definition memdb_inv :: "hash_fun \<Rightarrow> u8 list set \<Rightarrow> memdb \<Rightarrow> (u64 \<rightharpoonup> mtree) \<Rightarrow> bool" where
  "memdb_inv h K db hist \<longleftrightarrow> history h (md_commitment db) hist (versions (md_latest db)) \<and>
     vm_ok (md_storage db) \<and> vm_latest (md_storage db) = md_latest db \<and>
     (\<forall>v. unat v < versions (md_latest db) \<longrightarrow> (\<exists>t. hist v = Some t \<and> commits h K (md_storage db) v t)) \<and>
     (\<forall>cs. md_changeset db = Some cs \<longrightarrow> batch_in K (cs_storage cs) \<and> unat (cs_version cs) = versions (md_latest db) \<and>
       (\<exists>t. history h (cs_commitment cs) (hist(cs_version cs \<mapsto> t)) (versions (md_latest db) + 1) \<and>
         contents t = apply_ops (hashed_ops h (cs_storage cs)) (contents (latest_tree hist (md_latest db)))))"

lemma batch_in_distinct:
  assumes "inj_on h K" and "batch_in K batch"
  shows "distinct (map (\<lambda>e. h (fst e)) batch)"
proof -
  have "distinct (map fst batch)" "fst ` set batch \<subseteq> K" using assms(2) by (auto simp: batch_in_def om_ok_distinct)
  then have "distinct (map h (map fst batch))" using assms(1) by (subst distinct_map) (auto intro: inj_on_subset)
  then show ?thesis by (simp add: comp_def)
qed

lemma hashed_ops_at:
  assumes "inj_on h K" and "fst ` set batch \<subseteq> K" and "k \<in> K"
  shows "map_of (hashed_ops h batch) (h k) = map_option (map_op h) (map_of batch k)"
  using assms(2)
proof (induction batch)
  case (Cons e batch)
  then have "h (fst e) = h k \<longleftrightarrow> fst e = k" using assms(1,3) by (auto dest: inj_onD)
  with Cons show ?case by (cases e) (auto simp: hashed_ops_def)
qed (simp add: hashed_ops_def)

lemma hashed_ops_outside:
  assumes "fst ` set batch \<subseteq> K" and "x \<notin> h ` K"
  shows "map_of (hashed_ops h batch) x = None"
  using assms by (induction batch) (auto simp: hashed_ops_def)

lemma into_option_map_op: "(case map_op f op of OpInsert v \<Rightarrow> Some v | OpDelete \<Rightarrow> None) = map_option f (into_option op)"
  by (cases op) simp_all

text \<open>A batch applied on both sides: the new tree commits to the new values.\<close>

lemma commits_batch:
  assumes "inj_on h K" and "batch_in K batch"
    and old: "\<forall>k \<in> K. m (h k) = map_option h (vm_value vm u k)" "\<forall>x. x \<notin> h ` K \<longrightarrow> m x = None"
    and new: "\<And>k. vm_value vm' v k = (case map_of batch k of None \<Rightarrow> vm_value vm u k | Some op \<Rightarrow> into_option op)"
    and t: "contents t = apply_ops (hashed_ops h batch) m"
  shows "commits h K vm' v t"
  unfolding commits_def
proof (intro conjI ballI allI impI)
  have sub: "fst ` set batch \<subseteq> K" using assms(2) by (simp add: batch_in_def)
  fix k assume "k \<in> K"
  then show "contents t (h k) = map_option h (vm_value vm' v k)"
    using hashed_ops_at [OF assms(1) sub] old(1)
    by (simp add: t apply_ops_def new into_option_map_op split: option.split)
next
  fix x assume "x \<notin> h ` K"
  then show "contents t x = None"
    using hashed_ops_outside [of batch K x h] assms(2) old(2) by (simp add: t apply_ops_def batch_in_def)
qed

lemma memdb_new_inv: "memdb_inv h K memdb_new Map.empty"
  by (simp add: memdb_inv_def memdb_new_def versions_def history_empty vm_ok_new) (simp add: vm_new_def)

lemma memdb_flush_iff:
  "memdb_flush h db batch = Inr (db', v, r) \<longleftrightarrow> md_changeset db = None \<and> unat v = versions (md_latest db) \<and>
    (\<exists>st. merkle_apply_raw h (md_commitment db) (case md_latest db of None \<Rightarrow> v | Some w \<Rightarrow> w) v batch = Inr (st, r) \<and>
      db' = db\<lparr>md_changeset := Some \<lparr>cs_version = v, cs_commitment = st, cs_storage = batch\<rparr>\<rparr>)"
proof (cases "md_latest db")
  case None
  then show ?thesis
    by (auto simp: memdb_flush_def ensure_def versions_def unat_eq_0 result_iff split: prod.splits if_splits)
next
  case (Some w)
  have "unwrap (checked_add w 1) = Inr v \<longleftrightarrow> unat v = unat w + 1" for v
  proof -
    have "unat v < 2 ^ LENGTH(64)" by (rule unsigned_less)
    then show ?thesis by (auto simp: unwrap_def checked_add_def unat_word_ariths word_unat_eq_iff split: sum.splits if_splits)
  qed
  then show ?thesis using Some
    by (auto simp: memdb_flush_def ensure_def versions_def result_iff split: prod.splits if_splits)
qed

lemma latest_tree_history:
  assumes "memdb_inv h K db hist" and "unat v = versions (md_latest db)"
  shows "hist (case md_latest db of None \<Rightarrow> v | Some w \<Rightarrow> w) = Some (latest_tree hist (md_latest db)) \<and>
      unat (case md_latest db of None \<Rightarrow> v | Some w \<Rightarrow> w) + 1 = versions (md_latest db) \<or>
    versions (md_latest db) = 0 \<and> (case md_latest db of None \<Rightarrow> v | Some w \<Rightarrow> w) = v \<and> latest_tree hist (md_latest db) = Empty"
proof (cases "md_latest db")
  case (Some w)
  then obtain t where "hist w = Some t" using assms(1) unfolding memdb_inv_def by (auto simp: versions_def)
  with Some show ?thesis by (simp add: latest_tree_def versions_def)
qed (simp add: latest_tree_def versions_def)

lemma latest_commits:
  assumes "memdb_inv h K db hist" and "unat v = versions (md_latest db)"
  shows "\<forall>k \<in> K. contents (latest_tree hist (md_latest db)) (h k) = map_option h (vm_value (md_storage db) v k)"
    and "\<forall>x. x \<notin> h ` K \<longrightarrow> contents (latest_tree hist (md_latest db)) x = None"
proof -
  have "(\<forall>k \<in> K. contents (latest_tree hist (md_latest db)) (h k) = map_option h (vm_value (md_storage db) v k)) \<and>
      (\<forall>x. x \<notin> h ` K \<longrightarrow> contents (latest_tree hist (md_latest db)) x = None)"
  proof (cases "md_latest db")
    case None
    have "vm_value (md_storage db) v k = None" for k
    proof (cases "map_of (vm_nested (md_storage db)) k")
      case (Some inner)
      with None assms(1) have "\<forall>e \<in> set inner. False" unfolding memdb_inv_def vm_ok_def by fastforce
      then have "inner = []" by (cases inner) auto
      with Some show ?thesis by (simp add: vm_value_def)
    qed (simp add: vm_value_def)
    with None show ?thesis by (simp add: latest_tree_def)
  next
    case (Some w)
    then obtain t where t: "hist w = Some t" "commits h K (md_storage db) w t"
      using assms(1) unfolding memdb_inv_def by (auto simp: versions_def)
    have "w \<le> v" using assms(2) Some by (simp add: versions_def word_le_nat_alt)
    then have "vm_value (md_storage db) v k = vm_value (md_storage db) w k" for k
      using assms(1) Some by (intro value_beyond) (simp_all add: memdb_inv_def)
    with t Some show ?thesis by (simp add: latest_tree_def commits_def)
  qed
  then show "\<forall>k \<in> K. contents (latest_tree hist (md_latest db)) (h k) = map_option h (vm_value (md_storage db) v k)"
    "\<forall>x. x \<notin> h ` K \<longrightarrow> contents (latest_tree hist (md_latest db)) x = None" by simp_all
qed

lemma flush_inv:
  assumes "inj_on h K" and inv: "memdb_inv h K db hist" and "batch_in K batch" and "memdb_flush h db batch = Inr (db', v, r)"
  shows "memdb_inv h K db' hist"
proof -
  from assms(4) obtain st where F: "unat v = versions (md_latest db)"
    "merkle_apply_raw h (md_commitment db) (case md_latest db of None \<Rightarrow> v | Some w \<Rightarrow> w) v batch = Inr (st, r)"
    "db' = db\<lparr>md_changeset := Some \<lparr>cs_version = v, cs_commitment = st, cs_storage = batch\<rparr>\<rparr>"
    unfolding memdb_flush_iff by blast
  have "history h (md_commitment db) hist (versions (md_latest db))" using inv by (simp add: memdb_inv_def)
  from raw_apply [OF this F(1) batch_in_distinct [OF assms(1,3)] latest_tree_history [OF inv F(1)]] F(2)
  obtain t where "contents t = apply_ops (hashed_ops h batch) (contents (latest_tree hist (md_latest db)))"
    "history h st (hist(v \<mapsto> t)) (versions (md_latest db) + 1)" by auto
  with inv assms(3) F(1) show ?thesis unfolding memdb_inv_def F(3) by (simp del: fun_upd_apply) blast
qed

lemma commit_inv:
  assumes "inj_on h K" and inv: "memdb_inv h K db hist" and "memdb_commit db = Inr db'"
  obtains cs t where "md_changeset db = Some cs" and "memdb_inv h K db' (hist(cs_version cs \<mapsto> t))"
    and "\<And>k. vm_value (md_storage db') (cs_version cs) k =
      (case map_of (cs_storage cs) k of None \<Rightarrow> vm_value (md_storage db) (cs_version cs) k | Some op \<Rightarrow> into_option op)"
    and "\<And>u k. u < cs_version cs \<Longrightarrow> vm_value (md_storage db') u k = vm_value (md_storage db) u k"
    and "md_latest db' = Some (cs_version cs)"
proof -
  obtain cs where cs: "md_changeset db = Some cs" using assms(3) by (auto simp: memdb_commit_def ok_or_def split: option.splits)
  let ?v = "cs_version cs"
  obtain storage where w: "vm_write_batch (cs_storage cs) (md_storage db) = Inr storage"
    and db': "db' = \<lparr>md_latest = Some ?v, md_commitment = cs_commitment cs, md_storage = storage, md_changeset = None\<rparr>"
    using assms(3) by (auto simp: memdb_commit_def ok_or_def cs result_iff)
  from inv cs obtain t where b: "batch_in K (cs_storage cs)" and v: "unat ?v = versions (md_latest db)"
    and t: "history h (cs_commitment cs) (hist(?v \<mapsto> t)) (versions (md_latest db) + 1)"
      "contents t = apply_ops (hashed_ops h (cs_storage cs)) (contents (latest_tree hist (md_latest db)))"
    unfolding memdb_inv_def by blast
  have ok: "vm_ok (md_storage db)" and latest: "vm_latest (md_storage db) = md_latest db" using inv by (simp_all add: memdb_inv_def)
  have new: "vm_latest storage = Some ?v"
    using w v latest
    by (auto simp: vm_write_batch_def result_iff unwrap_def checked_add_def versions_def unat_word_ariths word_unat_eq_iff
        split: option.splits sum.splits if_splits)
  have d: "distinct (map fst (cs_storage cs))" using b by (simp add: batch_in_def om_ok_distinct)
  note V = value_after_batch [OF ok d w new]
  have n: "versions (Some ?v) = versions (md_latest db) + 1" using v by (simp add: versions_def)
  have "memdb_inv h K db' (hist(?v \<mapsto> t))"
    unfolding memdb_inv_def
  proof (intro conjI allI impI)
    show "history h (md_commitment db') (hist(?v \<mapsto> t)) (versions (md_latest db'))" using t(1) by (simp only: db' n memdb.simps)
    show "vm_ok (md_storage db')" using V(1) by (simp add: db')
    show "vm_latest (md_storage db') = md_latest db'" using new by (simp add: db')
    fix u :: u64 assume u: "unat u < versions (md_latest db')"
    show "\<exists>x. (hist(?v \<mapsto> t)) u = Some x \<and> commits h K (md_storage db') u x"
    proof (cases "u = ?v")
      case True
      have "commits h K storage ?v t"
        by (rule commits_batch [OF assms(1) b latest_commits [OF inv v] V(2) t(2)])
      with True show ?thesis by (simp add: db')
    next
      case False
      then have "unat u < versions (md_latest db)" "u < ?v" using u v n
        by (auto simp: db' word_unat_eq_iff word_less_nat_alt)
      with inv V(3) False show ?thesis unfolding memdb_inv_def commits_def db' by simp
    qed
  qed (simp_all add: db')
  then show thesis by (rule that [OF cs]) (use V(2,3) in \<open>simp_all add: db'\<close>)
qed

lemma run_inv:
  assumes "memdb_run h K db" and "inj_on h K"
  shows "\<exists>hist. memdb_inv h K db hist"
  using assms(1)
proof induction
  case new
  show ?case using memdb_new_inv by blast
next
  case (flush db batch db' v r)
  with flush_inv [OF assms(2)] show ?case by blast
next
  case (commit db db')
  then obtain hist where "memdb_inv h K db hist" by blast
  show ?case by (rule commit_inv [OF assms(2) \<open>memdb_inv h K db hist\<close> commit.hyps(2)]) (rule exI)
qed

lemma run_version:
  assumes "memdb_run h K db" and "inj_on h K" and "md_latest db = Some l" and "v \<le> l"
  obtains t where "tree_at h (md_commitment db) v t" and "commits h K (md_storage db) v t"
    and "memdb_read db v k = Inr (vm_value (md_storage db) v k)"
    and "memdb_root_hash h db (Some v) = tree_hash h t"
proof -
  from run_inv [OF assms(1,2)] obtain hist where I: "memdb_inv h K db hist" by blast
  have "unat v < versions (md_latest db)" using assms(3,4) by (simp add: versions_def word_le_nat_alt)
  with I obtain t where t: "hist v = Some t" "commits h K (md_storage db) v t" unfolding memdb_inv_def by blast
  with I have at: "tree_at h (md_commitment db) v t" by (auto simp: memdb_inv_def history_def)
  have "vm_latest (md_storage db) = Some l" using I assms(3) by (simp add: memdb_inv_def)
  from vm_get_value [OF this, of k v] assms(4) have "memdb_read db v k = Inr (vm_value (md_storage db) v k)"
    by (simp add: memdb_read_def)
  with that [OF at t(2)] tree_at_root [OF at] show thesis by (simp add: memdb_root_hash_def version_or_latest_def)
qed

subsection \<open>Writing\<close>

definition value_of_batch :: "state_batch \<Rightarrow> u8 list \<Rightarrow> u8 list option \<Rightarrow> u8 list option" where
  "value_of_batch batch k old = (case map_of batch k of None \<Rightarrow> old | Some op \<Rightarrow> into_option op)"

definition read_latest :: "memdb \<Rightarrow> u8 list \<Rightarrow> u8 list option res" where
  "read_latest db k = (case md_latest db of None \<Rightarrow> Inr None | Some l \<Rightarrow> memdb_read db l k)"

lemma memdb_write:
  assumes inj: "inj_on h K" and run: "memdb_run h K db" and b: "batch_in K batch" and none: "md_changeset db = None"
    and room: "versions (md_latest db) < 2 ^ 64"
  obtains db1 v r db' where "memdb_flush h db batch = Inr (db1, v, r)" and "memdb_commit db1 = Inr db'"
    and "memdb_run h K db'" and "md_changeset db' = None" and "unat v = versions (md_latest db)" and "md_latest db' = Some v"
    and "memdb_root_hash h db' (Some v) = r"
    and "\<And>k. memdb_read db' v k = and_then (read_latest db k) (\<lambda>old. Inr (value_of_batch batch k old))"
    and "\<And>u k. u < v \<Longrightarrow> memdb_read db' u k = memdb_read db u k \<and> memdb_root_hash h db' (Some u) = memdb_root_hash h db (Some u)"
proof -
  from run_inv [OF run inj] obtain hist where I: "memdb_inv h K db hist" by blast
  define v :: u64 where "v = of_nat (versions (md_latest db))"
  have v: "unat v = versions (md_latest db)" using room by (simp add: v_def unat_of_nat)
  let ?w = "case md_latest db of None \<Rightarrow> v | Some w \<Rightarrow> w"
  have H: "history h (md_commitment db) hist (versions (md_latest db))" using I by (simp add: memdb_inv_def)
  from raw_apply [OF H v batch_in_distinct [OF inj b] latest_tree_history [OF I v]] obtain st t where
    A: "merkle_apply_raw h (md_commitment db) ?w v batch = Inr (st, tree_hash h t)"
    and H': "history h st (hist(v \<mapsto> t)) (versions (md_latest db) + 1)" by auto
  define db1 where "db1 = db\<lparr>md_changeset := Some \<lparr>cs_version = v, cs_commitment = st, cs_storage = batch\<rparr>\<rparr>"
  have flush: "memdb_flush h db batch = Inr (db1, v, tree_hash h t)"
    unfolding memdb_flush_iff using A v none by (simp add: db1_def)
  have run1: "memdb_run h K db1" by (rule memdb_run.flush [OF run b flush])
  have latest: "vm_latest (md_storage db) = md_latest db" using I by (simp add: memdb_inv_def)
  have "(case md_latest db of None \<Rightarrow> Inr 0 | Some version \<Rightarrow> unwrap (checked_add version 1)) = Inr v"
  proof (cases "md_latest db")
    case (Some l)
    with v room have "unat l + 1 < 2 ^ 64" "v = l + 1" by (simp_all add: versions_def word_unat_eq_iff unat_word_ariths)
    with Some show ?thesis by (simp add: unwrap_def checked_add_def)
  qed (use v in \<open>simp add: versions_def unat_eq_0\<close>)
  then obtain storage where w: "vm_write_batch batch (md_storage db) = Inr storage" "vm_latest storage = Some v"
    by (simp add: vm_write_batch_def latest)
  define db' where "db' = \<lparr>md_latest = Some v, md_commitment = st, md_storage = storage, md_changeset = None\<rparr>"
  have commit: "memdb_commit db1 = Inr db'" using w(1) by (simp add: memdb_commit_def db1_def db'_def ok_or_def)
  note V = value_after_batch [OF _ om_ok_distinct w]
  have ok: "vm_ok (md_storage db)" "om_ok batch" using I b by (simp_all add: memdb_inv_def batch_in_def)
  have read': "u \<le> v \<Longrightarrow> memdb_read db' u k = Inr (vm_value storage u k)" for u k
    using vm_get_value [OF w(2)] by (simp add: memdb_read_def db'_def)
  have read: "md_latest db = Some l \<Longrightarrow> u \<le> l \<Longrightarrow> memdb_read db u k = Inr (vm_value (md_storage db) u k)" for u l k
    using vm_get_value [of "md_storage db" l] latest by (simp add: memdb_read_def)
  have root: "memdb_root_hash h db' (Some v) = tree_hash h t"
    using history_root [OF H', of v] by (simp add: memdb_root_hash_def version_or_latest_def db'_def)
  have new: "memdb_read db' v k = and_then (read_latest db k) (\<lambda>old. Inr (value_of_batch batch k old))" for k
  proof -
    have "read_latest db k = Inr (vm_value (md_storage db) v k)"
    proof (cases "md_latest db")
      case None
      have "vm_value (md_storage db) v k = None"
      proof (cases "map_of (vm_nested (md_storage db)) k")
        case (Some inner)
        with None ok(1) latest have "\<forall>e \<in> set inner. False" unfolding vm_ok_def by fastforce
        then have "inner = []" by (cases inner) auto
        with Some show ?thesis by (simp add: vm_value_def)
      qed (simp add: vm_value_def)
      with None show ?thesis by (simp add: read_latest_def)
    next
      case (Some l)
      have "l \<le> v" using v Some by (simp add: versions_def word_le_nat_alt)
      with value_beyond [OF ok(1), of l v k] latest Some read [OF Some, of l k] show ?thesis by (simp add: read_latest_def)
    qed
    with read' [of v k] V(2) [OF ok, of k] show ?thesis by (simp add: value_of_batch_def)
  qed
  have old: "memdb_read db' u k = memdb_read db u k \<and> memdb_root_hash h db' (Some u) = memdb_root_hash h db (Some u)" if "u < v" for u k
  proof -
    have "unat u < versions (md_latest db)" using that v by (simp add: word_less_nat_alt)
    then obtain l where l: "md_latest db = Some l" "u \<le> l" by (auto simp: versions_def word_le_nat_alt split: option.splits)
    obtain t' where "hist u = Some t'" using I \<open>unat u < _\<close> unfolding memdb_inv_def by blast
    then have "memdb_root_hash h db' (Some u) = memdb_root_hash h db (Some u)"
      using history_root [OF H, of u t'] history_root [OF H', of u t'] less_imp_neq [OF that]
      by (simp add: memdb_root_hash_def version_or_latest_def db'_def)
    with read [OF l] read' [of u k] V(3) [OF ok that, of k] that show ?thesis by simp
  qed
  show thesis
    by (rule that [OF flush commit memdb_run.commit [OF run1 commit] _ v _ root new old]) (simp_all add: db'_def)
qed

subsection \<open>Properties\<close>

text \<open>C18: Flushing and committing a batch succeeds, as long as versions are left: the new version has the
  values of the latest one changed by the operations of the batch, the root hash returned is the one
  recorded for it, and the values and root hashes of all older versions stay the same.\<close>

theorem memdb_commit_exact:
  assumes "inj_on h K" and "memdb_run h K db" and "batch_in K batch" and "md_changeset db = None"
    and "versions (md_latest db) < 2 ^ 64"
  shows "\<exists>db1 v r db'. memdb_flush h db batch = Inr (db1, v, r) \<and> memdb_commit db1 = Inr db' \<and>
    md_latest db' = Some v \<and> unat v = versions (md_latest db) \<and> memdb_root_hash h db' (Some v) = r \<and>
    (\<forall>k. memdb_read db' v k = and_then (read_latest db k) (\<lambda>old. Inr (value_of_batch batch k old))) \<and>
    (\<forall>u k. u < v \<longrightarrow> memdb_read db' u k = memdb_read db u k \<and>
      memdb_root_hash h db' (Some u) = memdb_root_hash h db (Some u))"
  by (rule memdb_write [OF assms]) blast

definition sample_keys :: "u8 list set" where
  "sample_keys = {[1], [1, 1], [1, 2, 3]}"

lemma sample_facts: "inj_on length_hash sample_keys" "batch_in sample_keys sample_batch"
  by (simp_all add: sample_keys_def length_hash_def batch_in_def sample_batch_def om_ok_def)

lemma memdb_commit_exact_witness:
  "\<exists>db1 v r db'. memdb_flush length_hash memdb_new sample_batch = Inr (db1, v, r) \<and> memdb_commit db1 = Inr db' \<and>
    md_latest db' = Some v \<and> unat v = versions (md_latest memdb_new) \<and> memdb_root_hash length_hash db' (Some v) = r \<and>
    (\<forall>k. memdb_read db' v k = and_then (read_latest memdb_new k) (\<lambda>old. Inr (value_of_batch sample_batch k old))) \<and>
    (\<forall>u k. u < v \<longrightarrow> memdb_read db' u k = memdb_read memdb_new u k \<and>
      memdb_root_hash length_hash db' (Some u) = memdb_root_hash length_hash memdb_new (Some u))"
  by (rule memdb_commit_exact [OF sample_facts(1) memdb_run.new sample_facts(2)])
    (simp_all add: memdb_new_def versions_def)

text \<open>C16: The root hash of a version depends on the values of that version only: when two databases, whatever
  their histories, have the same values at two versions, those versions have the same root hash.\<close>

theorem memdb_root_determined:
  assumes "inj_on h K" and "memdb_run h K db" and "memdb_run h K db'"
    and "md_latest db = Some l" and "v \<le> l" and "md_latest db' = Some l'" and "v' \<le> l'"
    and "\<forall>k \<in> K. memdb_read db v k = memdb_read db' v' k"
  shows "memdb_root_hash h db (Some v) = memdb_root_hash h db' (Some v')"
proof -
  obtain t where t: "tree_at h (md_commitment db) v t" "commits h K (md_storage db) v t"
    "memdb_root_hash h db (Some v) = tree_hash h t" by (rule run_version [OF assms(2,1,4,5)])
  obtain t' where t': "tree_at h (md_commitment db') v' t'" "commits h K (md_storage db') v' t'"
    "memdb_root_hash h db' (Some v') = tree_hash h t'" by (rule run_version [OF assms(3,1,6,7)])
  have "vm_value (md_storage db) v k = vm_value (md_storage db') v' k" if "k \<in> K" for k
  proof -
    have "memdb_read db v k = Inr (vm_value (md_storage db) v k)" by (rule run_version [OF assms(2,1,4,5)])
    moreover have "memdb_read db' v' k = Inr (vm_value (md_storage db') v' k)" by (rule run_version [OF assms(3,1,6,7)])
    ultimately show ?thesis using assms(8) that by simp
  qed
  then have "contents t x = contents t' x" for x
    using t(2) t'(2) unfolding commits_def by (cases "x \<in> h ` K") auto
  then have "contents t = contents t'" by (simp add: fun_eq_iff)
  then have "t = t'" using mtree_canonical t(1) t'(1) by (auto simp: tree_at_def)
  with t(3) t'(3) show ?thesis by simp
qed

lemma memdb_root_determined_witness:
  "\<exists>db db'. memdb_read db 0 [1] = Inr (Some [2, 3]) \<and> memdb_read db' 1 [1] = Inr (Some [2, 3]) \<and>
    memdb_root_hash length_hash db (Some 0) = memdb_root_hash length_hash db' (Some 1)"
proof -
  have new: "md_changeset memdb_new = None" "versions (md_latest memdb_new) < 2 ^ 64" "md_latest memdb_new = None"
    by (simp_all add: memdb_new_def versions_def)
  have l: "read_latest memdb_new k = Inr None" for k by (simp add: read_latest_def memdb_new_def)
  obtain db v where db: "memdb_run length_hash sample_keys db" "md_changeset db = None" "unat v = 0" "md_latest db = Some v"
    "\<forall>k. memdb_read db v k = Inr (value_of_batch sample_batch k None)"
    by (rule memdb_write [OF sample_facts(1) memdb_run.new sample_facts(2) new(1,2)])
      (simp add: l new(3) versions_def)
  have v: "v = 0" using db(3) by (simp add: unat_eq_0)
  have r: "versions (md_latest db) < 2 ^ 64" "versions (md_latest db) = 1" using db(3,4) by (simp_all add: versions_def)
  obtain db' v' where db': "memdb_run length_hash sample_keys db'" "unat v' = 1" "md_latest db' = Some v'"
    "\<forall>k. memdb_read db' v' k = and_then (read_latest db k) (\<lambda>old. Inr (value_of_batch sample_batch k old))"
    by (rule memdb_write [OF sample_facts(1) db(1) sample_facts(2) db(2) r(1)]) (use r(2) in simp)
  have v': "v' = 1" using db'(2) by (simp add: word_unat_eq_iff)
  have same: "memdb_read db 0 k = memdb_read db' 1 k" for k
    using db(4,5) db'(4) by (simp add: v v' read_latest_def value_of_batch_def split: option.split)
  have "memdb_root_hash length_hash db (Some 0) = memdb_root_hash length_hash db' (Some 1)"
    by (rule memdb_root_determined [OF sample_facts(1) db(1) db'(1) db(4) _ db'(3)]) (simp_all add: v v' same)
  moreover have "memdb_read db 0 [1] = Inr (Some [2, 3])"
    using db(5) by (simp add: v value_of_batch_def sample_batch_def)
  ultimately show ?thesis using same by metis
qed

text \<open>C17: For every key and every version with a root hash, the proof the database gives verifies, against that
  root hash, for the hash of the value one reads at that version, or for its absence.\<close>

theorem memdb_proofs_match_reads:
  assumes "inj_on h K" and "memdb_run h K db" and "md_latest db = Some l" and "v \<le> l" and "k \<in> K"
    and "memdb_root_hash h db (Some v) = Some root_hash"
  shows "\<exists>x pf. memdb_read db v k = Inr x \<and> memdb_prove h db k (Some v) = Inr pf \<and>
    verify_proof h root_hash (h k) (map_option h x) pf = Inr ()"
proof -
  obtain t where t: "tree_at h (md_commitment db) v t" "commits h K (md_storage db) v t"
    "memdb_read db v k = Inr (vm_value (md_storage db) v k)" "memdb_root_hash h db (Some v) = tree_hash h t"
    by (rule run_version [OF assms(2,1,3,4)])
  have "contents t (h k) = map_option h (vm_value (md_storage db) v k)" using t(2) assms(5) by (simp add: commits_def)
  moreover have "tree_hash h t = Some root_hash" using t(4) assms(6) by simp
  ultimately show ?thesis using prove_verifies [OF t(1), of root_hash "h k"] t(3)
    by (auto simp: memdb_prove_def version_or_latest_def)
qed

lemma memdb_proofs_match_reads_witness:
  "\<exists>db x pf r. memdb_root_hash length_hash db (Some 0) = Some r \<and> memdb_read db 0 [1] = Inr x \<and>
    memdb_prove length_hash db [1] (Some 0) = Inr pf \<and> verify_proof length_hash r (length_hash [1]) (map_option length_hash x) pf = Inr ()"
proof -
  have new: "md_changeset memdb_new = None" "versions (md_latest memdb_new) < 2 ^ 64" "md_latest memdb_new = None"
    by (simp_all add: memdb_new_def versions_def)
  obtain db v where db: "memdb_run length_hash sample_keys db" "unat v = 0" "md_latest db = Some v"
    "\<forall>k. memdb_read db v k = Inr (value_of_batch sample_batch k None)"
    by (rule memdb_write [OF sample_facts(1) memdb_run.new sample_facts(2) new(1,2)])
      (simp add: new(3) versions_def read_latest_def)
  have v: "v = 0" using db(2) by (simp add: unat_eq_0)
  obtain t where t: "tree_at length_hash (md_commitment db) 0 t" "commits length_hash sample_keys (md_storage db) 0 t"
    "memdb_read db 0 [1] = Inr (vm_value (md_storage db) 0 [1])" "memdb_root_hash length_hash db (Some 0) = tree_hash length_hash t"
    by (rule run_version [OF db(1) sample_facts(1) db(3)]) (simp add: v)
  have "vm_value (md_storage db) 0 [1] = Some [2, 3]"
    using db(4) t(3) by (simp add: v value_of_batch_def sample_batch_def)
  then have "contents t (length_hash [1]) \<noteq> None" using t(2) by (simp add: commits_def sample_keys_def)
  then have "t \<noteq> Empty" by auto
  then obtain r where r: "memdb_root_hash length_hash db (Some 0) = Some r" using t(4) by (cases t) auto
  have "[1] \<in> sample_keys" by (simp add: sample_keys_def)
  from memdb_proofs_match_reads [OF sample_facts(1) db(1) db(3) _ this r] r show ?thesis unfolding v by blast
qed

text \<open>Scanning a range at a version yields, in the order asked for, exactly the keys of the range that
  have a value there, with the value one reads; the end of the range is excluded.\<close>

lemma memdb_scan_exact:
  assumes "inj_on h K" and "memdb_run h K db" and "md_latest db = Some l" and "v \<le> l" and "a \<le> b"
  shows "\<exists>es. memdb_scan db v (Some a) (Some b) True = Inr es \<and> memdb_scan db v (Some a) (Some b) False = Inr (rev es) \<and>
    sorted_wrt (<) (map fst es) \<and>
    (\<forall>k x. (k, x) \<in> set es \<longleftrightarrow> a \<le> k \<and> k < b \<and> memdb_read db v k = Inr (Some x))"
proof -
  from run_inv [OF assms(2,1)] obtain hist where I: "memdb_inv h K db hist" by blast
  define m where "m = vm_nested (md_storage db)"
  have ok: "om_ok m" and latest: "vm_latest (md_storage db) = Some l"
    using I assms(3) by (simp_all add: memdb_inv_def vm_ok_def m_def)
  define it where "it = \<lparr>vi_nested = m, vi_start = Included a, vi_end = Excluded b, vi_version = v, vi_last = None\<rparr>"
  define es where "es = value_entries v (filter (\<lambda>e. a \<le> fst e \<and> fst e < b) m)"
  have "vi_collect it = Inr es"
    using collect_values [of it] ok assms(5) by (simp add: it_def es_def in_reach_def not_less)
  then have scan: "memdb_scan db v (Some a) (Some b) asc = Inr (if asc then es else rev es)" for asc
    using assms(4) by (simp add: memdb_scan_def vm_range_def latest ensure_def it_def m_def)
  have read: "memdb_read db v k = Inr (vm_value (md_storage db) v k)" for k
    using vm_get_value [OF latest] assms(4) by (simp add: memdb_read_def)
  have "(k, x) \<in> set es \<longleftrightarrow> a \<le> k \<and> k < b \<and> vm_value (md_storage db) v k = Some x" for k x
    by (auto simp: es_def value_entries_mem om_mem_iff [OF ok] vm_value_def m_def [symmetric] split: option.split)
  with scan value_entries_sorted [OF om_ok_filter [OF ok]] show ?thesis by (auto simp: read es_def)
qed

lemma memdb_scan_exact_witness:
  "\<exists>db es. memdb_scan db 0 (Some []) (Some [2]) True = Inr es \<and> ([1], [2, 3]) \<in> set es"
proof -
  have new: "md_changeset memdb_new = None" "versions (md_latest memdb_new) < 2 ^ 64" "md_latest memdb_new = None"
    by (simp_all add: memdb_new_def versions_def)
  obtain db v where db: "memdb_run length_hash sample_keys db" "unat v = 0" "md_latest db = Some v"
    "\<forall>k. memdb_read db v k = Inr (value_of_batch sample_batch k None)"
    by (rule memdb_write [OF sample_facts(1) memdb_run.new sample_facts(2) new(1,2)])
      (simp add: new(3) versions_def read_latest_def)
  have v: "v = 0" using db(2) by (simp add: unat_eq_0)
  have "memdb_read db 0 [1] = Inr (Some [2, 3])" using db(4) by (simp add: v value_of_batch_def sample_batch_def)
  moreover have "([] :: u8 list) \<le> [1]" "[1] < ([2] :: u8 list)" "([] :: u8 list) \<le> [2]" by simp_all
  moreover have "0 \<le> v" by simp
  ultimately show ?thesis using memdb_scan_exact [OF sample_facts(1) db(1,3), of 0 "[]" "[2]"] by metis
qed

end
