(* ===== verification/Lite_Db.thy ===== *)
theory Lite_Db
  imports Merkle_Tree
begin

text \<open>
  The hash by which the light database commits to a batch, \<^verbatim>\<open>grug/db/disk-lite/src/digest.rs\<close>. A length
  is written as the two lowest bytes of it. The hashed bytes determine a batch whose keys and values
  are shorter than 65536 bytes (\<open>batch_bytes_inj\<close>), and no longer one with longer values.
\<close>

definition length_be16 :: "u8 list \<Rightarrow> u8 list" where
  "length_be16 bs = [of_nat (length bs div 256), of_nat (length bs)]"

fun op_bytes :: "u8 list batch_op \<Rightarrow> u8 list" where
  "op_bytes (OpInsert v) = [1] @ length_be16 v @ v"
| "op_bytes OpDelete = [0]"

fun batch_bytes :: "(u8 list \<times> u8 list batch_op) list \<Rightarrow> u8 list" where
  "batch_bytes [] = []"
| "batch_bytes ((k, op) # batch) = length_be16 k @ k @ op_bytes op @ batch_bytes batch"

definition batch_hash :: "hash_fun \<Rightarrow> (u8 list \<times> u8 list batch_op) list \<Rightarrow> hash256" where
  "batch_hash h batch = h (batch_bytes batch)"

definition short_op :: "u8 list \<times> u8 list batch_op \<Rightarrow> bool" where
  "short_op e \<longleftrightarrow> length (fst e) < 65536 \<and> (case snd e of OpInsert v \<Rightarrow> length v < 65536 | OpDelete \<Rightarrow> True)"

lemma length_be16_inj:
  assumes "length a < 65536" and "length b < 65536" and "length_be16 a @ xs = length_be16 b @ ys"
  shows "length a = length b \<and> xs = ys"
proof -
  have xy: "xs = ys" and hi: "(of_nat (length a div 256) :: u8) = of_nat (length b div 256)"
    and lo: "(of_nat (length a) :: u8) = of_nat (length b)"
    using assms(3) by (simp_all add: length_be16_def)
  have "unat (of_nat n :: u8) = n mod 256" for n by (simp add: unat_of_nat)
  with hi lo have "length a div 256 mod 256 = length b div 256 mod 256" "length a mod 256 = length b mod 256" by metis+
  moreover have "length a div 256 < 256" "length b div 256 < 256" using assms(1,2) by auto
  ultimately have "length a div 256 = length b div 256" "length a mod 256 = length b mod 256" by (simp_all only: mod_less)
  then have "length a = length b" by (metis div_mult_mod_eq)
  with xy show ?thesis by simp
qed

lemma op_bytes_inj:
  assumes "short_op (k, op)" and "short_op (k, op')" and "op_bytes op @ xs = op_bytes op' @ ys"
  shows "op = op' \<and> xs = ys"
proof (cases op; cases op')
  fix v v' assume op: "op = OpInsert v" "op' = OpInsert v'"
  with assms have "length v = length v'" "v @ xs = v' @ ys"
    using length_be16_inj [of v v' "v @ xs" "v' @ ys"] by (simp_all add: short_op_def)
  with op show "op = op' \<and> xs = ys" by simp
qed (use assms(3) in simp_all)

lemma batch_bytes_inj:
  assumes "list_all short_op b" and "list_all short_op b'" and "batch_bytes b = batch_bytes b'"
  shows "b = b'"
  using assms
proof (induction b arbitrary: b')
  case Nil
  then show ?case by (cases b' rule: batch_bytes.cases) (simp_all add: length_be16_def)
next
  case (Cons e b)
  obtain k op where e: "e = (k, op)" by (cases e)
  obtain k' op' c where b': "b' = (k', op') # c"
    using Cons.prems(3) by (cases b' rule: batch_bytes.cases) (auto simp: e length_be16_def)
  have "length k = length k' \<and> k @ op_bytes op @ batch_bytes b = k' @ op_bytes op' @ batch_bytes c"
    using Cons.prems by (intro length_be16_inj) (simp_all add: e b' short_op_def)
  then have "length k = length k'" "k @ op_bytes op @ batch_bytes b = k' @ op_bytes op' @ batch_bytes c" by simp_all
  then have k: "k = k'" "op_bytes op @ batch_bytes b = op_bytes op' @ batch_bytes c" by simp_all
  with Cons.prems op_bytes_inj [of k op op' "batch_bytes b" "batch_bytes c"] have "op = op'" "batch_bytes b = batch_bytes c"
    by (auto simp: e b')
  with Cons k(1) show ?case by (simp add: e b')
qed

subsection \<open>Property\<close>

definition long_value :: "u8 list \<Rightarrow> u8 list" where
  "long_value k = length_be16 k @ k @ [0]"

text \<open>C40: Different batches have the same hash, whatever the hash function: inserting a certain value of 65536
  bytes under a key hashes the same bytes as inserting the empty value under it and deleting another
  key.\<close>

theorem batch_hash_collides:
  assumes "length k' = 65533"
  shows "batch_hash h [(k, OpInsert (long_value k'))] = batch_hash h [(k, OpInsert []), (k', OpDelete)] \<and>
    length (long_value k') = 65536"
proof -
  have "length (long_value k') = 65536" using assms by (simp add: long_value_def length_be16_def)
  moreover from this have "length_be16 (long_value k') = length_be16 []" by (simp add: length_be16_def)
  ultimately show ?thesis by (simp add: batch_hash_def) (simp add: long_value_def)
qed

lemma batch_hash_collides_witness:
  "\<forall>h. batch_hash h [([], OpInsert (long_value (replicate 65533 7)))] =
    batch_hash h [([], OpInsert []), (replicate 65533 7, OpDelete)] \<and> length (long_value (replicate 65533 7)) = 65536"
  by (intro allI batch_hash_collides) (rule length_replicate)

end
