(* ===== verification/Spec2Isabelle.thy ===== *)
theory Spec2Isabelle
  imports Gateway_Safety Bank Vesting Auction_Halt Lending_Debts Memory_Db Lite_Db
begin

text \<open>
  Grug is an execution environment for blockchains written in Rust; Dango is a set of contracts that
  run in it. This development models the contracts' state transitions and the library code they rest on.

  \<^bold>\<open>Foundations.\<close> \<^verbatim>\<open>Prelude\<close> holds the result type (\<open>error + 'a\<close>, a panic is the error
  \<open>Panic\<close>), its sequencing \<open>and_then\<close> (the \<^verbatim>\<open>?\<close> of Rust), folds that stop at the first
  error and generic lemmas. \<^verbatim>\<open>Uints\<close> models the checked integer arithmetic of
  \<^verbatim>\<open>grug/math\<close> on words of any length, with integer square root and the ratio multiplications;
  \<^verbatim>\<open>Decimals\<close> the fixed-point decimals, whose number of decimal places is the explicit first
  argument of each operation; \<^verbatim>\<open>Int_Text\<close> the decimal text of integers.
  \<^verbatim>\<open>Ordered_Map\<close> models storage maps as association lists sorted by key (\<open>om_ok\<close>),
  \<^verbatim>\<open>Indexed_Map\<close> the indexed maps of \<^verbatim>\<open>grug/storage/src/index\<close>: the locale
  \<open>index\<close> states what an index promises and is interpreted by the unique and the multi index.
  \<^verbatim>\<open>Denoms\<close>, \<^verbatim>\<open>Coins\<close> and \<^verbatim>\<open>Dec_Coins\<close> model the token names, lists of
  coins, pairs of coins, decimal coins and transfer builders of \<^verbatim>\<open>grug/types\<close>, and
  \<^verbatim>\<open>Context\<close> the call context.

  \<^bold>\<open>Contracts.\<close> A contract is a record of its storage and one definition per handler, from the
  context and the state to the new state, the messages it sends and the events it emits, or an error,
  in which case the state is the old one. \<^verbatim>\<open>Bank\<close>, \<^verbatim>\<open>Vesting\<close> and
  \<^verbatim>\<open>Taxman\<close> model \<^verbatim>\<open>dango/bank\<close>, \<^verbatim>\<open>dango/vesting\<close> and
  \<^verbatim>\<open>dango/taxman\<close> as a whole. Invariants are proved over step relations that interleave
  any handlers from genesis.

  \<^bold>\<open>The exchange\<close> (\<^verbatim>\<open>dango/dex\<close>). \<^verbatim>\<open>Order_Matching\<close> and
  \<^verbatim>\<open>Order_Filling\<close> model the batch auction of \<^verbatim>\<open>core/order_matching.rs\<close> and
  \<^verbatim>\<open>core/order_filling.rs\<close>; \<^verbatim>\<open>Xyk\<close> the constant-product pools;
  \<^verbatim>\<open>Liquidity_Depth\<close> the price buckets of the depth chart; \<^verbatim>\<open>Dex_State\<close> the
  storage; \<^verbatim>\<open>Order_Book\<close> creating and cancelling orders and the handlers around them;
  \<^verbatim>\<open>Book_Invariant\<close> the invariant of the order book (indexes, ids, and the depth charts of a
  set of pairs, the tracked ones) and what the book owes to its users;
  \<^verbatim>\<open>Book_Handlers\<close> that every handler keeps the invariant and pays out no more than the
  book set aside. The invariant puts no condition on the parameters of pairs: the minimum order size may
  be zero, orders may be of size zero. A pair stops being tracked when the owner updates its parameters
  while orders rest in its book. \<^verbatim>\<open>Book_Blocked\<close> shows the orders that cannot be cancelled:
  those of a pair whose bucket sizes have been changed, and bids of size zero;
  \<^verbatim>\<open>Auction_Halt\<close>, by evaluating an example, that the latter stop the auction.
  \<^verbatim>\<open>Geometric\<close> models the
  oracle-priced pools, \<^verbatim>\<open>Pools\<close> the two kinds of pools behind one interface, the routes
  across pools and the handlers that provide and withdraw liquidity and swap, over an environment
  \<open>dex_env\<close> of prices, token supplies and fee rates; \<^verbatim>\<open>Pool_Safety\<close> proves
  that they conserve funds. \<^verbatim>\<open>Auction\<close> models the auction at the end of every block
  (\<^verbatim>\<open>cron.rs\<close>) and the dispatch of messages; \<^verbatim>\<open>Auction_Safety\<close> follows
  each of its steps through the book, the reserves and the amounts owed; \<^verbatim>\<open>Exchange\<close> proves
  what an auction promises, that the taxman accepts its fees, and composes everything: the invariant of
  runs in which messages, auctions and failed auctions are interleaved (\<open>exchange_run\<close>, which counts
  the cash of the exchange and the passive bids filled), and that in such runs owners can cancel the orders
  of tracked pairs. Runs assume of a message only what its types say (\<open>admissible\<close>), and that the
  exchange itself sends nothing but the auction. An auction may lose up to one millionth of a unit of a
  token with each passive bid it fills; the statements carry this as an explicit term.

  \<^bold>\<open>The oracle.\<close> \<^verbatim>\<open>Wormhole\<close> models the parsing and the verification of signed
  messages (\<^verbatim>\<open>pyth/types\<close>), with Keccak, public key recovery and the decoders of the Pyth
  libraries as parameters; \<^verbatim>\<open>Oracle\<close> the contract \<^verbatim>\<open>dango/oracle\<close>, its
  querier and the prices. Its runs record the successful calls with their contexts, so that the price of
  a run is traced to the call, and the block time, at which its signatures were checked.

  \<^bold>\<open>Lending.\<close> \<^verbatim>\<open>Lending\<close> models \<^verbatim>\<open>dango/lending\<close>: markets with their
  indices, the computations of \<^verbatim>\<open>core\<close>, messages and queries. \<^verbatim>\<open>Lending_Safety\<close> gives
  the exact rounding of its conversions and that every message moves the markets forward;
  \<^verbatim>\<open>Lending_Deposits\<close> treats deposits and withdrawals, \<^verbatim>\<open>Lending_Debts\<close> debts,
  runs, and where the market's total departs from the debts.

  \<^bold>\<open>Hyperlane.\<close> \<^verbatim>\<open>Hyperlane_Types\<close> models the wire formats, addresses and hashes of
  \<^verbatim>\<open>hyperlane/types\<close> and that they read back what they write; \<^verbatim>\<open>Incremental_Tree\<close> the
  tree of the messages sent, equal to the Merkle tree over the list of leaves; \<^verbatim>\<open>Hyperlane\<close> the
  mailbox, the multisig security module and the announcements of validators;
  \<^verbatim>\<open>Hyperlane_Safety\<close> follows the runs of the mailbox. \<^verbatim>\<open>Gateway\<close> models
  \<^verbatim>\<open>dango/gateway\<close> and \<^verbatim>\<open>dango/warp\<close>, which bridge tokens over the mailbox;
  \<^verbatim>\<open>Gateway_Safety\<close> composes the gateway with the bank (\<open>bridge_run\<close>, from any supplies
  the bank starts with), follows the quotas
  of a window, and a transfer from the gateway of one chain to that of the other.

  \<^bold>\<open>The state commitment\<close> (\<^verbatim>\<open>grug/jellyfish-merkle\<close>), over a hash function that is a
  parameter. \<^verbatim>\<open>Bit_Array\<close> models the bit paths and their iterators, \<^verbatim>\<open>Merkle_Tree\<close> the
  nodes and the application of batches, \<^verbatim>\<open>Merkle_Proof\<close> proving and verifying.
  \<^verbatim>\<open>Merkle_Spec\<close> is the abstract tree a version stands for, determined by its contents;
  \<^verbatim>\<open>Merkle_Store\<close> relates it to the nodes in storage; \<^verbatim>\<open>Merkle_Apply\<close> and
  \<^verbatim>\<open>Merkle_Step\<close> prove what the application does at leaves and at internal nodes;
  \<^verbatim>\<open>Merkle_History\<close> follows versions through applying and pruning (\<open>history\<close>);
  \<^verbatim>\<open>Merkle_Verify\<close> treats completeness and soundness of proofs, and \<^verbatim>\<open>Merkle_Safety\<close>
  states the properties. \<^verbatim>\<open>Versioned_Map\<close> and \<^verbatim>\<open>Memory_Db\<close> model the database
  that keeps the values of all versions beside the tree (\<^verbatim>\<open>grug/db/memory\<close>): in every run the
  tree of a version commits to its values. \<^verbatim>\<open>Lite_Db\<close> is the batch hash of
  \<^verbatim>\<open>grug/db/disk-lite\<close>.

  \<^bold>\<open>Bounds.\<close> Integers are words of their Rust width, decimals words of 128 or 256 bits. Every
  loop is a structural recursion except the Newton iteration of the square root, whose termination is
  proved. Iterators over storage maps are lists.

  \<^bold>\<open>Not modelled.\<close> Encodings (Borsh, JSON, the order-preserving key encoding), the virtual
  machines, the disk databases, the indexers, servers and clients; gas accounting inside contracts; the
  remaining contracts.
\<close>

end
